(* ===== verification/Prelude.thy ===== *)
theory Prelude
  imports Main "HOL-Library.Word"
begin

text \<open>
  Shared vocabulary of the development: machine integers at the widths the C++ code uses,
  byte buffers, results that may be errors, little-endian reads and writes (the code reads
  packet fields by \<open>reinterpret_cast\<close> on a little-endian host), and the list and word
  lemmas the components share.
\<close>

unbundle bit_operations_syntax

type_synonym u8 = "8 word"
type_synonym u16 = "16 word"
type_synonym u32 = "32 word"
type_synonym u64 = "64 word"
type_synonym bytes = "u8 list"

named_theorems read_simps \<open>how reads of a byte buffer compute\<close>
named_theorems result_simps \<open>how results that may be errors compute\<close>
named_theorems ctor_defs \<open>definitions of the packet constructors\<close>

section \<open>Results that may be errors\<close>

definition sbind :: "'e + 'a \<Rightarrow> ('a \<Rightarrow> 'e + 'b) \<Rightarrow> 'e + 'b" where
  "sbind m f = (case m of Inl e \<Rightarrow> Inl e | Inr x \<Rightarrow> f x)"

definition throw_if :: "bool \<Rightarrow> 'e \<Rightarrow> 'e + unit" where
  "throw_if c e = (if c then Inl e else Inr ())"

lemma sbind_simps [simp, result_simps]:
  "sbind (Inl e) f = Inl e"
  "sbind (Inr x) f = f x"
  by (simp_all add: sbind_def)

lemma throw_if_simps [simp, result_simps]:
  "throw_if True e = Inl e"
  "throw_if False e = Inr ()"
  by (simp_all add: throw_if_def)

lemma sbind_throw_if [result_simps]: "sbind (throw_if c e) f = (if c then Inl e else f ())"
  by simp

lemma sbind_assoc: "sbind (sbind m f) g = sbind m (\<lambda>x. sbind (f x) g)"
  by (cases m) simp_all

lemma sbind_eq_Inr: "sbind m f = Inr y \<longleftrightarrow> (\<exists>x. m = Inr x \<and> f x = Inr y)"
  by (cases m) simp_all

lemma sbind_eq_Inl: "sbind m f = Inl e \<longleftrightarrow> m = Inl e \<or> (\<exists>x. m = Inr x \<and> f x = Inl e)"
  by (cases m) simp_all

section \<open>Little-endian values\<close>

fun le_val :: "bytes \<Rightarrow> 'a::len word" where
  "le_val [] = 0"
| "le_val (b # bs) = ucast b OR push_bit 8 (le_val bs)"

fun le_bytes :: "nat \<Rightarrow> 'a::len word \<Rightarrow> bytes" where
  "le_bytes 0 w = []"
| "le_bytes (Suc n) w = ucast w # le_bytes n (drop_bit 8 w)"

lemma length_le_bytes [simp]: "length (le_bytes n w) = n"
  by (induction n arbitrary: w) simp_all

lemma le_val_le_bytes: "le_val (le_bytes n w) = take_bit (8 * n) (w :: 'a::len word)"
proof (induction n arbitrary: w)
  case 0
  show ?case by simp
next
  case (Suc n)
  show ?case
    by (rule bit_word_eqI)
      (auto simp: Suc.IH bit_simps not_less)
qed

lemma le_bytes_le_val:
  "8 * length bs \<le> LENGTH('a) \<Longrightarrow> le_bytes (length bs) (le_val bs :: 'a::len word) = bs"
proof (induction bs)
  case Nil
  show ?case by simp
next
  case (Cons b bs)
  let ?w = "le_val bs :: 'a word"
  have len: "8 * length bs + 8 \<le> LENGTH('a)"
    using Cons.prems by simp
  have head: "(ucast (ucast b OR push_bit 8 ?w) :: 8 word) = b"
    using len by (intro bit_word_eqI) (auto simp: bit_simps)
  have small: "take_bit (8 * length bs) ?w = ?w"
    using le_val_le_bytes [of "length bs" ?w] Cons.IH len by simp
  have "drop_bit 8 (ucast b OR push_bit 8 ?w) = ?w"
  proof (rule bit_word_eqI)
    fix n
    assume n: "n < LENGTH('a)"
    have b: "bit ?w n \<Longrightarrow> n < 8 * length bs"
      using small by (metis bit_take_bit_iff)
    show "bit (drop_bit 8 (ucast b OR push_bit 8 ?w)) n = bit ?w n"
      using b len n by (auto simp: bit_simps dest: bit_imp_le_length)
  qed
  with head Cons.IH len show ?case by simp
qed


lemma length_4_le_bytes: "length bs = 4 \<Longrightarrow> le_bytes 4 (le_val bs :: u32) = bs"
  using le_bytes_le_val [of bs, where 'a = 32] by simp

lemma le_val_le_bytes_u32 [simp]: "le_val (le_bytes 4 (w :: u32)) = w"
  by (simp add: le_val_le_bytes take_bit_word_eq_self)

lemma le_val_le_bytes_u64 [simp]: "le_val (le_bytes 8 (w :: u64)) = w"
  by (simp add: le_val_le_bytes take_bit_word_eq_self)

section \<open>Reads and writes of a buffer\<close>

text \<open>
  \<open>u32_at\<close> and \<open>u64_at\<close> read at a byte offset; they are used below a check that the offset
  lies in the buffer. \<open>put_bytes\<close> overwrites in place and leaves a buffer that is too short as
  it is.
\<close>

definition u32_at :: "bytes \<Rightarrow> nat \<Rightarrow> u32" where
  "u32_at mem off = le_val (take 4 (drop off mem))"

definition u64_at :: "bytes \<Rightarrow> nat \<Rightarrow> u64" where
  "u64_at mem off = le_val (take 8 (drop off mem))"

definition put_bytes :: "bytes \<Rightarrow> nat \<Rightarrow> bytes \<Rightarrow> bytes" where
  "put_bytes mem off bs =
     (if off + length bs \<le> length mem
      then take off mem @ bs @ drop (off + length bs) mem else mem)"

definition put32 :: "bytes \<Rightarrow> nat \<Rightarrow> u32 \<Rightarrow> bytes" where
  "put32 mem off w = put_bytes mem off (le_bytes 4 w)"

definition put64 :: "bytes \<Rightarrow> nat \<Rightarrow> u64 \<Rightarrow> bytes" where
  "put64 mem off w = put_bytes mem off (le_bytes 8 w)"

lemma length_put_bytes [simp]: "length (put_bytes mem off bs) = length mem"
  by (auto simp: put_bytes_def)

lemma length_put32 [simp]: "length (put32 mem off w) = length mem"
  by (simp add: put32_def)

lemma length_put64 [simp]: "length (put64 mem off w) = length mem"
  by (simp add: put64_def)

lemma take_drop_put_bytes_same:
  "off + length bs \<le> length mem \<Longrightarrow> take (length bs) (drop off (put_bytes mem off bs)) = bs"
  by (simp add: put_bytes_def)

lemma take_drop_put_bytes_before:
  "o' + n \<le> off \<Longrightarrow> take n (drop o' (put_bytes mem off bs)) = take n (drop o' mem)"
  by (cases "off + length bs \<le> length mem") (simp_all add: put_bytes_def drop_take)

lemma take_drop_put_bytes_after:
  assumes "off + length bs \<le> o'"
  shows "take n (drop o' (put_bytes mem off bs)) = take n (drop o' mem)"
proof (cases "off + length bs \<le> length mem")
  case True
  then have "drop o' (put_bytes mem off bs) = drop (o' - (off + length bs)) (drop (off + length bs) mem)"
    using assms by (simp add: put_bytes_def min_def)
  then show ?thesis using assms by simp
qed (simp add: put_bytes_def)

lemma u32_at_put32_same [read_simps]:
  "off + 4 \<le> length mem \<Longrightarrow> u32_at (put32 mem off w) off = w"
  using take_drop_put_bytes_same [of off "le_bytes 4 w" mem]
  by (simp add: u32_at_def put32_def)

lemma u32_at_put32_other [read_simps]:
  "o' + 4 \<le> off \<or> off + 4 \<le> o' \<Longrightarrow> u32_at (put32 mem off w) o' = u32_at mem o'"
  by (auto simp: u32_at_def put32_def take_drop_put_bytes_before take_drop_put_bytes_after)

lemma u64_at_put32_other [read_simps]:
  "o' + 8 \<le> off \<or> off + 4 \<le> o' \<Longrightarrow> u64_at (put32 mem off w) o' = u64_at mem o'"
  by (auto simp: u64_at_def put32_def take_drop_put_bytes_before take_drop_put_bytes_after)

lemma u64_at_put64_same [read_simps]:
  "off + 8 \<le> length mem \<Longrightarrow> u64_at (put64 mem off w) off = w"
  using take_drop_put_bytes_same [of off "le_bytes 8 w" mem]
  by (simp add: u64_at_def put64_def)

lemma u32_at_put64_other [read_simps]:
  "o' + 4 \<le> off \<or> off + 8 \<le> o' \<Longrightarrow> u32_at (put64 mem off w) o' = u32_at mem o'"
  by (auto simp: u32_at_def put64_def take_drop_put_bytes_before take_drop_put_bytes_after)

lemma u32_at_take [read_simps]: "off + 4 \<le> n \<Longrightarrow> u32_at (take n mem) off = u32_at mem off"
  by (simp add: u32_at_def drop_take min_def)

lemma u64_at_take [read_simps]: "off + 8 \<le> n \<Longrightarrow> u64_at (take n mem) off = u64_at mem off"
  by (simp add: u64_at_def drop_take min_def)

lemma u32_at_append [read_simps]: "off + 4 \<le> length a \<Longrightarrow> u32_at (a @ b) off = u32_at a off"
  by (simp add: u32_at_def)

lemma u64_at_append [read_simps]: "off + 8 \<le> length a \<Longrightarrow> u64_at (a @ b) off = u64_at a off"
  by (simp add: u64_at_def)

lemma u32_at_drop [read_simps]: "u32_at (drop n mem) off = u32_at mem (n + off)"
  by (simp add: u32_at_def add.commute)

section \<open>Words\<close>

lemma unat_u32_less [simp]: "unat (w :: u32) < 4294967296"
  using unsigned_less [of w, where 'a = nat] by simp

lemma take_bit_small: "unat w < 2 ^ n \<Longrightarrow> take_bit n (w :: 'a::len word) = w"
  by (rule word_unat_eq_iff [THEN iffD2])
    (simp add: unsigned_take_bit_eq take_bit_nat_eq_self)

lemma bit_small: "unat w < 2 ^ n \<Longrightarrow> bit (w :: 'a::len word) m \<Longrightarrow> m < n"
  using take_bit_small [of w n] by (metis bit_take_bit_iff)

lemma unat_take_bit_less: "unat (take_bit n (w :: 'a::len word)) < 2 ^ n"
  by (simp add: unsigned_take_bit_eq)

text \<open>The masks of the code as \<open>take_bit\<close>, so that bit reasoning applies to them.\<close>

lemma and_low_mask_u32:
  "(w :: u32) AND 0xff = take_bit 8 w"
  "w AND 0x3ff = take_bit 10 w"
  "w AND 0xfff = take_bit 12 w"
  "w AND 0xffff = take_bit 16 w"
  "w AND 0x7fff = take_bit 15 w"
  "w AND 0xfffff = take_bit 20 w"
  "w AND 0x1fffff = take_bit 21 w"
  "w AND 0x3fffff = take_bit 22 w"
  "w AND 0xffffff = take_bit 24 w"
  "w AND 0x7fffffff = take_bit 31 w"
  by (simp_all add: take_bit_eq_mask mask_eq_exp_minus_1)

section \<open>Arrays of words\<close>

text \<open>The bytes of an array of 32-bit words, as the code fills a packet through a \<open>uint32_t\<close> pointer.\<close>

definition words_bytes :: "u32 list \<Rightarrow> bytes" where
  "words_bytes ws = concat (List.map (le_bytes 4) ws)"

lemma length_words_bytes [simp]: "length (words_bytes ws) = 4 * length ws"
  by (induction ws) (simp_all add: words_bytes_def)

lemma words_bytes_Cons: "words_bytes (w # ws) = le_bytes 4 w @ words_bytes ws"
  by (simp add: words_bytes_def)

lemma words_bytes_append: "words_bytes (a @ b) = words_bytes a @ words_bytes b"
  by (simp add: words_bytes_def)

lemma u32_at_words: "i < length ws \<Longrightarrow> u32_at (words_bytes ws) (4 * i) = ws ! i"
proof (induction ws arbitrary: i)
  case (Cons w ws)
  show ?case
  proof (cases i)
    case 0
    then show ?thesis by (simp add: u32_at_def words_bytes_Cons)
  next
    case (Suc j)
    then show ?thesis using Cons.IH [of j] Cons.prems by (simp add: u32_at_def words_bytes_Cons)
  qed
qed simp

lemma unat_of_nat_u32: "n < 4294967296 \<Longrightarrow> unat (of_nat n :: u32) = n"
  by (simp add: unat_of_nat)

end
