(* ===== verification/Packet_Types.thy ===== *)
theory Packet_Types
  imports Prelude
begin

text \<open>
  The constants of \<open>common/ADARA.h\<close>: packet types and their current versions, the macros that
  pack a base type and a version into the 32-bit type field, and the status and severity codes
  that a variable update may carry.
\<close>

unbundle bit_operations_syntax

section \<open>The type field\<close>

definition adara_pkt_type :: "u32 \<Rightarrow> u32 \<Rightarrow> u32" where
  "adara_pkt_type base ver = push_bit 8 base OR ver"

definition adara_base_pkt_type :: "u32 \<Rightarrow> u32" where
  "adara_base_pkt_type t = drop_bit 8 t"

definition adara_pkt_version :: "u32 \<Rightarrow> u32" where
  "adara_pkt_version t = t AND 0xff"

lemma pkt_type_split: "adara_pkt_type (adara_base_pkt_type t) (adara_pkt_version t) = t"
  by (rule bit_word_eqI)
    (auto simp: adara_pkt_type_def adara_base_pkt_type_def adara_pkt_version_def
      and_low_mask_u32 bit_simps)

lemma pkt_type_version: "ver < 256 \<Longrightarrow> adara_pkt_version (adara_pkt_type base ver) = ver"
  by (rule bit_word_eqI)
    (use bit_small [of ver 8] in \<open>auto simp: adara_pkt_type_def adara_pkt_version_def
      and_low_mask_u32 bit_simps word_less_nat_alt\<close>)

lemma pkt_type_base:
  assumes "base < 0x1000000" and "ver < 256"
  shows "adara_base_pkt_type (adara_pkt_type base ver) = base"
proof (rule bit_word_eqI)
  fix n
  have "bit ver m \<Longrightarrow> m < 8" and "bit base m \<Longrightarrow> m < 24" for m
    using assms bit_small [of ver 8 m] bit_small [of base 24 m]
    by (simp_all add: word_less_nat_alt)
  then show "bit (adara_base_pkt_type (adara_pkt_type base ver)) n = bit base n"
    by (fastforce simp: adara_pkt_type_def adara_base_pkt_type_def bit_simps)
qed

section \<open>Packet types\<close>

datatype pkt_kind =
    RAW_EVENT_TYPE | RTDL_TYPE | SOURCE_LIST_TYPE | MAPPED_EVENT_TYPE
  | BANKED_EVENT_TYPE | BANKED_EVENT_STATE_TYPE | BEAM_MONITOR_EVENT_TYPE
  | PIXEL_MAPPING_TYPE | PIXEL_MAPPING_ALT_TYPE | RUN_STATUS_TYPE | RUN_INFO_TYPE
  | TRANS_COMPLETE_TYPE | CLIENT_HELLO_TYPE | STREAM_ANNOTATION_TYPE | SYNC_TYPE
  | HEARTBEAT_TYPE | GEOMETRY_TYPE | BEAMLINE_INFO_TYPE | DATA_DONE_TYPE
  | BEAM_MONITOR_CONFIG_TYPE | DETECTOR_BANK_SETS_TYPE | DEVICE_DESC_TYPE
  | VAR_VALUE_U32_TYPE | VAR_VALUE_DOUBLE_TYPE | VAR_VALUE_STRING_TYPE
  | VAR_VALUE_U32_ARRAY_TYPE | VAR_VALUE_DOUBLE_ARRAY_TYPE
  | MULT_VAR_VALUE_U32_TYPE | MULT_VAR_VALUE_DOUBLE_TYPE | MULT_VAR_VALUE_STRING_TYPE
  | MULT_VAR_VALUE_U32_ARRAY_TYPE | MULT_VAR_VALUE_DOUBLE_ARRAY_TYPE

fun type_code :: "pkt_kind \<Rightarrow> u32" where
  "type_code RAW_EVENT_TYPE = 0x0000"
| "type_code RTDL_TYPE = 0x0001"
| "type_code SOURCE_LIST_TYPE = 0x0002"
| "type_code MAPPED_EVENT_TYPE = 0x0003"
| "type_code BANKED_EVENT_TYPE = 0x4000"
| "type_code BANKED_EVENT_STATE_TYPE = 0x4100"
| "type_code BEAM_MONITOR_EVENT_TYPE = 0x4001"
| "type_code PIXEL_MAPPING_TYPE = 0x4002"
| "type_code PIXEL_MAPPING_ALT_TYPE = 0x4102"
| "type_code RUN_STATUS_TYPE = 0x4003"
| "type_code RUN_INFO_TYPE = 0x4004"
| "type_code TRANS_COMPLETE_TYPE = 0x4005"
| "type_code CLIENT_HELLO_TYPE = 0x4006"
| "type_code STREAM_ANNOTATION_TYPE = 0x4007"
| "type_code SYNC_TYPE = 0x4008"
| "type_code HEARTBEAT_TYPE = 0x4009"
| "type_code GEOMETRY_TYPE = 0x400A"
| "type_code BEAMLINE_INFO_TYPE = 0x400B"
| "type_code DATA_DONE_TYPE = 0x400C"
| "type_code BEAM_MONITOR_CONFIG_TYPE = 0x400D"
| "type_code DETECTOR_BANK_SETS_TYPE = 0x400E"
| "type_code DEVICE_DESC_TYPE = 0x8000"
| "type_code VAR_VALUE_U32_TYPE = 0x8001"
| "type_code VAR_VALUE_DOUBLE_TYPE = 0x8002"
| "type_code VAR_VALUE_STRING_TYPE = 0x8003"
| "type_code VAR_VALUE_U32_ARRAY_TYPE = 0x8004"
| "type_code VAR_VALUE_DOUBLE_ARRAY_TYPE = 0x8005"
| "type_code MULT_VAR_VALUE_U32_TYPE = 0x8101"
| "type_code MULT_VAR_VALUE_DOUBLE_TYPE = 0x8102"
| "type_code MULT_VAR_VALUE_STRING_TYPE = 0x8103"
| "type_code MULT_VAR_VALUE_U32_ARRAY_TYPE = 0x8104"
| "type_code MULT_VAR_VALUE_DOUBLE_ARRAY_TYPE = 0x8105"

fun current_version :: "pkt_kind \<Rightarrow> u32" where
  "current_version RAW_EVENT_TYPE = 1"
| "current_version RTDL_TYPE = 1"
| "current_version SOURCE_LIST_TYPE = 0"
| "current_version MAPPED_EVENT_TYPE = 1"
| "current_version BANKED_EVENT_TYPE = 1"
| "current_version BANKED_EVENT_STATE_TYPE = 0"
| "current_version BEAM_MONITOR_EVENT_TYPE = 1"
| "current_version PIXEL_MAPPING_TYPE = 0"
| "current_version PIXEL_MAPPING_ALT_TYPE = 1"
| "current_version RUN_STATUS_TYPE = 1"
| "current_version RUN_INFO_TYPE = 0"
| "current_version TRANS_COMPLETE_TYPE = 0"
| "current_version CLIENT_HELLO_TYPE = 1"
| "current_version STREAM_ANNOTATION_TYPE = 0"
| "current_version SYNC_TYPE = 0"
| "current_version HEARTBEAT_TYPE = 0"
| "current_version GEOMETRY_TYPE = 0"
| "current_version BEAMLINE_INFO_TYPE = 1"
| "current_version DATA_DONE_TYPE = 0"
| "current_version BEAM_MONITOR_CONFIG_TYPE = 1"
| "current_version DETECTOR_BANK_SETS_TYPE = 0"
| "current_version DEVICE_DESC_TYPE = 0"
| "current_version VAR_VALUE_U32_TYPE = 0"
| "current_version VAR_VALUE_DOUBLE_TYPE = 0"
| "current_version VAR_VALUE_STRING_TYPE = 0"
| "current_version VAR_VALUE_U32_ARRAY_TYPE = 0"
| "current_version VAR_VALUE_DOUBLE_ARRAY_TYPE = 0"
| "current_version MULT_VAR_VALUE_U32_TYPE = 0"
| "current_version MULT_VAR_VALUE_DOUBLE_TYPE = 0"
| "current_version MULT_VAR_VALUE_STRING_TYPE = 0"
| "current_version MULT_VAR_VALUE_U32_ARRAY_TYPE = 0"
| "current_version MULT_VAR_VALUE_DOUBLE_ARRAY_TYPE = 0"

lemma type_code_bound: "type_code k < 0x1000000"
  by (cases k) simp_all

lemma current_version_bound: "current_version k < 256"
  by (cases k) simp_all

text \<open>Every kind, in the order of the \<open>switch\<close> of \<open>Parser::rxPacket\<close>.\<close>

definition dispatch_order :: "pkt_kind list" where
  "dispatch_order =
     [RAW_EVENT_TYPE, MAPPED_EVENT_TYPE, RTDL_TYPE, SOURCE_LIST_TYPE, BANKED_EVENT_TYPE,
      BANKED_EVENT_STATE_TYPE, BEAM_MONITOR_EVENT_TYPE, PIXEL_MAPPING_TYPE,
      PIXEL_MAPPING_ALT_TYPE, RUN_STATUS_TYPE, RUN_INFO_TYPE, TRANS_COMPLETE_TYPE,
      CLIENT_HELLO_TYPE, STREAM_ANNOTATION_TYPE, SYNC_TYPE, HEARTBEAT_TYPE, GEOMETRY_TYPE,
      BEAMLINE_INFO_TYPE, BEAM_MONITOR_CONFIG_TYPE, DETECTOR_BANK_SETS_TYPE, DATA_DONE_TYPE,
      DEVICE_DESC_TYPE, VAR_VALUE_U32_TYPE, VAR_VALUE_DOUBLE_TYPE, VAR_VALUE_STRING_TYPE,
      VAR_VALUE_U32_ARRAY_TYPE, VAR_VALUE_DOUBLE_ARRAY_TYPE, MULT_VAR_VALUE_U32_TYPE,
      MULT_VAR_VALUE_DOUBLE_TYPE, MULT_VAR_VALUE_STRING_TYPE, MULT_VAR_VALUE_U32_ARRAY_TYPE,
      MULT_VAR_VALUE_DOUBLE_ARRAY_TYPE]"

definition kind_of_base :: "u32 \<Rightarrow> pkt_kind option" where
  "kind_of_base b = find (\<lambda>k. type_code k = b) dispatch_order"

lemma kind_of_base_type_code: "kind_of_base (type_code k) = Some k"
  by (cases k) (simp_all add: kind_of_base_def dispatch_order_def)

lemma type_code_inject: "type_code k = type_code k' \<Longrightarrow> k = k'"
  by (metis kind_of_base_type_code option.inject)

lemma type_code_kind_of_base: "kind_of_base b = Some k \<Longrightarrow> type_code k = b"
  by (auto simp: kind_of_base_def find_Some_iff)

section \<open>Status and severity of a variable update\<close>

definition variable_statuses :: "u16 list" where
  "variable_statuses =
     [0, 1, 2, 3, 4, 5, 6, 7, 8, 9, 10, 11, 12, 13, 14, 15, 16, 17, 18, 19, 20, 21, 0xfffe, 0xffff]"

definition variable_severities :: "u16 list" where
  "variable_severities = [0, 1, 2, 3, 0xffff]"

text \<open>\<open>validate_status\<close> and \<open>validate_severity\<close> return True when the code is \<^emph>\<open>not\<close> known.\<close>

definition validate_status :: "u16 \<Rightarrow> bool" where
  "validate_status v = (v \<notin> set variable_statuses)"

definition validate_severity :: "u16 \<Rightarrow> bool" where
  "validate_severity v = (v \<notin> set variable_severities)"

end
