(* ===== verification/Packet_Header.thy ===== *)
theory Packet_Header
  imports Packet_Types
begin

text \<open>
  \<open>PacketHeader\<close> and \<open>Packet\<close> of \<open>common/ADARAPackets.h\<close>. A packet is seen as the code sees
  it: a pointer into a buffer, here the list of bytes from that pointer to the end of what was
  received. A read past that end is the error \<open>Over_Read\<close>; a packet the code refuses is
  \<open>Invalid_Packet\<close> with the text of the exception (without the numbers it prints).
  The locale \<open>packet_ctor\<close> is the contract between the parser and a packet constructor.
\<close>

unbundle bit_operations_syntax

datatype pkt_error = Invalid_Packet string | Over_Read

definition rd32 :: "bytes \<Rightarrow> nat \<Rightarrow> pkt_error + u32" where
  "rd32 mem off = (if off + 4 \<le> length mem then Inr (u32_at mem off) else Inl Over_Read)"

definition rd64 :: "bytes \<Rightarrow> nat \<Rightarrow> pkt_error + u64" where
  "rd64 mem off = (if off + 8 \<le> length mem then Inr (u64_at mem off) else Inl Over_Read)"

definition rd_bytes :: "bytes \<Rightarrow> nat \<Rightarrow> nat \<Rightarrow> pkt_error + bytes" where
  "rd_bytes mem off n =
     (if off + n \<le> length mem then Inr (take n (drop off mem)) else Inl Over_Read)"

lemma rd32_in [read_simps]: "off + 4 \<le> length mem \<Longrightarrow> rd32 mem off = Inr (u32_at mem off)"
  by (simp add: rd32_def)

lemma rd64_in [read_simps]: "off + 8 \<le> length mem \<Longrightarrow> rd64 mem off = Inr (u64_at mem off)"
  by (simp add: rd64_def)

lemma rd_bytes_in [read_simps]:
  "off + n \<le> length mem \<Longrightarrow> rd_bytes mem off n = Inr (take n (drop off mem))"
  by (simp add: rd_bytes_def)

lemma rd32_take [read_simps]:
  "off + 4 \<le> n \<Longrightarrow> n \<le> length mem \<Longrightarrow> rd32 (take n mem) off = rd32 mem off"
  by (simp add: rd32_def u32_at_take)

lemma rd64_take [read_simps]:
  "off + 8 \<le> n \<Longrightarrow> n \<le> length mem \<Longrightarrow> rd64 (take n mem) off = rd64 mem off"
  by (simp add: rd64_def u64_at_take)

lemma rd_bytes_take [read_simps]:
  "off + k \<le> n \<Longrightarrow> n \<le> length mem \<Longrightarrow> rd_bytes (take n mem) off k = rd_bytes mem off k"
  by (simp add: rd_bytes_def drop_take min_def)

section \<open>The header\<close>

record pkt_header =
  payload_len :: u32
  pkt_type :: u32
  base_type :: u32
  version :: u32
  ts_sec :: u64
  ts_nsec :: u64
  pulse_id :: u64

definition header_length :: nat where
  "header_length = 16"

definition epics_epoch_offset :: u32 where
  "epics_epoch_offset = 631152000"

text \<open>The fields of a header that lies in the buffer.\<close>

definition header_at :: "bytes \<Rightarrow> pkt_header" where
  "header_at mem =
     \<lparr>payload_len = u32_at mem 0,
      pkt_type = u32_at mem 4,
      base_type = adara_base_pkt_type (u32_at mem 4),
      version = adara_pkt_version (u32_at mem 4),
      ts_sec = ucast (u32_at mem 8 + epics_epoch_offset),
      ts_nsec = ucast (u32_at mem 12),
      pulse_id = push_bit 32 (ucast (u32_at mem 8)) OR ucast (u32_at mem 12)\<rparr>"

definition PacketHeader :: "bytes \<Rightarrow> pkt_error + pkt_header" where
  "PacketHeader mem = sbind (rd_bytes mem 0 header_length) (\<lambda>_. Inr (header_at mem))"

text \<open>\<open>packet_length\<close> is a 32-bit sum: it wraps for a payload length near \<open>2 ^ 32\<close>.\<close>

definition packet_length :: "pkt_header \<Rightarrow> u32" where
  "packet_length h = payload_len h + 16"

lemma PacketHeader_in [read_simps]:
  "16 \<le> length mem \<Longrightarrow> PacketHeader mem = Inr (header_at mem)"
  by (simp add: PacketHeader_def header_length_def rd_bytes_in)

lemma header_at_take [read_simps]: "16 \<le> n \<Longrightarrow> header_at (take n mem) = header_at mem"
  by (simp add: header_at_def u32_at_take)

lemma header_at_append [read_simps]: "16 \<le> length a \<Longrightarrow> header_at (a @ b) = header_at a"
  by (simp add: header_at_def u32_at_append)

lemma payload_len_header_at: "payload_len (header_at mem) = u32_at mem 0"
  by (simp add: header_at_def)

lemma packet_length_no_wrap:
  "unat (payload_len h) + 16 < 4294967296 \<Longrightarrow> unat (packet_length h) = unat (payload_len h) + 16"
  by (simp add: packet_length_def unat_word_ariths)

text \<open>The bytes the packet claims, computed without the wrap.\<close>

definition packet_bytes :: "bytes \<Rightarrow> nat" where
  "packet_bytes mem = 16 + unat (u32_at mem 0)"

definition in_packet :: "bytes \<Rightarrow> bool" where
  "in_packet mem = (16 \<le> length mem \<and> packet_bytes mem \<le> length mem)"

lemma in_packetD: "in_packet mem \<Longrightarrow> 16 \<le> length mem \<and> 16 + unat (u32_at mem 0) \<le> length mem"
  by (simp add: in_packet_def packet_bytes_def)

lemma packet_bytes_ge [simp]: "16 \<le> packet_bytes mem"
  by (simp add: packet_bytes_def)

section \<open>Payload fields\<close>

text \<open>\<open>m_fields[i]\<close>: the payload as an array of 32-bit words.\<close>

definition fld :: "bytes \<Rightarrow> nat \<Rightarrow> u32" where
  "fld mem i = u32_at mem (16 + 4 * i)"

definition rd_fld :: "bytes \<Rightarrow> nat \<Rightarrow> pkt_error + u32" where
  "rd_fld mem i = rd32 mem (16 + 4 * i)"

definition put_fld :: "bytes \<Rightarrow> nat \<Rightarrow> u32 \<Rightarrow> bytes" where
  "put_fld mem i w = put32 mem (16 + 4 * i) w"

lemma rd_fld_in [read_simps]: "20 + 4 * i \<le> length mem \<Longrightarrow> rd_fld mem i = Inr (fld mem i)"
  by (simp add: rd_fld_def fld_def rd32_in)

lemma fld_take [read_simps]: "20 + 4 * i \<le> n \<Longrightarrow> fld (take n mem) i = fld mem i"
  by (simp add: fld_def u32_at_take)

lemma rd_fld_take [read_simps]:
  "20 + 4 * i \<le> n \<Longrightarrow> n \<le> length mem \<Longrightarrow> rd_fld (take n mem) i = rd_fld mem i"
  by (simp add: rd_fld_def rd32_take)

lemma length_put_fld [simp]: "length (put_fld mem i w) = length mem"
  by (simp add: put_fld_def)

lemma fld_put_fld_same [read_simps]: "20 + 4 * i \<le> length mem \<Longrightarrow> fld (put_fld mem i w) i = w"
  by (simp add: fld_def put_fld_def u32_at_put32_same)

lemma fld_put_fld_other [read_simps]: "i \<noteq> j \<Longrightarrow> fld (put_fld mem i w) j = fld mem j"
  by (auto simp: fld_def put_fld_def intro!: u32_at_put32_other)

lemma header_at_put_fld [read_simps]: "header_at (put_fld mem i w) = header_at mem"
  by (simp add: header_at_def put_fld_def u32_at_put32_other)

section \<open>Packets written as words\<close>

text \<open>The code fills most packets through a \<open>uint32_t\<close> array; whatever follows does not matter.\<close>

lemma u32_at_words_append:
  "i < length ws \<Longrightarrow> u32_at (words_bytes ws @ rest) (4 * i) = ws ! i"
  using u32_at_words [of i ws] by (simp add: u32_at_append)

lemma fld_words_append:
  "4 + i < length ws \<Longrightarrow> fld (words_bytes ws @ rest) i = ws ! (4 + i)"
  using u32_at_words_append [of "4 + i" ws rest] by (simp add: fld_def algebra_simps)

lemma rd_fld_words_append:
  "4 + i < length ws \<Longrightarrow> rd_fld (words_bytes ws @ rest) i = Inr (ws ! (4 + i))"
  by (simp add: rd_fld_in fld_words_append)

lemma header_words_append:
  assumes "4 \<le> length ws"
  shows "header_at (words_bytes ws @ rest) =
     \<lparr>payload_len = ws ! 0, pkt_type = ws ! 1, base_type = adara_base_pkt_type (ws ! 1),
      version = adara_pkt_version (ws ! 1), ts_sec = ucast (ws ! 2 + epics_epoch_offset),
      ts_nsec = ucast (ws ! 3), pulse_id = push_bit 32 (ucast (ws ! 2)) OR ucast (ws ! 3)\<rparr>"
  using assms u32_at_words_append [of 0 ws rest, OF order.strict_trans2 [OF _ assms]] u32_at_words_append [of 1 ws rest]
    u32_at_words_append [of 2 ws rest] u32_at_words_append [of 3 ws rest]
  by (simp add: header_at_def)

section \<open>Editing a packet in place\<close>

text \<open>
  \<open>setPulseId\<close> writes the two header words of the pulse identifier; \<open>remapVersion\<close> rewrites the
  type word with another version. Both edit the bytes; \<open>remapVersion\<close> also updates the object.
\<close>

definition setPulseId :: "u64 \<Rightarrow> bytes \<Rightarrow> bytes" where
  "setPulseId p mem = put32 (put32 mem 8 (ucast (drop_bit 32 p))) 12 (ucast p)"

definition remapVersion :: "u32 \<Rightarrow> pkt_header \<times> bytes \<Rightarrow> pkt_header \<times> bytes" where
  "remapVersion v hm =
     (let t = adara_pkt_type (base_type (fst hm)) v
      in ((fst hm)\<lparr>version := v, pkt_type := t\<rparr>, put32 (snd hm) 4 t))"

lemma pulse_id_halves:
  "push_bit 32 (ucast (ucast (drop_bit 32 p) :: u32)) OR ucast (ucast p :: u32) = (p :: u64)"
  by (rule bit_word_eqI) (auto simp: bit_simps)

lemma pulse_id_setPulseId: "16 \<le> length mem \<Longrightarrow> pulse_id (header_at (setPulseId p mem)) = p"
  by (simp add: setPulseId_def header_at_def read_simps pulse_id_halves)

lemma setPulseId_frame:
  "payload_len (header_at (setPulseId p mem)) = payload_len (header_at mem)"
  "pkt_type (header_at (setPulseId p mem)) = pkt_type (header_at mem)"
  "fld (setPulseId p mem) i = fld mem i"
  by (simp_all add: setPulseId_def header_at_def fld_def read_simps)

lemma remapVersion_header:
  assumes "16 \<le> length mem" and "v < 256" and "base_type (header_at mem) < 0x1000000"
    and "remapVersion v (header_at mem, mem) = (h, mem')"
  shows "header_at mem' = h"
  using assms
  by (auto simp: remapVersion_def Let_def header_at_def read_simps pkt_type_version pkt_type_base)

section \<open>The contract of a packet constructor\<close>

text \<open>
  A constructor is handed a pointer and reads what it needs. What the parser relies on: when the
  whole packet is in the buffer, and the constructor's precondition holds, it reads nothing past
  the packet (\<open>frame\<close>) and nothing past the buffer (\<open>no_over_read\<close>). \<open>need\<close> is the number of
  payload bytes that a constructor reads before it has checked any length.
\<close>

locale packet_ctor =
  fixes ctor :: "bytes \<Rightarrow> pkt_error + 'a"
    and need :: nat
    and pre :: "bytes \<Rightarrow> bool"
  assumes no_over_read:
      "in_packet mem \<Longrightarrow> 16 + need \<le> packet_bytes mem \<Longrightarrow> pre mem \<Longrightarrow> ctor mem \<noteq> Inl Over_Read"
    and frame:
      "in_packet mem \<Longrightarrow> 16 + need \<le> packet_bytes mem \<Longrightarrow> pre mem \<Longrightarrow>
       ctor (take (packet_bytes mem) mem) = ctor mem"
begin

lemma same_packet_same_result:
  assumes a: "in_packet mem" "16 + need \<le> packet_bytes mem" "pre mem"
    and b: "in_packet mem'" "16 + need \<le> packet_bytes mem'" "pre mem'"
    and eq: "take (packet_bytes mem) mem = take (packet_bytes mem') mem'"
  shows "ctor mem = ctor mem'"
  using frame [OF a] frame [OF b] eq by simp

lemma result_cases:
  assumes "in_packet mem" "16 + need \<le> packet_bytes mem" "pre mem"
  obtains (refused) msg where "ctor mem = Inl (Invalid_Packet msg)"
    | (built) x where "ctor mem = Inr x"
proof (cases "ctor mem")
  case (Inl e)
  with no_over_read [OF assms] refused show ?thesis by (cases e) auto
qed (rule built)

end

text \<open>
  The weaker contract that every constructor can be asked for: what it accepts, it would also
  accept if the buffer ended with the packet, with the same result. A constructor that reads
  past a bad packet before it refuses it still keeps this one.
\<close>

locale packet_reader =
  fixes ctor :: "bytes \<Rightarrow> pkt_error + 'a"
    and pre :: "bytes \<Rightarrow> bool"
  assumes accepted_frame:
    "in_packet mem \<Longrightarrow> pre mem \<Longrightarrow> ctor mem = Inr x \<Longrightarrow>
     ctor (take (packet_bytes mem) mem) = Inr x"
begin

lemma accepted_same:
  assumes "in_packet mem" "pre mem" "in_packet mem'" "pre mem'"
    and "take (packet_bytes mem) mem = take (packet_bytes mem') mem'"
    and "ctor mem = Inr x" and "ctor mem' = Inr y"
  shows "x = y"
  using accepted_frame [OF assms(1,2,6)] accepted_frame [OF assms(3,4,7)] assms(5) by simp

end

sublocale packet_ctor \<subseteq> reader: packet_reader ctor "\<lambda>mem. 16 + need \<le> packet_bytes mem \<and> pre mem"
  by unfold_locales (simp add: frame)

end
