(* ===== verification/Data_Packets.thy ===== *)
theory Data_Packets
  imports Packet_Header
begin

text \<open>
  The packets of a pulse that carry fixed fields (\<open>common/ADARAPackets.h\<close> and \<open>.cc\<close>): raw and
  mapped neutron data, RTDL (accelerator timing), source lists, pixel mappings and run status.
  Each has its constructor, which throws on a bad length, and its field accessors and setters.
\<close>

unbundle bit_operations_syntax

section \<open>RawDataPkt and MappedDataPkt\<close>

definition RawDataPkt :: "bytes \<Rightarrow> pkt_error + pkt_header" where [ctor_defs]:
  "RawDataPkt mem = sbind (PacketHeader mem) (\<lambda>h.
     if version h = 0 \<and> unat (payload_len h) < 6 * 4
     then Inl (Invalid_Packet ''RawDataPacket V0 is too short'')
     else if version h = 1 \<and> unat (payload_len h) < 6 * 4
     then Inl (Invalid_Packet ''RawDataPacket V1 is too short'')
     else if version h > current_version RAW_EVENT_TYPE \<and> unat (payload_len h) < 6 * 4
     then Inl (Invalid_Packet ''Newer RawDataPacket is too short'')
     else Inr h)"

definition MappedDataPkt :: "bytes \<Rightarrow> pkt_error + pkt_header" where [ctor_defs]:
  "MappedDataPkt mem = sbind (RawDataPkt mem) (\<lambda>h.
     if version h = 0 \<and> unat (payload_len h) < 6 * 4
     then Inl (Invalid_Packet ''MappedDataPacket V0 is too short'')
     else if version h = 1 \<and> unat (payload_len h) < 6 * 4
     then Inl (Invalid_Packet ''MappedDataPacket V1 is too short'')
     else if version h > current_version MAPPED_EVENT_TYPE \<and> unat (payload_len h) < 6 * 4
     then Inl (Invalid_Packet ''Newer MappedDataPacket is too short'')
     else Inr h)"

definition raw_sourceID :: "bytes \<Rightarrow> u32" where
  "raw_sourceID mem = fld mem 0"

definition raw_endOfPulse :: "bytes \<Rightarrow> bool" where
  "raw_endOfPulse mem = (fld mem 1 AND 0x80000000 \<noteq> 0)"

definition raw_pulseSeq :: "bytes \<Rightarrow> u32" where
  "raw_pulseSeq mem = drop_bit 16 (fld mem 1) AND 0x7fff"

definition raw_maxPulseSeq :: u32 where
  "raw_maxPulseSeq = 0x7fff + 1"

definition raw_sourceSeq :: "bytes \<Rightarrow> u32" where
  "raw_sourceSeq mem = fld mem 1 AND 0xffff"

definition raw_maxSourceSeq :: u32 where
  "raw_maxSourceSeq = 0xffff + 1"

text \<open>Data flags exist from version 1 on.\<close>

definition raw_dataFlags :: "bytes \<Rightarrow> u32" where
  "raw_dataFlags mem =
     (if version (header_at mem) \<ge> 1 then drop_bit 27 (fld mem 2) AND 0x1f else 0)"

definition raw_flavor :: "bytes \<Rightarrow> u32" where
  "raw_flavor mem = drop_bit 24 (fld mem 2) AND 7"

definition raw_pulseCharge :: "bytes \<Rightarrow> u32" where
  "raw_pulseCharge mem = fld mem 2 AND 0xffffff"

definition raw_badVeto :: "bytes \<Rightarrow> bool" where
  "raw_badVeto mem = (fld mem 3 AND 0x80000000 \<noteq> 0)"

definition raw_badCycle :: "bytes \<Rightarrow> bool" where
  "raw_badCycle mem = (fld mem 3 AND 0x40000000 \<noteq> 0)"

definition raw_timingStatus :: "bytes \<Rightarrow> u8" where
  "raw_timingStatus mem = ucast (drop_bit 22 (fld mem 3))"

definition raw_vetoFlags :: "bytes \<Rightarrow> u16" where
  "raw_vetoFlags mem = ucast (drop_bit 10 (fld mem 3) AND 0xfff)"

definition raw_cycle :: "bytes \<Rightarrow> u16" where
  "raw_cycle mem = ucast (fld mem 3 AND 0x3ff)"

definition raw_intraPulseTime :: "bytes \<Rightarrow> u32" where
  "raw_intraPulseTime mem = fld mem 4"

definition raw_tofCorrected :: "bytes \<Rightarrow> bool" where
  "raw_tofCorrected mem = (fld mem 5 AND 0x80000000 \<noteq> 0)"

definition raw_tofOffset :: "bytes \<Rightarrow> u32" where
  "raw_tofOffset mem = fld mem 5 AND 0x7fffffff"

record event =
  tof :: u32
  pixel :: u32

definition raw_num_events :: "bytes \<Rightarrow> u32" where
  "raw_num_events mem = (payload_len (header_at mem) - 24) div 8"

text \<open>\<open>events()[i]\<close>, read where the pointer arithmetic of the code lands.\<close>

definition rd_raw_event :: "bytes \<Rightarrow> nat \<Rightarrow> pkt_error + event" where
  "rd_raw_event mem i =
     sbind (rd_fld mem (6 + 2 * i)) (\<lambda>t.
     sbind (rd_fld mem (7 + 2 * i)) (\<lambda>p. Inr \<lparr>tof = t, pixel = p\<rparr>))"

definition raw_events :: "bytes \<Rightarrow> event list" where
  "raw_events mem =
     map (\<lambda>i. \<lparr>tof = fld mem (6 + 2 * i), pixel = fld mem (7 + 2 * i)\<rparr>)
       [0..<unat (raw_num_events mem)]"

lemma version_cases_0_1: "version h = 0 \<or> version h = 1 \<or> version h > (1 :: u32)"
  by (metis linorder_neqE word_not_simps(1) word_less_1 not_less_iff_gr_or_eq)

lemma RawDataPkt_ok:
  assumes "16 \<le> length mem"
  shows "RawDataPkt mem = Inr h \<longleftrightarrow> h = header_at mem \<and> 24 \<le> unat (u32_at mem 0)"
  using version_cases_0_1 [of "header_at mem"]
  by (auto simp: RawDataPkt_def read_simps assms payload_len_header_at)

lemma raw_num_events_bound:
  assumes "24 \<le> unat (u32_at mem 0)"
  shows "24 + 8 * unat (raw_num_events mem) \<le> unat (u32_at mem 0)"
proof -
  have "(24 :: u32) \<le> u32_at mem 0" using assms by (simp add: word_le_nat_alt)
  then have "unat (u32_at mem 0 - 24) = unat (u32_at mem 0) - 24"
    by (simp add: unat_sub)
  then show ?thesis
    using assms by (simp add: raw_num_events_def payload_len_header_at unat_div)
qed

lemma raw_events_in_packet:
  assumes "in_packet mem" and "RawDataPkt mem = Inr h" and "i < unat (raw_num_events mem)"
  shows "rd_raw_event (take (packet_bytes mem) mem) i = Inr (raw_events mem ! i)"
proof -
  note in_packetD [OF assms(1)]
  moreover have "24 \<le> unat (u32_at mem 0)" using assms(2) calculation by (simp add: RawDataPkt_ok)
  moreover have "24 + 8 * (i + 1) \<le> unat (u32_at mem 0)"
    using raw_num_events_bound [OF calculation(2)] mult_le_mono2 [OF Suc_leI [OF assms(3)], of 8]
    by simp
  ultimately show ?thesis
    using assms(3) by (simp add: rd_raw_event_def raw_events_def read_simps packet_bytes_def)
qed

section \<open>RTDLPkt\<close>

definition RTDLPkt :: "bytes \<Rightarrow> pkt_error + pkt_header" where [ctor_defs]:
  "RTDLPkt mem = sbind (PacketHeader mem) (\<lambda>h.
     if version h = 0 \<and> payload_len h \<noteq> 120
     then Inl (Invalid_Packet ''RTDL V0 Packet is incorrect length'')
     else if version h = 1 \<and> payload_len h \<noteq> 120
     then Inl (Invalid_Packet ''RTDL V1 Packet is incorrect length'')
     else if version h > current_version RTDL_TYPE \<and> payload_len h < 120
     then Inl (Invalid_Packet ''Newer RTDL Packet is too short'')
     else sbind (rd_fld mem 4) (\<lambda>f.
       if drop_bit 24 f \<noteq> 4 then Inl (Invalid_Packet ''RTDL Packet - Missing ring period'')
       else Inr h))"

definition rtdl_dataFlags :: "bytes \<Rightarrow> u32" where
  "rtdl_dataFlags mem =
     (if version (header_at mem) \<ge> 1 then drop_bit 27 (fld mem 0) AND 0x1f else 0)"

definition rtdl_flavor :: "bytes \<Rightarrow> u32" where
  "rtdl_flavor mem = drop_bit 24 (fld mem 0) AND 7"

definition rtdl_pulseCharge :: "bytes \<Rightarrow> u32" where
  "rtdl_pulseCharge mem = fld mem 0 AND 0xffffff"

definition rtdl_setPulseCharge :: "u32 \<Rightarrow> bytes \<Rightarrow> bytes" where
  "rtdl_setPulseCharge c mem =
     put_fld mem 0 ((fld mem 0 AND 0xff000000) OR (c AND 0x00ffffff))"

definition rtdl_badVeto :: "bytes \<Rightarrow> bool" where
  "rtdl_badVeto mem = (fld mem 1 AND 0x80000000 \<noteq> 0)"

definition rtdl_badCycle :: "bytes \<Rightarrow> bool" where
  "rtdl_badCycle mem = (fld mem 1 AND 0x40000000 \<noteq> 0)"

definition rtdl_timingStatus :: "bytes \<Rightarrow> u8" where
  "rtdl_timingStatus mem = ucast (drop_bit 22 (fld mem 1))"

definition rtdl_vetoFlags :: "bytes \<Rightarrow> u16" where
  "rtdl_vetoFlags mem = ucast (drop_bit 10 (fld mem 1) AND 0xfff)"

definition rtdl_setVetoFlags :: "u16 \<Rightarrow> bytes \<Rightarrow> bytes" where
  "rtdl_setVetoFlags v mem =
     put_fld mem 1 ((fld mem 1 AND 0xffc003ff) OR push_bit 10 (ucast v AND 0xfff))"

definition rtdl_cycle :: "bytes \<Rightarrow> u16" where
  "rtdl_cycle mem = ucast (fld mem 1 AND 0x3ff)"

definition rtdl_intraPulseTime :: "bytes \<Rightarrow> u32" where
  "rtdl_intraPulseTime mem = fld mem 2"

definition rtdl_tofCorrected :: "bytes \<Rightarrow> bool" where
  "rtdl_tofCorrected mem = (fld mem 3 AND 0x80000000 \<noteq> 0)"

definition rtdl_tofOffset :: "bytes \<Rightarrow> u32" where
  "rtdl_tofOffset mem = fld mem 3 AND 0x7fffffff"

definition rtdl_ringPeriod :: "bytes \<Rightarrow> u32" where
  "rtdl_ringPeriod mem = fld mem 4 AND 0xffffff"

definition rtdl_FNA :: "bytes \<Rightarrow> nat \<Rightarrow> u32" where
  "rtdl_FNA mem index = (if index > 24 then 0 else drop_bit 24 (fld mem (5 + index)) AND 0xff)"

definition rtdl_frameData :: "bytes \<Rightarrow> nat \<Rightarrow> u32" where
  "rtdl_frameData mem index = (if index > 24 then -1 else fld mem (5 + index) AND 0xffffff)"

lemma RTDLPkt_ok:
  assumes "in_packet mem" and "RTDLPkt mem = Inr h"
  shows "h = header_at mem \<and> 120 \<le> unat (u32_at mem 0)"
  using assms version_cases_0_1 [of "header_at mem"] in_packetD [OF assms(1)]
  by (auto simp: RTDLPkt_def read_simps payload_len_header_at sbind_eq_Inr word_less_nat_alt
      split: if_splits)

text \<open>The two setters change their own bits and nothing else of the packet.\<close>

lemma charge_bits:
  "((f AND 0xff000000) OR (c AND 0x00ffffff)) AND 0xffffff = (c AND 0xffffff :: u32)"
  "drop_bit 24 ((f AND 0xff000000) OR (c AND 0x00ffffff)) = (drop_bit 24 f :: u32)"
  "drop_bit 27 ((f AND 0xff000000) OR (c AND 0x00ffffff)) = (drop_bit 27 f :: u32)"
proof -
  have m: "(0xff000000 :: u32) = push_bit 24 (mask 8)" by (simp add: mask_eq_exp_minus_1)
  show "((f AND 0xff000000) OR (c AND 0x00ffffff)) AND 0xffffff = (c AND 0xffffff :: u32)"
    and "drop_bit 24 ((f AND 0xff000000) OR (c AND 0x00ffffff)) = (drop_bit 24 f :: u32)"
    and "drop_bit 27 ((f AND 0xff000000) OR (c AND 0x00ffffff)) = (drop_bit 27 f :: u32)"
    by (rule bit_word_eqI, auto simp: m and_low_mask_u32 bit_simps dest: bit_imp_le_length)+
qed

lemma veto_bits:
  "drop_bit 10 ((f AND 0xffc003ff) OR push_bit 10 (v AND 0xfff)) AND 0xfff = (v AND 0xfff :: u32)"
  "((f AND 0xffc003ff) OR push_bit 10 (v AND 0xfff)) AND 0x3ff = (f AND 0x3ff :: u32)"
  "drop_bit 22 ((f AND 0xffc003ff) OR push_bit 10 (v AND 0xfff)) = (drop_bit 22 f :: u32)"
proof -
  have m: "(0xffc003ff :: u32) = push_bit 22 (mask 10) OR mask 10"
    by (simp add: mask_eq_exp_minus_1)
  show "drop_bit 10 ((f AND 0xffc003ff) OR push_bit 10 (v AND 0xfff)) AND 0xfff = (v AND 0xfff :: u32)"
    and "((f AND 0xffc003ff) OR push_bit 10 (v AND 0xfff)) AND 0x3ff = (f AND 0x3ff :: u32)"
    and "drop_bit 22 ((f AND 0xffc003ff) OR push_bit 10 (v AND 0xfff)) = (drop_bit 22 f :: u32)"
    by (rule bit_word_eqI, auto simp: m and_low_mask_u32 bit_simps dest: bit_imp_le_length)+
qed

lemma rtdl_charge_after_set:
  "20 \<le> length mem \<Longrightarrow> rtdl_pulseCharge (rtdl_setPulseCharge c mem) = c AND 0xffffff"
  by (simp add: rtdl_pulseCharge_def rtdl_setPulseCharge_def read_simps charge_bits)

lemma rtdl_setPulseCharge_frame:
  assumes "20 \<le> length mem"
  shows "rtdl_flavor (rtdl_setPulseCharge c mem) = rtdl_flavor mem"
    and "rtdl_dataFlags (rtdl_setPulseCharge c mem) = rtdl_dataFlags mem"
    and "i \<noteq> 0 \<Longrightarrow> fld (rtdl_setPulseCharge c mem) i = fld mem i"
    and "header_at (rtdl_setPulseCharge c mem) = header_at mem"
  using assms unfolding rtdl_flavor_def rtdl_dataFlags_def rtdl_setPulseCharge_def
  by (simp_all only: charge_bits read_simps)

lemma rtdl_veto_after_set:
  assumes "24 \<le> length mem"
  shows "rtdl_vetoFlags (rtdl_setVetoFlags v mem) = v AND 0xfff"
proof -
  have "(0xfff :: u16) = mask 12" by (simp add: mask_eq_exp_minus_1)
  then have "v AND 0xfff = take_bit 12 v" by (simp add: take_bit_eq_mask)
  then have "(ucast (ucast v AND (0xfff :: u32)) :: u16) = v AND 0xfff"
    by (simp only:, intro bit_word_eqI) (auto simp: and_low_mask_u32 bit_simps)
  moreover have "20 + 4 * 1 \<le> length mem" using assms by simp
  ultimately show ?thesis
    unfolding rtdl_vetoFlags_def rtdl_setVetoFlags_def
    by (simp only: fld_put_fld_same veto_bits)
qed

lemma rtdl_setVetoFlags_frame:
  assumes "24 \<le> length mem"
  shows "rtdl_cycle (rtdl_setVetoFlags v mem) = rtdl_cycle mem"
    and "rtdl_timingStatus (rtdl_setVetoFlags v mem) = rtdl_timingStatus mem"
    and "i \<noteq> 1 \<Longrightarrow> fld (rtdl_setVetoFlags v mem) i = fld mem i"
    and "header_at (rtdl_setVetoFlags v mem) = header_at mem"
  using assms unfolding rtdl_cycle_def rtdl_timingStatus_def rtdl_setVetoFlags_def
  by (simp_all only: veto_bits read_simps)

section \<open>Properties\<close>

text \<open>
  The events of an accepted raw event packet lie in the packet: as many as \<open>num_events\<close> says
  can be read from a buffer that ends with the packet, and they are the ones \<open>events\<close> points to.
\<close>
theorem raw_events_read_in_packet:
  assumes "in_packet mem" and "RawDataPkt mem = Inr h"
  shows "List.map (rd_raw_event (take (packet_bytes mem) mem)) [0..<unat (raw_num_events mem)] =
    List.map Inr (raw_events mem)"
  using raw_events_in_packet [OF assms] by (auto simp: raw_events_def intro!: nth_equalityI)

text \<open>
  The corrections the service applies to an RTDL packet in place (pulse charge and veto flags):
  the new values read back, and every other field of the packet, packed in the same words or not,
  is as it was.
\<close>
theorem rtdl_corrections_local:
  assumes "24 \<le> length mem"
    and "mem' = rtdl_setVetoFlags v (rtdl_setPulseCharge c mem)"
  shows "rtdl_pulseCharge mem' = c AND 0xffffff \<and> rtdl_vetoFlags mem' = v AND 0xfff \<and>
    rtdl_flavor mem' = rtdl_flavor mem \<and> rtdl_dataFlags mem' = rtdl_dataFlags mem \<and>
    rtdl_cycle mem' = rtdl_cycle mem \<and> rtdl_timingStatus mem' = rtdl_timingStatus mem \<and>
    header_at mem' = header_at mem \<and> (\<forall>i. i \<notin> {0, 1} \<longrightarrow> fld mem' i = fld mem i)"
proof -
  let ?m = "rtdl_setPulseCharge c mem"
  have len: "24 \<le> length ?m" "20 \<le> length mem"
    using assms(1) by (simp_all add: rtdl_setPulseCharge_def)
  have f0: "fld mem' 0 = fld ?m 0" and hd: "header_at mem' = header_at ?m"
    using rtdl_setVetoFlags_frame(3,4) [OF len(1)] by (simp_all add: assms(2))
  have "rtdl_pulseCharge mem' = rtdl_pulseCharge ?m" "rtdl_flavor mem' = rtdl_flavor ?m"
    "rtdl_dataFlags mem' = rtdl_dataFlags ?m"
    by (simp_all add: rtdl_pulseCharge_def rtdl_flavor_def rtdl_dataFlags_def f0 hd)
  moreover have "rtdl_cycle ?m = rtdl_cycle mem" "rtdl_timingStatus ?m = rtdl_timingStatus mem"
    using rtdl_setPulseCharge_frame(3) [OF len(2), of 1]
    by (simp_all add: rtdl_cycle_def rtdl_timingStatus_def)
  ultimately show ?thesis
    using rtdl_charge_after_set [OF len(2)] rtdl_setPulseCharge_frame [OF len(2)]
      rtdl_veto_after_set [OF len(1)] rtdl_setVetoFlags_frame [OF len(1)]
    by (simp add: assms(2))
qed

section \<open>Witnesses\<close>

theorem raw_events_read_in_packet_witness:
  "let mem = [32,0,0,0, 0,0,0,0] @ replicate 32 0 @ [7,0,0,0, 9,0,0,0, 0xff] in
   List.map (rd_raw_event (take (packet_bytes mem) mem)) [0..<unat (raw_num_events mem)] =
     [Inr \<lparr>tof = 7, pixel = 9\<rparr>]"
proof -
  let ?mem = "[32,0,0,0, 0,0,0,0] @ replicate 32 0 @ [7,0,0,0, 9,0,0,0, 0xff] :: bytes"
  have "in_packet ?mem" "RawDataPkt ?mem = Inr (header_at ?mem)" by code_simp+
  from raw_events_read_in_packet [OF this]
  have "List.map (rd_raw_event (take (packet_bytes ?mem) ?mem)) [0..<unat (raw_num_events ?mem)] =
    List.map Inr (raw_events ?mem)" .
  moreover have "raw_events ?mem = [\<lparr>tof = 7, pixel = 9\<rparr>]" by code_simp
  ultimately show ?thesis by (simp only: Let_def list.map)
qed

theorem rtdl_corrections_local_witness:
  "rtdl_pulseCharge (rtdl_setVetoFlags 0xabc (rtdl_setPulseCharge 77 (replicate 136 0))) = 77 AND 0xffffff"
  using rtdl_corrections_local [OF _ refl, of "replicate 136 0"] by simp

end
