(* ===== verification/Control_Packets.thy ===== *)
theory Control_Packets
  imports Data_Packets
begin

text \<open>
  Run control, client and text packets of \<open>common/ADARAPackets.cc\<close>: run status, run info,
  translation complete, client hello, annotations, sync, heartbeat, geometry, beamline info, data
  done and device descriptors. Length checks are written in the width the code computes them in:
  a sum with \<open>sizeof\<close> is 64 bits wide (here on \<open>nat\<close>), a sum with a plain literal is 32 bits wide
  and wraps (here on \<open>u32\<close>).
\<close>

unbundle bit_operations_syntax

section \<open>RunStatusPkt\<close>

definition RunStatusPkt :: "bytes \<Rightarrow> pkt_error + pkt_header" where [ctor_defs]:
  "RunStatusPkt mem = sbind (PacketHeader mem) (\<lambda>h.
     if version h = 0 \<and> unat (payload_len h) \<noteq> 3 * 4
     then Inl (Invalid_Packet ''RunStatus V0 packet is incorrect length'')
     else if version h = 1 \<and> unat (payload_len h) \<noteq> 5 * 4
     then Inl (Invalid_Packet ''RunStatus V1 packet is incorrect length'')
     else if version h > current_version RUN_STATUS_TYPE \<and> unat (payload_len h) < 5 * 4
     then Inl (Invalid_Packet ''Newer RunStatus packet is too short'')
     else Inr h)"

definition run_runNumber :: "bytes \<Rightarrow> u32" where
  "run_runNumber mem = fld mem 0"

definition run_runStart :: "bytes \<Rightarrow> u32" where
  "run_runStart mem = fld mem 1"

definition run_fileNumber :: "bytes \<Rightarrow> u32" where
  "run_fileNumber mem = fld mem 2 AND 0xffffff"

definition run_status :: "bytes \<Rightarrow> u32" where
  "run_status mem = drop_bit 24 (fld mem 2)"

definition run_setRunStart :: "u32 \<Rightarrow> bytes \<Rightarrow> bytes" where
  "run_setRunStart t mem = put_fld mem 1 t"

definition run_pauseFileNumber :: "bytes \<Rightarrow> u32" where
  "run_pauseFileNumber mem = (if version (header_at mem) \<ge> 1 then fld mem 3 AND 0xffffff else 0)"

definition run_paused :: "bytes \<Rightarrow> u32" where
  "run_paused mem = (if version (header_at mem) \<ge> 1 then drop_bit 24 (fld mem 3) else 0)"

definition run_addendumFileNumber :: "bytes \<Rightarrow> u32" where
  "run_addendumFileNumber mem =
     (if version (header_at mem) \<ge> 1 then fld mem 4 AND 0xffffff else 0)"

definition run_addendum :: "bytes \<Rightarrow> u32" where
  "run_addendum mem = (if version (header_at mem) \<ge> 1 then drop_bit 24 (fld mem 4) else 0)"

section \<open>RunInfoPkt, TransCompletePkt, GeometryPkt\<close>

text \<open>\<open>RunInfoPkt\<close> reads the size word before it checks that there is one.\<close>

definition RunInfoPkt :: "bytes \<Rightarrow> pkt_error + (pkt_header \<times> bytes)" where [ctor_defs]:
  "RunInfoPkt mem = sbind (PacketHeader mem) (\<lambda>h. sbind (rd_fld mem 0) (\<lambda>size.
     if version h = 0 \<and> unat (payload_len h) < 4
     then Inl (Invalid_Packet ''RunInfo V0 packet is too short'')
     else if version h > current_version RUN_INFO_TYPE \<and> unat (payload_len h) < 4
     then Inl (Invalid_Packet ''Newer RunInfo packet is too short'')
     else if version h = 0 \<and> unat (payload_len h) < unat size + 4
     then Inl (Invalid_Packet ''RunInfo V0 packet has Undersize XML string'')
     else if version h > current_version RUN_INFO_TYPE \<and> unat (payload_len h) < unat size + 4
     then Inl (Invalid_Packet ''Newer RunInfo packet has Undersize XML string'')
     else sbind (rd_bytes mem 20 (unat size)) (\<lambda>xml. Inr (h, xml))))"

definition TransCompletePkt :: "bytes \<Rightarrow> pkt_error + (pkt_header \<times> u16 \<times> bytes)" where [ctor_defs]:
  "TransCompletePkt mem = sbind (PacketHeader mem) (\<lambda>h. sbind (rd_fld mem 0) (\<lambda>word0.
     if version h = 0 \<and> unat (payload_len h) < 4
     then Inl (Invalid_Packet ''TransComplete V0 packet is too short'')
     else if version h > current_version TRANS_COMPLETE_TYPE \<and> unat (payload_len h) < 4
     then Inl (Invalid_Packet ''Newer TransComplete packet is too short'')
     else (let size = word0 AND 0xffff in
     if version h = 0 \<and> unat (payload_len h) < unat size + 4
     then Inl (Invalid_Packet ''TransComplete V0 packet has Undersize Reason string'')
     else if version h > current_version TRANS_COMPLETE_TYPE \<and> unat (payload_len h) < unat size + 4
     then Inl (Invalid_Packet ''Newer TransComplete packet has Undersize Reason string'')
     else sbind (rd_bytes mem 20 (unat size)) (\<lambda>reason.
       Inr (h, ucast (drop_bit 16 word0), reason)))))"

definition GeometryPkt :: "bytes \<Rightarrow> pkt_error + (pkt_header \<times> bytes)" where [ctor_defs]:
  "GeometryPkt mem = sbind (PacketHeader mem) (\<lambda>h.
     if version h = 0 \<and> unat (payload_len h) < 4
     then Inl (Invalid_Packet ''Geometry V0 packet is too short'')
     else if version h > current_version GEOMETRY_TYPE \<and> unat (payload_len h) < 4
     then Inl (Invalid_Packet ''Newer Geometry packet is too short'')
     else sbind (rd_fld mem 0) (\<lambda>size.
     if version h = 0 \<and> unat (payload_len h) < unat size + 4
     then Inl (Invalid_Packet ''Geometry V0 packet has Undersize Geometry string'')
     else if version h > current_version GEOMETRY_TYPE \<and> unat (payload_len h) < unat size + 4
     then Inl (Invalid_Packet ''Newer Geometry packet has Undersize Geometry string'')
     else sbind (rd_bytes mem 20 (unat size)) (\<lambda>xml. Inr (h, xml))))"

section \<open>ClientHelloPkt\<close>

definition ClientHelloPkt :: "bytes \<Rightarrow> pkt_error + (pkt_header \<times> u32 \<times> u32)" where [ctor_defs]:
  "ClientHelloPkt mem = sbind (PacketHeader mem) (\<lambda>h.
     if version h = 0 \<and> unat (payload_len h) \<noteq> 4
     then Inl (Invalid_Packet ''ClientHello V0 packet is incorrect size'')
     else if version h = 1 \<and> unat (payload_len h) \<noteq> 2 * 4
     then Inl (Invalid_Packet ''ClientHello V1 packet is incorrect size'')
     else if version h > current_version CLIENT_HELLO_TYPE \<and> unat (payload_len h) < 2 * 4
     then Inl (Invalid_Packet ''Newer ClientHello packet is too short'')
     else sbind (rd_fld mem 0) (\<lambda>reqStart.
       sbind (if version h > 0 then rd_fld mem 1 else Inr 0) (\<lambda>flags.
       Inr (h, reqStart, flags))))"

section \<open>AnnotationPkt\<close>

definition AnnotationPkt :: "bytes \<Rightarrow> pkt_error + pkt_header" where [ctor_defs]:
  "AnnotationPkt mem = sbind (PacketHeader mem) (\<lambda>h.
     if version h = 0 \<and> unat (payload_len h) < 2 * 4
     then Inl (Invalid_Packet ''AnnotationPkt V0 packet is incorrect size'')
     else if version h > current_version STREAM_ANNOTATION_TYPE \<and> unat (payload_len h) < 2 * 4
     then Inl (Invalid_Packet ''Newer AnnotationPkt packet is incorrect size'')
     else sbind (rd_fld mem 0) (\<lambda>f0.
     let size = f0 AND 0xffff in
     if version h = 0 \<and> unat (payload_len h) < unat size + 2 * 4
     then Inl (Invalid_Packet ''AnnotationPkt V0 packet has Undersize Annotation string'')
     else if version h > current_version STREAM_ANNOTATION_TYPE \<and>
       unat (payload_len h) < unat size + 2 * 4
     then Inl (Invalid_Packet ''Newer AnnotationPkt packet has Undersize Annotation string'')
     else Inr h))"

definition annot_resetHint :: "bytes \<Rightarrow> bool" where
  "annot_resetHint mem = (fld mem 0 AND 0x80000000 \<noteq> 0)"

definition annot_marker_type :: "bytes \<Rightarrow> u16" where
  "annot_marker_type mem = ucast (drop_bit 16 (fld mem 0) AND 0x7fff)"

definition annot_scanIndex :: "bytes \<Rightarrow> u32" where
  "annot_scanIndex mem = fld mem 1"

definition annot_comment :: "bytes \<Rightarrow> pkt_error + bytes" where
  "annot_comment mem =
     (if fld mem 0 AND 0xffff \<noteq> 0 then rd_bytes mem 24 (unat (fld mem 0 AND 0xffff)) else Inr [])"

section \<open>SyncPkt\<close>

text \<open>The comment length is checked with a 32-bit sum, \<open>size + 28\<close>.\<close>

definition SyncPkt :: "bytes \<Rightarrow> pkt_error + (pkt_header \<times> bytes \<times> u64 \<times> bytes)" where [ctor_defs]:
  "SyncPkt mem = sbind (PacketHeader mem) (\<lambda>h.
     if version h = 0 \<and> payload_len h < 28
     then Inl (Invalid_Packet ''Sync V0 packet is too small'')
     else if version h > current_version SYNC_TYPE \<and> payload_len h < 28
     then Inl (Invalid_Packet ''Newer Sync packet is too small'')
     else sbind (rd_bytes mem 16 16) (\<lambda>signature.
     sbind (rd64 mem 32) (\<lambda>offset.
     sbind (rd_fld mem 6) (\<lambda>size.
     if version h = 0 \<and> payload_len h < size + 28
     then Inl (Invalid_Packet ''Sync V0 packet has Undersize Sync Comment string'')
     else if version h > current_version SYNC_TYPE \<and> payload_len h < size + 28
     then Inl (Invalid_Packet ''Newer Sync packet has Undersize Sync Comment string'')
     else sbind (rd_bytes mem 44 (unat size)) (\<lambda>comment.
       Inr (h, signature, offset, comment))))))"

section \<open>HeartbeatPkt and DataDonePkt\<close>

definition HeartbeatPkt :: "bytes \<Rightarrow> pkt_error + pkt_header" where [ctor_defs]:
  "HeartbeatPkt mem = sbind (PacketHeader mem) (\<lambda>h.
     if version h = 0 \<and> payload_len h \<noteq> 0
     then Inl (Invalid_Packet ''Heartbeat V0 packet is incorrect size'')
     else if version h > current_version HEARTBEAT_TYPE \<and> payload_len h = 0
     then Inl (Invalid_Packet ''Newer ClientHello packet is too short'')
     else Inr h)"

definition DataDonePkt :: "bytes \<Rightarrow> pkt_error + pkt_header" where [ctor_defs]:
  "DataDonePkt mem = sbind (PacketHeader mem) (\<lambda>h.
     if version h = 0 \<and> payload_len h \<noteq> 0
     then Inl (Invalid_Packet ''DataDone V0 packet is incorrect size'')
     else if version h > current_version DATA_DONE_TYPE \<and> payload_len h = 0
     then Inl (Invalid_Packet ''Newer DataDone packet is too short'')
     else Inr h)"

section \<open>BeamlineInfoPkt\<close>

record beamline_info =
  bl_targetStation :: u32
  bl_id :: bytes
  bl_shortName :: bytes
  bl_longName :: bytes

definition BeamlineInfoPkt :: "bytes \<Rightarrow> pkt_error + (pkt_header \<times> beamline_info)" where [ctor_defs]:
  "BeamlineInfoPkt mem = sbind (PacketHeader mem) (\<lambda>h. sbind (rd_fld mem 0) (\<lambda>sizes.
     if version h = 0 \<and> unat (payload_len h) < 4
     then Inl (Invalid_Packet ''Beamline Info V0 packet is too short'')
     else if version h = 1 \<and> unat (payload_len h) < 4
     then Inl (Invalid_Packet ''Beamline Info V1 packet is too short'')
     else if version h > current_version BEAMLINE_INFO_TYPE \<and> unat (payload_len h) < 4
     then Inl (Invalid_Packet ''Newer Beamline Info packet is too short'')
     else (let longName_len = sizes AND 0xff;
               shortName_len = drop_bit 8 sizes AND 0xff;
               id_len = drop_bit 16 sizes AND 0xff;
               station = drop_bit 24 sizes AND 0xff;
               station' = (if station = 0 then 1 else station);
               info_len = id_len + shortName_len + longName_len in
     if version h = 0 \<and> unat (payload_len h) < unat info_len + 4
     then Inl (Invalid_Packet ''Beamline Info V0 packet has Undersize Beamline Info data'')
     else if version h = 1 \<and> unat (payload_len h) < unat info_len + 4
     then Inl (Invalid_Packet ''Beamline Info V1 packet has Undersize Beamline Info data'')
     else if version h > current_version BEAMLINE_INFO_TYPE \<and> unat (payload_len h) < unat info_len + 4
     then Inl (Invalid_Packet ''Newer Beamline Info packet has Undersize Beamline Info data'')
     else sbind (rd_bytes mem 20 (unat id_len)) (\<lambda>i.
       sbind (rd_bytes mem (20 + unat id_len) (unat shortName_len)) (\<lambda>s.
       sbind (rd_bytes mem (20 + unat id_len + unat shortName_len) (unat longName_len)) (\<lambda>l.
       Inr (h, \<lparr>bl_targetStation = station', bl_id = i, bl_shortName = s, bl_longName = l\<rparr>)))))))"

section \<open>DeviceDescriptorPkt\<close>

text \<open>
  The length check of the description throws for version 0 only: for a newer version the code
  builds the message and then falls through to the copy.
\<close>

definition DeviceDescriptorPkt :: "bytes \<Rightarrow> pkt_error + (pkt_header \<times> u32 \<times> bytes)" where [ctor_defs]:
  "DeviceDescriptorPkt mem = sbind (PacketHeader mem) (\<lambda>h.
     if version h = 0 \<and> unat (payload_len h) < 2 * 4
     then Inl (Invalid_Packet ''DeviceDescriptor V0 packet is too short'')
     else if version h > current_version DEVICE_DESC_TYPE \<and> unat (payload_len h) < 2 * 4
     then Inl (Invalid_Packet ''Newer DeviceDescriptor packet is too short'')
     else sbind (rd_fld mem 1) (\<lambda>size.
     if version h = 0 \<and> unat (payload_len h) < unat size + 2 * 4
     then Inl (Invalid_Packet ''DeviceDescriptor V0 packet has Undersize Descriptor string'')
     else sbind (rd_fld mem 0) (\<lambda>dev.
       sbind (rd_bytes mem 24 (unat size)) (\<lambda>desc. Inr (h, dev, desc)))))"

definition remapDeviceId :: "u32 \<Rightarrow> bytes \<Rightarrow> bytes" where
  "remapDeviceId dev mem = put_fld mem 0 dev"

section \<open>The constructors keep their contract\<close>

lemma version_pos: "version h = 0 \<or> (0 :: u32) < version h"
  by (simp add: word_gt_0)

lemmas ctor_simps = ctor_defs read_simps in_packet_def packet_bytes_def payload_len_header_at
  rd_bytes_def word_gt_0

interpretation raw_data: packet_ctor RawDataPkt 0 "\<lambda>_. True"
  by unfold_locales (auto simp: ctor_simps split: if_splits)

interpretation mapped_data: packet_ctor MappedDataPkt 0 "\<lambda>_. True"
  by unfold_locales (auto simp: ctor_simps split: if_splits)

interpretation run_status_pkt: packet_ctor RunStatusPkt 0 "\<lambda>_. True"
  by unfold_locales (auto simp: ctor_simps split: if_splits)

interpretation heartbeat: packet_ctor HeartbeatPkt 0 "\<lambda>_. True"
  by unfold_locales (auto simp: ctor_simps split: if_splits)

interpretation data_done: packet_ctor DataDonePkt 0 "\<lambda>_. True"
  by unfold_locales (auto simp: ctor_simps split: if_splits)

interpretation geometry: packet_ctor GeometryPkt 0 "\<lambda>_. True"
  by unfold_locales (auto simp: ctor_simps drop_take min_def split: if_splits)

interpretation run_info: packet_ctor RunInfoPkt 4 "\<lambda>_. True"
  by unfold_locales (auto simp: ctor_simps drop_take min_def split: if_splits)

interpretation trans_complete: packet_ctor TransCompletePkt 4 "\<lambda>_. True"
  by unfold_locales (auto simp: ctor_simps drop_take min_def Let_def split: if_splits)

interpretation annotation: packet_ctor AnnotationPkt 0 "\<lambda>_. True"
  by unfold_locales (auto simp: ctor_simps Let_def split: if_splits)

lemma unat_low_mask:
  "unat (w AND 0xff :: u32) < 256"
  "unat (w AND 0xffff :: u32) < 65536"
  using unat_take_bit_less [of 8 w] unat_take_bit_less [of 16 w]
  by (simp_all add: and_low_mask_u32)

lemma unat_info_len:
  "unat ((a AND 0xff) + (b AND 0xff) + (c AND 0xff) :: u32) =
   unat (a AND 0xff) + unat (b AND 0xff) + unat (c AND 0xff)"
  using unat_low_mask(1) [of a] unat_low_mask(1) [of b] unat_low_mask(1) [of c]
  by (simp add: unat_word_ariths)

interpretation rtdl: packet_ctor RTDLPkt 0 "\<lambda>_. True"
proof unfold_locales
  fix mem
  assume m: "in_packet mem"
  then have h: "16 \<le> length mem" "16 + unat (u32_at mem 0) \<le> length mem"
    by (simp_all add: in_packetD)
  have len: "36 \<le> 16 + unat (u32_at mem 0) \<or> (\<exists>msg. RTDLPkt mem = Inl (Invalid_Packet msg) \<and>
      RTDLPkt (take (packet_bytes mem) mem) = Inl (Invalid_Packet msg))"
    using version_cases_0_1 [of "header_at mem"] h
    by (auto simp: RTDLPkt_def read_simps payload_len_header_at packet_bytes_def word_less_nat_alt)
  then show "RTDLPkt mem \<noteq> Inl Over_Read"
    using h by (auto simp: RTDLPkt_def read_simps split: if_splits)
  show "RTDLPkt (take (packet_bytes mem) mem) = RTDLPkt mem"
    using len h by (auto simp: RTDLPkt_def read_simps packet_bytes_def)
qed

interpretation client_hello: packet_ctor ClientHelloPkt 0 "\<lambda>_. True"
proof unfold_locales
  fix mem
  assume m: "in_packet mem"
  then have h: "16 \<le> length mem" "16 + unat (u32_at mem 0) \<le> length mem"
    by (simp_all add: in_packetD)
  have fields: "(if 0 < version (header_at mem) then 24 else 20) \<le> 16 + unat (u32_at mem 0) \<or>
      (\<exists>msg. ClientHelloPkt mem = Inl (Invalid_Packet msg) \<and>
        ClientHelloPkt (take (packet_bytes mem) mem) = Inl (Invalid_Packet msg))"
    using version_cases_0_1 [of "header_at mem"] h
    by (auto simp: ClientHelloPkt_def read_simps payload_len_header_at packet_bytes_def)
  then show "ClientHelloPkt mem \<noteq> Inl Over_Read"
    using h by (auto simp: ClientHelloPkt_def read_simps split: if_splits)
  show "ClientHelloPkt (take (packet_bytes mem) mem) = ClientHelloPkt mem"
    using fields h by (auto simp: ClientHelloPkt_def read_simps packet_bytes_def split: if_splits)
qed

text \<open>\<open>SyncPkt\<close> keeps the contract only where its 32-bit sum does not wrap.\<close>

definition sync_size_fits :: "bytes \<Rightarrow> bool" where
  "sync_size_fits mem = (unat (fld mem 6) + 28 < 4294967296)"

interpretation sync: packet_ctor SyncPkt 0 sync_size_fits
proof unfold_locales
  fix mem
  assume m: "in_packet mem" and fits: "sync_size_fits mem"
  then have h: "16 \<le> length mem" "16 + unat (u32_at mem 0) \<le> length mem"
    by (simp_all add: in_packetD)
  have sum: "unat (fld mem 6 + 28) = unat (fld mem 6) + 28"
    using fits by (simp add: sync_size_fits_def unat_word_ariths)
  have cases: "44 \<le> 16 + unat (u32_at mem 0) \<or>
      (\<exists>msg. SyncPkt mem = Inl (Invalid_Packet msg) \<and>
        SyncPkt (take (packet_bytes mem) mem) = Inl (Invalid_Packet msg))"
    using version_pos [of "header_at mem"] h
    by (auto simp: SyncPkt_def read_simps payload_len_header_at packet_bytes_def word_less_nat_alt)
  then show "SyncPkt mem \<noteq> Inl Over_Read"
    using h version_pos [of "header_at mem"]
    by (auto simp: SyncPkt_def read_simps rd_bytes_def payload_len_header_at word_less_nat_alt sum
        split: if_splits)
  show "SyncPkt (take (packet_bytes mem) mem) = SyncPkt mem"
    using cases h version_pos [of "header_at mem"]
    by (auto simp: SyncPkt_def read_simps rd_bytes_def packet_bytes_def payload_len_header_at
        word_less_nat_alt sum drop_take min_def split: if_splits)
qed

interpretation beamline_info: packet_ctor BeamlineInfoPkt 4 "\<lambda>_. True"
proof unfold_locales
  fix mem
  assume m: "in_packet mem" and need: "16 + 4 \<le> packet_bytes mem"
  then have h: "16 \<le> length mem" "16 + unat (u32_at mem 0) \<le> length mem"
      "4 \<le> unat (u32_at mem 0)"
    by (simp_all add: in_packetD packet_bytes_def)
  show "BeamlineInfoPkt mem \<noteq> Inl Over_Read"
    using h version_cases_0_1 [of "header_at mem"]
    by (auto simp: BeamlineInfoPkt_def read_simps rd_bytes_def payload_len_header_at
        unat_info_len Let_def split: if_splits)
  show "BeamlineInfoPkt (take (packet_bytes mem) mem) = BeamlineInfoPkt mem"
    using h version_cases_0_1 [of "header_at mem"]
    by (auto simp: BeamlineInfoPkt_def read_simps rd_bytes_def packet_bytes_def
        payload_len_header_at unat_info_len Let_def drop_take min_def split: if_splits)
qed

text \<open>\<open>DeviceDescriptorPkt\<close> keeps it for version 0.\<close>

interpretation device_desc:
  packet_ctor DeviceDescriptorPkt 0 "\<lambda>mem. version (header_at mem) = 0"
  by unfold_locales (auto simp: ctor_simps drop_take min_def split: if_splits)

end
