(* ===== verification/Variable_Packets.thy ===== *)
theory Variable_Packets
  imports Control_Packets
begin

text \<open>
  Slow-control variable updates of \<open>common/ADARAPackets.cc\<close>: single values (32-bit, double,
  string, arrays) and the multi-value packets that carry a time offset with each value. Doubles
  are kept as their 64 bits. The multi-value loops walk a pointer over the payload; \<open>idx\<close> is that
  pointer as an index into \<open>m_fields\<close>.
\<close>

unbundle bit_operations_syntax

section \<open>Common fields\<close>

record var_header =
  var_devId :: u32
  var_varId :: u32
  var_status :: u16
  var_severity :: u16

definition var_header_at :: "bytes \<Rightarrow> var_header" where
  "var_header_at mem =
     \<lparr>var_devId = fld mem 0, var_varId = fld mem 1,
      var_status = ucast (drop_bit 16 (fld mem 2)), var_severity = ucast (fld mem 2 AND 0xffff)\<rparr>"

text \<open>The status and severity checks every constructor makes, in this order.\<close>

definition check_alarm :: "bytes \<Rightarrow> pkt_error + var_header" where
  "check_alarm mem = sbind (rd_fld mem 2) (\<lambda>_.
     if validate_status (var_status (var_header_at mem))
     then Inl (Invalid_Packet ''VariableValue packet has invalid status'')
     else if validate_severity (var_severity (var_header_at mem))
     then Inl (Invalid_Packet ''VariableValue packet has invalid severity'')
     else Inr (var_header_at mem))"

lemma check_alarm_in [read_simps]:
  "28 \<le> length mem \<Longrightarrow> check_alarm mem =
    (if validate_status (var_status (var_header_at mem))
     then Inl (Invalid_Packet ''VariableValue packet has invalid status'')
     else if validate_severity (var_severity (var_header_at mem))
     then Inl (Invalid_Packet ''VariableValue packet has invalid severity'')
     else Inr (var_header_at mem))"
  by (simp add: check_alarm_def read_simps)

lemma var_header_at_take [read_simps]: "28 \<le> n \<Longrightarrow> var_header_at (take n mem) = var_header_at mem"
  by (simp add: var_header_at_def read_simps)

text \<open>The two length rules: exactly \<open>n\<close> payload bytes for version 0 and at least \<open>n\<close> for a newer
  one, or at least \<open>n\<close> for both.\<close>

definition exact_or_newer :: "pkt_kind \<Rightarrow> pkt_header \<Rightarrow> nat \<Rightarrow> pkt_error + unit" where
  "exact_or_newer k h n =
     (if version h = 0 \<and> unat (payload_len h) \<noteq> n
      then Inl (Invalid_Packet ''V0 packet is incorrect length'')
      else if version h > current_version k \<and> unat (payload_len h) < n
      then Inl (Invalid_Packet ''Newer packet is too short'') else Inr ())"

definition at_least :: "pkt_kind \<Rightarrow> pkt_header \<Rightarrow> nat \<Rightarrow> pkt_error + unit" where
  "at_least k h n =
     (if version h = 0 \<and> unat (payload_len h) < n
      then Inl (Invalid_Packet ''V0 packet is too short'')
      else if version h > current_version k \<and> unat (payload_len h) < n
      then Inl (Invalid_Packet ''Newer packet is too short'') else Inr ())"

lemma at_least_Inr:
  assumes "current_version k = 0"
  shows "at_least k h n = (if unat (payload_len h) < n
    then Inl (Invalid_Packet (if version h = 0 then ''V0 packet is too short''
                              else ''Newer packet is too short''))
    else Inr ())"
  using assms version_pos [of h] by (auto simp: at_least_def)

lemma exact_or_newer_Inr:
  "current_version k = 0 \<Longrightarrow> exact_or_newer k h n = Inr () \<Longrightarrow> n \<le> unat (payload_len h)"
  using version_pos [of h] by (auto simp: exact_or_newer_def split: if_splits)

section \<open>Single values\<close>

definition VariableU32Pkt :: "bytes \<Rightarrow> pkt_error + (pkt_header \<times> var_header \<times> u32)" where
  "VariableU32Pkt mem = sbind (PacketHeader mem) (\<lambda>h.
     sbind (exact_or_newer VAR_VALUE_U32_TYPE h (4 * 4)) (\<lambda>_.
     sbind (check_alarm mem) (\<lambda>v.
     sbind (rd_fld mem 3) (\<lambda>x. Inr (h, v, x)))))"

definition VariableDoublePkt :: "bytes \<Rightarrow> pkt_error + (pkt_header \<times> var_header \<times> u64)" where
  "VariableDoublePkt mem = sbind (PacketHeader mem) (\<lambda>h.
     sbind (exact_or_newer VAR_VALUE_DOUBLE_TYPE h (8 + 3 * 4)) (\<lambda>_.
     sbind (check_alarm mem) (\<lambda>v.
     sbind (rd64 mem 28) (\<lambda>x. Inr (h, v, x)))))"

definition VariableStringPkt :: "bytes \<Rightarrow> pkt_error + (pkt_header \<times> var_header \<times> bytes)" where
  "VariableStringPkt mem = sbind (PacketHeader mem) (\<lambda>h.
     sbind (at_least VAR_VALUE_STRING_TYPE h (4 * 4)) (\<lambda>_.
     sbind (rd_fld mem 3) (\<lambda>size.
     sbind (at_least VAR_VALUE_STRING_TYPE h (unat size + 4 * 4)) (\<lambda>_.
     sbind (check_alarm mem) (\<lambda>v.
     sbind (rd_bytes mem 32 (unat size)) (\<lambda>x. Inr (h, v, x)))))))"

definition VariableU32ArrayPkt :: "bytes \<Rightarrow> pkt_error + (pkt_header \<times> var_header \<times> u32 list)" where
  "VariableU32ArrayPkt mem = sbind (PacketHeader mem) (\<lambda>h.
     sbind (at_least VAR_VALUE_U32_ARRAY_TYPE h (4 * 4)) (\<lambda>_.
     sbind (rd_fld mem 3) (\<lambda>count.
     sbind (at_least VAR_VALUE_U32_ARRAY_TYPE h (unat count * 4 + 4 * 4)) (\<lambda>_.
     sbind (check_alarm mem) (\<lambda>v.
     sbind (rd_bytes mem 32 (unat count * 4)) (\<lambda>_.
       Inr (h, v, map (\<lambda>i. u32_at mem (32 + 4 * i)) [0..<unat count])))))))"

definition VariableDoubleArrayPkt :: "bytes \<Rightarrow> pkt_error + (pkt_header \<times> var_header \<times> u64 list)" where
  "VariableDoubleArrayPkt mem = sbind (PacketHeader mem) (\<lambda>h.
     sbind (at_least VAR_VALUE_DOUBLE_ARRAY_TYPE h (4 * 4)) (\<lambda>_.
     sbind (rd_fld mem 3) (\<lambda>count.
     sbind (at_least VAR_VALUE_DOUBLE_ARRAY_TYPE h (unat count * 8 + 4 * 4)) (\<lambda>_.
     sbind (check_alarm mem) (\<lambda>v.
     sbind (rd_bytes mem 32 (unat count * 8)) (\<lambda>_.
       Inr (h, v, map (\<lambda>i. u64_at mem (32 + 8 * i)) [0..<unat count])))))))"

text \<open>\<open>updateValue\<close> of a double packet, and of the multi-value double packet: both store the
  double at \<open>fields[3]\<close>.\<close>

definition double_updateValue :: "u64 \<Rightarrow> bytes \<Rightarrow> bytes" where
  "double_updateValue x mem = put64 mem 28 x"

section \<open>Multi-value packets\<close>

text \<open>\<open>numVals * 2 * sizeof(uint32_t)\<close>: the first product is 32 bits wide.\<close>

definition mult_pair_bytes :: "u32 \<Rightarrow> nat" where
  "mult_pair_bytes numVals = unat (numVals * 2) * 4"

fun mult_u32_loop :: "bytes \<Rightarrow> nat \<Rightarrow> nat \<Rightarrow> pkt_error + (u32 \<times> u32) list" where
  "mult_u32_loop mem idx 0 = Inr []"
| "mult_u32_loop mem idx (Suc n) =
     sbind (rd_fld mem idx) (\<lambda>t.
     sbind (rd_fld mem (idx + 1)) (\<lambda>v.
     sbind (mult_u32_loop mem (idx + 2) n) (\<lambda>rest. Inr ((t, v) # rest))))"

definition MultVariableU32Pkt ::
    "bytes \<Rightarrow> pkt_error + (pkt_header \<times> var_header \<times> (u32 \<times> u32) list)" where
  "MultVariableU32Pkt mem = sbind (PacketHeader mem) (\<lambda>h.
     sbind (at_least MULT_VAR_VALUE_U32_TYPE h (4 * 4)) (\<lambda>_.
     sbind (rd_fld mem 3) (\<lambda>numVals.
     sbind (at_least MULT_VAR_VALUE_U32_TYPE h (mult_pair_bytes numVals + 4 * 4)) (\<lambda>_.
     sbind (check_alarm mem) (\<lambda>v.
     sbind (mult_u32_loop mem 4 (unat numVals)) (\<lambda>xs. Inr (h, v, xs)))))))"

fun mult_double_loop :: "bytes \<Rightarrow> nat \<Rightarrow> nat \<Rightarrow> pkt_error + (u32 \<times> u64) list" where
  "mult_double_loop mem idx 0 = Inr []"
| "mult_double_loop mem idx (Suc n) =
     sbind (rd_fld mem idx) (\<lambda>t.
     sbind (rd64 mem (16 + 4 * (idx + 1))) (\<lambda>v.
     sbind (mult_double_loop mem (idx + 3) n) (\<lambda>rest. Inr ((t, v) # rest))))"

definition MultVariableDoublePkt ::
    "bytes \<Rightarrow> pkt_error + (pkt_header \<times> var_header \<times> (u32 \<times> u64) list)" where
  "MultVariableDoublePkt mem = sbind (PacketHeader mem) (\<lambda>h.
     sbind (at_least MULT_VAR_VALUE_DOUBLE_TYPE h (4 * 4)) (\<lambda>_.
     sbind (rd_fld mem 3) (\<lambda>numVals.
     sbind (at_least MULT_VAR_VALUE_DOUBLE_TYPE h (unat numVals * (4 + 8) + 4 * 4)) (\<lambda>_.
     sbind (check_alarm mem) (\<lambda>v.
     sbind (mult_double_loop mem 4 (unat numVals)) (\<lambda>xs. Inr (h, v, xs)))))))"

text \<open>
  The string loop. \<open>remaining\<close> is the 32-bit counter \<open>payload_remaining\<close>. Before it throws, the
  code copies \<open>payload_remaining - sizeof(uint32_t)\<close> characters into the message (a 64-bit
  difference).
\<close>

definition log_chars :: "u32 \<Rightarrow> nat" where
  "log_chars remaining = unat ((ucast remaining :: u64) - 4)"

definition words_of_chars :: "u32 \<Rightarrow> nat" where
  "words_of_chars n = (unat n + 4 - 1) div 4"

fun mult_string_loop :: "bytes \<Rightarrow> nat \<Rightarrow> u32 \<Rightarrow> nat \<Rightarrow> pkt_error + (u32 \<times> bytes) list" where
  "mult_string_loop mem idx remaining 0 = Inr []"
| "mult_string_loop mem idx remaining (Suc n) =
     sbind (rd_fld mem idx) (\<lambda>t.
     sbind (rd_fld mem (idx + 1)) (\<lambda>size.
     if unat remaining < unat size + 2 * 4
     then sbind (rd_bytes mem (16 + 4 * (idx + 2)) (log_chars remaining)) (\<lambda>_.
       Inl (Invalid_Packet ''MultVariableValue (String) packet has Undersize String Values array''))
     else sbind (rd_bytes mem (16 + 4 * (idx + 2)) (unat size)) (\<lambda>s.
       sbind (mult_string_loop mem (idx + 2 + words_of_chars size)
                (remaining - of_nat ((words_of_chars size + 2) * 4)) n) (\<lambda>rest.
       Inr ((t, s) # rest)))))"

definition MultVariableStringPkt ::
    "bytes \<Rightarrow> pkt_error + (pkt_header \<times> var_header \<times> (u32 \<times> bytes) list)" where
  "MultVariableStringPkt mem = sbind (PacketHeader mem) (\<lambda>h.
     sbind (at_least MULT_VAR_VALUE_STRING_TYPE h (4 * 4)) (\<lambda>_.
     sbind (rd_fld mem 3) (\<lambda>numVals.
     sbind (at_least MULT_VAR_VALUE_STRING_TYPE h (unat (numVals * 2 * 4) + 4 * 4)) (\<lambda>_.
     sbind (check_alarm mem) (\<lambda>v.
     sbind (mult_string_loop mem 4 (payload_len h - 4 * 4) (unat numVals)) (\<lambda>xs.
       Inr (h, v, xs)))))))"

fun mult_u32_array_loop :: "bytes \<Rightarrow> nat \<Rightarrow> u32 \<Rightarrow> nat \<Rightarrow> pkt_error + (u32 \<times> u32 list) list" where
  "mult_u32_array_loop mem idx remaining 0 = Inr []"
| "mult_u32_array_loop mem idx remaining (Suc n) =
     sbind (rd_fld mem idx) (\<lambda>t.
     sbind (rd_fld mem (idx + 1)) (\<lambda>size.
     if unat remaining < (unat size + 2) * 4
     then Inl (Invalid_Packet
       ''MultVariableValue (U32 Array) packet has Undersize U32 Array Values array'')
     else sbind (rd_bytes mem (16 + 4 * (idx + 2)) (unat size * 4)) (\<lambda>_.
       sbind (mult_u32_array_loop mem (idx + 2 + unat size)
                (remaining - of_nat ((unat size + 2) * 4)) n) (\<lambda>rest.
       Inr ((t, map (\<lambda>j. fld mem (idx + 2 + j)) [0..<unat size]) # rest)))))"

definition MultVariableU32ArrayPkt ::
    "bytes \<Rightarrow> pkt_error + (pkt_header \<times> var_header \<times> (u32 \<times> u32 list) list)" where
  "MultVariableU32ArrayPkt mem = sbind (PacketHeader mem) (\<lambda>h.
     sbind (at_least MULT_VAR_VALUE_U32_ARRAY_TYPE h (4 * 4)) (\<lambda>_.
     sbind (rd_fld mem 3) (\<lambda>numVals.
     sbind (at_least MULT_VAR_VALUE_U32_ARRAY_TYPE h (mult_pair_bytes numVals + 4 * 4)) (\<lambda>_.
     sbind (check_alarm mem) (\<lambda>v.
     sbind (mult_u32_array_loop mem 4 (payload_len h - 4 * 4) (unat numVals)) (\<lambda>xs.
       Inr (h, v, xs)))))))"

fun mult_double_array_loop :: "bytes \<Rightarrow> nat \<Rightarrow> u32 \<Rightarrow> nat \<Rightarrow> pkt_error + (u32 \<times> u64 list) list" where
  "mult_double_array_loop mem idx remaining 0 = Inr []"
| "mult_double_array_loop mem idx remaining (Suc n) =
     sbind (rd_fld mem idx) (\<lambda>t.
     sbind (rd_fld mem (idx + 1)) (\<lambda>size.
     if unat remaining < unat size * 8 + 2 * 4
     then Inl (Invalid_Packet
       ''MultVariableValue (Double Array) packet has Undersize Double Array Values array'')
     else sbind (rd_bytes mem (16 + 4 * (idx + 2)) (unat size * 8)) (\<lambda>_.
       sbind (mult_double_array_loop mem (idx + 2 + 2 * unat size)
                (remaining - of_nat ((2 * unat size + 2) * 4)) n) (\<lambda>rest.
       Inr ((t, map (\<lambda>j. u64_at mem (16 + 4 * (idx + 2) + 8 * j)) [0..<unat size]) # rest)))))"

definition MultVariableDoubleArrayPkt ::
    "bytes \<Rightarrow> pkt_error + (pkt_header \<times> var_header \<times> (u32 \<times> u64 list) list)" where
  "MultVariableDoubleArrayPkt mem = sbind (PacketHeader mem) (\<lambda>h.
     sbind (at_least MULT_VAR_VALUE_DOUBLE_ARRAY_TYPE h (4 * 4)) (\<lambda>_.
     sbind (rd_fld mem 3) (\<lambda>numVals.
     sbind (at_least MULT_VAR_VALUE_DOUBLE_ARRAY_TYPE h (mult_pair_bytes numVals + 4 * 4)) (\<lambda>_.
     sbind (check_alarm mem) (\<lambda>v.
     sbind (mult_double_array_loop mem 4 (payload_len h - 4 * 4) (unat numVals)) (\<lambda>xs.
       Inr (h, v, xs)))))))"

section \<open>The constructors keep their contract\<close>

lemmas var_simps = read_simps in_packet_def packet_bytes_def payload_len_header_at rd_bytes_def

lemma exact_or_newer_cases:
  assumes "current_version k = 0"
  obtains (ok) "exact_or_newer k h n = Inr ()" "n \<le> unat (payload_len h)"
    | (bad) msg where "exact_or_newer k h n = Inl (Invalid_Packet msg)"
proof (cases "exact_or_newer k h n")
  case (Inl e)
  then have "\<exists>msg. e = Invalid_Packet msg" by (auto simp: exact_or_newer_def split: if_splits)
  with Inl bad show ?thesis by blast
next
  case (Inr u)
  with exact_or_newer_Inr [OF assms] ok show ?thesis by simp
qed

interpretation var_u32: packet_ctor VariableU32Pkt 0 "\<lambda>_. True"
proof unfold_locales
  fix mem
  assume "in_packet mem"
  then have m: "16 \<le> length mem" "16 + unat (u32_at mem 0) \<le> length mem"
    by (simp_all add: in_packetD)
  show "VariableU32Pkt mem \<noteq> Inl Over_Read"
    and "VariableU32Pkt (take (packet_bytes mem) mem) = VariableU32Pkt mem"
    by (cases rule: exact_or_newer_cases [of VAR_VALUE_U32_TYPE "header_at mem" "4 * 4"];
        use m in \<open>auto simp: VariableU32Pkt_def var_simps split: if_splits\<close>)+
qed

interpretation var_double: packet_ctor VariableDoublePkt 0 "\<lambda>_. True"
proof unfold_locales
  fix mem
  assume "in_packet mem"
  then have m: "16 \<le> length mem" "16 + unat (u32_at mem 0) \<le> length mem"
    by (simp_all add: in_packetD)
  show "VariableDoublePkt mem \<noteq> Inl Over_Read"
    and "VariableDoublePkt (take (packet_bytes mem) mem) = VariableDoublePkt mem"
    by (cases rule: exact_or_newer_cases [of VAR_VALUE_DOUBLE_TYPE "header_at mem" "8 + 3 * 4"];
        use m in \<open>auto simp: VariableDoublePkt_def var_simps split: if_splits\<close>)+
qed

interpretation var_string: packet_ctor VariableStringPkt 0 "\<lambda>_. True"
  by unfold_locales
    (auto simp: VariableStringPkt_def var_simps at_least_Inr drop_take min_def split: if_splits)

interpretation var_u32_array: packet_ctor VariableU32ArrayPkt 0 "\<lambda>_. True"
  by unfold_locales
    (auto simp: VariableU32ArrayPkt_def var_simps at_least_Inr split: if_splits)

interpretation var_double_array: packet_ctor VariableDoubleArrayPkt 0 "\<lambda>_. True"
  by unfold_locales
    (auto simp: VariableDoubleArrayPkt_def var_simps at_least_Inr split: if_splits)

text \<open>The multi-value loops inside their bounds.\<close>

lemma mult_u32_loop_in:
  "16 + 4 * (idx + 2 * n) \<le> length mem \<Longrightarrow>
   mult_u32_loop mem idx n = Inr (map (\<lambda>i. (fld mem (idx + 2 * i), fld mem (idx + 2 * i + 1))) [0..<n])"
proof (induction n arbitrary: idx)
  case (Suc n)
  have "mult_u32_loop mem (idx + 2) n =
      Inr (map (\<lambda>i. (fld mem (idx + 2 + 2 * i), fld mem (idx + 2 + 2 * i + 1))) [0..<n])"
    using Suc.prems by (intro Suc.IH) simp
  then show ?case
    using Suc.prems
    by (simp add: read_simps upt_conv_Cons map_Suc_upt [symmetric] algebra_simps del: upt_Suc)
qed simp

lemma mult_double_loop_in:
  "16 + 4 * (idx + 3 * n) \<le> length mem \<Longrightarrow>
   mult_double_loop mem idx n =
     Inr (map (\<lambda>i. (fld mem (idx + 3 * i), u64_at mem (20 + 4 * (idx + 3 * i)))) [0..<n])"
proof (induction n arbitrary: idx)
  case (Suc n)
  have "mult_double_loop mem (idx + 3) n =
      Inr (map (\<lambda>i. (fld mem (idx + 3 + 3 * i), u64_at mem (20 + 4 * (idx + 3 + 3 * i)))) [0..<n])"
    using Suc.prems by (intro Suc.IH) simp
  then show ?case
    using Suc.prems
    by (simp add: read_simps upt_conv_Cons map_Suc_upt [symmetric] algebra_simps del: upt_Suc)
qed simp

lemma mult_u32_loop_take:
  "16 + 4 * (idx + 2 * n) \<le> k \<Longrightarrow> k \<le> length mem \<Longrightarrow>
   mult_u32_loop (take k mem) idx n = mult_u32_loop mem idx n"
  by (simp add: mult_u32_loop_in fld_take)

lemma mult_double_loop_take:
  "16 + 4 * (idx + 3 * n) \<le> k \<Longrightarrow> k \<le> length mem \<Longrightarrow>
   mult_double_loop (take k mem) idx n = mult_double_loop mem idx n"
  by (simp add: mult_double_loop_in fld_take u64_at_take)

text \<open>\<open>MultVariableU32Pkt\<close> keeps the contract where its 32-bit product does not wrap.\<close>

definition mult_count_fits :: "bytes \<Rightarrow> bool" where
  "mult_count_fits mem = (unat (fld mem 3) < 2 ^ 31)"

lemma mult_pair_bytes_fits: "unat n < 2 ^ 31 \<Longrightarrow> mult_pair_bytes n = unat n * 8"
  by (simp add: mult_pair_bytes_def unat_word_ariths)

interpretation mult_u32: packet_ctor MultVariableU32Pkt 0 mult_count_fits
  by unfold_locales
    (auto simp: MultVariableU32Pkt_def var_simps at_least_Inr mult_count_fits_def
      mult_pair_bytes_fits mult_u32_loop_in mult_u32_loop_take split: if_splits)

interpretation mult_double: packet_ctor MultVariableDoublePkt 0 "\<lambda>_. True"
  by unfold_locales
    (auto simp: MultVariableDoublePkt_def var_simps at_least_Inr
      mult_double_loop_in mult_double_loop_take split: if_splits)

text \<open>
  The string and array packets read the offset and the length of a value before they check that
  they are there, so they keep the weaker contract: what they accept lies in the packet. The
  payload is a multiple of four bytes (the parser refuses any other packet), and the counter
  \<open>remaining\<close> then always is the distance from the pointer to the end of the packet.
\<close>

definition payload_aligned :: "bytes \<Rightarrow> bool" where
  "payload_aligned mem = (4 dvd unat (u32_at mem 0))"

lemma unat_sub_of_nat:
  "k \<le> unat (r :: u32) \<Longrightarrow> unat (r - of_nat k) = unat r - k"
proof -
  assume k: "k \<le> unat r"
  then have u: "unat (of_nat k :: u32) = k"
    using unat_u32_less [of r] by (simp add: unat_of_nat mod_less le_less_trans)
  then show ?thesis using k by (simp add: unat_sub word_le_nat_alt)
qed

lemma words_of_chars_bounds: "unat n \<le> 4 * words_of_chars n" "4 * words_of_chars n < unat n + 4"
  by (auto simp: words_of_chars_def)

lemma words_of_chars_room:
  assumes "4 dvd r" and "unat n + 8 \<le> r"
  shows "(words_of_chars n + 2) * 4 \<le> r"
proof -
  obtain k where r: "r = 4 * k" using assms(1) by blast
  with assms(2) words_of_chars_bounds(2) [of n] have "4 * words_of_chars n < 4 * (k - 1)" and "2 \<le> k"
    by arith+
  then show ?thesis using r by simp
qed

lemma mult_string_loop_take:
  assumes "mult_string_loop mem idx r n = Inr xs"
    and "16 + 4 * idx + unat r = k" and "k \<le> length mem" and "4 dvd unat r"
  shows "mult_string_loop (take k mem) idx r n = Inr xs"
  using assms
proof (induction n arbitrary: idx r xs)
  case 0
  then show ?case by simp
next
  case (Suc n)
  let ?sz = "fld mem (idx + 1)"
  let ?w = "words_of_chars ?sz"
  let ?r = "r - of_nat ((?w + 2) * 4)"
  from Suc.prems(1) obtain ys where sz: "unat ?sz + 8 \<le> unat r"
    and rest: "mult_string_loop mem (idx + 2 + ?w) ?r n = Inr ys"
    and xs: "xs = (fld mem idx, take (unat ?sz) (drop (24 + 4 * idx) mem)) # ys"
    by (auto simp: sbind_eq_Inr rd_fld_def rd32_def fld_def rd_bytes_def split: if_splits)
  have room: "(?w + 2) * 4 \<le> unat r"
    using words_of_chars_room Suc.prems(4) sz by blast
  have u: "unat ?r = unat r - (?w + 2) * 4"
    using room by (rule unat_sub_of_nat)
  have tail: "mult_string_loop (take k mem) (idx + 2 + ?w) ?r n = Inr ys"
    using rest Suc.prems(2-4) u room by (intro Suc.IH) (simp_all add: dvd_diff_nat)
  show ?case
    using tail xs sz Suc.prems(2,3) by (simp add: read_simps drop_take min_def rd_bytes_def)
qed

lemma mult_u32_array_loop_take:
  assumes "mult_u32_array_loop mem idx r n = Inr xs"
    and "16 + 4 * idx + unat r = k" and "k \<le> length mem"
  shows "mult_u32_array_loop (take k mem) idx r n = Inr xs"
  using assms
proof (induction n arbitrary: idx r xs)
  case 0
  then show ?case by simp
next
  case (Suc n)
  let ?sz = "unat (fld mem (idx + 1))"
  let ?r = "r - of_nat ((?sz + 2) * 4)"
  from Suc.prems(1) obtain ys where sz: "(?sz + 2) * 4 \<le> unat r"
    and rest: "mult_u32_array_loop mem (idx + 2 + ?sz) ?r n = Inr ys"
    and xs: "xs = (fld mem idx, map (\<lambda>j. fld mem (idx + 2 + j)) [0..<?sz]) # ys"
    by (auto simp: sbind_eq_Inr rd_fld_def rd32_def fld_def rd_bytes_def split: if_splits)
  have u: "unat ?r = unat r - (?sz + 2) * 4"
    using sz by (rule unat_sub_of_nat)
  have tail: "mult_u32_array_loop (take k mem) (idx + 2 + ?sz) ?r n = Inr ys"
    using rest Suc.prems(2,3) u sz by (intro Suc.IH) simp_all
  show ?case
    using tail xs sz Suc.prems(2,3) by (simp add: read_simps rd_bytes_def)
qed

lemma mult_double_array_loop_take:
  assumes "mult_double_array_loop mem idx r n = Inr xs"
    and "16 + 4 * idx + unat r = k" and "k \<le> length mem"
  shows "mult_double_array_loop (take k mem) idx r n = Inr xs"
  using assms
proof (induction n arbitrary: idx r xs)
  case 0
  then show ?case by simp
next
  case (Suc n)
  let ?sz = "unat (fld mem (idx + 1))"
  let ?r = "r - of_nat ((2 * ?sz + 2) * 4)"
  from Suc.prems(1) obtain ys where sz: "(2 * ?sz + 2) * 4 \<le> unat r"
    and rest: "mult_double_array_loop mem (idx + 2 + 2 * ?sz) ?r n = Inr ys"
    and xs: "xs = (fld mem idx, map (\<lambda>j. u64_at mem (24 + 4 * idx + 8 * j)) [0..<?sz]) # ys"
    by (auto simp: sbind_eq_Inr rd_fld_def rd32_def fld_def rd_bytes_def split: if_splits)
  have u: "unat ?r = unat r - (2 * ?sz + 2) * 4"
    using sz by (rule unat_sub_of_nat)
  have tail: "mult_double_array_loop (take k mem) (idx + 2 + 2 * ?sz) ?r n = Inr ys"
    using rest Suc.prems(2,3) u sz by (intro Suc.IH) simp_all
  show ?case
    using tail xs sz Suc.prems(2,3) by (simp add: read_simps rd_bytes_def)
qed

lemma unat_payload_minus_16: "16 \<le> unat (p :: u32) \<Longrightarrow> unat (p - 16) = unat p - 16"
  by (simp add: unat_sub word_le_nat_alt)

interpretation mult_string: packet_reader MultVariableStringPkt payload_aligned
proof unfold_locales
  fix mem x
  assume m: "in_packet mem" and ok: "MultVariableStringPkt mem = Inr x" and al: "payload_aligned mem"
  from m have b: "16 \<le> length mem" "16 + unat (u32_at mem 0) \<le> length mem"
    by (simp_all add: in_packetD)
  with ok obtain xs where plen: "16 \<le> unat (u32_at mem 0)"
    and loop: "mult_string_loop mem 4 (u32_at mem 0 - 16) (unat (fld mem 3)) = Inr xs"
    by (auto simp: MultVariableStringPkt_def sbind_eq_Inr var_simps at_least_Inr split: if_splits)
  have "mult_string_loop (take (packet_bytes mem) mem) 4 (u32_at mem 0 - 16) (unat (fld mem 3)) = Inr xs"
    using loop b plen al unfolding packet_bytes_def
    by (intro mult_string_loop_take) (auto simp: unat_payload_minus_16 payload_aligned_def dvd_diff_nat)
  with ok loop b plen show "MultVariableStringPkt (take (packet_bytes mem) mem) = Inr x"
    by (auto simp: MultVariableStringPkt_def var_simps at_least_Inr split: if_splits)
qed

interpretation mult_u32_array: packet_reader MultVariableU32ArrayPkt "\<lambda>_. True"
proof unfold_locales
  fix mem x
  assume m: "in_packet mem" and ok: "MultVariableU32ArrayPkt mem = Inr x" 
  from m have b: "16 \<le> length mem" "16 + unat (u32_at mem 0) \<le> length mem"
    by (simp_all add: in_packetD)
  with ok obtain xs where plen: "16 \<le> unat (u32_at mem 0)"
    and loop: "mult_u32_array_loop mem 4 (u32_at mem 0 - 16) (unat (fld mem 3)) = Inr xs"
    by (auto simp: MultVariableU32ArrayPkt_def sbind_eq_Inr var_simps at_least_Inr split: if_splits)
  have "mult_u32_array_loop (take (packet_bytes mem) mem) 4 (u32_at mem 0 - 16) (unat (fld mem 3)) = Inr xs"
    using loop b plen unfolding packet_bytes_def
    by (intro mult_u32_array_loop_take) (auto simp: unat_payload_minus_16)
  with ok loop b plen show "MultVariableU32ArrayPkt (take (packet_bytes mem) mem) = Inr x"
    by (auto simp: MultVariableU32ArrayPkt_def var_simps at_least_Inr split: if_splits)
qed

interpretation mult_double_array: packet_reader MultVariableDoubleArrayPkt "\<lambda>_. True"
proof unfold_locales
  fix mem x
  assume m: "in_packet mem" and ok: "MultVariableDoubleArrayPkt mem = Inr x" 
  from m have b: "16 \<le> length mem" "16 + unat (u32_at mem 0) \<le> length mem"
    by (simp_all add: in_packetD)
  with ok obtain xs where plen: "16 \<le> unat (u32_at mem 0)"
    and loop: "mult_double_array_loop mem 4 (u32_at mem 0 - 16) (unat (fld mem 3)) = Inr xs"
    by (auto simp: MultVariableDoubleArrayPkt_def sbind_eq_Inr var_simps at_least_Inr split: if_splits)
  have "mult_double_array_loop (take (packet_bytes mem) mem) 4 (u32_at mem 0 - 16) (unat (fld mem 3)) = Inr xs"
    using loop b plen unfolding packet_bytes_def
    by (intro mult_double_array_loop_take) (auto simp: unat_payload_minus_16)
  with ok loop b plen show "MultVariableDoubleArrayPkt (take (packet_bytes mem) mem) = Inr x"
    by (auto simp: MultVariableDoubleArrayPkt_def var_simps at_least_Inr split: if_splits)
qed

end
