(* ===== verification/Config_Packets.thy ===== *)
theory Config_Packets
  imports Control_Packets
begin

text \<open>
  The two configuration packets of \<open>common/ADARAPackets.h\<close> and \<open>.cc\<close>: beam monitor histogramming
  parameters and detector bank sets. Both describe variable-length tables; their constructors
  compute table sizes and offsets in 32-bit arithmetic, kept here on \<open>u32\<close>.
\<close>

unbundle bit_operations_syntax

section \<open>BeamMonitorConfigPkt\<close>

definition bmon_section_size :: nat where
  "bmon_section_size = 4 * 4 + 8"

definition bmon_expected_len :: "u32 \<Rightarrow> u32 \<Rightarrow> u32" where
  "bmon_expected_len ver count =
     4 + count * of_nat bmon_section_size + (if ver \<ge> 1 then count * 4 else 0)"

definition BeamMonitorConfigPkt :: "bytes \<Rightarrow> pkt_error + pkt_header" where
  "BeamMonitorConfigPkt mem = sbind (PacketHeader mem) (\<lambda>h. sbind (rd_fld mem 0) (\<lambda>count.
     let expected = bmon_expected_len (version h) count in
     if version h = 0 \<and> payload_len h \<noteq> expected
     then Inl (Invalid_Packet ''BeamMonitorConfig V0 packet is incorrect length'')
     else if version h = 1 \<and> payload_len h \<noteq> expected
     then Inl (Invalid_Packet ''BeamMonitorConfig V1 packet is incorrect length'')
     else if version h > current_version BEAM_MONITOR_CONFIG_TYPE \<and> payload_len h < expected
     then Inl (Invalid_Packet ''Newer BeamMonitorConfig packet is too short'')
     else Inr h))"

definition bmon_count :: "bytes \<Rightarrow> u32" where
  "bmon_count mem = fld mem 0"

text \<open>Byte offset of section \<open>index\<close> in the packet.\<close>

definition bmon_section :: "nat \<Rightarrow> nat" where
  "bmon_section index = 16 + 4 + index * bmon_section_size"

definition bmon_bmonId :: "bytes \<Rightarrow> nat \<Rightarrow> pkt_error + u32" where
  "bmon_bmonId mem index =
     (if index < unat (bmon_count mem) then rd32 mem (bmon_section index) else Inr 0)"

definition bmon_tofOffset :: "bytes \<Rightarrow> nat \<Rightarrow> pkt_error + u32" where
  "bmon_tofOffset mem index =
     (if index < unat (bmon_count mem) then rd32 mem (bmon_section index + 4) else Inr 0)"

definition bmon_tofMax :: "bytes \<Rightarrow> nat \<Rightarrow> pkt_error + u32" where
  "bmon_tofMax mem index =
     (if index < unat (bmon_count mem) then rd32 mem (bmon_section index + 8) else Inr 0)"

definition bmon_tofBin :: "bytes \<Rightarrow> nat \<Rightarrow> pkt_error + u32" where
  "bmon_tofBin mem index =
     (if index < unat (bmon_count mem) then rd32 mem (bmon_section index + 12) else Inr 0)"

definition bmon_distance :: "bytes \<Rightarrow> nat \<Rightarrow> pkt_error + u64" where
  "bmon_distance mem index =
     (if index < unat (bmon_count mem) then rd64 mem (bmon_section index + 16) else Inr 0)"

definition EVENT_FORMAT :: u32 where "EVENT_FORMAT = 1"
definition HISTO_FORMAT :: u32 where "HISTO_FORMAT = 2"

definition bmon_format :: "bytes \<Rightarrow> nat \<Rightarrow> pkt_error + u32" where
  "bmon_format mem index =
     (if version (header_at mem) \<ge> 1
      then (if index < unat (bmon_count mem)
            then rd32 mem (16 + 4 + unat (bmon_count mem) * bmon_section_size + 4 * index)
            else Inr HISTO_FORMAT)
      else Inr HISTO_FORMAT)"

fun bmon_count_loop :: "bytes \<Rightarrow> nat list \<Rightarrow> nat \<times> nat \<Rightarrow> pkt_error + (nat \<times> nat)" where
  "bmon_count_loop mem [] acc = Inr acc"
| "bmon_count_loop mem (i # is) (ev, hi) = sbind (bmon_format mem i) (\<lambda>f.
     bmon_count_loop mem is
       (if f = EVENT_FORMAT then (ev + 1, hi)
        else if f = HISTO_FORMAT then (ev, hi + 1) else (ev, hi)))"

definition bmon_countFormats :: "bytes \<Rightarrow> pkt_error + (nat \<times> nat)" where
  "bmon_countFormats mem = bmon_count_loop mem [0..<unat (bmon_count mem)] (0, 0)"

text \<open>The table fits when its size does not wrap.\<close>

definition bmon_count_fits :: "bytes \<Rightarrow> bool" where
  "bmon_count_fits mem = (unat (fld mem 0) * 28 + 4 < 4294967296)"

lemma bmon_expected_fits:
  assumes "unat c * 28 + 4 < 4294967296"
  shows "unat (bmon_expected_len v c) = 4 + unat c * 24 + (if v \<ge> 1 then unat c * 4 else 0)"
proof -
  have e: "unat (c * 24) = unat c * 24" "unat (c * 4) = unat c * 4"
    using assms by (simp_all add: unat_word_ariths)
  then show ?thesis
    using assms by (simp add: bmon_expected_len_def bmon_section_size_def unat_word_ariths)
qed

lemma bmon_accepted_len:
  assumes "in_packet mem" and "BeamMonitorConfigPkt mem = Inr h" and "bmon_count_fits mem"
  shows "4 + unat (fld mem 0) * 24 + (if version h \<ge> 1 then unat (fld mem 0) * 4 else 0)
         \<le> unat (u32_at mem 0)" and "h = header_at mem"
proof -
  have h: "16 \<le> length mem" "16 + unat (u32_at mem 0) \<le> length mem"
    using assms(1) by (simp_all add: in_packetD)
  have c: "rd_fld mem 0 = Inr (fld mem 0)"
    using assms(2) h by (auto simp: BeamMonitorConfigPkt_def read_simps rd_fld_def rd32_def fld_def
        split: if_splits)
  show "h = header_at mem"
    using assms(2) h c by (auto simp: BeamMonitorConfigPkt_def read_simps Let_def split: if_splits)
  then have "unat (bmon_expected_len (version h) (fld mem 0)) \<le> unat (u32_at mem 0)"
    using assms(2) h c version_cases_0_1 [of "header_at mem"]
    by (auto simp: BeamMonitorConfigPkt_def read_simps Let_def payload_len_header_at
        word_less_nat_alt split: if_splits)
  then show "4 + unat (fld mem 0) * 24 + (if version h \<ge> 1 then unat (fld mem 0) * 4 else 0)
         \<le> unat (u32_at mem 0)"
    using bmon_expected_fits assms(3) by (simp add: bmon_count_fits_def)
qed

interpretation bmon_config: packet_ctor BeamMonitorConfigPkt 4 "\<lambda>_. True"
  by unfold_locales
    (auto simp: BeamMonitorConfigPkt_def read_simps in_packet_def packet_bytes_def Let_def
      split: if_splits)

text \<open>Every accessor of an accepted packet whose table fits reads inside the packet.\<close>

lemma bmon_section_in_packet:
  assumes "in_packet mem" and "BeamMonitorConfigPkt mem = Inr h" and "bmon_count_fits mem"
    and "index < unat (bmon_count mem)"
  shows "bmon_section index + 24 \<le> packet_bytes mem"
proof -
  have "(index + 1) * 24 \<le> unat (fld mem 0) * 24"
    using assms(4) by (intro mult_le_mono1) (simp add: bmon_count_def)
  with bmon_accepted_len(1) [OF assms(1-3)] show ?thesis
    by (simp add: bmon_section_def bmon_section_size_def packet_bytes_def split: if_splits)
qed

lemma bmon_format_in_packet:
  assumes "in_packet mem" and "BeamMonitorConfigPkt mem = Inr h" and "bmon_count_fits mem"
  shows "\<exists>f. bmon_format (take (packet_bytes mem) mem) index = Inr f"
proof (cases "version (header_at mem) \<ge> 1 \<and> index < unat (bmon_count mem)")
  case True
  have "20 \<le> packet_bytes mem"
    using bmon_accepted_len(1) [OF assms] by (simp add: packet_bytes_def split: if_splits)
  moreover have "20 + unat (fld mem 0) * 24 + 4 * index + 4 \<le> packet_bytes mem"
    using bmon_accepted_len [OF assms] True by (simp add: packet_bytes_def bmon_count_def)
  ultimately show ?thesis
    using assms(1) True
    by (simp add: bmon_format_def bmon_count_def read_simps rd32_def bmon_section_size_def
        in_packet_def)
next
  case False
  moreover have "20 \<le> packet_bytes mem"
    using bmon_accepted_len(1) [OF assms] by (simp add: packet_bytes_def split: if_splits)
  ultimately show ?thesis
    by (auto simp: bmon_format_def bmon_count_def read_simps)
qed

section \<open>DetectorBankSetsPkt\<close>

text \<open>
  A set is a 16-character name, flags and a bank count, the bank identifiers, three histogram
  parameters, a throttle rate (a double) and a 16-character suffix. The constructor walks the
  sets once and records, per set, the offset of the set and the offset behind its banks (in
  words of the payload).
\<close>

definition set_name_offset :: u32 where "set_name_offset = 16 div 4"
definition suffix_offset :: u32 where "suffix_offset = 16 div 4"
definition base_part1 :: u32 where "base_part1 = set_name_offset + 2"
definition base_part2 :: u32 where "base_part2 = 3 + 2 + suffix_offset"
definition base_no_banks :: u32 where "base_no_banks = base_part1 + base_part2"

fun bank_sets_loop ::
    "bytes \<Rightarrow> pkt_header \<Rightarrow> nat \<Rightarrow> u32 \<Rightarrow> pkt_error + ((u32 \<times> u32) list \<times> u32)" where
  "bank_sets_loop mem h 0 off = Inr ([], off)"
| "bank_sets_loop mem h (Suc n) off =
     (if version h = 0 \<and> unat (payload_len h) < unat (off + base_no_banks) * 4
      then Inl (Invalid_Packet ''DetectorBankSets V0 packet: too short for Set'')
      else if version h > current_version DETECTOR_BANK_SETS_TYPE \<and>
        unat (payload_len h) < unat (off + base_no_banks) * 4
      then Inl (Invalid_Packet ''Newer DetectorBankSets packet: too short for Set'')
      else sbind (rd_fld mem (unat (off + set_name_offset + 1))) (\<lambda>banks.
        let after = off + base_part1 + banks in
        sbind (bank_sets_loop mem h n (after + base_part2)) (\<lambda>r.
        Inr ((off, after) # fst r, snd r))))"

definition DetectorBankSetsPkt :: "bytes \<Rightarrow> pkt_error + (pkt_header \<times> (u32 \<times> u32) list)" where
  "DetectorBankSetsPkt mem = sbind (PacketHeader mem) (\<lambda>h.
     if version h = 0 \<and> unat (payload_len h) < 4
     then Inl (Invalid_Packet ''DetectorBankSets V0 packet is too short for Count!'')
     else if version h > current_version DETECTOR_BANK_SETS_TYPE \<and> unat (payload_len h) < 4
     then Inl (Invalid_Packet ''Newer DetectorBankSets packet is too short for Count!'')
     else sbind (rd_fld mem 0) (\<lambda>numSets.
       if numSets < 1 then Inr (h, [])
       else sbind (bank_sets_loop mem h (unat numSets) 1) (\<lambda>r.
         if version h = 0 \<and> unat (payload_len h) < unat (snd r) * 4
         then Inl (Invalid_Packet ''DetectorBankSets V0 packet: overall too short'')
         else if version h > current_version DETECTOR_BANK_SETS_TYPE \<and>
           unat (payload_len h) < unat (snd r) * 4
         then Inl (Invalid_Packet ''Newer DetectorBankSets packet: overall too short'')
         else Inr (h, fst r))))"

text \<open>The accessors of set \<open>index\<close>, over the offsets that the constructor stored.\<close>

definition set_bankCount :: "bytes \<Rightarrow> (u32 \<times> u32) list \<Rightarrow> nat \<Rightarrow> pkt_error + u32" where
  "set_bankCount mem offs index =
     (if index < length offs then rd_fld mem (unat (fst (offs ! index) + set_name_offset + 1))
      else Inr 0)"

definition set_flags :: "bytes \<Rightarrow> (u32 \<times> u32) list \<Rightarrow> nat \<Rightarrow> pkt_error + u32" where
  "set_flags mem offs index =
     (if index < length offs then rd_fld mem (unat (fst (offs ! index) + set_name_offset))
      else Inr 0)"

text \<open>\<open>banklist(index)[k]\<close>, read where the pointer of the code lands.\<close>

definition set_bank :: "bytes \<Rightarrow> (u32 \<times> u32) list \<Rightarrow> nat \<Rightarrow> nat \<Rightarrow> pkt_error + u32" where
  "set_bank mem offs index k =
     rd_fld mem (unat (fst (offs ! index) + set_name_offset + 2) + k)"

definition set_tofOffset :: "bytes \<Rightarrow> (u32 \<times> u32) list \<Rightarrow> nat \<Rightarrow> pkt_error + u32" where
  "set_tofOffset mem offs index =
     (if index < length offs then rd_fld mem (unat (snd (offs ! index))) else Inr 0)"

definition set_tofMax :: "bytes \<Rightarrow> (u32 \<times> u32) list \<Rightarrow> nat \<Rightarrow> pkt_error + u32" where
  "set_tofMax mem offs index =
     (if index < length offs then rd_fld mem (unat (snd (offs ! index) + 1)) else Inr 0)"

definition set_tofBin :: "bytes \<Rightarrow> (u32 \<times> u32) list \<Rightarrow> nat \<Rightarrow> pkt_error + u32" where
  "set_tofBin mem offs index =
     (if index < length offs then rd_fld mem (unat (snd (offs ! index) + 2)) else Inr 0)"

definition set_throttle :: "bytes \<Rightarrow> (u32 \<times> u32) list \<Rightarrow> nat \<Rightarrow> pkt_error + u64" where
  "set_throttle mem offs index =
     (if index < length offs then rd64 mem (16 + 4 * unat (snd (offs ! index) + 3)) else Inr 0)"

text \<open>
  The names: \<open>strncpy\<close> of at most 16 characters, up to the first zero byte.
\<close>

definition rd_cstr :: "bytes \<Rightarrow> nat \<Rightarrow> nat \<Rightarrow> pkt_error + bytes" where
  "rd_cstr mem off n =
     (let s = takeWhile (\<lambda>b. b \<noteq> 0) (take n (drop off mem)) in
      if length s < n \<and> length mem \<le> off + length s then Inl Over_Read else Inr s)"

text \<open>Out of range the code returns a message and not a name, here \<open>None\<close>.\<close>

definition set_name :: "bytes \<Rightarrow> (u32 \<times> u32) list \<Rightarrow> nat \<Rightarrow> pkt_error + bytes option" where
  "set_name mem offs index =
     (if index < length offs
      then sbind (rd_cstr mem (16 + 4 * unat (fst (offs ! index))) 16) (\<lambda>s. Inr (Some s))
      else Inr None)"

definition set_suffix :: "bytes \<Rightarrow> (u32 \<times> u32) list \<Rightarrow> nat \<Rightarrow> pkt_error + bytes option" where
  "set_suffix mem offs index =
     (if index < length offs
      then sbind (rd_cstr mem (16 + 4 * unat (snd (offs ! index) + 5)) 16) (\<lambda>s. Inr (Some s))
      else Inr None)"

lemmas bank_set_consts = set_name_offset_def suffix_offset_def base_part1_def base_part2_def
  base_no_banks_def

text \<open>A well-formed table: no bank count is so large that an offset could wrap.\<close>

definition bank_set_in :: "bytes \<Rightarrow> u32 \<times> u32 \<Rightarrow> bool" where
  "bank_set_in mem oa =
     (unat (snd oa) = unat (fst oa) + 6 + unat (fld mem (unat (fst oa) + 5)) \<and>
      16 + 4 * (unat (snd oa) + 9) \<le> packet_bytes mem)"

definition bank_counts_fit :: "bytes \<Rightarrow> (u32 \<times> u32) list \<Rightarrow> bool" where
  "bank_counts_fit mem offs = (\<forall>oa \<in> set offs. unat (fld mem (unat (fst oa) + 5)) < 2 ^ 30)"

lemma unat_add_small: "unat (a :: u32) + k < 4294967296 \<Longrightarrow> k < 4294967296 \<Longrightarrow>
   unat (a + of_nat k) = unat a + k"
  by (simp add: unat_word_ariths unat_of_nat)

lemma quarter_bound: "(a + 15) * 4 \<le> b \<Longrightarrow> b < 4294967296 \<Longrightarrow> a < (1073741824 :: nat)"
  by simp

lemma bank_sets_loop_in:
  assumes "bank_sets_loop mem (header_at mem) n off = Inr (offs, end_off)"
    and "in_packet mem"
    and "unat end_off * 4 \<le> unat (u32_at mem 0)"
    and "bank_counts_fit mem offs" and "unat off < 3 * 2 ^ 30"
  shows "(\<forall>oa \<in> set offs. bank_set_in mem oa) \<and> unat off \<le> unat end_off"
  using assms
proof (induction n arbitrary: off offs)
  case 0
  then show ?case by simp
next
  case (Suc n)
  let ?b = "fld mem (unat (off + set_name_offset + 1))"
  let ?after = "off + base_part1 + ?b"
  have base: "unat (off + base_no_banks) = unat off + 15" "unat (off + set_name_offset + 1) = unat off + 5"
    using Suc.prems(5) by (simp_all add: bank_set_consts unat_word_ariths)
  from Suc.prems(1) base version_pos [of "header_at mem"]
  have room: "(unat off + 15) * 4 \<le> unat (u32_at mem 0)"
    by (auto simp: payload_len_header_at split: if_splits)
  then have rd: "rd_fld mem (unat (off + set_name_offset + 1)) = Inr ?b"
    using Suc.prems(2) base by (intro rd_fld_in) (auto dest!: in_packetD)
  from Suc.prems(1) rd obtain rest where
      rest: "bank_sets_loop mem (header_at mem) n (?after + base_part2) = Inr (rest, end_off)"
    and offs: "offs = (off, ?after) # rest"
    by (auto simp: Let_def sbind_eq_Inr split: if_splits)
  have small: "unat ?b < 2 ^ 30"
    using Suc.prems(4) base by (simp add: bank_counts_fit_def offs)
  have "unat off < 1073741824"
    using quarter_bound [OF room unat_u32_less] .
  then have off30: "unat off < 2 ^ 30" by simp
  have after: "unat ?after = unat off + 6 + unat ?b"
    "unat (?after + base_part2) = unat off + 15 + unat ?b"
    using small off30 by (simp_all add: bank_set_consts unat_word_ariths)
  have ih: "(\<forall>oa \<in> set rest. bank_set_in mem oa) \<and> unat (?after + base_part2) \<le> unat end_off"
    using rest Suc.prems(2-4) after small off30
    by (intro Suc.IH) (auto simp: bank_counts_fit_def offs)
  then have "bank_set_in mem (off, ?after)"
    using after base Suc.prems(3) by (simp add: bank_set_in_def packet_bytes_def)
  then show ?case using ih after offs by auto
qed

lemma bank_sets_accepted_in:
  assumes "in_packet mem" and "DetectorBankSetsPkt mem = Inr (h, offs)"
    and "bank_counts_fit mem offs" and "oa \<in> set offs"
  shows "bank_set_in mem oa"
proof -
  have m: "16 \<le> length mem" "16 + unat (u32_at mem 0) \<le> length mem"
    using assms(1) by (simp_all add: in_packetD)
  with assms(2,4) version_pos [of "header_at mem"] obtain end_off where
      "bank_sets_loop mem (header_at mem) (unat (fld mem 0)) 1 = Inr (offs, end_off)"
    and "unat end_off * 4 \<le> unat (u32_at mem 0)"
    by (fastforce simp: DetectorBankSetsPkt_def read_simps sbind_eq_Inr payload_len_header_at
        rd_fld_def rd32_def fld_def split: if_splits)
  then show ?thesis
    using bank_sets_loop_in assms(1,3,4) by fastforce
qed

text \<open>The reader contract, for tables whose counts cannot wrap an offset.\<close>

definition bank_table_fits :: "bytes \<Rightarrow> bool" where
  "bank_table_fits mem =
     (case DetectorBankSetsPkt mem of Inl _ \<Rightarrow> True | Inr (h, offs) \<Rightarrow> bank_counts_fit mem offs)"

lemma bank_sets_loop_take:
  assumes "bank_sets_loop mem (header_at mem) n off = Inr (offs, end_off)"
    and "in_packet mem" and "\<forall>oa \<in> set offs. bank_set_in mem oa"
  shows "bank_sets_loop (take (packet_bytes mem) mem) (header_at mem) n off = Inr (offs, end_off)"
  using assms
proof (induction n arbitrary: off offs)
  case 0
  then show ?case by simp
next
  case (Suc n)
  let ?i = "off + set_name_offset + 1"
  from Suc.prems(1) obtain b rest where
      b: "rd_fld mem (unat ?i) = Inr b"
    and rest: "bank_sets_loop mem (header_at mem) n (off + base_part1 + b + base_part2) = Inr (rest, end_off)"
    and offs: "offs = (off, off + base_part1 + b) # rest"
    by (auto simp: Let_def sbind_eq_Inr split: if_splits)
  have IH: "bank_sets_loop (take (packet_bytes mem) mem) (header_at mem) n (off + base_part1 + b + base_part2) =
      Inr (rest, end_off)"
    using Suc.IH [OF rest Suc.prems(2)] Suc.prems(3) offs by simp
  have "unat ?i \<le> unat off + 5"
    by (simp add: bank_set_consts add.assoc) (simp add: unat_word_ariths)
  then have "20 + 4 * unat ?i \<le> packet_bytes mem"
    using Suc.prems(3) offs by (auto simp: bank_set_in_def)
  then have "rd_fld (take (packet_bytes mem) mem) (unat ?i) = Inr b"
    using Suc.prems(2) b by (simp add: rd_fld_take in_packet_def)
  then show ?case
    using Suc.prems(1) IH b by (simp add: Let_def sbind_eq_Inr offs split: if_splits)
qed

interpretation bank_sets: packet_reader DetectorBankSetsPkt bank_table_fits
proof unfold_locales
  fix mem x
  assume m: "in_packet mem" and fits: "bank_table_fits mem" and ok: "DetectorBankSetsPkt mem = Inr x"
  obtain h offs where x: "x = (h, offs)" by fastforce
  have sets: "\<forall>oa \<in> set offs. bank_set_in mem oa"
    using bank_sets_accepted_in [OF m ok [unfolded x]] fits ok x by (simp add: bank_table_fits_def)
  have b: "16 \<le> length mem" "16 + unat (u32_at mem 0) \<le> length mem"
    using m by (simp_all add: in_packetD)
  have t: "16 \<le> packet_bytes mem" "packet_bytes mem \<le> length mem"
    using m by (simp_all add: in_packet_def)
  have n: "20 \<le> packet_bytes mem"
    using ok b version_pos [of "header_at mem"]
    by (auto simp: DetectorBankSetsPkt_def read_simps payload_len_header_at packet_bytes_def split: if_splits)
  let ?num = "fld mem 0"
  have f0: "rd_fld (take (packet_bytes mem) mem) 0 = Inr ?num" "rd_fld mem 0 = Inr ?num"
    using n t by (simp_all add: fld_take rd_fld_in)
  have loop: "bank_sets_loop (take (packet_bytes mem) mem) (header_at mem) (unat ?num) 1 =
      bank_sets_loop mem (header_at mem) (unat ?num) 1" if "\<not> ?num < 1"
  proof (cases "bank_sets_loop mem (header_at mem) (unat ?num) 1")
    case (Inl e)
    then show ?thesis using ok b that by (simp add: DetectorBankSetsPkt_def read_simps f0 split: if_splits)
  next
    case (Inr r)
    then have "r = (offs, snd r)"
      using ok b that x by (auto simp: DetectorBankSetsPkt_def read_simps f0 split: if_splits)
    then show ?thesis using bank_sets_loop_take [of mem _ _ offs "snd r", OF _ m sets] Inr by metis
  qed
  have hd: "PacketHeader mem = Inr (header_at mem)"
    "PacketHeader (take (packet_bytes mem) mem) = Inr (header_at mem)"
    using b t by (simp_all add: read_simps)
  have "DetectorBankSetsPkt (take (packet_bytes mem) mem) = DetectorBankSetsPkt mem"
    using loop by (cases "?num < 1") (simp_all only: DetectorBankSetsPkt_def hd f0 sbind_simps if_True if_False simp_thms)
  then show "DetectorBankSetsPkt (take (packet_bytes mem) mem) = Inr x"
    using ok by simp
qed

end
