(* ===== verification/Event_Packets.thy ===== *)
theory Event_Packets
  imports Control_Packets
begin

text \<open>
  The event packets the stream management service emits and its clients read
  (\<open>common/ADARAPackets.cc\<close>): banked neutron events with their two-level iterator, beam monitor
  events with their section iterator, and the packets without decoded fields (source lists, pixel
  mappings, banked events with states). Iterator positions are 32-bit indices into the payload,
  and every array access of the code is a checked read.
\<close>

unbundle bit_operations_syntax

section \<open>Constructors\<close>

definition SourceListPkt :: "bytes \<Rightarrow> pkt_error + pkt_header" where [ctor_defs]:
  "SourceListPkt mem = PacketHeader mem"

definition PixelMappingPkt :: "bytes \<Rightarrow> pkt_error + pkt_header" where [ctor_defs]:
  "PixelMappingPkt mem = PacketHeader mem"

definition PixelMappingAltPkt :: "bytes \<Rightarrow> pkt_error + pkt_header" where [ctor_defs]:
  "PixelMappingAltPkt mem = PacketHeader mem"

definition BankedEventStatePkt :: "bytes \<Rightarrow> pkt_error + pkt_header" where [ctor_defs]:
  "BankedEventStatePkt mem = sbind (PacketHeader mem) (\<lambda>h.
     if version h = 0 \<and> unat (payload_len h) < 4 * 4
     then Inl (Invalid_Packet ''BankedEventState V0 packet is too short'')
     else if version h > current_version BANKED_EVENT_STATE_TYPE \<and> unat (payload_len h) < 4 * 4
     then Inl (Invalid_Packet ''Newer BankedEventState packet is too short'')
     else Inr h)"

record banked_iter =
  cur_event :: "u32 option"
  last_field :: u32
  cur_field :: u32
  source_start :: u32
  bank_count :: u32
  tof_offset :: u32
  is_corrected :: bool
  bank_num :: u32
  bank_start :: u32
  bank_id :: u32
  event_count :: u32

text \<open>The constructor also sets the index of the last field, \<open>payload_length() / 4 - 1\<close>.\<close>

definition banked_init :: "pkt_header \<Rightarrow> banked_iter" where
  "banked_init h =
     \<lparr>cur_event = None, last_field = payload_len h div 4 - 1, cur_field = 0, source_start = 0,
      bank_count = 0, tof_offset = 0, is_corrected = False, bank_num = 0, bank_start = 0,
      bank_id = 0, event_count = 0\<rparr>"

definition BankedEventPkt :: "bytes \<Rightarrow> pkt_error + (pkt_header \<times> banked_iter)" where [ctor_defs]:
  "BankedEventPkt mem = sbind (PacketHeader mem) (\<lambda>h.
     if version h = 0 \<and> unat (payload_len h) < 4 * 4
     then Inl (Invalid_Packet ''BankedEvent V0 packet is too short'')
     else if version h = 1 \<and> unat (payload_len h) < 4 * 4
     then Inl (Invalid_Packet ''BankedEvent V1 packet is too short'')
     else if version h > current_version BANKED_EVENT_TYPE \<and> unat (payload_len h) < 4 * 4
     then Inl (Invalid_Packet ''Newer BankedEvent packet is too short'')
     else Inr (h, banked_init h))"

record bmon_iter =
  section_start :: u32
  event_num :: u32

definition BeamMonitorPkt :: "bytes \<Rightarrow> pkt_error + (pkt_header \<times> bmon_iter)" where [ctor_defs]:
  "BeamMonitorPkt mem = sbind (PacketHeader mem) (\<lambda>h.
     if version h = 0 \<and> unat (payload_len h) < 4 * 4
     then Inl (Invalid_Packet ''BeamMonitor V0 packet is too short'')
     else if version h = 1 \<and> unat (payload_len h) < 4 * 4
     then Inl (Invalid_Packet ''BeamMonitor V1 packet is too short'')
     else if version h > current_version BEAM_MONITOR_EVENT_TYPE \<and> unat (payload_len h) < 4 * 4
     then Inl (Invalid_Packet ''Newer BeamMonitor packet is too short'')
     else Inr (h, \<lparr>section_start = 0, event_num = 0\<rparr>))"

text \<open>The four pulse words that every event packet starts with.\<close>

definition pulse_charge :: "bytes \<Rightarrow> u32" where "pulse_charge mem = fld mem 0"
definition pulse_energy :: "bytes \<Rightarrow> u32" where "pulse_energy mem = fld mem 1"
definition pulse_cycle :: "bytes \<Rightarrow> u32" where "pulse_cycle mem = fld mem 2"
definition pulse_vetoFlags :: "bytes \<Rightarrow> u32" where
  "pulse_vetoFlags mem = drop_bit 20 (fld mem 3) AND 0xfff"
definition pulse_flags :: "bytes \<Rightarrow> u32" where
  "pulse_flags mem = fld mem 3 AND 0xfffff"

interpretation source_list: packet_ctor SourceListPkt 0 "\<lambda>_. True"
  by unfold_locales (auto simp: ctor_defs ctor_simps)

interpretation pixel_mapping: packet_ctor PixelMappingPkt 0 "\<lambda>_. True"
  by unfold_locales (auto simp: ctor_defs ctor_simps)

interpretation pixel_mapping_alt: packet_ctor PixelMappingAltPkt 0 "\<lambda>_. True"
  by unfold_locales (auto simp: ctor_defs ctor_simps)

interpretation banked_state: packet_ctor BankedEventStatePkt 0 "\<lambda>_. True"
  by unfold_locales (auto simp: ctor_defs ctor_simps split: if_splits)

interpretation banked: packet_ctor BankedEventPkt 0 "\<lambda>_. True"
  by unfold_locales (auto simp: ctor_defs ctor_simps split: if_splits)

interpretation beam_monitor: packet_ctor BeamMonitorPkt 0 "\<lambda>_. True"
  by unfold_locales (auto simp: ctor_defs ctor_simps split: if_splits)

section \<open>The beam monitor iterator\<close>

text \<open>\<open>nextSection\<close>: the position of the next section, if it starts inside the payload.\<close>

definition bmon_nextSection :: "bytes \<Rightarrow> pkt_header \<Rightarrow> bmon_iter \<Rightarrow> pkt_error + (bool \<times> bmon_iter)"
  where
  "bmon_nextSection mem h s =
     sbind (if section_start s = 0 then Inr 4
            else sbind (rd_fld mem (unat (section_start s))) (\<lambda>w.
              Inr (section_start s + 3 + (w AND 0x003fffff)))) (\<lambda>start.
     if start * 4 < payload_len h
     then Inr (True, \<lparr>section_start = start, event_num = 0\<rparr>)
     else Inr (False, s))"

definition bmon_getSectionMonitorID :: "bytes \<Rightarrow> bmon_iter \<Rightarrow> pkt_error + u32" where
  "bmon_getSectionMonitorID mem s =
     sbind (rd_fld mem (unat (section_start s))) (\<lambda>w. Inr (drop_bit 22 w))"

definition bmon_getSectionEventCount :: "bytes \<Rightarrow> bmon_iter \<Rightarrow> pkt_error + u32" where
  "bmon_getSectionEventCount mem s =
     sbind (rd_fld mem (unat (section_start s))) (\<lambda>w. Inr (w AND 0x003fffff))"

definition bmon_getSectionSourceID :: "bytes \<Rightarrow> bmon_iter \<Rightarrow> pkt_error + u32" where
  "bmon_getSectionSourceID mem s = rd_fld mem (unat (section_start s + 1))"

definition bmon_getSectionTOFOffset :: "bytes \<Rightarrow> bmon_iter \<Rightarrow> pkt_error + u32" where
  "bmon_getSectionTOFOffset mem s =
     sbind (rd_fld mem (unat (section_start s + 2))) (\<lambda>w. Inr (w AND 0x7fffffff))"

definition bmon_sectionTOFCorrected :: "bytes \<Rightarrow> bmon_iter \<Rightarrow> pkt_error + bool" where
  "bmon_sectionTOFCorrected mem s =
     sbind (rd_fld mem (unat (section_start s + 2))) (\<lambda>w. Inr (w AND 0x80000000 \<noteq> 0))"

record bmon_event =
  rising_edge :: bool
  bm_cycle :: u32
  bm_tof :: u32

definition bmon_event_of_word :: "u32 \<Rightarrow> bmon_event" where
  "bmon_event_of_word w =
     \<lparr>rising_edge = (w AND 0x80000000 \<noteq> 0), bm_cycle = drop_bit 21 (w AND 0x7fe00000),
      bm_tof = w AND 0x001fffff\<rparr>"

definition bmon_nextEvent ::
    "bytes \<Rightarrow> bmon_iter \<Rightarrow> pkt_error + (bmon_event option \<times> bmon_iter)" where
  "bmon_nextEvent mem s =
     (if section_start s = 0 then Inr (None, s)
      else sbind (bmon_getSectionEventCount mem s) (\<lambda>n.
        if event_num s < n
        then sbind (rd_fld mem (unat (section_start s + 3 + event_num s))) (\<lambda>w.
          Inr (Some (bmon_event_of_word w), s\<lparr>event_num := event_num s + 1\<rparr>))
        else Inr (None, s)))"

section \<open>The banked event iterator\<close>

definition firstEventInBank :: "bytes \<Rightarrow> banked_iter \<Rightarrow> pkt_error + banked_iter" where
  "firstEventInBank mem s =
     sbind (rd_fld mem (unat (cur_field s))) (\<lambda>bid.
     sbind (rd_fld mem (unat (cur_field s + 1))) (\<lambda>n.
     let s' = s\<lparr>bank_start := cur_field s, bank_id := bid, event_count := n,
                cur_field := cur_field s + 2\<rparr> in
     Inr (s'\<lparr>cur_event := (if n > 0 then Some (cur_field s') else None)\<rparr>)))"

text \<open>
  The loop over the banks of a source: \<open>while (m_bankNum <= m_bankCount && m_curEvent == nullptr)\<close>.
  Its result is None when the loop does not end.
\<close>

partial_function (option) bank_loop ::
    "bytes \<Rightarrow> banked_iter \<Rightarrow> (pkt_error + banked_iter) option" where
  "bank_loop mem s =
     (if bank_num s \<le> bank_count s \<and> cur_event s = None
      then (case firstEventInBank mem s of
              Inl e \<Rightarrow> Some (Inl e)
            | Inr s' \<Rightarrow> bank_loop mem
                (if cur_event s' = None then s'\<lparr>bank_num := bank_num s' + 1\<rparr> else s'))
      else Some (Inr s))"

text \<open>
  \<open>m_TOFOffset\<close> is set from a comparison with zero, so it is 0 or 1 and not the offset.
\<close>

definition firstEventInSource ::
    "bytes \<Rightarrow> banked_iter \<Rightarrow> (pkt_error + banked_iter) option" where
  "firstEventInSource mem s =
     (case rd_fld mem (unat (cur_field s + 3)) of
        Inl e \<Rightarrow> Some (Inl e)
      | Inr n \<Rightarrow>
        (if n > 0
         then (case rd_fld mem (unat (cur_field s + 2)) of
                 Inl e \<Rightarrow> Some (Inl e)
               | Inr w \<Rightarrow> bank_loop mem
                   (s\<lparr>source_start := cur_field s, bank_count := n,
                     tof_offset := (if w AND 0x7fffffff \<noteq> 0 then 1 else 0),
                     is_corrected := (w AND 0x80000000 \<noteq> 0),
                     bank_num := 1, cur_field := cur_field s + 4\<rparr>))
         else Some (Inr (s\<lparr>source_start := cur_field s, bank_count := n,
                           cur_field := cur_field s + 4, cur_event := None\<rparr>))))"

text \<open>
  The loop over sources. \<open>firstEvent\<close> runs it while the index is at most the last field,
  \<open>nextEvent\<close> while it is below; \<open>strict\<close> tells the two apart.
\<close>

partial_function (option) source_loop ::
    "bytes \<Rightarrow> bool \<Rightarrow> banked_iter \<Rightarrow> (pkt_error + banked_iter) option" where
  "source_loop mem strict s =
     (if cur_event s = None \<and>
         (if strict then cur_field s < last_field s else cur_field s \<le> last_field s)
      then (case firstEventInSource mem s of
              None \<Rightarrow> None
            | Some r \<Rightarrow> (case r of
                Inl e \<Rightarrow> Some (Inl e)
              | Inr s' \<Rightarrow> source_loop mem strict s'))
      else Some (Inr s))"

definition firstEvent :: "bytes \<Rightarrow> banked_iter \<Rightarrow> (pkt_error + banked_iter) option" where
  "firstEvent mem s = source_loop mem False (s\<lparr>cur_event := None, cur_field := 4\<rparr>)"

definition nextEvent :: "bytes \<Rightarrow> banked_iter \<Rightarrow> (pkt_error + banked_iter) option" where
  "nextEvent mem s =
     (if cur_event s = None then Some (Inr s)
      else let s1 = s\<lparr>cur_event := None, cur_field := cur_field s + 2\<rparr> in
        if cur_field s1 < bank_start s1 + 2 + 2 * event_count s1
        then Some (Inr (s1\<lparr>cur_event := Some (cur_field s1)\<rparr>))
        else (case bank_loop mem (s1\<lparr>bank_num := bank_num s1 + 1\<rparr>) of
                None \<Rightarrow> None
              | Some r \<Rightarrow> (case r of
                  Inl e \<Rightarrow> Some (Inl e)
                | Inr s2 \<Rightarrow> source_loop mem True s2)))"

text \<open>A client's loop over a packet: \<open>for (e = firstEvent(); e; e = nextEvent())\<close>.\<close>

partial_function (option) collect_from ::
    "bytes \<Rightarrow> banked_iter \<Rightarrow> (u32 \<times> event) list \<Rightarrow> (pkt_error + (u32 \<times> event) list) option" where
  "collect_from mem s acc =
     (case cur_event s of
        None \<Rightarrow> Some (Inr acc)
      | Some i \<Rightarrow>
        (case sbind (rd_fld mem (unat i)) (\<lambda>t. sbind (rd_fld mem (unat (i + 1))) (\<lambda>p.
                Inr (bank_id s, \<lparr>tof = t, pixel = p\<rparr>))) of
           Inl e \<Rightarrow> Some (Inl e)
         | Inr x \<Rightarrow>
           (case nextEvent mem s of
              None \<Rightarrow> None
            | Some r \<Rightarrow> (case r of
                Inl e \<Rightarrow> Some (Inl e)
              | Inr s' \<Rightarrow> collect_from mem s' (acc @ [x])))))"

definition collect_events :: "bytes \<Rightarrow> (pkt_error + (u32 \<times> event) list) option" where
  "collect_events mem =
     (case BankedEventPkt mem of
        Inl e \<Rightarrow> Some (Inl e)
      | Inr (h, s) \<Rightarrow>
        (case firstEvent mem s of
           None \<Rightarrow> None
         | Some r \<Rightarrow> (case r of Inl e \<Rightarrow> Some (Inl e) | Inr s' \<Rightarrow> collect_from mem s' [])))"

end
