(* ===== verification/Stream_Parser.thy ===== *)
theory Stream_Parser
  imports Packet_Header
begin

text \<open>
  \<open>ADARA::Parser\<close> (\<open>common/ADARAParser.h\<close>, \<open>.cc\<close>): an incremental parser over an internal buffer.
  \<open>buf\<close> holds the \<open>m_len\<close> valid bytes; \<open>m_size\<close> is the capacity. The virtual callbacks are
  parameters: \<open>rx\<close> for a packet that fits, \<open>rxo\<close> for a chunk of an oversize packet; each
  returns the new client state and whether it asks to stop, and \<open>rx\<close> may throw. A packet is
  handed over as exactly the bytes \<open>[p, p + packet_length)\<close>.
\<close>

record parser =
  buf :: bytes
  m_size :: u32
  m_max_size :: u32
  restart_offset :: nat
  oversize_len :: u32
  oversize_offset :: u32

definition new_parser :: "u32 \<Rightarrow> u32 \<Rightarrow> parser" where
  "new_parser initial_size max_size =
     \<lparr>buf = [], m_size = initial_size, m_max_size = max_size, restart_offset = 0,
      oversize_len = 0, oversize_offset = 0\<rparr>"

definition parser_reset :: "parser \<Rightarrow> parser" where
  "parser_reset P = P\<lparr>buf := [], restart_offset := 0, oversize_len := 0, oversize_offset := 0\<rparr>"

definition bufferFillLength :: "parser \<Rightarrow> nat" where
  "bufferFillLength P = unat (m_size P) - length (buf P)"

text \<open>\<open>bufferBytesAppended\<close> throws a \<open>logic_error\<close> when more was written than there was room.\<close>

definition bufferBytesAppended :: "bytes \<Rightarrow> parser \<Rightarrow> parser option" where
  "bufferBytesAppended chunk P =
     (if bufferFillLength P < length chunk then None else Some (P\<lparr>buf := buf P @ chunk\<rparr>))"

text \<open>The loop \<open>do { new_size *= 2; } while (new_size < hdr.packet_length())\<close>.\<close>

partial_function (option) grow_size :: "u32 \<Rightarrow> u32 \<Rightarrow> u32 option" where
  "grow_size n len = (let n' = n * 2 in if n' < len then grow_size n' len else Some n')"

type_synonym 's rx = "'s \<Rightarrow> bytes \<Rightarrow> 's \<times> (pkt_error + bool)"
type_synonym 's rxo = "'s \<Rightarrow> pkt_header option \<Rightarrow> bytes \<Rightarrow> u32 \<Rightarrow> 's \<times> bool"

text \<open>What the loop finds at its position, in the order of the code's tests.\<close>

datatype head = Bad_Alignment | Over_Maximum | Over_Buffer | Incomplete | Whole nat

definition next_head :: "parser \<Rightarrow> bytes \<Rightarrow> head" where
  "next_head P mem =
     (let h = header_at mem in
      if unat (payload_len h) mod 4 \<noteq> 0 then Bad_Alignment
      else if m_max_size P < packet_length h then Over_Maximum
      else if m_size P < packet_length h then Over_Buffer
      else if length mem < unat (packet_length h) then Incomplete
      else Whole (unat (packet_length h)))"

text \<open>How the packet loop ends: out of data, limit or stop; an oversize packet; a resize; or a
  resize computation that never ends.\<close>

datatype loop_exit =
    Loop_Done nat nat bool
  | Loop_Oversize u32 u32 nat bool
  | Loop_Resized u32 nat nat
  | Loop_Hangs

function parse_loop ::
    "'s rx \<Rightarrow> 's rxo \<Rightarrow> parser \<Rightarrow> nat \<Rightarrow> 's \<Rightarrow> nat \<Rightarrow> nat \<Rightarrow> bool \<Rightarrow> 's \<times> (pkt_error + loop_exit)" where
  "parse_loop rx rxo P max_packets s pos processed stopped =
     (let mem = drop pos (buf P); len = packet_length (header_at mem) in
      if header_length \<le> length mem \<and> processed < max_packets \<and> \<not> stopped then
        (case next_head P mem of
           Bad_Alignment \<Rightarrow> (s, Inl (Invalid_Packet ''Payload length not multiple of 4''))
         | Over_Maximum \<Rightarrow>
             (case rxo s (Some (header_at mem)) mem 0 of (s', st) \<Rightarrow>
                (s', Inr (Loop_Oversize (len - of_nat (length mem)) (of_nat (length mem))
                            processed st)))
         | Over_Buffer \<Rightarrow>
             (case grow_size (m_size P) len of
                None \<Rightarrow> (s, Inr Loop_Hangs)
              | Some n \<Rightarrow>
                  (s, Inr (Loop_Resized (if n > m_max_size P then m_max_size P else n)
                             pos processed)))
         | Incomplete \<Rightarrow> (s, Inr (Loop_Done pos processed stopped))
         | Whole n \<Rightarrow>
             (case rx s (take n mem) of (s', r) \<Rightarrow>
               (case r of
                  Inl e \<Rightarrow> (s', Inl e)
                | Inr st \<Rightarrow> parse_loop rx rxo P max_packets s' (pos + n) (processed + 1) st)))
      else (s, Inr (Loop_Done pos processed stopped)))"
  by pat_completeness auto
termination
  by (relation "measure (\<lambda>(rx, rxo, P, m, s, pos, processed, stopped). m - processed)") auto

declare parse_loop.simps [simp del]

lemma next_head_Whole:
  "next_head P mem = Whole n \<Longrightarrow>
   n \<le> length mem \<and> n = unat (packet_length (header_at mem)) \<and>
   unat (payload_len (header_at mem)) mod 4 = 0"
  by (auto simp: next_head_def Let_def split: if_splits)

text \<open>\<open>static_cast<int>(processed)\<close>.\<close>

definition as_int :: "nat \<Rightarrow> int" where
  "as_int n = sint (of_nat n :: u32)"

datatype parse_result = Returned int | Threw pkt_error | Hangs

definition finish_parse ::
    "parser \<Rightarrow> nat \<Rightarrow> 's \<times> (pkt_error + loop_exit) \<Rightarrow> 's \<times> parser \<times> parse_result" where
  "finish_parse P max_packets r =
     (let s = fst r; rc = (\<lambda>n st. Returned (if st then - as_int n else as_int n)) in
      case snd r of
        Inl e \<Rightarrow> (s, P, Threw e)
      | Inr (Loop_Done pos processed stopped) \<Rightarrow>
          (s, (if pos < length (buf P)
               then (if \<not> stopped \<and> processed < max_packets
                     then P\<lparr>buf := drop pos (buf P), restart_offset := 0\<rparr>
                     else P\<lparr>restart_offset := pos\<rparr>)
               else P\<lparr>buf := [], restart_offset := 0\<rparr>),
           rc processed stopped)
      | Inr (Loop_Oversize olen ooff processed stopped) \<Rightarrow>
          (s, P\<lparr>buf := [], restart_offset := 0, oversize_len := olen, oversize_offset := ooff\<rparr>,
           rc processed stopped)
      | Inr (Loop_Resized n pos processed) \<Rightarrow>
          (s, P\<lparr>buf := drop pos (buf P), m_size := n, restart_offset := 0\<rparr>,
           Returned (as_int processed))
      | Inr Loop_Hangs \<Rightarrow> (s, P, Hangs))"

definition bufferParse ::
    "'s rx \<Rightarrow> 's rxo \<Rightarrow> nat \<Rightarrow> 's \<Rightarrow> parser \<Rightarrow> 's \<times> parser \<times> parse_result" where
  "bufferParse rx rxo max_packets s P =
     (let valid_len = length (buf P) - restart_offset P;
          limit = (if max_packets = 0 then unat (m_size P) else max_packets) in
      if valid_len = 0 then (s, P, Returned 0)
      else if oversize_len P \<noteq> 0 then
        (let chunk_len = min (unat (oversize_len P)) valid_len;
             ov = rxo s None (take chunk_len (drop (restart_offset P) (buf P))) (oversize_offset P);
             P' = P\<lparr>oversize_offset := oversize_offset P + of_nat chunk_len,
                    oversize_len := oversize_len P - of_nat chunk_len\<rparr>;
             processed = (if oversize_len P' = 0 then 1 else 0) in
         finish_parse P' limit
           (parse_loop rx rxo P' limit (fst ov) (restart_offset P + chunk_len) processed (snd ov)))
      else finish_parse P limit (parse_loop rx rxo P limit s (restart_offset P) 0 False))"

section \<open>The buffer invariant\<close>

text \<open>
  What every operation keeps, whatever bytes arrive and whatever the callbacks do: the valid
  bytes fit the buffer, the restart offset lies in them, and the buffer never grows past the limit.
\<close>

definition parser_inv :: "parser \<Rightarrow> bool" where
  "parser_inv P \<longleftrightarrow>
     length (buf P) \<le> unat (m_size P) \<and> restart_offset P \<le> length (buf P) \<and>
     m_size P \<le> m_max_size P"

lemma parser_inv_new: "a \<le> m \<Longrightarrow> parser_inv (new_parser a m)"
  by (simp add: parser_inv_def new_parser_def)

lemma parser_inv_reset: "parser_inv P \<Longrightarrow> parser_inv (parser_reset P)"
  by (simp add: parser_inv_def parser_reset_def)

lemma parser_inv_append:
  "parser_inv P \<Longrightarrow> bufferBytesAppended chunk P = Some P' \<Longrightarrow> parser_inv P'"
  by (auto simp: parser_inv_def bufferBytesAppended_def bufferFillLength_def split: if_splits)

text \<open>What the loop can leave behind.\<close>

fun exit_ok :: "parser \<Rightarrow> loop_exit \<Rightarrow> bool" where
  "exit_ok P (Loop_Done pos processed stopped) = (pos \<le> length (buf P))"
| "exit_ok P (Loop_Oversize olen ooff processed stopped) = True"
| "exit_ok P (Loop_Resized n pos processed) =
     (pos \<le> length (buf P) \<and> m_size P \<le> n \<and> n \<le> m_max_size P)"
| "exit_ok P Loop_Hangs = True"

lemma grow_size_ge: "grow_size n len = Some r \<Longrightarrow> len \<le> r"
proof -
  assume ret: "grow_size n len = Some r"
  show "len \<le> r"
  proof (rule grow_size.raw_induct [where P = "\<lambda>n len r. len \<le> r", OF _ ret])
    fix f n len and r :: u32
    assume IH: "\<And>n len r. f n len = Some r \<Longrightarrow> len \<le> r"
      and eq: "(let n' = n * 2 in if n' < len then f n' len else Some n') = Some r"
    show "len \<le> r"
      using eq IH by (auto simp: Let_def not_less split: if_splits)
  qed
qed

text \<open>The loop ends, and in a buffer that holds the packet, when doubling cannot overflow.\<close>

lemma grow_size_ends:
  assumes "0 < n" and "n < len" and "unat len \<le> 2 ^ 31"
  shows "\<exists>r. grow_size n len = Some r \<and> len \<le> r"
  using assms
proof (induction "2 ^ 32 - unat n" arbitrary: n rule: less_induct)
  case less
  have lt: "unat n < unat len" using less.prems(2) by (simp add: word_less_nat_alt)
  then have dbl: "unat (n * 2) = unat n * 2"
    using less.prems(3) by (simp add: unat_word_ariths)
  have pos: "0 < unat n" using less.prems(1) by (simp add: word_less_nat_alt)
  show ?case
  proof (cases "n * 2 < len")
    case True
    have "2 ^ 32 - unat (n * 2) < 2 ^ 32 - unat n"
      using dbl pos lt less.prems(3) by simp
    moreover have "0 < n * 2" using dbl pos by (simp add: word_less_nat_alt)
    ultimately have "\<exists>r. grow_size (n * 2) len = Some r \<and> len \<le> r"
      using True less.prems(3) by (rule less.hyps)
    then show ?thesis using True by (simp add: grow_size.simps [of n] Let_def)
  next
    case False
    then show ?thesis by (auto simp: grow_size.simps [of n] Let_def)
  qed
qed

lemma next_head_Over_Buffer:
  "next_head P mem = Over_Buffer \<Longrightarrow>
   m_size P < packet_length (header_at mem) \<and> packet_length (header_at mem) \<le> m_max_size P"
  by (auto simp: next_head_def Let_def split: if_splits)

lemma parse_loop_exit_ok:
  assumes "pos \<le> length (buf P)" and "m_size P \<le> m_max_size P"
    and "parse_loop rx rxo P m s pos processed stopped = (s', Inr x)"
  shows "exit_ok P x"
  using assms
proof (induction rx rxo P m s pos processed stopped rule: parse_loop.induct)
  case (1 rx rxo P m s pos processed stopped)
  let ?mem = "drop pos (buf P)"
  note eq = parse_loop.simps [of rx rxo P m s pos processed stopped, unfolded Let_def]
  show ?case
  proof (cases "header_length \<le> length ?mem \<and> processed < m \<and> \<not> stopped")
    case guard: True
    show ?thesis
    proof (cases "next_head P ?mem")
      case (Whole n)
      obtain s2 st where
          rx: "rx s (take n ?mem) = (s2, Inr st)"
        and rec: "parse_loop rx rxo P m s2 (pos + n) (processed + 1) st = (s', Inr x)"
        using "1.prems"(3) [unfolded eq] guard Whole
        by (simp split: prod.splits sum.splits)
      have "pos + n \<le> length (buf P)"
        using next_head_Whole [OF Whole, THEN conjunct1] "1.prems"(1) by simp
      then show ?thesis
        using "1.IH" [OF refl refl guard Whole rx [symmetric] refl] rec "1.prems"(2) by simp
    next
      case Over_Buffer
      show ?thesis
        using "1.prems"(3) [unfolded eq] guard Over_Buffer next_head_Over_Buffer [OF Over_Buffer]
          "1.prems"(1,2)
        by (auto dest!: grow_size_ge split: option.splits)
    qed (use guard "1.prems"(1,2) "1.prems"(3) [unfolded eq] in \<open>auto split: prod.splits\<close>)
  next
    case False
    then show ?thesis using "1.prems"(1,2) "1.prems"(3) [unfolded eq] by auto
  qed
qed

lemma finish_parse_inv:
  assumes "length (buf P) \<le> unat (m_size P)" "m_size P \<le> m_max_size P"
    and "restart_offset P \<le> length (buf P)"
    and "\<And>x. snd r = Inr x \<Longrightarrow> exit_ok P x"
    and "finish_parse P m r = (s', P', res)"
  shows "parser_inv P'"
  using assms
  by (auto simp: finish_parse_def parser_inv_def Let_def word_le_nat_alt
      split: sum.splits loop_exit.splits if_splits)

lemma bufferParse_inv:
  assumes "parser_inv P" and "bufferParse rx rxo m s P = (s', P', res)"
  shows "parser_inv P'"
proof -
  have inv: "length (buf P) \<le> unat (m_size P)" "restart_offset P \<le> length (buf P)"
      "m_size P \<le> m_max_size P"
    using assms(1) by (simp_all add: parser_inv_def)
  have fin: "parser_inv P'"
    if "finish_parse Q lim (parse_loop rx rxo Q lim t pos k st) = (s', P', res)"
      "buf Q = buf P" "m_size Q = m_size P" "m_max_size Q = m_max_size P"
      "restart_offset Q = restart_offset P" "pos \<le> length (buf P)" for Q lim t pos k st
  proof (rule finish_parse_inv [OF _ _ _ _ that(1)])
    show "exit_ok Q x" if "snd (parse_loop rx rxo Q lim t pos k st) = Inr x" for x
      using parse_loop_exit_ok [of pos Q rx rxo lim t k st _ x] that
        \<open>buf Q = buf P\<close> \<open>m_size Q = m_size P\<close> \<open>m_max_size Q = m_max_size P\<close> \<open>pos \<le> length (buf P)\<close> inv
      by (simp add: prod_eq_iff)
  qed (use that inv in simp_all)
  let ?valid = "length (buf P) - restart_offset P"
  let ?chunk = "min (unat (oversize_len P)) ?valid"
  consider "?valid = 0" | "?valid \<noteq> 0" "oversize_len P \<noteq> 0" | "?valid \<noteq> 0" "oversize_len P = 0"
    by blast
  then show ?thesis
  proof cases
    case 1
    then show ?thesis using assms by (simp add: bufferParse_def Let_def)
  next
    case 2
    have "restart_offset P + ?chunk \<le> length (buf P)" using inv(2) by simp
    with 2 show ?thesis
      using assms(2) by (simp add: bufferParse_def Let_def) (erule fin; simp)
  next
    case 3
    then show ?thesis
      using assms(2) inv by (simp add: bufferParse_def Let_def) (erule fin; simp)
  qed
qed

end
