(* ===== verification/Stream_Session.thy ===== *)
theory Stream_Session
  imports Stream_Parser
begin

text \<open>
  What the incremental parser promises, and \<open>POSIXParser::read\<close> (\<open>common/POSIXParser.cc\<close>),
  which feeds it from a file descriptor.

  \<open>cut\<close> is the specification: it splits a whole byte stream at the packet boundaries. A client
  that collects what it is given sees exactly that split, however the stream was chunked, and
  the parser keeps exactly the bytes of the packet still to be completed.
\<close>

section \<open>The specification of the split\<close>

definition frame_len :: "bytes \<Rightarrow> nat" where
  "frame_len bs = unat (packet_length (header_at bs))"

text \<open>
  The packets of a stream, the number of bytes an oversize packet at its end still misses (its
  bytes so far are the last element), and the bytes that are kept for later.
\<close>

function cut :: "u32 \<Rightarrow> bytes \<Rightarrow> bytes list \<times> nat \<times> bytes" where
  "cut mx bs =
     (if length bs < header_length \<or> frame_len bs = 0 then ([], 0, bs)
      else if frame_len bs \<le> length bs then
        (case cut mx (drop (frame_len bs) bs) of (ps, need, r) \<Rightarrow> (take (frame_len bs) bs # ps, need, r))
      else if unat mx < frame_len bs then ([bs], frame_len bs - length bs, [])
      else ([], 0, bs))"
  by pat_completeness auto
termination
  by (relation "measure (\<lambda>(mx, bs). length bs)") (auto simp: header_length_def)

declare cut.simps [simp del]

text \<open>Every header of the stream is aligned and its packet length did not wrap.\<close>

function well_framed :: "bytes \<Rightarrow> bool" where
  "well_framed bs =
     (length bs < header_length \<or>
      unat (payload_len (header_at bs)) mod 4 = 0 \<and> header_length \<le> frame_len bs \<and>
      (frame_len bs \<le> length bs \<longrightarrow> header_length \<le> frame_len bs \<longrightarrow>
         well_framed (drop (frame_len bs) bs)))"
  by pat_completeness auto
termination
  by (relation "measure length") (auto simp: header_length_def)

declare well_framed.simps [simp del]

lemma frame_len_append: "16 \<le> length a \<Longrightarrow> frame_len (a @ b) = frame_len a"
  by (simp add: frame_len_def header_at_append)

lemma well_framed_step:
  "well_framed bs \<Longrightarrow> 16 \<le> length bs \<Longrightarrow>
   unat (payload_len (header_at bs)) mod 4 = 0 \<and> 16 \<le> frame_len bs \<and>
   (frame_len bs \<le> length bs \<longrightarrow> well_framed (drop (frame_len bs) bs))"
  by (subst (asm) well_framed.simps) (auto simp: header_length_def)

text \<open>The bytes of an oversize packet join its last element.\<close>

definition extend_last :: "bytes list \<Rightarrow> bytes \<Rightarrow> bytes list" where
  "extend_last ps c = butlast ps @ [last ps @ c]"

definition cut_more :: "u32 \<Rightarrow> bytes list \<times> nat \<times> bytes \<Rightarrow> bytes \<Rightarrow> bytes list \<times> nat \<times> bytes" where
  "cut_more mx x c =
     (case x of (ps, need, r) \<Rightarrow>
        if need = 0 then (case cut mx (r @ c) of (qs, y) \<Rightarrow> (ps @ qs, y))
        else if length c < need then (extend_last ps c, need - length c, [])
        else (case cut mx (drop need c) of (qs, y) \<Rightarrow> (extend_last ps (take need c) @ qs, y)))"

lemma cut_missing: "cut mx bs = (ps, need, r) \<Longrightarrow> need \<noteq> 0 \<Longrightarrow> ps \<noteq> [] \<and> r = []"
proof (induction mx bs arbitrary: ps rule: cut.induct)
  case (1 mx bs)
  from "1.prems" show ?case
    by (subst (asm) cut.simps) (auto split: if_splits prod.splits dest: "1.IH" [rotated 2])
qed

lemma extend_last_Cons: "ps \<noteq> [] \<Longrightarrow> extend_last (p # ps) c = p # extend_last ps c"
  by (simp add: extend_last_def)

text \<open>Splitting a stream in two pieces and continuing is splitting it at once.\<close>

lemma cut_append: "cut mx (a @ b) = cut_more mx (cut mx a) b"
proof (induction mx a rule: cut.induct)
  case (1 mx a)
  consider (short) "length a < header_length \<or> frame_len a = 0"
    | (whole) "\<not> (length a < header_length \<or> frame_len a = 0)" "frame_len a \<le> length a"
    | (over) "\<not> (length a < header_length \<or> frame_len a = 0)" "\<not> frame_len a \<le> length a"
        "unat mx < frame_len a"
    | (part) "\<not> (length a < header_length \<or> frame_len a = 0)" "\<not> frame_len a \<le> length a"
        "\<not> unat mx < frame_len a"
    by argo
  then show ?case
  proof cases
    case short
    then have "cut mx a = ([], 0, a)" by (simp add: cut.simps [of mx a])
    then show ?thesis by (simp add: cut_more_def split: prod.splits)
  next
    case whole
    let ?n = "frame_len a"
    have fl: "frame_len (a @ b) = ?n"
      using whole(1) by (simp add: frame_len_append header_length_def)
    have "cut mx (a @ b) = (case cut mx (drop ?n a @ b) of (ps, y) \<Rightarrow> (take ?n a # ps, y))"
      using whole by (subst cut.simps) (simp add: fl split: prod.splits)
    also have "cut mx (drop ?n a @ b) = cut_more mx (cut mx (drop ?n a)) b"
      using "1.IH" [OF whole] .
    finally show ?thesis
      using whole cut_missing [of mx "drop ?n a"]
      by (simp add: cut.simps [of mx a] cut_more_def extend_last_Cons split: prod.splits)
  next
    case over
    have fl: "frame_len (a @ b) = frame_len a"
      using over(1) by (simp add: frame_len_append header_length_def)
    have "cut mx a = ([a], frame_len a - length a, [])"
      using over by (subst cut.simps) simp
    moreover have "cut mx (a @ b) = cut_more mx ([a], frame_len a - length a, []) b"
      using over by (subst cut.simps) (auto simp: fl cut_more_def extend_last_def split: prod.splits)
    ultimately show ?thesis by simp
  next
    case part
    then have "cut mx a = ([], 0, a)" by (simp add: cut.simps [of mx a])
    then show ?thesis by (simp add: cut_more_def split: prod.splits)
  qed
qed

lemma cut_concat:
  "cut mx bs = (ps, need, r) \<Longrightarrow> concat ps @ r = bs"
proof (induction mx bs arbitrary: ps rule: cut.induct)
  case (1 mx bs)
  from "1.prems" show ?case
    by (subst (asm) cut.simps) (auto split: if_splits prod.splits dest!: "1.IH" [rotated 2])
qed

section \<open>The collecting client\<close>

text \<open>
  The client keeps every packet it is handed; the continuation chunks of an oversize packet
  (no header) extend the last one. It never stops.
\<close>

definition collect_rx :: "bytes list rx" where
  "collect_rx ps b = (ps @ [b], Inr False)"

definition collect_rxo :: "bytes list rxo" where
  "collect_rxo ps h chunk offset =
     ((case h of None \<Rightarrow> extend_last ps chunk | Some _ \<Rightarrow> ps @ [chunk]), False)"

text \<open>How a loop exit corresponds to the missing count and the kept bytes of the split.\<close>

fun exit_left :: "parser \<Rightarrow> loop_exit \<Rightarrow> nat \<times> bytes" where
  "exit_left P (Loop_Done pos k st) = (0, drop pos (buf P))"
| "exit_left P (Loop_Oversize olen ooff k st) = (unat olen, [])"
| "exit_left P (Loop_Resized n pos k) = (0, drop pos (buf P))"
| "exit_left P Loop_Hangs = (0, [])"

fun exit_size :: "parser \<Rightarrow> loop_exit \<Rightarrow> u32" where
  "exit_size P (Loop_Resized n pos k) = n"
| "exit_size P _ = m_size P"

fun exit_count :: "loop_exit \<Rightarrow> nat" where
  "exit_count (Loop_Done pos k st) = k"
| "exit_count (Loop_Oversize olen ooff k st) = k"
| "exit_count (Loop_Resized n pos k) = k"
| "exit_count Loop_Hangs = 0"

text \<open>
  An exit of a loop no client stopped: the count is bounded by the bytes consumed (an oversize
  packet finished at the front may have counted for fewer than 16), and there is room left.
\<close>

fun exit_clean :: "parser \<Rightarrow> loop_exit \<Rightarrow> bool" where
  "exit_clean P (Loop_Done pos k st) = (\<not> st \<and> pos \<le> length (buf P) \<and> k * 16 \<le> pos + 15)"
| "exit_clean P (Loop_Oversize olen ooff k st) = (\<not> st \<and> k * 16 \<le> length (buf P) + 15 \<and> olen \<noteq> 0)"
| "exit_clean P (Loop_Resized n pos k) = (pos \<le> length (buf P) \<and> m_size P \<le> n \<and> n \<le> m_max_size P \<and>
     k * 16 \<le> pos + 15)"
| "exit_clean P Loop_Hangs = False"

definition sizes_ok :: "parser \<Rightarrow> bool" where
  "sizes_ok P \<longleftrightarrow> 16 \<le> m_size P \<and> m_size P \<le> m_max_size P \<and> m_max_size P \<le> 2 ^ 31 \<and>
     length (buf P) \<le> unat (m_size P)"

lemma sizes_okD:
  "sizes_ok P \<Longrightarrow> 16 \<le> unat (m_size P) \<and> unat (m_size P) \<le> unat (m_max_size P) \<and>
     unat (m_max_size P) \<le> 2 ^ 31 \<and> length (buf P) \<le> unat (m_size P)"
  by (simp add: sizes_ok_def word_le_nat_alt)

lemma over_maximum_missing:
  assumes "n < unat len"
  shows "unat ((len :: u32) - of_nat n) = unat len - n"
proof -
  have "unat (of_nat n :: u32) = n"
    using less_trans [OF assms unat_u32_less] by (simp add: unat_of_nat)
  then show ?thesis using assms by (simp add: unat_sub word_le_nat_alt)
qed

lemma grow_within:
  assumes sz: "sizes_ok P" and lt: "m_size P < len" and le: "len \<le> m_max_size P"
  shows "\<exists>n. grow_size (m_size P) len = Some n \<and> len \<le> min n (m_max_size P)"
proof -
  have "0 < m_size P" using sizes_okD [OF sz] by (simp add: word_less_nat_alt)
  moreover have "unat len \<le> 2 ^ 31"
    using le sizes_okD [OF sz] by (simp add: word_le_nat_alt)
  ultimately show ?thesis using grow_size_ends [OF _ lt] le by auto
qed

text \<open>
  The packet loop with the collecting client, from a well framed position: it hands over exactly
  the split of the bytes from there on.
\<close>

lemma parse_loop_collect:
  assumes "well_framed (drop pos (buf P))" and "pos \<le> length (buf P)" and "sizes_ok P"
    and "k * 16 \<le> pos + 15" and "unat (m_size P) \<le> m"
  shows "\<exists>x qs. parse_loop collect_rx collect_rxo P m s pos k False = (s @ qs, Inr x) \<and>
      cut (m_max_size P) (drop pos (buf P)) = (qs, exit_left P x) \<and> exit_clean P x \<and>
      length (snd (exit_left P x)) < unat (exit_size P x)"
  using assms
proof (induction "length (buf P) - pos" arbitrary: pos k s rule: less_induct)
  case less
  let ?mem = "drop pos (buf P)"
  let ?h = "header_at ?mem"
  let ?L = "frame_len ?mem"
  note sz = sizes_okD [OF less.prems(3)]
  note step = parse_loop.simps [of collect_rx collect_rxo P m s pos k False]
  note here = less.prems(2,4)
  show ?case
  proof (cases "16 \<le> length ?mem")
    case False
    then show ?thesis
      using here sz
      by (subst step) (simp add: cut.simps [of "m_max_size P" ?mem] header_length_def)
  next
    case long: True
    have cnt: "k < m" using long here sz less.prems(5) by simp
    have wf: "unat (payload_len ?h) mod 4 = 0" "16 \<le> ?L" "?L \<le> length ?mem \<longrightarrow> well_framed (drop ?L ?mem)"
      using well_framed_step [OF less.prems(1) long] by simp_all
    have guard: "header_length \<le> length ?mem \<and> k < m \<and> \<not> False"
      using long cnt by (simp add: header_length_def)
    have not_short: "\<not> (length ?mem < header_length \<or> ?L = 0)"
      using long wf by (simp add: header_length_def)
    note cut_here = cut.simps [of "m_max_size P" ?mem, unfolded if_not_P [OF not_short]]
    show ?thesis
    proof (cases "next_head P ?mem")
      case Bad_Alignment
      then show ?thesis using wf by (simp add: next_head_def Let_def split: if_splits)
    next
      case Over_Maximum
      then have gt: "m_max_size P < packet_length ?h"
        by (simp add: next_head_def Let_def split: if_splits)
      then have lt: "length ?mem < ?L" "unat (m_max_size P) < ?L"
        using sz by (auto simp: frame_len_def word_less_nat_alt)
      have miss: "unat (packet_length ?h - of_nat (length ?mem)) = ?L - length ?mem"
        using over_maximum_missing [of "length ?mem" "packet_length ?h"] lt by (simp add: frame_len_def)
      then have "packet_length ?h - of_nat (length ?mem) \<noteq> 0" using lt by force
      then show ?thesis
        using guard Over_Maximum miss lt here sz
        by (subst step) (simp add: Let_def collect_rxo_def cut_here)
    next
      case Over_Buffer
      then have len: "m_size P < packet_length ?h" "packet_length ?h \<le> m_max_size P"
        using next_head_Over_Buffer by blast+
      then obtain n where grow: "grow_size (m_size P) (packet_length ?h) = Some n"
          "packet_length ?h \<le> min n (m_max_size P)"
        using grow_within [OF less.prems(3)] by blast
      have lt: "length ?mem < ?L" "?L \<le> unat (m_max_size P)"
        using len sz by (auto simp: frame_len_def word_less_nat_alt word_le_nat_alt)
      have new: "m_size P \<le> min n (m_max_size P)" "length ?mem < unat (min n (m_max_size P))"
        using len grow(2) lt by (auto simp: frame_len_def word_less_nat_alt word_le_nat_alt)
      have min: "(if m_max_size P < n then m_max_size P else n) = min n (m_max_size P)"
        by (auto simp: min_def)
      show ?thesis
        using guard Over_Buffer lt here new
        by (subst step) (simp add: Let_def grow cut_here min)
    next
      case Incomplete
      then have "length ?mem < ?L" "?L \<le> unat (m_size P)" "?L \<le> unat (m_max_size P)"
        using sz by (auto simp: next_head_def Let_def frame_len_def word_le_nat_alt not_less split: if_splits)
      then show ?thesis
        using guard Incomplete here by (subst step) (simp add: Let_def cut_here)
    next
      case (Whole n)
      then have n: "n = ?L" "n \<le> length ?mem" by (auto dest: next_head_Whole simp: frame_len_def)
      have drop: "drop n ?mem = drop (pos + n) (buf P)" by (simp add: add.commute)
      have dec: "length (buf P) - (pos + n) < length (buf P) - pos" using n wf long by simp
      have wf': "well_framed (drop (pos + n) (buf P))" using wf(3) n drop by simp
      have bnd: "pos + n \<le> length (buf P)" using n(2) less.prems(2) by simp
      have cnt': "(k + 1) * 16 \<le> pos + n + 15" using less.prems(4) n wf(2) by simp
      from less.hyps [OF dec wf' bnd less.prems(3) cnt' less.prems(5), of "s @ [take n ?mem]"]
      obtain x qs where
          loop: "parse_loop collect_rx collect_rxo P m (s @ [take n ?mem]) (pos + n) (k + 1) False
                   = ((s @ [take n ?mem]) @ qs, Inr x)"
        and spec: "cut (m_max_size P) (drop (pos + n) (buf P)) = (qs, exit_left P x)"
          "exit_clean P x" "length (snd (exit_left P x)) < unat (exit_size P x)"
        by blast
      have "parse_loop collect_rx collect_rxo P m s pos k False = (s @ take n ?mem # qs, Inr x)"
        using guard Whole loop by (subst step) (simp add: Let_def collect_rx_def)
      moreover have "cut (m_max_size P) ?mem = (take n ?mem # qs, exit_left P x)"
        using n spec(1) drop by (simp add: cut_here split: prod.splits)
      ultimately show ?thesis using spec(2,3) by blast
    qed
  qed
qed

section \<open>Feeding the parser\<close>

text \<open>
  The state of a parser that has been fed the stream \<open>T\<close> and has given its client \<open>ps\<close>.
\<close>

definition parsed :: "u32 \<Rightarrow> bytes \<Rightarrow> bytes list \<Rightarrow> parser \<Rightarrow> bool" where
  "parsed mx T ps P \<longleftrightarrow>
     m_max_size P = mx \<and> sizes_ok P \<and> restart_offset P = 0 \<and>
     length (buf P) < unat (m_size P) \<and> cut mx T = (ps, unat (oversize_len P), buf P)"

lemma well_framed_continue:
  assumes "well_framed (a @ b)" and "cut mx a = (ps, need, r)"
  shows "(need = 0 \<longrightarrow> well_framed (r @ b)) \<and> (need \<noteq> 0 \<longrightarrow> need \<le> length b \<longrightarrow> well_framed (drop need b))"
  using assms
proof (induction mx a arbitrary: ps rule: cut.induct)
  case (1 mx a)
  show ?case
  proof (cases "length a < header_length \<or> frame_len a = 0")
    case True
    then show ?thesis using "1.prems" by (simp add: cut.simps [of mx a])
  next
    case long: False
    then have len: "16 \<le> length a" by (simp add: header_length_def)
    note step = well_framed_step [OF "1.prems"(1)]
    show ?thesis
    proof (cases "frame_len a \<le> length a")
      case True
      with "1.prems"(2) long obtain qs where "cut mx (drop (frame_len a) a) = (qs, need, r)"
        by (auto simp: cut.simps [of mx a] split: prod.splits)
      moreover have "well_framed (drop (frame_len a) a @ b)"
        using step len True by (simp add: frame_len_append)
      ultimately show ?thesis using "1.IH" [OF long True] by blast
    next
      case False
      then show ?thesis
        using "1.prems" long step len
        by (auto simp: cut.simps [of mx a] frame_len_append split: if_splits)
    qed
  qed
qed

lemma as_int_small: "n < 2 ^ 31 \<Longrightarrow> as_int n = int n"
  by (simp add: as_int_def signed_take_bit_int_eq_self sint_uint unsigned_of_nat take_bit_nat_eq_self
      flip: of_nat_take_bit)

lemma exit_count_small: "sizes_ok P \<Longrightarrow> exit_clean P x \<Longrightarrow> exit_count x < 2 ^ 31"
  by (cases x) (auto dest!: sizes_okD)

lemma finish_parse_clean:
  assumes "exit_clean P x" and "sizes_ok P" and "oversize_len P = 0" and "unat (m_size P) \<le> m"
    and room: "length (snd (exit_left P x)) < unat (exit_size P x)"
  shows "\<exists>P'. finish_parse P m (s, Inr x) = (s, P', Returned (int (exit_count x))) \<and>
      buf P' = snd (exit_left P x) \<and> unat (oversize_len P') = fst (exit_left P x) \<and>
      m_size P' = exit_size P x \<and> m_max_size P' = m_max_size P \<and> restart_offset P' = 0 \<and> sizes_ok P'"
proof -
  have cnt: "as_int (exit_count x) = int (exit_count x)"
    using exit_count_small [OF assms(2,1)] by (rule as_int_small)
  show ?thesis
    using assms cnt sizes_okD [OF assms(2)]
    by (cases x) (auto simp: finish_parse_def Let_def sizes_ok_def word_le_nat_alt)
qed

lemma bufferParse_plain:
  "buf P \<noteq> [] \<Longrightarrow> restart_offset P = 0 \<Longrightarrow> oversize_len P = 0 \<Longrightarrow>
   lim = (if m = 0 then unat (m_size P) else m) \<Longrightarrow>
   bufferParse rx rxo m s P = finish_parse P lim (parse_loop rx rxo P lim s 0 0 False)"
  by (simp add: bufferParse_def Let_def)

lemma bufferParse_over:
  "buf P \<noteq> [] \<Longrightarrow> restart_offset P = 0 \<Longrightarrow> oversize_len P \<noteq> 0 \<Longrightarrow>
   unat (oversize_len P) \<le> length (buf P) \<Longrightarrow>
   lim = (if m = 0 then unat (m_size P) else m) \<Longrightarrow> n = unat (oversize_len P) \<Longrightarrow>
   rxo s None (take n (buf P)) (oversize_offset P) = (s', st) \<Longrightarrow>
   Q = P\<lparr>oversize_offset := oversize_offset P + of_nat n, oversize_len := 0\<rparr> \<Longrightarrow>
   bufferParse rx rxo m s P = finish_parse Q lim (parse_loop rx rxo Q lim s' n 1 st)"
  by (simp add: bufferParse_def Let_def)

lemma bufferParse_parsed:
  assumes inv: "parsed mx T ps P" and app: "bufferBytesAppended c P = Some P1"
    and wf: "well_framed (T @ c)" and lim: "m = 0 \<or> unat (m_size P) \<le> m"
  shows "\<exists>ps' P' n. bufferParse collect_rx collect_rxo m ps P1 = (ps', P', Returned (int n)) \<and>
      parsed mx (T @ c) ps' P'"
proof -
  define lim where "lim = (if m = 0 then unat (m_size P) else m)"
  have P1: "P1 = P\<lparr>buf := buf P @ c\<rparr>" and fits: "length (buf P) + length c \<le> unat (m_size P)"
    using app inv by (auto simp: bufferBytesAppended_def bufferFillLength_def parsed_def split: if_splits)
  have sz: "sizes_ok P" and mx: "m_max_size P = mx" and st: "restart_offset P = 0"
    and room: "length (buf P) < unat (m_size P)"
    and cutT: "cut mx T = (ps, unat (oversize_len P), buf P)"
    using inv by (simp_all add: parsed_def)
  have m: "unat (m_size P) \<le> lim" using lim by (auto simp: lim_def)
  have lim1: "lim = (if m = 0 then unat (m_size P1) else m)" by (simp add: lim_def P1)
  note cont = well_framed_continue [OF wf cutT]
  note more = cut_append [of mx T c, unfolded cutT cut_more_def prod.case]
  show ?thesis
  proof (cases "buf P @ c = []")
    case True
    then have "P1 = P" "c = []" using P1 by (cases P, simp)+
    then show ?thesis using inv st True
      by (intro exI [of _ ps] exI [of _ P1] exI [of _ 0]) (auto simp: bufferParse_def Let_def)
  next
    case some: False
    have sz1: "sizes_ok (P1\<lparr>oversize_offset := a, oversize_len := b\<rparr>)" "sizes_ok P1" for a b
      using sz fits P1 by (simp_all add: sizes_ok_def)
    show ?thesis
    proof (cases "oversize_len P = 0")
      case zero: True
      then have wf1: "well_framed (drop 0 (buf P1))" using cont P1 by simp
      obtain x qs where
          loop: "parse_loop collect_rx collect_rxo P1 lim ps 0 0 False = (ps @ qs, Inr x)"
        and spec: "cut mx (buf P @ c) = (qs, exit_left P1 x)" "exit_clean P1 x"
          "length (snd (exit_left P1 x)) < unat (exit_size P1 x)"
        using parse_loop_collect [OF wf1 _ sz1(2), of 0 lim ps] m P1 mx by auto
      obtain P' where "finish_parse P1 lim (ps @ qs, Inr x) = (ps @ qs, P', Returned (int (exit_count x)))"
        and P': "buf P' = snd (exit_left P1 x)" "unat (oversize_len P') = fst (exit_left P1 x)"
          "m_size P' = exit_size P1 x" "m_max_size P' = m_max_size P1" "restart_offset P' = 0" "sizes_ok P'"
        using finish_parse_clean [OF spec(2) sz1(2), of lim "ps @ qs"] spec(3) zero P1 m by auto
      then have "bufferParse collect_rx collect_rxo m ps P1 = (ps @ qs, P', Returned (int (exit_count x)))"
        using some loop zero P1 st bufferParse_plain [OF _ _ _ lim1, of collect_rx collect_rxo ps]
        by simp
      moreover have "parsed mx (T @ c) (ps @ qs) P'"
        using P' spec zero more mx P1 by (simp add: parsed_def split: prod.splits)
      ultimately show ?thesis by blast
    next
      case over: False
      then have need: "unat (oversize_len P) \<noteq> 0" by (simp add: unat_eq_0)
      have empty: "buf P = []" using cut_missing [OF cutT need] by simp
      show ?thesis
      proof (cases "length c < unat (oversize_len P)")
        case True
        let ?Q = "P1\<lparr>oversize_offset := oversize_offset P + of_nat (length c),
                     oversize_len := oversize_len P - of_nat (length c)\<rparr>"
        have miss: "unat (oversize_len ?Q) = unat (oversize_len P) - length c"
          using over_maximum_missing [OF True] by simp
        then have "oversize_len ?Q \<noteq> 0" using True by force
        then have "bufferParse collect_rx collect_rxo m ps P1 =
            (extend_last ps c, ?Q\<lparr>buf := [], restart_offset := 0\<rparr>, Returned (int 0))"
          using some True over empty P1 st
          by (simp add: bufferParse_def Let_def collect_rxo_def parse_loop.simps finish_parse_def
              header_length_def as_int_def)
        moreover have "parsed mx (T @ c) (extend_last ps c) (?Q\<lparr>buf := [], restart_offset := 0\<rparr>)"
          using miss more True need sz mx P1 room by (simp add: parsed_def sizes_ok_def)
        ultimately show ?thesis by blast
      next
        case False
        let ?n = "unat (oversize_len P)"
        let ?Q = "P1\<lparr>oversize_offset := oversize_offset P + of_nat ?n, oversize_len := 0\<rparr>"
        have wfQ: "well_framed (drop ?n (buf ?Q))" using cont need False P1 empty by simp
        have sQ: "sizes_ok ?Q" using sz1 by simp
        obtain x qs where
            loop: "parse_loop collect_rx collect_rxo ?Q lim (extend_last ps (take ?n c)) ?n 1 False =
                     (extend_last ps (take ?n c) @ qs, Inr x)"
          and spec: "cut mx (drop ?n c) = (qs, exit_left ?Q x)" "exit_clean ?Q x"
            "length (snd (exit_left ?Q x)) < unat (exit_size ?Q x)"
          using parse_loop_collect [OF wfQ _ sQ, of 1 lim "extend_last ps (take ?n c)"] m P1 mx empty False need
          by auto
        obtain P' where
            fin: "finish_parse ?Q lim (extend_last ps (take ?n c) @ qs, Inr x) =
               (extend_last ps (take ?n c) @ qs, P', Returned (int (exit_count x)))"
          and P': "buf P' = snd (exit_left ?Q x)" "unat (oversize_len P') = fst (exit_left ?Q x)"
            "m_size P' = exit_size ?Q x" "m_max_size P' = m_max_size ?Q" "restart_offset P' = 0" "sizes_ok P'"
          using finish_parse_clean [OF spec(2) sQ, of lim "extend_last ps (take ?n c) @ qs"] spec(3) P1 m by auto
        have "bufferParse collect_rx collect_rxo m ps P1 = finish_parse ?Q lim
            (parse_loop collect_rx collect_rxo ?Q lim (extend_last ps (take ?n c)) ?n 1 False)"
          by (rule bufferParse_over [OF _ _ _ _ lim1])
            (use some over P1 st empty False in \<open>simp_all add: collect_rxo_def\<close>)
        then have "bufferParse collect_rx collect_rxo m ps P1 =
            (extend_last ps (take ?n c) @ qs, P', Returned (int (exit_count x)))"
          by (simp only: loop fin)
        moreover have "parsed mx (T @ c) (extend_last ps (take ?n c) @ qs) P'"
          using P' spec need False more mx P1 by (simp add: parsed_def split: prod.splits)
        ultimately show ?thesis by blast
      qed
    qed
  qed
qed

text \<open>A new parser, and the room it always has.\<close>

lemma parsed_new:
  "16 \<le> a \<Longrightarrow> a \<le> mx \<Longrightarrow> mx \<le> 2 ^ 31 \<Longrightarrow> parsed mx [] [] (new_parser a mx)"
  by (simp add: parsed_def new_parser_def sizes_ok_def cut.simps header_length_def word_le_nat_alt)

lemma parsed_room: "parsed mx T ps P \<Longrightarrow> 0 < bufferFillLength P"
  by (simp add: parsed_def bufferFillLength_def)

lemma well_framed_prefix: "well_framed (a @ b) \<Longrightarrow> well_framed a"
proof (induction a rule: well_framed.induct)
  case (1 a)
  show ?case
  proof (cases "length a < 16")
    case True
    then show ?thesis by (simp add: well_framed.simps [of a] header_length_def)
  next
    case False
    then show ?thesis
      using well_framed_step [OF "1.prems"] "1.IH"
      by (subst well_framed.simps) (auto simp: frame_len_append header_at_append header_length_def)
  qed
qed

text \<open>A whole session: append a chunk, parse, and so on.\<close>

primrec session :: "nat \<Rightarrow> bytes list \<Rightarrow> bytes list \<times> parser \<Rightarrow> (bytes list \<times> parser) option" where
  "session m [] sP = Some sP"
| "session m (c # cs) sP =
     (case bufferBytesAppended c (snd sP) of
        None \<Rightarrow> None
      | Some P1 \<Rightarrow>
          (case bufferParse collect_rx collect_rxo m (fst sP) P1 of
             (s', P', Returned n) \<Rightarrow> session m cs (s', P')
           | _ \<Rightarrow> None))"

lemma session_parsed:
  assumes "session 0 cs (ps, P) = Some (ps', P')" and "parsed mx T ps P"
    and "well_framed (T @ concat cs)"
  shows "parsed mx (T @ concat cs) ps' P'"
  using assms
proof (induction cs arbitrary: T ps P)
  case Nil
  then show ?case by simp
next
  case (Cons c cs)
  from Cons.prems(1) obtain P1 where app: "bufferBytesAppended c P = Some P1"
    by (auto split: option.splits)
  have "well_framed (T @ c)"
    using Cons.prems(3) well_framed_prefix [of "T @ c" "concat cs"] by simp
  from bufferParse_parsed [OF Cons.prems(2) app this, of 0]
  obtain s2 P2 n where parse: "bufferParse collect_rx collect_rxo 0 ps P1 = (s2, P2, Returned (int n))"
    and par: "parsed mx (T @ c) s2 P2" by auto
  have "parsed mx ((T @ c) @ concat cs) ps' P'"
    using Cons.IH [OF _ par] Cons.prems(1,3) app parse by simp
  then show ?case by simp
qed

section \<open>Reading from a descriptor\<close>

text \<open>
  \<open>read(2)\<close> is a parameter \<open>rd\<close> on a descriptor state: the bytes it returns, or an \<open>errno\<close>.
  \<open>fd_reads\<close> is its documented behaviour: at most the bytes asked for, taken off the front of
  what the peer sent, and nothing lost on an error.
\<close>

datatype errno = EINTR | EAGAIN | EPIPE | ECONNRESET | ETIMEDOUT | EHOSTUNREACH | ENETUNREACH | Other_Errno

datatype read_outcome = Got bytes | Failed errno

type_synonym 'f fd_read = "'f \<Rightarrow> nat \<Rightarrow> 'f \<times> read_outcome"

definition fd_reads :: "'f fd_read \<Rightarrow> ('f \<Rightarrow> bytes) \<Rightarrow> bool" where
  "fd_reads rd content \<longleftrightarrow>
     (\<forall>f n. case rd f n of
        (f', Got bs) \<Rightarrow> length bs \<le> n \<and> content f = bs @ content f'
      | (f', Failed e) \<Rightarrow> content f' = content f)"

record read_stats =
  last_total_bytes :: u64
  last_total_packets :: u32
  last_read_count :: u32
  last_loop_count :: u32

datatype read_result =
    Read_Returned bool
  | Read_Runtime_Error errno
  | Read_Logic_Error
  | Read_Parse_Error pkt_error
  | Read_Hangs

definition errno_result :: "errno \<Rightarrow> read_result" where
  "errno_result e =
     (if e \<in> {EINTR, EAGAIN} then Read_Returned True
      else if e \<in> {EPIPE, ECONNRESET, ETIMEDOUT, EHOSTUNREACH, ENETUNREACH} then Read_Returned False
      else Read_Runtime_Error e)"

text \<open>The parse at the end of an iteration; \<open>Inr\<close> when the loop goes on.\<close>

definition read_parse ::
    "'s rx \<Rightarrow> 's rxo \<Rightarrow> 's \<Rightarrow> parser \<Rightarrow> read_stats \<Rightarrow> 's \<times> parser \<times> (read_result + read_stats)" where
  "read_parse rx rxo s P st =
     (case bufferParse rx rxo (2 ^ 32 - 1) s P of (s', P', r) \<Rightarrow>
        (s', P',
         (case r of
            Threw e \<Rightarrow> Inl (Read_Parse_Error e)
          | Hangs \<Rightarrow> Inl Read_Hangs
          | Returned n \<Rightarrow>
              (if n < 0 then Inl (Read_Returned False)
               else Inr (st\<lparr>last_total_packets := last_total_packets st + of_int n\<rparr>)))))"

partial_function (option) read_loop ::
    "'f fd_read \<Rightarrow> 's rx \<Rightarrow> 's rxo \<Rightarrow> u64 \<Rightarrow> 'f \<Rightarrow> 's \<Rightarrow> parser \<Rightarrow> u64 \<Rightarrow> read_stats \<Rightarrow>
     ('f \<times> 's \<times> parser \<times> read_stats \<times> read_result) option" where
  "read_loop rd rx rxo to_parse f s P to_read st0 =
     (if to_read \<noteq> 0 \<and> ucast (last_total_packets st0) < to_parse \<and> last_read_count st0 < 10 then
        (let st = st0\<lparr>last_loop_count := last_loop_count st0 + 1\<rparr>;
             len = min (bufferFillLength P) (unat to_read) in
         if len \<noteq> 0 then
           (let st1 = st\<lparr>last_read_count := last_read_count st + 1\<rparr> in
            case rd f len of
              (f', Failed e) \<Rightarrow> Some (f', s, P, st1, errno_result e)
            | (f', Got bs) \<Rightarrow>
                (if bs = [] then Some (f', s, P, st1, Read_Returned False)
                 else
                   (case bufferBytesAppended bs P of
                      None \<Rightarrow> Some (f', s, P, st1, Read_Logic_Error)
                    | Some P1 \<Rightarrow>
                        (case read_parse rx rxo s P1
                                (st1\<lparr>last_total_bytes := last_total_bytes st1 + of_nat (length bs)\<rparr>) of
                           (s', P', Inl r) \<Rightarrow>
                             Some (f', s', P',
                               st1\<lparr>last_total_bytes := last_total_bytes st1 + of_nat (length bs)\<rparr>, r)
                         | (s', P', Inr st2) \<Rightarrow>
                             read_loop rd rx rxo to_parse f' s' P' (to_read - of_nat (length bs)) st2))))
         else
           (case read_parse rx rxo s P st of
              (s', P', Inl r) \<Rightarrow> Some (f, s', P', st, r)
            | (s', P', Inr st2) \<Rightarrow> read_loop rd rx rxo to_parse f s' P' to_read st2))
      else Some (f, s, P, st0, Read_Returned True))"

definition posix_read ::
    "'f fd_read \<Rightarrow> 's rx \<Rightarrow> 's rxo \<Rightarrow> u32 \<Rightarrow> u32 \<Rightarrow> 'f \<Rightarrow> 's \<Rightarrow> parser \<Rightarrow>
     ('f \<times> 's \<times> parser \<times> read_stats \<times> read_result) option" where
  "posix_read rd rx rxo max_packets max_read f s P =
     read_loop rd rx rxo (if max_packets \<noteq> 0 then ucast max_packets else 2 ^ 32 - 1) f s P
       (if max_read \<noteq> 0 then ucast max_read else 2 ^ 64 - 1)
       \<lparr>last_total_bytes = 0, last_total_packets = 0, last_read_count = 0, last_loop_count = 0\<rparr>"

lemma read_parse_parsed:
  assumes "parsed mx T ps P" and "bufferBytesAppended c P = Some P1" and "well_framed (T @ c)"
  shows "\<exists>ps' P' n. read_parse collect_rx collect_rxo ps P1 st =
      (ps', P', Inr (st\<lparr>last_total_packets := n\<rparr>)) \<and> parsed mx (T @ c) ps' P'"
proof -
  have "n \<le> 2 ^ 32 - 1" if "n < 4294967296" for n :: nat using that by simp
  from this [OF unat_u32_less] have "unat (m_size P) \<le> 2 ^ 32 - 1" .
  then obtain ps' P' n where
      "bufferParse collect_rx collect_rxo (2 ^ 32 - 1) ps P1 = (ps', P', Returned (int n))"
    and "parsed mx (T @ c) ps' P'"
    using bufferParse_parsed [OF assms] by blast
  then show ?thesis
    by (intro exI [of _ ps'] exI [of _ P'] exI [of _ "last_total_packets st + of_nat n"])
      (simp add: read_parse_def)
qed

definition read_ends_well :: "read_result \<Rightarrow> bool" where
  "read_ends_well r = (case r of Read_Returned b \<Rightarrow> True | Read_Runtime_Error e \<Rightarrow> True | _ \<Rightarrow> False)"

lemma errno_result_ends_well [simp]: "read_ends_well (errno_result e)"
  by (simp add: read_ends_well_def errno_result_def)

lemma read_loop_parsed:
  assumes fd: "fd_reads rd content" and "parsed mx T ps P" and "well_framed (T @ content f)"
    and "last_read_count st \<le> 10"
  shows "\<exists>f' ps' P' st' r D. read_loop rd collect_rx collect_rxo tp f ps P tr st = Some (f', ps', P', st', r) \<and>
      parsed mx (T @ D) ps' P' \<and> content f = D @ content f' \<and> read_ends_well r \<and>
      last_read_count st' \<le> 10"
  using assms(2-4)
proof (induction "10 - unat (last_read_count st)" arbitrary: T ps P f tr st rule: less_induct)
  case less
  note step = read_loop.simps [of rd collect_rx collect_rxo tp f ps P tr st]
  show ?case
  proof (cases "tr \<noteq> 0 \<and> ucast (last_total_packets st) < tp \<and> last_read_count st < 10")
    case False
    have "read_loop rd collect_rx collect_rxo tp f ps P tr st = Some (f, ps, P, st, Read_Returned True)"
      using step unfolding if_not_P [OF False] .
    then show ?thesis
      using less.prems by (intro exI) (auto simp: read_ends_well_def)
  next
    case go: True
    let ?len = "min (bufferFillLength P) (unat tr)"
    have "unat tr \<noteq> 0" using go by (simp add: unat_eq_zero)
    then have len: "?len \<noteq> 0" using parsed_room [OF less.prems(1)] by (simp add: min_def)
    let ?st1 = "st\<lparr>last_loop_count := last_loop_count st + 1, last_read_count := last_read_count st + 1\<rparr>"
    have cnt: "unat (last_read_count st + 1) = unat (last_read_count st) + 1"
      using go by (simp add: unat_word_ariths word_less_nat_alt)
    have le: "last_read_count ?st1 \<le> 10"
      using go cnt by (simp add: word_le_nat_alt word_less_nat_alt)
    obtain f1 out where rd: "rd f ?len = (f1, out)" by fastforce
    have fd1: "case (f1, out) of (f', Got bs) \<Rightarrow> length bs \<le> ?len \<and> content f = bs @ content f'
                 | (f', Failed e) \<Rightarrow> content f' = content f"
      unfolding rd [symmetric] by (rule spec [OF spec [OF fd [unfolded fd_reads_def]]])
    show ?thesis
    proof (cases out)
      case (Failed e)
      then have "read_loop rd collect_rx collect_rxo tp f ps P tr st = Some (f1, ps, P, ?st1, errno_result e)"
        using go len rd by (subst step) (simp add: Let_def)
      then show ?thesis using less.prems fd1 Failed le
        by (intro exI [of _ f1] exI [of _ ps] exI [of _ P] exI [of _ ?st1] exI [of _ "errno_result e"]
            exI [of _ "[]"]) simp
    next
      case (Got bs)
      then have bs: "length bs \<le> ?len" "content f = bs @ content f1" using fd1 by simp_all
      show ?thesis
      proof (cases "bs = []")
        case True
        then have "read_loop rd collect_rx collect_rxo tp f ps P tr st = Some (f1, ps, P, ?st1, Read_Returned False)"
          using go len rd Got by (subst step) (simp add: Let_def)
        then show ?thesis using less.prems bs True le
          by (intro exI [of _ f1] exI [of _ ps] exI [of _ P] exI [of _ ?st1] exI [of _ "Read_Returned False"]
              exI [of _ "[]"]) (simp add: read_ends_well_def)
      next
        case some: False
        then obtain P1 where app: "bufferBytesAppended bs P = Some P1"
          using bs by (simp add: bufferBytesAppended_def)
        have wf: "well_framed (T @ bs)"
          using less.prems(2) bs well_framed_prefix [of "T @ bs" "content f1"] by simp
        let ?st2 = "?st1\<lparr>last_total_bytes := last_total_bytes ?st1 + of_nat (length bs)\<rparr>"
        obtain ps2 P2 n where parse: "read_parse collect_rx collect_rxo ps P1 ?st2 =
              (ps2, P2, Inr (?st2\<lparr>last_total_packets := n\<rparr>))"
          and par: "parsed mx (T @ bs) ps2 P2"
          using read_parse_parsed [OF less.prems(1) app wf] by blast
        let ?st3 = "?st2\<lparr>last_total_packets := n\<rparr>"
        have rec: "read_loop rd collect_rx collect_rxo tp f ps P tr st =
            read_loop rd collect_rx collect_rxo tp f1 ps2 P2 (tr - of_nat (length bs)) ?st3"
          using go len rd Got some app parse by (subst step) (simp add: Let_def)
        have dec: "10 - unat (last_read_count ?st3) < 10 - unat (last_read_count st)"
          by (rule diff_less_mono2) (use cnt go in \<open>simp_all add: word_less_nat_alt\<close>)
        have "well_framed ((T @ bs) @ content f1)" using less.prems(2) bs by simp
        from less.hyps [OF dec par this, of "tr - of_nat (length bs)"] le
        obtain f' ps' P' st' r D where
            run: "read_loop rd collect_rx collect_rxo tp f1 ps2 P2 (tr - of_nat (length bs)) ?st3 =
              Some (f', ps', P', st', r)"
          and "parsed mx ((T @ bs) @ D) ps' P'" "content f1 = D @ content f'" "read_ends_well r"
            "last_read_count st' \<le> 10"
          by auto
        then show ?thesis using rec run bs
          by (intro exI [of _ f'] exI [of _ ps'] exI [of _ P'] exI [of _ st'] exI [of _ r]
              exI [of _ "bs @ D"]) simp
      qed
    qed
  qed
qed

section \<open>Any client\<close>

text \<open>
  A client that may stop or set a limit, with a log of the bytes it was handed. Nothing is lost,
  repeated or reordered by a call that returns.
\<close>

definition logged_rx :: "'s rx \<Rightarrow> ('s \<times> bytes list) rx" where
  "logged_rx rx sl b = (case rx (fst sl) b of (s', r) \<Rightarrow> ((s', snd sl @ [b]), r))"

definition logged_rxo :: "'s rxo \<Rightarrow> ('s \<times> bytes list) rxo" where
  "logged_rxo rxo sl h b offset =
     (case rxo (fst sl) h b offset of (s', r) \<Rightarrow> ((s', snd sl @ [b]), r))"

definition unparsed :: "parser \<Rightarrow> bytes" where
  "unparsed P = drop (restart_offset P) (buf P)"

text \<open>What is left in the buffer by each exit.\<close>

fun exit_rest :: "parser \<Rightarrow> loop_exit \<Rightarrow> bytes" where
  "exit_rest P (Loop_Done pos k st) = drop pos (buf P)"
| "exit_rest P (Loop_Oversize olen ooff k st) = []"
| "exit_rest P (Loop_Resized n pos k) = drop pos (buf P)"
| "exit_rest P Loop_Hangs = []"

lemma parse_loop_accounts:
  assumes "parse_loop (logged_rx rx) (logged_rxo rxo) P m s pos k st = (s', Inr x)"
    and "x \<noteq> Loop_Hangs"
  shows "\<exists>D. snd s' = snd s @ D \<and> concat D @ exit_rest P x = drop pos (buf P)"
  using assms
proof (induction "logged_rx rx" "logged_rxo rxo" P m s pos k st rule: parse_loop.induct)
  case (1 P m s pos k st)
  let ?mem = "drop pos (buf P)"
  note eq = "1.prems"(1) [unfolded parse_loop.simps [of "logged_rx rx" "logged_rxo rxo" P m s pos k st] Let_def]
  show ?case
  proof (cases "header_length \<le> length ?mem \<and> k < m \<and> \<not> st")
    case False
    then show ?thesis using eq unfolding if_not_P [OF False] by auto
  next
    case guard: True
    note eq = eq [unfolded if_P [OF guard]]
    show ?thesis
    proof (cases "next_head P ?mem")
      case Over_Maximum
      then show ?thesis
        using eq by (auto simp: logged_rxo_def split: prod.splits)
    next
      case Over_Buffer
      then show ?thesis using eq "1.prems"(2) by (auto split: option.splits)
    next
      case (Whole n)
      obtain s2 st2 where rx: "logged_rx rx s (take n ?mem) = (s2, Inr st2)"
        and rec: "parse_loop (logged_rx rx) (logged_rxo rxo) P m s2 (pos + n) (k + 1) st2 = (s', Inr x)"
        using eq Whole by (simp split: prod.splits sum.splits)
      obtain D where D: "snd s' = snd s2 @ D" "concat D @ exit_rest P x = drop (pos + n) (buf P)"
        using "1.hyps" [OF refl refl guard Whole rx [symmetric] refl rec "1.prems"(2)] by blast
      have "snd s2 = snd s @ [take n ?mem]"
        using rx by (auto simp: logged_rx_def split: prod.splits)
      moreover have "take n ?mem @ drop (pos + n) (buf P) = ?mem"
        using append_take_drop_id [of n ?mem] by (simp add: add.commute)
      ultimately show ?thesis
        using D by (intro exI [of _ "take n ?mem # D"]) simp
    qed (use eq in auto)
  qed
qed

lemma finish_parse_rest:
  assumes "finish_parse P m (s, Inr x) = (s', P', res)"
  shows "s' = s \<and> (x \<noteq> Loop_Hangs \<longrightarrow> unparsed P' = exit_rest P x)"
  using assms
  by (cases x) (auto simp: finish_parse_def unparsed_def Let_def split: if_splits)

lemma parse_finish_accounts:
  assumes "finish_parse P lim
      (parse_loop (logged_rx rx) (logged_rxo rxo) P lim s pos k st) = (s', P', Returned n)"
  shows "\<exists>D. snd s' = snd s @ D \<and> concat D @ unparsed P' = drop pos (buf P)"
proof -
  obtain s2 r where loop: "parse_loop (logged_rx rx) (logged_rxo rxo) P lim s pos k st = (s2, r)"
    by fastforce
  have "isl r \<Longrightarrow> False" "r \<noteq> Inr Loop_Hangs"
    using assms loop by (auto simp: finish_parse_def Let_def isl_def)
  then obtain x where r: "r = Inr x" "x \<noteq> Loop_Hangs" by (cases r) auto
  then show ?thesis
    using finish_parse_rest [of P lim s2 x] parse_loop_accounts [OF loop [unfolded r(1)] r(2)]
      assms loop by auto
qed

lemma bufferParse_accounts:
  assumes "bufferParse (logged_rx rx) (logged_rxo rxo) m (s, log) P = ((s', log'), P', Returned n)"
  shows "\<exists>D. log' = log @ D \<and> concat D @ unparsed P' = unparsed P"
proof -
  let ?valid = "length (buf P) - restart_offset P"
  let ?chunk = "min (unat (oversize_len P)) ?valid"
  consider "?valid = 0" | "?valid \<noteq> 0" "oversize_len P \<noteq> 0" | "?valid \<noteq> 0" "oversize_len P = 0"
    by blast
  then show ?thesis
  proof cases
    case 1
    then show ?thesis using assms by (simp add: bufferParse_def Let_def)
  next
    case 2
    let ?c = "take ?chunk (unparsed P)"
    obtain s2 st where ov: "rxo s None ?c (oversize_offset P) = (s2, st)" by fastforce
    obtain Q lim k where
        fin: "finish_parse Q lim
          (parse_loop (logged_rx rx) (logged_rxo rxo) Q lim (s2, log @ [?c]) (restart_offset P + ?chunk) k st)
          = ((s', log'), P', Returned n)" and Q: "buf Q = buf P"
      using assms 2 ov by (auto simp: bufferParse_def Let_def logged_rxo_def unparsed_def split: if_splits)
    obtain D where D: "log' = (log @ [?c]) @ D" "concat D @ unparsed P' = drop (restart_offset P + ?chunk) (buf P)"
      using parse_finish_accounts [OF fin] Q by auto
    have "?c @ drop (restart_offset P + ?chunk) (buf P) = unparsed P"
      using append_take_drop_id [of ?chunk "unparsed P"] by (simp add: unparsed_def add.commute)
    then show ?thesis using D by (intro exI [of _ "?c # D"]) simp
  next
    case 3
    then show ?thesis
      using assms parse_finish_accounts [of P _ rx rxo "(s, log)" "restart_offset P" 0 False "(s', log')" P' n]
      by (simp add: bufferParse_def Let_def unparsed_def)
  qed
qed

section \<open>Properties\<close>

text \<open>
  C1. Packet framing does not depend on how the stream was chunked: a parser that is fed a well
  framed stream in any pieces that fit its buffer hands its client exactly the packets of the
  whole stream in order (an oversize packet as the bytes received of it), keeps exactly the bytes
  of the incomplete last packet, and always has room for more.
\<close>
theorem session_delivers_split:
  assumes "16 \<le> a" and "a \<le> mx" and "mx \<le> 2 ^ 31"
    and "well_framed (concat chunks)"
    and "session 0 chunks ([], new_parser a mx) = Some (ps, P)"
  shows "cut mx (concat chunks) = (ps, unat (oversize_len P), buf P) \<and> restart_offset P = 0 \<and>
    0 < bufferFillLength P"
  using session_parsed [OF assms(5) parsed_new [OF assms(1-3)]] assms(4) parsed_room
  by (auto simp: parsed_def)


text \<open>
  C32. A call of \<open>bufferParse\<close> that returns accounts for every byte, whatever the callbacks do:
  with any client (one that stops, one called with a packet limit, an oversize packet, a resize)
  the bytes handed over, followed by the bytes still unparsed, are the bytes that were unparsed.
\<close>
theorem bufferParse_loses_nothing:
  assumes "bufferParse (logged_rx rx) (logged_rxo rxo) m (s, []) P = ((s', log), P', Returned n)"
  shows "concat log @ unparsed P' = unparsed P"
  using bufferParse_accounts [OF assms] by auto

text \<open>
  The buffer invariant: after any call, also one that throws, the valid bytes fit the
  buffer, the restart offset lies in them and the buffer is within its maximum size.
\<close>
theorem bufferParse_keeps_buffer:
  assumes "parser_inv P" and "bufferParse rx rxo m s P = (s', P', res)"
  shows "length (buf P') \<le> unat (m_size P') \<and> restart_offset P' \<le> length (buf P') \<and>
    m_size P' \<le> m_max_size P'"
  using bufferParse_inv [OF assms] by (simp add: parser_inv_def)

text \<open>
  C35. The packet length is a 32-bit sum. A header with payload length \<open>0xfffffff0\<close> has packet length
  zero: the loop hands over an empty packet up to the limit and the parser is where it was.
\<close>
theorem zero_length_packet_no_progress:
  assumes "16 \<le> length (buf P)" and "u32_at (buf P) 0 = 0xfffffff0"
    and "restart_offset P = 0" and "oversize_len P = 0"
  shows "\<exists>r. bufferParse collect_rx collect_rxo (Suc n) [] P = (replicate (Suc n) [], P, r)"
proof -
  have h: "packet_length (header_at (buf P)) = 0" "unat (payload_len (header_at (buf P))) mod 4 = 0"
    using assms(2) by (simp_all add: packet_length_def header_at_def)
  have head: "next_head P (buf P) = Whole 0"
    using h by (simp add: next_head_def Let_def)
  have loop: "k \<le> Suc n \<Longrightarrow> parse_loop collect_rx collect_rxo P (Suc n) s 0 k False =
      (s @ replicate (Suc n - k) [], Inr (Loop_Done 0 (Suc n) False))" for s k
  proof (induction "Suc n - k" arbitrary: s k)
    case 0
    then show ?case by (subst parse_loop.simps) (simp add: Let_def)
  next
    case (Suc d)
    then have lt: "k < Suc n" and d: "d = Suc n - Suc k" "Suc k \<le> Suc n" by simp_all
    have "parse_loop collect_rx collect_rxo P (Suc n) s 0 k False =
        parse_loop collect_rx collect_rxo P (Suc n) (s @ [[]]) 0 (Suc k) False"
      using lt assms(1) head
      by (subst parse_loop.simps) (simp add: Let_def header_length_def collect_rx_def)
    then show ?case using Suc.hyps(1) [OF d, of "s @ [[]]"] lt
      by (simp add: Suc_diff_Suc replicate_app_Cons_same flip: replicate_Suc)
  qed
  have "buf P \<noteq> []" using assms(1) by auto
  then have "bufferParse collect_rx collect_rxo (Suc n) [] P =
      finish_parse P (Suc n) ([] @ replicate (Suc n) [], Inr (Loop_Done 0 (Suc n) False))"
    using assms(3,4) loop [of 0 "[]"] by (simp add: bufferParse_plain)
  moreover have "P\<lparr>restart_offset := 0\<rparr> = P" using assms(3) by (cases P) simp
  ultimately show ?thesis using assms(1) by (auto simp: finish_parse_def Let_def)
qed

section \<open>Witnesses\<close>

text \<open>A heartbeat packet (type \<open>0x00400900\<close>, no payload), cut in two by the transport.\<close>

definition heartbeat_bytes :: bytes where
  "heartbeat_bytes = [0,0,0,0, 0,9,0x40,0, 1,0,0,0, 2,0,0,0]"

text \<open>A descriptor that holds the bytes still to be read and returns all that fit.\<close>

definition all_at_once :: "bytes fd_read" where
  "all_at_once f n = (drop n f, Got (take n f))"

lemma fd_reads_all_at_once: "fd_reads all_at_once id"
  by (simp add: fd_reads_def all_at_once_def)

lemma length_heartbeat_bytes: "length heartbeat_bytes = 16"
  by (simp add: heartbeat_bytes_def)

lemma well_framed_heartbeat: "well_framed (heartbeat_bytes @ take 3 heartbeat_bytes)"
  by code_simp

lemma well_framed_chunks:
  "well_framed (concat [take 7 heartbeat_bytes, drop 7 heartbeat_bytes @ take 3 heartbeat_bytes])"
  by code_simp

lemma session_heartbeat:
  "session 0 [take 7 heartbeat_bytes, drop 7 heartbeat_bytes @ take 3 heartbeat_bytes]
     ([], new_parser 64 128) =
   Some ([heartbeat_bytes], (new_parser 64 128)\<lparr>buf := take 3 heartbeat_bytes\<rparr>)"
  by code_simp

theorem session_delivers_split_witness:
  "cut 128 (concat [take 7 heartbeat_bytes, drop 7 heartbeat_bytes @ take 3 heartbeat_bytes]) =
     ([heartbeat_bytes], 0, take 3 heartbeat_bytes)"
  using session_delivers_split [OF _ _ _ _ session_heartbeat] well_framed_chunks
  by (simp add: new_parser_def del: concat.simps)


theorem bufferParse_loses_nothing_witness:
  "concat [heartbeat_bytes] @ take 3 heartbeat_bytes = heartbeat_bytes @ take 3 heartbeat_bytes"
proof -
  let ?P = "(new_parser 64 128)\<lparr>buf := heartbeat_bytes @ take 3 heartbeat_bytes\<rparr>"
  have "bufferParse (logged_rx (\<lambda>s b. (s, Inr True))) (logged_rxo (\<lambda>s h b off. (s, False))) 0 ((), []) ?P =
    (((), [heartbeat_bytes]), ?P\<lparr>restart_offset := 16\<rparr>, Returned (- 1))"
    by code_simp
  from bufferParse_loses_nothing [OF this] show ?thesis
    by (simp add: unparsed_def new_parser_def length_heartbeat_bytes)
qed

theorem bufferParse_keeps_buffer_witness:
  "length (take 3 heartbeat_bytes) \<le> unat (64 :: u32) \<and> (64 :: u32) \<le> 128"
proof -
  let ?P = "(new_parser 64 128)\<lparr>buf := heartbeat_bytes @ take 3 heartbeat_bytes\<rparr>"
  have "parser_inv ?P" by (simp add: parser_inv_def new_parser_def length_heartbeat_bytes)
  moreover have "bufferParse collect_rx collect_rxo 0 [] ?P =
      ([heartbeat_bytes], ?P\<lparr>buf := take 3 heartbeat_bytes\<rparr>, Returned 1)"
    by code_simp
  ultimately show ?thesis using bufferParse_keeps_buffer by (fastforce simp: new_parser_def)
qed

theorem zero_length_packet_no_progress_witness:
  "\<exists>r. bufferParse collect_rx collect_rxo (Suc 1) []
      ((new_parser 64 128)\<lparr>buf := [0xf0,0xff,0xff,0xff] @ replicate 12 0\<rparr>) =
    (replicate (Suc 1) [], (new_parser 64 128)\<lparr>buf := [0xf0,0xff,0xff,0xff] @ replicate 12 0\<rparr>, r)"
  by (rule zero_length_packet_no_progress) (code_simp, code_simp, simp_all add: new_parser_def)

end
