(* ===== verification/Packet_Dispatch.thy ===== *)
theory Packet_Dispatch
  imports Variable_Packets Config_Packets Event_Packets Stream_Session
begin

text \<open>
  \<open>Parser::rxPacket(const Packet &)\<close> (\<open>common/ADARAParser.cc\<close>): the \<open>switch\<close> on the base type that
  builds the packet object and calls the handler of its class, the default handlers, and the
  statistics of discarded packets they keep.
\<close>

section \<open>Packet objects\<close>

datatype packet_obj =
    Raw_Data pkt_header
  | Mapped_Data pkt_header
  | RTDL pkt_header
  | Source_List pkt_header
  | Banked_Event "pkt_header \<times> banked_iter"
  | Banked_Event_State pkt_header
  | Beam_Monitor "pkt_header \<times> bmon_iter"
  | Pixel_Mapping pkt_header
  | Pixel_Mapping_Alt pkt_header
  | Run_Status pkt_header
  | Run_Info "pkt_header \<times> bytes"
  | Trans_Complete "pkt_header \<times> u16 \<times> bytes"
  | Client_Hello "pkt_header \<times> u32 \<times> u32"
  | Annotation pkt_header
  | Sync "pkt_header \<times> bytes \<times> u64 \<times> bytes"
  | Heartbeat pkt_header
  | Geometry "pkt_header \<times> bytes"
  | Beamline_Info "pkt_header \<times> beamline_info"
  | Beam_Monitor_Config pkt_header
  | Detector_Bank_Sets "pkt_header \<times> (u32 \<times> u32) list"
  | Data_Done pkt_header
  | Device_Descriptor "pkt_header \<times> u32 \<times> bytes"
  | Variable_U32 "pkt_header \<times> var_header \<times> u32"
  | Variable_Double "pkt_header \<times> var_header \<times> u64"
  | Variable_String "pkt_header \<times> var_header \<times> bytes"
  | Variable_U32_Array "pkt_header \<times> var_header \<times> u32 list"
  | Variable_Double_Array "pkt_header \<times> var_header \<times> u64 list"
  | Mult_Variable_U32 "pkt_header \<times> var_header \<times> (u32 \<times> u32) list"
  | Mult_Variable_Double "pkt_header \<times> var_header \<times> (u32 \<times> u64) list"
  | Mult_Variable_String "pkt_header \<times> var_header \<times> (u32 \<times> bytes) list"
  | Mult_Variable_U32_Array "pkt_header \<times> var_header \<times> (u32 \<times> u32 list) list"
  | Mult_Variable_Double_Array "pkt_header \<times> var_header \<times> (u32 \<times> u64 list) list"

definition wrap_obj :: "('a \<Rightarrow> packet_obj) \<Rightarrow> pkt_error + 'a \<Rightarrow> pkt_error + packet_obj" where
  "wrap_obj c r = sbind r (\<lambda>x. Inr (c x))"

lemma wrap_obj_Inr: "wrap_obj c r = Inr y \<longleftrightarrow> (\<exists>x. r = Inr x \<and> y = c x)"
  by (auto simp: wrap_obj_def sbind_eq_Inr)

fun construct :: "pkt_kind \<Rightarrow> bytes \<Rightarrow> pkt_error + packet_obj" where
  "construct RAW_EVENT_TYPE mem = wrap_obj Raw_Data (RawDataPkt mem)"
| "construct MAPPED_EVENT_TYPE mem = wrap_obj Mapped_Data (MappedDataPkt mem)"
| "construct RTDL_TYPE mem = wrap_obj RTDL (RTDLPkt mem)"
| "construct SOURCE_LIST_TYPE mem = wrap_obj Source_List (SourceListPkt mem)"
| "construct BANKED_EVENT_TYPE mem = wrap_obj Banked_Event (BankedEventPkt mem)"
| "construct BANKED_EVENT_STATE_TYPE mem = wrap_obj Banked_Event_State (BankedEventStatePkt mem)"
| "construct BEAM_MONITOR_EVENT_TYPE mem = wrap_obj Beam_Monitor (BeamMonitorPkt mem)"
| "construct PIXEL_MAPPING_TYPE mem = wrap_obj Pixel_Mapping (PixelMappingPkt mem)"
| "construct PIXEL_MAPPING_ALT_TYPE mem = wrap_obj Pixel_Mapping_Alt (PixelMappingAltPkt mem)"
| "construct RUN_STATUS_TYPE mem = wrap_obj Run_Status (RunStatusPkt mem)"
| "construct RUN_INFO_TYPE mem = wrap_obj Run_Info (RunInfoPkt mem)"
| "construct TRANS_COMPLETE_TYPE mem = wrap_obj Trans_Complete (TransCompletePkt mem)"
| "construct CLIENT_HELLO_TYPE mem = wrap_obj Client_Hello (ClientHelloPkt mem)"
| "construct STREAM_ANNOTATION_TYPE mem = wrap_obj Annotation (AnnotationPkt mem)"
| "construct SYNC_TYPE mem = wrap_obj Sync (SyncPkt mem)"
| "construct HEARTBEAT_TYPE mem = wrap_obj Heartbeat (HeartbeatPkt mem)"
| "construct GEOMETRY_TYPE mem = wrap_obj Geometry (GeometryPkt mem)"
| "construct BEAMLINE_INFO_TYPE mem = wrap_obj Beamline_Info (BeamlineInfoPkt mem)"
| "construct BEAM_MONITOR_CONFIG_TYPE mem = wrap_obj Beam_Monitor_Config (BeamMonitorConfigPkt mem)"
| "construct DETECTOR_BANK_SETS_TYPE mem = wrap_obj Detector_Bank_Sets (DetectorBankSetsPkt mem)"
| "construct DATA_DONE_TYPE mem = wrap_obj Data_Done (DataDonePkt mem)"
| "construct DEVICE_DESC_TYPE mem = wrap_obj Device_Descriptor (DeviceDescriptorPkt mem)"
| "construct VAR_VALUE_U32_TYPE mem = wrap_obj Variable_U32 (VariableU32Pkt mem)"
| "construct VAR_VALUE_DOUBLE_TYPE mem = wrap_obj Variable_Double (VariableDoublePkt mem)"
| "construct VAR_VALUE_STRING_TYPE mem = wrap_obj Variable_String (VariableStringPkt mem)"
| "construct VAR_VALUE_U32_ARRAY_TYPE mem = wrap_obj Variable_U32_Array (VariableU32ArrayPkt mem)"
| "construct VAR_VALUE_DOUBLE_ARRAY_TYPE mem =
     wrap_obj Variable_Double_Array (VariableDoubleArrayPkt mem)"
| "construct MULT_VAR_VALUE_U32_TYPE mem = wrap_obj Mult_Variable_U32 (MultVariableU32Pkt mem)"
| "construct MULT_VAR_VALUE_DOUBLE_TYPE mem =
     wrap_obj Mult_Variable_Double (MultVariableDoublePkt mem)"
| "construct MULT_VAR_VALUE_STRING_TYPE mem =
     wrap_obj Mult_Variable_String (MultVariableStringPkt mem)"
| "construct MULT_VAR_VALUE_U32_ARRAY_TYPE mem =
     wrap_obj Mult_Variable_U32_Array (MultVariableU32ArrayPkt mem)"
| "construct MULT_VAR_VALUE_DOUBLE_ARRAY_TYPE mem =
     wrap_obj Mult_Variable_Double_Array (MultVariableDoubleArrayPkt mem)"

text \<open>
  When an accepted packet is known to be read only inside itself. A constructor not listed needs
  nothing but that the packet is in the buffer.
\<close>

fun ctor_pre :: "pkt_kind \<Rightarrow> bytes \<Rightarrow> bool" where
  "ctor_pre RUN_INFO_TYPE mem = (20 \<le> packet_bytes mem)"
| "ctor_pre TRANS_COMPLETE_TYPE mem = (20 \<le> packet_bytes mem)"
| "ctor_pre BEAMLINE_INFO_TYPE mem = (20 \<le> packet_bytes mem)"
| "ctor_pre BEAM_MONITOR_CONFIG_TYPE mem = (20 \<le> packet_bytes mem)"
| "ctor_pre SYNC_TYPE mem = sync_size_fits mem"
| "ctor_pre DETECTOR_BANK_SETS_TYPE mem = bank_table_fits mem"
| "ctor_pre DEVICE_DESC_TYPE mem = (version (header_at mem) = 0)"
| "ctor_pre MULT_VAR_VALUE_U32_TYPE mem = mult_count_fits mem"
| "ctor_pre MULT_VAR_VALUE_STRING_TYPE mem = payload_aligned mem"
| "ctor_pre _ mem = True"

lemmas accepted_frames =
  raw_data.reader.accepted_frame [simplified] mapped_data.reader.accepted_frame [simplified] rtdl.reader.accepted_frame [simplified]
  source_list.reader.accepted_frame [simplified] banked.reader.accepted_frame [simplified] banked_state.reader.accepted_frame [simplified]
  beam_monitor.reader.accepted_frame [simplified] pixel_mapping.reader.accepted_frame [simplified]
  pixel_mapping_alt.reader.accepted_frame [simplified] run_status_pkt.reader.accepted_frame [simplified]
  run_info.reader.accepted_frame [simplified] trans_complete.reader.accepted_frame [simplified]
  client_hello.reader.accepted_frame [simplified] annotation.reader.accepted_frame [simplified] sync.reader.accepted_frame [simplified]
  heartbeat.reader.accepted_frame [simplified] geometry.reader.accepted_frame [simplified] beamline_info.reader.accepted_frame [simplified]
  bmon_config.reader.accepted_frame [simplified] bank_sets.accepted_frame [simplified] data_done.reader.accepted_frame [simplified]
  device_desc.reader.accepted_frame [simplified] var_u32.reader.accepted_frame [simplified] var_double.reader.accepted_frame [simplified]
  var_string.reader.accepted_frame [simplified] var_u32_array.reader.accepted_frame [simplified]
  var_double_array.reader.accepted_frame [simplified] mult_u32.reader.accepted_frame [simplified]
  mult_double.reader.accepted_frame [simplified] mult_string.accepted_frame [simplified] mult_u32_array.accepted_frame [simplified]
  mult_double_array.accepted_frame [simplified]

lemma construct_frame:
  assumes "in_packet mem" and "ctor_pre k mem" and "construct k mem = Inr x"
  shows "construct k (take (packet_bytes mem) mem) = Inr x"
  using assms
  by (cases k) (auto simp: wrap_obj_Inr intro: accepted_frames)

section \<open>The dispatcher\<close>

text \<open>
  The handlers of a client: one for each class of object (here one function on objects) and the one
  for a packet of unknown type. A handler returns True to stop the parser.
\<close>

definition rxPacket ::
    "('s \<Rightarrow> packet_obj \<Rightarrow> bytes \<Rightarrow> 's \<times> bool) \<Rightarrow> ('s \<Rightarrow> bytes \<Rightarrow> 's \<times> bool) \<Rightarrow> 's rx" where
  "rxPacket handler unknown s mem =
     (case kind_of_base (base_type (header_at mem)) of
        None \<Rightarrow> (case unknown s mem of (s', st) \<Rightarrow> (s', Inr st))
      | Some k \<Rightarrow>
          (case construct k mem of
             Inl e \<Rightarrow> (s, Inl e)
           | Inr x \<Rightarrow> (case handler s x mem of (s', st) \<Rightarrow> (s', Inr st))))"

section \<open>Discarded packets\<close>

text \<open>
  \<open>m_discarded_packets\<close>: a \<open>std::map\<close> from the base type to a 64-bit counter, as the list of its
  entries in key order; \<open>operator[]\<close> starts a new entry at zero.
\<close>

type_synonym discards = "(u32 \<times> u64) list"

fun discard :: "u32 \<Rightarrow> discards \<Rightarrow> discards" where
  "discard t [] = [(t, 1)]"
| "discard t ((k, n) # ds) =
     (if t < k then (t, 1) # (k, n) # ds
      else if t = k then (k, n + 1) # ds
      else (k, n) # discard t ds)"

text \<open>The handlers that \<open>EXPAND_HANDLER\<close> makes, \<open>rxUnknownPkt\<close> and \<open>rxOversizePkt\<close>.\<close>

definition default_handler :: "discards \<Rightarrow> packet_obj \<Rightarrow> bytes \<Rightarrow> discards \<times> bool" where
  "default_handler ds obj mem = (discard (base_type (header_at mem)) ds, False)"

definition rxUnknownPkt :: "discards \<Rightarrow> bytes \<Rightarrow> discards \<times> bool" where
  "rxUnknownPkt ds mem = (discard (base_type (header_at mem)) ds, False)"

definition rxOversizePkt :: "discards rxo" where
  "rxOversizePkt ds hdr chunk off =
     ((case hdr of None \<Rightarrow> ds | Some h \<Rightarrow> discard (base_type h) ds), False)"

definition resetDiscardedPacketsStats :: "discards \<Rightarrow> discards" where
  "resetDiscardedPacketsStats ds = []"

text \<open>The numbers of \<open>getDiscardedPacketsLogString\<close>: each entry, then the total.\<close>

definition discarded_log :: "discards \<Rightarrow> (u32 \<times> u64) list \<times> u64" where
  "discarded_log ds = (ds, sum_list (List.map snd ds))"

definition default_rx :: "discards rx" where
  "default_rx = rxPacket default_handler rxUnknownPkt"

definition discarded :: "u32 \<Rightarrow> discards \<Rightarrow> u64" where
  "discarded t ds = (case map_of ds t of None \<Rightarrow> 0 | Some n \<Rightarrow> n)"

lemma discarded_discard:
  "sorted_wrt (<) (List.map fst ds) \<Longrightarrow>
   discarded t (discard u ds) = discarded t ds + (if t = u then 1 else 0)"
proof (induction u ds rule: discard.induct)
  case (2 u k n ds)
  have "map_of ds u = None" if "u < k"
    using 2(2) that by (force simp: map_of_eq_None_iff)
  then show ?case using 2 by (auto simp: discarded_def)
qed (simp add: discarded_def)

lemma set_keys_discard: "set (List.map fst (discard u ds)) = insert u (set (List.map fst ds))"
  by (induction u ds rule: discard.induct) auto

lemma sorted_discard:
  "sorted_wrt (<) (List.map fst ds) \<Longrightarrow> sorted_wrt (<) (List.map fst (discard u ds))"
proof (induction u ds rule: discard.induct)
  case (2 u k n ds)
  then show ?case using set_keys_discard [of u ds] by (auto simp del: set_map)
qed simp

lemma total_discard: "snd (discarded_log (discard u ds)) = snd (discarded_log ds) + 1"
  by (induction u ds rule: discard.induct) (auto simp: discarded_log_def)

text \<open>Delivering a list of packets to a client that never stops.\<close>

fun deliver :: "'s rx \<Rightarrow> 's \<Rightarrow> bytes list \<Rightarrow> 's \<times> (pkt_error + unit)" where
  "deliver rx s [] = (s, Inr ())"
| "deliver rx s (p # ps) =
     (case rx s p of (s', Inl e) \<Rightarrow> (s', Inl e) | (s', Inr st) \<Rightarrow> deliver rx s' ps)"

definition accepted :: "bytes \<Rightarrow> bool" where
  "accepted mem =
     (case kind_of_base (base_type (header_at mem)) of
        None \<Rightarrow> True | Some k \<Rightarrow> (case construct k mem of Inl e \<Rightarrow> False | Inr x \<Rightarrow> True))"

lemma default_rx_accepted:
  "accepted mem \<Longrightarrow> default_rx ds mem = (discard (base_type (header_at mem)) ds, Inr False)"
  by (simp add: accepted_def default_rx_def rxPacket_def rxUnknownPkt_def default_handler_def
      split: option.splits sum.splits)

lemma default_deliver:
  "\<forall>p \<in> set ps. accepted p \<Longrightarrow> sorted_wrt (<) (List.map fst ds) \<Longrightarrow>
   \<exists>ds'. deliver default_rx ds ps = (ds', Inr ()) \<and> sorted_wrt (<) (List.map fst ds') \<and>
     (\<forall>t. discarded t ds' = discarded t ds +
        of_nat (length (List.filter (\<lambda>p. base_type (header_at p) = t) ps))) \<and>
     snd (discarded_log ds') = snd (discarded_log ds) + of_nat (length ps)"
proof (induction ps arbitrary: ds)
  case Nil
  then show ?case by simp
next
  case (Cons p ps)
  let ?ds = "discard (base_type (header_at p)) ds"
  have "\<forall>q \<in> set ps. accepted q" and acc: "accepted p" using Cons.prems(1) by simp_all
  from Cons.IH [OF this(1) sorted_discard [OF Cons.prems(2), of "base_type (header_at p)"]]
  obtain ds' where "deliver default_rx ?ds ps = (ds', Inr ())" "sorted_wrt (<) (List.map fst ds')"
    "\<forall>t. discarded t ds' = discarded t ?ds +
       of_nat (length (List.filter (\<lambda>p. base_type (header_at p) = t) ps))"
    "snd (discarded_log ds') = snd (discarded_log ?ds) + of_nat (length ps)"
    by blast
  then show ?case
    using acc Cons.prems(2)
    by (simp add: default_rx_accepted discarded_discard total_discard algebra_simps)
qed

section \<open>Packets that are read past their end\<close>

text \<open>A packet of a kind and version with the given payload words.\<close>

definition mk_packet :: "pkt_kind \<Rightarrow> u32 \<Rightarrow> u32 list \<Rightarrow> bytes" where
  "mk_packet k v ws =
     words_bytes (of_nat (4 * length ws) # adara_pkt_type (type_code k) v # 0 # 0 # ws)"

lemma mk_packet_words:
  "length (mk_packet k v ws) = 16 + 4 * length ws"
  "u32_at (mk_packet k v ws) 0 = of_nat (4 * length ws)"
  "u32_at (mk_packet k v ws) 4 = adara_pkt_type (type_code k) v"
  "i < length ws \<Longrightarrow> fld (mk_packet k v ws) i = ws ! i"
  using u32_at_words [of 0 "of_nat (4 * length ws) # adara_pkt_type (type_code k) v # 0 # 0 # ws"]
    u32_at_words [of 1 "of_nat (4 * length ws) # adara_pkt_type (type_code k) v # 0 # 0 # ws"]
    u32_at_words [of "4 + i" "of_nat (4 * length ws) # adara_pkt_type (type_code k) v # 0 # 0 # ws"]
  by (simp_all add: mk_packet_def fld_def)

lemma mk_packet_header:
  assumes "v < 256"
  shows "payload_len (header_at (mk_packet k v ws)) = of_nat (4 * length ws)"
    "version (header_at (mk_packet k v ws)) = v"
    "base_type (header_at (mk_packet k v ws)) = type_code k"
  using assms by (simp_all add: header_at_def mk_packet_words pkt_type_version
      pkt_type_base [OF type_code_bound])

lemma mk_packet_in:
  "length ws < 2 ^ 30 \<Longrightarrow> in_packet (mk_packet k v ws) \<and>
     packet_bytes (mk_packet k v ws) = length (mk_packet k v ws)"
  by (simp add: in_packet_def packet_bytes_def mk_packet_words unat_of_nat_u32 del: of_nat_mult)

text \<open>
  A newer device descriptor whose size exceeds the payload; a sync packet and a multiple-value
  packet whose count wraps; a bank set whose offset wraps; packets with an empty payload.
\<close>

definition over_reading :: "(pkt_kind \<times> bytes) list" where
  "over_reading =
     [(DEVICE_DESC_TYPE, mk_packet DEVICE_DESC_TYPE 1 [1, 100]),
      (SYNC_TYPE, mk_packet SYNC_TYPE 0 [0, 0, 0, 0, 0, 0, 0xffffffff]),
      (MULT_VAR_VALUE_U32_TYPE, mk_packet MULT_VAR_VALUE_U32_TYPE 0 [1, 2, 0, 0x80000000]),
      (DETECTOR_BANK_SETS_TYPE,
         mk_packet DETECTOR_BANK_SETS_TYPE 0 [2, 0, 0, 0, 0, 0, 0xffffffe6, 0, 0, 0, 0, 0, 0, 0, 0, 0]),
      (RUN_INFO_TYPE, mk_packet RUN_INFO_TYPE 0 []),
      (TRANS_COMPLETE_TYPE, mk_packet TRANS_COMPLETE_TYPE 0 []),
      (BEAMLINE_INFO_TYPE, mk_packet BEAMLINE_INFO_TYPE 0 []),
      (BEAM_MONITOR_CONFIG_TYPE, mk_packet BEAM_MONITOR_CONFIG_TYPE 0 [])]"

lemmas mk_simps = mk_packet_words mk_packet_header rd_fld_in rd64_def rd_bytes_def PacketHeader_in

lemma mult_u32_loop_empty:
  "n \<noteq> 0 \<Longrightarrow> length mem \<le> 16 + 4 * idx \<Longrightarrow> mult_u32_loop mem idx n = Inl Over_Read"
  by (cases n) (simp_all add: rd_fld_def rd32_def)

lemma rd_fld_out: "length mem < 20 + 4 * i \<Longrightarrow> rd_fld mem i = Inl Over_Read"
  by (simp add: rd_fld_def rd32_def)

lemma over_reading_newer:
  "DeviceDescriptorPkt (mk_packet DEVICE_DESC_TYPE 1 [1, 100]) = Inl Over_Read"
  by (simp add: DeviceDescriptorPkt_def mk_simps)

lemma over_reading_counts:
  "SyncPkt (mk_packet SYNC_TYPE 0 [0, 0, 0, 0, 0, 0, 0xffffffff]) = Inl Over_Read"
  "MultVariableU32Pkt (mk_packet MULT_VAR_VALUE_U32_TYPE 0 [1, 2, 0, 0x80000000]) = Inl Over_Read"
  by (simp_all add: SyncPkt_def MultVariableU32Pkt_def mk_simps at_least_def check_alarm_def
      mult_pair_bytes_def mult_u32_loop_empty var_header_at_def validate_status_def
      validate_severity_def variable_statuses_def variable_severities_def)

lemma over_reading_offset:
  "DetectorBankSetsPkt (mk_packet DETECTOR_BANK_SETS_TYPE 0 [2, 0, 0, 0, 0, 0, 0xffffffe6, 0, 0, 0, 0, 0, 0, 0, 0, 0])
     = Inl Over_Read"
proof -
  let ?m = "mk_packet DETECTOR_BANK_SETS_TYPE 0 [2, 0, 0, 0, 0, 0, 0xffffffe6, 0, 0, 0, 0, 0, 0, 0, 0, 0]"
  have "bank_sets_loop ?m (header_at ?m) (Suc 0) (1 + base_part1 + 0xffffffe6 + base_part2) = Inl Over_Read"
    by (simp add: mk_simps bank_set_consts rd_fld_out)
  moreover have "rd_fld ?m 6 = Inr 0xffffffe6" by (simp add: mk_simps)
  ultimately have "bank_sets_loop ?m (header_at ?m) (Suc (Suc 0)) 1 = Inl Over_Read"
    by (simp add: mk_packet_header bank_set_consts)
  then have "bank_sets_loop ?m (header_at ?m) 2 1 = Inl Over_Read" by (simp only: numeral_2_eq_2)
  then show ?thesis by (simp add: DetectorBankSetsPkt_def mk_simps)
qed

lemma over_reading_empty:
  "RunInfoPkt (mk_packet RUN_INFO_TYPE 0 []) = Inl Over_Read"
  "TransCompletePkt (mk_packet TRANS_COMPLETE_TYPE 0 []) = Inl Over_Read"
  "BeamlineInfoPkt (mk_packet BEAMLINE_INFO_TYPE 0 []) = Inl Over_Read"
  "BeamMonitorConfigPkt (mk_packet BEAM_MONITOR_CONFIG_TYPE 0 []) = Inl Over_Read"
  by (simp_all add: RunInfoPkt_def TransCompletePkt_def BeamlineInfoPkt_def BeamMonitorConfigPkt_def
      mk_simps rd_fld_def rd32_def)

section \<open>Properties\<close>

text \<open>
  The object built from an accepted packet, of any of the 32 kinds, is determined by the bytes of
  the packet: two receive buffers that hold the same packet give the same object, whatever
  follows it, and it is the object built when the buffer ends with the packet.
\<close>
theorem accepted_packet_is_local:
  assumes "in_packet mem" and "ctor_pre k mem" and "construct k mem = Inr x"
    and "in_packet mem'" and "ctor_pre k mem'" and "construct k mem' = Inr y"
    and "take (packet_bytes mem) mem = take (packet_bytes mem') mem'"
  shows "x = y \<and> construct k (take (packet_bytes mem) mem) = Inr x"
  using construct_frame [OF assms(1-3)] construct_frame [OF assms(4-6)] assms(7) by simp


text \<open>
  The default client loses no packet: every packet delivered is counted exactly once, under
  its base type (also of an unknown type), and the logged total is the number of packets.
\<close>
theorem default_client_counts_packets:
  assumes "\<forall>p \<in> set ps. accepted p"
  shows "\<exists>ds. deliver default_rx [] ps = (ds, Inr ()) \<and>
    (\<forall>t. discarded t ds = of_nat (length (List.filter (\<lambda>p. base_type (header_at p) = t) ps))) \<and>
    snd (discarded_log ds) = of_nat (length ps) \<and> sorted_wrt (<) (List.map fst ds)"
  using default_deliver [OF assms, of "[]"] by (auto simp: discarded_def discarded_log_def)

section \<open>Witnesses\<close>

theorem accepted_packet_is_local_witness:
  "construct HEARTBEAT_TYPE (take 16 (heartbeat_bytes @ [1])) =
     Inr (Heartbeat (header_at heartbeat_bytes))"
proof -
  have h: "in_packet (heartbeat_bytes @ [b])" "packet_bytes (heartbeat_bytes @ [b]) = 16"
    "header_at (heartbeat_bytes @ [b]) = header_at heartbeat_bytes" for b
    by (simp_all add: in_packet_def packet_bytes_def u32_at_append header_at_append
        length_heartbeat_bytes) (code_simp, code_simp)
  have "HeartbeatPkt heartbeat_bytes = Inr (header_at heartbeat_bytes)" by code_simp
  then have c: "construct HEARTBEAT_TYPE (heartbeat_bytes @ [b]) =
      Inr (Heartbeat (header_at heartbeat_bytes))" for b
    by (simp add: wrap_obj_def HeartbeatPkt_def PacketHeader_in h(3) length_heartbeat_bytes split: if_splits)
  have "take 16 (heartbeat_bytes @ [1]) = take 16 (heartbeat_bytes @ [2])"
    by (simp add: length_heartbeat_bytes)
  then show ?thesis
    using accepted_packet_is_local [OF h(1) _ c h(1) _ c, of 1 2] h(2) by simp
qed

theorem default_client_counts_packets_witness:
  "\<exists>ds. deliver default_rx [] [heartbeat_bytes, mk_packet DATA_DONE_TYPE 0 [], heartbeat_bytes] =
    (ds, Inr ()) \<and> discarded 0x4009 ds = 2 \<and> snd (discarded_log ds) = 3"
proof -
  have "\<forall>p \<in> set [heartbeat_bytes, mk_packet DATA_DONE_TYPE 0 [], heartbeat_bytes]. accepted p"
    by code_simp
  moreover have "List.map (\<lambda>p. base_type (header_at p))
      [heartbeat_bytes, mk_packet DATA_DONE_TYPE 0 [], heartbeat_bytes] = [0x4009, 0x400C, 0x4009]"
    by code_simp
  ultimately show ?thesis using default_client_counts_packets by fastforce
qed

end
