(* ===== verification/Last_Value.thy ===== *)
theory Last_Value
  imports Packet_Dispatch
begin

text \<open>
  \<open>MetaDataMgr::extractLastValue\<close> (\<open>sms/MetaDataMgr.cc\<close>): from a packet with several values of
  one variable, the service makes the single-value packet of the last one, for the prologue of
  a new file. The five overloads share the timestamp arithmetic and the first seven words.
  A value vector is indexed at \<open>numVals - 1\<close>; with no values that is an access outside the vector,
  here None.
\<close>

unbundle bit_operations_syntax

section \<open>Time\<close>

definition NANO_PER_SECOND :: int where
  "NANO_PER_SECOND = 1000000000"

text \<open>The loop that carries nanoseconds into seconds.\<close>

function carry_ns :: "int \<Rightarrow> int \<Rightarrow> int \<times> int" where
  "carry_ns s n = (if n \<ge> NANO_PER_SECOND then carry_ns (s + 1) (n - NANO_PER_SECOND) else (s, n))"
  by pat_completeness auto
termination
  by (relation "measure (\<lambda>(s, n). nat n)") (auto simp: NANO_PER_SECOND_def)

declare carry_ns.simps [simp del]

lemma carry_ns_spec:
  "0 \<le> n \<Longrightarrow> fst (carry_ns s n) * NANO_PER_SECOND + snd (carry_ns s n) = s * NANO_PER_SECOND + n \<and>
   0 \<le> snd (carry_ns s n) \<and> snd (carry_ns s n) < NANO_PER_SECOND"
proof (induction s n rule: carry_ns.induct)
  case (1 s n)
  then show ?case
    by (subst (1 2 3 4) carry_ns.simps) (auto simp: NANO_PER_SECOND_def)
qed

text \<open>The EPICS seconds and nanoseconds of a packet, a time of flight later.\<close>

definition value_time :: "pkt_header \<Rightarrow> u32 \<Rightarrow> int \<times> int" where
  "value_time h dt =
     carry_ns (uint (ts_sec h) - uint epics_epoch_offset) (uint (ts_nsec h) + uint dt)"

section \<open>The five overloads\<close>

definition value_words :: "pkt_kind \<Rightarrow> u32 \<Rightarrow> pkt_header \<Rightarrow> var_header \<Rightarrow> u32 \<Rightarrow> u32 list" where
  "value_words k plen h vh dt =
     [plen, adara_pkt_type (type_code k) (current_version k),
      of_int (fst (value_time h dt)), of_int (snd (value_time h dt)),
      var_devId vh, var_varId vh, push_bit 16 (ucast (var_status vh)) OR ucast (var_severity vh)]"

definition double_words :: "u64 \<Rightarrow> u32 list" where
  "double_words d = [ucast d, ucast (drop_bit 32 d)]"

definition extract_u32 :: "pkt_header \<times> var_header \<times> (u32 \<times> u32) list \<Rightarrow> bytes option" where
  "extract_u32 p = (case p of (h, vh, vals) \<Rightarrow>
     if vals = [] then None
     else Some (words_bytes (value_words VAR_VALUE_U32_TYPE 16 h vh (fst (last vals)) @ [snd (last vals)])))"

definition extract_double :: "pkt_header \<times> var_header \<times> (u32 \<times> u64) list \<Rightarrow> bytes option" where
  "extract_double p = (case p of (h, vh, vals) \<Rightarrow>
     if vals = [] then None
     else Some (words_bytes (value_words VAR_VALUE_DOUBLE_TYPE 20 h vh (fst (last vals)) @
                  double_words (snd (last vals)))))"

text \<open>The bytes that pad a string to whole words are whatever the stack holds: \<open>junk\<close>.\<close>

definition extract_string ::
    "(nat \<Rightarrow> u8) \<Rightarrow> pkt_header \<times> var_header \<times> (u32 \<times> bytes) list \<Rightarrow> bytes option" where
  "extract_string junk p = (case p of (h, vh, vals) \<Rightarrow>
     if vals = [] then None
     else let val = snd (last vals); roundup = (length val + 4 - 1) div 4 in
       Some (words_bytes (value_words VAR_VALUE_STRING_TYPE (of_nat ((roundup + 4) * 4)) h vh (fst (last vals)) @
               [of_nat (length val)]) @ val @ List.map junk [0..<4 * roundup - length val]))"

definition extract_u32_array :: "pkt_header \<times> var_header \<times> (u32 \<times> u32 list) list \<Rightarrow> bytes option" where
  "extract_u32_array p = (case p of (h, vh, vals) \<Rightarrow>
     if vals = [] then None
     else let val = snd (last vals) in
       Some (words_bytes (value_words VAR_VALUE_U32_ARRAY_TYPE (of_nat ((length val + 4) * 4)) h vh
                            (fst (last vals)) @ [of_nat (length val)] @ val)))"

definition extract_double_array :: "pkt_header \<times> var_header \<times> (u32 \<times> u64 list) list \<Rightarrow> bytes option" where
  "extract_double_array p = (case p of (h, vh, vals) \<Rightarrow>
     if vals = [] then None
     else let val = snd (last vals) in
       Some (words_bytes (value_words VAR_VALUE_DOUBLE_ARRAY_TYPE (of_nat (length val * 8 + 16)) h vh
                            (fst (last vals)) @ [of_nat (length val)] @ concat (List.map double_words val))))"

section \<open>What the new packet says\<close>

text \<open>Words 0 to 6 of a packet built this way, with anything behind them.\<close>

lemma length_value_words [simp]: "length (value_words k plen h vh dt) = 7"
  by (simp add: value_words_def)

definition value_packet :: "pkt_kind \<Rightarrow> u32 \<Rightarrow> pkt_header \<Rightarrow> var_header \<Rightarrow> u32 \<Rightarrow> bytes \<Rightarrow> bytes" where
  "value_packet k plen h vh dt rest = words_bytes (value_words k plen h vh dt) @ rest"

lemma status_word:
  "ucast (drop_bit 16 (push_bit 16 (ucast st) OR ucast sev :: u32)) = (st :: u16)"
  "ucast ((push_bit 16 (ucast st) OR ucast sev :: u32) AND 0xffff) = (sev :: u16)"
  by (rule bit_word_eqI; auto simp: and_low_mask_u32 bit_simps dest: bit_imp_le_length)+

lemma value_packet_header:
  "payload_len (header_at (value_packet k plen h vh dt rest)) = plen"
  "version (header_at (value_packet k plen h vh dt rest)) = current_version k"
  "base_type (header_at (value_packet k plen h vh dt rest)) = type_code k"
  "u32_at (value_packet k plen h vh dt rest) 8 = of_int (fst (value_time h dt))"
  "u32_at (value_packet k plen h vh dt rest) 12 = of_int (snd (value_time h dt))"
  using u32_at_words_append [of 0 "value_words k plen h vh dt" rest]
    u32_at_words_append [of 1 "value_words k plen h vh dt" rest]
    u32_at_words_append [of 2 "value_words k plen h vh dt" rest]
    u32_at_words_append [of 3 "value_words k plen h vh dt" rest]
  by (simp_all add: value_packet_def header_at_def value_words_def
      pkt_type_version [OF current_version_bound] pkt_type_base [OF type_code_bound current_version_bound])

lemma value_packet_fields:
  "fld (value_packet k plen h vh dt rest) 0 = var_devId vh"
  "fld (value_packet k plen h vh dt rest) 1 = var_varId vh"
  "fld (value_packet k plen h vh dt rest) 2 = push_bit 16 (ucast (var_status vh)) OR ucast (var_severity vh)"
  using fld_words_append [of 0 "value_words k plen h vh dt" rest]
    fld_words_append [of 1 "value_words k plen h vh dt" rest]
    fld_words_append [of 2 "value_words k plen h vh dt" rest]
  by (simp_all add: value_packet_def value_words_def)

lemma value_packet_vars:
  "var_header_at (value_packet k plen h vh dt rest) = vh"
  unfolding var_header_at_def value_packet_fields status_word by simp

lemma length_value_packet [simp]: "length (value_packet k plen h vh dt rest) = 28 + length rest"
  by (simp add: value_packet_def)

lemma drop_value_packet: "drop (28 + n) (value_packet k plen h vh dt rest) = drop n rest"
  by (simp add: value_packet_def add.commute)

lemma u32_at_value_packet: "u32_at (value_packet k plen h vh dt rest) (28 + n) = u32_at rest n"
  by (simp add: u32_at_def drop_value_packet)

lemma u64_at_value_packet: "u64_at (value_packet k plen h vh dt rest) (28 + n) = u64_at rest n"
  by (simp add: u64_at_def drop_value_packet)

lemmas value_packet_simps = value_packet_header value_packet_vars PacketHeader_in

text \<open>Each of the new packets is read back by the constructor of its class.\<close>

definition alarm_ok :: "var_header \<Rightarrow> bool" where
  "alarm_ok vh \<longleftrightarrow> \<not> validate_status (var_status vh) \<and> \<not> validate_severity (var_severity vh)"

lemma check_alarm_value_packet:
  "alarm_ok vh \<Longrightarrow> check_alarm (value_packet k plen h vh dt rest) = Inr vh"
  by (simp add: check_alarm_in value_packet_vars alarm_ok_def)

lemma check_alarm_ok: "check_alarm mem = Inr vh \<Longrightarrow> alarm_ok vh"
  by (auto simp: check_alarm_def alarm_ok_def sbind_eq_Inr split: if_splits)

lemma extract_as_value_packet:
  "words_bytes (value_words k plen h vh dt @ ws) = value_packet k plen h vh dt (words_bytes ws)"
  "words_bytes (value_words k plen h vh dt @ ws) @ r = value_packet k plen h vh dt (words_bytes ws @ r)"
  by (simp_all add: value_packet_def words_bytes_append)

lemma length_double_words [simp]: "length (double_words d) = 2"
  by (simp add: double_words_def)

lemma le_bytes_split: "le_bytes 8 (d :: u64) = le_bytes 4 (ucast d :: u32) @ le_bytes 4 (ucast (drop_bit 32 d) :: u32)"
  by (simp add: eval_nat_numeral)
    (intro conjI bit_word_eqI; auto simp: bit_simps)

lemma words_bytes_double: "words_bytes (double_words d) = le_bytes 8 d"
  by (simp add: double_words_def words_bytes_def le_bytes_split)

lemma u64_at_doubles:
  "i < length ds \<Longrightarrow> u64_at (words_bytes (concat (List.map double_words ds)) @ r) (8 * i) = ds ! i"
proof (induction ds arbitrary: i)
  case (Cons d ds)
  show ?case
  proof (cases i)
    case 0
    then show ?thesis by (simp add: u64_at_def words_bytes_append words_bytes_double)
  next
    case (Suc j)
    then show ?thesis using Cons
      by (simp add: u64_at_def words_bytes_append words_bytes_double)
  qed
qed simp

lemma VariableU32_value_packet:
  "alarm_ok vh \<Longrightarrow> q = value_packet VAR_VALUE_U32_TYPE 16 h vh dt (words_bytes [v]) \<Longrightarrow>
   VariableU32Pkt q = Inr (header_at q, vh, v)"
  using u32_at_value_packet [of VAR_VALUE_U32_TYPE 16 h vh dt "words_bytes [v]" 0] u32_at_words [of 0 "[v]"]
  by (simp add: VariableU32Pkt_def value_packet_simps exact_or_newer_def check_alarm_value_packet
      rd_fld_in fld_def)

lemma VariableDouble_value_packet:
  "alarm_ok vh \<Longrightarrow> q = value_packet VAR_VALUE_DOUBLE_TYPE 20 h vh dt (words_bytes (double_words v)) \<Longrightarrow>
   VariableDoublePkt q = Inr (header_at q, vh, v)"
  using u64_at_value_packet [of VAR_VALUE_DOUBLE_TYPE 20 h vh dt "words_bytes (double_words v)" 0]
    u64_at_doubles [of 0 "[v]" "[]"]
  by (simp add: VariableDoublePkt_def value_packet_simps exact_or_newer_def check_alarm_value_packet
      rd64_def)

lemma VariableString_value_packet:
  assumes "alarm_ok vh" and "length val + 19 < 4294967296"
    and "q = value_packet VAR_VALUE_STRING_TYPE (of_nat (((length val + 4 - 1) div 4 + 4) * 4)) h vh dt
      (words_bytes [of_nat (length val)] @ val @ List.map junk [0..<4 * ((length val + 4 - 1) div 4) - length val])"
  shows "VariableStringPkt q = Inr (header_at q, vh, val) \<and> in_packet q \<and> length q = packet_bytes q"
proof -
  let ?r = "(length val + 4 - 1) div 4"
  have r: "length val \<le> 4 * ?r" "4 * ?r \<le> length val + 3" by simp_all
  have plen: "unat (payload_len (header_at q)) = (?r + 4) * 4"
    using assms(2,3) r by (simp add: value_packet_header unat_of_nat_u32 del: of_nat_mult of_nat_add)
  have len: "length q = 16 + (?r + 4) * 4" using assms(3) r by simp
  have size: "fld q 3 = of_nat (length val)" "drop 32 q = val @ List.map junk [0..<4 * ?r - length val]"
    using u32_at_value_packet [of VAR_VALUE_STRING_TYPE "of_nat ((?r + 4) * 4)" h vh dt
        "words_bytes [of_nat (length val)] @ val @ List.map junk [0..<4 * ?r - length val]" 0]
      u32_at_words_append [of 0 "[of_nat (length val)]" "val @ List.map junk [0..<4 * ?r - length val]"]
      drop_value_packet [of 4]
    by (simp_all add: assms(3) fld_def words_bytes_def)
  have "unat (of_nat (length val) :: u32) = length val"
    using assms(2) by (simp add: unat_of_nat_u32)
  moreover have "version (header_at q) = 0" "check_alarm q = Inr vh"
    using assms(1,3) by (simp_all add: value_packet_header check_alarm_value_packet)
  ultimately have "VariableStringPkt q = Inr (header_at q, vh, val)"
    using len r size plen
    by (simp add: VariableStringPkt_def PacketHeader_in at_least_def rd_fld_in rd_bytes_def)
  then show ?thesis using plen len by (simp add: in_packet_def packet_bytes_def payload_len_header_at)
qed

lemma VariableU32Array_value_packet:
  assumes "alarm_ok vh" and "4 * length val + 16 < 4294967296"
    and "q = value_packet VAR_VALUE_U32_ARRAY_TYPE (of_nat ((length val + 4) * 4)) h vh dt
      (words_bytes (of_nat (length val) # val))"
  shows "VariableU32ArrayPkt q = Inr (header_at q, vh, val) \<and> in_packet q \<and> length q = packet_bytes q"
proof -
  have plen: "unat (payload_len (header_at q)) = (length val + 4) * 4"
    using assms(2,3) by (simp add: value_packet_header unat_of_nat_u32 del: of_nat_mult of_nat_add)
  have len: "length q = 32 + 4 * length val" using assms(3) by simp
  have at: "u32_at q (28 + 4 * i) = (of_nat (length val) # val) ! i" if "i \<le> length val" for i
    using u32_at_value_packet [of VAR_VALUE_U32_ARRAY_TYPE "of_nat ((length val + 4) * 4)" h vh dt
        "words_bytes (of_nat (length val) # val)" "4 * i"]
      u32_at_words [of i "of_nat (length val) # val"] that
    by (simp add: assms(3) del: of_nat_mult of_nat_add)
  have size: "fld q 3 = of_nat (length val)" using at [of 0] by (simp add: fld_def)
  have vals: "List.map (\<lambda>i. u32_at q (32 + 4 * i)) [0..<length val] = val"
  proof (rule nth_equalityI)
    fix i assume "i < length (List.map (\<lambda>i. u32_at q (32 + 4 * i)) [0..<length val])"
    then show "List.map (\<lambda>i. u32_at q (32 + 4 * i)) [0..<length val] ! i = val ! i"
      using at [of "Suc i"] by (simp add: algebra_simps)
  qed simp
  have "unat (of_nat (length val) :: u32) = length val"
    using assms(2) by (simp add: unat_of_nat_u32)
  moreover have "version (header_at q) = 0" "check_alarm q = Inr vh"
    using assms(1,3) by (simp_all add: value_packet_header check_alarm_value_packet)
  ultimately have "VariableU32ArrayPkt q = Inr (header_at q, vh, val)"
    using len size plen vals
    by (simp add: VariableU32ArrayPkt_def PacketHeader_in at_least_def rd_fld_in rd_bytes_def)
  then show ?thesis using plen len by (simp add: in_packet_def packet_bytes_def payload_len_header_at)
qed

lemma length_doubles [simp]: "length (concat (List.map double_words ds)) = 2 * length ds"
  by (induction ds) simp_all

lemma VariableDoubleArray_value_packet:
  assumes "alarm_ok vh" and "8 * length val + 16 < 4294967296"
    and "q = value_packet VAR_VALUE_DOUBLE_ARRAY_TYPE (of_nat (length val * 8 + 16)) h vh dt
      (words_bytes (of_nat (length val) # concat (List.map double_words val)))"
  shows "VariableDoubleArrayPkt q = Inr (header_at q, vh, val) \<and> in_packet q \<and> length q = packet_bytes q"
proof -
  have plen: "unat (payload_len (header_at q)) = length val * 8 + 16"
    using assms(2,3) by (simp add: value_packet_header unat_of_nat_u32 del: of_nat_mult of_nat_add)
  have len: "length q = 32 + 8 * length val" using assms(3) by simp
  have size: "fld q 3 = of_nat (length val)"
    using u32_at_value_packet [of VAR_VALUE_DOUBLE_ARRAY_TYPE "of_nat (length val * 8 + 16)" h vh dt
        "words_bytes (of_nat (length val) # concat (List.map double_words val))" 0]
      u32_at_words [of 0 "of_nat (length val) # concat (List.map double_words val)"]
    by (simp add: assms(3) fld_def del: of_nat_mult of_nat_add)
  have at: "u64_at q (32 + 8 * i) = val ! i" if "i < length val" for i
    using u64_at_value_packet [of VAR_VALUE_DOUBLE_ARRAY_TYPE "of_nat (length val * 8 + 16)" h vh dt
        "words_bytes (of_nat (length val) # concat (List.map double_words val))" "4 + 8 * i"]
      u64_at_doubles [OF that, of "[]"]
    by (simp add: assms(3) words_bytes_Cons u64_at_def del: of_nat_mult of_nat_add)
  have vals: "List.map (\<lambda>i. u64_at q (32 + 8 * i)) [0..<length val] = val"
    by (rule nth_equalityI) (simp_all add: at)
  have "unat (of_nat (length val) :: u32) = length val"
    using assms(2) by (simp add: unat_of_nat_u32)
  moreover have "version (header_at q) = 0" "check_alarm q = Inr vh"
    using assms(1,3) by (simp_all add: value_packet_header check_alarm_value_packet)
  ultimately have "VariableDoubleArrayPkt q = Inr (header_at q, vh, val)"
    using len size plen vals
    by (simp add: VariableDoubleArrayPkt_def PacketHeader_in at_least_def rd_fld_in rd_bytes_def)
  then show ?thesis using plen len by (simp add: in_packet_def packet_bytes_def payload_len_header_at)
qed

section \<open>The prologue packet of a variable\<close>

text \<open>
  The choice \<open>MetaDataMgr::onPrologue\<close> makes for the stored packet of a variable: a packet with
  several values is replaced by its last one, any other packet is written as it is. An error
  is the exception of a constructor, None a value vector indexed outside.
\<close>

definition prologue_packet :: "(nat \<Rightarrow> u8) \<Rightarrow> bytes \<Rightarrow> pkt_error + bytes option" where
  "prologue_packet junk mem =
     (let t = base_type (header_at mem) in
      if t = type_code MULT_VAR_VALUE_U32_TYPE
      then sbind (MultVariableU32Pkt mem) (\<lambda>p. Inr (extract_u32 p))
      else if t = type_code MULT_VAR_VALUE_DOUBLE_TYPE
      then sbind (MultVariableDoublePkt mem) (\<lambda>p. Inr (extract_double p))
      else if t = type_code MULT_VAR_VALUE_STRING_TYPE
      then sbind (MultVariableStringPkt mem) (\<lambda>p. Inr (extract_string junk p))
      else if t = type_code MULT_VAR_VALUE_U32_ARRAY_TYPE
      then sbind (MultVariableU32ArrayPkt mem) (\<lambda>p. Inr (extract_u32_array p))
      else if t = type_code MULT_VAR_VALUE_DOUBLE_ARRAY_TYPE
      then sbind (MultVariableDoubleArrayPkt mem) (\<lambda>p. Inr (extract_double_array p))
      else Inr (Some mem))"

text \<open>
  The abstract meaning of a variable packet, single or multiple: whose value it is, with which
  alarm state, and the last value it carries. None for anything else, or no value at all.
\<close>

datatype var_value = V_U32 u32 | V_Double u64 | V_String bytes | V_U32s "u32 list" | V_Doubles "u64 list"

definition last_of :: "('a \<Rightarrow> var_value) \<Rightarrow> var_header \<Rightarrow> (u32 \<times> 'a) list \<Rightarrow> (var_header \<times> var_value) option" where
  "last_of c vh vals = (if vals = [] then None else Some (vh, c (snd (last vals))))"

fun obj_reading :: "packet_obj \<Rightarrow> (var_header \<times> var_value) option" where
  "obj_reading (Variable_U32 (h, vh, v)) = Some (vh, V_U32 v)"
| "obj_reading (Variable_Double (h, vh, v)) = Some (vh, V_Double v)"
| "obj_reading (Variable_String (h, vh, v)) = Some (vh, V_String v)"
| "obj_reading (Variable_U32_Array (h, vh, v)) = Some (vh, V_U32s v)"
| "obj_reading (Variable_Double_Array (h, vh, v)) = Some (vh, V_Doubles v)"
| "obj_reading (Mult_Variable_U32 (h, vh, vals)) = last_of V_U32 vh vals"
| "obj_reading (Mult_Variable_Double (h, vh, vals)) = last_of V_Double vh vals"
| "obj_reading (Mult_Variable_String (h, vh, vals)) = last_of V_String vh vals"
| "obj_reading (Mult_Variable_U32_Array (h, vh, vals)) = last_of V_U32s vh vals"
| "obj_reading (Mult_Variable_Double_Array (h, vh, vals)) = last_of V_Doubles vh vals"
| "obj_reading _ = None"

definition reading :: "bytes \<Rightarrow> (var_header \<times> var_value) option" where
  "reading mem =
     (case kind_of_base (base_type (header_at mem)) of
        None \<Rightarrow> None
      | Some k \<Rightarrow> (case construct k mem of Inl e \<Rightarrow> None | Inr x \<Rightarrow> obj_reading x))"

lemma reading_kind:
  "base_type (header_at mem) = type_code k \<Longrightarrow>
   reading mem = (case construct k mem of Inl e \<Rightarrow> None | Inr x \<Rightarrow> obj_reading x)"
  by (simp add: reading_def kind_of_base_type_code)

definition is_mult :: "bytes \<Rightarrow> bool" where
  "is_mult mem \<longleftrightarrow> base_type (header_at mem) \<in> {0x8101, 0x8102, 0x8103, 0x8104, 0x8105}"

text \<open>A stored packet is a copy of exactly its length.\<close>

definition exact_packet :: "bytes \<Rightarrow> bool" where
  "exact_packet mem \<longleftrightarrow> 16 \<le> length mem \<and> length mem = packet_bytes mem"

lemma exact_packet_bound: "exact_packet mem \<Longrightarrow> length mem < 4294967296 + 16"
  unfolding exact_packet_def packet_bytes_def
  using unat_u32_less [of "u32_at mem 0"] by (metis add.commute add_less_cancel_left)

text \<open>The elements a loop accepted lie in the buffer, so their sizes cannot wrap.\<close>

lemma mult_string_sizes:
  "mult_string_loop mem idx r n = Inr xs \<Longrightarrow> x \<in> set xs \<Longrightarrow>
   24 + 4 * idx + length (snd x) \<le> length mem"
proof (induction mem idx r n arbitrary: xs rule: mult_string_loop.induct)
  case (2 mem idx r n)
  from "2.prems"(1) obtain t w s rest where
      s: "rd_bytes mem (16 + 4 * (idx + 2)) (unat w) = Inr s"
    and rest: "mult_string_loop mem (idx + 2 + words_of_chars w)
        (r - of_nat ((words_of_chars w + 2) * 4)) n = Inr rest"
    and xs: "xs = (t, s) # rest" and f: "rd_fld mem idx = Inr t" "rd_fld mem (idx + 1) = Inr w"
      "\<not> unat r < unat w + 2 * 4"
    by (auto simp: sbind_eq_Inr split: if_splits)
  show ?case
  proof (cases "x = (t, s)")
    case True
    then show ?thesis using s by (auto simp: rd_bytes_def split: if_splits)
  next
    case False
    then have "x \<in> set rest" using "2.prems"(2) xs by simp
    then show ?thesis using "2.IH" [OF f(3) rest] by simp
  qed
qed simp

lemma mult_u32_array_sizes:
  "mult_u32_array_loop mem idx r n = Inr xs \<Longrightarrow> x \<in> set xs \<Longrightarrow>
   24 + 4 * idx + 4 * length (snd x) \<le> length mem"
proof (induction mem idx r n arbitrary: xs rule: mult_u32_array_loop.induct)
  case (2 mem idx r n)
  from "2.prems"(1) obtain t b rest and w :: u32 where
      b: "rd_bytes mem (16 + 4 * (idx + 2)) (unat w * 4) = Inr b"
    and rest: "mult_u32_array_loop mem (idx + 2 + unat w) (r - of_nat ((unat w + 2) * 4)) n = Inr rest"
    and xs: "xs = (t, List.map (\<lambda>j. fld mem (idx + 2 + j)) [0..<unat w]) # rest"
    and f: "\<not> unat r < (unat w + 2) * 4"
    by (auto simp: sbind_eq_Inr split: if_splits)
  show ?case
  proof (cases "x \<in> set rest")
    case True
    then show ?thesis using "2.IH" [OF f rest] by simp
  next
    case False
    then show ?thesis using b xs "2.prems"(2) by (auto simp: rd_bytes_def split: if_splits)
  qed
qed simp

lemma mult_double_array_sizes:
  "mult_double_array_loop mem idx r n = Inr xs \<Longrightarrow> x \<in> set xs \<Longrightarrow>
   24 + 4 * idx + 8 * length (snd x) \<le> length mem"
proof (induction mem idx r n arbitrary: xs rule: mult_double_array_loop.induct)
  case (2 mem idx r n)
  from "2.prems"(1) obtain t b rest and w :: u32 where
      b: "rd_bytes mem (16 + 4 * (idx + 2)) (unat w * 8) = Inr b"
    and rest: "mult_double_array_loop mem (idx + 2 + 2 * unat w)
        (r - of_nat ((2 * unat w + 2) * 4)) n = Inr rest"
    and xs: "xs = (t, List.map (\<lambda>j. u64_at mem (16 + 4 * (idx + 2) + 8 * j)) [0..<unat w]) # rest"
    and f: "\<not> unat r < unat w * 8 + 2 * 4"
    by (auto simp: sbind_eq_Inr split: if_splits)
  show ?case
  proof (cases "x \<in> set rest")
    case True
    then show ?thesis using "2.IH" [OF f rest] by simp
  next
    case False
    then show ?thesis using b xs "2.prems"(2) by (auto simp: rd_bytes_def split: if_splits)
  qed
qed simp

lemma mult_accepted:
  "MultVariableU32Pkt mem = Inr (h, vh, xs) \<Longrightarrow> alarm_ok vh"
  "MultVariableDoublePkt mem = Inr (h, vh, ds) \<Longrightarrow> alarm_ok vh"
  "MultVariableStringPkt mem = Inr (h, vh, ss) \<Longrightarrow>
     alarm_ok vh \<and> (\<forall>x \<in> set ss. 40 + length (snd x) \<le> length mem)"
  "MultVariableU32ArrayPkt mem = Inr (h, vh, us) \<Longrightarrow>
     alarm_ok vh \<and> (\<forall>x \<in> set us. 40 + 4 * length (snd x) \<le> length mem)"
  "MultVariableDoubleArrayPkt mem = Inr (h, vh, as) \<Longrightarrow>
     alarm_ok vh \<and> (\<forall>x \<in> set as. 40 + 8 * length (snd x) \<le> length mem)"
  using mult_string_sizes [of mem 4] mult_u32_array_sizes [of mem 4] mult_double_array_sizes [of mem 4]
  by (fastforce simp: MultVariableU32Pkt_def MultVariableDoublePkt_def MultVariableStringPkt_def
      MultVariableU32ArrayPkt_def MultVariableDoubleArrayPkt_def sbind_eq_Inr dest: check_alarm_ok)+

definition same_reading :: "bytes \<Rightarrow> bytes \<Rightarrow> bool" where
  "same_reading q mem \<longleftrightarrow> reading q = reading mem \<and> \<not> is_mult q \<and> exact_packet q"

lemma same_readingI:
  assumes "base_type (header_at q) = type_code k" and "construct k q = Inr x"
    and "base_type (header_at mem) = type_code k'" and "construct k' mem = Inr y"
    and "obj_reading x = obj_reading y" and "type_code k \<notin> {0x8101, 0x8102, 0x8103, 0x8104, 0x8105}"
    and "exact_packet q"
  shows "same_reading q mem"
  using assms reading_kind [OF assms(1)] reading_kind [OF assms(3)]
  by (simp add: same_reading_def is_mult_def)

lemma exact_value_packet:
  "unat plen = 12 + length rest \<Longrightarrow> exact_packet (value_packet k plen h vh dt rest)"
  using payload_len_header_at [of "value_packet k plen h vh dt rest"]
  by (simp add: exact_packet_def packet_bytes_def value_packet_header)

lemma extract_scalar_reading:
  assumes "base_type (header_at mem) = type_code k" and "construct k mem = Inr y"
  shows "k = MULT_VAR_VALUE_U32_TYPE \<Longrightarrow> MultVariableU32Pkt mem = Inr p \<Longrightarrow>
      extract_u32 p = Some q \<Longrightarrow> same_reading q mem"
    and "k = MULT_VAR_VALUE_DOUBLE_TYPE \<Longrightarrow> MultVariableDoublePkt mem = Inr p' \<Longrightarrow>
      extract_double p' = Some q \<Longrightarrow> same_reading q mem"
proof -
  assume k: "k = MULT_VAR_VALUE_U32_TYPE" and acc: "MultVariableU32Pkt mem = Inr p"
    and ex: "extract_u32 p = Some q"
  obtain h vh vals where p: "p = (h, vh, vals)" by (cases p)
  from ex p have ne: "vals \<noteq> []"
    and q: "q = value_packet VAR_VALUE_U32_TYPE 16 h vh (fst (last vals)) (words_bytes [snd (last vals)])"
    by (auto simp: extract_u32_def extract_as_value_packet split: if_splits)
  have "alarm_ok vh" using mult_accepted(1) acc p by blast
  then have "VariableU32Pkt q = Inr (header_at q, vh, snd (last vals))"
    using VariableU32_value_packet [OF _ q] by blast
  then show "same_reading q mem"
    using k acc p ne q assms
    by (intro same_readingI [of q VAR_VALUE_U32_TYPE "Variable_U32 (header_at q, vh, snd (last vals))" mem k])
      (auto simp: value_packet_header wrap_obj_def last_of_def intro: exact_value_packet)
next
  assume k: "k = MULT_VAR_VALUE_DOUBLE_TYPE" and acc: "MultVariableDoublePkt mem = Inr p'"
    and ex: "extract_double p' = Some q"
  obtain h vh vals where p: "p' = (h, vh, vals)" by (cases p')
  from ex p have ne: "vals \<noteq> []"
    and q: "q = value_packet VAR_VALUE_DOUBLE_TYPE 20 h vh (fst (last vals))
      (words_bytes (double_words (snd (last vals))))"
    by (auto simp: extract_double_def extract_as_value_packet split: if_splits)
  have "alarm_ok vh" using mult_accepted(2) acc p by blast
  then have "VariableDoublePkt q = Inr (header_at q, vh, snd (last vals))"
    using VariableDouble_value_packet [OF _ q] by blast
  then show "same_reading q mem"
    using k acc p ne q assms
    by (intro same_readingI [of q VAR_VALUE_DOUBLE_TYPE "Variable_Double (header_at q, vh, snd (last vals))" mem k])
      (auto simp: value_packet_header wrap_obj_def last_of_def intro: exact_value_packet)
qed

lemma extract_string_reading:
  assumes "base_type (header_at mem) = type_code MULT_VAR_VALUE_STRING_TYPE"
    and acc: "MultVariableStringPkt mem = Inr p" and ex: "extract_string junk p = Some q"
    and "length mem < 4294967296 + 16"
  shows "same_reading q mem"
proof -
  obtain h vh vals where p: "p = (h, vh, vals)" by (cases p)
  let ?v = "snd (last vals)"
  from ex p have ne: "vals \<noteq> []"
    and q: "q = value_packet VAR_VALUE_STRING_TYPE (of_nat (((length ?v + 4 - 1) div 4 + 4) * 4)) h vh
      (fst (last vals)) (words_bytes [of_nat (length ?v)] @ ?v @
         List.map junk [0..<4 * ((length ?v + 4 - 1) div 4) - length ?v])"
    by (auto simp: extract_string_def value_packet_def words_bytes_append Let_def split: if_splits)
  have "alarm_ok vh" "40 + length ?v \<le> length mem"
    using mult_accepted(3) [OF acc [unfolded p]] ne by simp_all
  with VariableString_value_packet [OF _ _ q] assms(4)
  have "VariableStringPkt q = Inr (header_at q, vh, ?v) \<and> in_packet q \<and> length q = packet_bytes q"
    by simp
  then show ?thesis
    using acc p ne q assms(1)
    by (intro same_readingI [of q VAR_VALUE_STRING_TYPE "Variable_String (header_at q, vh, ?v)" mem
          MULT_VAR_VALUE_STRING_TYPE])
      (auto simp: value_packet_header wrap_obj_def last_of_def exact_packet_def in_packet_def)
qed

lemma extract_array_reading:
  assumes "base_type (header_at mem) = type_code k" and "construct k mem = Inr y"
    and "length mem < 4294967296 + 16"
  shows "k = MULT_VAR_VALUE_U32_ARRAY_TYPE \<Longrightarrow> MultVariableU32ArrayPkt mem = Inr p \<Longrightarrow>
      extract_u32_array p = Some q \<Longrightarrow> same_reading q mem"
    and "k = MULT_VAR_VALUE_DOUBLE_ARRAY_TYPE \<Longrightarrow> MultVariableDoubleArrayPkt mem = Inr p' \<Longrightarrow>
      extract_double_array p' = Some q \<Longrightarrow> same_reading q mem"
proof -
  assume k: "k = MULT_VAR_VALUE_U32_ARRAY_TYPE" and acc: "MultVariableU32ArrayPkt mem = Inr p"
    and ex: "extract_u32_array p = Some q"
  obtain h vh vals where p: "p = (h, vh, vals)" by (cases p)
  let ?v = "snd (last vals)"
  from ex p have ne: "vals \<noteq> []"
    and q: "q = value_packet VAR_VALUE_U32_ARRAY_TYPE (of_nat ((length ?v + 4) * 4)) h vh (fst (last vals))
      (words_bytes (of_nat (length ?v) # ?v))"
    by (auto simp: extract_u32_array_def extract_as_value_packet Let_def split: if_splits)
  have "alarm_ok vh" "40 + 4 * length ?v \<le> length mem"
    using mult_accepted(4) [OF acc [unfolded p]] ne by simp_all
  with VariableU32Array_value_packet [OF _ _ q] assms(3)
  have "VariableU32ArrayPkt q = Inr (header_at q, vh, ?v) \<and> in_packet q \<and> length q = packet_bytes q"
    by simp
  then show "same_reading q mem"
    using acc p ne q assms(1,2) k
    by (intro same_readingI [of q VAR_VALUE_U32_ARRAY_TYPE "Variable_U32_Array (header_at q, vh, ?v)" mem k])
      (auto simp: value_packet_header wrap_obj_def last_of_def exact_packet_def in_packet_def)
next
  assume k: "k = MULT_VAR_VALUE_DOUBLE_ARRAY_TYPE" and acc: "MultVariableDoubleArrayPkt mem = Inr p'"
    and ex: "extract_double_array p' = Some q"
  obtain h vh vals where p: "p' = (h, vh, vals)" by (cases p')
  let ?v = "snd (last vals)"
  from ex p have ne: "vals \<noteq> []"
    and q: "q = value_packet VAR_VALUE_DOUBLE_ARRAY_TYPE (of_nat (length ?v * 8 + 16)) h vh (fst (last vals))
      (words_bytes (of_nat (length ?v) # concat (List.map double_words ?v)))"
    by (auto simp: extract_double_array_def extract_as_value_packet Let_def split: if_splits)
  have "alarm_ok vh" "40 + 8 * length ?v \<le> length mem"
    using mult_accepted(5) [OF acc [unfolded p]] ne by simp_all
  with VariableDoubleArray_value_packet [OF _ _ q] assms(3)
  have "VariableDoubleArrayPkt q = Inr (header_at q, vh, ?v) \<and> in_packet q \<and> length q = packet_bytes q"
    by simp
  then show "same_reading q mem"
    using acc p ne q assms(1,2) k
    by (intro same_readingI [of q VAR_VALUE_DOUBLE_ARRAY_TYPE "Variable_Double_Array (header_at q, vh, ?v)" mem k])
      (auto simp: value_packet_header wrap_obj_def last_of_def exact_packet_def in_packet_def)
qed

lemma prologue_same_reading:
  assumes ex: "exact_packet mem" and pr: "prologue_packet junk mem = Inr (Some q)"
  shows "same_reading q mem"
proof (cases "is_mult mem")
  case False
  then have "q = mem" using pr by (simp add: prologue_packet_def is_mult_def)
  then show ?thesis using False ex by (simp add: same_reading_def)
next
  case True
  note b = exact_packet_bound [OF ex]
  have kinds: "\<exists>k \<in> {MULT_VAR_VALUE_U32_TYPE, MULT_VAR_VALUE_DOUBLE_TYPE, MULT_VAR_VALUE_STRING_TYPE,
      MULT_VAR_VALUE_U32_ARRAY_TYPE, MULT_VAR_VALUE_DOUBLE_ARRAY_TYPE}. base_type (header_at mem) = type_code k"
    using True by (simp add: is_mult_def)
  then obtain k where k: "base_type (header_at mem) = type_code k"
    and mult: "k = MULT_VAR_VALUE_U32_TYPE \<or> k = MULT_VAR_VALUE_DOUBLE_TYPE \<or>
      k = MULT_VAR_VALUE_STRING_TYPE \<or> k = MULT_VAR_VALUE_U32_ARRAY_TYPE \<or>
      k = MULT_VAR_VALUE_DOUBLE_ARRAY_TYPE"
    by blast
  from mult show ?thesis
    using pr k extract_scalar_reading [OF k] extract_array_reading [OF k _ b] b
    by (elim disjE) (auto simp: prologue_packet_def sbind_eq_Inr wrap_obj_Inr intro: extract_string_reading)
qed

lemma uint_widened: "uint (ucast (w :: u32) :: u64) = uint w"
  using unsigned_less [of w, where 'a = int] by (simp add: unsigned_ucast_eq take_bit_int_eq_self)

section \<open>Properties\<close>

text \<open>
  C9. The prologue keeps the last value: the packet written for a variable at the start of a file
  names the same variable with the same alarm state and carries the last value of the stored
  packet (number, double, string or array), is a single-value packet, and is complete.
\<close>
theorem prologue_keeps_last_value:
  assumes "exact_packet mem" and "prologue_packet junk mem = Inr (Some q)"
  shows "reading q = reading mem \<and> \<not> is_mult q \<and> exact_packet q"
  using prologue_same_reading [OF assms] by (simp add: same_reading_def)

text \<open>
  The time of the value in the prologue is the time of the packet plus the time of flight of the
  last value, with the nanoseconds carried into the seconds.
\<close>
theorem prologue_value_time:
  "\<exists>c :: nat. u32_at (value_packet k plen (header_at mem) vh dt rest) 8 = u32_at mem 8 + of_nat c \<and>
     uint (u32_at (value_packet k plen (header_at mem) vh dt rest) 12) + int c * NANO_PER_SECOND =
       uint (u32_at mem 12) + uint dt \<and>
     uint (u32_at (value_packet k plen (header_at mem) vh dt rest) 12) < NANO_PER_SECOND"
proof -
  let ?s = "uint (ts_sec (header_at mem)) - uint epics_epoch_offset"
  let ?n = "uint (u32_at mem 12) + uint dt"
  obtain s' n' where carry: "carry_ns ?s ?n = (s', n')" by fastforce
  have vt: "value_time (header_at mem) dt = (s', n')"
    using carry by (simp add: value_time_def header_at_def uint_widened)
  have spec: "s' * NANO_PER_SECOND + n' = ?s * NANO_PER_SECOND + ?n" "0 \<le> n'" "n' < NANO_PER_SECOND"
    using carry_ns_spec [of ?n ?s] carry by simp_all
  have pos: "0 \<le> ?n" by simp
  have "?s \<le> s'"
  proof (rule ccontr)
    assume "\<not> ?s \<le> s'"
    then have "(s' + 1) * NANO_PER_SECOND \<le> ?s * NANO_PER_SECOND"
      by (intro mult_right_mono) (auto simp: NANO_PER_SECOND_def)
    then show False using spec pos by (simp add: distrib_right)
  qed
  then obtain c where c: "s' = ?s + int c" using zle_iff_zadd by blast
  have "(of_int ?s :: u32) = u32_at mem 8"
    by (simp add: header_at_def epics_epoch_offset_def uint_widened)
  then have "(of_int s' :: u32) = u32_at mem 8 + of_nat c" using c by simp
  moreover have "uint (of_int n' :: u32) = n'"
    using spec(2,3) by (simp add: NANO_PER_SECOND_def unsigned_of_int take_bit_int_eq_self)
  moreover have "n' + int c * NANO_PER_SECOND = ?n"
    using spec(1) c by (simp add: distrib_right)
  ultimately show ?thesis
    using spec(3) by (intro exI [of _ c]) (simp add: value_packet_header vt)
qed

text \<open>
  A packet with no values is accepted by its constructor, and taking its last value indexes
  the value vector outside its bounds.
\<close>
theorem empty_values_accepted:
  "(\<exists>p. MultVariableU32Pkt (mk_packet MULT_VAR_VALUE_U32_TYPE 0 [1, 2, 0, 0]) = Inr p) \<and>
   prologue_packet junk (mk_packet MULT_VAR_VALUE_U32_TYPE 0 [1, 2, 0, 0]) = Inr None"
proof -
  have "MultVariableU32Pkt (mk_packet MULT_VAR_VALUE_U32_TYPE 0 [1, 2, 0, 0]) =
      Inr (header_at (mk_packet MULT_VAR_VALUE_U32_TYPE 0 [1, 2, 0, 0]),
           var_header_at (mk_packet MULT_VAR_VALUE_U32_TYPE 0 [1, 2, 0, 0]), [])"
    by (simp add: MultVariableU32Pkt_def mk_simps at_least_def check_alarm_def
      mult_pair_bytes_def var_header_at_def validate_status_def
      validate_severity_def variable_statuses_def variable_severities_def)
  then show ?thesis
    by (simp add: prologue_packet_def mk_packet_header extract_u32_def)
qed

section \<open>Witnesses\<close>

theorem prologue_keeps_last_value_witness:
  "\<exists>q. prologue_packet (\<lambda>_. 0) (mk_packet MULT_VAR_VALUE_U32_TYPE 0 [1, 2, 0, 2, 5, 50, 6, 60]) = Inr (Some q) \<and>
     reading q = Some (\<lparr>var_devId = 1, var_varId = 2, var_status = 0, var_severity = 0\<rparr>, V_U32 60)"
proof -
  let ?m = "mk_packet MULT_VAR_VALUE_U32_TYPE 0 [1, 2, 0, 2, 5, 50, 6, 60]"
  have "mult_u32_loop ?m 4 (Suc (Suc 0)) = Inr [(5, 50), (6, 60)]" by (simp add: mk_simps)
  then have loop: "mult_u32_loop ?m 4 2 = Inr [(5, 50), (6, 60)]" by (simp only: numeral_2_eq_2)
  have m: "MultVariableU32Pkt ?m = Inr (header_at ?m,
      \<lparr>var_devId = 1, var_varId = 2, var_status = 0, var_severity = 0\<rparr>, [(5, 50), (6, 60)])"
    using loop by (simp add: MultVariableU32Pkt_def mk_simps at_least_def check_alarm_def
      mult_pair_bytes_def var_header_at_def validate_status_def
      validate_severity_def variable_statuses_def variable_severities_def)
  then obtain q where q: "prologue_packet (\<lambda>_. 0) ?m = Inr (Some q)"
    by (simp add: prologue_packet_def mk_packet_header extract_u32_def)
  have "exact_packet ?m" using mk_packet_in [of _ MULT_VAR_VALUE_U32_TYPE 0] by (simp add: exact_packet_def mk_packet_words)
  from prologue_keeps_last_value [OF this q] have "reading q = reading ?m" by simp
  also have "\<dots> = Some (\<lparr>var_devId = 1, var_varId = 2, var_status = 0, var_severity = 0\<rparr>, V_U32 60)"
    using m reading_kind [OF mk_packet_header(3) [of 0 MULT_VAR_VALUE_U32_TYPE]]
    by (simp add: wrap_obj_def last_of_def)
  finally show ?thesis using q by blast
qed

end
