(* ===== verification/Meta_Data.thy ===== *)
theory Meta_Data
  imports Last_Value "HOL-Library.Finite_Map"
begin

text \<open>
  \<open>MetaDataMgr\<close> (\<open>sms/MetaDataMgr.cc\<close>): the devices of all data sources, each mapped to a device
  identifier of its own in the output stream, with the last value of every variable, so that a
  new file can start with the whole state (the prologue).

  The storage manager is seen through the packets it receives: a file that is due (the current
  one is over its size) is started by the next packet, and starting a file calls back
  \<open>onPrologue\<close>; the size check and the state snapshots are decided by the environment, as functions
  of what was written. A constructor that throws and a value vector indexed outside its bounds
  are errors that escape the operation.
\<close>

unbundle bit_operations_syntax

section \<open>State\<close>

record device_vars =
  dv_devId :: u32
  dv_srcTag :: u32
  dv_descriptor :: bytes
  dv_vars :: "(u32, bytes) fmap"

datatype out_event = File_Start | Prologue bytes | Stored bytes | State_File "bytes list"

record storage =
  out :: "out_event list"
  file_due :: bool

record env =
  over_size :: "out_event list \<Rightarrow> bool"
  snapshot_due :: "out_event list \<Rightarrow> bool"
  stack_junk :: "nat \<Rightarrow> u8"

record meta =
  m_devices :: "(u32, device_vars) fmap"
  m_oldDevices :: "(u32, device_vars) fmap"
  m_devIdMap :: "(u64, u32) fmap"
  m_oldDevIdMap :: "(u64, u32) fmap"
  m_activeDevId :: "u32 fset"
  m_nextMappedDevId :: u32
  store :: storage

datatype meta_error = Packet_Threw pkt_error | Value_Index_Out_Of_Range

definition new_meta :: meta where
  "new_meta =
     \<lparr>m_devices = fmempty, m_oldDevices = fmempty, m_devIdMap = fmempty, m_oldDevIdMap = fmempty,
      m_activeDevId = {||}, m_nextMappedDevId = 1, store = \<lparr>out = [], file_due = True\<rparr>\<rparr>"

text \<open>The entries of a \<open>std::map\<close>, in key order.\<close>

definition entries :: "('k::linorder, 'v) fmap \<Rightarrow> ('k \<times> 'v) list" where
  "entries m = List.map (\<lambda>k. (k, the (fmlookup m k))) (sorted_list_of_fset (fmdom m))"

fun traverse :: "('a \<Rightarrow> 'e + 'b) \<Rightarrow> 'a list \<Rightarrow> 'e + 'b list" where
  "traverse f [] = Inr []"
| "traverse f (x # xs) = sbind (f x) (\<lambda>y. sbind (traverse f xs) (\<lambda>ys. Inr (y # ys)))"

section \<open>The prologue\<close>

definition prologue_var :: "(nat \<Rightarrow> u8) \<Rightarrow> u32 \<times> bytes \<Rightarrow> meta_error + (u32 \<times> bytes)" where
  "prologue_var junk vp =
     (case prologue_packet junk (snd vp) of
        Inl e \<Rightarrow> Inl (Packet_Threw e)
      | Inr None \<Rightarrow> Inl Value_Index_Out_Of_Range
      | Inr (Some q) \<Rightarrow> Inr (fst vp, q))"

definition prologue_device ::
    "(nat \<Rightarrow> u8) \<Rightarrow> u32 \<times> device_vars \<Rightarrow> meta_error + (u32 \<times> device_vars)" where
  "prologue_device junk dd =
     sbind (traverse (prologue_var junk) (entries (dv_vars (snd dd)))) (\<lambda>vs.
       Inr (fst dd, (snd dd)\<lparr>dv_vars := fmap_of_list vs\<rparr>))"

definition device_packets :: "device_vars \<Rightarrow> bytes list" where
  "device_packets dv = dv_descriptor dv # List.map snd (entries (dv_vars dv))"

text \<open>\<open>onPrologue\<close>: the packets it writes, and the devices with their packets replaced.\<close>

definition onPrologue ::
    "(nat \<Rightarrow> u8) \<Rightarrow> (u32, device_vars) fmap \<Rightarrow> meta_error + (bytes list \<times> (u32, device_vars) fmap)" where
  "onPrologue junk devs =
     sbind (traverse (prologue_device junk) (entries devs)) (\<lambda>ds.
       Inr (concat (List.map (\<lambda>d. device_packets (snd d)) ds), fmap_of_list ds))"

section \<open>The storage manager, as the meta-data manager uses it\<close>

definition write_out :: "out_event list \<Rightarrow> meta \<Rightarrow> meta" where
  "write_out es M = M\<lparr>store := (store M)\<lparr>out := out (store M) @ es\<rparr>\<rparr>"

definition start_file :: "env \<Rightarrow> meta \<Rightarrow> meta_error + meta" where
  "start_file E M =
     sbind (onPrologue (stack_junk E) (m_devices M)) (\<lambda>r.
       Inr ((write_out (File_Start # List.map Prologue (fst r)) M)
         \<lparr>m_devices := snd r,
          store := \<lparr>out = out (store M) @ File_Start # List.map Prologue (fst r), file_due = False\<rparr>\<rparr>))"

definition notify :: "env \<Rightarrow> meta \<Rightarrow> meta" where
  "notify E M = M\<lparr>store := (store M)\<lparr>file_due := file_due (store M) \<or> over_size E (out (store M))\<rparr>\<rparr>"

definition state_snapshot :: "env \<Rightarrow> meta \<Rightarrow> meta_error + meta" where
  "state_snapshot E M =
     sbind (onPrologue (stack_junk E) (m_devices M)) (\<lambda>r.
       Inr ((write_out [State_File (fst r)] M)\<lparr>m_devices := snd r\<rparr>))"

definition addPacket :: "env \<Rightarrow> bytes \<Rightarrow> bool \<Rightarrow> meta \<Rightarrow> meta_error + meta" where
  "addPacket E p do_notify M =
     sbind (if file_due (store M) then start_file E M else Inr M) (\<lambda>M1.
       let M2 = write_out [Stored p] M1;
           M3 = (if do_notify then notify E M2 else M2) in
       if snapshot_due E (out (store M3)) then state_snapshot E M3 else Inr M3)"

section \<open>Device identifiers\<close>

definition dev_key :: "u32 \<Rightarrow> u32 \<Rightarrow> u64" where
  "dev_key srcTag dev = push_bit 32 (ucast srcTag) OR ucast dev"

definition key_source :: "u64 \<Rightarrow> u64" where
  "key_source k = drop_bit 32 k"

text \<open>0 stands for a device that is not mapped.\<close>

definition lookupMappedDeviceId :: "u32 \<Rightarrow> u32 \<Rightarrow> meta \<Rightarrow> u32" where
  "lookupMappedDeviceId dev srcTag M =
     (case fmlookup (m_devIdMap M) (dev_key srcTag dev) of None \<Rightarrow> 0 | Some d \<Rightarrow> d)"

definition lookupOldMappedDeviceId :: "u32 \<Rightarrow> u32 \<Rightarrow> meta \<Rightarrow> meta \<times> u32 \<times> bool" where
  "lookupOldMappedDeviceId dev srcTag M =
     (let key = dev_key srcTag dev in
      case fmlookup (m_oldDevIdMap M) key of
        None \<Rightarrow> (M, 0, False)
      | Some d \<Rightarrow>
         (let M1 = M\<lparr>m_oldDevIdMap := fmdrop key (m_oldDevIdMap M)\<rparr> in
          case fmlookup (m_oldDevices M) d of
            None \<Rightarrow> (M1, 0, False)
          | Some dv \<Rightarrow>
              (M1\<lparr>m_devices := fmupd d dv (m_devices M1),
                  m_oldDevices := fmdrop d (m_oldDevices M1),
                  m_activeDevId := finsert d (m_activeDevId M1),
                  m_devIdMap := fmupd key d (m_devIdMap M1)\<rparr>, d, True)))"

text \<open>The search for a free identifier; None when every identifier is active.\<close>

partial_function (option) free_id :: "u32 fset \<Rightarrow> u32 \<Rightarrow> u32 option" where
  "free_id active n = (if n |\<in>| active then free_id active (n + 1) else Some n)"

definition allocDev :: "u32 \<Rightarrow> u32 \<Rightarrow> meta \<Rightarrow> (meta \<times> u32 \<times> bool) option" where
  "allocDev dev srcTag M =
     (let d = lookupMappedDeviceId dev srcTag M in
      if d \<noteq> 0 then Some (M, d, False)
      else case lookupOldMappedDeviceId dev srcTag M of (M1, d1, reconnected) \<Rightarrow>
        if d1 \<noteq> 0 then Some (M1, d1, reconnected)
        else
          (let next = (if m_nextMappedDevId M1 = 0 \<or> m_nextMappedDevId M1 \<ge> 0x80000000
                       then 1 else m_nextMappedDevId M1) in
           case free_id (m_activeDevId M1) next of
             None \<Rightarrow> None
           | Some n \<Rightarrow>
               Some (M1\<lparr>m_nextMappedDevId := n + 1,
                        m_activeDevId := finsert n (m_activeDevId M1),
                        m_devIdMap := fmupd (dev_key srcTag dev) n (m_devIdMap M1)\<rparr>,
                     n, reconnected)))"

section \<open>Operations\<close>

text \<open>The result of an operation: None when it does not return, else an error or the new state.\<close>

type_synonym meta_result = "(meta_error + meta) option"

text \<open>The copy of a variable packet that reports the loss of its source.\<close>

definition disconnected_packet :: "bytes \<Rightarrow> bytes" where
  "disconnected_packet p = put_fld p 2 (push_bit 16 0xfffe OR 3)"

fun upstreamDisconnected :: "env \<Rightarrow> u32 \<Rightarrow> u32 list \<Rightarrow> meta \<Rightarrow> meta_error + meta" where
  "upstreamDisconnected E d [] M = Inr M"
| "upstreamDisconnected E d (v # vs) M =
     (case Option.bind (fmlookup (m_devices M) d) (\<lambda>dv. fmlookup (dv_vars dv) v) of
        None \<Rightarrow> upstreamDisconnected E d vs M
      | Some p \<Rightarrow>
          sbind (addPacket E (disconnected_packet p) False M) (upstreamDisconnected E d vs))"

definition drop_device :: "u32 \<Rightarrow> u32 \<Rightarrow> meta \<Rightarrow> meta" where
  "drop_device srcTag d M =
     (case fmlookup (m_devices M) d of
        None \<Rightarrow> M
      | Some dv \<Rightarrow>
          M\<lparr>m_oldDevIdMap := fmupd (dev_key srcTag (dv_devId dv)) d (m_oldDevIdMap M),
            m_oldDevices := fmupd d (dv\<lparr>dv_vars := fmempty\<rparr>) (m_oldDevices M),
            m_devices := fmdrop d (m_devices M)\<rparr>)"

fun drop_devices :: "env \<Rightarrow> u32 \<Rightarrow> u32 list \<Rightarrow> meta \<times> bool \<Rightarrow> meta_error + (meta \<times> bool)" where
  "drop_devices E srcTag [] Mb = Inr Mb"
| "drop_devices E srcTag (d # ds) Mb =
     (case fmlookup (m_devices (fst Mb)) d of
        None \<Rightarrow> drop_devices E srcTag ds Mb
      | Some dv \<Rightarrow>
          (if dv_srcTag dv = srcTag
           then sbind (upstreamDisconnected E d (List.map fst (entries (dv_vars dv))) (fst Mb)) (\<lambda>M1.
                  drop_devices E srcTag ds (drop_device srcTag d M1, True))
           else drop_devices E srcTag ds Mb))"

definition drop_ids :: "u32 \<Rightarrow> meta \<Rightarrow> meta" where
  "drop_ids srcTag M =
     (let gone = fmfilter (\<lambda>k. key_source k = ucast srcTag) (m_devIdMap M) in
      M\<lparr>m_activeDevId := m_activeDevId M |-| fmran gone,
        m_devIdMap := fmfilter (\<lambda>k. key_source k \<noteq> ucast srcTag) (m_devIdMap M)\<rparr>)"

definition dropSourceTag :: "env \<Rightarrow> u32 \<Rightarrow> meta \<Rightarrow> meta_error + meta" where
  "dropSourceTag E srcTag M =
     sbind (drop_devices E srcTag (List.map fst (entries (m_devices M))) (M, False)) (\<lambda>Mb.
       Inr (drop_ids srcTag (if snd Mb then notify E (fst Mb) else fst Mb)))"

text \<open>The descriptor packet of a device: identifier and description.\<close>

definition ddp_devId :: "bytes \<Rightarrow> u32" where
  "ddp_devId p = fld p 0"

definition ddp_description :: "bytes \<Rightarrow> bytes" where
  "ddp_description p = take (unat (fld p 1)) (drop 24 p)"

definition store_descriptor :: "env \<Rightarrow> bytes \<Rightarrow> u32 \<Rightarrow> u32 \<Rightarrow> meta \<Rightarrow> meta_error + meta" where
  "store_descriptor E p srcTag d M =
     (let q = remapDeviceId d p in
      sbind (addPacket E q True M) (\<lambda>M1.
        Inr (M1\<lparr>m_devices := fmupd d
          \<lparr>dv_devId = ddp_devId p, dv_srcTag = srcTag, dv_descriptor = q,
           dv_vars = (case fmlookup (m_devices M1) d of None \<Rightarrow> fmempty | Some dv \<Rightarrow> dv_vars dv)\<rparr>
          (m_devices M1)\<rparr>)))"

definition updateDescriptor :: "env \<Rightarrow> bytes \<Rightarrow> u32 \<Rightarrow> meta \<Rightarrow> meta_result" where
  "updateDescriptor E p srcTag M =
     (case allocDev (ddp_devId p) srcTag M of
        None \<Rightarrow> None
      | Some (M1, d, reconnected) \<Rightarrow>
         Some
          (case fmlookup (m_devices M1) d of
             None \<Rightarrow> store_descriptor E p srcTag d M1
           | Some dv \<Rightarrow>
              (if dv_srcTag dv \<noteq> srcTag then Inr M1
               else if packet_length (header_at (dv_descriptor dv)) = packet_length (header_at p) \<and>
                       ddp_description (dv_descriptor dv) = ddp_description p
               then (if reconnected then addPacket E (dv_descriptor dv) True M1 else Inr M1)
               else
                (let M2 = M1\<lparr>m_devices := fmdrop d (m_devices M1)\<rparr> in
                 if ddp_description p = [] then Inr M2
                 else store_descriptor E p srcTag d M2))))"

definition updateVariable :: "env \<Rightarrow> u32 \<Rightarrow> u32 \<Rightarrow> bytes \<Rightarrow> u32 \<Rightarrow> meta \<Rightarrow> meta_error + meta" where
  "updateVariable E d varId p srcTag M =
     (case fmlookup (m_devices M) d of
        None \<Rightarrow> Inr M
      | Some dv \<Rightarrow>
         (if dv_srcTag dv \<noteq> srcTag then Inr M
          else
           sbind (addPacket E p True
             (M\<lparr>m_devices := fmupd d (dv\<lparr>dv_vars := fmdrop varId (dv_vars dv)\<rparr>) (m_devices M)\<rparr>)) (\<lambda>M1.
           Inr (case fmlookup (m_devices M1) d of
                  None \<Rightarrow> M1
                | Some dv1 \<Rightarrow>
                    M1\<lparr>m_devices := fmupd d (dv1\<lparr>dv_vars := fmupd varId p (dv_vars dv1)\<rparr>)
                         (m_devices M1)\<rparr>))))"

text \<open>The ten overloads of \<open>updateValue\<close>, which differ in the class of the packet only.\<close>

definition updateValue :: "env \<Rightarrow> bytes \<Rightarrow> u32 \<Rightarrow> meta \<Rightarrow> meta_error + meta" where
  "updateValue E p srcTag M =
     (let d = lookupMappedDeviceId (fld p 0) srcTag M in
      if d = 0 then Inr M
      else updateVariable E d (fld p 1) (remapDeviceId d p) srcTag M)"

definition updateMappedVariable :: "env \<Rightarrow> u32 \<Rightarrow> u32 \<Rightarrow> bytes \<Rightarrow> meta \<Rightarrow> meta_error + meta" where
  "updateMappedVariable E d varId p M = updateVariable E d varId p 0 M"

text \<open>The descriptor packet the service makes for a device of its own.\<close>

definition fast_ddp :: "u32 \<Rightarrow> u32 \<Rightarrow> u32 \<Rightarrow> bytes \<Rightarrow> bytes" where
  "fast_ddp sec nsec d ddp =
     (let padded = (length ddp + 3) div 4 * 4 in
      words_bytes [of_nat (padded + 8), adara_pkt_type (type_code DEVICE_DESC_TYPE) (current_version DEVICE_DESC_TYPE),
        sec - epics_epoch_offset, nsec, d, of_nat (length ddp)] @ ddp @ replicate (padded - length ddp) 0)"

definition addFastMetaDDP :: "env \<Rightarrow> bool \<Rightarrow> u32 \<Rightarrow> u32 \<Rightarrow> u32 \<Rightarrow> bytes \<Rightarrow> meta \<Rightarrow> meta_error + meta" where
  "addFastMetaDDP E streaming sec nsec d ddp M =
     (case fmlookup (m_devices M) d of
        Some dv \<Rightarrow> Inr M
      | None \<Rightarrow>
         (let p = fast_ddp sec nsec d ddp in
          sbind (if streaming then addPacket E p True M else Inr M) (\<lambda>M1.
            Inr (M1\<lparr>m_devices := fmupd d
              \<lparr>dv_devId = - 1, dv_srcTag = 0, dv_descriptor = p, dv_vars = fmempty\<rparr> (m_devices M1)\<rparr>))))"

section \<open>Entries and the prologue\<close>

lemma distinct_fset_list [simp]: "distinct (sorted_list_of_fset X)"
  by (simp add: sorted_list_of_fset.rep_eq)

lemma entries_keys: "List.map fst (entries m) = sorted_list_of_fset (fmdom m)"
  by (simp add: entries_def comp_def)

lemma distinct_entries: "distinct (List.map fst (entries m))"
  by (simp add: entries_keys distinct_fset_list)

lemma in_entries: "(k, v) \<in> set (entries m) \<longleftrightarrow> fmlookup m k = Some v"
  by (auto simp: entries_def fmlookup_dom_iff fmdom_notI)

lemma entries_of_list:
  assumes "List.map fst xs = sorted_list_of_fset (fmdom (fmap_of_list xs))"
  shows "entries (fmap_of_list xs) = xs"
proof -
  have dist: "distinct (List.map fst xs)" unfolding assms by simp
  have "entries (fmap_of_list xs) = List.map (\<lambda>k. (k, the (map_of xs k))) (List.map fst xs)"
    unfolding entries_def assms by (simp add: fmlookup_of_list)
  also have "\<dots> = List.map (\<lambda>x. (fst x, the (map_of xs (fst x)))) xs" by simp
  also have "\<dots> = xs"
    by (rule map_idI) (use dist in \<open>auto simp: map_of_eq_Some_iff\<close>)
  finally show ?thesis .
qed

lemma traverse_Inr: "traverse f xs = Inr ys \<longleftrightarrow> list_all2 (\<lambda>x y. f x = Inr y) xs ys"
  by (induction xs arbitrary: ys) (auto simp: sbind_eq_Inr list_all2_Cons1)

lemma traverse_keys:
  assumes "traverse f xs = Inr ys" and "\<And>x y. f x = Inr y \<Longrightarrow> fst y = fst x"
  shows "List.map fst ys = List.map fst xs"
  using assms(1) unfolding traverse_Inr
  by (induction rule: list_all2_induct) (auto dest: assms(2))

lemma traverse_entries:
  assumes tr: "traverse f (entries m) = Inr ys"
    and keys: "\<And>x y. f x = Inr y \<Longrightarrow> fst y = fst x"
  shows "fmlookup (fmap_of_list ys) k = Some w \<longleftrightarrow> (\<exists>v. fmlookup m k = Some v \<and> f (k, v) = Inr (k, w))"
proof -
  have dist: "distinct (List.map fst ys)"
    using traverse_keys [OF tr keys] distinct_entries [of m] by simp
  have mem: "(k, w) \<in> set ys \<longleftrightarrow> (\<exists>v. (k, v) \<in> set (entries m) \<and> f (k, v) = Inr (k, w))"
  proof
    assume "(k, w) \<in> set ys"
    then obtain i where i: "i < length ys" "ys ! i = (k, w)" by (auto simp: in_set_conv_nth)
    have "i < length (entries m)" "f (entries m ! i) = Inr (k, w)"
      using list_all2_nthD2 [OF tr [unfolded traverse_Inr] i(1)] i
        list_all2_lengthD [OF tr [unfolded traverse_Inr]] by simp_all
    then have "entries m ! i \<in> set (entries m)" "f (entries m ! i) = Inr (k, w)" by simp_all
    then show "\<exists>v. (k, v) \<in> set (entries m) \<and> f (k, v) = Inr (k, w)"
      using keys by (metis fst_conv prod.collapse)
  next
    assume "\<exists>v. (k, v) \<in> set (entries m) \<and> f (k, v) = Inr (k, w)"
    then obtain v i where i: "i < length (entries m)" "entries m ! i = (k, v)" and f: "f (k, v) = Inr (k, w)"
      by (auto simp: in_set_conv_nth)
    then have "f (entries m ! i) = Inr (ys ! i)" and "i < length ys"
      using list_all2_nthD [OF tr [unfolded traverse_Inr] i(1)] list_all2_lengthD [OF tr [unfolded traverse_Inr]]
      by simp_all
    then have "ys ! i = (k, w)" "i < length ys" using i(2) f by simp_all
    then show "(k, w) \<in> set ys" by (metis nth_mem)
  qed
  have "fmlookup (fmap_of_list ys) k = Some w \<longleftrightarrow> (k, w) \<in> set ys"
    using dist by (simp add: fmlookup_of_list map_of_eq_Some_iff)
  then show ?thesis using mem in_entries by metis
qed

lemma traverse_fmdom:
  assumes "traverse f (entries m) = Inr ys" and "\<And>x y. f x = Inr y \<Longrightarrow> fst y = fst x"
  shows "fmdom (fmap_of_list ys) = fmdom m"
proof -
  have "set (List.map fst ys) = set (List.map fst (entries m))"
    using traverse_keys [OF assms] by simp
  also have "\<dots> = fset (fmdom m)" by (simp add: entries_keys)
  finally show ?thesis by (auto simp: fset_of_list.rep_eq fset_eq_iff)
qed

lemma prologue_var_fst: "prologue_var junk x = Inr y \<Longrightarrow> fst y = fst x"
  by (auto simp: prologue_var_def split: sum.splits option.splits)

lemma prologue_var_snd: "prologue_var junk (v, p) = Inr (v, q) \<longleftrightarrow> prologue_packet junk p = Inr (Some q)"
  by (auto simp: prologue_var_def split: sum.splits option.splits)

lemma prologue_device_fst: "prologue_device junk x = Inr y \<Longrightarrow> fst y = fst x"
  by (auto simp: prologue_device_def sbind_eq_Inr)

text \<open>What a prologue does to the devices: only the packets change, each to its single-value form.\<close>

definition dev_prologued :: "(nat \<Rightarrow> u8) \<Rightarrow> device_vars \<Rightarrow> device_vars \<Rightarrow> bool" where
  "dev_prologued junk dv dv' \<longleftrightarrow>
     dv_devId dv' = dv_devId dv \<and> dv_srcTag dv' = dv_srcTag dv \<and>
     dv_descriptor dv' = dv_descriptor dv \<and> fmdom (dv_vars dv') = fmdom (dv_vars dv) \<and>
     (\<forall>v q. fmlookup (dv_vars dv') v = Some q \<longleftrightarrow>
        (\<exists>p. fmlookup (dv_vars dv) v = Some p \<and> prologue_packet junk p = Inr (Some q)))"

lemma prologue_device_spec:
  assumes "prologue_device junk (d, dv) = Inr (d, dv')"
  shows "dev_prologued junk dv dv'"
proof -
  obtain vs where tr: "traverse (prologue_var junk) (entries (dv_vars dv)) = Inr vs"
    and dv': "dv' = dv\<lparr>dv_vars := fmap_of_list vs\<rparr>"
    using assms by (auto simp: prologue_device_def sbind_eq_Inr)
  show ?thesis
    using traverse_entries [OF tr prologue_var_fst] traverse_fmdom [OF tr prologue_var_fst]
    by (simp add: dev_prologued_def dv' prologue_var_snd)
qed

lemma onPrologue_spec:
  assumes "onPrologue junk devs = Inr (ps, devs')"
  shows "fmdom devs' = fmdom devs"
    and "fmlookup devs d = Some dv \<Longrightarrow> \<exists>dv'. fmlookup devs' d = Some dv' \<and> dev_prologued junk dv dv'"
    and "fmlookup devs' d = Some dv' \<Longrightarrow> \<exists>dv. fmlookup devs d = Some dv \<and> dev_prologued junk dv dv'"
    and "ps = concat (List.map (\<lambda>d. device_packets (snd d)) (entries devs'))"
proof -
  obtain ds where tr: "traverse (prologue_device junk) (entries devs) = Inr ds"
    and devs': "devs' = fmap_of_list ds" and ps: "ps = concat (List.map (\<lambda>d. device_packets (snd d)) ds)"
    using assms by (auto simp: onPrologue_def sbind_eq_Inr)
  note look = traverse_entries [OF tr prologue_device_fst]
  show dom: "fmdom devs' = fmdom devs" using traverse_fmdom [OF tr prologue_device_fst] devs' by simp
  show iff: "fmlookup devs' d = Some dv' \<Longrightarrow> \<exists>dv. fmlookup devs d = Some dv \<and> dev_prologued junk dv dv'" for d dv'
    using look prologue_device_spec by (auto simp: devs')
  show "fmlookup devs d = Some dv \<Longrightarrow> \<exists>dv'. fmlookup devs' d = Some dv' \<and> dev_prologued junk dv dv'" for d dv
    using iff dom by (metis fmdomI fmdom_notD fmlookup_dom_iff option.inject)
  have keys: "List.map fst ds = sorted_list_of_fset (fmdom devs)"
    using traverse_keys [OF tr prologue_device_fst] by (simp add: entries_keys)
  have "entries devs' = ds"
    using entries_of_list [of ds] keys dom devs' by simp
  then show "ps = concat (List.map (\<lambda>d. device_packets (snd d)) (entries devs'))" by (simp add: ps)
qed

section \<open>Single-value forms\<close>

text \<open>
  The variable a packet is an update of. \<open>settles p q\<close>: \<open>q\<close> is \<open>p\<close> itself or the single-value packet
  a prologue made of it.
\<close>

definition var_kinds :: "u32 set" where
  "var_kinds = {0x8001, 0x8002, 0x8003, 0x8004, 0x8005, 0x8101, 0x8102, 0x8103, 0x8104, 0x8105}"

definition var_key :: "bytes \<Rightarrow> (u32 \<times> u32) option" where
  "var_key p = (if base_type (header_at p) \<in> var_kinds then Some (fld p 0, fld p 1) else None)"

definition desc_key :: "bytes \<Rightarrow> u32 option" where
  "desc_key p = (if base_type (header_at p) = type_code DEVICE_DESC_TYPE then Some (fld p 0) else None)"

definition settles :: "bytes \<Rightarrow> bytes \<Rightarrow> bool" where
  "settles p q \<longleftrightarrow> q = p \<or> (\<exists>junk. prologue_packet junk p = Inr (Some q))"

lemma check_alarm_header: "check_alarm mem = Inr vh \<Longrightarrow> vh = var_header_at mem"
  by (auto simp: check_alarm_def sbind_eq_Inr split: if_splits)

lemma shape_intro:
  "q = words_bytes (value_words k plen h vh dt) @ rest \<Longrightarrow>
   \<exists>plen dt rest. q = value_packet k plen h vh dt rest"
  by (auto simp: value_packet_def)

lemma extract_shapes:
  "extract_u32 (h, vh, a) = Some q \<Longrightarrow>
     \<exists>plen dt rest. q = value_packet VAR_VALUE_U32_TYPE plen h vh dt rest"
  "extract_double (h, vh, b) = Some q \<Longrightarrow>
     \<exists>plen dt rest. q = value_packet VAR_VALUE_DOUBLE_TYPE plen h vh dt rest"
  "extract_string junk (h, vh, c) = Some q \<Longrightarrow>
     \<exists>plen dt rest. q = value_packet VAR_VALUE_STRING_TYPE plen h vh dt rest"
  "extract_u32_array (h, vh, d) = Some q \<Longrightarrow>
     \<exists>plen dt rest. q = value_packet VAR_VALUE_U32_ARRAY_TYPE plen h vh dt rest"
  "extract_double_array (h, vh, e) = Some q \<Longrightarrow>
     \<exists>plen dt rest. q = value_packet VAR_VALUE_DOUBLE_ARRAY_TYPE plen h vh dt rest"
  by (clarsimp simp: extract_u32_def extract_double_def extract_string_def extract_u32_array_def
      extract_double_array_def words_bytes_append Let_def split: if_splits, rule shape_intro, rule refl)+

lemma mult_header:
  "MultVariableU32Pkt p = Inr (h, vh, a) \<Longrightarrow> vh = var_header_at p"
  "MultVariableDoublePkt p = Inr (h, vh, b) \<Longrightarrow> vh = var_header_at p"
  "MultVariableStringPkt p = Inr (h, vh, c) \<Longrightarrow> vh = var_header_at p"
  "MultVariableU32ArrayPkt p = Inr (h, vh, d) \<Longrightarrow> vh = var_header_at p"
  "MultVariableDoubleArrayPkt p = Inr (h, vh, e) \<Longrightarrow> vh = var_header_at p"
  by (auto simp: MultVariableU32Pkt_def MultVariableDoublePkt_def MultVariableStringPkt_def
      MultVariableU32ArrayPkt_def MultVariableDoubleArrayPkt_def sbind_eq_Inr dest: check_alarm_header)

lemma prologue_packet_shape:
  assumes "prologue_packet junk p = Inr (Some q)" and "q \<noteq> p"
  shows "is_mult p \<and> (\<exists>k plen h dt rest. type_code k \<in> {0x8001, 0x8002, 0x8003, 0x8004, 0x8005} \<and>
      q = value_packet k plen h (var_header_at p) dt rest)"
proof
  show "is_mult p"
    using assms by (auto simp: prologue_packet_def is_mult_def Let_def split: if_splits)
  from assms consider
      h a where "extract_u32 (h, var_header_at p, a) = Some q"
    | h b where "extract_double (h, var_header_at p, b) = Some q"
    | h c where "extract_string junk (h, var_header_at p, c) = Some q"
    | h d where "extract_u32_array (h, var_header_at p, d) = Some q"
    | h e where "extract_double_array (h, var_header_at p, e) = Some q"
    by (auto simp: prologue_packet_def sbind_eq_Inr Let_def dest: mult_header split: if_splits)
  then have "\<exists>k \<in> {VAR_VALUE_U32_TYPE, VAR_VALUE_DOUBLE_TYPE, VAR_VALUE_STRING_TYPE,
      VAR_VALUE_U32_ARRAY_TYPE, VAR_VALUE_DOUBLE_ARRAY_TYPE}. \<exists>plen h dt rest.
      q = value_packet k plen h (var_header_at p) dt rest"
    by cases (blast dest: extract_shapes)+
  then obtain k plen h dt rest where k: "k \<in> {VAR_VALUE_U32_TYPE, VAR_VALUE_DOUBLE_TYPE,
      VAR_VALUE_STRING_TYPE, VAR_VALUE_U32_ARRAY_TYPE, VAR_VALUE_DOUBLE_ARRAY_TYPE}"
    and q: "q = value_packet k plen h (var_header_at p) dt rest" by blast
  have "type_code k \<in> {0x8001, 0x8002, 0x8003, 0x8004, 0x8005}" using k by auto
  with q show "\<exists>k plen h dt rest. type_code k \<in> {0x8001, 0x8002, 0x8003, 0x8004, 0x8005} \<and>
      q = value_packet k plen h (var_header_at p) dt rest" by blast
qed

lemma value_packet_single:
  assumes "type_code k \<in> {0x8001, 0x8002, 0x8003, 0x8004, 0x8005}"
  shows "\<not> is_mult (value_packet k plen h vh dt rest)"
    and "var_key (value_packet k plen h vh dt rest) = Some (var_devId vh, var_varId vh)"
  using assms by (auto simp: is_mult_def var_key_def var_kinds_def value_packet_header
      value_packet_fields [unfolded One_nat_def])

lemma not_mult_prologue: "\<not> is_mult p \<Longrightarrow> prologue_packet junk p = Inr (Some p)"
  by (simp add: prologue_packet_def is_mult_def Let_def)

lemma settles_refl [simp]: "settles p p"
  by (simp add: settles_def)

lemma settles_prologue: "prologue_packet junk p = Inr (Some q) \<Longrightarrow> settles p q"
  by (auto simp: settles_def)

lemma settled_fixed:
  assumes "settles p q" and "q \<noteq> p"
  shows "\<not> is_mult q"
  using assms prologue_packet_shape value_packet_single(1) by (metis settles_def)

lemma settles_trans: "settles p q \<Longrightarrow> settles q r \<Longrightarrow> settles p r"
proof -
  assume pq: "settles p q" and qr: "settles q r"
  show "settles p r"
  proof (cases "q = p")
    case False
    then have "prologue_packet junk q = Inr (Some q)" for junk
      using settled_fixed [OF pq] not_mult_prologue by blast
    then have "r = q" using qr by (auto simp: settles_def)
    then show ?thesis using pq by simp
  qed (use qr in simp)
qed

lemma settles_key: "settles p q \<Longrightarrow> var_key q = var_key p"
proof -
  assume "settles p q"
  then consider "q = p" | junk where "prologue_packet junk p = Inr (Some q)" "q \<noteq> p"
    by (auto simp: settles_def)
  then show ?thesis
  proof cases
    case 2
    from prologue_packet_shape [OF 2] obtain k plen h dt rest where
        "is_mult p" "type_code k \<in> {0x8001, 0x8002, 0x8003, 0x8004, 0x8005}"
        "q = value_packet k plen h (var_header_at p) dt rest" by blast
    then show ?thesis
      using value_packet_single(2) [of k plen h "var_header_at p" dt rest]
      by (auto simp: var_key_def [of p] is_mult_def var_kinds_def var_header_at_def)
  qed simp
qed

section \<open>What the storage manager may change\<close>

text \<open>The devices after an operation of the storage manager: the same, but for settled packets.\<close>

definition dev_settles :: "device_vars \<Rightarrow> device_vars \<Rightarrow> bool" where
  "dev_settles dv dv' \<longleftrightarrow>
     dv_devId dv' = dv_devId dv \<and> dv_srcTag dv' = dv_srcTag dv \<and> dv_descriptor dv' = dv_descriptor dv \<and>
     (\<forall>v. rel_option settles (fmlookup (dv_vars dv) v) (fmlookup (dv_vars dv') v))"

definition devices_settle :: "(u32, device_vars) fmap \<Rightarrow> (u32, device_vars) fmap \<Rightarrow> bool" where
  "devices_settle ds ds' \<longleftrightarrow> (\<forall>d. rel_option dev_settles (fmlookup ds d) (fmlookup ds' d))"

definition ids :: "meta \<Rightarrow> (u32, device_vars) fmap \<times> (u64, u32) fmap \<times> (u64, u32) fmap \<times> u32 fset \<times> u32" where
  "ids M = (m_oldDevices M, m_devIdMap M, m_oldDevIdMap M, m_activeDevId M, m_nextMappedDevId M)"

definition stored_step :: "meta \<Rightarrow> meta \<Rightarrow> bool" where
  "stored_step M M' \<longleftrightarrow> ids M' = ids M \<and> devices_settle (m_devices M) (m_devices M')"

lemma dev_settles_refl [simp]: "dev_settles dv dv"
  by (simp add: dev_settles_def option.rel_refl)

lemma rel_option_trans_step:
  "rel_option R a b \<Longrightarrow> rel_option R b c \<Longrightarrow> (\<And>x y z. R x y \<Longrightarrow> R y z \<Longrightarrow> R x z) \<Longrightarrow> rel_option R a c"
  by (cases a; cases b; cases c) auto

lemma dev_settles_trans: "dev_settles a b \<Longrightarrow> dev_settles b c \<Longrightarrow> dev_settles a c"
  by (auto simp: dev_settles_def intro: rel_option_trans_step settles_trans)

lemma stored_step_refl [simp]: "stored_step M M"
  by (simp add: stored_step_def devices_settle_def option.rel_refl)

lemma stored_step_trans: "stored_step a b \<Longrightarrow> stored_step b c \<Longrightarrow> stored_step a c"
  by (auto simp: stored_step_def devices_settle_def intro: rel_option_trans_step dev_settles_trans)

lemma prologued_settles:
  assumes "dev_prologued junk dv dv'"
  shows "dev_settles dv dv'"
proof -
  have "rel_option settles (fmlookup (dv_vars dv) v) (fmlookup (dv_vars dv') v)" for v
  proof (cases "fmlookup (dv_vars dv') v")
    case None
    have "fmdom (dv_vars dv') = fmdom (dv_vars dv)" using assms by (simp add: dev_prologued_def)
    then have "v |\<notin>| fmdom (dv_vars dv)" using fmdom_notI [OF None] by simp
    then have "fmlookup (dv_vars dv) v = None" by (rule fmdom_notD)
    then show ?thesis using None by simp
  next
    case (Some q)
    then obtain p where "fmlookup (dv_vars dv) v = Some p" "prologue_packet junk p = Inr (Some q)"
      using assms by (auto simp: dev_prologued_def)
    then show ?thesis using Some settles_prologue by simp
  qed
  then show ?thesis using assms by (simp add: dev_settles_def dev_prologued_def)
qed

lemma onPrologue_settles:
  assumes "onPrologue junk ds = Inr (ps, ds')"
  shows "devices_settle ds ds'"
proof -
  have "rel_option dev_settles (fmlookup ds d) (fmlookup ds' d)" for d
  proof (cases "fmlookup ds d")
    case None
    then have "d |\<notin>| fmdom ds'" using onPrologue_spec(1) [OF assms] fmdom_notI [OF None] by simp
    then have "fmlookup ds' d = None" by (rule fmdom_notD)
    then show ?thesis using None by simp
  next
    case (Some dv)
    then show ?thesis using onPrologue_spec(2) [OF assms Some] prologued_settles by auto
  qed
  then show ?thesis by (simp add: devices_settle_def)
qed

lemma stored_stepI:
  "ids M' = ids M \<Longrightarrow> devices_settle (m_devices M) (m_devices M') \<Longrightarrow> stored_step M M'"
  by (simp add: stored_step_def)

lemma start_file_step: "start_file E M = Inr M' \<Longrightarrow> stored_step M M'"
  by (rule stored_stepI)
    (auto simp: start_file_def sbind_eq_Inr ids_def write_out_def intro: onPrologue_settles)

lemma state_snapshot_step: "state_snapshot E M = Inr M' \<Longrightarrow> stored_step M M'"
  by (rule stored_stepI)
    (auto simp: state_snapshot_def sbind_eq_Inr ids_def write_out_def intro: onPrologue_settles)

lemma write_out_step: "stored_step M (write_out es M)" and notify_step: "stored_step M (notify E M)"
  by (simp_all add: stored_step_def ids_def write_out_def notify_def devices_settle_def option.rel_refl)

lemma addPacket_step: "addPacket E p n M = Inr M' \<Longrightarrow> stored_step M M'"
proof -
  assume "addPacket E p n M = Inr M'"
  then obtain M1 where first: "(if file_due (store M) then start_file E M else Inr M) = Inr M1"
    and rest: "(let M2 = write_out [Stored p] M1; M3 = (if n then notify E M2 else M2) in
       if snapshot_due E (out (store M3)) then state_snapshot E M3 else Inr M3) = Inr M'"
    by (auto simp: addPacket_def sbind_eq_Inr)
  let ?M3 = "if n then notify E (write_out [Stored p] M1) else write_out [Stored p] M1"
  have a: "stored_step M M1"
    using first start_file_step by (cases "file_due (store M)") auto
  have b: "stored_step M1 ?M3"
    using stored_step_trans [OF write_out_step notify_step] write_out_step by simp
  have c: "stored_step ?M3 M'"
    using rest state_snapshot_step by (auto simp: Let_def split: if_splits)
  show ?thesis by (rule stored_step_trans [OF a stored_step_trans [OF b c]])
qed

end
