(* ===== verification/Meta_Ids.thy ===== *)
theory Meta_Ids
  imports Meta_Data
begin

text \<open>
  The identifiers of the output stream (\<open>MetaDataMgr::allocDev\<close>, \<open>lookupOldMappedDeviceId\<close>,
  \<open>dropSourceTag\<close>): the runs of the meta-data manager, and what holds of the identifier maps at every
  point of a run in which the identifiers have not been used up.
\<close>

unbundle bit_operations_syntax

section \<open>Keys\<close>

lemma key_source_dev_key [simp]: "key_source (dev_key s d) = ucast s"
  unfolding key_source_def dev_key_def by (rule bit_word_eqI) (auto simp: bit_simps dest: bit_imp_le_length)

lemma dev_key_low: "(ucast (dev_key s d) :: u32) = d"
  unfolding dev_key_def by (rule bit_word_eqI) (auto simp: bit_simps dest: bit_imp_le_length)

lemma ucast_u32_u64: "(ucast (ucast (s :: u32) :: u64) :: u32) = s"
  by (rule bit_word_eqI) (auto simp: bit_simps dest: bit_imp_le_length)

lemma ucast_u64_inj: "(ucast (s :: u32) :: u64) = ucast s' \<longleftrightarrow> s = s'"
  by (metis ucast_u32_u64)

lemma dev_key_inj [simp]: "dev_key s d = dev_key s' d' \<longleftrightarrow> s = s' \<and> d = d'"
  by (metis key_source_dev_key dev_key_low ucast_u32_u64)

section \<open>Runs of the manager\<close>

text \<open>
  A step is one call of the control part of the service (\<open>SMSControl\<close>, \<open>DataSource\<close>, \<open>FastMeta\<close>), or a
  packet or a file end of another component. Data sources have tags from 1; tag 0 and the
  identifiers from \<open>0x80000000\<close> are those of the service. The packets have passed the parser.
\<close>

definition accepted_var :: "bytes \<Rightarrow> bool" where
  "accepted_var p \<longleftrightarrow> var_key p \<noteq> None \<and> 32 \<le> length p"

definition accepted_ddp :: "bytes \<Rightarrow> bool" where
  "accepted_ddp p \<longleftrightarrow> desc_key p \<noteq> None \<and> 24 \<le> length p"

inductive meta_op :: "env \<Rightarrow> meta \<Rightarrow> meta \<Rightarrow> bool" for E where
  descriptor: "\<lbrakk>srcTag \<noteq> 0; accepted_ddp p; updateDescriptor E p srcTag M = Some (Inr M')\<rbrakk> \<Longrightarrow> meta_op E M M'"
| val: "\<lbrakk>srcTag \<noteq> 0; accepted_var p; updateValue E p srcTag M = Inr M'\<rbrakk> \<Longrightarrow> meta_op E M M'"
| disconnect: "\<lbrakk>srcTag \<noteq> 0; dropSourceTag E srcTag M = Inr M'\<rbrakk> \<Longrightarrow> meta_op E M M'"
| own_id: "allocDev dev 0 M = Some (M', d, r) \<Longrightarrow> meta_op E M M'"
| own_device: "\<lbrakk>d \<ge> 0x80000000 \<or> fmlookup (m_devIdMap M) (dev_key 0 dev) = Some d;
    length ddp < 0x80000000; streaming \<or> out (store M) = []; addFastMetaDDP E streaming sec nsec d ddp M = Inr M'\<rbrakk> \<Longrightarrow> meta_op E M M'"
| own_value: "\<lbrakk>accepted_var p; var_key p = Some (d, v); updateMappedVariable E d v p M = Inr M'\<rbrakk> \<Longrightarrow> meta_op E M M'"
| other_packet: "\<lbrakk>var_key p = None; desc_key p = None; addPacket E p n M = Inr M'\<rbrakk> \<Longrightarrow> meta_op E M M'"
| file_end: "M' = M\<lparr>store := (store M)\<lparr>file_due := True\<rparr>\<rparr> \<Longrightarrow> meta_op E M M'"

inductive meta_path :: "env \<Rightarrow> meta \<Rightarrow> nat \<Rightarrow> meta \<Rightarrow> bool" for E M0 where
  start: "meta_path E M0 0 M0"
| step: "\<lbrakk>meta_path E M0 n M; meta_op E M M'\<rbrakk> \<Longrightarrow> meta_path E M0 (Suc n) M'"

abbreviation meta_run :: "env \<Rightarrow> nat \<Rightarrow> meta \<Rightarrow> bool" where
  "meta_run E \<equiv> meta_path E new_meta"

section \<open>The invariant\<close>

text \<open>
  While the devices of a source are dropped, its identifiers are in the active map and in the old
  one; \<open>T\<close> is the source being dropped.
\<close>

definition active_ok :: "(u64 \<Rightarrow> bool) \<Rightarrow> meta \<Rightarrow> u64 \<Rightarrow> u32 \<Rightarrow> bool" where
  "active_ok T M k d \<longleftrightarrow>
     d |\<in>| m_activeDevId M \<and> 0 < d \<and> (T (key_source k) \<or> fmlookup (m_oldDevIdMap M) k = None) \<and>
     (\<forall>k'. k' \<noteq> k \<longrightarrow> fmlookup (m_devIdMap M) k' \<noteq> Some d)"

definition old_ok :: "(u64 \<Rightarrow> bool) \<Rightarrow> meta \<Rightarrow> u64 \<Rightarrow> u32 \<Rightarrow> bool" where
  "old_ok T M k d \<longleftrightarrow>
     (d |\<notin>| m_activeDevId M \<or> T (key_source k) \<and> fmlookup (m_devIdMap M) k = Some d) \<and>
     0 < d \<and> d < m_nextMappedDevId M \<and>
     (\<exists>dv. fmlookup (m_oldDevices M) d = Some dv \<and> dv_srcTag dv \<noteq> 0 \<and>
        k = dev_key (dv_srcTag dv) (dv_devId dv))"

definition device_ok :: "meta \<Rightarrow> u32 \<Rightarrow> device_vars \<Rightarrow> bool" where
  "device_ok M d dv \<longleftrightarrow>
     (if dv_srcTag dv = 0 then d \<ge> 0x80000000 \<or> (\<exists>dev. fmlookup (m_devIdMap M) (dev_key 0 dev) = Some d)
      else fmlookup (m_devIdMap M) (dev_key (dv_srcTag dv) (dv_devId dv)) = Some d)"

definition id_inv_in :: "(u64 \<Rightarrow> bool) \<Rightarrow> meta \<Rightarrow> bool" where
  "id_inv_in T M \<longleftrightarrow>
     0 < m_nextMappedDevId M \<and> m_nextMappedDevId M \<le> 0x80000000 \<and>
     (\<forall>d. d |\<in>| m_activeDevId M \<longrightarrow> d < m_nextMappedDevId M) \<and>
     (\<forall>k d. fmlookup (m_devIdMap M) k = Some d \<longrightarrow> active_ok T M k d) \<and>
     (\<forall>k d. fmlookup (m_oldDevIdMap M) k = Some d \<longrightarrow> old_ok T M k d) \<and>
     (\<forall>d dv. fmlookup (m_devices M) d = Some dv \<longrightarrow> device_ok M d dv)"

abbreviation id_inv :: "meta \<Rightarrow> bool" where
  "id_inv \<equiv> id_inv_in (\<lambda>s. False)"

lemmas id_inv_defs = id_inv_in_def active_ok_def old_ok_def device_ok_def

lemma id_inv_inI [intro?]:
  assumes "0 < m_nextMappedDevId M" and "m_nextMappedDevId M \<le> 0x80000000"
    and "\<And>d. d |\<in>| m_activeDevId M \<Longrightarrow> d < m_nextMappedDevId M"
    and "\<And>k d. fmlookup (m_devIdMap M) k = Some d \<Longrightarrow> active_ok T M k d"
    and "\<And>k d. fmlookup (m_oldDevIdMap M) k = Some d \<Longrightarrow> old_ok T M k d"
    and "\<And>d dv. fmlookup (m_devices M) d = Some dv \<Longrightarrow> device_ok M d dv"
  shows "id_inv_in T M"
  using assms by (simp add: id_inv_in_def)

lemma id_inv_inD:
  assumes "id_inv_in T M"
  shows "0 < m_nextMappedDevId M" and "m_nextMappedDevId M \<le> 0x80000000"
    and "d |\<in>| m_activeDevId M \<Longrightarrow> d < m_nextMappedDevId M"
    and "fmlookup (m_devIdMap M) k = Some d \<Longrightarrow> active_ok T M k d"
    and "fmlookup (m_oldDevIdMap M) k = Some d \<Longrightarrow> old_ok T M k d"
    and "fmlookup (m_devices M) d = Some dv \<Longrightarrow> device_ok M d dv"
  using assms by (simp_all add: id_inv_in_def)

lemma id_inv_new: "id_inv new_meta"
  by (simp add: id_inv_defs new_meta_def)

lemma devices_settle_lookup:
  assumes "devices_settle ds ds'" and "fmlookup ds' d = Some dv'"
  shows "\<exists>dv. fmlookup ds d = Some dv \<and> dev_settles dv dv'"
  using assms(1) [unfolded devices_settle_def, rule_format, of d] assms(2)
  by (auto simp: rel_option_iff split: option.splits)

lemma stored_step_ids:
  assumes "stored_step M M'"
  shows "m_oldDevices M' = m_oldDevices M" "m_devIdMap M' = m_devIdMap M"
    "m_oldDevIdMap M' = m_oldDevIdMap M" "m_activeDevId M' = m_activeDevId M"
    "m_nextMappedDevId M' = m_nextMappedDevId M"
  using assms by (simp_all add: stored_step_def ids_def)

lemma id_inv_stored:
  assumes "id_inv_in T M" and step: "stored_step M M'"
  shows "id_inv_in T M'"
proof (rule id_inv_inI)
  note D = id_inv_inD [OF assms(1)] and same = stored_step_ids [OF step]
  show "0 < m_nextMappedDevId M'" "m_nextMappedDevId M' \<le> 0x80000000"
    unfolding same by (fact D(1), fact D(2))
  show "d < m_nextMappedDevId M'" if "d |\<in>| m_activeDevId M'" for d
    using that unfolding same by (rule D(3))
  show "active_ok T M' k d" if "fmlookup (m_devIdMap M') k = Some d" for k d
    using D(4) [of k d] that by (simp add: same active_ok_def)
  show "old_ok T M' k d" if "fmlookup (m_oldDevIdMap M') k = Some d" for k d
    using D(5) [of k d] that by (simp add: same old_ok_def)
  show "device_ok M' d dv'" if at: "fmlookup (m_devices M') d = Some dv'" for d dv'
  proof -
    obtain dv where "fmlookup (m_devices M) d = Some dv" and "dev_settles dv dv'"
      using devices_settle_lookup [OF _ at] step by (auto simp: stored_step_def)
    then show ?thesis using D(6) [of d dv] by (simp add: device_ok_def dev_settles_def same)
  qed
qed

lemma free_id_free: "n |\<notin>| active \<Longrightarrow> free_id active n = Some n"
  by (subst free_id.simps) simp

section \<open>Allocation\<close>

lemma allocDev_cases [consumes 3, case_names active old new]:
  assumes inv: "id_inv M" and room: "m_nextMappedDevId M < 0x80000000"
    and alloc: "allocDev dev s M = Some (M', d, r)"
  obtains "fmlookup (m_devIdMap M) (dev_key s dev) = Some d" "M' = M" "\<not> r"
  | dv where "fmlookup (m_devIdMap M) (dev_key s dev) = None"
      "fmlookup (m_oldDevIdMap M) (dev_key s dev) = Some d" "fmlookup (m_oldDevices M) d = Some dv"
      "dv_srcTag dv = s" "dv_devId dv = dev" "s \<noteq> 0" "r"
      "M' = M\<lparr>m_oldDevIdMap := fmdrop (dev_key s dev) (m_oldDevIdMap M),
              m_devices := fmupd d dv (m_devices M), m_oldDevices := fmdrop d (m_oldDevices M),
              m_activeDevId := finsert d (m_activeDevId M),
              m_devIdMap := fmupd (dev_key s dev) d (m_devIdMap M)\<rparr>"
  | "fmlookup (m_devIdMap M) (dev_key s dev) = None" "fmlookup (m_oldDevIdMap M) (dev_key s dev) = None"
      "d = m_nextMappedDevId M" "\<not> r"
      "M' = M\<lparr>m_nextMappedDevId := d + 1, m_activeDevId := finsert d (m_activeDevId M),
              m_devIdMap := fmupd (dev_key s dev) d (m_devIdMap M)\<rparr>"
proof (cases "fmlookup (m_devIdMap M) (dev_key s dev)")
  case (Some d')
  then have "d' \<noteq> 0" using id_inv_inD(4) [OF inv Some] by (auto simp: active_ok_def)
  then have "d = d'" "M' = M" "\<not> r"
    using alloc Some by (auto simp: allocDev_def lookupMappedDeviceId_def Let_def)
  then show ?thesis using that(1) Some by simp
next
  case None
  note unmapped = None
  show ?thesis
  proof (cases "fmlookup (m_oldDevIdMap M) (dev_key s dev)")
    case (Some d')
    then obtain dv where dv: "fmlookup (m_oldDevices M) d' = Some dv" "dv_srcTag dv \<noteq> 0"
        "dv_srcTag dv = s" "dv_devId dv = dev" and pos: "d' \<noteq> 0"
      using id_inv_inD(5) [OF inv Some] by (auto simp: old_ok_def)
    then show ?thesis
      using that(2) alloc Some unmapped
      by (auto simp: allocDev_def lookupMappedDeviceId_def lookupOldMappedDeviceId_def Let_def)
  next
    case None
    have "free_id (m_activeDevId M) (m_nextMappedDevId M) = Some (m_nextMappedDevId M)"
      using id_inv_inD(3) [OF inv, of "m_nextMappedDevId M"] by (intro free_id_free) auto
    moreover have "\<not> (m_nextMappedDevId M = 0 \<or> 0x80000000 \<le> m_nextMappedDevId M)"
      using room id_inv_inD(1) [OF inv] by auto
    ultimately have "M' = M\<lparr>m_nextMappedDevId := d + 1, m_activeDevId := finsert d (m_activeDevId M),
        m_devIdMap := fmupd (dev_key s dev) d (m_devIdMap M)\<rparr>" "d = m_nextMappedDevId M" "\<not> r"
      using alloc None unmapped
      by (auto simp: allocDev_def lookupMappedDeviceId_def lookupOldMappedDeviceId_def Let_def)
    then show ?thesis using that(3) None unmapped by blast
  qed
qed

lemma next_bounds:
  assumes "(0::u32) < n" and "n < 0x80000000"
  shows "0 < n + 1" "n + 1 \<le> 0x80000000" "unat (n + 1) = unat n + 1" "m < n \<Longrightarrow> m < n + 1"
    "n < n + 1"
proof -
  have "unat n < 0x80000000" using assms(2) by (simp add: word_less_nat_alt)
  then show u: "unat (n + 1) = unat n + 1" by (simp add: unat_word_ariths)
  show "0 < n + 1" "n + 1 \<le> 0x80000000" "m < n \<Longrightarrow> m < n + 1" "n < n + 1"
    using \<open>unat n < _\<close> by (simp_all add: word_less_nat_alt word_le_nat_alt u)
qed

lemma allocDev_inv:
  assumes inv: "id_inv M" and room: "m_nextMappedDevId M < 0x80000000"
    and alloc: "allocDev dev s M = Some (M', d, r)"
  shows "id_inv M' \<and> fmlookup (m_devIdMap M') (dev_key s dev) = Some d \<and>
    m_nextMappedDevId M \<le> m_nextMappedDevId M' \<and>
    unat (m_nextMappedDevId M') \<le> Suc (unat (m_nextMappedDevId M))"
  using inv room alloc
proof (cases rule: allocDev_cases)
  case active
  then show ?thesis using inv by simp
next
  case (old dv)
  note D = id_inv_inD [OF inv]
  have d: "d |\<notin>| m_activeDevId M" "0 < d" "d < m_nextMappedDevId M"
    using D(5) [OF old(2)] by (auto simp: old_ok_def)
  have fresh: "fmlookup (m_devIdMap M) k \<noteq> Some d" for k
    using d(1) D(4) [of k d] by (auto simp: active_ok_def)
  have uniq: "k = dev_key s dev" if "fmlookup (m_oldDevIdMap M) k = Some d" for k
    using D(5) [OF that] old(3-5) by (auto simp: old_ok_def)
  have "id_inv M'"
  proof (rule id_inv_inI)
    show "active_ok (\<lambda>s. False) M' k e" if "fmlookup (m_devIdMap M') k = Some e" for k e
      using that D(4) [of k e] d(2) fresh unfolding old(8) active_ok_def
      by (auto split: if_splits)
    show "old_ok (\<lambda>s. False) M' k e" if at: "fmlookup (m_oldDevIdMap M') k = Some e" for k e
    proof -
      have k: "k \<noteq> dev_key s dev" "fmlookup (m_oldDevIdMap M) k = Some e"
        using at by (auto simp: old(8) split: if_splits)
      then have "e \<noteq> d" using uniq [of k] by blast
      then show ?thesis using D(5) [OF k(2)] unfolding old_ok_def by (simp add: old(8))
    qed
    have keep: "fmlookup (m_devIdMap M') k = Some e" if "fmlookup (m_devIdMap M) k = Some e" for k e
      using that old(1) by (auto simp: old(8))
    show "device_ok M' e w" if at: "fmlookup (m_devices M') e = Some w" for e w
    proof (cases "e = d")
      case True
      then have "w = dv" using at by (simp add: old(8))
      then show ?thesis using True old(4-6) by (simp add: device_ok_def old(8))
    next
      case False
      then have "device_ok M e w" using D(6) at by (simp add: old(8))
      then show ?thesis unfolding device_ok_def by (meson keep)
    qed
    show "0 < m_nextMappedDevId M'" "m_nextMappedDevId M' \<le> 0x80000000"
      using D(1,2) by (simp_all add: old(8))
    show "e < m_nextMappedDevId M'" if "e |\<in>| m_activeDevId M'" for e
      using that D(3) [of e] d(3) unfolding old(8) by auto
  qed
  then show ?thesis using old by simp
next
  case new
  note D = id_inv_inD [OF inv]
  have pos: "0 < d" "d < 0x80000000" using new(3) D(1) room by auto
  note b = next_bounds [OF pos]
  have fresh: "fmlookup (m_devIdMap M) k \<noteq> Some d" "fmlookup (m_oldDevIdMap M) k \<noteq> Some d" for k
    using new(3) D(3) [of d] D(4) [of k d] D(5) [of k d] by (auto simp: active_ok_def old_ok_def)
  have "id_inv M'"
  proof (rule id_inv_inI)
    show "active_ok (\<lambda>s. False) M' k e" if "fmlookup (m_devIdMap M') k = Some e" for k e
      using that D(4) [of k e] pos fresh new(2) unfolding new(5) active_ok_def by (auto split: if_splits)
    show "old_ok (\<lambda>s. False) M' k e" if "fmlookup (m_oldDevIdMap M') k = Some e" for k e
      using that D(5) [of k e] b(4) [of e] fresh unfolding new(5) old_ok_def new(3) [symmetric] by (auto split: if_splits)
    have keep: "fmlookup (m_devIdMap M') k = Some e" if "fmlookup (m_devIdMap M) k = Some e" for k e
      using that new(1) by (auto simp: new(5))
    show "device_ok M' e w" if at: "fmlookup (m_devices M') e = Some w" for e w
    proof -
      have "device_ok M e w" using D(6) at by (simp add: new(5))
      then show ?thesis unfolding device_ok_def by (meson keep)
    qed
    show "e < m_nextMappedDevId M'" if "e |\<in>| m_activeDevId M'" for e
      using that D(3) [of e] b(4) [of e] b(5) unfolding new(5) new(3) by auto
  qed (use b in \<open>simp_all add: new(5)\<close>)
  moreover have "d \<le> d + 1" using b(5) by (rule order_less_imp_le)
  ultimately show ?thesis using new b(3) by simp
qed

section \<open>The other operations\<close>

text \<open>A change of the devices alone.\<close>

lemma id_inv_devices:
  assumes inv: "id_inv_in T M"
    and ok: "\<And>d dv. fmlookup ds d = Some dv \<Longrightarrow> device_ok M d dv"
  shows "id_inv_in T (M\<lparr>m_devices := ds\<rparr>)"
proof (rule id_inv_inI)
  note D = id_inv_inD [OF inv]
  show "active_ok T (M\<lparr>m_devices := ds\<rparr>) k e" if "fmlookup (m_devIdMap (M\<lparr>m_devices := ds\<rparr>)) k = Some e" for k e
    using that D(4) [of k e] by (simp add: active_ok_def)
  show "old_ok T (M\<lparr>m_devices := ds\<rparr>) k e" if "fmlookup (m_oldDevIdMap (M\<lparr>m_devices := ds\<rparr>)) k = Some e" for k e
    using that D(5) [of k e] by (simp add: old_ok_def)
  show "device_ok (M\<lparr>m_devices := ds\<rparr>) e w" if "fmlookup (m_devices (M\<lparr>m_devices := ds\<rparr>)) e = Some w" for e w
    using that ok [of e w] by (simp add: device_ok_def)
  show "0 < m_nextMappedDevId (M\<lparr>m_devices := ds\<rparr>)" "m_nextMappedDevId (M\<lparr>m_devices := ds\<rparr>) \<le> 0x80000000"
    using D(1,2) by simp_all
  show "e < m_nextMappedDevId (M\<lparr>m_devices := ds\<rparr>)" if "e |\<in>| m_activeDevId (M\<lparr>m_devices := ds\<rparr>)" for e
    using that D(3) [of e] by simp
qed

lemma id_inv_fmdrop: "id_inv_in T M \<Longrightarrow> id_inv_in T (M\<lparr>m_devices := fmdrop d (m_devices M)\<rparr>)"
  by (rule id_inv_devices) (auto dest: id_inv_inD(6) split: if_splits)

lemma id_inv_fmupd:
  assumes "id_inv_in T M" and "device_ok M d dv"
  shows "id_inv_in T (M\<lparr>m_devices := fmupd d dv (m_devices M)\<rparr>)"
  by (rule id_inv_devices [OF assms(1)])
    (use assms in \<open>auto dest: id_inv_inD(6) split: if_splits\<close>)

lemma store_descriptor_inv:
  assumes inv: "id_inv M" and key: "fmlookup (m_devIdMap M) (dev_key srcTag (ddp_devId p)) = Some d"
    and "srcTag \<noteq> 0" and store: "store_descriptor E p srcTag d M = Inr M'"
  shows "id_inv M' \<and> m_devIdMap M' = m_devIdMap M \<and> m_oldDevIdMap M' = m_oldDevIdMap M \<and>
    m_nextMappedDevId M' = m_nextMappedDevId M"
proof -
  obtain M1 dv where M1: "addPacket E (remapDeviceId d p) True M = Inr M1"
    and M': "M' = M1\<lparr>m_devices := fmupd d dv (m_devices M1)\<rparr>" "dv_srcTag dv = srcTag" "dv_devId dv = ddp_devId p"
    using store by (auto simp: store_descriptor_def Let_def sbind_eq_Inr)
  note step = addPacket_step [OF M1]
  have "device_ok M1 d dv"
    using key assms(3) M'(2,3) by (simp add: device_ok_def stored_step_ids [OF step])
  then show ?thesis
    using id_inv_fmupd [OF id_inv_stored [OF inv step]] M'(1) stored_step_ids [OF step] by simp
qed

lemma updateDescriptor_inv:
  assumes inv: "id_inv M" and room: "m_nextMappedDevId M < 0x80000000" and tag: "srcTag \<noteq> 0"
    and upd: "updateDescriptor E p srcTag M = Some (Inr M')"
  shows "id_inv M' \<and> m_nextMappedDevId M \<le> m_nextMappedDevId M' \<and>
    unat (m_nextMappedDevId M') \<le> Suc (unat (m_nextMappedDevId M)) \<and>
    (\<exists>M1 d r. allocDev (ddp_devId p) srcTag M = Some (M1, d, r) \<and>
       m_devIdMap M' = m_devIdMap M1 \<and> m_oldDevIdMap M' = m_oldDevIdMap M1)"
proof -
  obtain M1 d r where alloc: "allocDev (ddp_devId p) srcTag M = Some (M1, d, r)"
    using upd by (auto simp: updateDescriptor_def split: option.splits)
  note inv1 = allocDev_inv [OF inv room alloc]
  have drop: "id_inv (M1\<lparr>m_devices := fmdrop d (m_devices M1)\<rparr>)" using inv1 id_inv_fmdrop by blast
  have stored: ?thesis if "store_descriptor E p srcTag d N = Inr M'"
      "N = M1 \<or> N = M1\<lparr>m_devices := fmdrop d (m_devices M1)\<rparr>" for N
    using store_descriptor_inv [OF _ _ tag that(1)] that(2) inv1 drop alloc by auto
  have emitted: ?thesis if "addPacket E q b M1 = Inr M'" for q b
    using addPacket_step [OF that] id_inv_stored inv1 alloc stored_step_ids [OF addPacket_step [OF that]] by auto
  show ?thesis
    using upd alloc inv1 drop stored emitted
    by (auto simp: updateDescriptor_def Let_def split: option.splits if_splits)
qed

lemma updateVariable_inv:
  assumes inv: "id_inv M" and upd: "updateVariable E d v p srcTag M = Inr M'"
  shows "id_inv M' \<and> m_nextMappedDevId M' = m_nextMappedDevId M \<and> m_devIdMap M' = m_devIdMap M \<and>
    m_oldDevIdMap M' = m_oldDevIdMap M"
proof (cases "\<exists>dv. fmlookup (m_devices M) d = Some dv \<and> dv_srcTag dv = srcTag")
  case True
  then obtain dv where dv: "fmlookup (m_devices M) d = Some dv" "dv_srcTag dv = srcTag" by blast
  let ?M0 = "M\<lparr>m_devices := fmupd d (dv\<lparr>dv_vars := fmdrop v (dv_vars dv)\<rparr>) (m_devices M)\<rparr>"
  obtain M1 where M1: "addPacket E p True ?M0 = Inr M1" and M': "M' = (case fmlookup (m_devices M1) d of
      None \<Rightarrow> M1 | Some dv1 \<Rightarrow> M1\<lparr>m_devices := fmupd d (dv1\<lparr>dv_vars := fmupd v p (dv_vars dv1)\<rparr>) (m_devices M1)\<rparr>)"
    using upd dv by (auto simp: updateVariable_def sbind_eq_Inr)
  have "id_inv ?M0"
    by (rule id_inv_fmupd [OF inv]) (use id_inv_inD(6) [OF inv dv(1)] in \<open>simp add: device_ok_def\<close>)
  then have inv1: "id_inv M1" using id_inv_stored addPacket_step [OF M1] by blast
  have "id_inv M'"
  proof (cases "fmlookup (m_devices M1) d")
    case (Some dv1)
    have "device_ok M1 d (dv1\<lparr>dv_vars := fmupd v p (dv_vars dv1)\<rparr>)"
      using id_inv_inD(6) [OF inv1 Some] by (simp add: device_ok_def)
    then show ?thesis using id_inv_fmupd [OF inv1] M' Some by simp
  qed (use M' inv1 in simp)
  then show ?thesis using M' stored_step_ids [OF addPacket_step [OF M1]] by (simp split: option.splits)
next
  case False
  then show ?thesis using upd inv by (auto simp: updateVariable_def split: option.splits if_splits)
qed

lemma updateValue_inv:
  assumes "id_inv M" and "updateValue E p srcTag M = Inr M'"
  shows "id_inv M' \<and> m_nextMappedDevId M' = m_nextMappedDevId M \<and> m_devIdMap M' = m_devIdMap M \<and>
    m_oldDevIdMap M' = m_oldDevIdMap M"
  using assms updateVariable_inv by (auto simp: updateValue_def Let_def split: if_splits)

lemma addFastMetaDDP_inv:
  assumes inv: "id_inv M" and own: "d \<ge> 0x80000000 \<or> fmlookup (m_devIdMap M) (dev_key 0 dev) = Some d"
    and add: "addFastMetaDDP E streaming sec nsec d ddp M = Inr M'"
  shows "id_inv M' \<and> m_nextMappedDevId M' = m_nextMappedDevId M \<and> m_devIdMap M' = m_devIdMap M \<and>
    m_oldDevIdMap M' = m_oldDevIdMap M"
proof (cases "fmlookup (m_devices M) d")
  case None
  then obtain M1 dv where M1: "(if streaming then addPacket E (fast_ddp sec nsec d ddp) True M else Inr M) = Inr M1"
    and M': "M' = M1\<lparr>m_devices := fmupd d dv (m_devices M1)\<rparr>" "dv_srcTag dv = 0"
    using add by (auto simp: addFastMetaDDP_def Let_def sbind_eq_Inr)
  have step: "stored_step M M1" using M1 addPacket_step by (auto split: if_splits)
  have "device_ok M1 d dv" using own M'(2) by (auto simp: device_ok_def stored_step_ids [OF step])
  then show ?thesis
    using id_inv_fmupd [OF id_inv_stored [OF inv step]] M'(1) stored_step_ids [OF step] by simp
qed (use inv add in \<open>simp add: addFastMetaDDP_def\<close>)

section \<open>Dropping a source\<close>

lemma upstreamDisconnected_step:
  "upstreamDisconnected E d vs M = Inr M' \<Longrightarrow> stored_step M M'"
proof (induction vs arbitrary: M)
  case (Cons v vs)
  show ?case
  proof (cases "Option.bind (fmlookup (m_devices M) d) (\<lambda>dv. fmlookup (dv_vars dv) v)")
    case None
    then show ?thesis using Cons by simp
  next
    case (Some p)
    then obtain M1 where "addPacket E (disconnected_packet p) False M = Inr M1"
        "upstreamDisconnected E d vs M1 = Inr M'"
      using Cons.prems by (auto simp: sbind_eq_Inr)
    then show ?thesis using Cons.IH addPacket_step stored_step_trans by blast
  qed
qed simp

abbreviation only_source :: "u32 \<Rightarrow> u64 \<Rightarrow> bool" where
  "only_source srcTag \<equiv> \<lambda>s. s = ucast srcTag"

lemma id_inv_weaken: "id_inv M \<Longrightarrow> id_inv_in T M"
  by (rule id_inv_inI) (auto simp: active_ok_def old_ok_def dest: id_inv_inD)

lemma drop_device_inv:
  assumes inv: "id_inv_in (only_source s) M" and dv: "fmlookup (m_devices M) d = Some dv"
    and s: "dv_srcTag dv = s" "s \<noteq> 0"
  shows "id_inv_in (only_source s) (drop_device s d M)"
proof -
  note D = id_inv_inD [OF inv]
  define key where "key = dev_key s (dv_devId dv)"
  define M' where "M' = drop_device s d M"
  have M': "M' = M\<lparr>m_oldDevIdMap := fmupd key d (m_oldDevIdMap M),
      m_oldDevices := fmupd d (dv\<lparr>dv_vars := fmempty\<rparr>) (m_oldDevices M),
      m_devices := fmdrop d (m_devices M)\<rparr>"
    by (simp add: M'_def drop_device_def dv key_def)
  have map: "fmlookup (m_devIdMap M) key = Some d"
    using D(6) [OF dv] s by (simp add: device_ok_def key_def)
  have act: "d |\<in>| m_activeDevId M" "0 < d" and only: "k = key" if "fmlookup (m_devIdMap M) k = Some d" for k
    using D(4) [OF map] that by (auto simp: active_ok_def)
  have bound: "d < m_nextMappedDevId M" using D(3) act(1) map by blast
  have "id_inv_in (only_source s) M'"
  proof (rule id_inv_inI)
    show "active_ok (only_source s) M' k e" if at: "fmlookup (m_devIdMap M') k = Some e" for k e
      using D(4) [of k e] at by (auto simp: active_ok_def M' key_def)
    show "old_ok (only_source s) M' k e" if at: "fmlookup (m_oldDevIdMap M') k = Some e" for k e
    proof (cases "k = key")
      case True
      then show ?thesis using at map act(2) [OF map] bound s by (simp add: old_ok_def M' key_def)
    next
      case False
      then have old: "fmlookup (m_oldDevIdMap M) k = Some e" using at by (simp add: M')
      have "e \<noteq> d"
      proof
        assume "e = d"
        then have "fmlookup (m_devIdMap M) k = Some d"
          using D(5) [OF old] act(1) [OF map] by (simp add: old_ok_def)
        then show False using only False by blast
      qed
      then show ?thesis using D(5) [OF old] by (simp add: old_ok_def M')
    qed
    show "device_ok M' e w" if at: "fmlookup (m_devices M') e = Some w" for e w
    proof -
      have "device_ok M e w" using D(6) at by (simp add: M' split: if_splits)
      then show ?thesis by (simp add: device_ok_def M')
    qed
    show "0 < m_nextMappedDevId M'" "m_nextMappedDevId M' \<le> 0x80000000"
      using D(1,2) by (simp_all add: M')
    show "e < m_nextMappedDevId M'" if "e |\<in>| m_activeDevId M'" for e
      using that D(3) [of e] by (simp add: M')
  qed
  then show ?thesis by (simp add: M'_def)
qed

text \<open>What a loop over the devices of a source leaves.\<close>

definition tagged :: "u32 \<Rightarrow> meta \<Rightarrow> u32 set" where
  "tagged s M = {d. \<exists>dv. fmlookup (m_devices M) d = Some dv \<and> dv_srcTag dv = s}"

lemma tagged_stored:
  assumes "stored_step M M'"
  shows "tagged s M' = tagged s M"
proof -
  have "rel_option dev_settles (fmlookup (m_devices M) d) (fmlookup (m_devices M') d)" for d
    using assms by (simp add: stored_step_def devices_settle_def)
  then have "(\<exists>dv. fmlookup (m_devices M') d = Some dv \<and> dv_srcTag dv = s) \<longleftrightarrow>
      (\<exists>dv. fmlookup (m_devices M) d = Some dv \<and> dv_srcTag dv = s)" for d
    by (cases "fmlookup (m_devices M) d"; cases "fmlookup (m_devices M') d")
      (auto simp: dev_settles_def dest: spec [of _ d], (metis option.rel_inject(2) option.distinct(1)
        option.rel_distinct dev_settles_def)+)
  then show ?thesis by (simp add: tagged_def)
qed

lemma drop_devices_inv:
  assumes "drop_devices E s ds Mb = Inr Mb'" and "id_inv_in (only_source s) (fst Mb)" and "s \<noteq> 0"
    and "tagged s (fst Mb) \<subseteq> set ds"
  shows "id_inv_in (only_source s) (fst Mb') \<and> tagged s (fst Mb') = {} \<and>
    m_devIdMap (fst Mb') = m_devIdMap (fst Mb) \<and> m_nextMappedDevId (fst Mb') = m_nextMappedDevId (fst Mb) \<and>
    (\<forall>k d. fmlookup (m_oldDevIdMap (fst Mb')) k = Some d \<longrightarrow>
       fmlookup (m_oldDevIdMap (fst Mb)) k = Some d \<or> fmlookup (m_devIdMap (fst Mb)) k = Some d) \<and>
    (\<forall>k d. fmlookup (m_devIdMap (fst Mb)) k = Some d \<longrightarrow>
       d \<in> tagged s (fst Mb) \<or> fmlookup (m_oldDevIdMap (fst Mb)) k = Some d \<longrightarrow>
       fmlookup (m_oldDevIdMap (fst Mb')) k = Some d)"
  using assms
proof (induction ds arbitrary: Mb)
  case (Cons d ds)
  show ?case
  proof (cases "d \<in> tagged s (fst Mb)")
    case False
    then have "drop_devices E s ds Mb = Inr Mb'" "tagged s (fst Mb) \<subseteq> set ds"
      using Cons.prems(1,4) by (auto simp: tagged_def split: option.splits if_splits)
    then show ?thesis using Cons.IH Cons.prems(2,3) by blast
  next
    case True
    then obtain dv where dv: "fmlookup (m_devices (fst Mb)) d = Some dv" "dv_srcTag dv = s"
      by (auto simp: tagged_def)
    then obtain M1 where up: "upstreamDisconnected E d (List.map fst (entries (dv_vars dv))) (fst Mb) = Inr M1"
      and rest: "drop_devices E s ds (drop_device s d M1, True) = Inr Mb'"
      using Cons.prems(1) by (auto simp: sbind_eq_Inr)
    note step = upstreamDisconnected_step [OF up]
    have "rel_option dev_settles (fmlookup (m_devices (fst Mb)) d) (fmlookup (m_devices M1) d)"
      using step by (simp add: stored_step_def devices_settle_def)
    then obtain dv1 where dv1: "fmlookup (m_devices M1) d = Some dv1" "dv_srcTag dv1 = s"
      using dv by (auto simp: option_rel_Some1 dev_settles_def)
    have inv1: "id_inv_in (only_source s) M1" by (rule id_inv_stored [OF Cons.prems(2) step])
    define M2 where "M2 = drop_device s d M1"
    define key where "key = dev_key s (dv_devId dv1)"
    have inv: "id_inv_in (only_source s) M2"
      unfolding M2_def by (rule drop_device_inv [OF inv1 dv1 Cons.prems(3)])
    have maps: "m_devIdMap M2 = m_devIdMap (fst Mb)" "m_nextMappedDevId M2 = m_nextMappedDevId (fst Mb)"
        "m_oldDevIdMap M2 = fmupd key d (m_oldDevIdMap (fst Mb))"
      using dv1 stored_step_ids [OF step] by (simp_all add: M2_def drop_device_def key_def)
    have key: "fmlookup (m_devIdMap (fst Mb)) key = Some d"
      using id_inv_inD(6) [OF inv1 dv1(1)] dv1(2) Cons.prems(3) stored_step_ids [OF step]
      by (simp add: device_ok_def key_def)
    have only: "fmlookup (m_devIdMap (fst Mb)) k = Some d \<Longrightarrow> k = key" for k
      using id_inv_inD(4) [OF Cons.prems(2) key] by (auto simp: active_ok_def)
    have "tagged s M2 = tagged s M1 - {d}"
      using dv1 by (auto simp: M2_def tagged_def drop_device_def split: if_splits)
    then have tags: "tagged s M2 = tagged s (fst Mb) - {d}" by (simp only: tagged_stored [OF step])
    then have "tagged s M2 \<subseteq> set ds" using Cons.prems(4) by auto
    then have IH: "id_inv_in (only_source s) (fst Mb') \<and> tagged s (fst Mb') = {} \<and>
        m_devIdMap (fst Mb') = m_devIdMap M2 \<and> m_nextMappedDevId (fst Mb') = m_nextMappedDevId M2"
      and from_M2: "fmlookup (m_oldDevIdMap (fst Mb')) k = Some e \<Longrightarrow>
        fmlookup (m_oldDevIdMap M2) k = Some e \<or> fmlookup (m_devIdMap M2) k = Some e"
      and into_old: "fmlookup (m_devIdMap M2) k = Some e \<Longrightarrow>
        e \<in> tagged s M2 \<or> fmlookup (m_oldDevIdMap M2) k = Some e \<Longrightarrow>
        fmlookup (m_oldDevIdMap (fst Mb')) k = Some e" for k e
      using Cons.IH [OF rest [folded M2_def]] inv Cons.prems(3) unfolding fst_conv by blast+
    have "fmlookup (m_oldDevIdMap (fst Mb)) k = Some e \<or> fmlookup (m_devIdMap (fst Mb)) k = Some e"
      if "fmlookup (m_oldDevIdMap (fst Mb')) k = Some e" for k e
      using from_M2 [OF that] key by (auto simp: maps split: if_splits)
    moreover have "fmlookup (m_oldDevIdMap (fst Mb')) k = Some e"
      if "fmlookup (m_devIdMap (fst Mb)) k = Some e"
        "e \<in> tagged s (fst Mb) \<or> fmlookup (m_oldDevIdMap (fst Mb)) k = Some e" for k e
      by (rule into_old) (use that only [of k] key in \<open>auto simp: maps tags\<close>)
    ultimately show ?thesis using IH unfolding maps by blast
  qed
qed (auto simp: tagged_def)

lemma drop_ids_inv:
  assumes inv: "id_inv_in (only_source s) M" and none: "tagged s M = {}" and "s \<noteq> 0"
  shows "id_inv (drop_ids s M)"
proof (rule id_inv_inI)
  note D = id_inv_inD [OF inv]
  have map: "fmlookup (m_devIdMap (drop_ids s M)) k =
      (if key_source k = ucast s then None else fmlookup (m_devIdMap M) k)" for k
    by (simp add: drop_ids_def Let_def)
  have active: "d |\<in>| m_activeDevId (drop_ids s M) \<longleftrightarrow>
      d |\<in>| m_activeDevId M \<and> (\<forall>k. fmlookup (m_devIdMap M) k = Some d \<longrightarrow> key_source k \<noteq> ucast s)" for d
    by (auto simp: drop_ids_def Let_def fmlookup_image_iff intro: fmdomI)
  have same: "m_oldDevIdMap (drop_ids s M) = m_oldDevIdMap M" "m_oldDevices (drop_ids s M) = m_oldDevices M"
    "m_devices (drop_ids s M) = m_devices M" "m_nextMappedDevId (drop_ids s M) = m_nextMappedDevId M"
    by (simp_all add: drop_ids_def Let_def)
  show "active_ok (\<lambda>s. False) (drop_ids s M) k e" if at: "fmlookup (m_devIdMap (drop_ids s M)) k = Some e" for k e
  proof -
    have k: "key_source k \<noteq> ucast s" "fmlookup (m_devIdMap M) k = Some e"
      using at by (auto simp: map split: if_splits)
    then show ?thesis using D(4) [OF k(2)] unfolding active_ok_def active map same by auto
  qed
  show "old_ok (\<lambda>s. False) (drop_ids s M) k e" if at: "fmlookup (m_oldDevIdMap (drop_ids s M)) k = Some e" for k e
    using D(5) [of k e] at unfolding old_ok_def active map same by auto
  show "device_ok (drop_ids s M) e w" if at: "fmlookup (m_devices (drop_ids s M)) e = Some w" for e w
  proof -
    have "dv_srcTag w \<noteq> s" using none at by (auto simp: tagged_def same)
    moreover have "device_ok M e w" using D(6) at by (simp add: same)
    ultimately show ?thesis using \<open>s \<noteq> 0\<close> ucast_u64_inj [of s 0]
      by (auto simp: device_ok_def map ucast_u64_inj split: if_splits)
  qed
  show "0 < m_nextMappedDevId (drop_ids s M)" "m_nextMappedDevId (drop_ids s M) \<le> 0x80000000"
    using D(1,2) by (simp_all add: same)
  show "e < m_nextMappedDevId (drop_ids s M)" if "e |\<in>| m_activeDevId (drop_ids s M)" for e
    using that D(3) [of e] by (simp add: same active)
qed

lemma dropSourceTag_inv:
  assumes inv: "id_inv M" and s: "s \<noteq> 0" and drop: "dropSourceTag E s M = Inr M'"
  shows "id_inv M' \<and> m_nextMappedDevId M' = m_nextMappedDevId M \<and> tagged s M' = {} \<and>
    (\<forall>k d. fmlookup (m_oldDevIdMap M') k = Some d \<longrightarrow>
       fmlookup (m_oldDevIdMap M) k = Some d \<or> fmlookup (m_devIdMap M) k = Some d) \<and>
    (\<forall>k d. fmlookup (m_devIdMap M) k = Some d \<longrightarrow> d \<in> tagged s M \<longrightarrow>
       fmlookup (m_oldDevIdMap M') k = Some d) \<and>
    (\<forall>k. fmlookup (m_devIdMap M') k = (if key_source k = ucast s then None else fmlookup (m_devIdMap M) k))"
proof -
  obtain Mb where loop: "drop_devices E s (List.map fst (entries (m_devices M))) (M, False) = Inr Mb"
    and M': "M' = drop_ids s (if snd Mb then notify E (fst Mb) else fst Mb)"
    using drop by (auto simp: dropSourceTag_def sbind_eq_Inr)
  have "tagged s M \<subseteq> set (List.map fst (entries (m_devices M)))"
    by (auto simp: tagged_def entries_keys intro: fmdomI)
  then have after: "id_inv_in (only_source s) (fst Mb)" "tagged s (fst Mb) = {}"
      "m_devIdMap (fst Mb) = m_devIdMap M" "m_nextMappedDevId (fst Mb) = m_nextMappedDevId M"
    and olds: "fmlookup (m_oldDevIdMap (fst Mb)) k = Some d \<Longrightarrow>
        fmlookup (m_oldDevIdMap M) k = Some d \<or> fmlookup (m_devIdMap M) k = Some d"
      "fmlookup (m_devIdMap M) k = Some d \<Longrightarrow> d \<in> tagged s M \<Longrightarrow> fmlookup (m_oldDevIdMap (fst Mb)) k = Some d" for k d
    using drop_devices_inv [OF loop] id_inv_weaken [OF inv] s by simp_all
  define N where "N = (if snd Mb then notify E (fst Mb) else fst Mb)"
  have step: "stored_step (fst Mb) N" by (simp add: N_def notify_step)
  have N: "id_inv_in (only_source s) N" by (rule id_inv_stored [OF after(1) step])
  have "tagged s N = {}" using tagged_stored [OF step, of s] after(2) by simp
  then have "id_inv M'" unfolding M' N_def [symmetric] by (rule drop_ids_inv [OF N _ s])
  moreover have "tagged s M' = {}" using \<open>tagged s N = {}\<close> M' by (simp add: N_def tagged_def drop_ids_def Let_def)
  moreover have "m_nextMappedDevId M' = m_nextMappedDevId M"
    "fmlookup (m_devIdMap M') k = (if key_source k = ucast s then None else fmlookup (m_devIdMap M) k)" for k
    using M' after stored_step_ids [OF step] by (simp_all add: N_def drop_ids_def Let_def)
  moreover have "m_oldDevIdMap M' = m_oldDevIdMap (fst Mb)"
    using M' stored_step_ids [OF step] by (simp add: N_def drop_ids_def Let_def)
  ultimately show ?thesis using olds by simp
qed

section \<open>Runs\<close>

lemma word_le_from_nat:
  assumes "unat n \<le> Suc m" and "m < 0x7fffffff"
  shows "(n :: u32) < 0x80000000"
proof -
  have "unat n < 2147483648" using assms by linarith
  then show ?thesis by (simp add: word_less_nat_alt)
qed

lemma meta_op_inv:
  assumes "meta_op E M M'" and "id_inv M" and "m_nextMappedDevId M < 0x80000000"
  shows "id_inv M' \<and> m_nextMappedDevId M \<le> m_nextMappedDevId M' \<and>
    unat (m_nextMappedDevId M') \<le> Suc (unat (m_nextMappedDevId M))"
  using assms
proof (cases rule: meta_op.cases)
  case descriptor
  then show ?thesis using updateDescriptor_inv assms(2,3) by blast
next
  case val
  then show ?thesis using updateValue_inv [OF assms(2)] by simp
next
  case disconnect
  then show ?thesis using dropSourceTag_inv [OF assms(2)] by simp
next
  case own_id
  then show ?thesis using allocDev_inv assms(2,3) by blast
next
  case (own_device d dev ddp streaming sec nsec)
  show ?thesis using addFastMetaDDP_inv [OF assms(2) own_device(1,4)] by simp
next
  case own_value
  then show ?thesis
    using updateVariable_inv [OF assms(2)] by (simp add: updateMappedVariable_def)
next
  case (other_packet p n)
  note step = addPacket_step [OF other_packet(3)]
  show ?thesis using id_inv_stored [OF assms(2) step] stored_step_ids(5) [OF step] by simp
next
  case file_end
  have step: "stored_step M M'"
    by (simp add: file_end stored_step_def ids_def devices_settle_def option.rel_refl)
  show ?thesis using id_inv_stored [OF assms(2) step] stored_step_ids(5) [OF step] by simp
qed

lemma meta_path_inv:
  assumes "meta_path E M0 n M" and "id_inv M0" and "unat (m_nextMappedDevId M0) \<le> Suc m"
    and "n + m \<le> 0x7fffffff"
  shows "id_inv M \<and> m_nextMappedDevId M0 \<le> m_nextMappedDevId M \<and> unat (m_nextMappedDevId M) \<le> Suc (n + m)"
  using assms
proof induction
  case (step n M M')
  then have inv: "id_inv M" "m_nextMappedDevId M0 \<le> m_nextMappedDevId M"
      "unat (m_nextMappedDevId M) \<le> Suc (n + m)" by simp_all
  then have "m_nextMappedDevId M < 0x80000000" using word_le_from_nat step.prems by simp
  then show ?case using meta_op_inv [OF step.hyps(2) inv(1)] inv(2,3) by auto
qed simp

lemma meta_run_inv:
  assumes "meta_run E n M" and "n \<le> 0x7fffffff"
  shows "id_inv M \<and> unat (m_nextMappedDevId M) \<le> Suc n"
  using meta_path_inv [OF assms(1) id_inv_new, of 0] assms(2) by (simp add: new_meta_def)

lemma meta_run_room:
  assumes "meta_run E n M" and "n < 0x7fffffff"
  shows "id_inv M" and "m_nextMappedDevId M < 0x80000000"
  using meta_run_inv [OF assms(1)] assms(2) word_le_from_nat by auto

section \<open>Owners of an identifier\<close>

definition owner :: "meta \<Rightarrow> u32 \<Rightarrow> u64 \<Rightarrow> bool" where
  "owner M d k \<longleftrightarrow> fmlookup (m_devIdMap M) k = Some d \<or> fmlookup (m_oldDevIdMap M) k = Some d"

lemma allocDev_owner:
  assumes "id_inv M" and "m_nextMappedDevId M < 0x80000000" and "allocDev dev s M = Some (M', d, r)"
    and "owner M' e k" and "e < m_nextMappedDevId M"
  shows "owner M e k"
  using assms(1-3)
proof (cases rule: allocDev_cases)
  case old
  then show ?thesis using assms(4) by (auto simp: owner_def split: if_splits)
next
  case new
  then show ?thesis using assms(4,5) by (auto simp: owner_def split: if_splits)
qed (use assms(4) in simp)

lemma meta_op_owner:
  assumes op: "meta_op E M M'" and inv: "id_inv M" and room: "m_nextMappedDevId M < 0x80000000"
    and own: "owner M' e k" and e: "e < m_nextMappedDevId M"
  shows "owner M e k"
  using op
proof (cases rule: meta_op.cases)
  case (descriptor srcTag p)
  from updateDescriptor_inv [OF inv room descriptor(1,3)] obtain M1 d r
    where "allocDev (ddp_devId p) srcTag M = Some (M1, d, r)" "owner M1 e k"
    using own by (auto simp: owner_def)
  then show ?thesis using allocDev_owner [OF inv room _ _ e] by blast
next
  case (val srcTag p)
  then show ?thesis using updateValue_inv [OF inv val(3)] own by (simp add: owner_def)
next
  case (disconnect srcTag)
  then show ?thesis using dropSourceTag_inv [OF inv disconnect] own
    by (auto simp: owner_def split: if_splits)
next
  case own_id
  then show ?thesis using allocDev_owner [OF inv room _ own e] by blast
next
  case (own_device d dev ddp streaming sec nsec)
  then show ?thesis using addFastMetaDDP_inv [OF inv own_device(1,4)] own by (simp add: owner_def)
next
  case (own_value p d v)
  then show ?thesis
    using updateVariable_inv [OF inv own_value(3) [unfolded updateMappedVariable_def]] own by (simp add: owner_def)
next
  case (other_packet p n)
  then show ?thesis using stored_step_ids [OF addPacket_step [OF other_packet(3)]] own by (simp add: owner_def)
next
  case file_end
  then show ?thesis using own by (simp add: owner_def)
qed

lemma meta_path_owner:
  assumes "meta_path E M0 n M" and "id_inv M0" and "unat (m_nextMappedDevId M0) \<le> Suc m"
    and "n + m \<le> 0x7fffffff" and "owner M d k" and "d < m_nextMappedDevId M0"
  shows "owner M0 d k"
  using assms
proof (induction arbitrary: k)
  case (step n M M')
  have inv: "id_inv M" "m_nextMappedDevId M0 \<le> m_nextMappedDevId M" "unat (m_nextMappedDevId M) \<le> Suc (n + m)"
    using meta_path_inv [OF step.hyps(1) step.prems(1,2)] step.prems(3) by simp_all
  then have room: "m_nextMappedDevId M < 0x80000000" using word_le_from_nat step.prems(3) by simp
  have "owner M d k"
    using meta_op_owner [OF step.hyps(2) inv(1) room step.prems(4)] step.prems(5) inv(2) by simp
  then show ?case using step.IH step.prems by simp
qed

lemma owner_unique:
  assumes "id_inv M" and "fmlookup (m_devIdMap M) k = Some d" and "owner M d k'"
  shows "k' = k"
  using id_inv_inD(4) [OF assms(1,2)] id_inv_inD(5) [OF assms(1), of k' d] assms(3)
  by (auto simp: active_ok_def old_ok_def owner_def)

lemma mapped_lookup:
  assumes "lookupMappedDeviceId dev s M = d" and "d \<noteq> 0"
  shows "fmlookup (m_devIdMap M) (dev_key s dev) = Some d"
  using assms by (auto simp: lookupMappedDeviceId_def split: option.splits)

lemma lookup_mapped: "fmlookup (m_devIdMap M) (dev_key s dev) = Some d \<Longrightarrow> lookupMappedDeviceId dev s M = d"
  by (simp add: lookupMappedDeviceId_def)

section \<open>A sample run\<close>

text \<open>
  An environment in which no file fills up, a descriptor of device 7, and the states of the manager when
  source 1 has announced it and when that source was dropped.
\<close>

definition quiet_env :: env where
  "quiet_env = \<lparr>over_size = (\<lambda>_. False), snapshot_due = (\<lambda>_. False), stack_junk = (\<lambda>_. 0)\<rparr>"

definition sample_ddp :: bytes where
  "sample_ddp = mk_packet DEVICE_DESC_TYPE 0 [7, 4, 0x64636261]"

lemma sample_ddp_accepted: "accepted_ddp sample_ddp" and sample_ddp_id: "ddp_devId sample_ddp = 7"
  by (simp_all add: accepted_ddp_def desc_key_def sample_ddp_def mk_packet_words mk_packet_header ddp_devId_def)

lemma entries_empty [simp]: "entries fmempty = []"
  by (simp add: entries_def sorted_list_of_fset.rep_eq)

lemma entries_single [simp]: "entries (fmupd k v fmempty) = [(k, v)]"
  by (simp add: entries_def sorted_list_of_fset.rep_eq)

lemma onPrologue_empty [simp]: "onPrologue junk fmempty = Inr ([], fmempty)"
  by (simp add: onPrologue_def)

definition sample_dev :: device_vars where
  "sample_dev = \<lparr>dv_devId = 7, dv_srcTag = 1, dv_descriptor = remapDeviceId 1 sample_ddp, dv_vars = fmempty\<rparr>"

definition sample_meta :: meta where
  "sample_meta = \<lparr>m_devices = fmupd 1 sample_dev fmempty, m_oldDevices = fmempty,
     m_devIdMap = fmupd (dev_key 1 7) 1 fmempty, m_oldDevIdMap = fmempty, m_activeDevId = {|1|},
     m_nextMappedDevId = 2, store = \<lparr>out = [File_Start, Stored (remapDeviceId 1 sample_ddp)], file_due = False\<rparr>\<rparr>"

definition sample_dropped :: meta where
  "sample_dropped = \<lparr>m_devices = fmempty, m_oldDevices = fmupd 1 sample_dev fmempty,
     m_devIdMap = fmempty, m_oldDevIdMap = fmupd (dev_key 1 7) 1 fmempty, m_activeDevId = {||},
     m_nextMappedDevId = 2, store = \<lparr>out = [File_Start, Stored (remapDeviceId 1 sample_ddp)], file_due = False\<rparr>\<rparr>"

lemmas meta_eval = updateDescriptor_def allocDev_def lookupMappedDeviceId_def lookupOldMappedDeviceId_def
  free_id_free store_descriptor_def addPacket_def start_file_def write_out_def notify_def Let_def
  quiet_env_def sample_ddp_id

lemma sample_first: "updateDescriptor quiet_env sample_ddp 1 new_meta = Some (Inr sample_meta)"
  by (simp add: meta_eval new_meta_def sample_meta_def sample_dev_def)

lemma fm_single: "fmfilter P (fmupd k v fmempty) = (if P k then fmupd k v fmempty else fmempty)"
  by (rule fmap_ext) simp

lemma fmdrop_single: "fmdrop k (fmupd k v fmempty) = fmempty"
  by (rule fmap_ext) simp

lemma sample_drop: "dropSourceTag quiet_env 1 sample_meta = Inr sample_dropped"
proof -
  let ?N = "sample_meta\<lparr>m_devices := fmempty, m_oldDevices := fmupd 1 sample_dev fmempty,
    m_oldDevIdMap := fmupd (dev_key 1 7) 1 fmempty\<rparr>"
  have "drop_devices quiet_env 1 [1] (sample_meta, False) = Inr (?N, True)"
    by (simp add: sample_meta_def sample_dev_def drop_device_def fmdrop_single)
  moreover have "drop_ids 1 (notify quiet_env ?N) = sample_dropped"
    unfolding drop_ids_def notify_def quiet_env_def sample_meta_def sample_dropped_def Let_def meta.simps
      fm_single by (simp add: fmlookup_ran_iff fm_single)
  ultimately show ?thesis by (simp add: dropSourceTag_def sample_meta_def)
qed

lemma sample_again: "\<exists>M. updateDescriptor quiet_env sample_ddp 1 sample_dropped = Some (Inr M)"
  by (simp add: updateDescriptor_def allocDev_def lookupMappedDeviceId_def lookupOldMappedDeviceId_def
    sample_dropped_def sample_ddp_id Let_def addPacket_def write_out_def notify_def quiet_env_def
    sample_dev_def store_descriptor_def split: if_splits)

lemma sample_run: "meta_run quiet_env 1 sample_meta"
proof -
  have "meta_op quiet_env new_meta sample_meta"
    by (rule meta_op.descriptor [OF _ sample_ddp_accepted sample_first]) simp
  from meta_path.step [OF meta_path.start this] show ?thesis by simp
qed
section \<open>The contract of the identifiers\<close>

text \<open>
  C31. An identifier of the output stream belongs to one device of one source for good: if a run gave
  \<open>d\<close> to a pair of source and device, then whatever happens afterwards (sources that drop and come
  back, new devices, new files), the only pair that is ever mapped to \<open>d\<close> is that pair, as long as
  the run is shorter than the 2 ^ 31 - 1 identifiers there are.
\<close>

theorem output_id_never_reassigned:
  assumes "meta_run E n M" and "meta_path E M m M'" and "n + m < 0x7fffffff"
    and "lookupMappedDeviceId dev s M = d" and "d \<noteq> 0"
    and "lookupMappedDeviceId dev' s' M' = d"
  shows "dev' = dev \<and> s' = s"
proof -
  note inv = meta_run_inv [OF assms(1)]
  have M: "id_inv M" "unat (m_nextMappedDevId M) \<le> Suc n" using inv assms(3) by simp_all
  note map = mapped_lookup [OF assms(4,5)]
  then have "d < m_nextMappedDevId M"
    using id_inv_inD(3) [OF M(1)] id_inv_inD(4) [OF M(1) map] by (auto simp: active_ok_def)
  then have "owner M d (dev_key s' dev')"
    using meta_path_owner [OF assms(2) M] mapped_lookup [OF assms(6,5)] assms(3)
    by (simp add: owner_def)
  from owner_unique [OF M(1) map this] show ?thesis by simp
qed

theorem output_id_never_reassigned_witness:
  "lookupMappedDeviceId 7 1 sample_meta = 1 \<and> (7::u32) = 7 \<and> (1::u32) = 1"
  using output_id_never_reassigned [OF sample_run meta_path.start, of 7 1 1 7 1]
  by (simp add: lookupMappedDeviceId_def sample_meta_def)

text \<open>
  A device that comes back gets its identifier back: after its source was dropped, the device is
  unmapped, and when the source announces a device with that number again, the identifier in the
  output stream is the one it had.
\<close>

theorem reconnected_device_keeps_id:
  assumes "meta_run E n M" and "n < 0x7ffffffe" and "s \<noteq> 0"
    and "fmlookup (m_devices M) d = Some dv" and "dv_srcTag dv = s"
    and "dropSourceTag E s M = Inr M1"
    and "updateDescriptor E p s M1 = Some (Inr M2)" and "ddp_devId p = dv_devId dv"
  shows "lookupMappedDeviceId (dv_devId dv) s M = d \<and> lookupMappedDeviceId (dv_devId dv) s M1 = 0 \<and>
    lookupMappedDeviceId (dv_devId dv) s M2 = d"
proof -
  have inv: "id_inv M" and room: "m_nextMappedDevId M < 0x80000000"
    using meta_run_room [OF assms(1)] assms(2) by simp_all
  let ?key = "dev_key s (dv_devId dv)"
  have key: "fmlookup (m_devIdMap M) ?key = Some d"
    using id_inv_inD(6) [OF inv assms(4)] assms(3,5) by (simp add: device_ok_def)
  note dropped = dropSourceTag_inv [OF inv assms(3,6)]
  have unmapped: "fmlookup (m_devIdMap M1) ?key = None" using dropped by simp
  have old: "fmlookup (m_oldDevIdMap M1) ?key = Some d"
    using dropped key assms(4,5) by (auto simp: tagged_def)
  have room1: "m_nextMappedDevId M1 < 0x80000000" and inv1: "id_inv M1" using dropped room by simp_all
  obtain N e r where alloc: "allocDev (dv_devId dv) s M1 = Some (N, e, r)" and maps: "m_devIdMap M2 = m_devIdMap N"
    using updateDescriptor_inv [OF inv1 room1 assms(3,7)] assms(8) by auto
  have "e = d" using inv1 room1 alloc by (cases rule: allocDev_cases) (use unmapped old in auto)
  moreover have "fmlookup (m_devIdMap N) ?key = Some e"
    using allocDev_inv [OF inv1 room1 alloc] by simp
  ultimately have "lookupMappedDeviceId (dv_devId dv) s M2 = d" by (intro lookup_mapped) (simp add: maps)
  then show ?thesis using lookup_mapped [OF key] unmapped by (simp add: lookupMappedDeviceId_def)
qed

theorem reconnected_device_keeps_id_witness:
  "\<exists>M. updateDescriptor quiet_env sample_ddp 1 sample_dropped = Some (Inr M) \<and>
     lookupMappedDeviceId 7 1 M = 1"
proof -
  obtain M where M: "updateDescriptor quiet_env sample_ddp 1 sample_dropped = Some (Inr M)"
    using sample_again by blast
  have "fmlookup (m_devices sample_meta) 1 = Some sample_dev" by (simp add: sample_meta_def)
  from reconnected_device_keeps_id [OF sample_run _ _ this _ sample_drop M] show ?thesis
    using M by (simp add: sample_dev_def sample_ddp_id)
qed

end
