(* ===== verification/Meta_Files.thy ===== *)
theory Meta_Files
  imports Meta_Ids
begin

text \<open>
  The files of the output stream (\<open>MetaDataMgr::onPrologue\<close> and the order of writing in
  \<open>updateDescriptor\<close>, \<open>updateVariable\<close>, \<open>dropSourceTag\<close>): every file can be read by itself, and the
  last packets of the file being written are the state of the manager.
\<close>

section \<open>Reading an output stream\<close>

fun file_step :: "bytes list \<Rightarrow> out_event \<Rightarrow> bytes list" where
  "file_step ps File_Start = []"
| "file_step ps (Prologue p) = ps @ [p]"
| "file_step ps (Stored p) = ps @ [p]"
| "file_step ps (State_File qs) = ps"

text \<open>The packets of the file that is being written.\<close>

definition current_file :: "out_event list \<Rightarrow> bytes list" where
  "current_file es = foldl file_step [] es"

definition last_with :: "(bytes \<Rightarrow> 'k option) \<Rightarrow> 'k \<Rightarrow> bytes list \<Rightarrow> bytes option" where
  "last_with key k ps = find (\<lambda>p. key p = Some k) (rev ps)"

text \<open>
  A reader that knows the devices of a file from their descriptors: the value updates it meets must be
  those of known devices.
\<close>

fun known :: "u32 list \<Rightarrow> bytes \<Rightarrow> u32 list" where
  "known ds p = (case desc_key p of None \<Rightarrow> ds | Some d \<Rightarrow> d # ds)"

definition readable :: "u32 list \<Rightarrow> bytes \<Rightarrow> bool" where
  "readable ds p \<longleftrightarrow> (case var_key p of None \<Rightarrow> True | Some k \<Rightarrow> fst k \<in> set ds)"

fun self_described :: "u32 list \<Rightarrow> bytes list \<Rightarrow> bool" where
  "self_described ds [] = True"
| "self_described ds (p # ps) = (readable ds p \<and> self_described (known ds p) ps)"

fun files_ok :: "u32 list \<Rightarrow> out_event list \<Rightarrow> bool" where
  "files_ok ds [] = True"
| "files_ok ds (File_Start # es) = files_ok [] es"
| "files_ok ds (Prologue p # es) = (readable ds p \<and> files_ok (known ds p) es)"
| "files_ok ds (Stored p # es) = (readable ds p \<and> files_ok (known ds p) es)"
| "files_ok ds (State_File qs # es) = (self_described [] qs \<and> files_ok ds es)"

fun known_step :: "u32 list \<Rightarrow> out_event \<Rightarrow> u32 list" where
  "known_step ds File_Start = []"
| "known_step ds (Prologue p) = known ds p"
| "known_step ds (Stored p) = known ds p"
| "known_step ds (State_File qs) = ds"

lemma current_file_append: "current_file (es @ fs) = foldl file_step (current_file es) fs"
  by (simp add: current_file_def)

lemma foldl_prologue [simp]: "foldl file_step ps (List.map Prologue qs) = ps @ qs"
  by (induction qs arbitrary: ps) simp_all

lemma last_with_Nil [simp]: "last_with key k [] = None"
  by (simp add: last_with_def)

lemma last_with_snoc [simp]: "last_with key k (ps @ [p]) = (if key p = Some k then Some p else last_with key k ps)"
  by (simp add: last_with_def)

lemma last_with_in: "last_with key k ps = Some p \<Longrightarrow> p \<in> set ps \<and> key p = Some k"
  by (induction ps rule: rev_induct) (auto split: if_splits)

lemma last_with_unique:
  assumes "p \<in> set ps" and "key p = Some k" and "\<And>q. q \<in> set ps \<Longrightarrow> key q = Some k \<Longrightarrow> q = p"
  shows "last_with key k ps = Some p"
  using assms
proof (induction ps rule: rev_induct)
  case (snoc x xs)
  show ?case
  proof (cases "key x = Some k")
    case True
    then have "x = p" using snoc.prems(3) [of x] by simp
    then show ?thesis using True by simp
  next
    case False
    then have "p \<in> set xs" using snoc.prems(1,2) by auto
    then have "last_with key k xs = Some p"
      by (rule snoc.IH [OF _ snoc.prems(2)]) (rule snoc.prems(3), simp_all)
    then show ?thesis using False by simp
  qed
qed simp

lemma readable_mono: "readable ds p \<Longrightarrow> set ds \<subseteq> set ds' \<Longrightarrow> readable ds' p"
  by (auto simp: readable_def split: option.splits)

lemma self_described_append:
  "self_described ds (ps @ qs) \<longleftrightarrow> self_described ds ps \<and> self_described (foldl known ds ps) qs"
  by (induction ps arbitrary: ds) (auto simp del: known.simps)

lemma files_ok_append: "files_ok ds (es @ fs) \<longleftrightarrow> files_ok ds es \<and> files_ok (foldl known_step ds es) fs"
proof (induction es arbitrary: ds)
  case (Cons e es)
  then show ?case by (cases e) (auto simp del: known.simps)
qed simp

lemma files_ok_prologue [simp]: "files_ok ds (List.map Prologue ps) = self_described ds ps"
  by (induction ps arbitrary: ds) (auto simp del: known.simps)

text \<open>The devices that a list of packets describes.\<close>

definition descs :: "bytes list \<Rightarrow> u32 set" where
  "descs ps = {d. \<exists>p \<in> set ps. desc_key p = Some d}"

lemma descs_simps [simp]:
  "descs [] = {}" "descs (ps @ qs) = descs ps \<union> descs qs"
  "descs (p # ps) = set_option (desc_key p) \<union> descs ps"
  by (auto simp: descs_def)

lemma set_known: "set (known ds p) = set_option (desc_key p) \<union> set ds"
  by (simp split: option.splits)

lemma known_descs:
  "set ds = descs ps \<Longrightarrow> set (foldl known_step ds es) = descs (foldl file_step ps es)"
proof (induction es arbitrary: ds ps)
  case (Cons e es)
  have "set (known_step ds e) = descs (file_step ps e)"
    using Cons.prems by (cases e) (auto simp: set_known simp del: known.simps)
  then show ?case using Cons.IH by simp
qed simp

lemma known_current: "set (foldl known_step [] es) = descs (current_file es)"
  unfolding current_file_def by (rule known_descs) simp

section \<open>The packets of the devices\<close>

definition keyed :: "(u32, device_vars) fmap \<Rightarrow> bool" where
  "keyed ds \<longleftrightarrow> (\<forall>d dv. fmlookup ds d = Some dv \<longrightarrow> desc_key (dv_descriptor dv) = Some d \<and>
     (\<forall>v p. fmlookup (dv_vars dv) v = Some p \<longrightarrow> var_key p = Some (d, v)))"

text \<open>
  The last packets of a file are the packets of the devices; \<open>Y\<close> are devices whose descriptor is still
  to be written, \<open>X\<close> devices whose values are being replaced.
\<close>

definition covers :: "u32 set \<Rightarrow> u32 set \<Rightarrow> bytes list \<Rightarrow> (u32, device_vars) fmap \<Rightarrow> bool" where
  "covers Y X ps ds \<longleftrightarrow> (\<forall>d dv. fmlookup ds d = Some dv \<longrightarrow>
     (d \<notin> Y \<longrightarrow> last_with desc_key d ps = Some (dv_descriptor dv)) \<and>
     (d \<notin> X \<longrightarrow> (\<forall>v p. fmlookup (dv_vars dv) v = Some p \<longrightarrow>
        (\<exists>q. last_with var_key (d, v) ps = Some q \<and> settles q p))))"

lemma keyedD:
  assumes "keyed ds" and "fmlookup ds d = Some dv"
  shows "desc_key (dv_descriptor dv) = Some d"
    and "fmlookup (dv_vars dv) v = Some p \<Longrightarrow> var_key p = Some (d, v)"
  using assms by (auto simp: keyed_def)

lemma coversD:
  assumes "covers Y X ps ds" and "fmlookup ds d = Some dv"
  shows "d \<notin> Y \<Longrightarrow> last_with desc_key d ps = Some (dv_descriptor dv)"
    and "d \<notin> X \<Longrightarrow> fmlookup (dv_vars dv) v = Some p \<Longrightarrow> \<exists>q. last_with var_key (d, v) ps = Some q \<and> settles q p"
  using assms unfolding covers_def by blast+

lemma key_disjoint: "var_key p = Some k \<Longrightarrow> desc_key p = None"
  by (auto simp: var_key_def desc_key_def var_kinds_def split: if_splits)

lemma settled_var:
  assumes "dev_settles dv dv'" and "fmlookup (dv_vars dv') v = Some q"
  shows "\<exists>p. fmlookup (dv_vars dv) v = Some p \<and> settles p q"
  using assms by (auto simp: dev_settles_def rel_option_iff split: option.splits dest: spec [of _ v])

lemma keyed_settle:
  assumes "keyed ds" and "devices_settle ds ds'"
  shows "keyed ds'"
  unfolding keyed_def
proof (intro allI impI conjI)
  fix d dv' assume "fmlookup ds' d = Some dv'"
  then obtain dv where dv: "fmlookup ds d = Some dv" "dev_settles dv dv'"
    using devices_settle_lookup [OF assms(2)] by blast
  show "desc_key (dv_descriptor dv') = Some d"
    using keyedD(1) [OF assms(1) dv(1)] dv(2) by (simp add: dev_settles_def)
  fix v q assume "fmlookup (dv_vars dv') v = Some q"
  then obtain p where "fmlookup (dv_vars dv) v = Some p" "settles p q" using settled_var dv(2) by blast
  then show "var_key q = Some (d, v)" using keyedD(2) [OF assms(1) dv(1)] settles_key by simp
qed

lemma covers_settle:
  assumes "covers Y X ps ds" and "devices_settle ds ds'"
  shows "covers Y X ps ds'"
  unfolding covers_def
proof (intro allI impI conjI)
  fix d dv' assume "fmlookup ds' d = Some dv'"
  then obtain dv where dv: "fmlookup ds d = Some dv" "dev_settles dv dv'"
    using devices_settle_lookup [OF assms(2)] by blast
  show "d \<notin> Y \<Longrightarrow> last_with desc_key d ps = Some (dv_descriptor dv')"
    using coversD(1) [OF assms(1) dv(1)] dv(2) by (simp add: dev_settles_def)
  fix v q assume "d \<notin> X" and "fmlookup (dv_vars dv') v = Some q"
  then show "\<exists>r. last_with var_key (d, v) ps = Some r \<and> settles r q"
    using settled_var [OF dv(2)] coversD(2) [OF assms(1) dv(1)] settles_trans by blast
qed

section \<open>The prologue\<close>

lemma in_prologue:
  assumes "onPrologue junk ds = Inr (ps, ds')"
  shows "p \<in> set ps \<longleftrightarrow> (\<exists>d dv. fmlookup ds' d = Some dv \<and>
    (p = dv_descriptor dv \<or> (\<exists>v. fmlookup (dv_vars dv) v = Some p)))"
proof -
  have "p \<in> set ps \<longleftrightarrow> (\<exists>x \<in> set (entries ds'). p \<in> set (device_packets (snd x)))"
    by (auto simp: onPrologue_spec(4) [OF assms])
  also have "\<dots> \<longleftrightarrow> (\<exists>d dv. (d, dv) \<in> set (entries ds') \<and>
      (p = dv_descriptor dv \<or> (\<exists>v. (v, p) \<in> set (entries (dv_vars dv)))))"
    by (force simp: device_packets_def)
  finally show ?thesis by (simp only: in_entries)
qed

lemma prologue_covers:
  assumes "onPrologue junk ds = Inr (ps, ds')" and "keyed ds"
  shows "covers {} {} ps ds'"
  unfolding covers_def
proof (intro allI impI conjI)
  note ok = keyed_settle [OF assms(2) onPrologue_settles [OF assms(1)]]
  fix d dv assume dv: "fmlookup ds' d = Some dv"
  note keys = keyedD [OF ok]
  show "last_with desc_key d ps = Some (dv_descriptor dv)"
  proof (rule last_with_unique)
    show "dv_descriptor dv \<in> set ps" using dv in_prologue [OF assms(1)] by blast
    show "desc_key (dv_descriptor dv) = Some d" by (rule keys(1) [OF dv])
    fix q assume "q \<in> set ps" and q: "desc_key q = Some d"
    then obtain e w where w: "fmlookup ds' e = Some w"
        and "q = dv_descriptor w \<or> (\<exists>v. fmlookup (dv_vars w) v = Some q)"
      using in_prologue [OF assms(1)] by blast
    moreover have "fmlookup (dv_vars w) v \<noteq> Some q" for v
      using keys(2) [OF w, of v q] key_disjoint [of q] q by auto
    ultimately show "q = dv_descriptor dv" using keys(1) [OF w] q dv by auto
  qed
  fix v p assume p: "fmlookup (dv_vars dv) v = Some p"
  have "last_with var_key (d, v) ps = Some p"
  proof (rule last_with_unique)
    show "p \<in> set ps" using dv p in_prologue [OF assms(1)] by blast
    show "var_key p = Some (d, v)" by (rule keys(2) [OF dv p])
    fix q assume "q \<in> set ps" and q: "var_key q = Some (d, v)"
    then obtain e w where w: "fmlookup ds' e = Some w"
        and cases: "q = dv_descriptor w \<or> (\<exists>v. fmlookup (dv_vars w) v = Some q)"
      using in_prologue [OF assms(1)] by blast
    have "q \<noteq> dv_descriptor w" using key_disjoint [OF q] keys(1) [OF w] by auto
    then obtain u where u: "fmlookup (dv_vars w) u = Some q" using cases by blast
    then have "e = d" "u = v" using keys(2) [OF w u] q by simp_all
    then show "q = p" using w dv u p by simp
  qed
  then show "\<exists>q. last_with var_key (d, v) ps = Some q \<and> settles q p" by simp
qed

lemma device_self_described:
  assumes "desc_key (dv_descriptor dv) = Some d"
    and "\<And>v p. fmlookup (dv_vars dv) v = Some p \<Longrightarrow> var_key p = Some (d, v)"
  shows "self_described ds (device_packets dv)"
proof -
  have vars: "self_described es vs" if "\<And>p. p \<in> set vs \<Longrightarrow> \<exists>v. var_key p = Some (d, v)" "d \<in> set es" for es vs
    using that
  proof (induction vs arbitrary: es)
    case (Cons p vs)
    obtain v where v: "var_key p = Some (d, v)" using Cons.prems(1) [of p] by auto
    have "self_described es vs" by (rule Cons.IH) (use Cons.prems in auto)
    then show ?case using v key_disjoint [OF v] Cons.prems(2) by (simp add: readable_def)
  qed simp
  have "self_described (d # ds) (List.map snd (entries (dv_vars dv)))"
    by (rule vars) (use assms(2) in \<open>auto simp: in_entries\<close>)
  moreover have "readable ds (dv_descriptor dv)"
    using key_disjoint assms(1) by (auto simp: readable_def split: option.splits)
  ultimately show ?thesis using assms(1) by (simp add: device_packets_def)
qed

lemma devices_self_described:
  assumes "\<And>x es. x \<in> set xs \<Longrightarrow> self_described es (device_packets (snd x))"
  shows "self_described ds (concat (List.map (\<lambda>x. device_packets (snd x)) xs))"
  using assms
proof (induction xs arbitrary: ds)
  case (Cons x xs)
  have "self_described es (concat (List.map (\<lambda>x. device_packets (snd x)) xs))" for es
    by (rule Cons.IH) (rule Cons.prems, simp)
  then show ?case using Cons.prems [of x] by (simp add: self_described_append)
qed simp

lemma prologue_self_described:
  assumes "onPrologue junk ds = Inr (ps, ds')" and "keyed ds"
  shows "self_described es ps"
proof -
  note ok = keyed_settle [OF assms(2) onPrologue_settles [OF assms(1)]]
  have "self_described fs (device_packets (snd x))" if "x \<in> set (entries ds')" for x fs
  proof -
    have x: "fmlookup ds' (fst x) = Some (snd x)" using that in_entries [of "fst x" "snd x" ds'] by simp
    show ?thesis by (rule device_self_described [OF keyedD(1) [OF ok x] keyedD(2) [OF ok x]])
  qed
  then show ?thesis unfolding onPrologue_spec(4) [OF assms(1)] by (rule devices_self_described)
qed

section \<open>Writing a packet\<close>

definition file_inv :: "u32 set \<Rightarrow> u32 set \<Rightarrow> meta \<Rightarrow> bool" where
  "file_inv Y X M \<longleftrightarrow> keyed (m_devices M) \<and> files_ok [] (out (store M)) \<and>
     (out (store M) = [] \<longrightarrow> file_due (store M)) \<and>
     (out (store M) \<noteq> [] \<longrightarrow> covers Y X (current_file (out (store M))) (m_devices M))"

text \<open>A packet may be written: a value of a device that is described, a new descriptor.\<close>

definition may_write :: "u32 set \<Rightarrow> u32 set \<Rightarrow> (u32, device_vars) fmap \<Rightarrow> bytes \<Rightarrow> bool" where
  "may_write Y X ds p \<longleftrightarrow>
     (\<forall>d v. var_key p = Some (d, v) \<longrightarrow> (\<exists>dv. fmlookup ds d = Some dv \<and> d \<notin> Y \<and>
        (d \<in> X \<or> fmlookup (dv_vars dv) v = None))) \<and>
     (\<forall>d dv. desc_key p = Some d \<longrightarrow> fmlookup ds d = Some dv \<longrightarrow> dv_descriptor dv = p)"

lemma may_write_settle:
  assumes "may_write Y X ds p" and "devices_settle ds ds'"
  shows "may_write Y X ds' p"
proof -
  have forward: "\<exists>dv'. fmlookup ds' d = Some dv' \<and> dev_settles dv dv'" if "fmlookup ds d = Some dv" for d dv
    using assms(2) [unfolded devices_settle_def, rule_format, of d] that by (auto simp: option_rel_Some1)
  have slot: "fmlookup (dv_vars dv') v = None" if "dev_settles dv dv'" "fmlookup (dv_vars dv) v = None" for dv dv' v
    using that by (auto simp: dev_settles_def dest: spec [of _ v])
  show ?thesis
    unfolding may_write_def
  proof (intro conjI allI impI)
    fix d v assume "var_key p = Some (d, v)"
    then obtain dv where dv: "fmlookup ds d = Some dv" "d \<notin> Y" "d \<in> X \<or> fmlookup (dv_vars dv) v = None"
      using assms(1) by (auto simp: may_write_def)
    then obtain dv' where "fmlookup ds' d = Some dv'" "dev_settles dv dv'" using forward by blast
    then show "\<exists>dv'. fmlookup ds' d = Some dv' \<and> d \<notin> Y \<and> (d \<in> X \<or> fmlookup (dv_vars dv') v = None)"
      using dv slot by blast
  next
    fix d dv' assume "desc_key p = Some d" and "fmlookup ds' d = Some dv'"
    then show "dv_descriptor dv' = p"
      using devices_settle_lookup [OF assms(2)] assms(1) by (force simp: dev_settles_def may_write_def)
  qed
qed

lemma covers_snoc:
  assumes "covers Y X ps ds" and "may_write Y X ds p"
  shows "covers {d \<in> Y. desc_key p \<noteq> Some d} X (ps @ [p]) ds"
  unfolding covers_def
proof (intro allI impI conjI)
  fix d dv assume dv: "fmlookup ds d = Some dv"
  show "d \<notin> {d \<in> Y. desc_key p \<noteq> Some d} \<Longrightarrow> last_with desc_key d (ps @ [p]) = Some (dv_descriptor dv)"
    using coversD(1) [OF assms(1) dv] assms(2) dv by (auto simp: may_write_def)
  fix v q assume d: "d \<notin> X" and q: "fmlookup (dv_vars dv) v = Some q"
  have "var_key p \<noteq> Some (d, v)" using assms(2) d q dv by (auto simp: may_write_def)
  then show "\<exists>r. last_with var_key (d, v) (ps @ [p]) = Some r \<and> settles r q"
    using coversD(2) [OF assms(1) dv d q] by simp
qed

lemma covers_readable:
  assumes "covers Y X (current_file es) ds" and "may_write Y X ds p"
  shows "readable (foldl known_step [] es) p"
proof (cases "var_key p")
  case (Some k)
  obtain d v where k: "k = (d, v)" by fastforce
  then obtain dv where "fmlookup ds d = Some dv" "d \<notin> Y"
    using assms(2) Some by (auto simp: may_write_def)
  from last_with_in [OF coversD(1) [OF assms(1) this]] have "d \<in> descs (current_file es)"
    by (auto simp: descs_def)
  then show ?thesis using Some k by (simp add: readable_def known_current)
qed (simp add: readable_def)

lemma file_invD:
  assumes "file_inv Y X M"
  shows "keyed (m_devices M)" and "files_ok [] (out (store M))"
    and "\<not> file_due (store M) \<Longrightarrow> out (store M) \<noteq> []"
    and "out (store M) \<noteq> [] \<Longrightarrow> covers Y X (current_file (out (store M))) (m_devices M)"
  using assms by (auto simp: file_inv_def)

lemma covers_weaken: "covers Y X ps ds \<Longrightarrow> Y \<subseteq> Y' \<Longrightarrow> X \<subseteq> X' \<Longrightarrow> covers Y' X' ps ds"
  unfolding covers_def by blast

lemma start_file_files:
  assumes "start_file E M = Inr M'" and "file_inv Y X M"
  shows "file_inv {} {} M' \<and> out (store M') \<noteq> []"
proof -
  obtain ps ds where pro: "onPrologue (stack_junk E) (m_devices M) = Inr (ps, ds)"
    and M': "m_devices M' = ds" "out (store M') = out (store M) @ File_Start # List.map Prologue ps"
    using assms(1) by (auto simp: start_file_def sbind_eq_Inr write_out_def)
  note I = file_invD [OF assms(2)]
  have "current_file (out (store M')) = ps" by (simp add: M'(2) current_file_append)
  then show ?thesis
    using I(1,2) prologue_covers [OF pro I(1)] prologue_self_described [OF pro I(1)]
      keyed_settle [OF I(1) onPrologue_settles [OF pro]]
    by (simp add: file_inv_def M' files_ok_append)
qed

lemma state_snapshot_files:
  assumes "state_snapshot E M = Inr M'" and "file_inv Y X M" and "out (store M) \<noteq> []"
  shows "file_inv Y X M' \<and> out (store M') \<noteq> [] \<and>
    current_file (out (store M')) = current_file (out (store M))"
proof -
  obtain ps ds where pro: "onPrologue (stack_junk E) (m_devices M) = Inr (ps, ds)"
    and M': "m_devices M' = ds" "out (store M') = out (store M) @ [State_File ps]"
    using assms(1) by (auto simp: state_snapshot_def sbind_eq_Inr write_out_def)
  note I = file_invD [OF assms(2)] and settle = onPrologue_settles [OF pro]
  have same: "current_file (out (store M')) = current_file (out (store M))"
    by (simp add: M'(2) current_file_append)
  have "covers Y X (current_file (out (store M'))) ds"
    unfolding same by (rule covers_settle [OF I(4) [OF assms(3)] settle])
  then show ?thesis
    using I(2) prologue_self_described [OF pro I(1)] keyed_settle [OF I(1) settle] same
    by (simp add: file_inv_def M' files_ok_append)
qed

lemma addPacket_files:
  assumes add: "addPacket E p n M = Inr M'" and inv: "file_inv Y X M"
    and ok: "may_write Y X (m_devices M) p"
  shows "file_inv {d \<in> Y. desc_key p \<noteq> Some d} X M' \<and> out (store M') \<noteq> [] \<and>
    (\<forall>d. desc_key p = Some d \<longrightarrow> last_with desc_key d (current_file (out (store M'))) = Some p) \<and>
    (\<forall>k. var_key p = Some k \<longrightarrow> last_with var_key k (current_file (out (store M'))) = Some p)"
proof -
  let ?Y = "{d \<in> Y. desc_key p \<noteq> Some d}"
  obtain M1 where first: "(if file_due (store M) then start_file E M else Inr M) = Inr M1"
    and rest: "(let M2 = write_out [Stored p] M1; M3 = (if n then notify E M2 else M2) in
       if snapshot_due E (out (store M3)) then state_snapshot E M3 else Inr M3) = Inr M'"
    using add by (auto simp: addPacket_def sbind_eq_Inr)
  have M1: "file_inv Y X M1" "out (store M1) \<noteq> []" "devices_settle (m_devices M) (m_devices M1)"
  proof -
    show "file_inv Y X M1" "out (store M1) \<noteq> []"
      using first start_file_files [OF _ inv] file_invD(3) [OF inv] inv covers_weaken [of "{}" "{}" _ _ Y X]
      by (auto simp: file_inv_def split: if_splits)
    show "devices_settle (m_devices M) (m_devices M1)"
      using first start_file_step by (auto simp: stored_step_def devices_settle_def option.rel_refl split: if_splits)
  qed
  note ok1 = may_write_settle [OF ok M1(3)] and I = file_invD [OF M1(1)]
  note cov = I(4) [OF M1(2)]
  define M3 where "M3 = (if n then notify E (write_out [Stored p] M1) else write_out [Stored p] M1)"
  have M3: "m_devices M3 = m_devices M1" "out (store M3) = out (store M1) @ [Stored p]"
    by (simp_all add: M3_def notify_def write_out_def)
  have same: "current_file (out (store M3)) = current_file (out (store M1)) @ [p]"
    by (simp add: M3 current_file_append)
  have M3_inv: "file_inv ?Y X M3" "out (store M3) \<noteq> []"
    using I(1,2) covers_snoc [OF cov ok1] covers_readable [OF cov ok1]
    by (simp_all add: file_inv_def M3 files_ok_append same [unfolded M3])
  have after: "(if snapshot_due E (out (store M3)) then state_snapshot E M3 else Inr M3) = Inr M'"
    using rest unfolding M3_def Let_def .
  have "file_inv ?Y X M' \<and> out (store M') \<noteq> [] \<and>
      current_file (out (store M')) = current_file (out (store M1)) @ [p]"
    using after state_snapshot_files [OF _ M3_inv] M3_inv same by (simp split: if_splits)
  then show ?thesis by simp
qed

section \<open>The operations\<close>

lemma remap_keys:
  assumes "24 \<le> length p"
  shows "desc_key p \<noteq> None \<Longrightarrow> desc_key (remapDeviceId d p) = Some d"
    and "var_key p \<noteq> None \<Longrightarrow> var_key (remapDeviceId d p) = Some (d, fld p 1)"
  using assms by (auto simp: desc_key_def var_key_def remapDeviceId_def header_at_put_fld
      fld_put_fld_same fld_put_fld_other split: if_splits)

lemma disconnected_key: "var_key (disconnected_packet p) = var_key p"
  by (simp add: var_key_def disconnected_packet_def header_at_put_fld fld_put_fld_other)

lemma key_disjoint': "desc_key p = Some d \<Longrightarrow> var_key p = None"
  by (cases "var_key p") (auto dest: key_disjoint)

lemma file_inv_devices:
  assumes "file_inv Y X M" and "keyed ds"
    and "covers Y X (current_file (out (store M))) (m_devices M) \<Longrightarrow> covers Y' X' (current_file (out (store M))) ds"
    and "store M' = store M" and "m_devices M' = ds"
  shows "file_inv Y' X' M'"
  using assms by (simp add: file_inv_def)

lemma keyed_fmdrop: "keyed ds \<Longrightarrow> keyed (fmdrop d ds)"
  by (simp add: keyed_def)

lemma covers_fmdrop: "covers Y X ps ds \<Longrightarrow> Y \<subseteq> {d} \<Longrightarrow> X \<subseteq> {d} \<Longrightarrow> covers {} {} ps (fmdrop d ds)"
  unfolding covers_def by simp blast

lemma file_inv_fmdrop:
  assumes "file_inv Y X M" and "Y \<subseteq> {d}" and "X \<subseteq> {d}"
    and "store M' = store M" and "m_devices M' = fmdrop d (m_devices M)"
  shows "file_inv {} {} M'"
  by (rule file_inv_devices [OF assms(1) keyed_fmdrop [OF file_invD(1) [OF assms(1)]] _ assms(4,5)])
    (rule covers_fmdrop [OF _ assms(2,3)])

lemma keyed_fmupd:
  assumes "keyed ds" and "desc_key (dv_descriptor dv) = Some d"
    and "\<And>v p. fmlookup (dv_vars dv) v = Some p \<Longrightarrow> var_key p = Some (d, v)"
  shows "keyed (fmupd d dv ds)"
  using assms by (auto simp: keyed_def)

lemma covers_fmupd:
  assumes "covers Y X ps ds" and "d \<notin> Y' \<Longrightarrow> last_with desc_key d ps = Some (dv_descriptor dv)"
    and "\<And>v p. fmlookup (dv_vars dv) v = Some p \<Longrightarrow> \<exists>q. last_with var_key (d, v) ps = Some q \<and> settles q p"
    and "Y \<subseteq> insert d Y'" and "X \<subseteq> insert d X'"
  shows "covers Y' X' ps (fmupd d dv ds)"
  unfolding covers_def
proof (intro allI impI conjI)
  fix e w assume e: "fmlookup (fmupd d dv ds) e = Some w"
  show "e \<notin> Y' \<Longrightarrow> last_with desc_key e ps = Some (dv_descriptor w)"
    using e assms(2,4) coversD(1) [OF assms(1), of e w] by (auto split: if_splits)
  fix v p assume "e \<notin> X'" and "fmlookup (dv_vars w) v = Some p"
  then show "\<exists>q. last_with var_key (e, v) ps = Some q \<and> settles q p"
    using e assms(3,5) coversD(2) [OF assms(1), of e w v p] by (auto split: if_splits)
qed

lemma updateVariable_files:
  assumes inv: "file_inv {} {} M" and key: "var_key p = Some (d, v)"
    and upd: "updateVariable E d v p srcTag M = Inr M'"
  shows "file_inv {} {} M'"
proof (cases "\<exists>dv. fmlookup (m_devices M) d = Some dv \<and> dv_srcTag dv = srcTag")
  case True
  then obtain dv where dv: "fmlookup (m_devices M) d = Some dv" "dv_srcTag dv = srcTag" by blast
  define dv0 where "dv0 = dv\<lparr>dv_vars := fmdrop v (dv_vars dv)\<rparr>"
  define M0 where "M0 = M\<lparr>m_devices := fmupd d dv0 (m_devices M)\<rparr>"
  obtain M1 where M1: "addPacket E p True M0 = Inr M1" and M': "M' = (case fmlookup (m_devices M1) d of
      None \<Rightarrow> M1 | Some dv1 \<Rightarrow> M1\<lparr>m_devices := fmupd d (dv1\<lparr>dv_vars := fmupd v p (dv_vars dv1)\<rparr>) (m_devices M1)\<rparr>)"
    using upd dv by (auto simp: updateVariable_def sbind_eq_Inr M0_def dv0_def)
  note I = file_invD [OF inv]
  have inv0: "file_inv {} {} M0"
  proof (rule file_inv_devices [OF inv])
    show "keyed (m_devices M0)"
      unfolding M0_def meta.simps
      by simp (rule keyed_fmupd [OF I(1)], use keyedD [OF I(1) dv(1)] in \<open>auto simp: dv0_def split: if_splits\<close>)
    assume cov: "covers {} {} (current_file (out (store M))) (m_devices M)"
    show "covers {} {} (current_file (out (store M))) (m_devices M0)"
      unfolding M0_def
      by simp (rule covers_fmupd [OF cov], use coversD [OF cov dv(1)] in \<open>auto simp: dv0_def split: if_splits\<close>)
  qed (simp_all add: M0_def)
  have "may_write {} {} (m_devices M0) p"
    using key key_disjoint [OF key] by (simp add: may_write_def M0_def dv0_def)
  from addPacket_files [OF M1 inv0 this] have inv1: "file_inv {} {} M1" "out (store M1) \<noteq> []"
    and last: "last_with var_key (d, v) (current_file (out (store M1))) = Some p"
    using key by simp_all
  note J = file_invD [OF inv1(1)]
  show ?thesis
  proof (cases "fmlookup (m_devices M1) d")
    case (Some dv1)
    let ?dv = "dv1\<lparr>dv_vars := fmupd v p (dv_vars dv1)\<rparr>"
    have "keyed (fmupd d ?dv (m_devices M1))"
      by (rule keyed_fmupd [OF J(1)]) (use keyedD [OF J(1) Some] key in \<open>auto split: if_splits\<close>)
    moreover have "covers {} {} (current_file (out (store M1))) (fmupd d ?dv (m_devices M1))"
      if cov: "covers {} {} (current_file (out (store M1))) (m_devices M1)"
      by (rule covers_fmupd [OF cov]) (use coversD [OF cov Some] last in \<open>auto split: if_splits\<close>)
    ultimately show ?thesis by (intro file_inv_devices [OF inv1(1)]) (simp_all add: M' Some)
  qed (use M' inv1 in simp)
next
  case False
  then show ?thesis using upd inv by (auto simp: updateVariable_def split: option.splits if_splits)
qed

lemma updateValue_files:
  assumes "file_inv {} {} M" and "accepted_var p" and "updateValue E p srcTag M = Inr M'"
  shows "file_inv {} {} M'"
proof -
  let ?d = "lookupMappedDeviceId (fld p 0) srcTag M"
  have key: "var_key (remapDeviceId ?d p) = Some (?d, fld p 1)"
    by (rule remap_keys(2)) (use assms(2) in \<open>auto simp: accepted_var_def\<close>)
  show ?thesis
    using assms(3) assms(1) updateVariable_files [OF assms(1) key, of E srcTag M']
    unfolding updateValue_def Let_def by (simp split: if_splits)
qed

lemma store_descriptor_files:
  assumes inv: "file_inv {} {} M" and new: "fmlookup (m_devices M) d = None" and p: "accepted_ddp p"
    and store: "store_descriptor E p srcTag d M = Inr M'"
  shows "file_inv {} {} M'"
proof -
  define q where "q = remapDeviceId d p"
  have key: "desc_key q = Some d" unfolding q_def
    by (rule remap_keys(1)) (use p in \<open>auto simp: accepted_ddp_def\<close>)
  obtain M1 where M1: "addPacket E q True M = Inr M1"
    and M': "M' = M1\<lparr>m_devices := fmupd d \<lparr>dv_devId = ddp_devId p, dv_srcTag = srcTag, dv_descriptor = q,
        dv_vars = (case fmlookup (m_devices M1) d of None \<Rightarrow> fmempty | Some dv \<Rightarrow> dv_vars dv)\<rparr> (m_devices M1)\<rparr>"
    using store by (auto simp: store_descriptor_def Let_def sbind_eq_Inr q_def)
  have "may_write {} {} (m_devices M) q" using key key_disjoint' [OF key] new by (simp add: may_write_def)
  from addPacket_files [OF M1 inv this] have inv1: "file_inv {} {} M1"
    and last: "last_with desc_key d (current_file (out (store M1))) = Some q"
    using key by auto
  have "rel_option dev_settles (fmlookup (m_devices M) d) (fmlookup (m_devices M1) d)"
    using addPacket_step [OF M1] by (simp add: stored_step_def devices_settle_def)
  then have "fmlookup (m_devices M1) d = None" using new by simp
  then show ?thesis
    using last key file_invD(1) [OF inv1]
    by (intro file_inv_devices [OF inv1]) (auto simp: M' intro!: keyed_fmupd covers_fmupd)
qed

text \<open>The devices of dropped sources keep their descriptor and no values.\<close>

definition old_keyed :: "meta \<Rightarrow> bool" where
  "old_keyed M \<longleftrightarrow> (\<forall>d dv. fmlookup (m_oldDevices M) d = Some dv \<longrightarrow>
     desc_key (dv_descriptor dv) = Some d \<and> dv_vars dv = fmempty)"

lemma allocDev_files:
  assumes inv: "id_inv M" and room: "m_nextMappedDevId M < 0x80000000"
    and alloc: "allocDev dev s M = Some (M', d, r)"
    and files: "file_inv {} {} M" "old_keyed M"
  shows "file_inv (if r then {d} else {}) {} M' \<and> old_keyed M' \<and>
    (r \<longrightarrow> (\<exists>dv. fmlookup (m_devices M') d = Some dv \<and> dv_srcTag dv = s \<and>
       desc_key (dv_descriptor dv) = Some d \<and> dv_vars dv = fmempty))"
  using inv room alloc
proof (cases rule: allocDev_cases)
  case (old dv)
  have dv: "desc_key (dv_descriptor dv) = Some d" "dv_vars dv = fmempty"
    using files(2) old(3) by (auto simp: old_keyed_def)
  have "file_inv {d} {} M'"
    by (rule file_inv_devices [OF files(1)])
      (use dv file_invD(1) [OF files(1)] in \<open>auto simp: old(8) intro!: keyed_fmupd covers_fmupd\<close>)
  then show ?thesis using old dv files(2) by (auto simp: old_keyed_def)
next
  case new
  then have "file_inv {} {} M'"
    using files(1) by (simp add: file_inv_def)
  then show ?thesis using new files(2) by (simp add: old_keyed_def)
qed (use files in simp)

lemma old_keyed_stored: "stored_step M M' \<Longrightarrow> old_keyed M' = old_keyed M"
  by (simp add: old_keyed_def stored_step_ids)

lemma store_descriptor_old:
  "store_descriptor E p s d M = Inr M' \<Longrightarrow> m_oldDevices M' = m_oldDevices M"
  by (auto simp: store_descriptor_def Let_def sbind_eq_Inr stored_step_ids(1) [OF addPacket_step])

lemma emit_old_descriptor:
  assumes inv: "file_inv {d} {} M" and dv: "fmlookup (m_devices M) d = Some dv"
    and key: "desc_key (dv_descriptor dv) = Some d" and add: "addPacket E (dv_descriptor dv) True M = Inr M'"
  shows "file_inv {} {} M'"
proof -
  have "may_write {d} {} (m_devices M) (dv_descriptor dv)"
    using dv key key_disjoint' [OF key] by (simp add: may_write_def)
  from addPacket_files [OF add inv this]
  have "file_inv {e \<in> {d}. desc_key (dv_descriptor dv) \<noteq> Some e} {} M'" by blast
  also have "{e \<in> {d}. desc_key (dv_descriptor dv) \<noteq> Some e} = {}" using key by auto
  finally show ?thesis .
qed

lemma updateDescriptor_files:
  assumes inv: "id_inv M" and room: "m_nextMappedDevId M < 0x80000000"
    and files: "file_inv {} {} M" "old_keyed M" and p: "accepted_ddp p"
    and upd: "updateDescriptor E p s M = Some (Inr M')"
  shows "file_inv {} {} M' \<and> old_keyed M'"
proof -
  obtain M1 d r where alloc: "allocDev (ddp_devId p) s M = Some (M1, d, r)"
    using upd by (auto simp: updateDescriptor_def split: option.splits)
  note F = allocDev_files [OF inv room alloc files]
  show ?thesis
  proof (cases "fmlookup (m_devices M1) d")
    case None
    then have r: "\<not> r" using F by auto
    have "store_descriptor E p s d M1 = Inr M'"
      using upd alloc None by (simp add: updateDescriptor_def)
    then show ?thesis
      using store_descriptor_files [OF _ None p] store_descriptor_old F r by (simp add: old_keyed_def)
  next
    case (Some dv)
    define same where "same \<longleftrightarrow> packet_length (header_at (dv_descriptor dv)) = packet_length (header_at p) \<and>
        ddp_description (dv_descriptor dv) = ddp_description p"
    define M2 where "M2 = M1\<lparr>m_devices := fmdrop d (m_devices M1)\<rparr>"
    have M2: "file_inv {} {} M2" "old_keyed M2" "fmlookup (m_devices M2) d = None"
      using F file_inv_fmdrop [of "if r then {d} else {}" "{}" M1 d M2] by (auto simp: M2_def old_keyed_def)
    have body: "(if dv_srcTag dv \<noteq> s then Inr M1
       else if same then (if r then addPacket E (dv_descriptor dv) True M1 else Inr M1)
       else if ddp_description p = [] then Inr M2 else store_descriptor E p s d M2) = Inr M'"
      using upd unfolding updateDescriptor_def alloc option.case prod.case Some Let_def same_def M2_def option.inject .
    consider "\<not> r" "M' = M1" | "r" "addPacket E (dv_descriptor dv) True M1 = Inr M'" | "M' = M2"
      | "store_descriptor E p s d M2 = Inr M'"
    proof (cases "dv_srcTag dv = s")
      case False
      then have "\<not> r" using F Some by auto
      then show ?thesis using body False that(1) by simp
    next
      case True
      then show ?thesis using body that by (cases same; cases r; cases "ddp_description p = []") simp_all
    qed
    then show ?thesis
    proof cases
      case 2
      then show ?thesis
        using emit_old_descriptor [of d M1 dv E M'] Some F old_keyed_stored [OF addPacket_step [OF 2(2)]] by auto
    next
      case 4
      then show ?thesis
        using store_descriptor_files [OF M2(1,3) p 4] store_descriptor_old [OF 4] M2(2) by (simp add: old_keyed_def)
    qed (use F M2 in auto)
  qed
qed

lemma upstreamDisconnected_files:
  assumes "upstreamDisconnected E d vs M = Inr M'" and "file_inv {} {d} M"
  shows "file_inv {} {d} M'"
  using assms
proof (induction vs arbitrary: M)
  case (Cons v vs)
  show ?case
  proof (cases "Option.bind (fmlookup (m_devices M) d) (\<lambda>dv. fmlookup (dv_vars dv) v)")
    case None
    then show ?thesis using Cons by simp
  next
    case (Some p)
    then obtain dv where dv: "fmlookup (m_devices M) d = Some dv" "fmlookup (dv_vars dv) v = Some p"
      by (auto simp: bind_eq_Some_conv)
    obtain M1 where M1: "addPacket E (disconnected_packet p) False M = Inr M1"
        "upstreamDisconnected E d vs M1 = Inr M'"
      using Cons.prems(1) Some by (auto simp: sbind_eq_Inr)
    have key: "var_key (disconnected_packet p) = Some (d, v)"
      using keyedD(2) [OF file_invD(1) [OF Cons.prems(2)] dv] by (simp add: disconnected_key)
    have "may_write {} {d} (m_devices M) (disconnected_packet p)"
      using key key_disjoint [OF key] dv by (simp add: may_write_def)
    from addPacket_files [OF M1(1) Cons.prems(2) this] show ?thesis
      using Cons.IH [OF M1(2)] by simp
  qed
qed simp

lemma drop_devices_files:
  assumes "drop_devices E s ds Mb = Inr Mb'" and "file_inv {} {} (fst Mb)" and "old_keyed (fst Mb)"
  shows "file_inv {} {} (fst Mb') \<and> old_keyed (fst Mb')"
  using assms
proof (induction ds arbitrary: Mb)
  case (Cons d ds)
  show ?case
  proof (cases "\<exists>dv. fmlookup (m_devices (fst Mb)) d = Some dv \<and> dv_srcTag dv = s")
    case False
    then have "drop_devices E s ds Mb = Inr Mb'"
      using Cons.prems(1) by (auto split: option.splits if_splits)
    then show ?thesis using Cons.IH Cons.prems(2,3) by blast
  next
    case True
    then obtain dv M1 where dv: "fmlookup (m_devices (fst Mb)) d = Some dv"
      and up: "upstreamDisconnected E d (List.map fst (entries (dv_vars dv))) (fst Mb) = Inr M1"
      and rest: "drop_devices E s ds (drop_device s d M1, True) = Inr Mb'"
      using Cons.prems(1) by (auto simp: sbind_eq_Inr)
    have "file_inv {} {d} (fst Mb)"
      by (rule file_inv_devices [OF Cons.prems(2) file_invD(1) [OF Cons.prems(2)]])
        (auto intro: covers_weaken)
    note I = upstreamDisconnected_files [OF up this]
    note step = upstreamDisconnected_step [OF up]
    have "file_inv {} {} (drop_device s d M1)"
    proof (cases "fmlookup (m_devices M1) d")
      case (Some w)
      then show ?thesis by (intro file_inv_fmdrop [OF I, of d]) (simp_all add: drop_device_def)
    next
      case None
      have "rel_option dev_settles (fmlookup (m_devices (fst Mb)) d) (fmlookup (m_devices M1) d)"
        using step by (simp add: stored_step_def devices_settle_def)
      then show ?thesis using None dv by simp
    qed
    moreover have "old_keyed (drop_device s d M1)"
      using Cons.prems(3) old_keyed_stored [OF step] keyedD(1) [OF file_invD(1) [OF I]]
      by (auto simp: old_keyed_def drop_device_def split: option.splits if_splits)
    ultimately show ?thesis using Cons.IH [OF rest] by simp
  qed
qed simp

lemma dropSourceTag_files:
  assumes "file_inv {} {} M" and "old_keyed M" and drop: "dropSourceTag E s M = Inr M'"
  shows "file_inv {} {} M' \<and> old_keyed M'"
proof -
  obtain Mb where loop: "drop_devices E s (List.map fst (entries (m_devices M))) (M, False) = Inr Mb"
    and M': "M' = drop_ids s (if snd Mb then notify E (fst Mb) else fst Mb)"
    using drop by (auto simp: dropSourceTag_def sbind_eq_Inr)
  have "file_inv {} {} (fst Mb) \<and> old_keyed (fst Mb)"
    using drop_devices_files [OF loop] assms(1,2) by simp
  then show ?thesis
    by (cases "snd Mb") (auto simp: M' file_inv_def old_keyed_def drop_ids_def notify_def Let_def)
qed

lemma fast_ddp_key: "desc_key (fast_ddp sec nsec d ddp) = Some d"
proof -
  let ?padded = "(length ddp + 3) div 4 * 4"
  let ?ws = "[of_nat (?padded + 8), adara_pkt_type (type_code DEVICE_DESC_TYPE) (current_version DEVICE_DESC_TYPE),
    sec - epics_epoch_offset, nsec, d, of_nat (length ddp)]"
  let ?rest = "ddp @ replicate (?padded - length ddp) 0"
  have "u32_at (words_bytes ?ws @ ?rest) 4 = adara_pkt_type (type_code DEVICE_DESC_TYPE) (current_version DEVICE_DESC_TYPE)"
    using u32_at_words_append [of 1 ?ws ?rest] by simp
  then have "base_type (header_at (words_bytes ?ws @ ?rest)) = type_code DEVICE_DESC_TYPE"
    unfolding header_at_def pkt_header.simps
    by (simp only: pkt_type_base [OF type_code_bound current_version_bound])
  moreover have "fld (words_bytes ?ws @ ?rest) 0 = d"
    using fld_words_append [of 0 ?ws ?rest] by simp
  ultimately show ?thesis by (simp add: desc_key_def fast_ddp_def Let_def del: type_code.simps)
qed

lemma addFastMetaDDP_files:
  assumes inv: "file_inv {} {} M" and "old_keyed M" and str: "streaming \<or> out (store M) = []"
    and add: "addFastMetaDDP E streaming sec nsec d ddp M = Inr M'"
  shows "file_inv {} {} M' \<and> old_keyed M'"
proof (cases "fmlookup (m_devices M) d")
  case None
  define p where "p = fast_ddp sec nsec d ddp"
  note key = fast_ddp_key [of sec nsec d ddp, folded p_def]
  obtain M1 where M1: "(if streaming then addPacket E p True M else Inr M) = Inr M1"
    and M': "M' = M1\<lparr>m_devices := fmupd d \<lparr>dv_devId = - 1, dv_srcTag = 0, dv_descriptor = p, dv_vars = fmempty\<rparr>
      (m_devices M1)\<rparr>"
    using add unfolding addFastMetaDDP_def None option.case Let_def p_def [symmetric] sbind_eq_Inr by blast
  have step: "stored_step M M1" using M1 addPacket_step by (auto split: if_splits)
  have "may_write {} {} (m_devices M) p" using key key_disjoint' [OF key] None by (simp add: may_write_def)
  then have inv1: "file_inv {} {} M1"
    and last: "out (store M1) \<noteq> [] \<Longrightarrow> last_with desc_key d (current_file (out (store M1))) = Some p"
    using M1 addPacket_files [OF _ inv] key str inv by (auto split: if_splits)
  have "covers {} {} (current_file (out (store M1))) (m_devices M')"
    if "out (store M1) \<noteq> []" "covers {} {} (current_file (out (store M1))) (m_devices M1)"
    unfolding M' by simp (rule covers_fmupd [OF that(2)], use last [OF that(1)] in auto)
  moreover have "keyed (m_devices M')"
    unfolding M' by simp (rule keyed_fmupd [OF file_invD(1) [OF inv1]], use key in auto)
  ultimately have "file_inv {} {} M'"
    using inv1 by (simp add: file_inv_def M')
  then show ?thesis using assms(2) old_keyed_stored [OF step] by (simp add: M' old_keyed_def)
qed (use assms in \<open>simp add: addFastMetaDDP_def\<close>)

section \<open>Runs\<close>

lemma updateVariable_old: "updateVariable E d v p s M = Inr M' \<Longrightarrow> m_oldDevices M' = m_oldDevices M"
  by (auto simp: updateVariable_def sbind_eq_Inr stored_step_ids(1) [OF addPacket_step]
      split: option.splits if_splits)

lemma meta_op_files:
  assumes op: "meta_op E M M'" and inv: "id_inv M" and room: "m_nextMappedDevId M < 0x80000000"
    and files: "file_inv {} {} M" "old_keyed M"
  shows "file_inv {} {} M' \<and> old_keyed M'"
  using op
proof (cases rule: meta_op.cases)
  case descriptor
  then show ?thesis using updateDescriptor_files inv room files by blast
next
  case (val s p)
  have "m_oldDevices M' = m_oldDevices M"
    using val(3) updateVariable_old by (auto simp: updateValue_def Let_def split: if_splits)
  then show ?thesis using updateValue_files [OF files(1) val(2,3)] files(2) by (simp add: old_keyed_def)
next
  case disconnect
  then show ?thesis using dropSourceTag_files files by blast
next
  case (own_id dev d r)
  have "\<not> r" using inv room own_id by (cases rule: allocDev_cases) auto
  then show ?thesis using allocDev_files [OF inv room own_id files] by simp
next
  case (own_device d dev ddp streaming sec nsec)
  show ?thesis by (rule addFastMetaDDP_files [OF files own_device(3,4)])
next
  case (own_value p d v)
  note upd = own_value(3) [unfolded updateMappedVariable_def]
  show ?thesis
    using updateVariable_files [OF files(1) own_value(2) upd] updateVariable_old [OF upd] files(2)
    by (simp add: old_keyed_def)
next
  case (other_packet p n)
  have "may_write {} {} (m_devices M) p" using other_packet(1,2) by (simp add: may_write_def)
  then show ?thesis
    using addPacket_files [OF other_packet(3) files(1)] old_keyed_stored [OF addPacket_step [OF other_packet(3)]]
      files(2) by simp
next
  case file_end
  then show ?thesis using files by (simp add: file_inv_def old_keyed_def)
qed

lemma meta_run_files:
  assumes "meta_run E n M" and "n \<le> 0x7fffffff"
  shows "file_inv {} {} M \<and> old_keyed M"
  using assms
proof induction
  case start
  show ?case by (simp add: file_inv_def old_keyed_def new_meta_def keyed_def)
next
  case (step n M M')
  note R = meta_run_room [OF step.hyps(1)]
  show ?case
    using meta_op_files [OF step.hyps(2) R] step.IH step.prems by simp
qed

text \<open>
  C7. Every file of the output stream can be read by itself: in every file (and in every state file)
  that a run of the manager has written, sources coming and going, files rolling over at any packet, each
  value update belongs to a device whose descriptor stands before it in that file.
\<close>

theorem every_file_self_described:
  assumes "meta_run E n M" and "n \<le> 0x7fffffff"
  shows "files_ok [] (out (store M))"
  using meta_run_files [OF assms] by (simp add: file_inv_def)

theorem every_file_self_described_witness:
  "files_ok [] (out (store sample_meta)) \<and> out (store sample_meta) \<noteq> []"
  using every_file_self_described [OF sample_run] by (simp add: sample_meta_def)

text \<open>
  C6. A file holds the whole state: reading the current file to its end gives, for every device the
  manager knows, the descriptor it holds as the last one written, and for every variable a packet that
  is the one it holds, or of which it holds the single-value form.
\<close>

theorem current_file_holds_state:
  assumes "meta_run E n M" and "n \<le> 0x7fffffff" and "out (store M) \<noteq> []"
    and "fmlookup (m_devices M) d = Some dv"
  shows "last_with desc_key d (current_file (out (store M))) = Some (dv_descriptor dv) \<and>
    (\<forall>v p. fmlookup (dv_vars dv) v = Some p \<longrightarrow>
       (\<exists>q. last_with var_key (d, v) (current_file (out (store M))) = Some q \<and> settles q p))"
proof -
  have cov: "covers {} {} (current_file (out (store M))) (m_devices M)"
    using meta_run_files [OF assms(1,2)] assms(3) by (simp add: file_inv_def)
  show ?thesis using coversD [OF cov assms(4)] by blast
qed

definition sample_value :: bytes where
  "sample_value = mk_packet VAR_VALUE_U32_TYPE 0 [7, 3, 0, 42]"

definition sample_valued :: meta where
  "sample_valued = sample_meta\<lparr>
     m_devices := fmupd 1 (sample_dev\<lparr>dv_vars := fmupd 3 (remapDeviceId 1 sample_value) fmempty\<rparr>) fmempty,
     store := \<lparr>out = out (store sample_meta) @ [Stored (remapDeviceId 1 sample_value)], file_due = False\<rparr>\<rparr>"

lemma sample_value_fields: "fld sample_value 0 = 7" "fld sample_value 1 = 3" "accepted_var sample_value"
  using mk_packet_words(4) [of 0 "[7, 3, 0, 42]" VAR_VALUE_U32_TYPE 0] mk_packet_words(4) [of 1 "[7, 3, 0, 42]" VAR_VALUE_U32_TYPE 0]
  by (simp_all add: accepted_var_def var_key_def var_kinds_def sample_value_def mk_packet_words(1) mk_packet_header)

lemma sample_update: "updateValue quiet_env sample_value 1 sample_meta = Inr sample_valued"
  by (simp add: updateValue_def updateVariable_def sample_value_fields [unfolded One_nat_def] Let_def sample_meta_def
      sample_valued_def sample_dev_def lookupMappedDeviceId_def addPacket_def write_out_def notify_def quiet_env_def)

lemma sample_run_valued: "meta_run quiet_env 2 sample_valued"
proof -
  have "meta_op quiet_env sample_meta sample_valued"
    by (rule meta_op.val [OF _ sample_value_fields(3) sample_update]) simp
  from meta_path.step [OF sample_run this] show ?thesis by (simp add: numeral_2_eq_2)
qed

theorem current_file_holds_state_witness:
  "\<exists>q. last_with var_key (1, 3) (current_file (out (store sample_valued))) = Some q \<and>
     settles q (remapDeviceId 1 sample_value)"
proof -
  let ?dv = "sample_dev\<lparr>dv_vars := fmupd 3 (remapDeviceId 1 sample_value) fmempty\<rparr>"
  have "fmlookup (m_devices sample_valued) 1 = Some ?dv" by (simp add: sample_valued_def)
  from current_file_holds_state [OF sample_run_valued _ _ this] show ?thesis
    by (simp add: sample_valued_def)
qed

end
