(* ===== verification/Ordered_Map.thy ===== *)
theory Ordered_Map
  imports Prelude "HOL-Library.Product_Lexorder"
begin

text \<open>
  A \<open>std::map\<close> that is walked with iterators, as the list of its entries in key order. A position in
  the list is an iterator; \<open>om_insert\<close> is \<open>insert\<close> (it keeps an existing entry), \<open>om_update\<close> an
  assignment through the reference an iterator gives. \<open>Product_Lexorder\<close> orders pairs the way
  \<open>std::pair\<close> does.
\<close>

type_synonym ('k, 'v) omap = "('k \<times> 'v) list"

definition om_ok :: "('k::linorder, 'v) omap \<Rightarrow> bool" where
  "om_ok m = sorted_wrt (<) (List.map fst m)"

fun om_insert :: "'k::linorder \<Rightarrow> 'v \<Rightarrow> ('k, 'v) omap \<Rightarrow> ('k, 'v) omap" where
  "om_insert k v [] = [(k, v)]"
| "om_insert k v ((k', v') # m) =
     (if k < k' then (k, v) # (k', v') # m
      else if k = k' then (k', v') # m
      else (k', v') # om_insert k v m)"

definition om_update :: "'k \<Rightarrow> ('v \<Rightarrow> 'v) \<Rightarrow> ('k, 'v) omap \<Rightarrow> ('k, 'v) omap" where
  "om_update k f m = List.map (\<lambda>(k', v). (k', if k' = k then f v else v)) m"

text \<open>\<open>operator[]\<close> followed by an assignment: the entry is made if it is not there.\<close>

definition om_upsert :: "'k::linorder \<Rightarrow> 'v \<Rightarrow> ('v \<Rightarrow> 'v) \<Rightarrow> ('k, 'v) omap \<Rightarrow> ('k, 'v) omap" where
  "om_upsert k v0 f m = om_update k f (om_insert k v0 m)"

abbreviation om_keys :: "('k, 'v) omap \<Rightarrow> 'k set" where
  "om_keys m \<equiv> fst ` set m"

lemma om_ok_simps [simp]:
  "om_ok []"
  "om_ok (e # m) \<longleftrightarrow> (\<forall>k \<in> om_keys m. fst e < k) \<and> om_ok m"
  by (simp_all add: om_ok_def)

lemma om_ok_append: "om_ok (a @ b) \<longleftrightarrow> om_ok a \<and> om_ok b \<and> (\<forall>x \<in> om_keys a. \<forall>y \<in> om_keys b. x < y)"
  by (induction a) auto

lemma om_ok_distinct: "om_ok m \<Longrightarrow> distinct (List.map fst m)"
  by (induction m) auto

lemma om_ok_drop: "om_ok m \<Longrightarrow> om_ok (drop n m)"
  using om_ok_append [of "take n m" "drop n m"] by simp

lemma om_ok_nth_less: "om_ok m \<Longrightarrow> i < j \<Longrightarrow> j < length m \<Longrightarrow> fst (m ! i) < fst (m ! j)"
  by (simp add: om_ok_def sorted_wrt_iff_nth_less)

lemma om_keys_insert [simp]: "om_keys (om_insert k v m) = insert k (om_keys m)"
  by (induction k v m rule: om_insert.induct) auto

lemma om_ok_insert [simp]: "om_ok m \<Longrightarrow> om_ok (om_insert k v m)"
  by (induction k v m rule: om_insert.induct) auto

lemma om_keys_iff: "k \<in> om_keys m \<longleftrightarrow> map_of m k \<noteq> None"
  by (simp add: map_of_eq_None_iff)

lemma map_of_om_insert:
  "om_ok m \<Longrightarrow> map_of (om_insert k v m) k' =
     (if k' = k \<and> map_of m k = None then Some v else map_of m k')"
proof (induction k v m rule: om_insert.induct)
  case (2 k v k1 v1 m)
  have "map_of m k = None" if "k < k1"
    using 2(2) that by (force simp: map_of_eq_None_iff)
  then show ?case using 2 by auto
qed auto

lemma om_insert_old: "om_ok m \<Longrightarrow> k \<in> om_keys m \<Longrightarrow> om_insert k v m = m"
proof (induction k v m rule: om_insert.induct)
  case (2 k v k1 v1 m)
  have k: "k = k1 \<or> k1 < k"
    using 2(2,3) by auto
  then have "\<not> k < k1"
    by auto
  with k 2 show ?case by auto
qed simp

lemma om_insert_new: "k \<notin> om_keys m \<Longrightarrow> set (om_insert k v m) = insert (k, v) (set m)"
  by (induction k v m rule: om_insert.induct) auto

lemma om_insert_split:
  "k \<notin> om_keys m \<Longrightarrow> \<exists>a b. m = a @ b \<and> om_insert k v m = a @ (k, v) # b"
proof (induction k v m rule: om_insert.induct)
  case (2 k v k1 v1 m)
  show ?case
  proof (cases "k < k1")
    case True
    then show ?thesis by (auto intro: exI [of _ "[]"])
  next
    case False
    then obtain a b where "m = a @ b" "om_insert k v m = a @ (k, v) # b"
      using 2 by (auto simp: not_less)
    then have "(k1, v1) # m = ((k1, v1) # a) @ b"
      "om_insert k v ((k1, v1) # m) = ((k1, v1) # a) @ (k, v) # b"
      using False 2(2) by auto
    then show ?thesis by blast
  qed
qed simp

lemma om_keys_update [simp]: "om_keys (om_update k f m) = om_keys m"
  by (force simp: om_update_def)

lemma length_om_update [simp]: "length (om_update k f m) = length m"
  by (simp add: om_update_def)

lemma fst_om_update [simp]: "List.map fst (om_update k f m) = List.map fst m"
  by (induction m) (auto simp: om_update_def)

lemma om_ok_update [simp]: "om_ok (om_update k f m) = om_ok m"
  by (simp add: om_ok_def)

lemma map_of_om_update:
  "map_of (om_update k f m) k' = (if k' = k then map_option f (map_of m k') else map_of m k')"
  by (induction m) (auto simp: om_update_def)

lemma om_update_notin: "k \<notin> om_keys m \<Longrightarrow> om_update k f m = m"
  by (induction m) (auto simp: om_update_def)

lemma om_update_append: "om_update k f (a @ b) = om_update k f a @ om_update k f b"
  by (simp add: om_update_def)

lemma om_update_Cons: "om_update k f ((k', v) # m) = (k', if k' = k then f v else v) # om_update k f m"
  by (simp add: om_update_def)

lemma set_om_update:
  "(k', v) \<in> set (om_update k f m) \<longleftrightarrow> (\<exists>v0. (k', v0) \<in> set m \<and> v = (if k' = k then f v0 else v0))"
  by (force simp: om_update_def split: if_splits)

lemma om_split:
  assumes "om_ok m" and "map_of m k = Some v"
  obtains a b where "m = a @ (k, v) # b" "k \<notin> om_keys a" "k \<notin> om_keys b"
proof -
  from map_of_SomeD [OF assms(2)] obtain a b where m: "m = a @ (k, v) # b"
    by (auto simp: in_set_conv_decomp)
  show thesis
  proof (rule that [OF m])
    show "k \<notin> om_keys a" "k \<notin> om_keys b"
      using assms(1) by (force simp: m om_ok_append)+
  qed
qed

lemma om_update_split: "k \<notin> om_keys a \<Longrightarrow> k \<notin> om_keys b \<Longrightarrow>
    om_update k f (a @ (k, v) # b) = a @ (k, f v) # b"
  by (simp add: om_update_append om_update_Cons om_update_notin)

lemma om_upsert_ok [simp]: "om_ok m \<Longrightarrow> om_ok (om_upsert k v f m)"
  by (simp add: om_upsert_def)

lemma map_of_om_upsert:
  "om_ok m \<Longrightarrow> map_of (om_upsert k v0 f m) k' =
     (if k' = k then Some (f (case map_of m k of None \<Rightarrow> v0 | Some v \<Rightarrow> v)) else map_of m k')"
  by (auto simp: om_upsert_def map_of_om_update map_of_om_insert split: option.split)

lemma om_keys_upsert [simp]: "om_keys (om_upsert k v0 f m) = insert k (om_keys m)"
  by (simp add: om_upsert_def)

text \<open>Sums over the entries, such as the number of events of all monitors.\<close>

lemma om_sum_insert:
  fixes g :: "'v \<Rightarrow> nat"
  assumes "om_ok m" and "g v = 0"
  shows "sum_list (List.map (\<lambda>e. g (snd e)) (om_insert k v m)) = sum_list (List.map (\<lambda>e. g (snd e)) m)"
proof (cases "k \<in> om_keys m")
  case True
  then show ?thesis by (simp add: om_insert_old assms(1))
next
  case False
  from om_insert_split [OF this] obtain a b where "m = a @ b" "om_insert k v m = a @ (k, v) # b" by blast
  then show ?thesis by (simp add: assms(2))
qed

lemma om_sum_update:
  fixes g :: "'v \<Rightarrow> nat"
  assumes "om_ok m" and "map_of m k = Some v"
  shows "sum_list (List.map (\<lambda>e. g (snd e)) (om_update k f m)) + g v =
    sum_list (List.map (\<lambda>e. g (snd e)) m) + g (f v)"
proof -
  from om_split [OF assms] obtain a b where "m = a @ (k, v) # b" "k \<notin> om_keys a" "k \<notin> om_keys b" .
  then show ?thesis by (simp add: om_update_split)
qed

lemma om_sum_upsert:
  fixes g :: "'v \<Rightarrow> nat"
  assumes "om_ok m" and "g v0 = 0" and "\<And>v. g (f v) = g v + n"
  shows "sum_list (List.map (\<lambda>e. g (snd e)) (om_upsert k v0 f m)) = sum_list (List.map (\<lambda>e. g (snd e)) m) + n"
proof -
  obtain v where "map_of (om_insert k v0 m) k = Some v"
    by (cases "map_of m k") (simp_all add: map_of_om_insert assms(1))
  from om_sum_update [OF om_ok_insert [OF assms(1)] this, of g f]
  show ?thesis by (simp add: om_upsert_def om_sum_insert assms)
qed

lemma om_update_all:
  assumes "\<forall>(k, v) \<in> set m. P k v" and "\<And>v. map_of m k = Some v \<Longrightarrow> P k v \<Longrightarrow> P k (f v)" and "om_ok m"
  shows "\<forall>(k', v) \<in> set (om_update k f m). P k' v"
proof (cases "map_of m k")
  case None
  then have "om_update k f m = m"
    by (intro om_update_notin) (simp add: map_of_eq_None_iff)
  with assms(1) show ?thesis by simp
next
  case (Some v)
  from om_split [OF assms(3) Some] obtain a b where "m = a @ (k, v) # b" "k \<notin> om_keys a" "k \<notin> om_keys b" .
  then show ?thesis using assms(1) assms(2) [OF Some] by (auto simp: om_update_split)
qed

end
