(* ===== verification/Pixel_Map.thy ===== *)
theory Pixel_Map
  imports Ordered_Map "HOL-Library.FSet"
begin

text \<open>
  \<open>PixelMap\<close> (\<open>sms/PixelMap.cc\<close>, \<open>sms/PixelMap.h\<close>): the mapping file as parsed lines, the map from
  physical pixels to a logical pixel and a bank that is read from it, and the two tables built from
  the map for the lookups of every event. \<open>sscanf\<close> and the text of a line are outside: a line is
  the numbers that were scanned.
\<close>

unbundle bit_operations_syntax

section \<open>Reading the file\<close>

text \<open>A pixel column is one number or \<open>start:stop:step\<close>.\<close>

datatype pixel_spec = Single u32 | Steps u32 u32 u32

record map_line =
  physical_spec :: pixel_spec
  logical_spec :: pixel_spec
  line_bank :: u32

definition UNMAPPED_BANK :: u16 where "UNMAPPED_BANK = 0xffff"
definition ERROR_BANK :: u16 where "ERROR_BANK = 0xfffe"
definition REAL_BANK_OFFSET :: nat where "REAL_BANK_OFFSET = 2"

type_synonym temp_map = "(u32, u32 \<times> u16) omap"

text \<open>Start, stop (one step past the last) and step of a column; the sum wraps.\<close>

fun spec_bounds :: "pixel_spec \<Rightarrow> u32 \<times> u32 \<times> u32" where
  "spec_bounds (Single p) = (p, p + 1, 1)"
| "spec_bounds (Steps a b s) = (a, b + s, s)"

record line_state =
  ls_map :: temp_map
  ls_output :: "u32 fset"
  ls_bank :: u32

text \<open>The checks of one pixel and its entry, as the body of the loop does them.\<close>

definition add_pixel :: "bool \<Rightarrow> u32 \<Rightarrow> u32 \<Rightarrow> line_state \<Rightarrow> string + line_state" where
  "add_pixel non1to1 physical logical s =
     (if physical AND 0x80000000 \<noteq> 0 then Inl ''Physical PixelId has Error Bit Set''
      else if physical \<in> om_keys (ls_map s) then Inl ''Duplicate Physical PixelId''
      else if \<not> non1to1 \<and> logical |\<in>| ls_output s then Inl ''Duplicate Logical PixelId''
      else if ls_bank s = ucast UNMAPPED_BANK then Inl ''Reserved Bank Id (Unmapped Bank)''
      else if ls_bank s = ucast ERROR_BANK then Inl ''Reserved Bank Id (Error Bank)''
      else sbind (if ls_bank s = 0xffffffff then Inr (ucast UNMAPPED_BANK)
                  else if ls_bank s \<ge> 0x10000 then Inl ''Out-of-Range Bank''
                  else Inr (ls_bank s)) (\<lambda>bank.
        Inr \<lparr>ls_map = om_insert physical (logical, ucast bank) (ls_map s),
             ls_output = finsert logical (ls_output s), ls_bank = bank\<rparr>))"

text \<open>
  The loop over the pixels of a line. When pixels may share a logical pixel, a logical sequence
  that ends first starts again: the code steps back once and lets the loop step forward.
\<close>

partial_function (option) line_loop ::
    "bool \<Rightarrow> u32 \<times> u32 \<times> u32 \<Rightarrow> u32 \<times> u32 \<times> u32 \<Rightarrow> u32 \<Rightarrow> u32 \<Rightarrow> line_state \<Rightarrow>
     (string + line_state) option" where
  "line_loop non1to1 pb lb physical logical s =
     (if physical \<noteq> fst (snd pb) \<and> logical \<noteq> fst (snd lb)
      then (case add_pixel non1to1 physical logical s of
              Inl e \<Rightarrow> Some (Inl e)
            | Inr s' \<Rightarrow>
                line_loop non1to1 pb lb (physical + snd (snd pb))
                  (if non1to1 \<and> logical + snd (snd lb) = fst (snd lb)
                      \<and> physical + snd (snd pb) \<noteq> fst (snd pb)
                   then fst lb - snd (snd lb) + snd (snd lb)
                   else logical + snd (snd lb)) s')
      else if physical \<noteq> fst (snd pb) \<or> logical \<noteq> fst (snd lb)
      then Some (Inl ''Misalignment Error in Pixel Map Shorthand'')
      else Some (Inr s))"

fun readMap_lines ::
    "bool \<Rightarrow> map_line list \<Rightarrow> temp_map \<Rightarrow> u32 fset \<Rightarrow> (string + temp_map) option" where
  "readMap_lines non1to1 [] m output = Some (Inr m)"
| "readMap_lines non1to1 (l # ls) m output =
     (let pb = spec_bounds (physical_spec l); lb = spec_bounds (logical_spec l) in
      case line_loop non1to1 pb lb (fst pb) (fst lb)
             \<lparr>ls_map = m, ls_output = output, ls_bank = line_bank l\<rparr> of
        None \<Rightarrow> None
      | Some (Inl e) \<Rightarrow> Some (Inl e)
      | Some (Inr s) \<Rightarrow> readMap_lines non1to1 ls (ls_map s) (ls_output s))"

definition readMap :: "bool \<Rightarrow> map_line list \<Rightarrow> (string + temp_map) option" where
  "readMap non1to1 ls =
     map_option (\<lambda>r. sbind r (\<lambda>m. if m = [] then Inl ''No Mapping in Pixel Map File'' else Inr m))
       (readMap_lines non1to1 ls [] {||})"

section \<open>The lookup tables\<close>

record pixel_map =
  m_table :: "(u32 \<times> u16) list"
  m_banks :: "u16 list"
  pm_numBanks :: u32

definition max_physical :: "temp_map \<Rightarrow> u32" where
  "max_physical m = fold (\<lambda>e a. if fst e > a then fst e else a) m 0"

definition max_logical :: "temp_map \<Rightarrow> u32" where
  "max_logical m =
     fold (\<lambda>e a. if fst (snd e) \<noteq> 0xffffffff \<and> fst (snd e) > a then fst (snd e) else a) m 0"

definition largest_bank :: "temp_map \<Rightarrow> u32" where
  "largest_bank m =
     fold (\<lambda>e a. if snd (snd e) \<noteq> UNMAPPED_BANK \<and> ucast (snd (snd e)) > a
                then ucast (snd (snd e)) else a) m 0"

definition fill_table :: "temp_map \<Rightarrow> (u32 \<times> u16) list" where
  "fill_table m =
     fold (\<lambda>e t. t[unat (fst e) := snd e]) m
       (List.map (\<lambda>i. (of_nat i OR 0x80000000, UNMAPPED_BANK)) [0 ..< unat (max_physical m) + 1])"

definition fill_banks :: "temp_map \<Rightarrow> u16 list" where
  "fill_banks m =
     fold (\<lambda>e t. if fst (snd e) \<noteq> 0xffffffff then t[unat (fst (snd e)) := snd (snd e)] else t) m
       (replicate (unat (max_logical m) + 1) UNMAPPED_BANK)"

definition new_PixelMap :: "temp_map \<Rightarrow> pixel_map" where
  "new_PixelMap m =
     \<lparr>m_table = fill_table m, m_banks = fill_banks m, pm_numBanks = largest_bank m + 1\<rparr>"

text \<open>The lookups; the flag tells that the pixel is not mapped.\<close>

definition mapEvent :: "pixel_map \<Rightarrow> u32 \<Rightarrow> u32 \<times> u16 \<times> bool" where
  "mapEvent pm physical =
     (let e = (if unat physical < length (m_table pm) then m_table pm ! unat physical
               else (physical OR 0x80000000, UNMAPPED_BANK))
      in (fst e, snd e, snd e = UNMAPPED_BANK))"

definition mapEventBank :: "pixel_map \<Rightarrow> u32 \<Rightarrow> u16 \<times> bool" where
  "mapEventBank pm logical =
     (let b = (if unat logical < length (m_banks pm) then m_banks pm ! unat logical
               else UNMAPPED_BANK)
      in (b, b = UNMAPPED_BANK))"

section \<open>What the file gives\<close>

text \<open>
  The map that a file gives: keys in order, no physical pixel with the error bit, no bank that
  stands for something else than a bank or the gap.
\<close>

definition temp_map_ok :: "temp_map \<Rightarrow> bool" where
  "temp_map_ok m \<longleftrightarrow> om_ok m \<and>
     (\<forall>(p, l, b) \<in> set m. p < 0x80000000 \<and> b \<noteq> ERROR_BANK)"

lemma no_error_bit: "physical AND 0x80000000 = 0 \<longleftrightarrow> physical < (0x80000000 :: u32)"
proof -
  have "physical AND 0x80000000 = 0 \<longleftrightarrow> \<not> bit physical 31"
    using and_exp_eq_0_iff_not_bit [of physical 31] by simp
  also have "\<dots> \<longleftrightarrow> physical < 0x80000000"
  proof
    assume no_bit: "\<not> bit physical 31"
    have "take_bit 31 physical = physical"
    proof (rule bit_word_eqI)
      fix n assume "n < LENGTH(32)"
      then have "n < 31 \<or> n = 31" by auto
      then show "bit (take_bit 31 physical) n = bit physical n"
        using no_bit by (auto simp: bit_take_bit_iff)
    qed
    then have "unat physical < 2 ^ 31" by (metis unat_take_bit_less)
    then show "physical < 0x80000000" by (simp add: word_less_nat_alt)
  next
    assume "physical < 0x80000000"
    then have "unat physical < 2 ^ 31" by (simp add: word_less_nat_alt)
    then show "\<not> bit physical 31" using bit_small [of physical 31 31] by auto
  qed
  finally show ?thesis .
qed

text \<open>
  Every pass of the loop adds a physical pixel below \<open>2 ^ 31\<close>, or stops, so the loop of a line ends
  whatever the line says, a step of zero included.
\<close>

lemma add_pixelD:
  assumes "add_pixel non1to1 physical logical s = Inr s'"
  shows "physical < 0x80000000" "physical \<notin> om_keys (ls_map s)"
    "\<exists>b. b \<noteq> ERROR_BANK \<and> ls_map s' = om_insert physical (logical, b) (ls_map s)"
    "\<not> non1to1 \<Longrightarrow> logical |\<notin>| ls_output s" "ls_output s' = finsert logical (ls_output s)"
proof -
  note s' = assms [unfolded add_pixel_def]
  show "physical < 0x80000000" "physical \<notin> om_keys (ls_map s)"
    "\<not> non1to1 \<Longrightarrow> logical |\<notin>| ls_output s" "ls_output s' = finsert logical (ls_output s)"
    using s' by (auto simp: no_error_bit [symmetric] sbind_eq_Inr split: if_splits)
  have "ucast b \<noteq> ERROR_BANK" if "b \<noteq> ucast ERROR_BANK" "b < 0x10000" for b :: u32
  proof
    assume "ucast b = ERROR_BANK"
    then have "unat (ucast b :: u16) = unat ERROR_BANK" by simp
    moreover have "unat (ucast b :: u16) = unat b"
      using that(2) by (simp add: unsigned_ucast_eq unsigned_take_bit_eq take_bit_nat_eq_self word_less_nat_alt)
    ultimately have "unat b = unat (ucast ERROR_BANK :: u32)"
      by (simp add: ERROR_BANK_def)
    then show False using that(1) by (simp add: word_unat_eq_iff)
  qed
  moreover have "UNMAPPED_BANK \<noteq> ERROR_BANK"
    by (simp add: UNMAPPED_BANK_def ERROR_BANK_def)
  ultimately have "ucast (ls_bank s') \<noteq> ERROR_BANK \<and>
      ls_map s' = om_insert physical (logical, ucast (ls_bank s')) (ls_map s)"
    using s' by (auto simp: sbind_eq_Inr UNMAPPED_BANK_def not_le split: if_splits)
  then show "\<exists>b. b \<noteq> ERROR_BANK \<and> ls_map s' = om_insert physical (logical, b) (ls_map s)"
    by blast
qed

lemma physical_space: "finite A \<Longrightarrow> A \<subseteq> {p :: u32. p < 0x80000000} \<Longrightarrow> card A \<le> 2 ^ 31"
proof -
  assume "finite A" "A \<subseteq> {p :: u32. p < 0x80000000}"
  then have "unat ` A \<subseteq> {..< 2 ^ 31}" by (auto simp: word_less_nat_alt)
  then have "card (unat ` A) \<le> card {..< 2 ^ 31 :: nat}" by (rule card_mono [rotated]) simp
  moreover have "inj_on unat A" by (rule inj_onI) (rule unsigned_word_eqI)
  ultimately show ?thesis by (simp add: card_image)
qed

text \<open>What a line keeps: the map is well formed, and one to one unless the file may be otherwise.\<close>

abbreviation logicals :: "temp_map \<Rightarrow> u32 list" where
  "logicals m \<equiv> List.map (\<lambda>e. fst (snd e)) m"

definition line_inv :: "bool \<Rightarrow> line_state \<Rightarrow> bool" where
  "line_inv non1to1 s \<longleftrightarrow>
     temp_map_ok (ls_map s) \<and> set (logicals (ls_map s)) \<subseteq> fset (ls_output s) \<and>
     (\<not> non1to1 \<longrightarrow> distinct (logicals (ls_map s)))"

lemma temp_map_okD:
  assumes "temp_map_ok m"
  shows "om_ok m" "(p, l, b) \<in> set m \<Longrightarrow> p < 0x80000000" "(p, l, b) \<in> set m \<Longrightarrow> b \<noteq> ERROR_BANK"
  using assms by (auto simp: temp_map_ok_def)

lemma add_pixel_inv:
  assumes "line_inv non1to1 s" and step: "add_pixel non1to1 physical logical s = Inr s'"
  shows "line_inv non1to1 s'"
proof -
  note new = add_pixelD [OF step]
  from new(3) obtain b where b: "b \<noteq> ERROR_BANK"
    and m': "ls_map s' = om_insert physical (logical, b) (ls_map s)" by blast
  from om_insert_split [OF new(2)] obtain u w where m: "ls_map s = u @ w"
    and ins: "om_insert physical (logical, b) (ls_map s) = u @ (physical, logical, b) # w" by blast
  have m2: "ls_map s' = u @ (physical, logical, b) # w" using m' ins by simp
  have ok: "temp_map_ok (ls_map s)" and out: "set (logicals (ls_map s)) \<subseteq> fset (ls_output s)"
    and d: "\<not> non1to1 \<Longrightarrow> distinct (logicals (ls_map s))"
    using assms(1) by (auto simp: line_inv_def)
  have "temp_map_ok (ls_map s')"
    using ok new(1,2) b by (auto simp: temp_map_ok_def m' om_insert_new simp del: om_keys_insert)
  moreover have "set (logicals (ls_map s')) \<subseteq> fset (ls_output s')"
    using out by (auto simp: m2 m new(5))
  moreover have "\<not> non1to1 \<longrightarrow> distinct (logicals (ls_map s'))"
  proof
    assume one: "\<not> non1to1"
    then have "logical \<notin> set (logicals (ls_map s))"
      using new(4) out by blast
    with d [OF one] show "distinct (logicals (ls_map s'))"
      by (auto simp: m2 m)
  qed
  ultimately show ?thesis by (simp add: line_inv_def)
qed

lemma line_loop_ends:
  assumes "line_inv non1to1 s"
  shows "\<exists>r. line_loop non1to1 pb lb physical logical s = Some r \<and> (\<forall>s'. r = Inr s' \<longrightarrow> line_inv non1to1 s')"
  using assms
proof (induction "2 ^ 31 - card (om_keys (ls_map s))" arbitrary: physical logical s rule: less_induct)
  case less
  show ?case
  proof (cases "physical \<noteq> fst (snd pb) \<and> logical \<noteq> fst (snd lb)")
    case go: True
    show ?thesis
    proof (cases "add_pixel non1to1 physical logical s")
      case (Inl e)
      with go show ?thesis by (subst line_loop.simps) simp
    next
      case (Inr s')
      note new = add_pixelD [OF Inr]
      have inv: "line_inv non1to1 s'" by (rule add_pixel_inv [OF less.prems Inr])
      then have "om_keys (ls_map s') \<subseteq> {p. p < 0x80000000}"
        by (auto simp: line_inv_def dest: temp_map_okD(2))
      then have "card (om_keys (ls_map s')) \<le> 2 ^ 31"
        by (intro physical_space) simp_all
      moreover have "om_keys (ls_map s') = insert physical (om_keys (ls_map s))"
        using new(3) by (elim exE conjE) (simp only: om_keys_insert)
      then have "card (om_keys (ls_map s')) = Suc (card (om_keys (ls_map s)))"
        using new(2) by simp
      ultimately have "2 ^ 31 - card (om_keys (ls_map s')) < 2 ^ 31 - card (om_keys (ls_map s))"
        by linarith
      note IH = less.hyps [OF this inv]
      show ?thesis using go Inr IH by (subst line_loop.simps) simp
    qed
  next
    case False
    then show ?thesis using less.prems by (subst line_loop.simps) auto
  qed
qed

lemma readMap_lines_ends:
  assumes "line_inv non1to1 \<lparr>ls_map = m, ls_output = out, ls_bank = b\<rparr>"
  shows "\<exists>r. readMap_lines non1to1 ls m out = Some r \<and>
    (\<forall>m'. r = Inr m' \<longrightarrow> temp_map_ok m' \<and> (\<not> non1to1 \<longrightarrow> distinct (logicals m')))"
  using assms
proof (induction ls arbitrary: m out b)
  case Nil
  then show ?case by (simp add: line_inv_def)
next
  case (Cons l ls)
  let ?pb = "spec_bounds (physical_spec l)" and ?lb = "spec_bounds (logical_spec l)"
  let ?s = "\<lparr>ls_map = m, ls_output = out, ls_bank = line_bank l\<rparr>"
  have "line_inv non1to1 ?s" using Cons.prems by (simp add: line_inv_def)
  from line_loop_ends [OF this] obtain r
    where r: "line_loop non1to1 ?pb ?lb (fst ?pb) (fst ?lb) ?s = Some r"
      and inv: "\<And>s'. r = Inr s' \<Longrightarrow> line_inv non1to1 s'" by blast
  show ?case
  proof (cases r)
    case (Inl e)
    then show ?thesis by (simp add: r Let_def)
  next
    case (Inr s')
    have "line_inv non1to1 \<lparr>ls_map = ls_map s', ls_output = ls_output s', ls_bank = 0\<rparr>"
      using inv [OF Inr] by (simp add: line_inv_def)
    from Cons.IH [OF this] show ?thesis by (simp add: r Inr Let_def)
  qed
qed

text \<open>
  Reading a pixel map file always ends, with an error message or with a map, whatever starts,
  stops and steps its lines give (a step of zero included).
\<close>

theorem readMap_ends: "\<exists>r. readMap non1to1 ls = Some r"
proof -
  have "line_inv non1to1 \<lparr>ls_map = [], ls_output = {||}, ls_bank = 0\<rparr>"
    by (simp add: line_inv_def temp_map_ok_def)
  from readMap_lines_ends [OF this] show ?thesis by (auto simp: readMap_def)
qed

lemma readMap_ok:
  assumes "readMap non1to1 ls = Some (Inr m)"
  shows "temp_map_ok m" "m \<noteq> []" "\<not> non1to1 \<Longrightarrow> distinct (logicals m)"
proof -
  have "line_inv non1to1 \<lparr>ls_map = [], ls_output = {||}, ls_bank = 0\<rparr>"
    by (simp add: line_inv_def temp_map_ok_def)
  from readMap_lines_ends [OF this, of ls] assms
  show "temp_map_ok m" "m \<noteq> []" "\<not> non1to1 \<Longrightarrow> distinct (logicals m)"
    by (auto simp: readMap_def sbind_eq_Inr split: if_splits)
qed

section \<open>What the tables answer\<close>

lemma fold_largest_ge:
  "a \<le> fold (\<lambda>e a. if P e \<and> f e > a then f e else a) xs (a :: 'b::linorder)"
proof (induction xs arbitrary: a)
  case (Cons x xs)
  show ?case
    using Cons.IH [of "if P x \<and> f x > a then f x else a"] by (auto split: if_splits)
qed simp

lemma fold_largest:
  "x \<in> set xs \<Longrightarrow> P x \<Longrightarrow> f x \<le> fold (\<lambda>e a. if P e \<and> f e > a then f e else a) xs (a :: 'b::linorder)"
proof (induction xs arbitrary: a)
  case (Cons y ys)
  show ?case
    using Cons fold_largest_ge [of "if P y \<and> f y > a then f y else a" P f ys]
    by (auto split: if_splits)
qed simp

lemma fold_if_filter: "fold (\<lambda>e t. if P e then g e t else t) xs t = fold g (List.filter P xs) t"
  by (induction xs arbitrary: t) auto

lemma length_fold_update [simp]:
  "length (fold (\<lambda>e t. t[i e := v e]) xs t) = length t"
  by (induction xs arbitrary: t) auto

lemma nth_fold_update:
  "n < length t \<Longrightarrow> fold (\<lambda>e t. t[i e := v e]) xs t ! n =
     (case map_of (rev (List.map (\<lambda>e. (i e, v e)) xs)) n of None \<Rightarrow> t ! n | Some x \<Rightarrow> x)"
proof (induction xs arbitrary: t)
  case (Cons e xs)
  then show ?case by (auto simp: map_of_append map_add_def nth_list_update split: option.split)
qed simp

lemma map_of_rev_distinct:
  assumes "distinct (List.map fst xs)"
  shows "map_of (rev xs) = map_of xs"
proof
  fix k
  have "distinct (List.map fst (rev xs))" using assms by (simp add: rev_map [symmetric])
  then have "map_of (rev xs) k = Some v \<longleftrightarrow> map_of xs k = Some v" for v
    using assms by (simp add: map_of_eq_Some_iff)
  then show "map_of (rev xs) k = map_of xs k"
    by (cases "map_of xs k") (metis not_Some_eq)+
qed

lemma map_of_unat_keys:
  "map_of (List.map (\<lambda>e. (unat (fst e), snd e)) m) (unat p) = map_of m (p :: u32)"
  by (induction m) (auto simp: word_unat_eq_iff)

lemma max_physical_ge: "e \<in> set m \<Longrightarrow> fst e \<le> max_physical m"
  using fold_largest [of e m "\<lambda>_. True" fst 0] by (simp add: max_physical_def)

lemma max_logical_ge: "e \<in> set m \<Longrightarrow> fst (snd e) \<noteq> 0xffffffff \<Longrightarrow> fst (snd e) \<le> max_logical m"
  using fold_largest [of e m "\<lambda>e. fst (snd e) \<noteq> 0xffffffff" "\<lambda>e. fst (snd e)" 0]
  by (simp add: max_logical_def)

lemma largest_bank_ge:
  "e \<in> set m \<Longrightarrow> snd (snd e) \<noteq> UNMAPPED_BANK \<Longrightarrow> ucast (snd (snd e)) \<le> largest_bank m"
  using fold_largest [of e m "\<lambda>e. snd (snd e) \<noteq> UNMAPPED_BANK" "\<lambda>e. ucast (snd (snd e))" 0]
  by (simp add: largest_bank_def)

lemma mapEvent_new:
  assumes "temp_map_ok m"
  shows "mapEvent (new_PixelMap m) p =
    (case map_of m p of None \<Rightarrow> (p OR 0x80000000, UNMAPPED_BANK, True)
     | Some e \<Rightarrow> (fst e, snd e, snd e = UNMAPPED_BANK))"
proof -
  let ?t0 = "List.map (\<lambda>i. (of_nat i OR 0x80000000 :: u32, UNMAPPED_BANK)) [0 ..< unat (max_physical m) + 1]"
  have dist: "distinct (List.map fst (List.map (\<lambda>e. (unat (fst e), snd e)) m))"
    using om_ok_distinct [OF temp_map_okD(1) [OF assms]]
    by (simp add: distinct_map inj_on_def word_unat_eq_iff [symmetric])
  have len: "length (fill_table m) = unat (max_physical m) + 1"
    by (simp add: fill_table_def)
  have nth: "fill_table m ! unat p = (case map_of m p of None \<Rightarrow> ?t0 ! unat p | Some e \<Rightarrow> e)"
    if "unat p < length (fill_table m)"
    using nth_fold_update [of "unat p" ?t0 "\<lambda>e. unat (fst e)" snd m] that
    by (simp only: len map_of_rev_distinct [OF dist] map_of_unat_keys) (simp add: fill_table_def)
  have inside: "unat p < length (fill_table m)" if "map_of m p = Some e" for e
    using max_physical_ge [OF map_of_SomeD [OF that]] by (simp add: len word_le_nat_alt)
  have fresh: "?t0 ! unat p = (p OR 0x80000000, UNMAPPED_BANK)" if "unat p < length (fill_table m)"
    using that by (subst nth_map) (simp_all add: len nth_upt del: upt_Suc)
  show ?thesis
    using nth inside fresh
    by (cases "map_of m p") (auto simp: mapEvent_def new_PixelMap_def Let_def)
qed

text \<open>The bank a logical pixel gets is that of the last physical pixel mapped to it.\<close>

definition logical_banks :: "temp_map \<Rightarrow> (u32 \<times> u16) list" where
  "logical_banks m = rev (List.map snd (List.filter (\<lambda>e. fst (snd e) \<noteq> 0xffffffff) m))"

lemma mapEventBank_new:
  "mapEventBank (new_PixelMap m) l =
    (case map_of (logical_banks m) l of None \<Rightarrow> (UNMAPPED_BANK, True) | Some b \<Rightarrow> (b, b = UNMAPPED_BANK))"
proof -
  let ?f = "List.filter (\<lambda>e. fst (snd e) \<noteq> 0xffffffff) m"
  let ?t0 = "replicate (unat (max_logical m) + 1) UNMAPPED_BANK"
  have len: "length (fill_banks m) = unat (max_logical m) + 1"
    by (simp add: fill_banks_def fold_if_filter)
  have keys: "map_of (rev (List.map (\<lambda>e. (unat (fst (snd e)), snd (snd e))) ?f)) (unat l) =
      map_of (logical_banks m) l"
    using map_of_unat_keys [of "logical_banks m" l]
    by (simp add: logical_banks_def rev_map comp_def)
  have nth: "fill_banks m ! unat l = (case map_of (logical_banks m) l of None \<Rightarrow> ?t0 ! unat l | Some b \<Rightarrow> b)"
    if "unat l < length (fill_banks m)"
    using nth_fold_update [of "unat l" ?t0 "\<lambda>e. unat (fst (snd e))" "\<lambda>e. snd (snd e)" ?f] that
    by (simp only: len keys) (simp add: fill_banks_def fold_if_filter)
  have inside: "unat l < length (fill_banks m)" if "map_of (logical_banks m) l = Some b" for b
  proof -
    from map_of_SomeD [OF that] obtain e where "e \<in> set m" "fst (snd e) = l" "l \<noteq> 0xffffffff"
      by (auto simp: logical_banks_def)
    with max_logical_ge [of e m] show ?thesis by (simp add: len word_le_nat_alt)
  qed
  have fresh: "?t0 ! unat l = UNMAPPED_BANK" if "unat l < length (fill_banks m)"
    using that by (intro nth_replicate) (simp add: len)
  show ?thesis
    using nth inside fresh
    by (cases "map_of (logical_banks m) l") (auto simp: mapEventBank_def new_PixelMap_def Let_def)
qed

lemma largest_bank_small: "largest_bank m \<le> 0xffff"
proof -
  have "fold (\<lambda>e a. if P e \<and> ucast (f e :: u16) > a then ucast (f e) else a) m a \<le> 0xffff"
    if "a \<le> 0xffff" for P f and a :: u32
    using that
  proof (induction m arbitrary: a)
    case (Cons e m)
    have "ucast (f e) \<le> (0xffff :: u32)"
      using unsigned_less [of "f e", where 'a = nat]
      by (simp add: word_le_nat_alt unsigned_ucast_eq unsigned_take_bit_eq take_bit_nat_eq_self)
    with Cons show ?case by auto
  qed simp
  then show ?thesis by (simp add: largest_bank_def)
qed

lemma bank_below_numBanks:
  assumes "e \<in> set m" and "snd (snd e) \<noteq> UNMAPPED_BANK"
  shows "ucast (snd (snd e)) < pm_numBanks (new_PixelMap m)"
proof -
  have "unat (largest_bank m + 1) = unat (largest_bank m) + 1"
    using largest_bank_small [of m] by (simp add: word_le_nat_alt unat_word_ariths)
  then show ?thesis
    using largest_bank_ge [OF assms] by (simp add: new_PixelMap_def word_less_nat_alt word_le_nat_alt)
qed


text \<open>
  A detector that maps its pixels itself is sorted into the same banks: in a one to one map the
  bank of the logical pixel is the bank of the physical pixel it stands for.
\<close>

theorem mapped_and_raw_banks_agree:
  assumes "readMap False ls = Some (Inr m)" and "(p, l, b) \<in> set m" and "l \<noteq> 0xffffffff"
  shows "mapEventBank (new_PixelMap m) l = snd (mapEvent (new_PixelMap m) p)"
proof -
  note ok = readMap_ok [OF assms(1)]
  let ?f = "List.filter (\<lambda>e. fst (snd e) \<noteq> 0xffffffff) m"
  have p: "map_of m p = Some (l, b)"
    using om_ok_distinct [OF temp_map_okD(1) [OF ok(1)]] assms(2) by simp
  have "distinct (List.map fst (List.map snd ?f))"
    using ok(3) distinct_map_filter [of "\<lambda>e. fst (snd e)" m] by (simp add: comp_def)
  moreover have "(l, b) \<in> set (List.map snd ?f)"
    using assms(2,3) by force
  ultimately have "map_of (logical_banks m) l = Some b"
    by (simp add: logical_banks_def map_of_rev_distinct)
  then show ?thesis by (simp add: mapEventBank_new mapEvent_new [OF ok(1)] p)
qed

text \<open>A small file: two banks, a range in each, and a single gap pixel.\<close>

definition sample_lines :: "map_line list" where
  "sample_lines =
     [\<lparr>physical_spec = Steps 0 2 1, logical_spec = Steps 10 12 1, line_bank = 1\<rparr>,
      \<lparr>physical_spec = Single 5, logical_spec = Single 20, line_bank = 0xffffffff\<rparr>,
      \<lparr>physical_spec = Steps 8 6 0xffffffff, logical_spec = Steps 30 34 2, line_bank = 3\<rparr>]"

definition sample_map :: temp_map where
  "sample_map =
     [(0, 10, 1), (1, 11, 1), (2, 12, 1), (5, 20, 0xffff), (6, 34, 3), (7, 32, 3), (8, 30, 3)]"

lemma readMap_sample: "readMap False sample_lines = Some (Inr sample_map)"
  unfolding readMap_def sample_lines_def sample_map_def
  by (simp add: line_loop.simps add_pixel_def UNMAPPED_BANK_def ERROR_BANK_def Let_def word_le_nat_alt)


theorem mapped_and_raw_banks_agree_witness:
  "mapEventBank (new_PixelMap sample_map) 32 = snd (mapEvent (new_PixelMap sample_map) 7)"
  by (rule mapped_and_raw_banks_agree [OF readMap_sample, of 7 32 3]) (simp_all add: sample_map_def)

text \<open>
  A gap in the pixel space cannot be written as a range: the bank -1 of the line becomes the
  bank of unmapped pixels with the first pixel, and the second pixel is refused because of it. The
  same gap as two lines is accepted.
\<close>

theorem gap_range_refused:
  "readMap non1to1 [\<lparr>physical_spec = Steps 0 1 1, logical_spec = Steps 0 1 1, line_bank = 0xffffffff\<rparr>] =
     Some (Inl ''Reserved Bank Id (Unmapped Bank)'') \<and>
   readMap non1to1
     [\<lparr>physical_spec = Single 0, logical_spec = Single 0, line_bank = 0xffffffff\<rparr>,
      \<lparr>physical_spec = Single 1, logical_spec = Single 1, line_bank = 0xffffffff\<rparr>] =
     Some (Inr [(0, 0, UNMAPPED_BANK), (1, 1, UNMAPPED_BANK)])"
  unfolding readMap_def
  by (simp add: line_loop.simps add_pixel_def UNMAPPED_BANK_def ERROR_BANK_def Let_def word_le_nat_alt)

end
