(* ===== verification/Pixel_Packets.thy ===== *)
theory Pixel_Packets
  imports Pixel_Map Event_Packets "HOL-Library.Signed_Division"
begin

text \<open>
  The pixel map on the wire. The stream management service writes the map as a packet of sections
  (\<open>PixelMap::genAltPacket\<close>, \<open>sms/PixelMap.cc\<close>), where a run of pixels with constant steps is one
  section of six words; the translation service reads the sections back into the pixels of each
  bank (\<open>StreamParser::rxPacket(PixelMappingAltPkt)\<close>, \<open>stc/StreamParser.cpp\<close>). The two programs
  share no code for this format, so that they agree is a theorem here.
\<close>

unbundle bit_operations_syntax

section \<open>Writing the sections\<close>

record alt_enc =
  physical_start :: u32
  physical_stop :: u32
  physical_step :: u32
  logical_start :: u32
  logical_stop :: u32
  logical_step :: u32
  steps_set :: bool
  last_physical :: u32
  last_logical :: u32
  next_physical :: u32
  next_logical :: u32
  run_entries :: u16
  last_bank :: u16
  section_words :: "u32 list"

definition direct_section :: "alt_enc \<Rightarrow> u32 list" where
  "direct_section s =
     [physical_start s, push_bit 16 (ucast (last_bank s)) OR ucast (run_entries s), logical_start s]"

definition shorthand_section :: "alt_enc \<Rightarrow> u32 list" where
  "shorthand_section s =
     [physical_start s,
      push_bit 16 (ucast (last_bank s)) OR push_bit 15 1 OR ucast (run_entries s),
      physical_stop s,
      logical_start s,
      push_bit 16 (physical_step s) OR (logical_step s AND 0xffff),
      logical_stop s]"

definition close_section :: "alt_enc \<Rightarrow> u32 list" where
  "close_section s =
     (if last_bank s = UNMAPPED_BANK then []
      else if physical_start s \<noteq> physical_stop s \<and> physical_step s \<noteq> 0 \<and>
              logical_start s \<noteq> logical_stop s \<and> logical_step s \<noteq> 0
      then shorthand_section s else direct_section s)"

text \<open>A step does not fit the sixteen bits it gets in the section.\<close>

definition step_overflow :: "u32 \<Rightarrow> bool" where
  "step_overflow st \<longleftrightarrow> sint st > 32767 \<or> sint st < - 32767"

definition alt_first :: "u32 \<Rightarrow> u32 \<Rightarrow> u16 \<Rightarrow> alt_enc" where
  "alt_first physical logical bank =
     \<lparr>physical_start = physical, physical_stop = physical, physical_step = 0,
      logical_start = logical, logical_stop = logical, logical_step = 0, steps_set = False,
      last_physical = physical, last_logical = logical,
      next_physical = 0xffffffff, next_logical = 0xffffffff,
      run_entries = 1, last_bank = bank, section_words = []\<rparr>"

text \<open>The section is closed: its words are written and the bookkeeping starts again.\<close>

definition alt_restart :: "u32 \<Rightarrow> u32 \<Rightarrow> u16 \<Rightarrow> alt_enc \<Rightarrow> alt_enc" where
  "alt_restart physical logical bank s =
     s\<lparr>section_words := section_words s @ close_section s,
       physical_start := physical, physical_stop := 0xffffffff, physical_step := 0,
       logical_start := logical, logical_stop := 0xffffffff, logical_step := 0, steps_set := False,
       last_physical := 0xffffffff, last_logical := 0xffffffff,
       next_physical := 0xffffffff, next_logical := 0xffffffff,
       run_entries := 0, last_bank := bank\<rparr>"

definition alt_set_steps :: "u32 \<Rightarrow> u32 \<Rightarrow> alt_enc \<Rightarrow> alt_enc" where
  "alt_set_steps physical logical s =
     s\<lparr>physical_step := physical - last_physical s, logical_step := logical - last_logical s,
       steps_set := True\<rparr>"

definition alt_extend :: "u32 \<Rightarrow> u32 \<Rightarrow> alt_enc \<Rightarrow> alt_enc" where
  "alt_extend physical logical s =
     s\<lparr>physical_stop := physical, logical_stop := logical,
       last_physical := physical, last_logical := logical\<rparr>"

text \<open>The first pixel of the section goes out alone and the section starts at the current pixel.\<close>

definition alt_overflow :: "u32 \<Rightarrow> u32 \<Rightarrow> u16 \<Rightarrow> alt_enc \<Rightarrow> alt_enc" where
  "alt_overflow physical logical bank s =
     s\<lparr>section_words := section_words s @ direct_section s,
       physical_start := physical, physical_stop := physical, physical_step := 0,
       logical_start := logical, logical_stop := logical, logical_step := 0, steps_set := False,
       last_physical := physical, last_logical := logical, last_bank := bank,
       next_physical := 0xffffffff, next_logical := 0xffffffff, run_entries := 0\<rparr>"

definition alt_new_section :: "bool \<Rightarrow> u32 \<Rightarrow> u32 \<Rightarrow> u16 \<Rightarrow> alt_enc \<Rightarrow> bool" where
  "alt_new_section non1to1 physical logical bank s \<longleftrightarrow>
     bank \<noteq> last_bank s \<or>
     (steps_set s \<and> (physical \<noteq> next_physical s \<or> logical \<noteq> next_logical s)) \<or>
     (non1to1 \<and> logical = last_logical s) \<or>
     run_entries s \<ge> 0x7fff"

definition alt_step :: "bool \<Rightarrow> u32 \<times> u32 \<times> u16 \<Rightarrow> alt_enc \<Rightarrow> alt_enc" where
  "alt_step non1to1 = (\<lambda>(physical, logical, bank) s.
     let s1 = (if alt_new_section non1to1 physical logical bank s
               then alt_restart physical logical bank s
               else if \<not> steps_set s then alt_set_steps physical logical s else s);
         s2 = alt_extend physical logical s1;
         s3 = (if steps_set s2
               then if step_overflow (physical_step s2) \<or> step_overflow (logical_step s2)
                    then alt_overflow physical logical bank s2
                    else s2\<lparr>next_physical := physical + physical_step s2,
                            next_logical := logical + logical_step s2\<rparr>
               else s2)
     in s3\<lparr>run_entries := run_entries s3 + 1\<rparr>)"

fun alt_sections :: "bool \<Rightarrow> temp_map \<Rightarrow> u32 list" where
  "alt_sections non1to1 [] = []"
| "alt_sections non1to1 ((p, l, b) # m) =
     (let s = fold (alt_step non1to1) m (alt_first p l b) in section_words s @ close_section s)"

text \<open>The packet; \<open>sec\<close> and \<open>nsec\<close> are the time of day.\<close>

definition genAltPacket :: "bool \<Rightarrow> temp_map \<Rightarrow> u32 \<Rightarrow> u32 \<Rightarrow> u32 \<Rightarrow> bytes" where
  "genAltPacket non1to1 m numBanks sec nsec =
     (let ws = alt_sections non1to1 m in
      words_bytes
        ([of_nat (length ws) * 4 + 4,
          adara_pkt_type (type_code PIXEL_MAPPING_ALT_TYPE) (current_version PIXEL_MAPPING_ALT_TYPE),
          sec - epics_epoch_offset, nsec, numBanks - 1] @ ws))"

section \<open>Reading the sections\<close>

text \<open>
  How the reader stops: at the end of the packet, at a step of zero (it gives up on the packet), or
  by reading past the end of the packet. A loop that does not end is None.
\<close>

datatype parse_end = Parsed | Zero_Step | Past_End

type_synonym bank_pixels = "(u16 \<times> u32 \<times> u32) list"

text \<open>\<open>cnt\<close>: the quotient in 32-bit signed arithmetic, kept in an \<open>int16_t\<close>.\<close>

definition stride_count :: "u32 \<Rightarrow> u32 \<Rightarrow> u32 \<Rightarrow> 16 word" where
  "stride_count start stop st = word_of_int (sint (stop - start + st) sdiv sint st)"

partial_function (option) stride_loop ::
    "u32 \<Rightarrow> u32 \<Rightarrow> u32 \<Rightarrow> u32 \<Rightarrow> u32 \<Rightarrow> u32 \<Rightarrow> (u32 \<times> u32) list \<Rightarrow> (u32 \<times> u32) list option" where
  "stride_loop pstop lstop pstep lstep physical logical acc =
     (if physical \<noteq> pstop \<and> logical \<noteq> lstop
      then stride_loop pstop lstop pstep lstep (physical + pstep) (logical + lstep)
             (acc @ [(logical, physical)])
      else Some (acc @ [(lstop, pstop)]))"

definition section_bank :: "u32 \<Rightarrow> u16" where "section_bank w = ucast (drop_bit 16 w)"
definition section_shorthand :: "u32 \<Rightarrow> bool" where "section_shorthand w \<longleftrightarrow> w AND 0x8000 \<noteq> 0"
definition section_count :: "u32 \<Rightarrow> u16" where "section_count w = ucast (w AND 0x7fff)"
definition step_field :: "u32 \<Rightarrow> u32" where "step_field w = scast (ucast w :: 16 word)"

definition append_section ::
    "bank_pixels \<Rightarrow> (bank_pixels \<times> parse_end) option \<Rightarrow> (bank_pixels \<times> parse_end) option" where
  "append_section xs r = map_option (\<lambda>(ys, e). (xs @ ys, e)) r"

function read_sections :: "u32 list \<Rightarrow> (bank_pixels \<times> parse_end) option" where
  "read_sections ws =
     (case ws of
        [] \<Rightarrow> Some ([], Parsed)
      | [w] \<Rightarrow> Some ([], Past_End)
      | pstart # w # r \<Rightarrow>
          let bank = section_bank w; n = section_count w in
          if section_shorthand w
          then (case r of
                  pstop # lstart # steps # lstop # r' \<Rightarrow>
                    let pstep = step_field (drop_bit 16 steps); lstep = step_field steps in
                    if pstep = 0 \<or> lstep = 0 then Some ([], Zero_Step)
                    else if sint (stride_count pstart pstop pstep) \<noteq> int (unat n)
                    then read_sections r'
                    else if sint (stride_count lstart lstop lstep) \<noteq> int (unat n)
                    then read_sections r'
                    else if bank = UNMAPPED_BANK then read_sections r'
                    else (case stride_loop pstop lstop pstep lstep pstart lstart [] of
                            None \<Rightarrow> None
                          | Some px \<Rightarrow> append_section (List.map (Pair bank) px) (read_sections r'))
                | _ \<Rightarrow> Some ([], Past_End))
          else if bank = UNMAPPED_BANK then read_sections (drop (unat n) r)
          else if length r < unat n then Some ([], Past_End)
          else append_section
                 (List.map (\<lambda>(i, l). (bank, l, pstart + of_nat i)) (enumerate 0 (take (unat n) r)))
                 (read_sections (drop (unat n) r)))"
  by pat_completeness auto
termination
  by (relation "measure length") auto

declare read_sections.simps [simp del]

text \<open>The words of the packet the reader walks: the payload after the number of banks.\<close>

definition mapping_words :: "bytes \<Rightarrow> u32 list" where
  "mapping_words mem = List.map (fld mem) [1 ..< unat (payload_len (header_at mem)) div 4]"

definition rx_PixelMappingAlt :: "bytes \<Rightarrow> (bank_pixels \<times> parse_end) option" where
  "rx_PixelMappingAlt mem = read_sections (mapping_words mem)"

section \<open>The fields of a section\<close>

lemma and_bit15: "(w :: u32) AND 0x8000 \<noteq> 0 \<longleftrightarrow> bit w 15"
  using and_exp_eq_0_iff_not_bit [of w 15] by simp

lemma small_entries: "n < 0x8000 \<Longrightarrow> bit (n :: u16) i \<Longrightarrow> i < 15"
  using bit_small [of n 15 i] by (simp add: word_less_nat_alt)

lemma direct_word_fields:
  fixes b n :: u16
  assumes "n < 0x8000"
  defines "w \<equiv> push_bit 16 (ucast b) OR ucast n :: u32"
  shows "section_bank w = b" "section_shorthand w = False" "section_count w = n"
proof -
  note small = small_entries [OF assms(1)]
  show "section_bank w = b"
    unfolding w_def section_bank_def
    by (rule bit_word_eqI) (auto simp: bit_simps dest: bit_imp_le_length)
  show "section_shorthand w = False"
    unfolding w_def section_shorthand_def and_bit15 by (auto simp: bit_simps dest: small)
  show "section_count w = n"
    unfolding w_def section_count_def and_low_mask_u32
    by (rule bit_word_eqI) (auto simp: bit_simps dest: small)
qed

lemma shorthand_word_fields:
  fixes b n :: u16
  assumes "n < 0x8000"
  defines "w \<equiv> push_bit 16 (ucast b) OR push_bit 15 1 OR ucast n :: u32"
  shows "section_bank w = b" "section_shorthand w = True" "section_count w = n"
proof -
  note small = small_entries [OF assms(1)]
  show "section_bank w = b"
    unfolding w_def section_bank_def
    by (rule bit_word_eqI) (auto simp: bit_simps dest: bit_imp_le_length)
  show "section_shorthand w = True"
    unfolding w_def section_shorthand_def and_bit15 by (simp only: bit_simps) simp
  show "section_count w = n"
    unfolding w_def section_count_def and_low_mask_u32
    by (rule bit_word_eqI) (auto simp: bit_simps dest: small)
qed

lemma step_field_small:
  assumes "\<not> step_overflow st" and "(ucast w :: 16 word) = ucast st"
  shows "step_field w = st"
proof -
  have "sint (ucast st :: 16 word) = signed_take_bit 15 (signed_take_bit 31 (uint st))"
    by (simp add: signed_ucast_eq)
  also have "\<dots> = signed_take_bit 15 (sint st)"
    by (simp add: sint_uint)
  also have "\<dots> = sint st"
    using assms(1) by (intro signed_take_bit_int_eq_self) (auto simp: step_overflow_def)
  finally have "sint (ucast st :: 16 word) = sint st" .
  then have "sint (step_field w) = sint st"
    using assms(1)
    by (simp add: step_field_def assms(2) signed_scast_eq signed_take_bit_int_eq_self_iff step_overflow_def)
  then show ?thesis by (simp add: signed_word_eqI)
qed

lemma step_word_fields:
  fixes ps ls :: u32
  assumes "\<not> step_overflow ps" "\<not> step_overflow ls"
  defines "w \<equiv> push_bit 16 ps OR (ls AND 0xffff) :: u32"
  shows "step_field (drop_bit 16 w) = ps" "step_field w = ls"
proof -
  have "(ucast (drop_bit 16 w) :: 16 word) = ucast ps" "(ucast w :: 16 word) = ucast ls"
    unfolding w_def and_low_mask_u32
    by (rule bit_word_eqI; auto simp: bit_simps dest: bit_imp_le_length)+
  then show "step_field (drop_bit 16 w) = ps" "step_field w = ls"
    using assms by (auto intro: step_field_small)
qed

section \<open>A run with constant steps\<close>

lemma sint_run:
  assumes "n < 0x8000" "\<not> step_overflow st"
  shows "sint (of_nat n * st) = int n * sint st"
proof -
  have "\<bar>int n * sint st\<bar> \<le> 32767 * 32767"
    unfolding abs_mult by (rule mult_mono) (use assms in \<open>auto simp: step_overflow_def\<close>)
  then have "signed_take_bit 31 (int n * sint st) = int n * sint st"
    by (intro signed_take_bit_int_eq_self) auto
  moreover have "of_nat n * st = word_of_int (int n * sint st)"
    by simp
  ultimately show ?thesis by (simp only: signed_of_int) simp
qed

lemma run_not_zero:
  assumes "0 < n" "n < 0x8000" "\<not> step_overflow st" "st \<noteq> 0"
  shows "of_nat n * st \<noteq> (0 :: u32)"
proof
  assume "of_nat n * st = (0 :: u32)"
  then have "int n * sint st = 0"
    using sint_run [OF assms(2,3)] by simp
  then show False using assms(1,4) by (simp add: signed_eq_0_iff)
qed

lemma stride_count_run:
  assumes "0 < n" "n < 0x8000" "\<not> step_overflow st" "st \<noteq> 0"
  shows "sint (stride_count start (start + of_nat (n - 1) * st) st) = int n"
proof -
  have "start + of_nat (n - 1) * st - start + st = of_nat n * st"
    using assms(1) by (cases n) (simp_all add: algebra_simps)
  then have "stride_count start (start + of_nat (n - 1) * st) st = word_of_int (int n * sint st sdiv sint st)"
    using sint_run [OF assms(2,3)] by (simp add: stride_count_def)
  also have "int n * sint st sdiv sint st = int n"
    using assms(4) by (simp add: signed_divide_int_def abs_mult signed_eq_0_iff sgn_mult)
  finally show ?thesis
    using assms(2) signed_take_bit_int_eq_self [of 15 "int n"] by (simp add: signed_of_nat)
qed

definition run_pixels :: "u32 \<Rightarrow> u32 \<Rightarrow> u32 \<Rightarrow> u32 \<Rightarrow> nat \<Rightarrow> (u32 \<times> u32) list" where
  "run_pixels p l ps ls n = List.map (\<lambda>i. (l + of_nat i * ls, p + of_nat i * ps)) [0 ..< n]"

lemma run_pixels_Suc:
  "run_pixels p l ps ls (Suc n) = run_pixels p l ps ls n @ [(l + of_nat n * ls, p + of_nat n * ps)]"
  by (simp add: run_pixels_def)

lemma run_pixels_Cons:
  "run_pixels p l ps ls (Suc n) = (l, p) # run_pixels (p + ps) (l + ls) ps ls n"
  by (simp add: run_pixels_def map_upt_Suc algebra_simps del: upt_Suc)

lemma stride_loop_run:
  assumes "0 < n" "n < 0x8000" "\<not> step_overflow ps" "ps \<noteq> 0" "\<not> step_overflow ls" "ls \<noteq> 0"
  shows "stride_loop (p + of_nat (n - 1) * ps) (l + of_nat (n - 1) * ls) ps ls p l acc =
    Some (acc @ run_pixels p l ps ls n)"
  using assms(1,2)
proof (induction n arbitrary: p l acc)
  case (Suc n)
  show ?case
  proof (cases "n = 0")
    case True
    then show ?thesis by (subst stride_loop.simps) (simp add: run_pixels_def)
  next
    case False
    have "p \<noteq> p + of_nat n * ps" "l \<noteq> l + of_nat n * ls"
      using run_not_zero [of n ps] run_not_zero [of n ls] assms Suc.prems False by simp_all
    moreover have "p + of_nat n * ps = (p + ps) + of_nat (n - 1) * ps"
      "l + of_nat n * ls = (l + ls) + of_nat (n - 1) * ls"
      using False by (cases n; simp add: algebra_simps)+
    ultimately show ?thesis
      using Suc.IH [of "p + ps" "l + ls" "acc @ [(l, p)]"] Suc.prems False
      by (subst stride_loop.simps) (simp add: run_pixels_Cons add.assoc)
  qed
qed simp

section \<open>Reading one section\<close>

lemma append_section_simps [simp]:
  "append_section [] r = r"
  "append_section xs (append_section ys r) = append_section (xs @ ys) r"
  "append_section xs (Some (ys, e)) = Some (xs @ ys, e)"
  by (cases r; auto simp: append_section_def)+

lemma read_end [simp]: "read_sections [] = Some ([], Parsed)"
  by (subst read_sections.simps) simp

lemma read_direct:
  assumes "run_entries s = 1"
  shows "read_sections (direct_section s @ rest) =
    append_section (if last_bank s = UNMAPPED_BANK then [] else [(last_bank s, logical_start s, physical_start s)])
      (read_sections rest)"
proof -
  have one: "(1 :: u16) < 0x8000" by simp
  obtain w where w: "direct_section s = [physical_start s, w, logical_start s]"
    "section_bank w = last_bank s" "\<not> section_shorthand w" "section_count w = 1"
    by (rule that [OF direct_section_def [of s, unfolded assms]])
      (use direct_word_fields [OF one, of "last_bank s"] in blast)+
  show ?thesis
    by (subst read_sections.simps) (simp add: w Let_def)
qed

lemma read_shorthand:
  assumes n: "n = unat (run_entries s)" "0 < n" "n < 0x8000"
    and stop: "physical_stop s = physical_start s + of_nat (n - 1) * physical_step s"
      "logical_stop s = logical_start s + of_nat (n - 1) * logical_step s"
    and steps: "\<not> step_overflow (physical_step s)" "physical_step s \<noteq> 0"
      "\<not> step_overflow (logical_step s)" "logical_step s \<noteq> 0"
    and bank: "last_bank s \<noteq> UNMAPPED_BANK"
  shows "read_sections (shorthand_section s @ rest) =
    append_section (List.map (Pair (last_bank s))
        (run_pixels (physical_start s) (logical_start s) (physical_step s) (logical_step s) n))
      (read_sections rest)"
proof -
  have "run_entries s < 0x8000"
    using n by (simp add: word_less_nat_alt)
  note fields = shorthand_word_fields [OF this, of "last_bank s"] step_word_fields [OF steps(1,3)]
  obtain w t where w: "shorthand_section s =
      [physical_start s, w, physical_stop s, logical_start s, t, logical_stop s]"
    "section_bank w = last_bank s" "section_shorthand w" "section_count w = run_entries s"
    "step_field (drop_bit 16 t) = physical_step s" "step_field t = logical_step s"
    by (rule that [OF shorthand_section_def]) (use fields in blast)+
  have counts: "sint (stride_count (physical_start s) (physical_stop s) (physical_step s)) = int n"
    "sint (stride_count (logical_start s) (logical_stop s) (logical_step s)) = int n"
    unfolding stop by (rule stride_count_run [OF n(2,3)]; use steps in blast)+
  have loop: "stride_loop (physical_stop s) (logical_stop s) (physical_step s) (logical_step s)
      (physical_start s) (logical_start s) [] =
      Some (run_pixels (physical_start s) (logical_start s) (physical_step s) (logical_step s) n)"
    unfolding stop using stride_loop_run [OF n(2,3) steps, of "physical_start s" "logical_start s" "[]"]
    by simp
  show ?thesis
    using steps bank
    by (subst read_sections.simps)
      (simp add: w counts loop n(1) [symmetric] Let_def)
qed

section \<open>The writer keeps what the reader reads\<close>

definition mapped_pixels :: "temp_map \<Rightarrow> bank_pixels" where
  "mapped_pixels m =
     List.map (\<lambda>(p, l, b). (b, l, p)) (List.filter (\<lambda>(p, l, b). b \<noteq> UNMAPPED_BANK) m)"

definition open_run :: "alt_enc \<Rightarrow> bank_pixels" where
  "open_run s =
     (if last_bank s = UNMAPPED_BANK then []
      else List.map (Pair (last_bank s))
        (run_pixels (physical_start s) (logical_start s) (physical_step s) (logical_step s)
          (unat (run_entries s))))"

definition reads_as :: "u32 list \<Rightarrow> bank_pixels \<Rightarrow> bool" where
  "reads_as ws px \<longleftrightarrow> (\<forall>rest. read_sections (ws @ rest) = append_section px (read_sections rest))"

lemma reads_as_append: "reads_as a x \<Longrightarrow> reads_as b y \<Longrightarrow> reads_as (a @ b) (x @ y)"
  by (simp add: reads_as_def)

text \<open>The open section is a run of at most 0x7fff pixels, with its steps once it has two.\<close>

definition run_ok :: "alt_enc \<Rightarrow> bool" where
  "run_ok s \<longleftrightarrow>
     (let n = unat (run_entries s) in
      0 < n \<and> n < 0x8000 \<and>
      physical_stop s = physical_start s + of_nat (n - 1) * physical_step s \<and>
      logical_stop s = logical_start s + of_nat (n - 1) * logical_step s \<and>
      last_physical s = physical_stop s \<and> last_logical s = logical_stop s \<and>
      (if steps_set s
       then 1 < n \<and>
         \<not> step_overflow (physical_step s) \<and> physical_step s \<noteq> 0 \<and>
         \<not> step_overflow (logical_step s) \<and> logical_step s \<noteq> 0 \<and>
         next_physical s = physical_stop s + physical_step s \<and>
         next_logical s = logical_stop s + logical_step s
       else n = 1))"

definition enc_inv :: "temp_map \<Rightarrow> alt_enc \<Rightarrow> bool" where
  "enc_inv m s \<longleftrightarrow>
     run_ok s \<and> m \<noteq> [] \<and>
     length (section_words s) + 3 * unat (run_entries s) \<le> 3 * length m \<and>
     last_physical s = fst (last m) \<and> last_logical s = fst (snd (last m)) \<and>
     (\<exists>px. reads_as (section_words s) px \<and> mapped_pixels m = px @ open_run s)"

lemma close_section_reads:
  assumes "run_ok s"
  shows "reads_as (close_section s) (open_run s)"
proof (cases "last_bank s = UNMAPPED_BANK")
  case True
  then show ?thesis by (simp add: reads_as_def close_section_def open_run_def)
next
  case mapped: False
  show ?thesis
  proof (cases "steps_set s")
    case True
    let ?n = "unat (run_entries s)"
    have r: "0 < ?n" "?n < 0x8000" "0 < ?n - 1"
      "physical_stop s = physical_start s + of_nat (?n - 1) * physical_step s"
      "logical_stop s = logical_start s + of_nat (?n - 1) * logical_step s"
      "\<not> step_overflow (physical_step s)" "physical_step s \<noteq> 0"
      "\<not> step_overflow (logical_step s)" "logical_step s \<noteq> 0"
      using assms True by (auto simp: run_ok_def Let_def)
    have "of_nat (?n - 1) * physical_step s \<noteq> 0" "of_nat (?n - 1) * logical_step s \<noteq> 0"
      using r by (intro run_not_zero; simp)+
    then have "close_section s = shorthand_section s"
      using mapped r by (simp add: close_section_def)
    then show ?thesis
      using read_shorthand [OF refl r(1,2,4,5,6,7,8,9) mapped] mapped
      by (simp add: reads_as_def open_run_def)
  next
    case False
    then have one: "unat (run_entries s) = 1" and stop: "physical_stop s = physical_start s"
      using assms by (auto simp: run_ok_def Let_def)
    then have "close_section s = direct_section s"
      using mapped by (simp add: close_section_def)
    moreover have "run_entries s = 1"
      using one by (simp add: word_unat_eq_iff)
    ultimately show ?thesis
      using read_direct mapped one by (simp add: reads_as_def open_run_def run_pixels_def)
  qed
qed

lemma close_section_length:
  assumes "run_ok s"
  shows "length (close_section s) \<le> 3 * unat (run_entries s)"
proof (cases "steps_set s")
  case True
  with assms show ?thesis
    by (simp add: run_ok_def Let_def close_section_def shorthand_section_def direct_section_def)
next
  case False
  with assms have "unat (run_entries s) = 1" "physical_stop s = physical_start s"
    by (auto simp: run_ok_def Let_def)
  then show ?thesis by (simp add: close_section_def direct_section_def)
qed

lemma mapped_pixels_snoc:
  "mapped_pixels (m @ [(p, l, b)]) = mapped_pixels m @ (if b = UNMAPPED_BANK then [] else [(b, l, p)])"
  by (simp add: mapped_pixels_def)

lemma alt_first_inv: "enc_inv [(p, l, b)] (alt_first p l b)"
proof -
  have "mapped_pixels [(p, l, b)] = [] @ open_run (alt_first p l b)"
    by (simp add: mapped_pixels_def open_run_def alt_first_def run_pixels_def)
  moreover have "reads_as (section_words (alt_first p l b)) []"
    by (simp add: reads_as_def alt_first_def)
  moreover have "run_ok (alt_first p l b)"
    by (simp add: run_ok_def alt_first_def)
  ultimately show ?thesis
    unfolding enc_inv_def by (auto simp: alt_first_def)
qed

text \<open>A section that starts with the current pixel, all before it written.\<close>

lemma fresh_run_inv:
  assumes "reads_as (section_words s) (mapped_pixels m)" and "length (section_words s) \<le> 3 * length m"
    and "physical_start s = p" "physical_stop s = p" "last_physical s = p"
    and "logical_start s = l" "logical_stop s = l" "last_logical s = l"
    and "\<not> steps_set s" "run_entries s = 1" "last_bank s = b"
  shows "enc_inv (m @ [(p, l, b)]) s"
proof -
  have "mapped_pixels (m @ [(p, l, b)]) = mapped_pixels m @ open_run s"
    using assms by (simp add: mapped_pixels_snoc open_run_def run_pixels_def)
  then show ?thesis
    using assms unfolding enc_inv_def by (auto simp: run_ok_def)
qed

text \<open>One more pixel that continues the run.\<close>

lemma longer_run_inv:
  assumes inv: "enc_inv m s" and n: "unat (run_entries s) = n" "n < 0x7fff"
    and p: "p = physical_start s + of_nat n * physical_step s'"
    and l: "l = logical_start s + of_nat n * logical_step s'"
    and steps: "\<not> step_overflow (physical_step s')" "physical_step s' \<noteq> 0"
      "\<not> step_overflow (logical_step s')" "logical_step s' \<noteq> 0"
    and old: "n = 1 \<or> (physical_step s' = physical_step s \<and> logical_step s' = logical_step s)"
    and s': "section_words s' = section_words s" "last_bank s' = last_bank s"
      "physical_start s' = physical_start s" "logical_start s' = logical_start s"
      "physical_stop s' = p" "logical_stop s' = l" "last_physical s' = p" "last_logical s' = l"
      "steps_set s'" "run_entries s' = run_entries s + 1"
      "next_physical s' = p + physical_step s'" "next_logical s' = l + logical_step s'"
  shows "enc_inv (m @ [(p, l, last_bank s)]) s'"
proof -
  from inv obtain px where ok: "run_ok s" and read: "reads_as (section_words s) px"
    and m: "mapped_pixels m = px @ open_run s"
    and len: "length (section_words s) + 3 * unat (run_entries s) \<le> 3 * length m"
    by (auto simp: enc_inv_def)
  have n': "unat (run_entries s + 1) = Suc n"
    using n by (simp add: unat_word_ariths)
  have "run_pixels (physical_start s) (logical_start s) (physical_step s) (logical_step s) n =
      run_pixels (physical_start s) (logical_start s) (physical_step s') (logical_step s') n"
    using old by (auto simp: run_pixels_def)
  then have "mapped_pixels (m @ [(p, l, last_bank s)]) = px @ open_run s'"
    by (simp add: mapped_pixels_snoc m open_run_def n' n(1) s' run_pixels_Suc p l)
  moreover have "0 < n"
    using ok n(1) by (simp add: run_ok_def)
  then have "run_ok s'"
    using n(2) steps p l by (simp add: run_ok_def Let_def n' s')
  ultimately show ?thesis
    using read len n' n(1) unfolding enc_inv_def by (auto simp: s')
qed

lemma alt_step_inv:
  assumes inv: "enc_inv m s" and p: "p \<noteq> fst (last m)" and l: "\<not> non1to1 \<Longrightarrow> l \<noteq> fst (snd (last m))"
  shows "enc_inv (m @ [(p, l, b)]) (alt_step non1to1 (p, l, b) s)"
proof -
  from inv obtain px where ok: "run_ok s" and read: "reads_as (section_words s) px"
    and m: "mapped_pixels m = px @ open_run s"
    and len: "length (section_words s) + 3 * unat (run_entries s) \<le> 3 * length m"
    and last: "last_physical s = fst (last m)" "last_logical s = fst (snd (last m))"
    by (auto simp: enc_inv_def)
  show ?thesis
  proof (cases "alt_new_section non1to1 p l b s")
    case True
    have "reads_as (section_words s @ close_section s) (mapped_pixels m)"
      unfolding m by (rule reads_as_append [OF read close_section_reads [OF ok]])
    then show ?thesis
      using len close_section_length [OF ok]
      by (intro fresh_run_inv)
        (simp_all add: alt_step_def True Let_def alt_restart_def alt_extend_def)
  next
    case same: False
    then have b: "b = last_bank s" and small: "unat (run_entries s) < 0x7fff"
      and l': "l \<noteq> last_logical s"
      using l last by (auto simp: alt_new_section_def word_le_nat_alt not_le)
    show ?thesis
    proof (cases "steps_set s")
      case steps: True
      then have next_is: "p = next_physical s" "l = next_logical s"
        using same by (auto simp: alt_new_section_def)
      obtain n where n: "unat (run_entries s) = n" "n < 0x7fff" "0 < n"
        using small ok by (auto simp: run_ok_def Let_def)
      have r: "\<not> step_overflow (physical_step s)" "physical_step s \<noteq> 0"
        "\<not> step_overflow (logical_step s)" "logical_step s \<noteq> 0"
        "p = physical_start s + of_nat (n - 1) * physical_step s + physical_step s"
        "l = logical_start s + of_nat (n - 1) * logical_step s + logical_step s"
        using ok steps next_is by (auto simp: run_ok_def Let_def n)
      have at: "p = physical_start s + of_nat n * physical_step s"
        "l = logical_start s + of_nat n * logical_step s"
        using r(5,6) n(3) by (cases n; simp add: algebra_simps)+
      have "alt_step non1to1 (p, l, b) s = (alt_extend p l s)
          \<lparr>next_physical := p + physical_step s, next_logical := l + logical_step s,
           run_entries := run_entries s + 1\<rparr>"
        using r(1-4) steps by (simp add: alt_step_def same Let_def alt_extend_def)
      then show ?thesis unfolding b
        using r(1-4) steps at
        by (intro longer_run_inv [OF inv n(1,2)]) (simp_all add: alt_extend_def)
    next
      case unset: False
      let ?s1 = "alt_set_steps p l s"
      have one: "unat (run_entries s) = 1" and start: "physical_start s = last_physical s"
          "logical_start s = last_logical s"
        using ok unset by (auto simp: run_ok_def Let_def)
      have entries: "run_entries s = 1" using one by (simp add: word_unat_eq_iff)
      show ?thesis
      proof (cases "step_overflow (p - last_physical s) \<or> step_overflow (l - last_logical s)")
        case over: True
        have "reads_as (direct_section s) (open_run s)"
          using read_direct [OF entries]
          by (simp add: reads_as_def open_run_def run_pixels_def one)
        then have "reads_as (section_words s @ direct_section s) (mapped_pixels m)"
          unfolding m by (rule reads_as_append [OF read])
        moreover have "direct_section (alt_extend p l ?s1) = direct_section s"
          by (simp add: direct_section_def alt_extend_def alt_set_steps_def)
        moreover have "length (section_words s @ direct_section s) \<le> 3 * length m"
          using len one by (simp add: direct_section_def)
        ultimately show ?thesis
          using over
          by (intro fresh_run_inv)
            (simp_all add: alt_step_def same unset Let_def alt_overflow_def alt_extend_def
              alt_set_steps_def)
      next
        case fits: False
        have "p - last_physical s \<noteq> 0" "l - last_logical s \<noteq> 0"
          using p l' last by auto
        moreover have "alt_step non1to1 (p, l, b) s = (alt_extend p l ?s1)
            \<lparr>next_physical := p + physical_step ?s1, next_logical := l + logical_step ?s1,
             run_entries := run_entries s + 1\<rparr>"
          using fits by (simp add: alt_step_def same unset Let_def alt_extend_def alt_set_steps_def)
        moreover have "(1 :: nat) < 0x7fff" by simp
        ultimately show ?thesis unfolding b
          using fits start
          by (intro longer_run_inv [OF inv one]) (simp_all add: alt_extend_def alt_set_steps_def)
      qed
    qed
  qed
qed

lemma fold_alt_inv:
  assumes "enc_inv m s" and "om_ok (m @ ms)" and "\<not> non1to1 \<Longrightarrow> distinct (logicals (m @ ms))"
  shows "enc_inv (m @ ms) (fold (alt_step non1to1) ms s)"
  using assms
proof (induction ms arbitrary: m s)
  case (Cons e ms)
  obtain p l b where e: "e = (p, l, b)" by (cases e)
  have "m \<noteq> []" using Cons.prems(1) by (simp add: enc_inv_def)
  then have last: "last m \<in> set m" by simp
  have "fst (last m) < p"
    using Cons.prems(2) last by (auto simp: om_ok_append e)
  moreover have "l \<noteq> fst (snd (last m))" if "\<not> non1to1"
    using Cons.prems(3) [OF that] last by (auto simp: e)
  ultimately have "enc_inv (m @ [e]) (alt_step non1to1 e s)"
    unfolding e by (intro alt_step_inv [OF Cons.prems(1)]) auto
  then show ?case
    using Cons.IH [of "m @ [e]"] Cons.prems by simp
qed simp

lemma alt_sections_read:
  assumes "om_ok m" and "\<not> non1to1 \<Longrightarrow> distinct (logicals m)"
  shows "reads_as (alt_sections non1to1 m) (mapped_pixels m)"
    and "length (alt_sections non1to1 m) \<le> 3 * length m"
proof -
  have "reads_as (alt_sections non1to1 m) (mapped_pixels m) \<and>
      length (alt_sections non1to1 m) \<le> 3 * length m"
  proof (cases m)
    case Nil
    then show ?thesis by (simp add: reads_as_def mapped_pixels_def)
  next
    case (Cons e ms)
    obtain p l b where e: "e = (p, l, b)" by (cases e)
    let ?s = "fold (alt_step non1to1) ms (alt_first p l b)"
    have "enc_inv ([(p, l, b)] @ ms) ?s"
      using assms by (intro fold_alt_inv alt_first_inv) (simp_all add: Cons e)
    then obtain px where ok: "run_ok ?s" and read: "reads_as (section_words ?s) px"
      and m: "mapped_pixels m = px @ open_run ?s"
      and len: "length (section_words ?s) + 3 * unat (run_entries ?s) \<le> 3 * length m"
      by (auto simp: enc_inv_def Cons e)
    have "reads_as (alt_sections non1to1 m) (mapped_pixels m)"
      using reads_as_append [OF read close_section_reads [OF ok]]
      by (simp add: m [unfolded Cons e] Cons e Let_def)
    with len close_section_length [OF ok] show ?thesis
      by (simp add: Cons e Let_def)
  qed
  then show "reads_as (alt_sections non1to1 m) (mapped_pixels m)"
    and "length (alt_sections non1to1 m) \<le> 3 * length m" by auto
qed

text \<open>
  C10. The translation service reads from the packet the stream management service makes of a pixel
  map exactly the mapped pixels of the map, each in its bank, in the order of the physical pixels,
  with the largest bank of them; gap pixels are left out. Whatever follows the packet in the receive buffer
  is not looked at.
\<close>

theorem pixel_map_round_trip:
  assumes "readMap non1to1 ls = Some (Inr m)" and "12 * length m + 20 < 4294967296"
  shows "let mem = genAltPacket non1to1 m (pm_numBanks (new_PixelMap m)) sec nsec @ extra in
    PixelMappingAltPkt mem = Inr (header_at mem) \<and>
    packet_bytes mem = length (genAltPacket non1to1 m (pm_numBanks (new_PixelMap m)) sec nsec) \<and>
    base_type (header_at mem) = type_code PIXEL_MAPPING_ALT_TYPE \<and>
    fld mem 0 = largest_bank m \<and> (\<forall>(b, l, p) \<in> set (mapped_pixels m). ucast b \<le> largest_bank m) \<and>
    rx_PixelMappingAlt mem = Some (mapped_pixels m, Parsed)"
proof -
  let ?ws = "alt_sections non1to1 m"
  let ?all = "[of_nat (length ?ws) * 4 + 4,
      adara_pkt_type (type_code PIXEL_MAPPING_ALT_TYPE) (current_version PIXEL_MAPPING_ALT_TYPE),
      sec - epics_epoch_offset, nsec, pm_numBanks (new_PixelMap m) - 1] @ ?ws"
  let ?mem = "words_bytes ?all @ extra"
  have m: "om_ok m" "\<not> non1to1 \<Longrightarrow> distinct (logicals m)"
    using readMap_ok [OF assms(1)] temp_map_okD(1) by blast+
  have read: "reads_as ?ws (mapped_pixels m)" "length ?ws \<le> 3 * length m"
    using m by (auto intro: alt_sections_read)
  have gen: "genAltPacket non1to1 m (pm_numBanks (new_PixelMap m)) sec nsec = words_bytes ?all"
    by (simp only: genAltPacket_def Let_def)
  have u: "u32_at ?mem (4 * i) = ?all ! i" if "i < length ?all" for i
    by (rule u32_at_words_append [OF that])
  have len: "unat (payload_len (header_at ?mem)) = 4 * length ?ws + 4"
  proof -
    have "u32_at ?mem 0 = of_nat (4 * length ?ws + 4)"
      using u [of 0] by (simp add: mult.commute)
    moreover have "4 * length ?ws + 4 < 4294967296"
      using read(2) assms(2) by simp
    ultimately show ?thesis
      by (simp only: payload_len_header_at unat_of_nat_u32)
  qed
  have "length ?all = length ?ws + 5" by simp
  then have words: "mapping_words ?mem = ?ws"
    unfolding mapping_words_def len
    by (intro nth_equalityI) (auto simp: fld_words_append simp del: upt_Suc)
  have ty: "base_type (header_at ?mem) = type_code PIXEL_MAPPING_ALT_TYPE"
    using u [of 1] by (simp add: header_at_def adara_pkt_type_def adara_base_pkt_type_def)
  have "read_sections ?ws = Some (mapped_pixels m, Parsed)"
    using read(1) [unfolded reads_as_def, THEN spec, of "[]"] by simp
  then have "rx_PixelMappingAlt ?mem = Some (mapped_pixels m, Parsed)"
    by (simp only: rx_PixelMappingAlt_def words)
  moreover have "fld ?mem 0 = largest_bank m"
    using fld_words_append [of 0 ?all extra] by (simp add: new_PixelMap_def)
  moreover have "PixelMappingAltPkt ?mem = Inr (header_at ?mem)"
    by (simp add: ctor_defs read_simps)
  moreover have "\<forall>(b, l, p) \<in> set (mapped_pixels m). ucast b \<le> largest_bank m"
    by (auto simp: mapped_pixels_def dest: largest_bank_ge)
  moreover have "packet_bytes ?mem = length (words_bytes ?all)"
    using len by (simp add: packet_bytes_def payload_len_header_at)
  ultimately show ?thesis
    using ty by (simp only: gen Let_def)
qed

theorem pixel_map_round_trip_witness:
  "rx_PixelMappingAlt (genAltPacket False sample_map 4 0 0 @ [1, 2, 3]) =
     Some ([(1, 10, 0), (1, 11, 1), (1, 12, 2), (3, 34, 6), (3, 32, 7), (3, 30, 8)], Parsed)"
proof -
  have "mapped_pixels sample_map =
      [(1, 10, 0), (1, 11, 1), (1, 12, 2), (3, 34, 6), (3, 32, 7), (3, 30, 8)]"
    by (simp add: mapped_pixels_def sample_map_def UNMAPPED_BANK_def)
  moreover have "pm_numBanks (new_PixelMap sample_map) = 4"
    by (simp add: new_PixelMap_def largest_bank_def sample_map_def UNMAPPED_BANK_def)
  moreover have "12 * length sample_map + 20 < 4294967296"
    by (simp add: sample_map_def)
  ultimately show ?thesis
    using pixel_map_round_trip [OF readMap_sample, of 0 0 "[1, 2, 3]"]
    by (simp add: Let_def)
qed

end
