(* ===== verification/Pixel_Packet_V0.thy ===== *)
theory Pixel_Packet_V0
  imports Pixel_Packets "HOL-Library.Multiset"
begin

text \<open>
  The older pixel mapping packet: the writer \<open>PixelMap::genPacket\<close> (\<open>sms/PixelMap.cc\<close>) and the reader
  \<open>StreamParser::rxPacket(PixelMappingPkt)\<close> (\<open>stc/StreamParser.cpp\<close>), used with one to one maps.
\<close>

unbundle bit_operations_syntax

section \<open>The original packet, ordered by logical pixel\<close>

text \<open>
  \<open>genPacket\<close>: the map is inverted, consecutive logical pixels of one bank are a section of at most
  0xffff pixels. \<open>count_sections\<close> is the first loop, the lengths it pushes; \<open>orig_sections\<close> the
  second, that writes the words.
\<close>

type_synonym inverted_map = "(u32, u32 \<times> u16) omap"

definition invert :: "temp_map \<Rightarrow> inverted_map" where
  "invert m = fold (\<lambda>(p, l, b). om_insert l (p, b)) m []"

fun count_sections :: "u32 \<Rightarrow> u16 \<Rightarrow> u16 \<Rightarrow> inverted_map \<Rightarrow> u16 list" where
  "count_sections expected entries bank [] = [entries]"
| "count_sections expected entries bank ((l, p, b) # r) =
     (if l \<noteq> expected \<or> b \<noteq> bank \<or> entries \<ge> 0xffff
      then entries # count_sections (l + 1) 1 b r
      else count_sections (l + 1) (entries + 1) bank r)"

fun orig_sections :: "u16 list \<Rightarrow> inverted_map \<Rightarrow> u32 list" where
  "orig_sections (n # ns) ((l, p, b) # r) =
     l # (push_bit 16 (ucast b) OR ucast n)
       # List.map (\<lambda>e. fst (snd e)) (take (unat n) ((l, p, b) # r))
       @ orig_sections ns (drop (unat n) ((l, p, b) # r))"
| "orig_sections _ _ = []"

fun orig_words :: "inverted_map \<Rightarrow> u32 list" where
  "orig_words [] = []"
| "orig_words ((l, p, b) # r) =
     orig_sections (count_sections (l + 1) 1 b r) ((l, p, b) # r)"

definition genPacket :: "temp_map \<Rightarrow> u32 \<Rightarrow> u32 \<Rightarrow> bytes" where
  "genPacket m sec nsec =
     (let ws = orig_words (invert m) in
      words_bytes
        ([of_nat (length ws) * 4,
          adara_pkt_type (type_code PIXEL_MAPPING_TYPE) (current_version PIXEL_MAPPING_TYPE),
          sec - epics_epoch_offset, nsec] @ ws))"

text \<open>\<open>rxPacket(PixelMappingPkt)\<close>: the largest bank in a first pass, the pixels in a second.\<close>

definition orig_count :: "u32 \<Rightarrow> u16" where "orig_count w = ucast (w AND 0xffff)"

function orig_max_bank :: "u32 list \<Rightarrow> u16 \<Rightarrow> u16" where
  "orig_max_bank ws a =
     (case ws of
        base # w # r \<Rightarrow>
          orig_max_bank (drop (unat (orig_count w)) r)
            (if section_bank w \<noteq> UNMAPPED_BANK \<and> section_bank w > a then section_bank w else a)
      | _ \<Rightarrow> a)"
  by pat_completeness auto
termination by (relation "measure (\<lambda>(ws, _). length ws)") auto

function read_orig :: "u32 list \<Rightarrow> bank_pixels \<times> parse_end" where
  "read_orig ws =
     (case ws of
        [] \<Rightarrow> ([], Parsed)
      | [w] \<Rightarrow> ([], Past_End)
      | base # w # r \<Rightarrow>
          let bank = section_bank w; n = unat (orig_count w) in
          if bank = UNMAPPED_BANK then read_orig (drop n r)
          else if length r < n then ([], Past_End)
          else (case read_orig (drop n r) of (px, e) \<Rightarrow>
                 (List.map (\<lambda>(i, p). (bank, base + of_nat i, p)) (enumerate 0 (take n r)) @ px, e)))"
  by pat_completeness auto
termination by (relation "measure length") auto

declare orig_max_bank.simps [simp del] read_orig.simps [simp del]

definition orig_mapping_words :: "bytes \<Rightarrow> u32 list" where
  "orig_mapping_words mem = List.map (fld mem) [0 ..< unat (payload_len (header_at mem)) div 4]"

definition rx_PixelMapping :: "bytes \<Rightarrow> bank_pixels \<times> parse_end" where
  "rx_PixelMapping mem = read_orig (orig_mapping_words mem)"

lemma orig_word_fields:
  fixes b n :: u16
  defines "w \<equiv> push_bit 16 (ucast b) OR ucast n :: u32"
  shows "section_bank w = b" "orig_count w = n"
proof -
  show "section_bank w = b"
    unfolding w_def section_bank_def
    by (rule bit_word_eqI) (auto simp: bit_simps dest: bit_imp_le_length)
  show "orig_count w = n"
    unfolding w_def orig_count_def and_low_mask_u32
    by (rule bit_word_eqI) (auto simp: bit_simps dest: bit_imp_le_length)
qed

text \<open>A run of consecutive logical pixels of one bank.\<close>

definition consecutive :: "u32 \<Rightarrow> u16 \<Rightarrow> inverted_map \<Rightarrow> bool" where
  "consecutive l b run \<longleftrightarrow> (\<forall>i < length run. fst (run ! i) = l + of_nat i \<and> snd (snd (run ! i)) = b)"

definition by_logical :: "inverted_map \<Rightarrow> bank_pixels" where
  "by_logical im =
     List.map (\<lambda>(l, p, b). (b, l, p)) (List.filter (\<lambda>(l, p, b). b \<noteq> UNMAPPED_BANK) im)"

lemma by_logical_append: "by_logical (a @ b) = by_logical a @ by_logical b"
  by (simp add: by_logical_def)

lemma consecutive_bank: "consecutive l b run \<Longrightarrow> e \<in> set run \<Longrightarrow> snd (snd e) = b"
  by (auto simp: consecutive_def in_set_conv_nth)

lemma by_logical_run:
  assumes "consecutive l b run" "b \<noteq> UNMAPPED_BANK"
  shows "by_logical run =
    List.map (\<lambda>(i, p). (b, l + of_nat i, p)) (enumerate 0 (List.map (\<lambda>e. fst (snd e)) run))"
proof -
  have "List.filter (\<lambda>(l, p, b). b \<noteq> UNMAPPED_BANK) run = run"
    using assms(2) consecutive_bank [OF assms(1)] by (auto intro!: filter_True)
  moreover have "(case run ! i of (l, p, b) \<Rightarrow> (b, l, p)) = (b, l + of_nat i, fst (snd (run ! i)))"
    if "i < length run" for i
    using assms(1) that by (cases "run ! i") (force simp: consecutive_def)
  ultimately show ?thesis
    by (auto simp: by_logical_def nth_enumerate_eq intro!: nth_equalityI)
qed

lemma by_logical_gap:
  assumes "consecutive l UNMAPPED_BANK run"
  shows "by_logical run = []"
  using consecutive_bank [OF assms] by (force simp: by_logical_def filter_empty_conv)

lemma read_orig_run:
  fixes n :: u16
  assumes run: "consecutive l b run" "unat n = length run" and more: "read_orig ws = (px, e)"
  shows "read_orig (l # (push_bit 16 (ucast b) OR ucast n) # List.map (\<lambda>e. fst (snd e)) run @ ws) =
    (by_logical run @ px, e)"
  using by_logical_run [OF run(1)] by_logical_gap [of l run] run more
  by (cases "b = UNMAPPED_BANK"; subst read_orig.simps; simp add: orig_word_fields Let_def)

lemma consecutive_snoc:
  assumes "consecutive l b run" "length run = n"
  shows "consecutive l b (run @ [(l + of_nat n, p, b)])"
  using assms by (auto simp: consecutive_def nth_append less_Suc_eq)

text \<open>The two loops together: what is written from a run that is open reads back as the whole rest.\<close>

lemma sections_read:
  assumes "consecutive l b run" and "unat n = length run" and "0 < length run"
  shows "read_orig (orig_sections (count_sections (l + of_nat (length run)) n b r) (run @ r)) =
    (by_logical (run @ r), Parsed)"
  using assms
proof (induction r arbitrary: l b run n)
  case Nil
  obtain p b' rest where run: "run = (l, p, b) # rest"
    using Nil.prems by (cases run) (auto simp: consecutive_def)
  have "read_orig [] = ([], Parsed)" by (subst read_orig.simps) simp
  from read_orig_run [OF Nil.prems(1,2) this] show ?case
    using Nil.prems(2) by (simp add: run)
next
  case (Cons e r)
  obtain l' p' b' where e: "e = (l', p', b')" by (cases e)
  show ?case
  proof (cases "l' \<noteq> l + of_nat (length run) \<or> b' \<noteq> b \<or> n \<ge> 0xffff")
    case True
    obtain p rest where run: "run = (l, p, b) # rest"
      using Cons.prems by (cases run) (auto simp: consecutive_def)
    have "consecutive l' b' [(l', p', b')]" by (simp add: consecutive_def)
    from Cons.IH [OF this, of 1]
    have "read_orig (orig_sections (count_sections (l' + 1) 1 b' r) (e # r)) =
        (by_logical (e # r), Parsed)"
      by (simp add: e)
    from read_orig_run [OF Cons.prems(1,2) this] show ?thesis
      using True Cons.prems(2) by (simp add: e run by_logical_append [of _ "_ # _", symmetric])
  next
    case False
    then have same: "l' = l + of_nat (length run)" "b' = b" "\<not> n \<ge> 0xffff" by auto
    have "unat (n + 1) = length (run @ [e])"
      using Cons.prems(2) same(3) by (simp add: unat_word_ariths word_le_nat_alt)
    moreover have "consecutive l b (run @ [e])"
      using consecutive_snoc [OF Cons.prems(1) refl] by (simp add: e same)
    ultimately show ?thesis
      using Cons.IH [of l b "run @ [e]" "n + 1"] same by (simp add: e algebra_simps)
  qed
qed

lemma orig_words_read: "read_orig (orig_words im) = (by_logical im, Parsed)"
proof (cases im)
  case Nil
  then show ?thesis by (subst read_orig.simps) (simp add: by_logical_def)
next
  case (Cons e r)
  obtain l p b where e: "e = (l, p, b)" by (cases e)
  have "consecutive l b [(l, p, b)]" by (simp add: consecutive_def)
  from sections_read [OF this, of 1 r] show ?thesis by (simp add: Cons e)
qed

lemma sections_length:
  assumes "unat n = length run" and "0 < unat n"
  shows "length (orig_sections (count_sections ex n b r) (run @ r)) \<le> 3 * length (run @ r)"
  using assms
proof (induction r arbitrary: ex b run n)
  case Nil
  then obtain l p b' rest where "run = (l, p, b') # rest" by (cases run) auto
  with Nil show ?case by simp
next
  case (Cons e r)
  obtain l' p' b' where e: "e = (l', p', b')" by (cases e)
  from Cons.prems obtain l p b'' rest where run: "run = (l, p, b'') # rest" by (cases run) auto
  show ?case
  proof (cases "l' \<noteq> ex \<or> b' \<noteq> b \<or> n \<ge> 0xffff")
    case True
    have "length (orig_sections (count_sections (l' + 1) 1 b' r) ([e] @ r)) \<le> 3 * length ([e] @ r)"
      by (rule Cons.IH) simp_all
    then show ?thesis using True Cons.prems by (simp add: e run)
  next
    case False
    then have "unat (n + 1) = unat n + 1"
      by (simp add: unat_word_ariths word_less_nat_alt not_le)
    then have "length (orig_sections (count_sections (l' + 1) (n + 1) b r) ((run @ [e]) @ r))
        \<le> 3 * length ((run @ [e]) @ r)"
      using Cons.prems by (intro Cons.IH) simp_all
    then show ?thesis using False by (simp add: e)
  qed
qed

lemma orig_words_length: "length (orig_words im) \<le> 3 * length im"
proof (cases im)
  case (Cons e r)
  obtain l p b where e: "e = (l, p, b)" by (cases e)
  show ?thesis
    using sections_length [of 1 "[e]" "l + 1" b r] by (simp add: Cons e)
qed simp

lemma mset_om_insert: "k \<notin> om_keys m \<Longrightarrow> mset (om_insert k v m) = add_mset (k, v) (mset m)"
  by (induction k v m rule: om_insert.induct) auto

lemma mset_invert:
  assumes "distinct (logicals m)"
  shows "mset (invert m) = mset (List.map (\<lambda>(p, l, b). (l, p, b)) m)" and "om_ok (invert m)"
proof -
  have "mset (fold (\<lambda>(p, l, b). om_insert l (p, b)) m im) =
      mset im + mset (List.map (\<lambda>(p, l, b). (l, p, b)) m) \<and>
      om_ok (fold (\<lambda>(p, l, b). om_insert l (p, b)) m im)"
    if "om_ok im" "om_keys im \<inter> set (logicals m) = {}" for im
    using that assms
  proof (induction m arbitrary: im)
    case (Cons e m)
    obtain p l b where e: "e = (p, l, b)" by (cases e)
    have "om_keys (om_insert l (p, b) im) \<inter> set (logicals m) = {}"
      using Cons.prems by (simp only: om_keys_insert) (auto simp: e)
    then have "mset (fold (\<lambda>(p, l, b). om_insert l (p, b)) m (om_insert l (p, b) im)) =
        mset (om_insert l (p, b) im) + mset (List.map (\<lambda>(p, l, b). (l, p, b)) m) \<and>
        om_ok (fold (\<lambda>(p, l, b). om_insert l (p, b)) m (om_insert l (p, b) im))"
      using Cons.prems by (intro Cons.IH) (simp_all add: e)
    moreover have "l \<notin> om_keys im" using Cons.prems(2) by (auto simp: e)
    ultimately show ?case by (simp add: e mset_om_insert)
  qed simp
  from this [of "[]"] show "mset (invert m) = mset (List.map (\<lambda>(p, l, b). (l, p, b)) m)"
    and "om_ok (invert m)" by (simp_all add: invert_def)
qed

text \<open>
  From the older packet of a one to one pixel map the translation service reads the mapped
  pixels of the map, each in its bank, ordered by logical pixel.
\<close>

theorem original_map_round_trip:
  assumes "readMap False ls = Some (Inr m)" and "12 * length m + 20 < 4294967296"
  shows "let mem = genPacket m sec nsec @ extra; px = fst (rx_PixelMapping mem) in
    PixelMappingPkt mem = Inr (header_at mem) \<and>
    packet_bytes mem = length (genPacket m sec nsec) \<and>
    base_type (header_at mem) = type_code PIXEL_MAPPING_TYPE \<and>
    snd (rx_PixelMapping mem) = Parsed \<and>
    mset px = mset (mapped_pixels m) \<and> sorted_wrt (\<lambda>(b, l, p) (b', l', p'). l < l') px"
proof -
  let ?im = "invert m" and ?ws = "orig_words (invert m)"
  let ?all = "[of_nat (length ?ws) * 4,
      adara_pkt_type (type_code PIXEL_MAPPING_TYPE) (current_version PIXEL_MAPPING_TYPE),
      sec - epics_epoch_offset, nsec] @ ?ws"
  let ?mem = "words_bytes ?all @ extra"
  have "distinct (logicals m)"
    using readMap_ok(3) [OF assms(1)] by simp
  note inverted = mset_invert [OF this]
  have gen: "genPacket m sec nsec = words_bytes ?all"
    by (simp only: genPacket_def Let_def)
  have u: "u32_at ?mem (4 * i) = ?all ! i" if "i < length ?all" for i
    by (rule u32_at_words_append [OF that])
  have len: "unat (payload_len (header_at ?mem)) = 4 * length ?ws"
  proof -
    have "length ?im = length m"
      using inverted(1) by (metis length_map size_mset)
    then have "4 * length ?ws < 4294967296"
      using orig_words_length [of ?im] assms(2) by simp
    moreover have "u32_at ?mem 0 = of_nat (4 * length ?ws)"
      using u [of 0] by (simp add: mult.commute)
    ultimately show ?thesis by (simp only: payload_len_header_at unat_of_nat_u32)
  qed
  have "length ?all = length ?ws + 4" by simp
  then have words: "orig_mapping_words ?mem = ?ws"
    unfolding orig_mapping_words_def len
    by (intro nth_equalityI) (auto simp: fld_words_append simp del: upt_Suc)
  then have rx: "rx_PixelMapping ?mem = (by_logical ?im, Parsed)"
    by (simp only: rx_PixelMapping_def orig_words_read)
  have "mset (by_logical ?im) = mset (by_logical (List.map (\<lambda>(p, l, b). (l, p, b)) m))"
    by (simp only: by_logical_def mset_map mset_filter inverted(1))
  also have "by_logical (List.map (\<lambda>(p, l, b). (l, p, b)) m) = mapped_pixels m"
    by (simp add: by_logical_def mapped_pixels_def filter_map comp_def split_def)
  finally have "mset (by_logical ?im) = mset (mapped_pixels m)" .
  moreover have "sorted_wrt (\<lambda>(b, l, p) (b', l', p'). l < l') (by_logical ?im)"
    using inverted(2)
    by (auto simp: by_logical_def om_ok_def sorted_wrt_map split_def intro: sorted_wrt_filter)
  moreover have "base_type (header_at ?mem) = type_code PIXEL_MAPPING_TYPE"
    using u [of 1] by (simp add: header_at_def adara_pkt_type_def adara_base_pkt_type_def)
  moreover have "PixelMappingPkt ?mem = Inr (header_at ?mem)"
    by (simp add: ctor_defs read_simps)
  moreover have "packet_bytes ?mem = length (words_bytes ?all)"
    using len by (simp add: packet_bytes_def payload_len_header_at)
  ultimately show ?thesis
    by (simp only: gen rx Let_def fst_conv snd_conv)
qed

theorem original_map_round_trip_witness:
  "mset (fst (rx_PixelMapping (genPacket sample_map 0 0))) = mset (mapped_pixels sample_map)"
proof -
  have "12 * length sample_map + 20 < 4294967296"
    by (simp add: sample_map_def)
  from original_map_round_trip [OF readMap_sample this, of 0 0 "[]"] show ?thesis
    by (simp add: Let_def)
qed

end
