(* ===== verification/Fast_Meta.thy ===== *)
theory Fast_Meta
  imports Ordered_Map Last_Value
begin

text \<open>
  \<open>FastMeta\<close> (\<open>sms/FastMeta.cc\<close>): the variables whose values arrive as events of the detector
  electronics. The upper half of the pixel word is the key of the variable, the lower half its
  value. The operations call other components; what they call, in order, is a list of \<open>sms_call\<close>.
  The number \<open>allocDev\<close> of the meta-data manager returns for the \<open>n\<close>-th internal device is the
  parameter \<open>alloc\<close>, and the string functions of boost are the record \<open>boost\<close>.
\<close>

unbundle bit_operations_syntax

section \<open>Calls to other components\<close>

datatype sms_call =
    Add_Packet bytes bool
  | Update_Mapped u32 u32 bytes
  | Alloc_Dev u32
  | Fast_DDP u32 string
  | New_Counter u32 u32
  | Start_Counting u32 u64 u32
  | Stop_Counting u32 u64 u32

record fm_variable =
  fv_devId :: u32
  fv_varId :: u32
  fv_persist :: bool
  fv_is_counter :: bool
  fv_name :: string

record fast_meta =
  m_vars :: "(u32, fm_variable) omap"
  m_numDevs :: u32

definition new_FastMeta :: fast_meta where
  "new_FastMeta = \<lparr>m_vars = [], m_numDevs = 0\<rparr>"

text \<open>What \<open>operator[]\<close> makes for a key that is not there.\<close>

definition zero_variable :: fm_variable where
  "zero_variable =
     \<lparr>fv_devId = 0, fv_varId = 0, fv_persist = False, fv_is_counter = False, fv_name = []\<rparr>"

section \<open>Configuration\<close>

record boost =
  lexical_cast_u32 :: "string \<Rightarrow> u32 option"
  split_blank :: "string \<Rightarrow> string list"
  iequals :: "string \<Rightarrow> string \<Rightarrow> bool"

record fm_entry =
  en_varId :: u32
  en_key :: u32
  en_persist :: bool
  en_is_counter :: bool

text \<open>One line of a device: \<open>var = (trigger | counter | adc) device [persist]\<close>.\<close>

definition parseEntry :: "boost \<Rightarrow> string \<Rightarrow> string \<Rightarrow> string + fm_entry" where
  "parseEntry B var val =
     (case lexical_cast_u32 B var of
        None \<Rightarrow> Inl ''does not convert to a number''
      | Some varId \<Rightarrow>
       (case split_blank B val of
          [] \<Rightarrow> Inl ''has no data''
        | kind # args \<Rightarrow>
          sbind (if iequals B kind ''trigger'' then Inr (0x50000000, False)
                 else if iequals B kind ''counter'' then Inr (0x50000000, True)
                 else if iequals B kind ''adc'' then Inr (0x60000000, False)
                 else Inl ''has invalid type specifier'') (\<lambda>(base, counter).
            case args of
              [] \<Rightarrow> Inl ''is missing detector device number''
            | num # flags \<Rightarrow>
               (case lexical_cast_u32 B num of
                  None \<Rightarrow> Inl ''has non-numeric device number''
                | Some dev \<Rightarrow>
                    if dev > 0xfff then Inl ''has invalid device number''
                    else let e = \<lparr>en_varId = varId, en_key = base OR push_bit 16 dev,
                                  en_persist = False, en_is_counter = counter\<rparr> in
                      case flags of
                        [] \<Rightarrow> Inr e
                      | flag # extra \<Rightarrow>
                          if \<not> iequals B flag ''persist'' then Inl ''has invalid flag''
                          else if extra \<noteq> [] then Inl ''has extra tokens after persist''
                          else Inr (e\<lparr>en_persist := True\<rparr>)))))"

section \<open>Descriptors\<close>

definition hex_digit :: "nat \<Rightarrow> char" where
  "hex_digit d = ''0123456789abcdef'' ! d"

fun hex_string :: "nat \<Rightarrow> string" where
  "hex_string n = (if n < 16 then [hex_digit n] else hex_string (n div 16) @ [hex_digit (n mod 16)])"

declare hex_string.simps [simp del]

definition newline :: string where "newline = [CHR 0x0a]"
definition quoted :: "string \<Rightarrow> string" where "quoted s = CHR 0x22 # s @ [CHR 0x22]"
definition xml_tag :: "string \<Rightarrow> string \<Rightarrow> string" where
  "xml_tag t s = ''<'' @ t @ ''>'' @ s @ ''</'' @ t @ ''>''"

definition xml_head :: string where
  "xml_head =
     ''<?xml version='' @ quoted ''1.0'' @ '' encoding='' @ quoted ''UTF-8'' @ ''?>'' @ newline"

definition schema :: string where "schema = ''http://public.sns.gov/schema/device.xsd''"

definition device_head :: "string \<Rightarrow> string" where
  "device_head name =
     xml_head @ ''<device xmlns='' @ quoted schema
     @ '' xmlns:xsi='' @ quoted ''http://www.w3.org/2001/XMLSchema-instance''
     @ '' xsi:schemaLocation='' @ quoted (schema @ '' '' @ schema) @ ''>'' @ newline
     @ xml_tag ''device_name'' name @ newline
     @ ''<process_variables>'' @ newline"

definition device_tail :: string where
  "device_tail = ''</process_variables>'' @ newline @ ''</device>'' @ newline"

definition pv_lines :: "string \<Rightarrow> string \<Rightarrow> string \<Rightarrow> string \<Rightarrow> string" where
  "pv_lines name num descr ty =
     ''    <process_variable>'' @ newline
     @ ''        '' @ xml_tag ''pv_name'' name @ newline
     @ ''        '' @ xml_tag ''pv_id'' num @ newline
     @ ''        '' @ xml_tag ''pv_description'' descr @ newline
     @ ''        '' @ xml_tag ''pv_type'' ty @ newline
     @ ''    </process_variable>'' @ newline"

definition generic_name :: "u32 \<Rightarrow> string" where
  "generic_name px =
     (let k = drop_bit 28 px in
      (if k = 5 then ''SignalTrigger0x'' else if k = 6 then ''SignalAnalog0x'' else ''SignalUnknown0x'')
      @ hex_string (unat (drop_bit 16 px)))"

definition generic_type :: "u32 \<Rightarrow> string" where
  "generic_type px =
     (let k = drop_bit 28 px in
      if k = 5 then ''Digital Trigger'' else if k = 6 then ''Analog Signal'' else ''Unknown Signal'')"

definition generic_ddp :: "u32 \<Rightarrow> string" where
  "generic_ddp px =
     (let num = hex_string (unat (drop_bit 16 px)) in
      device_head (''GenericFastMetaDevice0x'' @ num)
      @ pv_lines (generic_name px) ''1''
          (generic_type px @ '' for PixelId 0x'' @ num @ ''XXXX'') ''integer''
      @ device_tail)"

definition counter_ddp :: "string \<Rightarrow> string" where
  "counter_ddp name =
     device_head name
     @ pv_lines (name @ '':IsCounting'') ''1'' (''Is Counting State for QuickCounter '' @ name) ''unsigned''
     @ pv_lines (name @ '':ElapsedTime'') ''2'' (''Elapsed Time for QuickCounter '' @ name) ''double''
     @ pv_lines (name @ '':DetectorAll'') ''3'' (''Detector Counts All for QuickCounter '' @ name) ''unsigned''
     @ pv_lines (name @ '':MonitorAll'') ''4'' (''Monitor Counts All for QuickCounter '' @ name) ''unsigned''
     @ device_tail"

section \<open>Devices\<close>

definition var_key_of :: "u32 \<Rightarrow> u32" where
  "var_key_of px = px AND NOT 0xffff"

definition validVariable :: "fast_meta \<Rightarrow> u32 \<Rightarrow> fm_variable option" where
  "validVariable fm px = map_of (m_vars fm) (var_key_of px)"

text \<open>The device of a key that no configured device has; the call is made for unknown keys only.\<close>

definition addGenericDevice ::
    "(u32 \<Rightarrow> u32) \<Rightarrow> u32 \<Rightarrow> fast_meta \<Rightarrow> string + (fast_meta \<times> sms_call list)" where
  "addGenericDevice alloc px fm =
     (let n = m_numDevs fm + 1; d = alloc n; key = var_key_of px in
      if key \<in> om_keys (m_vars fm) then Inl ''adds duplicate pixel ID''
      else Inr (fm\<lparr>m_numDevs := n,
                   m_vars := om_insert key
                     \<lparr>fv_devId = d, fv_varId = 1, fv_persist = False, fv_is_counter = False,
                      fv_name = generic_name px\<rparr> (m_vars fm)\<rparr>,
                [Alloc_Dev n, Fast_DDP d (generic_ddp px)]))"

definition addCounterStatsDevice ::
    "(u32 \<Rightarrow> u32) \<Rightarrow> string \<Rightarrow> fast_meta \<Rightarrow> fast_meta \<times> u32 \<times> sms_call list" where
  "addCounterStatsDevice alloc name fm =
     (let n = m_numDevs fm + 1; d = alloc n in
      (fm\<lparr>m_numDevs := n\<rparr>, d, [Alloc_Dev n, Fast_DDP d (counter_ddp name)]))"

fun addDevice_entries ::
    "boost \<Rightarrow> (u32 \<Rightarrow> u32) \<Rightarrow> string \<Rightarrow> u32 \<Rightarrow> (string \<times> string) list \<Rightarrow>
     fast_meta \<times> sms_call list \<Rightarrow> string + (fast_meta \<times> sms_call list)" where
  "addDevice_entries B alloc name d [] fc = Inr fc"
| "addDevice_entries B alloc name d ((var, val) # es) (fm, cs) =
     sbind (parseEntry B var val) (\<lambda>e.
       if en_key e \<in> om_keys (m_vars fm) then Inl ''adds duplicate pixel ID''
       else let fm1 = fm\<lparr>m_vars := om_insert (en_key e)
                  \<lparr>fv_devId = d, fv_varId = en_varId e, fv_persist = en_persist e,
                   fv_is_counter = en_is_counter e, fv_name = name\<rparr> (m_vars fm)\<rparr> in
         if en_is_counter e
         then let (fm2, sd, cs2) = addCounterStatsDevice alloc name fm1 in
           addDevice_entries B alloc name d es (fm2, cs @ cs2 @ [New_Counter (en_key e) sd])
         else addDevice_entries B alloc name d es (fm1, cs))"

text \<open>
  A configured device, with the text of its descriptor file and its lines, blanks and comments
  removed. The settings of a counter (\<open>done_timeout\<close>, \<open>auto_reset\<close>) belong to the counter.
\<close>

definition addDevice ::
    "boost \<Rightarrow> (u32 \<Rightarrow> u32) \<Rightarrow> string \<Rightarrow> string \<Rightarrow> (string \<times> string) list \<Rightarrow> fast_meta \<Rightarrow>
     string + (fast_meta \<times> sms_call list)" where
  "addDevice B alloc name ddp es fm =
     (let n = m_numDevs fm + 1; d = alloc n in
      sbind (addDevice_entries B alloc name d es (fm\<lparr>m_numDevs := n\<rparr>, [Alloc_Dev n])) (\<lambda>(fm1, cs).
        Inr (fm1, cs @ [Fast_DDP d ddp])))"

section \<open>Updates\<close>

text \<open>\<open>while (ns >= NANO_PER_SECOND_LL)\<close> over 32-bit words.\<close>

function carry32 :: "u32 \<Rightarrow> u32 \<Rightarrow> u32 \<times> u32" where
  "carry32 sec ns = (if ns \<ge> 1000000000 then carry32 (sec + 1) (ns - 1000000000) else (sec, ns))"
  by pat_completeness auto
termination
  by (relation "measure (\<lambda>(s, n). unat n)") (auto simp: word_le_nat_alt unat_sub)

declare carry32.simps [simp del]

definition event_ns :: "u32 \<Rightarrow> u32" where
  "event_ns t = (t AND 0x1fffff) * 100"

definition alarm_ok_word :: u32 where
  "alarm_ok_word = push_bit 16 0 OR 0"

definition update_call :: "fm_variable \<Rightarrow> bytes \<Rightarrow> sms_call" where
  "update_call v p =
     (if fv_persist v then Update_Mapped (fv_devId v) (fv_varId v) p else Add_Packet p True)"

text \<open>\<open>m_vars[key]\<close> makes an entry for an unknown key; the callers pass known keys.\<close>

definition var_at :: "fast_meta \<Rightarrow> u32 \<Rightarrow> fast_meta \<times> fm_variable" where
  "var_at fm px =
     (case validVariable fm px of
        Some v \<Rightarrow> (fm, v)
      | None \<Rightarrow> (fm\<lparr>m_vars := om_insert (var_key_of px) zero_variable (m_vars fm)\<rparr>, zero_variable))"

definition update_words :: "u64 \<Rightarrow> event \<Rightarrow> fm_variable \<Rightarrow> u32 list" where
  "update_words pid e v =
     (let (sec, ns) = carry32 (ucast (drop_bit 32 pid)) (event_ns (tof e) + ucast pid) in
      [16, adara_pkt_type (type_code VAR_VALUE_U32_TYPE) (current_version VAR_VALUE_U32_TYPE),
       sec, ns, fv_devId v, fv_varId v, alarm_ok_word, pixel e AND 0xffff])"

definition sendUpdate :: "u64 \<Rightarrow> event \<Rightarrow> fast_meta \<Rightarrow> fast_meta \<times> sms_call list" where
  "sendUpdate pid e fm =
     (let (fm1, v) = var_at fm (pixel e) in
      (fm1, [update_call v (words_bytes (update_words pid e v))]))"

definition mult_update_words :: "u64 \<Rightarrow> event list \<Rightarrow> fm_variable \<Rightarrow> u32 list" where
  "mult_update_words pid es v =
     [(4 + of_nat (length es) * 2) * 4,
      adara_pkt_type (type_code MULT_VAR_VALUE_U32_TYPE) (current_version MULT_VAR_VALUE_U32_TYPE),
      ucast (drop_bit 32 pid), ucast pid,
      fv_devId v, fv_varId v, alarm_ok_word, of_nat (length es)]
     @ concat (List.map (\<lambda>e. [event_ns (tof e), pixel e AND 0xffff]) es)"

definition sendMultUpdate :: "u64 \<Rightarrow> event list \<Rightarrow> fast_meta \<Rightarrow> fast_meta \<times> sms_call list" where
  "sendMultUpdate pid es fm =
     (case es of
        [] \<Rightarrow> (fm, [])
      | e # _ \<Rightarrow>
         (let (fm1, v) = var_at fm (pixel e) in
          (fm1, [update_call v (words_bytes (mult_update_words pid es v))])))"

section \<open>What a reader of the updates gets\<close>

lemma update_type_fields:
  "adara_pkt_version (adara_pkt_type (type_code k) (current_version k)) = current_version k"
  "adara_base_pkt_type (adara_pkt_type (type_code k) (current_version k)) = type_code k"
  by (simp_all add: pkt_type_version [OF current_version_bound]
      pkt_type_base [OF type_code_bound current_version_bound])

lemma event_ns_val: "unat (event_ns t) = unat (t AND 0x1fffff) * 100" "unat (event_ns t) \<le> 209715100"
proof -
  have small: "unat (t AND 0x1fffff) < 2 ^ 21"
    using unat_take_bit_less [of 21 t] by (simp add: and_low_mask_u32)
  then show "unat (event_ns t) = unat (t AND 0x1fffff) * 100"
    by (simp add: event_ns_def unat_word_ariths)
  then show "unat (event_ns t) \<le> 209715100" using small by simp
qed

lemma mult_loop_words:
  assumes "length pre = idx + 4"
  shows "mult_u32_loop (words_bytes (pre @ concat (List.map (\<lambda>e. [f e, g e]) es)) @ rest) idx (length es) =
    Inr (List.map (\<lambda>e. (f e, g e)) es)"
  using assms
proof (induction es arbitrary: pre idx)
  case (Cons e es)
  let ?ws = "pre @ concat (List.map (\<lambda>e. [f e, g e]) (e # es))"
  have "rd_fld (words_bytes ?ws @ rest) idx = Inr (f e)"
    using Cons.prems rd_fld_words_append [of idx ?ws rest] by (simp add: nth_append)
  moreover have "rd_fld (words_bytes ?ws @ rest) (idx + 1) = Inr (g e)"
    using Cons.prems rd_fld_words_append [of "idx + 1" ?ws rest] by (simp add: nth_append)
  moreover have "mult_u32_loop (words_bytes ?ws @ rest) (idx + 2) (length es) =
      Inr (List.map (\<lambda>e. (f e, g e)) es)"
    using Cons.IH [of "pre @ [f e, g e]" "idx + 2"] Cons.prems by simp
  ultimately show ?case by simp
qed simp

lemma check_alarm_words:
  assumes "7 \<le> length ws" and "ws ! 6 = alarm_ok_word"
  shows "check_alarm (words_bytes ws @ rest) =
    Inr \<lparr>var_devId = ws ! 4, var_varId = ws ! 5, var_status = 0, var_severity = 0\<rparr>"
  using assms fld_words_append [of 0 ws rest] fld_words_append [of 1 ws rest]
    fld_words_append [of 2 ws rest]
  by (simp add: check_alarm_in var_header_at_def alarm_ok_word_def validate_status_def
      validate_severity_def variable_statuses_def variable_severities_def)

definition ok_header :: "fm_variable \<Rightarrow> var_header" where
  "ok_header v =
     \<lparr>var_devId = fv_devId v, var_varId = fv_varId v, var_status = 0, var_severity = 0\<rparr>"

lemma update_read_back:
  "VariableU32Pkt (words_bytes (update_words pid e v) @ rest) =
     Inr (header_at (words_bytes (update_words pid e v) @ rest), ok_header v, pixel e AND 0xffff)"
proof -
  obtain sec ns where c: "carry32 (ucast (drop_bit 32 pid)) (event_ns (tof e) + ucast pid) = (sec, ns)"
    by fastforce
  then have ws: "update_words pid e v =
      [16, adara_pkt_type (type_code VAR_VALUE_U32_TYPE) (current_version VAR_VALUE_U32_TYPE),
       sec, ns, fv_devId v, fv_varId v, alarm_ok_word, pixel e AND 0xffff]" (is "_ = ?ws")
    by (simp add: update_words_def)
  have len: "length ?ws = 8" by simp
  show ?thesis
    unfolding ws VariableU32Pkt_def
    using check_alarm_words [of ?ws rest] rd_fld_words_append [of 3 ?ws rest]
    by (simp add: PacketHeader_in header_words_append update_type_fields exact_or_newer_def ok_header_def
        del: type_code.simps)
qed

lemma mult_update_read_back:
  assumes "length es < 2 ^ 28"
  shows "MultVariableU32Pkt (words_bytes (mult_update_words pid es v) @ rest) =
     Inr (header_at (words_bytes (mult_update_words pid es v) @ rest), ok_header v,
       List.map (\<lambda>e. (event_ns (tof e), pixel e AND 0xffff)) es)"
    and "packet_bytes (words_bytes (mult_update_words pid es v) @ rest) =
      length (words_bytes (mult_update_words pid es v))"
proof -
  let ?n = "length es"
  let ?pre = "[(4 + of_nat ?n * 2) * 4,
      adara_pkt_type (type_code MULT_VAR_VALUE_U32_TYPE) (current_version MULT_VAR_VALUE_U32_TYPE),
      ucast (drop_bit 32 pid), ucast pid,
      fv_devId v, fv_varId v, alarm_ok_word, of_nat ?n] :: u32 list"
  let ?ws = "mult_update_words pid es v"
  have ws: "?ws = ?pre @ concat (List.map (\<lambda>e. [event_ns (tof e), pixel e AND 0xffff]) es)"
    by (simp add: mult_update_words_def)
  have len: "length ?ws = 8 + 2 * ?n" by (simp add: ws length_concat comp_def sum_list_triv)
  have n: "unat (of_nat ?n :: u32) = ?n" "unat (of_nat ?n * 2 :: u32) = 2 * ?n"
    using assms unat_of_nat_u32 [of ?n] unat_of_nat_u32 [of "?n * 2"] by (simp_all add: mult.commute)
  have plen: "unat ((4 + of_nat ?n * 2) * 4 :: u32) = 16 + 8 * ?n"
    using assms unat_of_nat_u32 [of "16 + 8 * ?n"] by (simp add: algebra_simps)
  have nth: "?ws ! 0 = (4 + of_nat ?n * 2) * 4" "?ws ! 7 = of_nat ?n" "?ws ! 6 = alarm_ok_word"
    "?ws ! 1 = adara_pkt_type (type_code MULT_VAR_VALUE_U32_TYPE) (current_version MULT_VAR_VALUE_U32_TYPE)"
    "?ws ! 4 = fv_devId v" "?ws ! 5 = fv_varId v"
    by (simp_all add: ws)
  have loop: "mult_u32_loop (words_bytes ?ws @ rest) 4 ?n =
      Inr (List.map (\<lambda>e. (event_ns (tof e), pixel e AND 0xffff)) es)"
    unfolding ws by (rule mult_loop_words) simp
  show "MultVariableU32Pkt (words_bytes ?ws @ rest) =
     Inr (header_at (words_bytes ?ws @ rest), ok_header v,
       List.map (\<lambda>e. (event_ns (tof e), pixel e AND 0xffff)) es)"
    unfolding MultVariableU32Pkt_def
    using check_alarm_words [of ?ws rest] rd_fld_words_append [of 3 ?ws rest] len loop n plen nth
    by (simp add: PacketHeader_in header_words_append at_least_def mult_pair_bytes_def ok_header_def)
  show "packet_bytes (words_bytes ?ws @ rest) = length (words_bytes ?ws)"
    using u32_at_words_append [of 0 ?ws rest] len plen nth(1) by (simp add: packet_bytes_def)
qed

lemma carry32_int:
  "0 \<le> n \<Longrightarrow> n < 4294967296 \<Longrightarrow> carry32 (of_int s) (of_int n) =
     (of_int (fst (carry_ns s n)), of_int (snd (carry_ns s n)))"
proof (induction s n rule: carry_ns.induct)
  case (1 s n)
  have n: "uint (of_int n :: u32) = n"
    using "1.prems" by (simp add: unsigned_of_int take_bit_int_eq_self)
  have ge: "(1000000000 :: u32) \<le> of_int n \<longleftrightarrow> NANO_PER_SECOND \<le> n"
    by (simp add: word_le_def n NANO_PER_SECOND_def)
  show ?case
  proof (cases "NANO_PER_SECOND \<le> n")
    case True
    have "carry32 (of_int s) (of_int n) = carry32 (of_int (s + 1)) (of_int (n - NANO_PER_SECOND))"
      using ge True by (subst carry32.simps) (simp add: NANO_PER_SECOND_def)
    also have "\<dots> = (of_int (fst (carry_ns (s + 1) (n - NANO_PER_SECOND))),
        of_int (snd (carry_ns (s + 1) (n - NANO_PER_SECOND))))"
      using "1.prems" True by (intro "1.IH" [OF True]) (auto simp: NANO_PER_SECOND_def)
    finally show ?thesis using True by (simp add: carry_ns.simps [of s n])
  next
    case False
    then show ?thesis using ge by (simp add: carry32.simps carry_ns.simps [of s n])
  qed
qed

text \<open>
  Fast meta-data that is sent as one packet of many values and as a packet per value says the
  same: the single-value packet a prologue makes of the packet of many values is, byte for byte,
  the packet \<open>sendUpdate\<close> makes of the last event.
\<close>

theorem mult_update_prologue:
  assumes "es \<noteq> []" and "length es < 2 ^ 28" and "uint (ucast pid :: u32) < 1000000000"
  shows "prologue_packet junk (words_bytes (mult_update_words pid es v)) =
    Inr (Some (words_bytes (update_words pid (last es) v)))"
proof -
  let ?mem = "words_bytes (mult_update_words pid es v)"
  let ?sec = "ucast (drop_bit 32 pid) :: u32" and ?ns = "ucast pid :: u32"
  let ?h = "header_at ?mem" and ?dt = "event_ns (tof (last es))"
  have h: "?h = header_at (?mem @ [])" by simp
  have "4 \<le> length (mult_update_words pid es v)" by (simp add: mult_update_words_def)
  note fields = header_words_append [OF this, of "[]", folded h]
  have type: "base_type ?h = type_code MULT_VAR_VALUE_U32_TYPE"
    by (subst fields)
      (simp add: mult_update_words_def update_type_fields del: type_code.simps current_version.simps)
  have "MultVariableU32Pkt ?mem =
      Inr (?h, ok_header v, List.map (\<lambda>e. (event_ns (tof e), pixel e AND 0xffff)) es)"
    using mult_update_read_back(1) [OF assms(2), of pid v "[]"] by simp
  then have p: "prologue_packet junk ?mem =
      Inr (Some (words_bytes (value_words VAR_VALUE_U32_TYPE 16 ?h (ok_header v) ?dt
        @ [pixel (last es) AND 0xffff])))"
    using type assms(1) by (simp add: prologue_packet_def extract_u32_def last_map Let_def)
  have "uint ?dt \<le> 209715100"
    using event_ns_val(2) [of "tof (last es)"] unfolding uint_nat by linarith
  then have sum: "0 \<le> uint ?ns + uint ?dt" "uint ?ns + uint ?dt < 4294967296"
    using assms(3) by simp_all
  have ts: "ts_sec ?h = ucast (?sec + epics_epoch_offset)" "ts_nsec ?h = ucast ?ns"
    by (subst fields, simp add: mult_update_words_def)+
  have "(of_int (uint (ts_sec ?h) - uint epics_epoch_offset) :: u32) = ?sec"
    by (simp only: ts uint_widened of_int_diff of_int_uint) simp
  moreover have "uint (ts_nsec ?h) = uint ?ns"
    by (simp only: ts uint_widened)
  moreover have "of_int (uint ?ns + uint ?dt) = ?dt + ?ns"
    by (simp add: add.commute)
  ultimately have "carry32 ?sec (?dt + ?ns) =
      (of_int (fst (value_time ?h ?dt)), of_int (snd (value_time ?h ?dt)))"
    using carry32_int [OF sum, of "uint (ts_sec ?h) - uint epics_epoch_offset"]
    by (simp add: value_time_def add.commute)
  then show ?thesis
    by (simp add: p update_words_def value_words_def ok_header_def alarm_ok_word_def)
qed

text \<open>A trigger with three edges, as a packet of the values and as a packet of the last.\<close>

definition sample_variable :: fm_variable where
  "sample_variable = \<lparr>fv_devId = 7, fv_varId = 2, fv_persist = True, fv_is_counter = False,
     fv_name = ''trigger''\<rparr>"

definition sample_edges :: "event list" where
  "sample_edges = [\<lparr>tof = 10, pixel = 0x50030001\<rparr>, \<lparr>tof = 20, pixel = 0x50030000\<rparr>,
     \<lparr>tof = 0x200030, pixel = 0x50030001\<rparr>]"

theorem mult_update_prologue_witness:
  "prologue_packet (\<lambda>_. 0) (words_bytes (mult_update_words 0x2a00000064 sample_edges sample_variable)) =
    Inr (Some (words_bytes
      [16, adara_pkt_type 0x8001 0, 42, 4900, 7, 2, 0, 1]))"
proof -
  have "update_words 0x2a00000064 (last sample_edges) sample_variable =
      [16, adara_pkt_type 0x8001 0, 42, 4900, 7, 2, 0, 1]"
    by (simp add: sample_edges_def sample_variable_def update_words_def event_ns_def alarm_ok_word_def
        carry32.simps)
  moreover have "length sample_edges < 2 ^ 28" "sample_edges \<noteq> []"
    by (simp_all add: sample_edges_def)
  ultimately show ?thesis
    using mult_update_prologue [where es = sample_edges and pid = "0x2a00000064" and v = sample_variable
        and junk = "\<lambda>_. 0"] by simp
qed

end
