(* ===== verification/Pulse_Data.thy ===== *)
theory Pulse_Data
  imports Pixel_Map Fast_Meta
begin

text \<open>
  What the stream management service collects for one pulse (\<open>sms/SMSControl.h\<close>, \<open>struct Pulse\<close>) and
  how the events of a raw data packet are sorted into it (\<open>SMSControl::pulseEvents\<close>,
  \<open>addMonitorEvent\<close>, \<open>addChopperEvent\<close> in \<open>sms/SMSControl.cc\<close>): detector events into the bank of their
  pixel and their state, beam monitor, chopper and fast meta-data events into lists of their own,
  everything else into the error bank.
\<close>

unbundle bit_operations_syntax

section \<open>Pulse flags\<close>

definition ERROR_PIXELS :: u32 where "ERROR_PIXELS = 0x00001"
definition PARTIAL_DATA :: u32 where "PARTIAL_DATA = 0x00002"
definition PULSE_VETO :: u32 where "PULSE_VETO = 0x00004"
definition MISSING_RTDL :: u32 where "MISSING_RTDL = 0x00008"
definition MAPPING_ERROR :: u32 where "MAPPING_ERROR = 0x00010"
definition DUPLICATE_PULSE :: u32 where "DUPLICATE_PULSE = 0x00020"
definition PCHARGE_UNCORRECTED :: u32 where "PCHARGE_UNCORRECTED = 0x00040"
definition VETO_UNCORRECTED :: u32 where "VETO_UNCORRECTED = 0x00080"
definition GOT_METADATA :: u32 where "GOT_METADATA = 0x00100"
definition GOT_NEUTRONS :: u32 where "GOT_NEUTRONS = 0x00200"
definition HAS_STATES :: u32 where "HAS_STATES = 0x00400"

text \<open>The data flags of a packet of version 1 or later.\<close>

definition DATA_GOT_NEUTRONS :: u32 where "DATA_GOT_NEUTRONS = 0x1"
definition DATA_GOT_METADATA :: u32 where "DATA_GOT_METADATA = 0x2"

section \<open>State\<close>

type_synonym source_set = "256 word"
type_synonym pulse_key = "u64 \<times> u32"

record event_source =
  m_intraPulseTime :: u32
  m_tofField :: u32
  m_activeBanks :: u32
  m_banks_arr :: "event list list"
  m_numStates :: u32

record beam_monitor =
  mon_sourceId :: u32
  mon_tofField :: u32
  m_eventTof :: "u32 list"

record pulse =
  m_id :: pulse_key
  m_pending :: source_set
  m_numEventSources :: u32
  m_rtdl :: "bytes option"
  m_pulseSources :: "(u32, event_source) omap"
  m_monitors :: "(u32, beam_monitor) omap"
  m_chopperEvents :: "(u32, u32 list) omap"
  m_fastMetaEvents :: "(u32, event list) omap"
  m_numEvents :: u32
  m_numBanks :: u32
  m_numMonEvents :: u32
  m_charge :: u32
  m_vetoFlags :: u32
  m_cycle :: u32
  m_ringPeriod :: u32
  m_flags :: u32

text \<open>The number of set bits of a set of event sources, \<open>count()\<close>.\<close>

definition source_count :: "source_set \<Rightarrow> nat" where
  "source_count s = length (List.filter (bit s) [0 ..< 256])"

definition new_pulse :: "pulse_key \<Rightarrow> source_set \<Rightarrow> pulse" where
  "new_pulse pid srcs =
     \<lparr>m_id = pid, m_pending = srcs, m_numEventSources = of_nat (source_count srcs), m_rtdl = None,
      m_pulseSources = [], m_monitors = [], m_chopperEvents = [], m_fastMetaEvents = [],
      m_numEvents = 0, m_numBanks = 0, m_numMonEvents = 0, m_charge = 0, m_vetoFlags = 0,
      m_cycle = 0, m_ringPeriod = 0, m_flags = 0\<rparr>"

definition set_flag :: "u32 \<Rightarrow> pulse \<Rightarrow> pulse" where
  "set_flag f p = p\<lparr>m_flags := m_flags p OR f\<rparr>"

definition has_flag :: "u32 \<Rightarrow> pulse \<Rightarrow> bool" where
  "has_flag f p \<longleftrightarrow> m_flags p AND f \<noteq> 0"

text \<open>What stays as it was configured: the pixel map, numbers and functions from outside.\<close>

record sms_config =
  c_pixelMap :: pixel_map
  c_maxBank :: u32
  c_alloc :: "u32 \<Rightarrow> u32"
  c_pulseEnergy :: "u32 \<Rightarrow> u32"
  c_interPulseTime :: u64
  c_targetStation :: u32
  c_target1Mask :: u32
  c_target2Mask :: u32
  c_numDataSources :: u32

text \<open>The settings the service polls from its process variables now and then.\<close>

record settings =
  s_stateBits :: u32
  s_sortByState :: bool
  s_monitorTOFBits :: u32
  s_chopperTOFBits :: u32
  s_enablePixelMapping :: bool

record collect =
  co_choppers :: "u32 fset"
  co_allMonitors :: "u32 fset"
  co_fast :: fast_meta
  co_numStatesLast :: u32
  co_numStatesResetCount :: u32
  co_calls :: "sms_call list"

datatype sms_error =
    Dangling_Iterator
  | Bank_Out_Of_Bounds
  | Fast_Meta_Threw string
  | No_More_Event_Sources
  | Source_Out_Of_Range
  | Invalid_State

section \<open>Masks\<close>

text \<open>
  The masks of the settings. A shift by 32 or more is undefined in C++; here it gives zero, and the
  theorems ask for settings where no such shift is made.
\<close>

definition state_mask :: "u32 \<Rightarrow> u32" where
  "state_mask bits = push_bit (unat (28 - bits)) (- 1) AND 0x0fffffff"

definition tof_mask :: "u32 \<Rightarrow> u32" where
  "tof_mask bits = drop_bit (unat (32 - bits)) (- 1)"

section \<open>Beam monitors and choppers\<close>

definition addMonitorEvent ::
    "settings \<Rightarrow> bytes \<Rightarrow> event \<Rightarrow> pulse \<times> collect \<Rightarrow> pulse \<times> collect" where
  "addMonitorEvent st mem e = (\<lambda>(p, co).
     let monId = drop_bit 16 (pixel e) AND 0xff;
         fresh = \<lparr>mon_sourceId = raw_sourceID mem, mon_tofField = fld mem 5, m_eventTof = []\<rparr>;
         t = (tof e AND tof_mask (s_monitorTOFBits st)) OR push_bit 31 (pixel e AND 1) in
     (p\<lparr>m_monitors := om_upsert monId fresh (\<lambda>m. m\<lparr>m_eventTof := m_eventTof m @ [t]\<rparr>) (m_monitors p)\<rparr>,
      if map_of (m_monitors p) monId = None
      then co\<lparr>co_allMonitors := finsert monId (co_allMonitors co)\<rparr> else co))"

fun dec_string :: "nat \<Rightarrow> string" where
  "dec_string n = (if n < 10 then [hex_digit n] else dec_string (n div 10) @ [hex_digit (n mod 10)])"

declare dec_string.simps [simp del]

definition chopper_pv :: "string \<Rightarrow> string \<Rightarrow> string \<Rightarrow> string" where
  "chopper_pv name num descr =
     ''    <process_variable>'' @ newline
     @ ''      '' @ xml_tag ''pv_name'' name @ newline
     @ ''      '' @ xml_tag ''pv_id'' num @ newline
     @ ''      '' @ xml_tag ''pv_description'' (descr @ '' of TDC signal (offset from pulse)'') @ newline
     @ ''      '' @ xml_tag ''pv_type'' ''unsigned integer'' @ newline
     @ ''      '' @ xml_tag ''pv_units'' ''nanoseconds'' @ newline
     @ ''    </process_variable>'' @ newline"

definition chopper_ddp :: "u32 \<Rightarrow> string" where
  "chopper_ddp cid =
     (let num = dec_string (unat cid) in
      xml_head @ ''<device xmlns='' @ quoted schema @ newline
      @ ''    xmlns:xsi='' @ quoted ''http://www.w3.org/2001/XMLSchema-instance'' @ newline
      @ ''    xsi:schemaLocation='' @ quoted (schema @ '' '' @ schema) @ ''>'' @ newline
      @ ''  '' @ xml_tag ''device_name'' (''chopper'' @ num @ ''_TDC'') @ newline
      @ ''  <process_variables>'' @ newline
      @ chopper_pv (''chopper'' @ num @ ''_TDC_falling'') ''1'' ''Falling Edge''
      @ chopper_pv (''chopper'' @ num @ ''_TDC'') ''2'' ''Rising Edge''
      @ ''  </process_variables>'' @ newline @ ''</device>'')"

definition addChopperEvent ::
    "settings \<Rightarrow> event \<Rightarrow> pulse \<times> collect \<Rightarrow> pulse \<times> collect" where
  "addChopperEvent st e = (\<lambda>(p, co).
     let cid = drop_bit 16 (pixel e AND NOT 0xf0000000);
         t = push_bit 1 ((tof e AND tof_mask (s_chopperTOFBits st)) * 100) OR (pixel e AND 1) in
     (p\<lparr>m_chopperEvents := om_upsert cid [] (\<lambda>ts. ts @ [t]) (m_chopperEvents p)\<rparr>,
      if cid |\<in>| co_choppers co then co
      else co\<lparr>co_calls := co_calls co @ [Fast_DDP (0x80000000 OR cid) (chopper_ddp cid)],
              co_choppers := finsert cid (co_choppers co)\<rparr>))"

section \<open>Fast meta-data\<close>

definition addFastMetaEvent ::
    "(u32 \<Rightarrow> u32) \<Rightarrow> event \<Rightarrow> pulse \<times> collect \<Rightarrow> sms_error + (pulse \<times> collect)" where
  "addFastMetaEvent alloc e = (\<lambda>(p, co).
     let key = var_key_of (pixel e);
         p1 = p\<lparr>m_fastMetaEvents := om_upsert key [] (\<lambda>es. es @ [e]) (m_fastMetaEvents p)\<rparr> in
     case validVariable (co_fast co) (pixel e) of
       Some v \<Rightarrow>
         Inr (p1, if fv_is_counter v
                  then co\<lparr>co_calls := co_calls co @
                    [if pixel e AND 0xffff \<noteq> 0 then Start_Counting key (fst (m_id p)) (tof e)
                     else Stop_Counting key (fst (m_id p)) (tof e)]\<rparr>
                  else co)
     | None \<Rightarrow>
         (case addGenericDevice alloc (pixel e) (co_fast co) of
            Inl msg \<Rightarrow> Inl (Fast_Meta_Threw msg)
          | Inr (fm, calls) \<Rightarrow> Inr (p1, co\<lparr>co_fast := fm, co_calls := co_calls co @ calls\<rparr>)))"

section \<open>Detector and error events\<close>

text \<open>A decoded event: its logical pixel, bank index, state and whether the pixel is not mapped.\<close>

record placed =
  pl_logical :: u32
  pl_bank :: u16
  pl_state :: u32
  pl_unmapped :: bool

definition decode_detector :: "sms_config \<Rightarrow> settings \<Rightarrow> bool \<Rightarrow> u32 \<Rightarrow> placed" where
  "decode_detector c st is_mapped phys =
     (let bits = s_stateBits st; m = state_mask bits;
          state = (if bits > 0 then drop_bit (unat (28 - bits)) (phys AND m) else 0);
          base = (if bits > 0 then phys AND NOT m else phys) in
      if \<not> s_enablePixelMapping st
      then \<lparr>pl_logical = base, pl_bank = 1 + 2, pl_state = state, pl_unmapped = False\<rparr>
      else if is_mapped
      then (let (bank, bad) = mapEventBank (c_pixelMap c) base in
            \<lparr>pl_logical = base, pl_bank = bank + 2, pl_state = state, pl_unmapped = bad\<rparr>)
      else (let (logical, bank, bad) = mapEvent (c_pixelMap c) base in
            \<lparr>pl_logical = logical, pl_bank = bank + 2, pl_state = state, pl_unmapped = bad\<rparr>))"

definition error_event :: "u32 \<Rightarrow> placed" where
  "error_event phys =
     \<lparr>pl_logical = phys, pl_bank = ERROR_BANK + 2, pl_state = 0, pl_unmapped = False\<rparr>"

text \<open>
  The array of banks of a source holds the banks of state 0, then of state 1 and so on. It grows
  when a state is seen for the first time; the size is a 32-bit product. An index outside the array
  is the error \<open>Bank_Out_Of_Bounds\<close>.
\<close>

definition grow_banks ::
    "sms_config \<Rightarrow> u32 \<Rightarrow> event_source \<times> collect \<Rightarrow> sms_error + (event_source \<times> collect)" where
  "grow_banks c state = (\<lambda>(src, co).
     if state + 1 > m_numStates src
     then let size = (state + 1) * (c_maxBank c + 1) in
       if unat size < length (m_banks_arr src) then Inl Bank_Out_Of_Bounds
       else Inr (src\<lparr>m_banks_arr := m_banks_arr src @ replicate (unat size - length (m_banks_arr src)) [],
                     m_numStates := state + 1\<rparr>,
                 if state + 1 > co_numStatesLast co
                 then co\<lparr>co_numStatesLast := state + 1, co_numStatesResetCount := 10\<rparr> else co)
     else Inr (src, co))"

definition push_event ::
    "sms_config \<Rightarrow> placed \<Rightarrow> u32 \<Rightarrow> u32 \<Rightarrow> pulse \<times> event_source \<Rightarrow> sms_error + (pulse \<times> event_source)" where
  "push_event c pl state t = (\<lambda>(p, src).
     let i = unat (ucast (pl_bank pl) + state * (c_maxBank c + 1)) in
     if i < length (m_banks_arr src)
     then let new = (m_banks_arr src ! i = []) in
       Inr (p\<lparr>m_numBanks := m_numBanks p + (if new then 1 else 0), m_numEvents := m_numEvents p + 1\<rparr>,
            src\<lparr>m_activeBanks := m_activeBanks src + (if new then 1 else 0),
                m_banks_arr := (m_banks_arr src)[i := m_banks_arr src ! i @ [\<lparr>tof = t, pixel = pl_logical pl\<rparr>]]\<rparr>)
     else Inl Bank_Out_Of_Bounds)"

definition place_event ::
    "sms_config \<Rightarrow> settings \<Rightarrow> placed \<Rightarrow> u32 \<Rightarrow> pulse \<times> event_source \<times> collect \<Rightarrow>
     sms_error + (pulse \<times> event_source \<times> collect)" where
  "place_event c st pl t = (\<lambda>(p, src, co).
     let p1 = (if pl_state pl > 0 then set_flag HAS_STATES p else p);
         state = (if s_sortByState st then pl_state pl else 0) in
     sbind (grow_banks c state (src, co)) (\<lambda>(src1, co1).
     sbind (push_event c pl state t (p1, src1)) (\<lambda>(p2, src2).
       Inr (p2, src2, co1))))"

section \<open>The loop over the events\<close>

record tally =
  t_events :: u32
  t_metas :: u32
  t_errors :: u32
  t_monitors :: u32
  t_got_neutrons :: bool
  t_got_metadata :: bool

definition no_tally :: tally where
  "no_tally = \<lparr>t_events = 0, t_metas = 0, t_errors = 0, t_monitors = 0,
     t_got_neutrons = False, t_got_metadata = False\<rparr>"

type_synonym loop_state = "pulse \<times> event_source \<times> collect \<times> tally"

text \<open>The switch on the top four bits of the pixel.\<close>

definition event_step ::
    "sms_config \<Rightarrow> settings \<Rightarrow> bytes \<Rightarrow> bool \<Rightarrow> event \<Rightarrow> loop_state \<Rightarrow> sms_error + loop_state" where
  "event_step c st mem is_mapped e = (\<lambda>(p, src, co, ta).
     let phys = pixel e; k = drop_bit 28 phys in
     if k = 4
     then (let (p1, co1) = addMonitorEvent st mem e (p, co) in
       Inr (p1\<lparr>m_numMonEvents := m_numMonEvents p1 + 1\<rparr>, src, co1,
            ta\<lparr>t_got_metadata := True, t_monitors := t_monitors ta + 1, t_metas := t_metas ta + 1\<rparr>))
     else if k = 7
     then (let (p1, co1) = addChopperEvent st e (p, co) in
       Inr (p1, src, co1, ta\<lparr>t_got_metadata := True, t_metas := t_metas ta + 1\<rparr>))
     else if k = 5 \<or> k = 6
     then sbind (addFastMetaEvent (c_alloc c) e (p, co)) (\<lambda>(p1, co1).
       Inr (p1, src, co1, ta\<lparr>t_got_metadata := True, t_metas := t_metas ta + 1\<rparr>))
     else if k = 0
     then (let pl = decode_detector c st is_mapped phys;
               p1 = (if pl_unmapped pl then set_flag MAPPING_ERROR p else p) in
       sbind (place_event c st pl (tof e) (p1, src, co)) (\<lambda>(p2, src2, co2).
         Inr (p2, src2, co2, ta\<lparr>t_got_neutrons := True, t_events := t_events ta + 1\<rparr>)))
     else (let meta = (k = 1 \<or> k = 2 \<or> k = 3) in
       sbind (place_event c st (error_event phys) (tof e) (set_flag ERROR_PIXELS p, src, co))
         (\<lambda>(p2, src2, co2).
           Inr (p2, src2, co2, ta\<lparr>t_got_metadata := t_got_metadata ta \<or> meta,
             t_metas := t_metas ta + (if meta then 1 else 0), t_errors := t_errors ta + 1\<rparr>))))"

fun event_loop ::
    "sms_config \<Rightarrow> settings \<Rightarrow> bytes \<Rightarrow> bool \<Rightarrow> event list \<Rightarrow> loop_state \<Rightarrow> sms_error + loop_state" where
  "event_loop c st mem is_mapped [] s = Inr s"
| "event_loop c st mem is_mapped (e # es) s =
     sbind (event_step c st mem is_mapped e s) (event_loop c st mem is_mapped es)"

text \<open>The flags of the pulse after the loop; data flags of the packet go before what was seen.\<close>

definition raw_gotDataFlags :: "bytes \<Rightarrow> bool" where
  "raw_gotDataFlags mem \<longleftrightarrow> version (header_at mem) \<ge> 1"

definition mark_kinds :: "bytes \<Rightarrow> bool \<Rightarrow> tally \<Rightarrow> pulse \<Rightarrow> pulse" where
  "mark_kinds mem mixed ta p =
     (let got = raw_gotDataFlags mem;
          p1 = (if t_got_neutrons ta \<or> (\<not> got \<and> (\<not> t_got_metadata ta \<or> mixed)) \<or>
                   (got \<and> raw_dataFlags mem AND DATA_GOT_NEUTRONS \<noteq> 0)
                then set_flag GOT_NEUTRONS p else p) in
      if t_got_metadata ta \<or> (\<not> got \<and> mixed) \<or> (got \<and> raw_dataFlags mem AND DATA_GOT_METADATA \<noteq> 0)
      then set_flag GOT_METADATA p1 else p1)"

text \<open>The source of the packet in the pulse, made when it is new.\<close>

definition new_source :: "sms_config \<Rightarrow> bytes \<Rightarrow> collect \<Rightarrow> event_source" where
  "new_source c mem co =
     \<lparr>m_intraPulseTime = raw_intraPulseTime mem, m_tofField = fld mem 5, m_activeBanks = 0,
      m_banks_arr = replicate (unat (co_numStatesLast co * (c_maxBank c + 1))) [],
      m_numStates = co_numStatesLast co\<rparr>"

definition take_pulse_fields :: "u32 \<Rightarrow> bytes \<Rightarrow> pulse \<Rightarrow> pulse" where
  "take_pulse_fields lastRingPeriod mem p =
     (case m_rtdl p of
        None \<Rightarrow> p\<lparr>m_vetoFlags := ucast (raw_vetoFlags mem), m_cycle := ucast (raw_cycle mem),
                  m_ringPeriod := lastRingPeriod\<rparr>
      | Some _ \<Rightarrow> p)"

definition take_charge :: "bytes \<Rightarrow> pulse \<Rightarrow> pulse" where
  "take_charge mem p =
     p\<lparr>m_charge := (case m_rtdl p of Some r \<Rightarrow> rtdl_pulseCharge r | None \<Rightarrow> raw_pulseCharge mem)\<rparr>"

text \<open>\<open>pulseEvents\<close> from the pulse it works on to the pulse it leaves.\<close>

definition collect_packet ::
    "sms_config \<Rightarrow> settings \<Rightarrow> u32 \<Rightarrow> bytes \<Rightarrow> u32 \<Rightarrow> bool \<Rightarrow> bool \<Rightarrow> pulse \<times> collect \<Rightarrow>
     sms_error + (pulse \<times> collect \<times> tally)" where
  "collect_packet c st lastRingPeriod mem hwId is_mapped mixed = (\<lambda>(p, co).
     let p1 = take_pulse_fields lastRingPeriod mem p;
         sources = om_insert hwId (new_source c mem co) (m_pulseSources p1);
         p2 = take_charge mem (p1\<lparr>m_pulseSources := sources\<rparr>);
         src = the (map_of sources hwId) in
     sbind (event_loop c st mem is_mapped (raw_events mem) (p2, src, co, no_tally))
       (\<lambda>(p3, src3, co3, ta).
         Inr (mark_kinds mem mixed ta (p3\<lparr>m_pulseSources := om_update hwId (\<lambda>_. src3) (m_pulseSources p3)\<rparr>),
              co3, ta)))"

end
