(* ===== verification/Pulse_Counts.thy ===== *)
theory Pulse_Counts
  imports Pulse_Data
begin

text \<open>
  The sorting of events into a pulse is total and stable: no index leaves the arrays, every event
  of a packet ends in its place in the order of the packet, and the counts the pulse keeps (which
  become the length of its packet) are the numbers of events and of banks in use.
\<close>

unbundle bit_operations_syntax

section \<open>What is kept\<close>

text \<open>The configuration as the constructor of the service makes it, from a file that was read.\<close>

definition config_ok :: "sms_config \<Rightarrow> bool" where
  "config_ok c \<longleftrightarrow>
     (\<exists>non1to1 ls m. readMap non1to1 ls = Some (Inr m) \<and> c_pixelMap c = new_PixelMap m) \<and>
     c_maxBank c = pm_numBanks (c_pixelMap c) + of_nat REAL_BANK_OFFSET"

abbreviation banks_per_state :: "sms_config \<Rightarrow> nat" where
  "banks_per_state c \<equiv> unat (c_maxBank c) + 1"

text \<open>Settings for which no shift is undefined and the array size does not wrap.\<close>

definition settings_ok :: "sms_config \<Rightarrow> settings \<Rightarrow> bool" where
  "settings_ok c st \<longleftrightarrow>
     unat (s_stateBits st) \<le> 28 \<and>
     (s_sortByState st \<longrightarrow> 2 ^ unat (s_stateBits st) * banks_per_state c < 4294967296)"

definition src_events :: "event_source \<Rightarrow> nat" where
  "src_events src = sum_list (List.map length (m_banks_arr src))"

definition src_banks :: "event_source \<Rightarrow> nat" where
  "src_banks src = length (List.filter (\<lambda>b. b \<noteq> []) (m_banks_arr src))"

definition src_ok :: "sms_config \<Rightarrow> event_source \<Rightarrow> bool" where
  "src_ok c src \<longleftrightarrow>
     1 \<le> unat (m_numStates src) \<and>
     unat (m_numStates src) * banks_per_state c < 4294967296 \<and>
     length (m_banks_arr src) = unat (m_numStates src) * banks_per_state c \<and>
     m_activeBanks src = of_nat (src_banks src)"

definition collect_ok :: "sms_config \<Rightarrow> collect \<Rightarrow> bool" where
  "collect_ok c co \<longleftrightarrow>
     1 \<le> unat (co_numStatesLast co) \<and>
     unat (co_numStatesLast co) * banks_per_state c < 4294967296 \<and>
     om_ok (m_vars (co_fast co))"

definition pulse_ok :: "sms_config \<Rightarrow> pulse \<Rightarrow> bool" where
  "pulse_ok c p \<longleftrightarrow>
     om_ok (m_pulseSources p) \<and> (\<forall>(h, src) \<in> set (m_pulseSources p). src_ok c src) \<and>
     om_ok (m_monitors p) \<and> (\<forall>(i, m) \<in> set (m_monitors p). i \<le> 0xff) \<and>
     om_ok (m_chopperEvents p) \<and> om_ok (m_fastMetaEvents p) \<and>
     m_numEvents p = of_nat (sum_list (List.map (\<lambda>x. src_events (snd x)) (m_pulseSources p))) \<and>
     m_numBanks p = of_nat (sum_list (List.map (\<lambda>x. src_banks (snd x)) (m_pulseSources p))) \<and>
     m_numMonEvents p = of_nat (sum_list (List.map (\<lambda>x. length (m_eventTof (snd x))) (m_monitors p)))"

lemma new_pulse_ok: "pulse_ok c (new_pulse pid srcs)"
  by (simp add: pulse_ok_def new_pulse_def)

section \<open>Arithmetic of the array\<close>

lemma maxBank_room:
  assumes "config_ok c"
  shows "3 \<le> unat (c_maxBank c)" "unat (c_maxBank c) < 0x20000"
    "mapEvent (c_pixelMap c) px = (l, b, u) \<Longrightarrow> unat (b + 2) \<le> unat (c_maxBank c)"
    "mapEventBank (c_pixelMap c) l = (b, u) \<Longrightarrow> unat (b + 2) \<le> unat (c_maxBank c)"
proof -
  from assms obtain non1to1 ls m where read: "readMap non1to1 ls = Some (Inr m)"
    and pm: "c_pixelMap c = new_PixelMap m" and mb: "c_maxBank c = pm_numBanks (c_pixelMap c) + 2"
    by (auto simp: config_ok_def REAL_BANK_OFFSET_def)
  note ok = readMap_ok(1) [OF read]
  have "unat (pm_numBanks (c_pixelMap c)) = unat (largest_bank m) + 1"
    using largest_bank_small [of m] by (simp add: pm new_PixelMap_def word_le_nat_alt unat_word_ariths)
  then have max: "unat (c_maxBank c) = unat (largest_bank m) + 3"
    using largest_bank_small [of m] by (simp add: mb word_le_nat_alt unat_word_ariths)
  then show "3 \<le> unat (c_maxBank c)" "unat (c_maxBank c) < 0x20000"
    using largest_bank_small [of m] by (simp_all add: word_le_nat_alt)
  have bank: "unat (b + 2) \<le> unat (c_maxBank c)"
    if "b = UNMAPPED_BANK \<or> (\<exists>e \<in> set m. snd (snd e) = b)" for b
  proof (cases "b = UNMAPPED_BANK")
    case True
    then show ?thesis using max by (simp add: UNMAPPED_BANK_def)
  next
    case False
    with that obtain e where "e \<in> set m" "snd (snd e) = b" by auto
    then have "ucast b \<le> largest_bank m"
      using largest_bank_ge [of e m] False by auto
    then have "unat b \<le> unat (largest_bank m)"
      by (simp add: word_le_nat_alt unsigned_ucast_eq unsigned_take_bit_eq take_bit_nat_eq_self
          order_less_le_trans [OF unsigned_less])
    moreover have "unat (b + 2) \<le> unat b + 2"
      by (simp add: unat_word_ariths)
    ultimately show ?thesis using max by simp
  qed
  show "mapEvent (c_pixelMap c) px = (l, b, u) \<Longrightarrow> unat (b + 2) \<le> unat (c_maxBank c)"
    using bank [of b] map_of_SomeD [of m px] unfolding pm mapEvent_new [OF ok]
    by (force split: option.splits)
  show "mapEventBank (c_pixelMap c) l = (b, u) \<Longrightarrow> unat (b + 2) \<le> unat (c_maxBank c)"
    using bank [of b] map_of_SomeD [of "logical_banks m" l] unfolding pm mapEventBank_new
    by (force simp: logical_banks_def split: option.splits)
qed

lemma mult_small:
  assumes "unat a * (unat b + 1) < 4294967296" "unat b < 4294967295"
  shows "unat (a * (b + 1) :: u32) = unat a * (unat b + 1)"
proof -
  have "unat (b + 1) = unat b + 1" using assms(2) by (simp add: unat_word_ariths)
  then show ?thesis using assms(1) by (simp add: unat_word_ariths)
qed

section \<open>One event into the banks\<close>

text \<open>The events of a bank, where banks that the array does not have yet are empty.\<close>

definition bank_at :: "event_source \<Rightarrow> nat \<Rightarrow> event list" where
  "bank_at src i = (if i < length (m_banks_arr src) then m_banks_arr src ! i else [])"

lemma src_banks_sum: "src_banks src = sum_list (List.map (\<lambda>b. if b \<noteq> [] then 1 else 0) (m_banks_arr src))"
proof -
  have "length (List.filter (\<lambda>b. b \<noteq> []) xs) = sum_list (List.map (\<lambda>b. if b \<noteq> [] then 1 else 0) xs)"
    for xs :: "event list list"
    by (induction xs) simp_all
  then show ?thesis by (simp only: src_banks_def)
qed

lemma sum_list_set:
  fixes f :: "'a \<Rightarrow> nat"
  assumes "i < length xs"
  shows "sum_list (List.map f (xs[i := x])) + f (xs ! i) = sum_list (List.map f xs) + f x"
  using assms
proof (induction xs arbitrary: i)
  case (Cons y ys)
  then show ?case by (cases i) auto
qed simp

lemma grow_banks_spec:
  assumes src: "src_ok c src" and co: "collect_ok c co" and c: "unat (c_maxBank c) < 0x20000"
    and room: "(unat state + 1) * banks_per_state c < 4294967296"
  obtains src' a b where
    "grow_banks c state (src, co) = Inr (src', co\<lparr>co_numStatesLast := a, co_numStatesResetCount := b\<rparr>)"
    "src_ok c src'" "collect_ok c (co\<lparr>co_numStatesLast := a, co_numStatesResetCount := b\<rparr>)"
    "unat state < unat (m_numStates src')" "bank_at src' = bank_at src"
    "src_events src' = src_events src" "src_banks src' = src_banks src"
    "m_activeBanks src' = m_activeBanks src"
proof (cases "state + 1 > m_numStates src")
  case False
  have "unat state + 1 < 4294967296"
    using room c by (simp add: add_mult_distrib)
  then have "unat (state + 1) = unat state + 1" by (simp add: unat_word_ariths)
  then have "unat state < unat (m_numStates src)"
    using False by (simp add: word_less_nat_alt)
  moreover have "grow_banks c state (src, co) =
      Inr (src, co\<lparr>co_numStatesLast := co_numStatesLast co,
        co_numStatesResetCount := co_numStatesResetCount co\<rparr>)"
    using False by (simp add: grow_banks_def)
  ultimately show thesis
    using src co by (intro that [where src' = src and a = "co_numStatesLast co" and b = "co_numStatesResetCount co"]) simp_all
next
  case grow: True
  have "unat state + 1 < 4294967296"
    using room c by (simp add: add_mult_distrib)
  then have one: "unat (state + 1) = unat state + 1" by (simp add: unat_word_ariths)
  have size: "unat ((state + 1) * (c_maxBank c + 1)) = (unat state + 1) * banks_per_state c"
    using mult_small [of "state + 1" "c_maxBank c"] room c by (simp add: one)
  have len: "length (m_banks_arr src) = unat (m_numStates src) * banks_per_state c"
    using src by (simp add: src_ok_def)
  have "unat (m_numStates src) \<le> unat state + 1"
    using grow one by (simp add: word_less_nat_alt)
  then have le: "length (m_banks_arr src) \<le> (unat state + 1) * banks_per_state c"
    unfolding len by (rule mult_le_mono1)
  let ?n = "(unat state + 1) * banks_per_state c - length (m_banks_arr src)"
  let ?src = "src\<lparr>m_banks_arr := m_banks_arr src @ replicate ?n [], m_numStates := state + 1\<rparr>"
  have "src_banks ?src = src_banks src" "src_events ?src = src_events src"
    by (simp_all add: src_banks_def src_events_def sum_list_replicate)
  moreover have "bank_at ?src = bank_at src"
    by (auto simp: bank_at_def fun_eq_iff nth_append)
  moreover from calculation have "src_ok c ?src"
    using src le room by (simp add: src_ok_def one)
  moreover have "\<exists>a b. (if state + 1 > co_numStatesLast co
      then co\<lparr>co_numStatesLast := state + 1, co_numStatesResetCount := 10\<rparr> else co) =
      co\<lparr>co_numStatesLast := a, co_numStatesResetCount := b\<rparr> \<and>
      collect_ok c (co\<lparr>co_numStatesLast := a, co_numStatesResetCount := b\<rparr>)"
  proof (cases "state + 1 > co_numStatesLast co")
    case True
    then show ?thesis using co room one
      by (intro exI [of _ "state + 1"] exI [of _ 10]) (simp add: collect_ok_def)
  next
    case False
    then show ?thesis using co
      by (intro exI [of _ "co_numStatesLast co"] exI [of _ "co_numStatesResetCount co"])
        (simp add: collect_ok_def)
  qed
  then obtain a b where ab: "(if state + 1 > co_numStatesLast co
      then co\<lparr>co_numStatesLast := state + 1, co_numStatesResetCount := 10\<rparr> else co) =
      co\<lparr>co_numStatesLast := a, co_numStatesResetCount := b\<rparr>"
    "collect_ok c (co\<lparr>co_numStatesLast := a, co_numStatesResetCount := b\<rparr>)" by blast
  moreover have "grow_banks c state (src, co) =
      Inr (?src, co\<lparr>co_numStatesLast := a, co_numStatesResetCount := b\<rparr>)"
    unfolding grow_banks_def Let_def prod.case size if_P [OF grow] ab(1)
    using le by simp
  ultimately show thesis using one by (intro that [where src' = ?src and a = a and b = b]) simp_all
qed

lemma push_event_spec:
  assumes src: "src_ok c src" and c: "unat (c_maxBank c) < 0x20000"
    and bank: "unat (pl_bank pl) \<le> unat (c_maxBank c)" and state: "unat state < unat (m_numStates src)"
  defines "slot \<equiv> unat (pl_bank pl) + unat state * banks_per_state c"
  obtains nb ne src' where
    "push_event c pl state t (p, src) = Inr (p\<lparr>m_numBanks := nb, m_numEvents := ne\<rparr>, src')"
    "src_ok c src'"
    "bank_at src' = (bank_at src)(slot := bank_at src slot @ [\<lparr>tof = t, pixel = pl_logical pl\<rparr>])"
    "ne - of_nat (src_events src') = m_numEvents p - of_nat (src_events src)"
    "nb - of_nat (src_banks src') = m_numBanks p - of_nat (src_banks src)"
proof -
  let ?b = "banks_per_state c" and ?arr = "m_banks_arr src"
  let ?e = "\<lparr>tof = t, pixel = pl_logical pl\<rparr>"
  have ok: "unat (m_numStates src) * ?b < 4294967296" "length ?arr = unat (m_numStates src) * ?b"
    "m_activeBanks src = of_nat (src_banks src)"
    using src by (auto simp: src_ok_def)
  have "(unat state + 1) * ?b \<le> unat (m_numStates src) * ?b"
    using state by (intro mult_le_mono1) simp
  then have slot: "slot < length ?arr" and prod: "unat state * ?b + ?b < 4294967296"
    using bank ok by (auto simp: slot_def add_mult_distrib)
  then have "unat (state * (c_maxBank c + 1)) = unat state * ?b"
    using mult_small [of state "c_maxBank c"] c by simp
  then have i: "unat (ucast (pl_bank pl) + state * (c_maxBank c + 1)) = slot"
    using bank prod by (simp add: slot_def unat_word_ariths unsigned_ucast_eq unsigned_take_bit_eq
        take_bit_nat_eq_self order_less_le_trans [OF unsigned_less])
  define new where "new = (?arr ! slot = [])"
  define src' where "src' = src\<lparr>m_activeBanks := m_activeBanks src + (if new then 1 else 0),
      m_banks_arr := ?arr[slot := ?arr ! slot @ [?e]]\<rparr>"
  have push: "push_event c pl state t (p, src) =
      Inr (p\<lparr>m_numBanks := m_numBanks p + (if new then 1 else 0), m_numEvents := m_numEvents p + 1\<rparr>, src')"
    unfolding push_event_def Let_def prod.case i if_P [OF slot] new_def src'_def by (rule refl)
  have ev: "src_events src' = src_events src + 1"
    using sum_list_set [OF slot, of length "?arr ! slot @ [?e]"]
    by (simp add: src_events_def src'_def)
  have banks: "src_banks src' = src_banks src + (if new then 1 else 0)"
    using sum_list_set [OF slot, of "\<lambda>b. if b \<noteq> [] then 1 else 0" "?arr ! slot @ [?e]"]
    by (cases new) (simp_all add: src_banks_sum src'_def new_def)
  show thesis
  proof (rule that [OF push])
    show "src_ok c src'"
      using src banks by (simp add: src_ok_def src'_def)
    show "bank_at src' = (bank_at src)(slot := bank_at src slot @ [?e])"
      using slot by (auto simp: bank_at_def src'_def fun_eq_iff)
  qed (simp_all add: ev banks)
qed

section \<open>What the loop is to do\<close>

text \<open>The place of an event in the banks: none for events that do not go there.\<close>

definition bank_slot :: "sms_config \<Rightarrow> settings \<Rightarrow> bool \<Rightarrow> event \<Rightarrow> (nat \<times> event) option" where
  "bank_slot c st is_mapped e =
     (let k = drop_bit 28 (pixel e);
          pl = (if k = 0 then decode_detector c st is_mapped (pixel e) else error_event (pixel e));
          state = (if s_sortByState st then pl_state pl else 0) in
      if k = 4 \<or> k = 7 \<or> k = 5 \<or> k = 6 then None
      else Some (unat (pl_bank pl) + unat state * banks_per_state c,
             \<lparr>tof = tof e, pixel = pl_logical pl\<rparr>))"

definition monitor_of :: "event \<Rightarrow> u32" where "monitor_of e = drop_bit 16 (pixel e) AND 0xff"
definition monitor_word :: "settings \<Rightarrow> event \<Rightarrow> u32" where
  "monitor_word st e = (tof e AND tof_mask (s_monitorTOFBits st)) OR push_bit 31 (pixel e AND 1)"
definition chopper_of :: "event \<Rightarrow> u32" where "chopper_of e = drop_bit 16 (pixel e AND NOT 0xf0000000)"
definition chopper_word :: "settings \<Rightarrow> event \<Rightarrow> u32" where
  "chopper_word st e =
     push_bit 1 ((tof e AND tof_mask (s_chopperTOFBits st)) * 100) OR (pixel e AND 1)"

definition entry :: "('k, 'v list) omap \<Rightarrow> 'k \<Rightarrow> 'v list" where
  "entry m k = (case map_of m k of None \<Rightarrow> [] | Some v \<Rightarrow> v)"

definition monitor_events :: "pulse \<Rightarrow> u32 \<Rightarrow> u32 list" where
  "monitor_events p i = (case map_of (m_monitors p) i of None \<Rightarrow> [] | Some m \<Rightarrow> m_eventTof m)"

text \<open>
  \<open>sorts\<close> is the specification of the loop: each event of the packet, in the order of the packet,
  behind what its place already held.
\<close>

definition sorts ::
    "sms_config \<Rightarrow> settings \<Rightarrow> bool \<Rightarrow> event list \<Rightarrow> pulse \<times> event_source \<Rightarrow> pulse \<times> event_source \<Rightarrow> bool" where
  "sorts c st is_mapped es = (\<lambda>(p, src) (p', src').
     bank_at src' = (\<lambda>i. bank_at src i @
       List.map snd (List.filter (\<lambda>x. fst x = i) (List.map_filter (bank_slot c st is_mapped) es))) \<and>
     monitor_events p' = (\<lambda>i. monitor_events p i @
       List.map (monitor_word st) (List.filter (\<lambda>e. drop_bit 28 (pixel e) = 4 \<and> monitor_of e = i) es)) \<and>
     entry (m_chopperEvents p') = (\<lambda>i. entry (m_chopperEvents p) i @
       List.map (chopper_word st) (List.filter (\<lambda>e. drop_bit 28 (pixel e) = 7 \<and> chopper_of e = i) es)) \<and>
     entry (m_fastMetaEvents p') = (\<lambda>k. entry (m_fastMetaEvents p) k @
       List.filter (\<lambda>e. (drop_bit 28 (pixel e) = 5 \<or> drop_bit 28 (pixel e) = 6) \<and>
         var_key_of (pixel e) = k) es))"

lemma sorts_nil: "sorts c st is_mapped [] s s"
  by (cases s) (simp add: sorts_def map_filter_def)

lemma sorts_append:
  "sorts c st im as s s1 \<Longrightarrow> sorts c st im bs s1 s2 \<Longrightarrow> sorts c st im (as @ bs) s s2"
  by (cases s; cases s1; cases s2) (simp add: sorts_def map_filter_def)

text \<open>What every step keeps of the state it works on.\<close>

definition loop_ok :: "sms_config \<Rightarrow> pulse \<times> event_source \<times> collect \<Rightarrow> bool" where
  "loop_ok c = (\<lambda>(p, src, co).
     src_ok c src \<and> collect_ok c co \<and>
     om_ok (m_monitors p) \<and> (\<forall>(i, m) \<in> set (m_monitors p). i \<le> 0xff) \<and>
     om_ok (m_chopperEvents p) \<and> om_ok (m_fastMetaEvents p) \<and>
     m_numMonEvents p = of_nat (sum_list (List.map (\<lambda>x. length (m_eventTof (snd x))) (m_monitors p))))"

text \<open>What every step leaves as it was, counts relative to the source that grows.\<close>

definition loop_frame :: "pulse \<times> event_source \<Rightarrow> pulse \<times> event_source \<Rightarrow> bool" where
  "loop_frame = (\<lambda>(p, src) (p', src').
     m_numEvents p' - of_nat (src_events src') = m_numEvents p - of_nat (src_events src) \<and>
     m_numBanks p' - of_nat (src_banks src') = m_numBanks p - of_nat (src_banks src) \<and>
     m_id p' = m_id p \<and> m_pending p' = m_pending p \<and> m_rtdl p' = m_rtdl p \<and>
     m_numEventSources p' = m_numEventSources p \<and> m_pulseSources p' = m_pulseSources p \<and>
     m_charge p' = m_charge p \<and> m_vetoFlags p' = m_vetoFlags p \<and> m_cycle p' = m_cycle p \<and>
     m_ringPeriod p' = m_ringPeriod p)"

lemma loop_frame_refl: "loop_frame s s"
  by (cases s) (simp add: loop_frame_def)

lemma loop_frame_trans: "loop_frame s s1 \<Longrightarrow> loop_frame s1 s2 \<Longrightarrow> loop_frame s s2"
  by (cases s; cases s1; cases s2) (simp add: loop_frame_def)

section \<open>Decoded events stay in range\<close>

lemma decode_state:
  assumes "unat (s_stateBits st) \<le> 28"
  shows "unat (pl_state (decode_detector c st is_mapped phys)) < 2 ^ unat (s_stateBits st)"
proof (cases "s_stateBits st > 0")
  case True
  let ?b = "unat (s_stateBits st)"
  have n: "unat (28 - s_stateBits st) = 28 - ?b"
    using assms by (simp add: unat_sub word_le_nat_alt)
  have "phys AND state_mask (s_stateBits st) =
      take_bit 28 (phys AND push_bit (28 - ?b) (- 1))"
    by (simp add: state_mask_def n take_bit_eq_mask mask_eq_exp_minus_1 ac_simps)
  then have "unat (phys AND state_mask (s_stateBits st)) < 2 ^ (?b + (28 - ?b))"
    using unat_take_bit_less [of 28 "phys AND push_bit (28 - ?b) (- 1)"] assms by simp
  moreover have "unat (drop_bit k w) = unat w div 2 ^ k" for k and w :: u32
    by (subst unsigned_drop_bit_eq) (simp add: drop_bit_eq_div take_bit_nat_eq_self)
  ultimately have "unat (drop_bit (28 - ?b) (phys AND state_mask (s_stateBits st))) < 2 ^ ?b"
    by (simp only: power_add less_mult_imp_div_less)
  then show ?thesis
    using True by (auto simp: decode_detector_def Let_def n split: prod.split)
next
  case False
  then have "s_stateBits st = 0" by (simp add: word_less_nat_alt unsigned_eq_0_iff)
  then show ?thesis by (auto simp: decode_detector_def Let_def split: prod.split)
qed

lemma decode_bank:
  assumes "config_ok c"
  shows "unat (pl_bank (decode_detector c st is_mapped phys)) \<le> unat (c_maxBank c)"
  using maxBank_room [OF assms] by (auto simp: decode_detector_def Let_def split: prod.split)

lemma error_event_in: "unat (pl_bank (error_event phys)) = 0" "pl_state (error_event phys) = 0"
  by (simp_all add: error_event_def ERROR_BANK_def)

lemma sort_room:
  assumes "config_ok c" "settings_ok c st" "unat s < 2 ^ unat (s_stateBits st) \<or> s = 0"
  shows "(unat (if s_sortByState st then s else 0) + 1) * banks_per_state c < 4294967296"
proof (cases "s_sortByState st \<and> s \<noteq> 0")
  case True
  then have "(unat s + 1) * banks_per_state c \<le> 2 ^ unat (s_stateBits st) * banks_per_state c"
    using assms(3) by (intro mult_le_mono1) auto
  also have "\<dots> < 4294967296" using assms(2) True by (simp add: settings_ok_def)
  finally show ?thesis using True by simp
next
  case False
  then show ?thesis using maxBank_room(2) [OF assms(1)] by auto
qed

section \<open>One step\<close>

lemma place_event_spec:
  assumes ok: "loop_ok c (p, src, co)" and c: "config_ok c" and st: "settings_ok c st"
    and bank: "unat (pl_bank pl) \<le> unat (c_maxBank c)"
    and state: "unat (pl_state pl) < 2 ^ unat (s_stateBits st) \<or> pl_state pl = 0"
  defines "slot \<equiv> unat (pl_bank pl) + unat (if s_sortByState st then pl_state pl else 0) * banks_per_state c"
  obtains p' src' co' where
    "place_event c st pl t (p, src, co) = Inr (p', src', co')"
    "loop_ok c (p', src', co')" "loop_frame (p, src) (p', src')"
    "bank_at src' = (bank_at src)(slot := bank_at src slot @ [\<lparr>tof = t, pixel = pl_logical pl\<rparr>])"
    "m_monitors p' = m_monitors p" "m_chopperEvents p' = m_chopperEvents p"
    "m_fastMetaEvents p' = m_fastMetaEvents p"
proof -
  let ?s = "if s_sortByState st then pl_state pl else 0"
  let ?p1 = "if pl_state pl > 0 then set_flag HAS_STATES p else p"
  have sc: "src_ok c src" "collect_ok c co" using ok by (auto simp: loop_ok_def)
  note cmax = maxBank_room(2) [OF c]
  from grow_banks_spec [OF sc cmax sort_room [OF c st state]]
  obtain src1 a b where
    grow: "grow_banks c ?s (src, co) = Inr (src1, co\<lparr>co_numStatesLast := a, co_numStatesResetCount := b\<rparr>)"
    and src1: "src_ok c src1" "unat ?s < unat (m_numStates src1)" "bank_at src1 = bank_at src"
      "src_events src1 = src_events src" "src_banks src1 = src_banks src"
    and co1: "collect_ok c (co\<lparr>co_numStatesLast := a, co_numStatesResetCount := b\<rparr>)"
    by metis
  from push_event_spec [OF src1(1) cmax bank src1(2)]
  obtain nb ne src2 where
    push: "push_event c pl ?s t (?p1, src1) = Inr (?p1\<lparr>m_numBanks := nb, m_numEvents := ne\<rparr>, src2)"
    and src2: "src_ok c src2"
      "bank_at src2 = (bank_at src1)(slot := bank_at src1 slot @ [\<lparr>tof = t, pixel = pl_logical pl\<rparr>])"
      "ne - of_nat (src_events src2) = m_numEvents ?p1 - of_nat (src_events src1)"
      "nb - of_nat (src_banks src2) = m_numBanks ?p1 - of_nat (src_banks src1)"
    unfolding slot_def by metis
  show thesis
  proof (rule that)
    show "place_event c st pl t (p, src, co) = Inr (?p1\<lparr>m_numBanks := nb, m_numEvents := ne\<rparr>, src2,
        co\<lparr>co_numStatesLast := a, co_numStatesResetCount := b\<rparr>)"
      using grow push by (simp add: place_event_def Let_def)
    show "loop_ok c (?p1\<lparr>m_numBanks := nb, m_numEvents := ne\<rparr>, src2,
        co\<lparr>co_numStatesLast := a, co_numStatesResetCount := b\<rparr>)"
      using ok src2(1) co1 by (simp add: loop_ok_def set_flag_def)
    show "loop_frame (p, src) (?p1\<lparr>m_numBanks := nb, m_numEvents := ne\<rparr>, src2)"
      using src2(3,4) src1(4,5) by (simp add: loop_frame_def set_flag_def split: if_splits)
    show "bank_at src2 = (bank_at src)(slot := bank_at src slot @ [\<lparr>tof = t, pixel = pl_logical pl\<rparr>])"
      using src2(2) src1(3) by simp
  qed (simp_all add: set_flag_def)
qed

lemma entry_upsert:
  "om_ok m \<Longrightarrow> entry (om_upsert k [] (\<lambda>xs. xs @ [x]) m) = (entry m)(k := entry m k @ [x])"
  by (auto simp: entry_def fun_eq_iff map_of_om_upsert split: option.split)

lemma addFastMetaEvent_ok:
  assumes "collect_ok c co"
  obtains co' where "addFastMetaEvent alloc e (p, co) =
      Inr (p\<lparr>m_fastMetaEvents := om_upsert (var_key_of (pixel e)) [] (\<lambda>es. es @ [e]) (m_fastMetaEvents p)\<rparr>, co')"
    "collect_ok c co'"
proof (cases "validVariable (co_fast co) (pixel e)")
  case None
  then have new: "var_key_of (pixel e) \<notin> om_keys (m_vars (co_fast co))"
    by (simp add: validVariable_def map_of_eq_None_iff)
  then obtain fm calls where gen: "addGenericDevice alloc (pixel e) (co_fast co) = Inr (fm, calls)"
    and "om_ok (m_vars fm)"
    using assms by (auto simp: addGenericDevice_def Let_def collect_ok_def)
  then have "collect_ok c (co\<lparr>co_fast := fm, co_calls := co_calls co @ calls\<rparr>)"
    using assms by (simp add: collect_ok_def)
  then show thesis
    by (rule that [rotated]) (simp add: addFastMetaEvent_def None gen Let_def)
next
  case (Some v)
  show thesis
  proof (rule that)
    show "addFastMetaEvent alloc e (p, co) =
        Inr (p\<lparr>m_fastMetaEvents := om_upsert (var_key_of (pixel e)) [] (\<lambda>es. es @ [e]) (m_fastMetaEvents p)\<rparr>,
          if fv_is_counter v
          then co\<lparr>co_calls := co_calls co @
            [if pixel e AND 0xffff \<noteq> 0 then Start_Counting (var_key_of (pixel e)) (fst (m_id p)) (tof e)
             else Stop_Counting (var_key_of (pixel e)) (fst (m_id p)) (tof e)]\<rparr>
          else co)"
      by (simp add: addFastMetaEvent_def Some Let_def)
  qed (use assms in \<open>simp add: collect_ok_def\<close>)
qed

definition step_spec ::
    "sms_config \<Rightarrow> settings \<Rightarrow> bool \<Rightarrow> event list \<Rightarrow> loop_state \<Rightarrow> sms_error + loop_state \<Rightarrow> bool" where
  "step_spec c st is_mapped es = (\<lambda>(p, src, co, ta) r.
     \<exists>p' src' co' ta'. r = Inr (p', src', co', ta') \<and> loop_ok c (p', src', co') \<and>
       loop_frame (p, src) (p', src') \<and> sorts c st is_mapped es (p, src) (p', src'))"

lemma placed_step_spec:
  assumes ok: "loop_ok c (p, src, co)" and c: "config_ok c" and st: "settings_ok c st"
    and pl: "unat (pl_bank pl) \<le> unat (c_maxBank c)"
      "unat (pl_state pl) < 2 ^ unat (s_stateBits st) \<or> pl_state pl = 0"
    and slot: "bank_slot c st is_mapped e =
      Some (unat (pl_bank pl) + unat (if s_sortByState st then pl_state pl else 0) * banks_per_state c,
        \<lparr>tof = tof e, pixel = pl_logical pl\<rparr>)"
    and kind: "drop_bit 28 (pixel e) \<notin> {4, 5, 6, 7}"
  shows "step_spec c st is_mapped [e] (p, src, co, ta)
    (sbind (place_event c st pl (tof e) (set_flag f p, src, co)) (\<lambda>(p2, src2, co2).
       Inr (p2, src2, co2, ta2)))"
proof -
  have "loop_ok c (set_flag f p, src, co)"
    using ok by (simp add: loop_ok_def set_flag_def)
  from place_event_spec [OF this c st pl, of "tof e"] obtain p' src' co'
    where place: "place_event c st pl (tof e) (set_flag f p, src, co) = Inr (p', src', co')"
      and ok': "loop_ok c (p', src', co')" and frame: "loop_frame (set_flag f p, src) (p', src')"
      and bank: "bank_at src' = (bank_at src)
        (unat (pl_bank pl) + unat (if s_sortByState st then pl_state pl else 0) * banks_per_state c :=
          bank_at src (unat (pl_bank pl) + unat (if s_sortByState st then pl_state pl else 0) *
            banks_per_state c) @ [\<lparr>tof = tof e, pixel = pl_logical pl\<rparr>])"
      and same: "m_monitors p' = m_monitors (set_flag f p)"
        "m_chopperEvents p' = m_chopperEvents (set_flag f p)"
        "m_fastMetaEvents p' = m_fastMetaEvents (set_flag f p)" by metis
  have "loop_frame (p, src) (p', src')"
    using frame by (simp add: loop_frame_def set_flag_def)
  moreover have "sorts c st is_mapped [e] (p, src) (p', src')"
    using slot kind same
    by (auto simp: sorts_def map_filter_def bank fun_eq_iff monitor_events_def set_flag_def)
  ultimately show ?thesis
    using ok' by (simp add: step_spec_def place)
qed

lemma monitor_step_spec:
  assumes ok: "loop_ok c (p, src, co)" and kind: "drop_bit 28 (pixel e) = 4"
  shows "step_spec c st is_mapped [e] (p, src, co, ta)
    (let (p1, co1) = addMonitorEvent st mem e (p, co) in
     Inr (p1\<lparr>m_numMonEvents := m_numMonEvents p1 + 1\<rparr>, src, co1, ta2))"
proof -
  let ?v = "\<lparr>mon_sourceId = raw_sourceID mem, mon_tofField = fld mem 5, m_eventTof = []\<rparr>"
  let ?f = "\<lambda>m. m\<lparr>m_eventTof := m_eventTof m @ [monitor_word st e]\<rparr>"
  define ms where "ms = om_upsert (monitor_of e) ?v ?f (m_monitors p)"
  obtain co1 where add: "addMonitorEvent st mem e (p, co) = (p\<lparr>m_monitors := ms\<rparr>, co1)"
    and co1: "collect_ok c co1"
    using ok by (simp add: addMonitorEvent_def Let_def ms_def monitor_of_def monitor_word_def
        loop_ok_def collect_ok_def)
  have om: "om_ok (m_monitors p)" and ids: "\<forall>(i, m) \<in> set (m_monitors p). i \<le> 0xff"
    using ok by (simp_all add: loop_ok_def)
  have "monitor_of e \<le> 0xff"
    using unat_take_bit_less [of 8 "drop_bit 16 (pixel e)"]
    by (simp add: monitor_of_def and_low_mask_u32 word_le_nat_alt)
  then have "\<forall>(i, m) \<in> set ms. i \<le> 0xff"
  proof -
    have "om_keys ms = insert (monitor_of e) (om_keys (m_monitors p))"
      unfolding ms_def by (rule om_keys_upsert)
    then show ?thesis
      using ids \<open>monitor_of e \<le> 0xff\<close> by force
  qed
  moreover have "om_ok ms" using om by (simp add: ms_def)
  moreover have "sum_list (List.map (\<lambda>x. length (m_eventTof (snd x))) ms) =
      sum_list (List.map (\<lambda>x. length (m_eventTof (snd x))) (m_monitors p)) + 1"
    unfolding ms_def by (rule om_sum_upsert [OF om]) simp_all
  ultimately have "loop_ok c (p\<lparr>m_monitors := ms, m_numMonEvents := m_numMonEvents p + 1\<rparr>, src, co1)"
    using ok co1 by (simp add: loop_ok_def add.commute)
  moreover have "monitor_events (p\<lparr>m_monitors := ms, m_numMonEvents := m_numMonEvents p + 1\<rparr>) =
      (monitor_events p)(monitor_of e := monitor_events p (monitor_of e) @ [monitor_word st e])"
    by (auto simp: monitor_events_def ms_def fun_eq_iff map_of_om_upsert [OF om] split: option.split)
  then have "sorts c st is_mapped [e] (p, src) (p\<lparr>m_monitors := ms, m_numMonEvents := m_numMonEvents p + 1\<rparr>, src)"
    by (auto simp: sorts_def map_filter_def bank_slot_def kind fun_eq_iff)
  ultimately show ?thesis
    by (simp add: step_spec_def add loop_frame_def)
qed

lemma chopper_step_spec:
  assumes ok: "loop_ok c (p, src, co)" and kind: "drop_bit 28 (pixel e) = 7"
  shows "step_spec c st is_mapped [e] (p, src, co, ta)
    (let (p1, co1) = addChopperEvent st e (p, co) in Inr (p1, src, co1, ta2))"
proof -
  let ?p = "p\<lparr>m_chopperEvents := om_upsert (chopper_of e) [] (\<lambda>ts. ts @ [chopper_word st e]) (m_chopperEvents p)\<rparr>"
  obtain co1 where add: "addChopperEvent st e (p, co) = (?p, co1)" and co1: "collect_ok c co1"
    using ok by (simp add: addChopperEvent_def Let_def chopper_of_def chopper_word_def
        loop_ok_def collect_ok_def)
  have om: "om_ok (m_chopperEvents p)" using ok by (simp add: loop_ok_def)
  have "loop_ok c (?p, src, co1)" using ok co1 by (simp add: loop_ok_def)
  moreover have "sorts c st is_mapped [e] (p, src) (?p, src)"
    by (auto simp: sorts_def map_filter_def bank_slot_def kind fun_eq_iff entry_upsert [OF om]
        monitor_events_def)
  ultimately show ?thesis by (simp add: step_spec_def add loop_frame_def)
qed

lemma fast_step_spec:
  assumes ok: "loop_ok c (p, src, co)" and kind: "drop_bit 28 (pixel e) = 5 \<or> drop_bit 28 (pixel e) = 6"
  shows "step_spec c st is_mapped [e] (p, src, co, ta)
    (sbind (addFastMetaEvent alloc e (p, co)) (\<lambda>(p1, co1). Inr (p1, src, co1, ta2)))"
proof -
  let ?p = "p\<lparr>m_fastMetaEvents := om_upsert (var_key_of (pixel e)) [] (\<lambda>es. es @ [e]) (m_fastMetaEvents p)\<rparr>"
  have "collect_ok c co" using ok by (simp add: loop_ok_def)
  then obtain co1 where add: "addFastMetaEvent alloc e (p, co) = Inr (?p, co1)" and co1: "collect_ok c co1"
    by (rule addFastMetaEvent_ok)
  have om: "om_ok (m_fastMetaEvents p)" using ok by (simp add: loop_ok_def)
  have "loop_ok c (?p, src, co1)" using ok co1 by (simp add: loop_ok_def)
  moreover have "sorts c st is_mapped [e] (p, src) (?p, src)"
    using kind by (auto simp: sorts_def map_filter_def bank_slot_def fun_eq_iff entry_upsert [OF om]
        monitor_events_def)
  ultimately show ?thesis by (simp add: step_spec_def add loop_frame_def)
qed

lemma set_flag_if: "(if b then set_flag f p else p) = set_flag (if b then f else 0) p"
  by (simp add: set_flag_def)

lemma event_step_spec:
  assumes ok: "loop_ok c (p, src, co)" and c: "config_ok c" and st: "settings_ok c st"
  shows "step_spec c st is_mapped [e] (p, src, co, ta) (event_step c st mem is_mapped e (p, src, co, ta))"
proof -
  let ?k = "drop_bit 28 (pixel e)"
  consider "?k = 4" | "?k = 7" | "?k = 5 \<or> ?k = 6" | "?k = 0" | "?k \<notin> {0, 4, 5, 6, 7}" by blast
  then show ?thesis
  proof cases
    case 1
    then show ?thesis
      unfolding event_step_def prod.case Let_def [of "pixel e"] Let_def [of ?k] if_P [OF 1]
      by (rule monitor_step_spec [OF ok])
  next
    case 2
    then show ?thesis
      using chopper_step_spec [OF ok 2, of st is_mapped ta]
      by (simp add: event_step_def Let_def)
  next
    case 3
    then have "event_step c st mem is_mapped e (p, src, co, ta) =
        sbind (addFastMetaEvent (c_alloc c) e (p, co)) (\<lambda>(p1, co1).
          Inr (p1, src, co1, ta\<lparr>t_got_metadata := True, t_metas := t_metas ta + 1\<rparr>))"
      by (auto simp: event_step_def Let_def)
    then show ?thesis using fast_step_spec [OF ok 3] by simp
  next
    case 4
    let ?pl = "decode_detector c st is_mapped (pixel e)"
    have pl: "unat (pl_bank ?pl) \<le> unat (c_maxBank c)"
      "unat (pl_state ?pl) < 2 ^ unat (s_stateBits st) \<or> pl_state ?pl = 0"
      using decode_bank [OF c] decode_state st by (auto simp: settings_ok_def)
    have "bank_slot c st is_mapped e =
        Some (unat (pl_bank ?pl) + unat (if s_sortByState st then pl_state ?pl else 0) * banks_per_state c,
          \<lparr>tof = tof e, pixel = pl_logical ?pl\<rparr>)"
      by (simp add: bank_slot_def 4 Let_def)
    from placed_step_spec [OF ok c st pl this] 4 show ?thesis
      by (simp add: event_step_def Let_def set_flag_if)
  next
    case 5
    let ?pl = "error_event (pixel e)"
    have "bank_slot c st is_mapped e =
        Some (unat (pl_bank ?pl) + unat (if s_sortByState st then pl_state ?pl else 0) * banks_per_state c,
          \<lparr>tof = tof e, pixel = pl_logical ?pl\<rparr>)"
      using 5 by (simp add: bank_slot_def Let_def)
    from placed_step_spec [OF ok c st _ _ this] 5 show ?thesis
      by (simp add: event_step_def Let_def error_event_in)
  qed
qed

lemma event_loop_spec:
  assumes "loop_ok c (p, src, co)" and c: "config_ok c" and st: "settings_ok c st"
  shows "step_spec c st is_mapped es (p, src, co, ta) (event_loop c st mem is_mapped es (p, src, co, ta))"
  using assms(1)
proof (induction es arbitrary: p src co ta)
  case Nil
  then show ?case by (simp add: step_spec_def loop_frame_refl sorts_nil)
next
  case (Cons e es)
  from event_step_spec [OF Cons.prems c st, of is_mapped e ta mem] obtain p1 src1 co1 ta1
    where step: "event_step c st mem is_mapped e (p, src, co, ta) = Inr (p1, src1, co1, ta1)"
      and ok1: "loop_ok c (p1, src1, co1)" and f1: "loop_frame (p, src) (p1, src1)"
      and s1: "sorts c st is_mapped [e] (p, src) (p1, src1)"
    by (auto simp: step_spec_def)
  from Cons.IH [OF ok1, of ta1] obtain p2 src2 co2 ta2
    where loop: "event_loop c st mem is_mapped es (p1, src1, co1, ta1) = Inr (p2, src2, co2, ta2)"
      and ok2: "loop_ok c (p2, src2, co2)" and f2: "loop_frame (p1, src1) (p2, src2)"
      and s2: "sorts c st is_mapped es (p1, src1) (p2, src2)"
    by (auto simp: step_spec_def)
  show ?case
    using ok2 loop_frame_trans [OF f1 f2] sorts_append [OF s1 s2]
    by (simp add: step_spec_def step loop)
qed

section \<open>A whole packet\<close>

lemma new_source_ok:
  assumes "config_ok c" "collect_ok c co"
  shows "src_ok c (new_source c mem co)" "src_events (new_source c mem co) = 0"
    "src_banks (new_source c mem co) = 0"
proof -
  have "unat (co_numStatesLast co * (c_maxBank c + 1)) = unat (co_numStatesLast co) * banks_per_state c"
    using mult_small [of "co_numStatesLast co" "c_maxBank c"] assms(2) maxBank_room(2) [OF assms(1)]
    by (simp add: collect_ok_def)
  then show "src_ok c (new_source c mem co)"
    using assms(2) by (simp add: src_ok_def new_source_def collect_ok_def src_banks_def)
  show "src_events (new_source c mem co) = 0" "src_banks (new_source c mem co) = 0"
    by (simp_all add: src_events_def src_banks_def new_source_def sum_list_replicate)
qed

text \<open>The source of a pulse the packet goes to.\<close>

definition packet_source :: "sms_config \<Rightarrow> bytes \<Rightarrow> u32 \<Rightarrow> pulse \<times> collect \<Rightarrow> event_source" where
  "packet_source c mem hwId = (\<lambda>(p, co).
     case map_of (m_pulseSources p) hwId of None \<Rightarrow> new_source c mem co | Some src \<Rightarrow> src)"

lemma mark_kinds_frame:
  "\<exists>f. mark_kinds mem mixed ta p = set_flag f p"
proof -
  have "set_flag g (set_flag f p) = set_flag (f OR g) p" for f g
    by (simp add: set_flag_def ac_simps)
  then show ?thesis
    by (auto simp: mark_kinds_def Let_def set_flag_if)
qed

lemma pulse_ok_flag [simp]: "pulse_ok c (set_flag f p) = pulse_ok c p"
  by (simp add: pulse_ok_def set_flag_def)

lemma sources_flag [simp]: "m_pulseSources (set_flag f p) = m_pulseSources p"
  by (simp add: set_flag_def)

lemma sorts_flag [simp]: "sorts c st im es s (set_flag f p, src) = sorts c st im es s (p, src)"
  by (cases s) (simp add: sorts_def set_flag_def monitor_events_def fun_eq_iff)

text \<open>Putting the grown source back restores the counts of the pulse.\<close>

lemma pulse_ok_put_back:
  assumes srcs: "om_ok ss" "\<forall>(h, src) \<in> set ss. src_ok c src" "map_of ss hw = Some src"
    and ev: "m_numEvents p = of_nat (sum_list (List.map (\<lambda>x. src_events (snd x)) ss))"
    and bk: "m_numBanks p = of_nat (sum_list (List.map (\<lambda>x. src_banks (snd x)) ss))"
    and frame: "loop_frame (p, src) (p', src')" and ok: "loop_ok c (p', src', co)"
  shows "pulse_ok c (p'\<lparr>m_pulseSources := om_update hw (\<lambda>_. src') ss\<rparr>)"
proof -
  let ?ss = "om_update hw (\<lambda>_. src') ss"
  have gap: "b = a" if "b - of_nat (g src') = a0 - of_nat (g src)" "a0 = of_nat n" "m + g src = n + g src'"
    "a = of_nat m" for a b a0 :: u32 and n m and g :: "event_source \<Rightarrow> nat"
  proof -
    have "of_nat m + of_nat (g src) = (of_nat n + of_nat (g src') :: u32)"
      using that(3) by (simp flip: of_nat_add)
    moreover have "b + of_nat (g src) = of_nat n + of_nat (g src')"
      using that(1,2) by (simp add: algebra_simps)
    ultimately show ?thesis using that(4) by (metis add_right_cancel)
  qed
  have "m_numEvents p' = of_nat (sum_list (List.map (\<lambda>x. src_events (snd x)) ?ss))"
    using gap [of "m_numEvents p'" src_events, OF _ ev om_sum_update [OF srcs(1,3)] refl] frame
    by (simp add: loop_frame_def)
  moreover have "m_numBanks p' = of_nat (sum_list (List.map (\<lambda>x. src_banks (snd x)) ?ss))"
    using gap [of "m_numBanks p'" src_banks, OF _ bk om_sum_update [OF srcs(1,3)] refl] frame
    by (simp add: loop_frame_def)
  moreover have "\<forall>(h, src) \<in> set ?ss. src_ok c src"
    using srcs ok by (intro om_update_all) (auto simp: loop_ok_def)
  ultimately show ?thesis
    using ok srcs(1) by (simp add: pulse_ok_def loop_ok_def)
qed

text \<open>What a packet does, also that it leaves the RTDL packet of the pulse alone.\<close>

lemma collect_packet_spec:
  assumes c: "config_ok c" and st: "settings_ok c st" and p: "pulse_ok c p" and co: "collect_ok c co"
  shows "\<exists>p' co' ta src'.
    collect_packet c st ring mem hwId is_mapped mixed (p, co) = Inr (p', co', ta) \<and>
    pulse_ok c p' \<and> collect_ok c co' \<and> m_rtdl p' = m_rtdl p \<and>
    map_of (m_pulseSources p') = (map_of (m_pulseSources p))(hwId \<mapsto> src') \<and>
    sorts c st is_mapped (raw_events mem) (p, packet_source c mem hwId (p, co)) (p', src')"
proof -
  let ?src = "packet_source c mem hwId (p, co)"
  define ss where "ss = om_insert hwId (new_source c mem co) (m_pulseSources p)"
  define p2 where "p2 = take_charge mem ((take_pulse_fields ring mem p)\<lparr>m_pulseSources := ss\<rparr>)"
  have same: "m_numEvents p2 = m_numEvents p" "m_numBanks p2 = m_numBanks p" "m_monitors p2 = m_monitors p"
    "m_chopperEvents p2 = m_chopperEvents p" "m_fastMetaEvents p2 = m_fastMetaEvents p"
    "m_numMonEvents p2 = m_numMonEvents p" "m_pulseSources p2 = ss"
    by (simp_all add: p2_def take_charge_def take_pulse_fields_def split: option.split)
  have om: "om_ok (m_pulseSources p)" using p by (simp add: pulse_ok_def)
  then have ss: "om_ok ss" and get: "map_of ss hwId = Some ?src"
    by (simp_all add: ss_def map_of_om_insert packet_source_def split: option.split)
  have all: "\<forall>(h, src) \<in> set ss. src_ok c src"
  proof (cases "hwId \<in> om_keys (m_pulseSources p)")
    case True
    then have "ss = m_pulseSources p" unfolding ss_def by (rule om_insert_old [OF om])
    then show ?thesis using p by (simp add: pulse_ok_def)
  next
    case False
    then show ?thesis using p new_source_ok(1) [OF c co]
      by (auto simp: ss_def om_insert_new pulse_ok_def)
  qed
  then have "src_ok c ?src" using map_of_SomeD [OF get] by auto
  then have "loop_ok c (p2, ?src, co)"
    using p co by (simp add: loop_ok_def same pulse_ok_def)
  from event_loop_spec [OF this c st, of is_mapped "raw_events mem" no_tally mem]
  obtain p3 src3 co3 ta where
    loop: "event_loop c st mem is_mapped (raw_events mem) (p2, ?src, co, no_tally) = Inr (p3, src3, co3, ta)"
    and ok3: "loop_ok c (p3, src3, co3)" and frame: "loop_frame (p2, ?src) (p3, src3)"
    and srt: "sorts c st is_mapped (raw_events mem) (p2, ?src) (p3, src3)"
    by (auto simp: step_spec_def)
  define ss3 where "ss3 = om_update hwId (\<lambda>_. src3) ss"
  obtain f where mark: "mark_kinds mem mixed ta (p3\<lparr>m_pulseSources := ss3\<rparr>) = set_flag f (p3\<lparr>m_pulseSources := ss3\<rparr>)"
    using mark_kinds_frame by blast
  have "pulse_ok c (p3\<lparr>m_pulseSources := ss3\<rparr>)"
    unfolding ss3_def
  proof (rule pulse_ok_put_back [OF ss all get _ _ frame ok3])
    show "m_numEvents p2 = of_nat (sum_list (List.map (\<lambda>x. src_events (snd x)) ss))"
      "m_numBanks p2 = of_nat (sum_list (List.map (\<lambda>x. src_banks (snd x)) ss))"
      using p new_source_ok(2,3) [OF c co] om
      by (simp_all add: same ss_def om_sum_insert pulse_ok_def)
  qed
  moreover have "m_rtdl (set_flag f (p3\<lparr>m_pulseSources := ss3\<rparr>)) = m_rtdl p"
    using frame by (simp add: set_flag_def loop_frame_def p2_def take_charge_def take_pulse_fields_def split: option.splits)
  moreover have "map_of ss3 = (map_of (m_pulseSources p))(hwId \<mapsto> src3)"
    using get by (auto simp: ss3_def fun_eq_iff map_of_om_update map_of_om_insert [OF om] ss_def)
  moreover have "sorts c st is_mapped (raw_events mem) (p, ?src) (p3\<lparr>m_pulseSources := ss3\<rparr>, src3)"
    using srt by (simp add: sorts_def same monitor_events_def fun_eq_iff)
  moreover have "collect_packet c st ring mem hwId is_mapped mixed (p, co) =
      Inr (set_flag f (p3\<lparr>m_pulseSources := ss3\<rparr>), co3, ta)"
  proof -
    have "m_pulseSources (take_pulse_fields ring mem p) = m_pulseSources p" "m_pulseSources p3 = ss"
      using frame by (simp_all add: take_pulse_fields_def loop_frame_def same split: option.split)
    then show ?thesis
      using loop mark get
      by (simp add: collect_packet_def Let_def ss3_def flip: ss_def) (simp flip: p2_def)
  qed
  ultimately show ?thesis
    using ok3 by (intro exI [of _ "set_flag f (p3\<lparr>m_pulseSources := ss3\<rparr>)"] exI [of _ co3]
        exI [of _ ta] exI [of _ src3]) (simp add: loop_ok_def)
qed

text \<open>
  C19. Sorting the events of a raw data packet. From a pulse, a configuration read from a pixel map
  file and settings that are in order, \<open>pulseEvents\<close> never indexes the banks out of range and never
  throws: every event of the packet ends, in the order of the packet, behind the events its place
  already held (the bank of its pixel and state in the source of the packet, the error bank, a beam
  monitor, a chopper, a fast meta-data variable); the other sources of the pulse stay as they were;
  and the counts of events, of banks in use and of monitor events the pulse carries are again the
  numbers of what it holds.
\<close>

theorem packet_events_sorted:
  assumes c: "config_ok c" and st: "settings_ok c st" and p: "pulse_ok c p" and co: "collect_ok c co"
  shows "\<exists>p' co' ta src'.
    collect_packet c st ring mem hwId is_mapped mixed (p, co) = Inr (p', co', ta) \<and>
    pulse_ok c p' \<and> collect_ok c co' \<and>
    map_of (m_pulseSources p') = (map_of (m_pulseSources p))(hwId \<mapsto> src') \<and>
    sorts c st is_mapped (raw_events mem) (p, packet_source c mem hwId (p, co)) (p', src')"
  using collect_packet_spec [OF assms, of ring mem hwId is_mapped mixed] by blast

text \<open>A service with the small pixel map and a packet of a neutron, a monitor and an error event.\<close>

definition sample_config :: sms_config where
  "sample_config =
     \<lparr>c_pixelMap = new_PixelMap sample_map, c_maxBank = pm_numBanks (new_PixelMap sample_map) + 2,
      c_alloc = (\<lambda>d. d), c_pulseEnergy = (\<lambda>_. 0), c_interPulseTime = 16666666, c_targetStation = 1,
      c_target1Mask = 0xfff, c_target2Mask = 0, c_numDataSources = 1\<rparr>"

definition sample_settings :: settings where
  "sample_settings =
     \<lparr>s_stateBits = 0, s_sortByState = False, s_monitorTOFBits = 21, s_chopperTOFBits = 21,
      s_enablePixelMapping = True\<rparr>"

definition sample_collect :: collect where
  "sample_collect =
     \<lparr>co_choppers = {||}, co_allMonitors = {||}, co_fast = new_FastMeta, co_numStatesLast = 1,
      co_numStatesResetCount = 0, co_calls = []\<rparr>"

definition sample_raw :: bytes where
  "sample_raw = words_bytes
     [48, 0x000000, 1000, 500, 17, 0, 0, 0, 0, 0, 100, 7, 200, 0x40020001, 300, 0x80000000]"

lemma sample_config_ok: "config_ok sample_config"
  by (auto simp: config_ok_def sample_config_def REAL_BANK_OFFSET_def intro: readMap_sample)

lemma sample_settings_ok: "settings_ok sample_config sample_settings"
  by (simp add: settings_ok_def sample_settings_def)

lemma sample_collect_ok: "collect_ok sample_config sample_collect"
  using maxBank_room(2) [OF sample_config_ok]
  by (simp add: collect_ok_def sample_collect_def new_FastMeta_def)

lemma sample_raw_events:
  "raw_events sample_raw =
     [\<lparr>tof = 100, pixel = 7\<rparr>, \<lparr>tof = 200, pixel = 0x40020001\<rparr>, \<lparr>tof = 300, pixel = 0x80000000\<rparr>]"
proof -
  have "u32_at sample_raw (4 * i) = [48, 0x000000, 1000, 500, 17, 0, 0, 0, 0, 0, 100, 7, 200,
      0x40020001, 300, 0x80000000] ! i" if "i < 16" for i
    unfolding sample_raw_def using that by (intro u32_at_words) simp
  from this [of 0] this [of 10] this [of 11] this [of 12] this [of 13] this [of 14] this [of 15]
  have w: "u32_at sample_raw 0 = 48" "u32_at sample_raw 40 = 100" "u32_at sample_raw 44 = 7"
    "u32_at sample_raw 48 = 200" "u32_at sample_raw 52 = 0x40020001" "u32_at sample_raw 56 = 300"
    "u32_at sample_raw 60 = 0x80000000" by simp_all
  have "[0 ..< 3] = [0, 1, 2 :: nat]" by (simp add: upt_rec)
  then show ?thesis
    by (simp add: raw_events_def raw_num_events_def payload_len_header_at w fld_def)
qed

theorem packet_events_sorted_witness:
  "\<exists>p' co' ta src'.
    collect_packet sample_config sample_settings 0 sample_raw 17 False False
      (new_pulse (5, 0) 1, sample_collect) = Inr (p', co', ta) \<and>
    map_of (m_pulseSources p') 17 = Some src' \<and>
    bank_at src' 5 = [\<lparr>tof = 100, pixel = 32\<rparr>] \<and> bank_at src' 0 = [\<lparr>tof = 300, pixel = 0x80000000\<rparr>] \<and>
    monitor_events p' 2 = [0x800000c8]"
proof -
  let ?p = "new_pulse (5, 0) 1"
  from packet_events_sorted [OF sample_config_ok sample_settings_ok new_pulse_ok sample_collect_ok,
      of 0 sample_raw 17 False False "(5, 0)" 1]
  obtain p' co' ta src' where run: "collect_packet sample_config sample_settings 0 sample_raw 17 False False
      (?p, sample_collect) = Inr (p', co', ta)"
    and src: "map_of (m_pulseSources p') = (map_of (m_pulseSources ?p))(17 \<mapsto> src')"
    and srt: "sorts sample_config sample_settings False (raw_events sample_raw)
      (?p, packet_source sample_config sample_raw 17 (?p, sample_collect)) (p', src')" by blast
  have "mapEvent (c_pixelMap sample_config) 7 = (32, 3, False)"
    unfolding sample_config_def sms_config.simps mapEvent_new [OF readMap_ok(1) [OF readMap_sample]]
    by (simp add: sample_map_def UNMAPPED_BANK_def)
  then have slots: "List.map_filter (bank_slot sample_config sample_settings False) (raw_events sample_raw) =
      [(5, \<lparr>tof = 100, pixel = 32\<rparr>), (0, \<lparr>tof = 300, pixel = 0x80000000\<rparr>)]"
    by (simp add: sample_raw_events map_filter_def bank_slot_def decode_detector_def sample_settings_def
        error_event_def ERROR_BANK_def)
  have empty: "bank_at (packet_source sample_config sample_raw 17 (?p, sample_collect)) i = []" for i
    by (simp add: packet_source_def new_pulse_def new_source_def bank_at_def)
  have "bank_at src' 5 = [\<lparr>tof = 100, pixel = 32\<rparr>]" "bank_at src' 0 = [\<lparr>tof = 300, pixel = 0x80000000\<rparr>]"
    using srt unfolding sorts_def prod.case slots empty by simp_all
  moreover have "monitor_events p' = (\<lambda>i. monitor_events ?p i @ List.map (monitor_word sample_settings)
      (List.filter (\<lambda>e. drop_bit 28 (pixel e) = 4 \<and> monitor_of e = i) (raw_events sample_raw)))"
    using srt by (simp add: sorts_def)
  then have "monitor_events p' 2 = [0x800000c8]"
    by (simp add: sample_raw_events monitor_of_def monitor_word_def sample_settings_def tof_mask_def
        monitor_events_def new_pulse_def mask_eq_exp_minus_1)
  ultimately show ?thesis using run src by auto
qed

end
