(* ===== verification/Pulse_Packets.thy ===== *)
theory Pulse_Packets
  imports Pulse_Counts Event_Packets
begin

text \<open>
  The packets a finished pulse becomes (\<open>SMSControl::recordPulse\<close> and the \<open>build...\<close> functions of
  \<open>sms/SMSControl.cc\<close>) and the walk of the translation service over them (the \<open>rxPacket\<close> functions
  for banked events and beam monitors of \<open>stc/StreamParser.cpp\<close>). The writers compute the length of
  a packet from the counts of the pulse, not from what they write; nothing checks it afterwards.
\<close>

unbundle bit_operations_syntax

section \<open>Writing\<close>

definition packet_head :: "u32 \<Rightarrow> pkt_kind \<Rightarrow> pulse \<Rightarrow> u32 list" where
  "packet_head len k p =
     [len, adara_pkt_type (type_code k) (current_version k),
      ucast (drop_bit 32 (fst (m_id p))), ucast (fst (m_id p))]"

definition pulse_words :: "sms_config \<Rightarrow> pulse \<Rightarrow> u32 list" where
  "pulse_words c p =
     [if has_flag GOT_NEUTRONS p then m_charge p else 0, c_pulseEnergy c (m_ringPeriod p), m_cycle p,
      (m_flags p AND 0xfffff) + push_bit 20 (m_vetoFlags p AND 0xfff)]"

definition monitor_section :: "u32 \<times> beam_monitor \<Rightarrow> u32 list" where
  "monitor_section = (\<lambda>(i, m).
     [push_bit 22 i OR of_nat (length (m_eventTof m)), mon_sourceId m, mon_tofField m] @ m_eventTof m)"

definition buildMonitorPacket :: "sms_config \<Rightarrow> pulse \<Rightarrow> bytes" where
  "buildMonitorPacket c p =
     (let len = (8 + of_nat (length (m_monitors p)) * 3 + m_numMonEvents p) * 4 - 16 in
      words_bytes (packet_head len BEAM_MONITOR_EVENT_TYPE p @ pulse_words c p
        @ concat (List.map monitor_section (m_monitors p))))"

text \<open>The banks of a source that have events, with their index in the array.\<close>

definition used_banks :: "event_source \<Rightarrow> (nat \<times> event list) list" where
  "used_banks src = List.filter (\<lambda>b. snd b \<noteq> []) (List.enumerate 0 (m_banks_arr src))"

definition bank_label :: "sms_config \<Rightarrow> nat \<Rightarrow> u32" where
  "bank_label c i = of_nat i mod (c_maxBank c + 1) - 2"

definition state_label :: "sms_config \<Rightarrow> nat \<Rightarrow> u32" where
  "state_label c i = of_nat i div (c_maxBank c + 1)"

definition event_words :: "event list \<Rightarrow> u32 list" where
  "event_words es = concat (List.map (\<lambda>e. [tof e, pixel e]) es)"

definition bank_section :: "sms_config \<Rightarrow> bool \<Rightarrow> nat \<times> event list \<Rightarrow> u32 list" where
  "bank_section c states = (\<lambda>(i, es).
     [bank_label c i] @ (if states then [state_label c i] else []) @ [of_nat (length es)]
     @ event_words es)"

definition source_section :: "sms_config \<Rightarrow> bool \<Rightarrow> u32 \<times> event_source \<Rightarrow> u32 list" where
  "source_section c states = (\<lambda>(h, src).
     [h, m_intraPulseTime src, m_tofField src, m_activeBanks src]
     @ concat (List.map (bank_section c states) (used_banks src)))"

definition banked_size :: "bool \<Rightarrow> pulse \<Rightarrow> u32" where
  "banked_size states p =
     (8 + of_nat (length (m_pulseSources p)) * 4 + m_numBanks p * (if states then 3 else 2)) * 4
     + m_numEvents p * 8 - 16"

definition banked_bytes :: "sms_config \<Rightarrow> bool \<Rightarrow> pulse \<Rightarrow> bytes" where
  "banked_bytes c states p =
     words_bytes
       (packet_head (banked_size states p)
          (if states then BANKED_EVENT_STATE_TYPE else BANKED_EVENT_TYPE) p
        @ pulse_words c p @ concat (List.map (source_section c states) (m_pulseSources p)))"

text \<open>
  The number of states new sources are made for falls back when it was not needed for ten pulses.
  The counter is unsigned, so that it is compared with zero after it may have wrapped.
\<close>

definition buildBankedPacket :: "sms_config \<Rightarrow> pulse \<times> collect \<Rightarrow> bytes \<times> collect" where
  "buildBankedPacket c = (\<lambda>(p, co).
     (banked_bytes c False p,
      if co_numStatesLast co > 1
      then let n = co_numStatesResetCount co - 1 in
        co\<lparr>co_numStatesResetCount := n,
           co_numStatesLast := (if n \<le> 0 then 1 else co_numStatesLast co)\<rparr>
      else co))"

definition pulse_states :: "sms_config \<Rightarrow> pulse \<Rightarrow> u32" where
  "pulse_states c p =
     fold (\<lambda>b n. let s = state_label c (fst b) in if s + 1 > n then s + 1 else n)
       (concat (List.map (\<lambda>(h, src). used_banks src) (m_pulseSources p))) 1"

definition buildBankedStatePacket :: "sms_config \<Rightarrow> pulse \<times> collect \<Rightarrow> bytes \<times> collect" where
  "buildBankedStatePacket c = (\<lambda>(p, co).
     (banked_bytes c True p,
      let s = pulse_states c p; n = co_numStatesResetCount co - 1 in
      if co_numStatesLast co > s
      then co\<lparr>co_numStatesResetCount := n, co_numStatesLast := (if n \<le> 0 then s else co_numStatesLast co)\<rparr>
      else if co_numStatesLast co = s then co\<lparr>co_numStatesResetCount := 10\<rparr>
      else co))"

text \<open>
  A chopper event that belongs to the pulse before is put at the start of the pulse; one between
  two pulses is left out. \<open>None\<close> is an event left out.
\<close>

definition chopper_tof :: "sms_config \<Rightarrow> u32 \<Rightarrow> u32 list \<Rightarrow> u32 option" where
  "chopper_tof c val later =
     (let t = drop_bit 1 val; base = c_interPulseTime c in
      case later of
        [] \<Rightarrow> Some t
      | val2 # _ \<Rightarrow>
          if t > drop_bit 1 val2
          then if 90 * base div 100 < ucast t \<and> ucast t < 110 * base div 100 then Some 0
               else if 90 * 2 * base div 100 < ucast t \<and> ucast t < 110 * 2 * base div 100 then None
               else Some t
          else Some t)"

definition chopper_words :: "u64 \<Rightarrow> u32 \<Rightarrow> u32 \<Rightarrow> u32 \<Rightarrow> u32 list" where
  "chopper_words pid cid val t =
     (let ns = ucast pid + t; sec = ucast (drop_bit 32 pid);
          (sec1, ns1) = (if ns \<ge> 1000000000 then (sec + 1, ns - 1000000000) else (sec, ns)) in
      [16, adara_pkt_type (type_code VAR_VALUE_U32_TYPE) (current_version VAR_VALUE_U32_TYPE),
       sec1, ns1, 0x80000000 OR cid, (val AND 1) + 1, alarm_ok_word, t])"

fun chopper_packets :: "sms_config \<Rightarrow> u64 \<Rightarrow> u32 \<times> u32 list \<Rightarrow> bytes list" where
  "chopper_packets c pid (cid, []) = []"
| "chopper_packets c pid (cid, val # vals) =
     (case chopper_tof c val vals of
        None \<Rightarrow> []
      | Some t \<Rightarrow> [words_bytes (chopper_words pid cid val t)])
     @ List.map (\<lambda>v. words_bytes (chopper_words pid cid v (drop_bit 1 v))) vals"

definition buildChopperPackets :: "sms_config \<Rightarrow> pulse \<Rightarrow> bytes list" where
  "buildChopperPackets c p =
     concat (List.map (chopper_packets c (fst (m_id p))) (m_chopperEvents p))"

fun send_each :: "u64 \<Rightarrow> event list \<Rightarrow> fast_meta \<Rightarrow> fast_meta \<times> sms_call list" where
  "send_each pid [] fm = (fm, [])"
| "send_each pid (e # es) fm =
     (let (fm1, cs) = sendUpdate pid e fm; (fm2, cs') = send_each pid es fm1 in (fm2, cs @ cs'))"

fun buildFastMetaPackets ::
    "u64 \<Rightarrow> (u32 \<times> event list) list \<Rightarrow> fast_meta \<Rightarrow> fast_meta \<times> sms_call list" where
  "buildFastMetaPackets pid [] fm = (fm, [])"
| "buildFastMetaPackets pid ((k, es) # m) fm =
     (let (fm1, cs) = (if length es > 3 then sendMultUpdate pid es fm else send_each pid es fm);
          (fm2, cs') = buildFastMetaPackets pid m fm1 in (fm2, cs @ cs'))"

text \<open>\<open>recordPulse\<close>: everything a pulse leaves in the output, in this order.\<close>

definition is_veto :: "sms_config \<Rightarrow> pulse \<Rightarrow> bool" where
  "is_veto c p \<longleftrightarrow>
     (if c_targetStation c = 1 then m_vetoFlags p AND c_target1Mask c \<noteq> 0
      else c_targetStation c = 2 \<and> m_vetoFlags p AND c_target2Mask c \<noteq> 0)"

definition mark_recorded :: "sms_config \<Rightarrow> pulse \<Rightarrow> pulse" where
  "mark_recorded c p =
     (let p1 = (if m_rtdl p = None then set_flag MISSING_RTDL p else p) in
      if is_veto c p1 then set_flag PULSE_VETO p1 else p1)"

definition recordPulse :: "sms_config \<Rightarrow> pulse \<times> collect \<Rightarrow> pulse \<times> collect" where
  "recordPulse c = (\<lambda>(p, co).
     let rtdl = (case m_rtdl p of None \<Rightarrow> [] | Some r \<Rightarrow> [Add_Packet r False]);
         p1 = mark_recorded c p;
         monitors = [Add_Packet (buildMonitorPacket c p1) True];
         (banked, co1) = (if has_flag HAS_STATES p1 then buildBankedStatePacket c (p1, co)
                          else buildBankedPacket c (p1, co));
         choppers = List.map (\<lambda>b. Add_Packet b True) (buildChopperPackets c p1);
         (fm, fast) = buildFastMetaPackets (fst (m_id p1)) (m_fastMetaEvents p1) (co_fast co1) in
     (p1, co1\<lparr>co_fast := fm,
              co_calls := co_calls co1 @ rtdl @ monitors @ [Add_Packet banked True] @ choppers @ fast\<rparr>))"

section \<open>The walk of the translation service\<close>

text \<open>
  Positions are indices of words of the payload, its end is in bytes. \<open>bank_call\<close> is a call of \<open>processBankEvents\<close>:
  bank, state and the events it reads.
\<close>

type_synonym bank_call = "u32 \<times> u32 \<times> event list"

fun stc_events :: "bytes \<Rightarrow> nat \<Rightarrow> nat \<Rightarrow> pkt_error + event list" where
  "stc_events mem pos 0 = Inr []"
| "stc_events mem pos (Suc n) =
     sbind (rd_fld mem pos) (\<lambda>t. sbind (rd_fld mem (pos + 1)) (\<lambda>px.
     sbind (stc_events mem (pos + 2) n) (\<lambda>es. Inr (\<lparr>tof = t, pixel = px\<rparr> # es))))"

fun stc_banks :: "bytes \<Rightarrow> bool \<Rightarrow> nat \<Rightarrow> nat \<Rightarrow> pkt_error + (bank_call list \<times> nat)" where
  "stc_banks mem states pos 0 = Inr ([], pos)"
| "stc_banks mem states pos (Suc n) =
     sbind (rd_fld mem pos) (\<lambda>bank.
     sbind (if states then rd_fld mem (pos + 1) else Inr 0) (\<lambda>state.
     let pos1 = pos + (if states then 2 else 1) in
     sbind (rd_fld mem pos1) (\<lambda>cnt.
     sbind (stc_events mem (pos1 + 1) (unat (push_bit 1 cnt) div 2)) (\<lambda>es.
     sbind (stc_banks mem states (pos1 + 1 + unat (push_bit 1 cnt)) n) (\<lambda>(calls, pos2).
       Inr ((bank, state, es) # calls, pos2))))))"

lemma stc_banks_pos: "stc_banks mem states pos n = Inr (calls, pos') \<Longrightarrow> pos \<le> pos'"
  by (induction mem states pos n arbitrary: calls pos' rule: stc_banks.induct)
    (fastforce simp: sbind_eq_Inr Let_def split: prod.splits if_splits)+

function stc_sources :: "bytes \<Rightarrow> bool \<Rightarrow> nat \<Rightarrow> nat \<Rightarrow> pkt_error + bank_call list" where
  "stc_sources mem states pos epos =
     (if 4 * pos < epos
      then sbind (rd_fld mem pos) (\<lambda>source_id.
        sbind (rd_fld mem (pos + 3)) (\<lambda>bank_count.
        case stc_banks mem states (pos + 4) (unat bank_count) of
          Inl e \<Rightarrow> Inl e
        | Inr (calls, pos') \<Rightarrow>
            sbind (stc_sources mem states pos' epos) (\<lambda>more_calls. Inr (calls @ more_calls))))
      else Inr [])"
  by pat_completeness auto
termination
proof (relation "measure (\<lambda>(mem, states, pos, epos). epos - pos)", goal_cases)
  case (2 mem states pos epos w bank_count r calls pos')
  then show ?case using stc_banks_pos [of mem states "pos + 4" "unat bank_count" calls pos'] by auto
qed simp

declare stc_sources.simps [simp del]

definition stc_banked :: "bytes \<Rightarrow> bool \<Rightarrow> pkt_error + bank_call list" where
  "stc_banked mem states = stc_sources mem states 4 (unat (payload_len (header_at mem)))"

text \<open>A call of \<open>processMonitorEvents\<close>: the monitor and the words of its events.\<close>

fun stc_words :: "bytes \<Rightarrow> nat \<Rightarrow> nat \<Rightarrow> pkt_error + u32 list" where
  "stc_words mem pos 0 = Inr []"
| "stc_words mem pos (Suc n) =
     sbind (rd_fld mem pos) (\<lambda>w. sbind (stc_words mem (pos + 1) n) (\<lambda>ws. Inr (w # ws)))"

function stc_monitors :: "bytes \<Rightarrow> nat \<Rightarrow> nat \<Rightarrow> pkt_error + (u16 \<times> u32 list) list" where
  "stc_monitors mem pos epos =
     (if 4 * pos < epos
      then sbind (rd_fld mem pos) (\<lambda>w.
        let n = unat (w AND 0x003fffff) in
        sbind (stc_words mem (pos + 3) n) (\<lambda>ws.
        sbind (stc_monitors mem (pos + 3 + n) epos) (\<lambda>calls.
          Inr ((ucast (drop_bit 22 w), ws) # calls))))
      else Inr [])"
  by pat_completeness auto
termination
  by (relation "measure (\<lambda>(mem, pos, epos). epos - pos)") auto

declare stc_monitors.simps [simp del]

definition stc_beam_monitors :: "bytes \<Rightarrow> pkt_error + (u16 \<times> u32 list) list" where
  "stc_beam_monitors mem = stc_monitors mem 4 (unat (payload_len (header_at mem)))"

section \<open>Reading what was written\<close>

lemma rd_mid: "length pre = 4 + pos \<Longrightarrow> rd_fld (words_bytes (pre @ w # post) @ rest) pos = Inr w"
  by (subst rd_fld_words_append) (simp_all add: nth_append)

lemma stc_events_written:
  "length pre = 4 + pos \<Longrightarrow>
   stc_events (words_bytes (pre @ event_words es @ post) @ rest) pos (length es) = Inr es"
proof (induction es arbitrary: pre pos)
  case (Cons e es)
  have "stc_events (words_bytes (pre @ event_words (e # es) @ post) @ rest) (pos + 2) (length es) = Inr es"
    using Cons.IH [of "pre @ [tof e, pixel e]" "pos + 2"] Cons.prems by (simp add: event_words_def)
  moreover have "rd_fld (words_bytes (pre @ event_words (e # es) @ post) @ rest) pos = Inr (tof e)"
    using rd_mid [OF Cons.prems] by (simp add: event_words_def)
  moreover have "rd_fld (words_bytes (pre @ event_words (e # es) @ post) @ rest) (pos + 1) = Inr (pixel e)"
    using rd_mid [of "pre @ [tof e]" "pos + 1"] Cons.prems by (simp add: event_words_def)
  ultimately show ?case by simp
qed simp

lemma length_event_words [simp]: "length (event_words es) = 2 * length es"
  by (induction es) (simp_all add: event_words_def)

definition bank_call_of :: "sms_config \<Rightarrow> bool \<Rightarrow> nat \<times> event list \<Rightarrow> bank_call" where
  "bank_call_of c states = (\<lambda>(i, es). (bank_label c i, if states then state_label c i else 0, es))"

lemma length_bank_section:
  "length (bank_section c states (i, es)) = (if states then 3 else 2) + 2 * length es"
  by (simp add: bank_section_def)

lemma push_bit_one_small: "n < 2147483648 \<Longrightarrow> unat (push_bit 1 (of_nat n :: u32)) = 2 * n"
  by (simp add: push_bit_eq_mult unat_word_ariths unat_of_nat_u32)

lemma stc_banks_written:
  assumes "length pre = 4 + pos" and "\<forall>b \<in> set bs. length (snd b) < 2147483648"
  shows "stc_banks (words_bytes (pre @ concat (List.map (bank_section c states) bs) @ post) @ rest) states pos
      (length bs) =
    Inr (List.map (bank_call_of c states) bs, pos + length (concat (List.map (bank_section c states) bs)))"
  using assms
proof (induction bs arbitrary: pre pos)
  case (Cons b bs)
  obtain i es where b: "b = (i, es)" by fastforce
  let ?sec = "bank_section c states (i, es)"
  let ?mem = "words_bytes (pre @ concat (List.map (bank_section c states) (b # bs)) @ post) @ rest"
  let ?tail = "concat (List.map (bank_section c states) bs) @ post"
  let ?pos1 = "pos + (if states then 2 else 1)"
  have cnt: "unat (push_bit 1 (of_nat (length es) :: u32)) = 2 * length es"
    using Cons.prems(2) by (intro push_bit_one_small) (simp add: b)
  have bank: "rd_fld ?mem pos = Inr (bank_label c i)"
    using rd_mid [OF Cons.prems(1)] by (simp add: b bank_section_def)
  have state: "(if states then rd_fld ?mem (pos + 1) else Inr 0) = Inr (if states then state_label c i else 0)"
    using rd_mid [of "pre @ [bank_label c i]" "pos + 1"] Cons.prems(1) by (simp add: b bank_section_def)
  have count: "rd_fld ?mem ?pos1 = Inr (of_nat (length es))"
    using rd_mid [of "pre @ [bank_label c i] @ (if states then [state_label c i] else [])" ?pos1]
      Cons.prems(1) by (simp add: b bank_section_def)
  have events: "stc_events ?mem (?pos1 + 1) (2 * length es div 2) = Inr es"
    using stc_events_written [of "pre @ [bank_label c i] @ (if states then [state_label c i] else []) @
        [of_nat (length es)]" "?pos1 + 1" es ?tail rest] Cons.prems(1)
    by (simp add: b bank_section_def)
  have sec: "?pos1 + 1 + 2 * length es = pos + length ?sec"
    by (simp add: length_bank_section)
  have later: "stc_banks ?mem states (?pos1 + 1 + 2 * length es) (length bs) =
      Inr (List.map (bank_call_of c states) bs,
        pos + length ?sec + length (concat (List.map (bank_section c states) bs)))"
    unfolding sec using Cons.IH [of "pre @ ?sec" "pos + length ?sec"] Cons.prems by (simp add: b)
  show ?case
    unfolding list.size(4) add_0_right add_Suc_right stc_banks.simps(2) bank state sbind_simps Let_def count
      cnt events later
    by (simp add: b bank_call_of_def)
qed simp

text \<open>What the used banks of a source hold, against the counts of the source.\<close>

lemma used_banks_events: "List.map snd (used_banks src) = List.filter (\<lambda>es. es \<noteq> []) (m_banks_arr src)"
proof -
  have "List.map snd (List.filter (\<lambda>b. snd b \<noteq> []) (List.enumerate n xs)) = List.filter (\<lambda>es. es \<noteq> []) xs"
    for n and xs :: "event list list"
    by (induction xs arbitrary: n) simp_all
  then show ?thesis by (simp add: used_banks_def)
qed

lemma length_used_banks: "length (used_banks src) = src_banks src"
  using arg_cong [OF used_banks_events, of length src] by (simp add: src_banks_def)

lemma sum_used_banks: "sum_list (List.map (\<lambda>b. length (snd b)) (used_banks src)) = src_events src"
proof -
  have "sum_list (List.map length (List.filter (\<lambda>es. es \<noteq> []) xs)) = sum_list (List.map length xs)"
    for xs :: "event list list"
    by (induction xs) simp_all
  from this [of "m_banks_arr src"] show ?thesis
    unfolding src_events_def used_banks_events [symmetric] by (simp add: comp_def)
qed

lemma length_bank_sections:
  "length (concat (List.map (bank_section c states) bs)) =
     (if states then 3 else 2) * length bs + 2 * sum_list (List.map (\<lambda>b. length (snd b)) bs)"
  by (induction bs) (auto simp: length_bank_section)

lemma length_source_section:
  "length (source_section c states (h, src)) = 4 + (if states then 3 else 2) * src_banks src + 2 * src_events src"
  by (simp add: source_section_def length_bank_sections length_used_banks sum_used_banks)

lemma length_source_sections:
  "length (concat (List.map (source_section c states) ss)) =
     4 * length ss + (if states then 3 else 2) * sum_list (List.map (\<lambda>x. src_banks (snd x)) ss)
     + 2 * sum_list (List.map (\<lambda>x. src_events (snd x)) ss)"
  by (induction ss) (auto simp: length_source_section algebra_simps)

lemma used_bank_small: "b \<in> set (used_banks src) \<Longrightarrow> length (snd b) \<le> src_events src"
  unfolding sum_used_banks [symmetric] by (rule member_le_sum_list) simp_all

text \<open>The calls that bring the events of a source to the translation.\<close>

definition source_calls :: "sms_config \<Rightarrow> bool \<Rightarrow> event_source \<Rightarrow> bank_call list" where
  "source_calls c states src = List.map (bank_call_of c states) (used_banks src)"

lemma stc_sources_written:
  assumes "length pre = 4 + pos"
    and "\<forall>(h, src) \<in> set ss. m_activeBanks src = of_nat (src_banks src) \<and>
      src_banks src < 4294967296 \<and> src_events src < 2147483648"
  shows "stc_sources (words_bytes (pre @ concat (List.map (source_section c states) ss)) @ rest) states pos
      (4 * (pos + length (concat (List.map (source_section c states) ss)))) =
    Inr (concat (List.map (\<lambda>(h, src). source_calls c states src) ss))"
  using assms
proof (induction ss arbitrary: pre pos)
  case (Cons s ss)
  obtain h src where s: "s = (h, src)" by fastforce
  let ?sec = "source_section c states (h, src)"
  let ?banks = "concat (List.map (bank_section c states) (used_banks src))"
  let ?tail = "concat (List.map (source_section c states) ss)"
  let ?mem = "words_bytes (pre @ ?sec @ ?tail) @ rest"
  let ?epos = "4 * (pos + length ?sec + length ?tail)"
  have src: "m_activeBanks src = of_nat (src_banks src)" "src_banks src < 4294967296"
    "\<forall>b \<in> set (used_banks src). length (snd b) < 2147483648"
    using Cons.prems(2) used_bank_small [of _ src] by (auto simp: s intro: order_le_less_trans)
  have "rd_fld ?mem pos = Inr h"
    using rd_mid [OF Cons.prems(1)] by (simp add: source_section_def)
  moreover have "rd_fld ?mem (pos + 3) = Inr (m_activeBanks src)"
    using rd_mid [of "pre @ [h, m_intraPulseTime src, m_tofField src]" "pos + 3"] Cons.prems(1)
    by (simp add: source_section_def)
  moreover have "stc_banks ?mem states (pos + 4) (src_banks src) =
      Inr (source_calls c states src, pos + length ?sec)"
    using stc_banks_written [of "pre @ [h, m_intraPulseTime src, m_tofField src, m_activeBanks src]" "pos + 4"
        "used_banks src" c states ?tail rest] Cons.prems(1) src(3)
    by (simp add: source_section_def source_calls_def length_used_banks)
  moreover have "stc_sources ?mem states (pos + length ?sec) ?epos =
      Inr (concat (List.map (\<lambda>(h, src). source_calls c states src) ss))"
    using Cons.IH [of "pre @ ?sec" "pos + length ?sec"] Cons.prems by (simp add: s)
  moreover have "4 * pos < ?epos"
    by (simp add: length_source_section)
  ultimately have "stc_sources ?mem states pos ?epos =
      Inr (source_calls c states src @ concat (List.map (\<lambda>(h, src). source_calls c states src) ss))"
    using src(2) by (subst stc_sources.simps) (simp add: src(1) unat_of_nat_u32)
  then show ?case by (simp add: s add.assoc)
qed (simp add: stc_sources.simps)

text \<open>The length in the header, which comes from the counts, is the length of what is written.\<close>

lemma size_from_counts:
  fixes a b n e :: nat and k :: u32
  assumes "4 * (8 + 4 * n + k' * b + 2 * e) < 4294967312" "k = of_nat k'"
  shows "unat ((8 + of_nat n * 4 + of_nat b * k) * 4 + of_nat e * 8 - 16 :: u32) =
    4 * (4 + 4 * n + k' * b + 2 * e)"
proof -
  have "(8 + of_nat n * 4 + of_nat b * k) * 4 + of_nat e * 8 - 16 =
      (of_nat (4 * (4 + 4 * n + k' * b + 2 * e)) :: u32)"
    by (simp add: assms(2) algebra_simps)
  moreover have "4 * (4 + 4 * n + k' * b + 2 * e) < 4294967296"
    using assms(1) by simp
  ultimately show ?thesis by (simp only: unat_of_nat_u32)
qed

lemma banked_words_length:
  "length (banked_bytes c states p) =
     4 * (8 + 4 * length (m_pulseSources p) +
       (if states then 3 else 2) * sum_list (List.map (\<lambda>x. src_banks (snd x)) (m_pulseSources p)) +
       2 * sum_list (List.map (\<lambda>x. src_events (snd x)) (m_pulseSources p)))"
  by (simp add: banked_bytes_def packet_head_def pulse_words_def length_source_sections algebra_simps)

lemma banked_payload:
  assumes "pulse_ok c p" "length (banked_bytes c states p) < 4294967312"
  shows "unat (banked_size states p) = length (banked_bytes c states p) - 16"
proof -
  let ?n = "length (m_pulseSources p)"
  let ?b = "sum_list (List.map (\<lambda>x. src_banks (snd x)) (m_pulseSources p))"
  let ?e = "sum_list (List.map (\<lambda>x. src_events (snd x)) (m_pulseSources p))"
  have "banked_size states p = (8 + of_nat ?n * 4 + of_nat ?b * of_nat (if states then 3 else 2)) * 4 + of_nat ?e * 8 - 16"
    using assms(1) by (simp add: banked_size_def pulse_ok_def)
  moreover have "4 * (8 + 4 * ?n + (if states then 3 else 2) * ?b + 2 * ?e) < 4294967312"
    using assms(2) by (simp add: banked_words_length)
  from size_from_counts [OF this refl]
  have "unat ((8 + of_nat ?n * 4 + of_nat ?b * of_nat (if states then 3 else 2)) * 4 + of_nat ?e * 8 - 16 :: u32) =
      4 * (4 + 4 * ?n + (if states then 3 else 2) * ?b + 2 * ?e)" .
  ultimately show ?thesis by (simp add: banked_words_length)
qed

lemma banked_header:
  "payload_len (header_at (banked_bytes c states p @ rest)) = banked_size states p"
  by (simp add: banked_bytes_def payload_len_header_at packet_head_def
      u32_at_words_append [of 0, simplified])

lemma banked_read_back:
  assumes p: "pulse_ok c p" and small: "length (banked_bytes c states p) < 4294967312"
  shows "stc_banked (banked_bytes c states p @ rest) states =
    Inr (concat (List.map (\<lambda>(h, src). source_calls c states src) (m_pulseSources p)))"
proof -
  let ?pre = "packet_head (banked_size states p)
      (if states then BANKED_EVENT_STATE_TYPE else BANKED_EVENT_TYPE) p @ pulse_words c p"
  let ?secs = "concat (List.map (source_section c states) (m_pulseSources p))"
  have pre: "length ?pre = 4 + 4" by (simp add: packet_head_def pulse_words_def)
  have len: "length (banked_bytes c states p) = 4 * (length ?pre + length ?secs)"
    by (simp add: banked_bytes_def)
  have "\<forall>(h, src) \<in> set (m_pulseSources p). m_activeBanks src = of_nat (src_banks src) \<and>
      src_banks src < 4294967296 \<and> src_events src < 2147483648"
  proof (clarify, intro conjI)
    fix h src assume mem: "(h, src) \<in> set (m_pulseSources p)"
    then show "m_activeBanks src = of_nat (src_banks src)"
      using p by (auto simp: pulse_ok_def src_ok_def)
    have "src_banks src \<le> sum_list (List.map (\<lambda>x. src_banks (snd x)) (m_pulseSources p))"
      "src_events src \<le> sum_list (List.map (\<lambda>x. src_events (snd x)) (m_pulseSources p))"
      using mem by (auto intro!: member_le_sum_list image_eqI [of _ _ "(h, src)"])
    then show "src_banks src < 4294967296" "src_events src < 2147483648"
      using small unfolding banked_words_length by (auto split: if_splits)
  qed
  note read = stc_sources_written [OF pre this, of c states rest]
  have "4 * (4 + length ?secs) = unat (banked_size states p)"
    using banked_payload [OF p small] len pre by simp
  moreover have "banked_bytes c states p = words_bytes (?pre @ ?secs)"
    by (simp only: banked_bytes_def append_assoc)
  ultimately show ?thesis
    unfolding stc_banked_def banked_header using read by (simp only:)
qed

section \<open>Monitors\<close>

lemma stc_words_written:
  "length pre = 4 + pos \<Longrightarrow> stc_words (words_bytes (pre @ ws @ post) @ rest) pos (length ws) = Inr ws"
proof (induction ws arbitrary: pre pos)
  case (Cons w ws)
  have "stc_words (words_bytes (pre @ (w # ws) @ post) @ rest) (pos + 1) (length ws) = Inr ws"
    using Cons.IH [of "pre @ [w]" "pos + 1"] Cons.prems by simp
  then show ?case using rd_mid [OF Cons.prems] by simp
qed simp

lemma monitor_word_fields:
  assumes "i \<le> 0xff" "n < 4194304"
  shows "(push_bit 22 i OR of_nat n :: u32) AND 0x003fffff = of_nat n"
    "ucast (drop_bit 22 (push_bit 22 i OR of_nat n :: u32)) = (ucast i :: u16)"
proof -
  have n: "\<not> bit (of_nat n :: u32) k" if "22 \<le> k" for k
    using bit_small [of "of_nat n :: u32" 22 k] assms(2) that by (auto simp: unat_of_nat_u32)
  have i: "\<not> bit i k" if "8 \<le> k" for k
    using bit_small [of i 8 k] assms(1) that by (auto simp: word_le_nat_alt)
  show "(push_bit 22 i OR of_nat n :: u32) AND 0x003fffff = of_nat n"
  proof -
    have "(push_bit 22 i OR of_nat n :: u32) AND 0x003fffff = take_bit 22 (push_bit 22 i OR of_nat n)"
      by (simp add: take_bit_eq_mask mask_eq_exp_minus_1)
    also have "\<dots> = of_nat n"
      by (rule bit_word_eqI) (use n in \<open>auto simp: bit_simps not_le\<close>)
    finally show ?thesis .
  qed
  show "ucast (drop_bit 22 (push_bit 22 i OR of_nat n :: u32)) = (ucast i :: u16)"
  proof (rule bit_word_eqI)
    fix k assume "k < LENGTH(16)"
    show "bit (ucast (drop_bit 22 (push_bit 22 i OR of_nat n :: u32)) :: u16) k \<longleftrightarrow> bit (ucast i :: u16) k"
      using n [of "22 + k"] i [of k] by (cases "k < 8") (auto simp: bit_simps)
  qed
qed

lemma stc_monitors_written:
  assumes "length pre = 4 + pos" and "\<forall>(i, m) \<in> set ms. i \<le> 0xff \<and> length (m_eventTof m) < 4194304"
  shows "stc_monitors (words_bytes (pre @ concat (List.map monitor_section ms)) @ rest) pos
      (4 * (pos + length (concat (List.map monitor_section ms)))) =
    Inr (List.map (\<lambda>(i, m). (ucast i, m_eventTof m)) ms)"
  using assms
proof (induction ms arbitrary: pre pos)
  case (Cons x ms)
  obtain i m where x: "x = (i, m)" by fastforce
  let ?sec = "monitor_section (i, m)" and ?tail = "concat (List.map monitor_section ms)"
  let ?w = "push_bit 22 i OR of_nat (length (m_eventTof m)) :: u32"
  let ?mem = "words_bytes (pre @ ?sec @ ?tail) @ rest"
  let ?epos = "4 * (pos + length ?sec + length ?tail)"
  have im: "i \<le> 0xff" "length (m_eventTof m) < 4194304" using Cons.prems(2) by (auto simp: x)
  have n: "unat (?w AND 0x003fffff) = length (m_eventTof m)"
    using im by (simp only: monitor_word_fields(1) unat_of_nat_u32)
  have w: "rd_fld ?mem pos = Inr ?w"
    using rd_mid [OF Cons.prems(1)] by (simp add: monitor_section_def)
  have ws: "stc_words ?mem (pos + 3) (length (m_eventTof m)) = Inr (m_eventTof m)"
    using stc_words_written [of "pre @ [?w, mon_sourceId m, mon_tofField m]" "pos + 3"] Cons.prems(1)
    by (simp add: monitor_section_def)
  have len: "length ?sec = 3 + length (m_eventTof m)" by (simp add: monitor_section_def)
  have "stc_monitors ?mem (pos + length ?sec) ?epos = Inr (List.map (\<lambda>(i, m). (ucast i, m_eventTof m)) ms)"
    using Cons.IH [of "pre @ ?sec" "pos + length ?sec"] Cons.prems by (simp add: x)
  then have later: "stc_monitors ?mem (pos + 3 + length (m_eventTof m)) ?epos =
      Inr (List.map (\<lambda>(i, m). (ucast i, m_eventTof m)) ms)"
    by (simp only: len add.assoc)
  have "4 * pos < ?epos" by (simp add: len)
  then have "stc_monitors ?mem pos ?epos =
      Inr ((ucast (drop_bit 22 ?w), m_eventTof m) # List.map (\<lambda>(i, m). (ucast i, m_eventTof m)) ms)"
    by (subst stc_monitors.simps) (simp only: if_True w ws n later sbind_simps Let_def)
  then show ?case unfolding monitor_word_fields(2) [OF im] by (simp add: x add.assoc)
qed (simp add: stc_monitors.simps)

lemma monitor_sections_length:
  "length (concat (List.map monitor_section ms)) =
     3 * length ms + sum_list (List.map (\<lambda>x. length (m_eventTof (snd x))) ms)"
  by (induction ms) (auto simp: monitor_section_def)

lemma monitor_payload:
  assumes p: "pulse_ok c p"
  shows "payload_len (header_at (buildMonitorPacket c p @ rest)) = of_nat (length (buildMonitorPacket c p) - 16)"
    "length (buildMonitorPacket c p) = 32 + 4 * length (concat (List.map monitor_section (m_monitors p)))"
proof -
  let ?secs = "concat (List.map monitor_section (m_monitors p))"
  let ?size = "(8 + of_nat (length (m_monitors p)) * 3 + m_numMonEvents p) * 4 - 16 :: u32"
  show len: "length (buildMonitorPacket c p) = 32 + 4 * length ?secs"
    by (simp add: buildMonitorPacket_def packet_head_def pulse_words_def Let_def)
  have "?size = of_nat (16 + 4 * length ?secs)"
    using p by (simp add: pulse_ok_def monitor_sections_length algebra_simps)
  moreover have "payload_len (header_at (buildMonitorPacket c p @ rest)) = ?size"
    unfolding payload_len_header_at buildMonitorPacket_def Let_def
    by (simp add: packet_head_def u32_at_words_append [of 0, simplified])
  ultimately show "payload_len (header_at (buildMonitorPacket c p @ rest)) =
      of_nat (length (buildMonitorPacket c p) - 16)"
    unfolding len by simp
qed

lemma monitor_read_back:
  assumes p: "pulse_ok c p" and small: "length (buildMonitorPacket c p) < 4294967312"
    and events: "\<forall>(i, m) \<in> set (m_monitors p). length (m_eventTof m) < 4194304"
  shows "stc_beam_monitors (buildMonitorPacket c p @ rest) =
      Inr (List.map (\<lambda>(i, m). (ucast i, m_eventTof m)) (m_monitors p))"
proof -
  let ?secs = "concat (List.map monitor_section (m_monitors p))"
  let ?pre = "packet_head ((8 + of_nat (length (m_monitors p)) * 3 + m_numMonEvents p) * 4 - 16)
    BEAM_MONITOR_EVENT_TYPE p @ pulse_words c p"
  have pre: "length ?pre = 4 + 4" by (simp add: packet_head_def pulse_words_def)
  have "unat (payload_len (header_at (buildMonitorPacket c p @ rest))) = 4 * (4 + length ?secs)"
    unfolding monitor_payload(1) [OF p] using small
    by (subst unat_of_nat_u32) (simp_all add: monitor_payload(2) [OF p])
  moreover have "\<forall>(i, m) \<in> set (m_monitors p). i \<le> 0xff \<and> length (m_eventTof m) < 4194304"
    using p events by (auto simp: pulse_ok_def)
  from stc_monitors_written [OF pre this, of rest]
  have "stc_monitors (buildMonitorPacket c p @ rest) 4 (4 * (4 + length ?secs)) =
      Inr (List.map (\<lambda>(i, m). (ucast i, m_eventTof m)) (m_monitors p))"
    by (simp add: buildMonitorPacket_def)
  ultimately show ?thesis by (simp only: stc_beam_monitors_def)
qed

section \<open>Properties\<close>

text \<open>The calls a source becomes, by the indices of its banks.\<close>

definition bank_calls :: "sms_config \<Rightarrow> bool \<Rightarrow> event_source \<Rightarrow> bank_call list" where
  "bank_calls c states src =
     List.map (\<lambda>i. (bank_label c i, if states then state_label c i else 0, bank_at src i))
       (List.filter (\<lambda>i. bank_at src i \<noteq> []) [0 ..< length (m_banks_arr src)])"

lemma source_calls_bank_at: "source_calls c states src = bank_calls c states src"
proof -
  have "used_banks src = List.map (\<lambda>i. (i, bank_at src i))
      (List.filter (\<lambda>i. bank_at src i \<noteq> []) [0 ..< length (m_banks_arr src)])"
  proof -
    have "List.enumerate 0 (m_banks_arr src) = List.map (\<lambda>i. (i, bank_at src i)) [0 ..< length (m_banks_arr src)]"
      by (rule nth_equalityI) (simp_all add: nth_enumerate_eq bank_at_def)
    then show ?thesis by (simp add: used_banks_def filter_map comp_def)
  qed
  then show ?thesis by (simp add: source_calls_def bank_calls_def bank_call_of_def comp_def)
qed

text \<open>
  C20. The banked event packets of a pulse, with and without states, carry the length they have and
  are walked by the translation service without leaving the packet: it sees, source by source, every
  bank that has events with its number, its state and its events in order, and nothing else.
\<close>

theorem banked_packet_round_trip:
  assumes "pulse_ok c p"
    and "b = fst (if states then buildBankedStatePacket c (p, co) else buildBankedPacket c (p, co))"
    and "length b < 4294967312"
  shows "unat (payload_len (header_at (b @ rest))) = length b - 16 \<and>
    stc_banked (b @ rest) states =
      Inr (concat (List.map (\<lambda>(h, src). bank_calls c states src) (m_pulseSources p)))"
proof -
  have "b = banked_bytes c states p"
    using assms(2) by (auto simp: buildBankedPacket_def buildBankedStatePacket_def)
  then show ?thesis
    using assms(1,3) banked_payload [of c p states] banked_read_back [of c p states rest]
    by (simp add: banked_header source_calls_bank_at)
qed

text \<open>
  The beam monitor packet of a pulse carries the length it has and is walked into the events of
  every monitor, as long as no monitor has more events than the 22 bits of its count hold.
\<close>

theorem monitor_packet_round_trip:
  assumes "pulse_ok c p" and "length (buildMonitorPacket c p) < 4294967312"
    and "\<forall>(i, m) \<in> set (m_monitors p). length (m_eventTof m) < 4194304"
  shows "payload_len (header_at (buildMonitorPacket c p @ rest)) =
      of_nat (length (buildMonitorPacket c p) - 16) \<and>
    stc_beam_monitors (buildMonitorPacket c p @ rest) =
      Inr (List.map (\<lambda>(i, m). (ucast i, m_eventTof m)) (m_monitors p))"
  using monitor_payload(1) [OF assms(1)] monitor_read_back [OF assms] by blast

definition sample_source :: event_source where
  "sample_source =
     \<lparr>m_intraPulseTime = 5, m_tofField = 0, m_activeBanks = 2,
      m_banks_arr = [[], [], [], [\<lparr>tof = 100, pixel = 11\<rparr>, \<lparr>tof = 90, pixel = 12\<rparr>], [],
        [\<lparr>tof = 100, pixel = 32\<rparr>], []],
      m_numStates = 1\<rparr>"

definition sample_pulse :: pulse where
  "sample_pulse =
     (new_pulse (5, 0) 1)\<lparr>m_pulseSources := [(17, sample_source)], m_numEvents := 3, m_numBanks := 2,
        m_monitors := [(2, \<lparr>mon_sourceId = 17, mon_tofField = 0, m_eventTof = [0x800000c8, 7]\<rparr>)],
        m_numMonEvents := 2\<rparr>"

lemma sample_maxBank: "c_maxBank sample_config = 6"
  by (simp add: sample_config_def new_PixelMap_def largest_bank_def sample_map_def UNMAPPED_BANK_def)

lemma sample_pulse_ok: "pulse_ok sample_config sample_pulse"
  by (simp add: pulse_ok_def sample_pulse_def new_pulse_def src_ok_def src_banks_def src_events_def
      sample_source_def sample_maxBank)

theorem banked_packet_round_trip_witness:
  "stc_banked (fst (buildBankedPacket sample_config (sample_pulse, sample_collect))) False =
    Inr [(1, 0, [\<lparr>tof = 100, pixel = 11\<rparr>, \<lparr>tof = 90, pixel = 12\<rparr>]), (3, 0, [\<lparr>tof = 100, pixel = 32\<rparr>])]"
proof -
  have "length (fst (buildBankedPacket sample_config (sample_pulse, sample_collect))) < 4294967312"
    by (simp add: buildBankedPacket_def banked_words_length sample_pulse_def new_pulse_def src_banks_def
        src_events_def sample_source_def)
  from banked_packet_round_trip [OF sample_pulse_ok _ this, of False sample_collect "[]"]
  have "stc_banked (fst (buildBankedPacket sample_config (sample_pulse, sample_collect))) False =
      Inr (bank_calls sample_config False sample_source)"
    by (simp add: sample_pulse_def)
  moreover have "[0 ..< length (m_banks_arr sample_source)] = [0, 1, 2, 3, 4, 5, 6]"
    by code_simp
  ultimately show ?thesis
    by (simp add: bank_calls_def sample_source_def bank_at_def bank_label_def sample_maxBank)
qed

theorem monitor_packet_round_trip_witness:
  "stc_beam_monitors (buildMonitorPacket sample_config sample_pulse) = Inr [(2, [0x800000c8, 7])]"
proof -
  have "length (buildMonitorPacket sample_config sample_pulse) < 4294967312"
    by (simp add: buildMonitorPacket_def packet_head_def pulse_words_def sample_pulse_def monitor_section_def)
  from monitor_packet_round_trip [OF sample_pulse_ok this, of "[]"]
  show ?thesis by (simp add: sample_pulse_def)
qed

end
