(* ===== verification/Pulse_Stream.thy ===== *)
theory Pulse_Stream
  imports Pulse_Packets Stream_Session
begin

text \<open>
  What a recorded pulse puts into the output stream is a sequence of whole packets: every packet
  has the length its header says, so the parser of any reader splits the stream at the places where
  the service started its packets.
\<close>

definition framed :: "bytes \<Rightarrow> bool" where
  "framed b \<longleftrightarrow> 16 \<le> length b \<and> length b < 4294967296 \<and> length b mod 4 = 0 \<and>
     unat (payload_len (header_at b)) + 16 = length b"

lemma framed_frame_len:
  assumes "framed b" shows "frame_len (b @ rest) = length b"
proof -
  have "unat (packet_length (header_at b)) = unat (payload_len (header_at b)) + 16"
    using assms by (simp add: framed_def packet_length_def header_length_def unat_word_ariths)
  then show ?thesis
    using assms by (simp add: frame_len_def header_at_append framed_def)
qed

lemma framed_stream:
  assumes "\<forall>b \<in> set bs. framed b"
  shows "well_framed (concat bs)" "cut mx (concat bs) = (bs, 0, [])"
proof -
  have "well_framed (concat bs) \<and> cut mx (concat bs) = (bs, 0, [])"
    using assms
  proof (induction bs)
    case Nil
    then show ?case by (subst well_framed.simps, subst cut.simps) (simp add: header_length_def)
  next
    case (Cons b bs)
    then have b: "framed b" and IH: "well_framed (concat bs)" "cut mx (concat bs) = (bs, 0, [])" by auto
    have len: "frame_len (b @ concat bs) = length b" "16 \<le> length b"
      using b by (simp_all add: framed_frame_len) (simp add: framed_def)
    have "unat (payload_len (header_at (b @ concat bs))) mod 4 = 0"
    proof -
      have "(unat (payload_len (header_at b)) + 16) mod 4 = 0" using b by (simp add: framed_def)
      then have "unat (payload_len (header_at b)) mod 4 = 0" by presburger
      then show ?thesis using len(2) by (simp add: header_at_append)
    qed
    then show ?case
      using IH len by (subst well_framed.simps, subst cut.simps) (auto simp: header_length_def)
  qed
  then show "well_framed (concat bs)" "cut mx (concat bs) = (bs, 0, [])" by simp_all
qed

text \<open>The bytes a call puts into the stream.\<close>

fun call_bytes :: "sms_call \<Rightarrow> bytes list" where
  "call_bytes (Add_Packet b n) = [b]"
| "call_bytes (Update_Mapped d v b) = [b]"
| "call_bytes c = []"

definition pulse_output :: "sms_config \<Rightarrow> pulse \<times> collect \<Rightarrow> bytes list" where
  "pulse_output c pc =
     concat (List.map call_bytes (drop (length (co_calls (snd pc))) (co_calls (snd (recordPulse c pc)))))"

lemma framed_words:
  assumes "4 \<le> length ws" "4 * length ws < 4294967296" "unat (ws ! 0) + 16 = 4 * length ws"
  shows "framed (words_bytes ws)"
  using assms u32_at_words [of 0 ws] by (cases ws) (auto simp: framed_def payload_len_header_at)

lemma framed_chopper: "framed (words_bytes (chopper_words pid cid val t))"
  by (rule framed_words) (simp_all add: chopper_words_def Let_def split: prod.split)

lemma framed_update: "framed (words_bytes (update_words pid e v))"
  by (rule framed_words) (simp_all add: update_words_def split: prod.split)

lemma length_mult_update: "length (mult_update_words pid es v) = 8 + 2 * length es"
proof -
  have "length (concat (List.map (\<lambda>e. [f e, g e]) es)) = 2 * length es" for f g :: "event \<Rightarrow> u32"
    by (induction es) simp_all
  then show ?thesis by (simp add: mult_update_words_def)
qed

lemma framed_mult_update:
  assumes "length (words_bytes (mult_update_words pid es v)) < 4294967296"
  shows "framed (words_bytes (mult_update_words pid es v))"
proof (rule framed_words)
  have len: "4 * (8 + 2 * length es) < 4294967296"
    using assms by (simp add: length_mult_update)
  have "(4 + of_nat (length es) * 2) * 4 = (of_nat (16 + 8 * length es) :: u32)"
    by simp
  then have "unat (mult_update_words pid es v ! 0) = unat (of_nat (16 + 8 * length es) :: u32)"
    unfolding mult_update_words_def by (simp only: append_Cons nth_Cons_0)
  also have "\<dots> = 16 + 8 * length es"
    using len by (intro unat_of_nat_u32) simp
  finally have "unat (mult_update_words pid es v ! 0) = 16 + 8 * length es" .
  then show "unat (mult_update_words pid es v ! 0) + 16 = 4 * length (mult_update_words pid es v)"
    by (simp add: length_mult_update)
qed (use assms in \<open>simp_all add: length_mult_update\<close>)

lemma framed_banked:
  "pulse_ok c p \<Longrightarrow> length (banked_bytes c states p) < 4294967296 \<Longrightarrow> framed (banked_bytes c states p)"
  using banked_payload [of c p states] banked_header [of c states p "[]"] banked_words_length [of c states p]
  by (simp add: framed_def)

lemma framed_monitor:
  assumes "pulse_ok c p" "length (buildMonitorPacket c p) < 4294967296"
  shows "framed (buildMonitorPacket c p)"
proof -
  have "unat (payload_len (header_at (buildMonitorPacket c p))) = length (buildMonitorPacket c p) - 16"
    using monitor_payload(1) [OF assms(1), of "[]"] assms(2) unat_of_nat_u32 [of "length (buildMonitorPacket c p) - 16"]
    by simp
  then show ?thesis using monitor_payload(2) [OF assms(1)] assms(2) by (simp add: framed_def)
qed

lemma mark_recorded_flag: "\<exists>f. mark_recorded c p = set_flag f p"
proof -
  have "set_flag g (set_flag f p) = set_flag (f OR g) p" for f g
    by (simp add: set_flag_def ac_simps)
  moreover have "set_flag 0 p = p" by (simp add: set_flag_def)
  ultimately show ?thesis
    unfolding mark_recorded_def Let_def by (metis (full_types))
qed

lemma framed_choppers: "\<forall>b \<in> set (buildChopperPackets c p). framed b"
proof -
  have "\<forall>b \<in> set (chopper_packets c pid x). framed b" for pid x
    by (cases x; cases "snd x") (auto simp: framed_chopper split: option.splits)
  then show ?thesis by (auto simp: buildChopperPackets_def)
qed

text \<open>Fast meta-data calls carry one packet each.\<close>

definition good_call :: "sms_call \<Rightarrow> bool" where
  "good_call x \<longleftrightarrow> (\<exists>b. call_bytes x = [b] \<and> (length b < 4294967296 \<longrightarrow> framed b))"

lemma good_update:
  "(length b < 4294967296 \<Longrightarrow> framed b) \<Longrightarrow> good_call (update_call v b)"
  by (auto simp: good_call_def update_call_def)

lemma good_send_each: "send_each pid es fm = (fm', cs) \<Longrightarrow> \<forall>x \<in> set cs. good_call x"
proof (induction pid es fm arbitrary: fm' cs rule: send_each.induct)
  case (2 pid e es fm)
  then show ?case
    by (fastforce simp: sendUpdate_def good_update framed_update split: prod.splits)
qed simp

lemma good_mult: "sendMultUpdate pid es fm = (fm', cs) \<Longrightarrow> \<forall>x \<in> set cs. good_call x"
  by (auto simp: sendMultUpdate_def split: list.splits prod.splits
      intro!: good_update framed_mult_update)

lemma good_fast_meta: "buildFastMetaPackets pid m fm = (fm', cs) \<Longrightarrow> \<forall>x \<in> set cs. good_call x"
proof (induction pid m fm arbitrary: fm' cs rule: buildFastMetaPackets.induct)
  case (2 pid k es m fm)
  then show ?case
    using good_send_each [of pid es fm] good_mult [of pid es fm]
    by (fastforce split: prod.splits if_splits)
qed simp

lemma good_calls_framed:
  assumes "\<forall>x \<in> set cs. good_call x" "b \<in> set (concat (List.map call_bytes cs))" "length b < 4294967296"
  shows "framed b"
  using assms by (auto simp: good_call_def)

lemma framed_output:
  assumes p: "pulse_ok c p" and rtdl: "\<And>r. m_rtdl p = Some r \<Longrightarrow> framed r"
    and b: "b \<in> set (pulse_output c (p, co))" and len: "length b < 4294967296"
  shows "framed b"
proof -
  let ?p1 = "mark_recorded c p"
  obtain f where "?p1 = set_flag f p" using mark_recorded_flag by blast
  then have p1: "pulse_ok c ?p1" using p by simp
  let ?fm = "buildFastMetaPackets (fst (m_id ?p1)) (m_fastMetaEvents ?p1)"
  obtain banked co1 where banked: "(if has_flag HAS_STATES ?p1 then buildBankedStatePacket c (?p1, co)
      else buildBankedPacket c (?p1, co)) = (banked, co1)" by fastforce
  obtain fm fast where fast: "?fm (co_fast co1) = (fm, fast)" by fastforce
  have bb: "\<exists>states. banked = banked_bytes c states ?p1" and co1: "co_calls co1 = co_calls co"
    using banked by (auto simp: buildBankedPacket_def buildBankedStatePacket_def Let_def split: if_splits)
  let ?rtdl = "case m_rtdl p of None \<Rightarrow> [] | Some r \<Rightarrow> [r]"
  have out: "pulse_output c (p, co) = ?rtdl @ [buildMonitorPacket c ?p1] @ [banked] @
      buildChopperPackets c ?p1 @ concat (List.map call_bytes fast)"
    by (simp add: pulse_output_def recordPulse_def Let_def banked fast co1 comp_def concat_map_singleton
        split: option.split)
  from b consider "m_rtdl p = Some b" | "b = buildMonitorPacket c ?p1" | "b = banked"
      | "b \<in> set (buildChopperPackets c ?p1)" | "b \<in> set (concat (List.map call_bytes fast))"
      unfolding out by (auto split: option.splits)
  then show ?thesis
      using len rtdl framed_monitor [OF p1] framed_banked [OF p1] bb framed_choppers
        good_calls_framed [OF good_fast_meta [OF fast]] by cases auto
qed

text \<open>
  C21. Recording a pulse puts whole packets into the stream. From a pulse as the sorting leaves it,
  with an RTDL packet that is a whole packet if there is one, the packets of \<open>recordPulse\<close> (RTDL,
  beam monitors, banked events with or without states, choppers, fast meta-data) follow each other
  so that a reader's parser splits the stream into exactly these packets.
\<close>

theorem recorded_pulse_framed:
  assumes p: "pulse_ok c p" and rtdl: "\<And>r. m_rtdl p = Some r \<Longrightarrow> framed r"
    and small: "\<forall>b \<in> set (pulse_output c (p, co)). length b < 4294967296"
  shows "well_framed (concat (pulse_output c (p, co))) \<and>
    cut mx (concat (pulse_output c (p, co))) = (pulse_output c (p, co), 0, [])"
proof -
  have "\<forall>b \<in> set (pulse_output c (p, co)). framed b"
    using framed_output [OF p] rtdl small by blast
  then show ?thesis using framed_stream by blast
qed

theorem recorded_pulse_framed_witness:
  "cut 4096 (concat (pulse_output sample_config (sample_pulse, sample_collect))) =
    (pulse_output sample_config (sample_pulse, sample_collect), 0, [])"
proof -
  let ?p = "sample_pulse\<lparr>m_flags := MISSING_RTDL\<rparr>"
  have mark: "mark_recorded sample_config sample_pulse = ?p"
    by (simp add: mark_recorded_def Let_def sample_pulse_def new_pulse_def set_flag_def is_veto_def MISSING_RTDL_def)
  have "pulse_output sample_config (sample_pulse, sample_collect) =
      [buildMonitorPacket sample_config ?p, banked_bytes sample_config False ?p]"
    unfolding pulse_output_def recordPulse_def Let_def prod.case mark
    by (simp add: sample_pulse_def new_pulse_def has_flag_def HAS_STATES_def MISSING_RTDL_def
        buildBankedPacket_def buildChopperPackets_def sample_collect_def)
  moreover have "length (banked_bytes sample_config False ?p) < 4294967296"
    by (simp add: banked_words_length sample_pulse_def src_banks_def src_events_def sample_source_def)
  moreover have "length (buildMonitorPacket sample_config ?p) < 4294967296"
    by (simp add: buildMonitorPacket_def packet_head_def pulse_words_def Let_def sample_pulse_def
        monitor_section_def)
  ultimately have "\<forall>b \<in> set (pulse_output sample_config (sample_pulse, sample_collect)). length b < 4294967296"
    by simp
  from recorded_pulse_framed [OF sample_pulse_ok _ this, of 4096]
  show ?thesis by (simp add: sample_pulse_def new_pulse_def)
qed

end
