(* ===== verification/Event_Index.thy ===== *)
theory Event_Index
  imports Config_Packets Data_Packets
begin

text \<open>
  How the translation service (\<open>stc/StreamParser.cpp\<close>) buffers the events of a detector bank or of
  a beam monitor and builds the event index of the NeXus file: entry \<open>k\<close> of the index is the number
  of events before pulse \<open>k\<close>. A bank without events in a pulse is not called for it; the gap is
  filled when its next events come, or at the end of the run.
\<close>

section \<open>State\<close>

text \<open>
  The vector of values with the number of its elements in use, the index entries that are not yet
  written, the running count, the last pulse with data, and what the writer was given so far. A
  value is what is stored for an event: time and pixel for a bank, time for a monitor.
\<close>

record 'a indexed =
  m_buffer :: "'a list"
  m_buffer_size :: nat
  m_index_buffer :: "u64 list"
  m_event_count :: u64
  m_last_pulse_with_data :: u64
  written_values :: "'a list"
  written_index :: "u64 list"

definition new_indexed :: "'a indexed" where
  "new_indexed =
     \<lparr>m_buffer = [], m_buffer_size = 0, m_index_buffer = [], m_event_count = 0,
      m_last_pulse_with_data = 0, written_values = [], written_index = []\<rparr>"

record thresholds =
  event_thresh :: nat
  anc_thresh :: nat

section \<open>Operations\<close>

text \<open>\<open>handleBankPulseGap\<close>, \<open>handleMonitorPulseGap\<close>; \<open>ready\<close> is \<open>isWorkingDirectoryReady()\<close>.\<close>

definition handlePulseGap :: "thresholds \<Rightarrow> bool \<Rightarrow> u64 \<Rightarrow> 'a indexed \<Rightarrow> 'a indexed" where
  "handlePulseGap T ready cnt b =
     (let gap = replicate (unat cnt) (m_event_count b) in
      if length (m_index_buffer b) + unat cnt < anc_thresh T \<or> \<not> ready
      then b\<lparr>m_index_buffer := m_index_buffer b @ gap\<rparr>
      else b\<lparr>written_index := written_index b @ m_index_buffer b @ gap, m_index_buffer := []\<rparr>)"

text \<open>The resize of the vector: ten times what is needed at first, then twice, up to the threshold.\<close>

definition grow_buffer :: "thresholds \<Rightarrow> bool \<Rightarrow> 'a \<Rightarrow> nat \<Rightarrow> 'a indexed \<Rightarrow> 'a indexed" where
  "grow_buffer T ready blank n b =
     (let need = m_buffer_size b + n; sz = length (m_buffer b) in
      if need > sz
      then let resz0 = (if sz = 0 then 10 * need else 2 * need);
               resz = (if ready \<and> resz0 > event_thresh T
                       then if need > event_thresh T then need else event_thresh T else resz0) in
           b\<lparr>m_buffer := take resz (m_buffer b) @ replicate (resz - sz) blank\<rparr>
      else b)"

text \<open>The copy loop; \<open>None\<close> is a write outside the vector.\<close>

definition store_values :: "'a list \<Rightarrow> 'a indexed \<Rightarrow> 'a indexed option" where
  "store_values vs b =
     (let used = m_buffer_size b in
      if used + length vs \<le> length (m_buffer b)
      then Some (b\<lparr>m_buffer := take used (m_buffer b) @ vs @ drop (used + length vs) (m_buffer b),
                   m_buffer_size := used + length vs\<rparr>)
      else None)"

definition flush_values :: "'a indexed \<Rightarrow> 'a indexed" where
  "flush_values b =
     b\<lparr>written_values := written_values b @ take (m_buffer_size b) (m_buffer b), m_buffer_size := 0\<rparr>"

definition flush_index :: "'a indexed \<Rightarrow> 'a indexed" where
  "flush_index b = b\<lparr>written_index := written_index b @ m_index_buffer b, m_index_buffer := []\<rparr>"

text \<open>The events of one call, in pulse number \<open>pulse\<close>.\<close>

definition add_events ::
    "thresholds \<Rightarrow> 'a \<Rightarrow> bool \<Rightarrow> u64 \<Rightarrow> 'a list \<Rightarrow> 'a indexed \<Rightarrow> 'a indexed option" where
  "add_events T blank ready pulse vs b =
     (let b1 = (if m_last_pulse_with_data b < pulse - 1
                then handlePulseGap T ready (pulse - 1 - m_last_pulse_with_data b) b else b) in
      map_option (\<lambda>b2.
        let b3 = b2\<lparr>m_index_buffer := m_index_buffer b2 @ [m_event_count b2],
                    m_event_count := m_event_count b2 + of_nat (length vs),
                    m_last_pulse_with_data := pulse\<rparr>;
            b4 = (if m_buffer_size b3 \<ge> event_thresh T \<and> ready then flush_values b3 else b3) in
        if length (m_index_buffer b4) \<ge> anc_thresh T \<and> ready then flush_index b4 else b4)
      (store_values vs (grow_buffer T ready blank (length vs) b1)))"

text \<open>The end of the run (\<open>finalizeStreamProcessing\<close>), when there is a file for sure.\<close>

definition finish_events :: "thresholds \<Rightarrow> u64 \<Rightarrow> 'a indexed \<Rightarrow> 'a indexed" where
  "finish_events T pulse b =
     flush_index (flush_values
       (if m_last_pulse_with_data b < pulse
        then handlePulseGap T True (pulse - m_last_pulse_with_data b) b else b))"

section \<open>The index as it should be\<close>

text \<open>A history: pulse numbers with the values of the call in that pulse.\<close>

type_synonym 'a history = "(nat \<times> 'a list) list"

definition events_upto :: "'a history \<Rightarrow> nat \<Rightarrow> nat" where
  "events_upto h k = sum_list (List.map (\<lambda>x. length (snd x)) (List.filter (\<lambda>x. fst x \<le> k) h))"

definition index_upto :: "'a history \<Rightarrow> nat \<Rightarrow> u64 list" where
  "index_upto h n = List.map (\<lambda>k. of_nat (events_upto h k)) [0 ..< n]"

definition last_pulse :: "'a history \<Rightarrow> nat" where
  "last_pulse h = (if h = [] then 0 else fst (last h))"

definition all_values :: "'a history \<Rightarrow> 'a list" where
  "all_values h = concat (List.map snd h)"

text \<open>What was written and what still waits.\<close>

definition all_index :: "'a indexed \<Rightarrow> u64 list" where
  "all_index b = written_index b @ m_index_buffer b"

definition all_stored :: "'a indexed \<Rightarrow> 'a list" where
  "all_stored b = written_values b @ take (m_buffer_size b) (m_buffer b)"

definition indexed_ok :: "'a history \<Rightarrow> 'a indexed \<Rightarrow> bool" where
  "indexed_ok h b \<longleftrightarrow>
     m_buffer_size b \<le> length (m_buffer b) \<and> all_stored b = all_values h \<and>
     m_event_count b = of_nat (length (all_values h)) \<and>
     unat (m_last_pulse_with_data b) = last_pulse h \<and> all_index b = index_upto h (last_pulse h)"

lemma indexed_ok_new: "indexed_ok [] new_indexed"
  by (simp add: indexed_ok_def new_indexed_def all_values_def last_pulse_def index_upto_def
      all_index_def all_stored_def)

lemma events_upto_all: "\<forall>x \<in> set h. fst x \<le> k \<Longrightarrow> events_upto h k = length (all_values h)"
  by (induction h) (auto simp: events_upto_def all_values_def)

lemma last_pulse_max: "sorted_wrt (<) (List.map fst h) \<Longrightarrow> x \<in> set h \<Longrightarrow> fst x \<le> last_pulse h"
proof (induction h rule: rev_induct)
  case (snoc y h)
  then show ?case by (auto simp: last_pulse_def sorted_wrt_append intro: less_imp_le)
qed simp

lemma events_upto_gap:
  "sorted_wrt (<) (List.map fst h) \<Longrightarrow> last_pulse h \<le> k \<Longrightarrow> events_upto h k = length (all_values h)"
  using last_pulse_max [of h] by (intro events_upto_all) (auto intro: order_trans)

lemma index_upto_extend:
  assumes "sorted_wrt (<) (List.map fst h)" "last_pulse h \<le> n"
  shows "index_upto h n = index_upto h (last_pulse h) @
    replicate (n - last_pulse h) (of_nat (length (all_values h)))"
proof -
  have "[0 ..< n] = [0 ..< last_pulse h] @ [last_pulse h ..< n]"
    using assms(2) upt_add_eq_append [of 0 "last_pulse h" "n - last_pulse h"] by simp
  moreover have "List.map (\<lambda>k. of_nat (events_upto h k) :: u64) [last_pulse h ..< n] =
      replicate (n - last_pulse h) (of_nat (length (all_values h)))"
    using events_upto_gap [OF assms(1)] by (intro nth_equalityI) simp_all
  ultimately show ?thesis by (simp add: index_upto_def)
qed

section \<open>Steps\<close>

lemma handlePulseGap_spec [simp]:
  "all_index (handlePulseGap T ready cnt b) = all_index b @ replicate (unat cnt) (m_event_count b)"
  "all_stored (handlePulseGap T ready cnt b) = all_stored b"
  "m_event_count (handlePulseGap T ready cnt b) = m_event_count b"
  "m_last_pulse_with_data (handlePulseGap T ready cnt b) = m_last_pulse_with_data b"
  "m_buffer_size (handlePulseGap T ready cnt b) = m_buffer_size b"
  "m_buffer (handlePulseGap T ready cnt b) = m_buffer b"
  "written_values (handlePulseGap T ready cnt b) = written_values b"
  by (auto simp: handlePulseGap_def Let_def all_index_def all_stored_def)

lemma flush_spec [simp]:
  "all_index (flush_values b) = all_index b" "all_stored (flush_values b) = all_stored b"
  "all_index (flush_index b) = all_index b" "all_stored (flush_index b) = all_stored b"
  "m_event_count (flush_values b) = m_event_count b" "m_event_count (flush_index b) = m_event_count b"
  "m_last_pulse_with_data (flush_values b) = m_last_pulse_with_data b"
  "m_last_pulse_with_data (flush_index b) = m_last_pulse_with_data b"
  "m_buffer_size (flush_values b) = 0" "m_buffer_size (flush_index b) = m_buffer_size b"
  "m_buffer (flush_values b) = m_buffer b" "m_buffer (flush_index b) = m_buffer b"
  by (auto simp: flush_values_def flush_index_def all_index_def all_stored_def)

lemma grow_buffer_spec:
  assumes "m_buffer_size b \<le> length (m_buffer b)"
  shows "all_index (grow_buffer T ready blank n b) = all_index b"
    "all_stored (grow_buffer T ready blank n b) = all_stored b"
    "m_event_count (grow_buffer T ready blank n b) = m_event_count b"
    "m_last_pulse_with_data (grow_buffer T ready blank n b) = m_last_pulse_with_data b"
    "m_buffer_size (grow_buffer T ready blank n b) + n \<le> length (m_buffer (grow_buffer T ready blank n b))"
  using assms by (auto simp: grow_buffer_def Let_def all_index_def all_stored_def)

lemma store_values_spec:
  assumes "m_buffer_size b + length vs \<le> length (m_buffer b)"
  obtains b' where "store_values vs b = Some b'" "m_buffer_size b' \<le> length (m_buffer b')"
    "all_stored b' = all_stored b @ vs" "all_index b' = all_index b" "m_event_count b' = m_event_count b"
    "m_last_pulse_with_data b' = m_last_pulse_with_data b"
  using assms by (auto simp: store_values_def Let_def all_stored_def all_index_def)

text \<open>The gap before a call brings the index up to the pulse of the call.\<close>

lemma gap_index:
  assumes ok: "indexed_ok h b" and srt: "sorted_wrt (<) (List.map fst h)" and n: "last_pulse h \<le> unat n"
  shows "all_index (if m_last_pulse_with_data b < n
      then handlePulseGap T ready (n - m_last_pulse_with_data b) b else b) = index_upto h (unat n)"
proof (cases "m_last_pulse_with_data b < n")
  case True
  have lp: "unat (m_last_pulse_with_data b) = last_pulse h" and idx: "all_index b = index_upto h (last_pulse h)"
    and cnt: "m_event_count b = of_nat (length (all_values h))" using ok by (simp_all add: indexed_ok_def)
  have "unat (n - m_last_pulse_with_data b) = unat n - last_pulse h"
    using n lp by (simp add: unat_sub word_le_nat_alt)
  then show ?thesis using True index_upto_extend [OF srt n] by (simp add: idx cnt)
next
  case False
  then have "unat n = last_pulse h"
    using ok n by (simp add: indexed_ok_def word_less_nat_alt)
  then show ?thesis using False ok by (simp add: indexed_ok_def)
qed

lemma add_events_effect:
  assumes "m_buffer_size b \<le> length (m_buffer b)"
  obtains b' where "add_events T blank ready pulse vs b = Some b'" "m_buffer_size b' \<le> length (m_buffer b')"
    "all_stored b' = all_stored b @ vs" "m_event_count b' = m_event_count b + of_nat (length vs)"
    "m_last_pulse_with_data b' = pulse"
    "all_index b' = all_index (if m_last_pulse_with_data b < pulse - 1
      then handlePulseGap T ready (pulse - 1 - m_last_pulse_with_data b) b else b) @ [m_event_count b]"
proof -
  let ?b1 = "if m_last_pulse_with_data b < pulse - 1
    then handlePulseGap T ready (pulse - 1 - m_last_pulse_with_data b) b else b"
  have b1: "m_buffer_size ?b1 \<le> length (m_buffer ?b1)" "all_stored ?b1 = all_stored b"
    "m_event_count ?b1 = m_event_count b"
    using assms by simp_all
  let ?b2 = "grow_buffer T ready blank (length vs) ?b1"
  obtain b2 where b2: "store_values vs ?b2 = Some b2" "m_buffer_size b2 \<le> length (m_buffer b2)"
    "all_stored b2 = all_stored b @ vs" "all_index b2 = all_index ?b1" "m_event_count b2 = m_event_count b"
    using store_values_spec [OF grow_buffer_spec(5) [OF b1(1), of T ready blank "length vs"]]
      grow_buffer_spec [OF b1(1), of T ready blank "length vs"] b1(2,3) by metis
  let ?b3 = "b2\<lparr>m_index_buffer := m_index_buffer b2 @ [m_event_count b2],
      m_event_count := m_event_count b2 + of_nat (length vs), m_last_pulse_with_data := pulse\<rparr>"
  let ?b4 = "if m_buffer_size ?b3 \<ge> event_thresh T \<and> ready then flush_values ?b3 else ?b3"
  let ?b5 = "if length (m_index_buffer ?b4) \<ge> anc_thresh T \<and> ready then flush_index ?b4 else ?b4"
  have "all_index ?b3 = all_index ?b1 @ [m_event_count b]" "all_stored ?b3 = all_stored b @ vs"
    using b2 by (simp_all add: all_index_def all_stored_def)
  moreover have "add_events T blank ready pulse vs b = Some ?b5"
    by (simp add: add_events_def Let_def b2(1))
  ultimately show thesis using b2(2,5) by (intro that [where b' = ?b5]) simp_all
qed

lemma add_events_spec:
  assumes ok: "indexed_ok h b" and srt: "sorted_wrt (<) (List.map fst (h @ [(unat pulse, vs)]))"
    and pulse: "pulse \<noteq> 0"
  obtains b' where "add_events T blank ready pulse vs b = Some b'" "indexed_ok (h @ [(unat pulse, vs)]) b'"
proof -
  let ?h = "h @ [(unat pulse, vs)]"
  have srt0: "sorted_wrt (<) (List.map fst h)" using srt by (simp add: sorted_wrt_append)
  have p1: "unat (pulse - 1) = unat pulse - 1" and pos: "0 < unat pulse"
    using pulse by (simp_all add: unat_minus_one unsigned_eq_0_iff [symmetric] flip: unat_gt_0)
  have lp: "last_pulse h \<le> unat pulse - 1"
    using srt pos by (cases h rule: rev_cases) (auto simp: last_pulse_def sorted_wrt_append)
  have "m_buffer_size b \<le> length (m_buffer b)" using ok by (simp add: indexed_ok_def)
  then obtain b' where b': "add_events T blank ready pulse vs b = Some b'"
    "m_buffer_size b' \<le> length (m_buffer b')" "all_stored b' = all_stored b @ vs"
    "m_event_count b' = m_event_count b + of_nat (length vs)" "m_last_pulse_with_data b' = pulse"
    "all_index b' = index_upto h (unat pulse - 1) @ [m_event_count b]"
    using add_events_effect gap_index [OF ok srt0, of "pulse - 1" T ready] lp p1 by metis
  have "index_upto ?h (unat pulse) = index_upto h (unat pulse - 1) @ [of_nat (length (all_values h))]"
  proof -
    have "[0 ..< unat pulse] = [0 ..< unat pulse - 1] @ [unat pulse - 1]"
      using pos upt_Suc_append [of 0 "unat pulse - 1"] by simp
    moreover have "events_upto ?h k = events_upto h k" if "k < unat pulse" for k
      using that by (simp add: events_upto_def)
    ultimately show ?thesis
      using events_upto_gap [OF srt0 lp] pos by (simp add: index_upto_def)
  qed
  then have "indexed_ok ?h b'"
    using ok b' by (simp add: indexed_ok_def last_pulse_def all_values_def)
  with b'(1) show thesis by (rule that)
qed

lemma finish_events_spec:
  assumes ok: "indexed_ok h b" and srt: "sorted_wrt (<) (List.map fst h)" and n: "last_pulse h \<le> unat n"
  shows "written_values (finish_events T n b) = all_values h"
    "written_index (finish_events T n b) = index_upto h (unat n)"
proof -
  let ?b = "if m_last_pulse_with_data b < n
    then handlePulseGap T True (n - m_last_pulse_with_data b) b else b"
  have "written_values (flush_index (flush_values ?b)) = all_stored ?b"
    by (simp add: flush_index_def flush_values_def all_stored_def)
  then show "written_values (finish_events T n b) = all_values h"
    using ok by (simp add: finish_events_def indexed_ok_def)
  have "written_index (flush_index (flush_values ?b)) = all_index ?b"
    by (simp add: flush_index_def flush_values_def all_index_def)
  then show "written_index (finish_events T n b) = index_upto h (unat n)"
    using gap_index [OF ok srt n, of T True] by (simp add: finish_events_def)
qed

section \<open>Properties\<close>

text \<open>The calls for one bank or monitor: pulse number, whether there is a file yet, the values.\<close>

fun feed ::
    "thresholds \<Rightarrow> 'a \<Rightarrow> (u64 \<times> bool \<times> 'a list) list \<Rightarrow> 'a indexed \<Rightarrow> 'a indexed option" where
  "feed T blank [] b = Some b"
| "feed T blank ((pulse, ready, vs) # cs) b =
     Option.bind (add_events T blank ready pulse vs b) (feed T blank cs)"

definition history_of :: "(u64 \<times> bool \<times> 'a list) list \<Rightarrow> 'a history" where
  "history_of cs = List.map (\<lambda>(pulse, ready, vs). (unat pulse, vs)) cs"

lemma feed_ok:
  assumes "indexed_ok h b" "sorted_wrt (<) (List.map fst (h @ history_of cs))" "\<forall>c \<in> set cs. fst c \<noteq> 0"
  shows "\<exists>b'. feed T blank cs b = Some b' \<and> indexed_ok (h @ history_of cs) b'"
  using assms
proof (induction cs arbitrary: h b)
  case Nil
  then show ?case by (simp add: history_of_def)
next
  case (Cons c cs)
  obtain pulse ready vs where c: "c = (pulse, ready, vs)" by (cases c) auto
  have hist: "h @ history_of (c # cs) = (h @ [(unat pulse, vs)]) @ history_of cs"
    by (simp add: c history_of_def)
  have "sorted_wrt (<) (List.map fst (h @ [(unat pulse, vs)]))"
    using Cons.prems(2) unfolding hist by (simp add: sorted_wrt_append)
  moreover have "pulse \<noteq> 0" using Cons.prems(3) by (simp add: c)
  ultimately obtain b' where step: "add_events T blank ready pulse vs b = Some b'"
    and ok: "indexed_ok (h @ [(unat pulse, vs)]) b'"
    using add_events_spec [OF Cons.prems(1)] by metis
  from Cons.IH [OF ok] Cons.prems(2,3) show ?case
    unfolding hist by (auto simp: c step)
qed

text \<open>
  C27. The event index is complete. Whatever pulses a bank or monitor has events in, whatever the
  thresholds and whenever the output file becomes available, no write leaves the buffer; and at the
  end of a run of \<open>n\<close> pulses everything was written: the values of all its events in order, and an
  index with one entry for every pulse, the number of its events in the pulses before.
\<close>

theorem event_index_complete:
  assumes "sorted_wrt (<) (List.map fst cs)" and "\<forall>c \<in> set cs. 0 < fst c \<and> fst c \<le> n"
  shows "\<exists>b. feed T blank cs new_indexed = Some b \<and>
    written_values (finish_events T n b) = concat (List.map (\<lambda>(pulse, ready, vs). vs) cs) \<and>
    written_index (finish_events T n b) =
      List.map (\<lambda>k. of_nat (sum_list (List.map (\<lambda>(pulse, ready, vs). if unat pulse \<le> k then length vs else 0) cs)))
        [0 ..< unat n]"
proof -
  have fst: "List.map fst (history_of cs) = List.map unat (List.map fst cs)"
    by (auto simp: history_of_def)
  have srt: "sorted_wrt (<) (List.map fst (history_of cs))"
    unfolding fst sorted_wrt_map using assms(1)
    by (auto simp: sorted_wrt_map word_less_nat_alt)
  moreover have "\<forall>c \<in> set cs. fst c \<noteq> 0" using assms(2) by auto
  ultimately obtain b where b: "feed T blank cs new_indexed = Some b" "indexed_ok (history_of cs) b"
    using feed_ok [OF indexed_ok_new] by force
  have "last_pulse (history_of cs) \<le> unat n"
    using assms(2) by (cases cs rule: rev_cases)
      (auto simp: last_pulse_def history_of_def word_le_nat_alt split: prod.split)
  note fin = finish_events_spec [OF b(2) srt this, of T]
  have "events_upto (history_of cs) k =
      sum_list (List.map (\<lambda>(pulse, ready, vs). if unat pulse \<le> k then length vs else 0) cs)" for k
    by (induction cs) (auto simp: events_upto_def history_of_def)
  moreover have "all_values (history_of cs) = concat (List.map (\<lambda>(pulse, ready, vs). vs) cs)"
    by (simp add: all_values_def history_of_def comp_def case_prod_unfold)
  ultimately show ?thesis using b(1) fin by (auto simp: index_upto_def)
qed

theorem event_index_complete_witness:
  "\<exists>b. feed \<lparr>event_thresh = 2, anc_thresh = 3\<rparr> 0 [(2, False, [7, 8]), (5, True, [9 :: u32])] new_indexed = Some b \<and>
    written_values (finish_events \<lparr>event_thresh = 2, anc_thresh = 3\<rparr> 6 b) = [7, 8, 9] \<and>
    written_index (finish_events \<lparr>event_thresh = 2, anc_thresh = 3\<rparr> 6 b) = [0, 0, 2, 2, 2, 3]"
proof -
  have "[0 ..< 6] = [0, 1, 2, 3, 4, 5 :: nat]" by code_simp
  then show ?thesis
    using event_index_complete [of "[(2, False, [7, 8]), (5, True, [9 :: u32])]" 6
        "\<lparr>event_thresh = 2, anc_thresh = 3\<rparr>" 0] by simp
qed

text \<open>
  The index of a bank relies on one call per pulse. Events of the same bank from two sources in
  one pulse, as the error bank gets them, make two entries for that pulse: after one pulse the
  index has two entries, and every later entry is one too far.
\<close>

theorem two_sources_double_index:
  "\<exists>b. feed T blank [(1, ready, [x]), (1, ready', [y])] new_indexed = Some b \<and>
    written_index (finish_events T 1 b) = [0, 1]"
proof -
  have new: "m_buffer_size new_indexed \<le> length (m_buffer new_indexed)"
    "m_last_pulse_with_data new_indexed = 0" "all_index new_indexed = []" "m_event_count new_indexed = 0"
    by (simp_all add: new_indexed_def all_index_def)
  obtain b1 where b1: "add_events T blank ready 1 [x] new_indexed = Some b1"
    "m_buffer_size b1 \<le> length (m_buffer b1)" "m_event_count b1 = 0 + of_nat (length [x])"
    "m_last_pulse_with_data b1 = 1" "all_index b1 = [] @ [0]"
    by (rule add_events_effect [OF new(1), of T blank ready 1 "[x]"]) (simp add: new)
  obtain b2 where b2: "add_events T blank ready' 1 [y] b1 = Some b2"
    "m_last_pulse_with_data b2 = 1" "all_index b2 = [0, 1]"
    by (rule add_events_effect [OF b1(2), of T blank ready' 1 "[y]"]) (simp add: b1)
  have "written_index (finish_events T 1 b2) = all_index b2"
    using b2(2) by (simp add: finish_events_def flush_index_def flush_values_def all_index_def)
  then show ?thesis using b1(1) b2 by simp
qed

end
