(* ===== verification/Bank_Events.thy ===== *)
theory Bank_Events
  imports Event_Index Pulse_Data
begin

text \<open>
  The detector banks of the translation service: \<open>BankInfo\<close> (\<open>stc/stcdefs.h\<close>) with its late
  initialisation, the array of banks and states (\<open>reallocateBanksArray\<close>) and
  \<open>processBankEvents\<close> (\<open>stc/StreamParser.cpp\<close>) with the event lists and the histograms. The time of
  flight is stored as a \<open>float\<close> of microseconds; that conversion is the parameter \<open>usec\<close>.
\<close>

unbundle bit_operations_syntax

datatype stc_error =
    Write_Outside
  | Read_Outside
  | Division_By_Zero
  | No_Banks_Array

section \<open>A bank\<close>

record bank_set =
  bs_name :: "bytes option"
  bs_banklist :: "u32 list"
  bs_flags :: u32
  bs_tofOffset :: u32
  bs_tofMax :: u32
  bs_tofBin :: u32
  bs_throttle :: u64
  bs_suffix :: "bytes option"

record histogram =
  num_tof_bins :: u32
  tof_bin_size :: u32
  base_pid :: u32
  pid_offset :: "int list"
  data_buffer :: "u32 list"
  histo_counted :: u64
  histo_uncounted :: u64

record 'f bank_info =
  bi_id :: u32
  bi_state :: u32
  bi_logical :: "u32 list"
  bi_physical :: "u32 list"
  bi_sets :: "bank_set list"
  bi_initialized :: bool
  bi_has_event :: bool
  bi_events :: "('f \<times> u32) indexed"
  bi_histo :: "histogram option"

definition makeBankInfo :: "u16 \<Rightarrow> u32 \<Rightarrow> 'f bank_info" where
  "makeBankInfo bid st =
     \<lparr>bi_id = ucast bid, bi_state = st, bi_logical = [], bi_physical = [], bi_sets = [],
      bi_initialized = False, bi_has_event = False, bi_events = new_indexed, bi_histo = None\<rparr>"

text \<open>The number of limits of the bins of a histogram. A bin size of zero divides by zero.\<close>

definition tof_bins :: "u32 \<Rightarrow> u32 \<Rightarrow> u32 \<Rightarrow> u32" where
  "tof_bins off mx bin =
     (let n = (mx - off) div bin + 1; n1 = (if (mx - off) mod bin \<noteq> 0 then n + 1 else n) in
      if n1 < 2 then 2 else n1)"

text \<open>The offsets of the pixels in the histogram; a pixel that comes twice keeps its first place.\<close>

fun fill_offsets :: "u32 \<Rightarrow> u32 \<Rightarrow> nat \<Rightarrow> u32 list \<Rightarrow> int list \<Rightarrow> int list" where
  "fill_offsets base bins off [] t = t"
| "fill_offsets base bins off (pid # pids) t =
     (let i = unat (pid - base) in
      fill_offsets base bins (off + 1) pids
        (if t ! i < 0 then t[i := sint (of_nat off * (bins - 1) :: u32)] else t))"

definition new_histogram :: "bool \<Rightarrow> bank_set \<Rightarrow> u32 list \<Rightarrow> stc_error + histogram" where
  "new_histogram end_of_run s pids =
     (if \<not> end_of_run \<and> bs_tofBin s = 0 then Inl Division_By_Zero
      else let bins = (if end_of_run then 3 else tof_bins (bs_tofOffset s) (bs_tofMax s) (bs_tofBin s));
               base = Min (set pids); n = unat (Max (set pids) - base + 1) in
        Inr \<lparr>num_tof_bins = bins, tof_bin_size = (if end_of_run then bs_tofMax s div 2 else bs_tofBin s),
             base_pid = base, pid_offset = fill_offsets base bins 0 pids (replicate n (- 1)),
             data_buffer = replicate (unat (bins - 1) * length pids) 0,
             histo_counted = 0, histo_uncounted = 0\<rparr>)"

text \<open>
  A set with the histogram format on a bank without pixels is left by \<open>continue\<close>, before its event
  format is looked at.
\<close>

fun init_sets :: "bool \<Rightarrow> bank_set list \<Rightarrow> 'f bank_info \<Rightarrow> stc_error + 'f bank_info" where
  "init_sets end_of_run [] bi = Inr bi"
| "init_sets end_of_run (s # ss) bi =
     (let histo = (bs_flags s AND HISTO_FORMAT \<noteq> 0); event = (bs_flags s AND EVENT_FORMAT \<noteq> 0) in
      if histo \<and> bi_histo bi = None
      then if bi_logical bi = [] then init_sets end_of_run ss bi
        else sbind (new_histogram end_of_run s (bi_logical bi)) (\<lambda>h.
          init_sets end_of_run ss (bi\<lparr>bi_histo := Some h, bi_has_event := bi_has_event bi \<or> event\<rparr>))
      else init_sets end_of_run ss (bi\<lparr>bi_has_event := bi_has_event bi \<or> event\<rparr>))"

definition initializeBank :: "bool \<Rightarrow> 'f bank_info \<Rightarrow> stc_error + 'f bank_info" where
  "initializeBank end_of_run bi =
     (if bi_initialized bi then Inr bi
      else sbind (init_sets end_of_run (bi_sets bi) bi) (\<lambda>bi1.
        Inr (bi1\<lparr>bi_has_event := bi_has_event bi1 \<or> bi_sets bi1 = [], bi_initialized := True\<rparr>)))"

text \<open>One event into the histogram: time of flight in tenths of microseconds, and pixel.\<close>

definition histo_event :: "bank_set \<Rightarrow> event \<Rightarrow> histogram \<Rightarrow> stc_error + histogram" where
  "histo_event s e h =
     (let t = tof e div 10; i = unat (pixel e - base_pid h) in
      if length (pid_offset h) \<le> i then Inl Read_Outside
      else if bs_tofOffset s \<le> t \<and> t < bs_tofMax s \<and> 0 \<le> pid_offset h ! i
      then if tof_bin_size h = 0 then Inl Division_By_Zero
        else let tofbin = (t - bs_tofOffset s) div tof_bin_size h;
                 ix = of_int (pid_offset h ! i) + tofbin in
          if tofbin \<ge> num_tof_bins h - 1 \<or> unat ix \<ge> length (data_buffer h)
          then Inr (h\<lparr>histo_uncounted := histo_uncounted h + 1\<rparr>)
          else Inr (h\<lparr>data_buffer := (data_buffer h)[unat ix := data_buffer h ! unat ix + 1],
                      histo_counted := histo_counted h + 1\<rparr>)
      else Inr (h\<lparr>histo_uncounted := histo_uncounted h + 1\<rparr>))"

fun histo_events :: "bank_set \<Rightarrow> event list \<Rightarrow> histogram \<Rightarrow> stc_error + histogram" where
  "histo_events s [] h = Inr h"
| "histo_events s (e # es) h = sbind (histo_event s e h) (histo_events s es)"

section \<open>The array of banks\<close>

definition UNMAPPED_BANK_ID :: u32 where "UNMAPPED_BANK_ID = 0xffffffff"
definition ERROR_BANK_ID :: u32 where "ERROR_BANK_ID = 0xfffffffe"
definition UNMAPPED_BANK_INDEX :: nat where "UNMAPPED_BANK_INDEX = 0"
definition ERROR_BANK_INDEX :: nat where "ERROR_BANK_INDEX = 1"
definition NUM_SPECIAL_BANKS :: nat where "NUM_SPECIAL_BANKS = 2"

record run_metrics =
  events_counted :: u64
  events_uncounted :: u64
  events_unmapped :: u64
  events_error :: u64

record 'f stc =
  stc_banks_arr :: "'f bank_info option list option"
  stc_numStates :: u32
  stc_maxBank :: u32
  stc_pulse_count :: u64
  stc_pulse_flag :: u16
  stc_metrics :: run_metrics

definition new_stc :: "'f stc" where
  "new_stc =
     \<lparr>stc_banks_arr = None, stc_numStates = 1, stc_maxBank = 0, stc_pulse_count = 0, stc_pulse_flag = 0,
      stc_metrics = \<lparr>events_counted = 0, events_uncounted = 0, events_unmapped = 0, events_error = 0\<rparr>\<rparr>"

definition bank_state_index :: "u32 \<Rightarrow> u32 \<Rightarrow> u32 \<Rightarrow> nat" where
  "bank_state_index mx bank state = unat (2 + bank + state * (mx + 1))"

text \<open>The moves of the old entries to the new array, in the order of the two loops.\<close>

fun move_banks ::
    "(nat \<times> nat) list \<Rightarrow> 'b option list \<Rightarrow> 'b option list \<Rightarrow> stc_error + 'b option list" where
  "move_banks [] old new = Inr new"
| "move_banks ((i, j) # ms) old new =
     (if length old \<le> i then Inl Read_Outside
      else if length new \<le> j then Inl Write_Outside
      else move_banks ms (old[i := None]) (new[j := old ! i]))"

definition bank_moves :: "u32 \<Rightarrow> u32 \<Rightarrow> u32 \<Rightarrow> (nat \<times> nat) list" where
  "bank_moves states old_max new_max =
     [(0, 0), (1, 1)] @
     List.map (\<lambda>(s, b).
       (bank_state_index old_max (of_nat b) (of_nat s), bank_state_index new_max (of_nat b) (of_nat s)))
       (List.product [0 ..< unat states] [0 ..< unat (old_max + 1)])"

definition reallocateBanksArray :: "u32 \<Rightarrow> u32 \<Rightarrow> 'f stc \<Rightarrow> stc_error + 'f stc" where
  "reallocateBanksArray bank state S =
     (if state + 1 > stc_numStates S \<or> bank > stc_maxBank S
      then let new = replicate (unat (2 + (state + 1) * (bank + 1))) None in
        sbind (case stc_banks_arr S of
                 None \<Rightarrow> Inr new
               | Some old \<Rightarrow> move_banks (bank_moves (stc_numStates S) (stc_maxBank S) bank) old new) (\<lambda>arr.
          Inr (S\<lparr>stc_banks_arr := Some arr, stc_numStates := state + 1, stc_maxBank := bank\<rparr>))
      else Inr S)"

section \<open>Events of a bank\<close>

text \<open>
  The bank of a call, found or made: a state of a known bank is cloned from state 0. \<open>None\<close> is an
  unknown bank. \<open>getDetectorBankSets\<close> does not matter here, its result is overwritten.
\<close>

definition find_bank ::
    "u32 \<Rightarrow> u32 \<Rightarrow> u32 \<Rightarrow> 'f bank_info option list \<Rightarrow> stc_error + (nat \<times> 'f bank_info option)" where
  "find_bank mx bank state arr =
     (let i = (if bank = UNMAPPED_BANK_ID then UNMAPPED_BANK_INDEX
               else if bank = ERROR_BANK_ID then ERROR_BANK_INDEX
               else bank_state_index mx bank state) in
      if length arr \<le> i then Inl Read_Outside
      else case arr ! i of
        Some bi \<Rightarrow> Inr (i, Some bi)
      | None \<Rightarrow>
          if bank = UNMAPPED_BANK_ID \<or> bank = ERROR_BANK_ID
          then Inr (i, Some (makeBankInfo (ucast bank) 0))
          else if length arr \<le> bank_state_index mx bank 0 then Inl Read_Outside
          else Inr (i, map_option (\<lambda>bi0.
            (makeBankInfo (ucast bank) state)\<lparr>bi_logical := bi_logical bi0, bi_physical := bi_physical bi0,
              bi_sets := bi_sets bi0\<rparr>) (arr ! bank_state_index mx bank 0)))"

definition bank_values :: "(u32 \<Rightarrow> 'f) \<Rightarrow> event list \<Rightarrow> ('f \<times> u32) list" where
  "bank_values usec es = List.map (\<lambda>e. (usec (tof e), pixel e)) es"

definition store_bank ::
    "thresholds \<Rightarrow> (u32 \<Rightarrow> 'f) \<Rightarrow> 'f \<times> u32 \<Rightarrow> bool \<Rightarrow> u64 \<Rightarrow> event list \<Rightarrow> 'f bank_info \<Rightarrow>
     stc_error + 'f bank_info" where
  "store_bank T usec blank ready pulse es bi =
     sbind (initializeBank False bi) (\<lambda>bi1.
     sbind (if bi_has_event bi1
            then (case add_events T blank ready pulse (bank_values usec es) (bi_events bi1) of
                    None \<Rightarrow> Inl Write_Outside
                  | Some d \<Rightarrow> Inr (bi1\<lparr>bi_events := d\<rparr>))
            else Inr bi1) (\<lambda>bi2.
       case bi_histo bi2 of
         None \<Rightarrow> Inr bi2
       | Some h \<Rightarrow>
          (case List.find (\<lambda>s. bs_flags s AND HISTO_FORMAT \<noteq> 0) (bi_sets bi2) of
             None \<Rightarrow> Inr bi2
           | Some s \<Rightarrow> sbind (histo_events s es h) (\<lambda>h1. Inr (bi2\<lparr>bi_histo := Some h1\<rparr>)))))"

definition count_events :: "u32 \<Rightarrow> u64 \<Rightarrow> bool \<Rightarrow> bool \<Rightarrow> run_metrics \<Rightarrow> run_metrics" where
  "count_events bank n known event m =
     (let special = (bank = UNMAPPED_BANK_ID \<or> bank = ERROR_BANK_ID);
          m1 = (if known \<and> \<not> event then m
                else if known \<and> \<not> special then m\<lparr>events_counted := events_counted m + n\<rparr>
                else m\<lparr>events_uncounted := events_uncounted m + n\<rparr>);
          m2 = (if bank = UNMAPPED_BANK_ID then m1\<lparr>events_unmapped := events_unmapped m1 + n\<rparr> else m1) in
      if bank = ERROR_BANK_ID then m2\<lparr>events_error := events_error m2 + n\<rparr> else m2)"

definition processBankEvents ::
    "thresholds \<Rightarrow> (u32 \<Rightarrow> 'f) \<Rightarrow> 'f \<times> u32 \<Rightarrow> bool \<Rightarrow> u32 \<times> u32 \<times> event list \<Rightarrow> 'f stc \<Rightarrow>
     stc_error + 'f stc" where
  "processBankEvents T usec blank ready = (\<lambda>(bank, state, es) S.
     sbind (reallocateBanksArray (if bank = UNMAPPED_BANK_ID \<or> bank = ERROR_BANK_ID then 1 else bank) state S)
       (\<lambda>S1.
     case stc_banks_arr S1 of
       None \<Rightarrow> Inl No_Banks_Array
     | Some arr \<Rightarrow>
        sbind (find_bank (stc_maxBank S1) bank state arr) (\<lambda>(i, bi).
          case bi of
            None \<Rightarrow>
              Inr (S1\<lparr>stc_metrics := count_events bank (of_nat (length es)) False False (stc_metrics S1)\<rparr>)
          | Some b \<Rightarrow>
              sbind (store_bank T usec blank ready (stc_pulse_count S1) es b) (\<lambda>b1.
                Inr (S1\<lparr>stc_banks_arr := Some (arr[i := Some b1]),
                        stc_metrics := count_events bank (of_nat (length es)) True (bi_has_event b1)
                          (stc_metrics S1)\<rparr>)))))"

section \<open>Pulses\<close>

text \<open>
  The count of pulses goes up with the first packet of a pulse, banked events or monitors; the flag
  remembers which of the two came. A packet out of turn counts as the first of a new pulse.
\<close>

definition count_pulse :: "u16 \<Rightarrow> u16 \<Rightarrow> 'f stc \<Rightarrow> 'f stc" where
  "count_pulse mine other S =
     (if stc_pulse_flag S = 0
      then S\<lparr>stc_pulse_count := stc_pulse_count S + 1, stc_pulse_flag := stc_pulse_flag S OR mine\<rparr>
      else if stc_pulse_flag S = other then S\<lparr>stc_pulse_flag := 0\<rparr>
      else S\<lparr>stc_pulse_count := stc_pulse_count S + 1, stc_pulse_flag := mine\<rparr>)"

fun process_calls ::
    "thresholds \<Rightarrow> (u32 \<Rightarrow> 'f) \<Rightarrow> 'f \<times> u32 \<Rightarrow> bool \<Rightarrow> (u32 \<times> u32 \<times> event list) list \<Rightarrow> 'f stc \<Rightarrow>
     stc_error + 'f stc" where
  "process_calls T usec blank ready [] S = Inr S"
| "process_calls T usec blank ready (c # cs) S =
     sbind (processBankEvents T usec blank ready c S) (process_calls T usec blank ready cs)"

section \<open>Reallocation\<close>

lemma move_banks_outside:
  "\<forall>(i, j) \<in> set ms. i < length old \<Longrightarrow> \<exists>(i, j) \<in> set ms. length new \<le> j \<Longrightarrow>
   move_banks ms old new = Inl Write_Outside"
  by (induction ms old new rule: move_banks.induct) force+

lemma move_banks_spec:
  assumes "distinct (List.map fst ms)" "distinct (List.map snd ms)"
    and "\<forall>(i, j) \<in> set ms. i < length old \<and> j < length new"
  shows "\<exists>new'. move_banks ms old new = Inr new' \<and> length new' = length new \<and>
    (\<forall>(i, j) \<in> set ms. new' ! j = old ! i) \<and> (\<forall>k. k \<notin> snd ` set ms \<longrightarrow> new' ! k = new ! k)"
  using assms
proof (induction ms old new rule: move_banks.induct)
  case (2 i j ms old new)
  have ij: "i < length old" "j < length new" using "2.prems"(3) by auto
  have fresh: "i \<notin> fst ` set ms" "j \<notin> snd ` set ms" using "2.prems"(1,2) by auto
  have "\<exists>new'. move_banks ms (old[i := None]) (new[j := old ! i]) = Inr new' \<and>
      length new' = length (new[j := old ! i]) \<and>
      (\<forall>(i', j') \<in> set ms. new' ! j' = old[i := None] ! i') \<and>
      (\<forall>k. k \<notin> snd ` set ms \<longrightarrow> new' ! k = new[j := old ! i] ! k)"
    using "2.prems" ij by (intro "2.IH") auto
  then obtain new' where new': "move_banks ms (old[i := None]) (new[j := old ! i]) = Inr new'"
    "length new' = length new" "\<forall>(i', j') \<in> set ms. new' ! j' = old[i := None] ! i'"
    "\<And>k. k \<notin> snd ` set ms \<Longrightarrow> new' ! k = new[j := old ! i] ! k" by auto
  have "\<forall>(i', j') \<in> set ms. new' ! j' = old ! i'"
  proof (intro ballI, clarify)
    fix i' j' assume mem: "(i', j') \<in> set ms"
    then have "i' \<noteq> i" using fresh(1) by force
    then show "new' ! j' = old ! i'" using new'(3) mem by auto
  qed
  then show ?case
    using new' ij fresh by (intro exI [of _ new']) auto
qed simp

lemma state_index_nat:
  assumes "unat bank \<le> unat mx" "2 + (unat state + 1) * (unat mx + 1) < 4294967296"
  shows "bank_state_index mx bank state = 2 + unat bank + unat state * (unat mx + 1)"
proof -
  have room: "unat state * (unat mx + 1) + (unat mx + 1) + 2 < 4294967296"
    using assms(2) by (simp add: algebra_simps)
  then have "unat (mx + 1) = unat mx + 1" by (simp add: unat_word_ariths)
  moreover have small: "unat state * (unat mx + 1) < 4294967296" using room by linarith
  ultimately have "unat (state * (mx + 1)) = unat state * (unat mx + 1)"
    by (simp add: unat_word_ariths)
  moreover have "unat (2 + bank) = 2 + unat bank"
    using room assms(1) by (simp add: unat_word_ariths)
  moreover have "2 + unat bank + unat state * (unat mx + 1) < 4294967296"
    using room assms(1) by linarith
  ultimately show ?thesis by (simp add: bank_state_index_def unat_word_ariths)
qed

text \<open>An array of the size its parameters say.\<close>

definition banks_ok :: "'f stc \<Rightarrow> bool" where
  "banks_ok S \<longleftrightarrow>
     2 + unat (stc_numStates S) * (unat (stc_maxBank S) + 1) < 4294967296 \<and> 1 \<le> unat (stc_numStates S) \<and>
     (\<exists>arr. stc_banks_arr S = Some arr \<and>
        length arr = 2 + unat (stc_numStates S) * (unat (stc_maxBank S) + 1))"

lemma index_room:
  fixes s N M b :: nat
  assumes "s < N"
  shows "M + 1 \<le> N * (M + 1)" "(s + 1) * (M + 1) \<le> N * (M + 1)"
    "b \<le> M \<Longrightarrow> 2 + b + s * (M + 1) < 2 + N * (M + 1)"
proof -
  show le: "(s + 1) * (M + 1) \<le> N * (M + 1)" using assms by (intro mult_le_mono1) simp
  show "M + 1 \<le> N * (M + 1)" using assms mult_le_mono1 [of 1 N "M + 1"] by simp
  show "b \<le> M \<Longrightarrow> 2 + b + s * (M + 1) < 2 + N * (M + 1)"
    using le by (simp add: algebra_simps)
qed

lemma digits_unique:
  fixes b K b' s s' :: nat
  assumes "b < K" "b' < K" "b + s * K = b' + s' * K"
  shows "b = b' \<and> s = s'"
proof -
  have "(b + s * K) mod K = b" "(b + s * K) div K = s" using assms(1) by simp_all
  moreover have "(b' + s' * K) mod K = b'" "(b' + s' * K) div K = s'" using assms(2) by simp_all
  ultimately show ?thesis using assms(3) by metis
qed

lemma index_inj:
  fixes f :: "nat \<Rightarrow> nat \<Rightarrow> nat"
  assumes "\<And>s b. (s, b) \<in> P \<Longrightarrow> f b s = 2 + b + s * (M + 1) \<and> b \<le> M"
  shows "inj_on (\<lambda>(s, b). f b s) P"
proof (rule inj_onI, clarify)
  fix s b s' b' assume "(s, b) \<in> P" "(s', b') \<in> P" "f b s = f b' s'"
  then show "s = s' \<and> b = b'"
    using digits_unique [of b "M + 1" b' s s'] assms [of s b] assms [of s' b'] by simp
qed

lemma banks_moves_in:
  fixes n mx :: u32
  assumes "(s, b) \<in> set (List.product [0 ..< unat n] [0 ..< unat (mx + 1)])"
    and "2 + unat n * (unat mx + 1) < 4294967296"
  shows "bank_state_index mx (of_nat b) (of_nat s) = 2 + b + s * (unat mx + 1)"
    "b \<le> unat mx" "s < unat n" "2 + b + s * (unat mx + 1) < 2 + unat n * (unat mx + 1)"
proof -
  have sb: "s < unat n" "b < unat (mx + 1)" using assms(1) by auto
  note room = index_room [OF sb(1), where M = "unat mx"]
  have "unat mx + 1 < 4294967296"
    by (rule order_le_less_trans [OF room(1)]) (use assms(2) in simp)
  then have mx1: "unat (mx + 1) = unat mx + 1" by (simp add: unat_word_ariths)
  show b: "b \<le> unat mx" using sb(2) mx1 by simp
  show "s < unat n" by (rule sb(1))
  show "2 + b + s * (unat mx + 1) < 2 + unat n * (unat mx + 1)"
    by (rule room(3) [OF b])
  have u: "unat (of_nat b :: u32) = b" "unat (of_nat s :: u32) = s"
    using b sb(1) order_le_less_trans [OF b unat_u32_less] order.strict_trans [OF sb(1) unat_u32_less]
    by (simp_all add: unat_of_nat_u32)
  have "2 + (s + 1) * (unat mx + 1) < 4294967296"
    by (rule order_le_less_trans [OF _ assms(2)]) (use room(2) in simp)
  then show "bank_state_index mx (of_nat b) (of_nat s) = 2 + b + s * (unat mx + 1)"
    using state_index_nat [of "of_nat b" mx "of_nat s"] b unfolding u by simp
qed

text \<open>
  The condition the code does not ask for: the array may only grow in both directions.
\<close>

lemma bank_moves_ok:
  assumes "2 + unat n * (unat mx + 1) < 4294967296" "unat mx \<le> unat mx'"
    and "2 + unat n * (unat mx' + 1) < 4294967296"
  shows "distinct (List.map fst (bank_moves n mx mx'))" "distinct (List.map snd (bank_moves n mx mx'))"
    "\<forall>(i, j) \<in> set (bank_moves n mx mx').
       i < 2 + unat n * (unat mx + 1) \<and> j < 2 + unat n * (unat mx' + 1)"
proof -
  let ?P = "List.product [0 ..< unat n] [0 ..< unat (mx + 1)]"
  have index: "bank_state_index mx (of_nat b) (of_nat s) = 2 + b + s * (unat mx + 1)"
    "bank_state_index mx' (of_nat b) (of_nat s) = 2 + b + s * (unat mx' + 1)"
    "b \<le> unat mx" "s < unat n" "2 + b + s * (unat mx + 1) < 2 + unat n * (unat mx + 1)"
    "2 + b + s * (unat mx' + 1) < 2 + unat n * (unat mx' + 1)"
    if "(s, b) \<in> set ?P" for s b
  proof -
    note sb = banks_moves_in [OF that assms(1)]
    show "bank_state_index mx (of_nat b) (of_nat s) = 2 + b + s * (unat mx + 1)" "b \<le> unat mx" "s < unat n"
      "2 + b + s * (unat mx + 1) < 2 + unat n * (unat mx + 1)" by (rule sb)+
    have b': "b \<le> unat mx'" using sb(2) assms(2) by simp
    show "2 + b + s * (unat mx' + 1) < 2 + unat n * (unat mx' + 1)"
      by (rule index_room(3) [OF sb(3) b'])
    have "unat mx' + 1 < 4294967296"
      by (rule order_le_less_trans [OF index_room(1) [OF sb(3)]]) (use assms(3) in simp)
    then have "unat (mx' + 1) = unat mx' + 1" by (simp add: unat_word_ariths)
    then have "(s, b) \<in> set (List.product [0 ..< unat n] [0 ..< unat (mx' + 1)])"
      using le_imp_less_Suc [OF b'] sb(3) by (auto simp: less_Suc_eq)
    then show "bank_state_index mx' (of_nat b) (of_nat s) = 2 + b + s * (unat mx' + 1)"
      by (rule banks_moves_in [OF _ assms(3)])
  qed
  have dist: "distinct ?P" by (simp add: distinct_product)
  have "inj_on (\<lambda>(s, b). bank_state_index mx (of_nat b) (of_nat s)) (set ?P)"
    by (rule index_inj [where M = "unat mx"]) (use index(1,3) in \<open>auto simp del: set_product\<close>)
  then show "distinct (List.map fst (bank_moves n mx mx'))"
    using dist index(1)
    by (auto simp: bank_moves_def distinct_map comp_def case_prod_unfold simp del: set_product set_upt)
  have "inj_on (\<lambda>(s, b). bank_state_index mx' (of_nat b) (of_nat s)) (set ?P)"
    by (rule index_inj [where M = "unat mx'"])
      (use index(2,3) order_trans [OF _ assms(2)] in \<open>auto simp del: set_product\<close>)
  then show "distinct (List.map snd (bank_moves n mx mx'))"
    using dist index(2)
    by (auto simp: bank_moves_def distinct_map comp_def case_prod_unfold simp del: set_product set_upt)
  show "\<forall>(i, j) \<in> set (bank_moves n mx mx').
       i < 2 + unat n * (unat mx + 1) \<and> j < 2 + unat n * (unat mx' + 1)"
    using index by (auto simp: bank_moves_def simp del: set_product set_upt)
qed

section \<open>Properties\<close>

definition bank_of :: "'f stc \<Rightarrow> u32 \<Rightarrow> u32 \<Rightarrow> 'f bank_info option" where
  "bank_of S bank state =
     (case stc_banks_arr S of None \<Rightarrow> None | Some arr \<Rightarrow> arr ! bank_state_index (stc_maxBank S) bank state)"

text \<open>
  A reallocation that makes the array larger in both directions, more states and more banks, is
  inside both arrays and keeps every bank of every state where it is looked for afterwards.
\<close>

theorem reallocation_keeps_banks:
  assumes ok: "banks_ok S"
    and more: "stc_numStates S \<le> state + 1" "stc_maxBank S \<le> bank"
    and room: "2 + (unat state + 1) * (unat bank + 1) < 4294967296"
  shows "\<exists>S'. reallocateBanksArray bank state S = Inr S' \<and> banks_ok S' \<and>
    (\<forall>b s. b \<le> stc_maxBank S \<longrightarrow> s < stc_numStates S \<longrightarrow> bank_of S' b s = bank_of S b s)"
proof (cases "state + 1 > stc_numStates S \<or> bank > stc_maxBank S")
  case False
  then have "reallocateBanksArray bank state S = Inr S" by (simp add: reallocateBanksArray_def)
  then show ?thesis using ok by blast
next
  case True
  let ?n = "stc_numStates S" and ?M = "stc_maxBank S"
  obtain arr where arr: "stc_banks_arr S = Some arr" "length arr = 2 + unat ?n * (unat ?M + 1)"
    and small: "2 + unat ?n * (unat ?M + 1) < 4294967296" using ok by (auto simp: banks_ok_def)
  have "(unat state + 1) * 1 \<le> (unat state + 1) * (unat bank + 1)"
    "1 * (unat bank + 1) \<le> (unat state + 1) * (unat bank + 1)"
    by (intro mult_le_mono; simp)+
  then have s1: "unat (state + 1) = unat state + 1" and b1: "unat (bank + 1) = unat bank + 1"
    using room by (auto simp: unat_word_ariths)
  have size: "unat (2 + (state + 1) * (bank + 1)) = 2 + (unat state + 1) * (unat bank + 1)"
    using room by (simp add: unat_word_ariths s1 b1)
  have Mb: "unat ?M \<le> unat bank" and ns: "unat ?n \<le> unat state + 1"
    using more s1 by (simp_all add: word_le_nat_alt)
  have fits: "unat ?n * (unat bank + 1) \<le> (unat state + 1) * (unat bank + 1)"
    using ns by (rule mult_le_mono1)
  then have room': "2 + unat ?n * (unat bank + 1) < 4294967296"
    using room by (intro order_le_less_trans [OF _ room]) simp
  note moves = bank_moves_ok [OF small Mb room']
  define new :: "'a bank_info option list" where "new = replicate (2 + (unat state + 1) * (unat bank + 1)) None"
  have "\<forall>(i, j) \<in> set (bank_moves ?n ?M bank). i < length arr \<and> j < length new"
    using moves(3) fits arr(2) by (fastforce simp: new_def)
  from move_banks_spec [OF moves(1,2) this] obtain new' where
    mv: "move_banks (bank_moves ?n ?M bank) arr new = Inr new'" "length new' = length new"
    and at: "\<forall>(i, j) \<in> set (bank_moves ?n ?M bank). new' ! j = arr ! i" by blast
  let ?S = "S\<lparr>stc_banks_arr := Some new', stc_numStates := state + 1, stc_maxBank := bank\<rparr>"
  have "reallocateBanksArray bank state S = Inr ?S"
    using True mv(1) by (simp add: reallocateBanksArray_def Let_def size arr(1) new_def)
  moreover have "banks_ok ?S"
    using room s1 mv(2) by (simp add: banks_ok_def new_def)
  moreover have "bank_of ?S b s = bank_of S b s" if "b \<le> ?M" "s < ?n" for b s
  proof -
    have "unat ?M + 1 < 4294967296"
      using index_room(1) [of "unat s" "unat ?n" "unat ?M"] that(2) small
      by (auto simp: word_less_nat_alt intro: order_le_less_trans)
    then have "(unat s, unat b) \<in> set (List.product [0 ..< unat ?n] [0 ..< unat (?M + 1)])"
      using that by (auto simp: word_le_nat_alt word_less_nat_alt unat_word_ariths)
    then have "(bank_state_index ?M b s, bank_state_index bank b s) \<in> set (bank_moves ?n ?M bank)"
      by (force simp: bank_moves_def simp del: set_product)
    then have "new' ! bank_state_index bank b s = arr ! bank_state_index ?M b s" using at by blast
    then show ?thesis by (simp add: bank_of_def arr(1))
  qed
  ultimately show ?thesis by blast
qed

text \<open>
  C36. A new state that is seen first in a small bank destroys the heap: the code takes the bank of
  the call as the new largest bank, so the array shrinks and the old banks are moved past its end.
\<close>

theorem new_state_small_bank_overflows:
  assumes ok: "banks_ok S" and one: "stc_numStates S = 1" and small: "2 * unat bank + 1 < unat (stc_maxBank S)"
  shows "reallocateBanksArray bank 1 S = Inl Write_Outside"
proof -
  let ?M = "stc_maxBank S"
  obtain arr where arr: "stc_banks_arr S = Some arr" "length arr = unat ?M + 3" and M: "unat ?M + 3 < 4294967296"
    using ok one by (auto simp: banks_ok_def)
  have b: "unat bank + 1 < 4294967296" "2 + 2 * (unat bank + 1) < 4294967296" using small M by simp_all
  have size: "unat (4 + 2 * bank) = 4 + 2 * unat bank"
    using b by (simp add: unat_word_ariths)
  have M1: "unat (?M + 1) = unat ?M + 1" using M by (simp add: unat_word_ariths)
  have idx: "bank_state_index m (of_nat k) (of_nat 0) = 2 + k" if "k \<le> unat ?M" for m k
    using that M by (simp add: bank_state_index_def unat_word_ariths unat_of_nat_u32)
  have "i < length arr" if "(i, j) \<in> set (bank_moves 1 ?M bank)" for i j
  proof -
    from that consider "i \<le> 1" | k where "k < unat (?M + 1)" "i = bank_state_index ?M (of_nat k) (of_nat 0)"
      by (auto simp: bank_moves_def)
    then show ?thesis using idx [of _ ?M] by cases (auto simp: M1 arr(2))
  qed
  then have "\<forall>(i, j) \<in> set (bank_moves 1 ?M bank). i < length arr" by blast
  moreover have "(4 + 2 * unat bank, 4 + 2 * unat bank) \<in> set (bank_moves 1 ?M bank)"
  proof -
    have k: "2 + 2 * unat bank \<le> unat ?M" using small by simp
    have "(0, 2 + 2 * unat bank) \<in> set (List.product [0 ..< unat (1 :: u32)] [0 ..< unat (?M + 1)])"
      using le_imp_less_Suc [OF k] by (auto simp: M1 less_Suc_eq)
    then show ?thesis
      using idx [OF k, of ?M] idx [OF k, of bank]
      by (force simp: bank_moves_def simp del: set_product)
  qed
  ultimately have "move_banks (bank_moves 1 ?M bank) arr (replicate (4 + 2 * unat bank) None) = Inl Write_Outside"
    by (intro move_banks_outside) auto
  then show ?thesis
    using one by (simp add: reallocateBanksArray_def Let_def arr(1) size)
qed

text \<open>A parser after the pixel map of a beam line with ten banks.\<close>

definition ten_banks :: "u32 stc" where
  "ten_banks =
     new_stc\<lparr>stc_banks_arr := Some ((replicate 13 None)[3 := Some (makeBankInfo 1 0)]), stc_maxBank := 10\<rparr>"

lemma ten_banks_ok: "banks_ok ten_banks"
  by (simp add: banks_ok_def ten_banks_def new_stc_def)

theorem new_state_small_bank_overflows_witness:
  "reallocateBanksArray 1 1 ten_banks = Inl Write_Outside"
  by (rule new_state_small_bank_overflows [OF ten_banks_ok]) (simp_all add: ten_banks_def new_stc_def)

theorem reallocation_keeps_banks_witness:
  "\<exists>S'. reallocateBanksArray 10 1 ten_banks = Inr S' \<and> bank_of S' 1 0 = Some (makeBankInfo 1 0)"
proof -
  have "bank_of ten_banks 1 0 = Some (makeBankInfo 1 0)"
    by (simp add: bank_of_def ten_banks_def new_stc_def bank_state_index_def)
  then show ?thesis
    using reallocation_keeps_banks [OF ten_banks_ok, of 1 10] by (auto simp: ten_banks_def new_stc_def)
qed

end
