(* ===== verification/Bank_Histogram.thy ===== *)
theory Bank_Histogram
  imports Bank_Events
begin

text \<open>
  The histogram of a detector bank: what \<open>initializeBank\<close> sets up and \<open>processBankEvents\<close> fills is,
  for every pixel of the bank and every bin, the number of events of that pixel in that bin.
\<close>

section \<open>Reference\<close>

definition in_window :: "bank_set \<Rightarrow> event \<Rightarrow> bool" where
  "in_window s e \<longleftrightarrow> bs_tofOffset s \<le> tof e div 10 \<and> tof e div 10 < bs_tofMax s"

definition bin_of :: "bank_set \<Rightarrow> event \<Rightarrow> nat" where
  "bin_of s e = (unat (tof e) div 10 - unat (bs_tofOffset s)) div unat (bs_tofBin s)"

definition bins_of :: "bank_set \<Rightarrow> nat" where
  "bins_of s = unat (tof_bins (bs_tofOffset s) (bs_tofMax s) (bs_tofBin s) - 1)"

definition events_in :: "bank_set \<Rightarrow> u32 \<Rightarrow> nat \<Rightarrow> event list \<Rightarrow> nat" where
  "events_in s p j es = length (List.filter (\<lambda>e. pixel e = p \<and> in_window s e \<and> bin_of s e = j) es)"

section \<open>Bins\<close>

lemma unat_Suc_u32: "unat (w :: u32) < 4294967295 \<Longrightarrow> unat (w + 1) = unat w + 1"
  by (simp add: unat_word_ariths)

lemma unat_plus_u32: "unat (a :: u32) + unat b < 4294967296 \<Longrightarrow> unat (a + b) = unat a + unat b"
  by (simp add: unat_word_ariths)

lemma bins_of_nat:
  assumes b0: "bs_tofBin s \<noteq> 0" and less: "bs_tofOffset s < bs_tofMax s"
    and small: "bs_tofMax s - bs_tofOffset s < 0xffffffff"
  defines "D \<equiv> unat (bs_tofMax s) - unat (bs_tofOffset s)" and "b \<equiv> unat (bs_tofBin s)"
  shows "bins_of s = max 1 (if D mod b = 0 then D div b else D div b + 1)"
proof -
  define d where "d = bs_tofMax s - bs_tofOffset s"
  have D: "unat d = D"
    unfolding d_def D_def by (rule unat_sub) (rule less_imp_le [OF less])
  have small': "D < 4294967295" using small unfolding d_def [symmetric] by (simp add: word_less_nat_alt D)
  have q: "unat (d div bs_tofBin s) = D div b" "D div b \<le> D"
    by (simp_all add: unat_div D b_def)
  have r: "d mod bs_tofBin s = 0 \<longleftrightarrow> D mod b = 0"
    by (metis D b_def unat_mod unat_eq_0)
  have n: "unat (d div bs_tofBin s + 1) = D div b + 1"
    using unat_Suc_u32 [of "d div bs_tofBin s"] q small' by simp
  show ?thesis
  proof (cases "D mod b = 0")
    case True
    have "d div bs_tofBin s + 1 < 2 \<longleftrightarrow> D div b = 0" using n by (auto simp: word_less_nat_alt)
    then show ?thesis
      using True n r q
      by (auto simp: bins_of_def tof_bins_def Let_def d_def [symmetric])
  next
    case False
    have "b \<noteq> 1" "b \<noteq> 0" using False b0 by (auto simp: b_def unat_eq_0)
    then have "D div b \<le> D div 2" by (intro div_le_mono2) auto
    then have n2: "unat (d div bs_tofBin s + 1 + 1) = D div b + 2"
      using unat_Suc_u32 [of "d div bs_tofBin s + 1"] n small' by simp
    then have "\<not> d div bs_tofBin s + 1 + 1 < 2" by (simp add: word_less_nat_alt)
    moreover have "unat (d div bs_tofBin s + 1 + 1 - 1) = D div b + 1"
      unfolding add_diff_cancel_right' by (rule n)
    ultimately show ?thesis
      using False r by (simp add: bins_of_def tof_bins_def Let_def d_def [symmetric] del: add_diff_cancel_right')
  qed
qed

lemma bin_in_range:
  assumes "bs_tofBin s \<noteq> 0" "bs_tofMax s - bs_tofOffset s < 0xffffffff" "in_window s e"
  shows "bin_of s e < bins_of s"
proof -
  let ?D = "unat (bs_tofMax s) - unat (bs_tofOffset s)" and ?b = "unat (bs_tofBin s)"
  let ?t = "unat (tof e) div 10 - unat (bs_tofOffset s)"
  have w: "unat (bs_tofOffset s) \<le> unat (tof e) div 10" "unat (tof e) div 10 < unat (bs_tofMax s)"
    using assms(3) by (simp_all add: in_window_def word_le_nat_alt word_less_nat_alt unat_div)
  then have "bs_tofOffset s < bs_tofMax s" "?t < ?D" by (simp_all add: word_less_nat_alt)
  note n = bins_of_nat [OF assms(1) this(1) assms(2)]
  have b: "0 < ?b" using assms(1) by (simp add: unat_gt_0)
  have "?t div ?b < (if ?D mod ?b = 0 then ?D div ?b else ?D div ?b + 1)"
  proof (cases "?D mod ?b = 0")
    case True
    then have "?t < ?D div ?b * ?b" using \<open>?t < ?D\<close> by auto
    then show ?thesis using True b by (simp add: less_mult_imp_div_less)
  next
    case False
    then show ?thesis using \<open>?t < ?D\<close> by (simp add: div_le_mono less_imp_le le_imp_less_Suc)
  qed
  then show ?thesis unfolding n bin_of_def by simp
qed

section \<open>Places of the pixels\<close>

lemma unat_diff_inj [simp]: "unat (p - b :: u32) = unat (q - b) \<longleftrightarrow> p = q"
  by (metis diff_add_cancel unat_eq_nat_uint word_uint_eqI uint_nat)

lemma fill_offsets_spec:
  assumes "distinct pids" "\<forall>p \<in> set pids. unat (p - base) < length t \<and> t ! unat (p - base) = - 1"
  shows "length (fill_offsets base bins off pids t) = length t"
    "k < length pids \<Longrightarrow>
     fill_offsets base bins off pids t ! unat (pids ! k - base) = sint (of_nat (off + k) * (bins - 1))"
    "\<forall>p \<in> set pids. unat (p - base) \<noteq> i \<Longrightarrow> fill_offsets base bins off pids t ! i = t ! i"
proof -
  have "length (fill_offsets base bins off pids t) = length t \<and>
    (\<forall>k < length pids.
       fill_offsets base bins off pids t ! unat (pids ! k - base) = sint (of_nat (off + k) * (bins - 1))) \<and>
    (\<forall>i. (\<forall>p \<in> set pids. unat (p - base) \<noteq> i) \<longrightarrow> fill_offsets base bins off pids t ! i = t ! i)"
    using assms
  proof (induction pids arbitrary: off t)
    case (Cons p pids)
    let ?i = "unat (p - base)" and ?v = "sint (of_nat off * (bins - 1))"
    have other: "unat (p' - base) \<noteq> ?i" if "p' \<in> set pids" for p'
      using that Cons.prems(1) by auto
    have step: "fill_offsets base bins off (p # pids) t = fill_offsets base bins (Suc off) pids (t[?i := ?v])"
      using Cons.prems(2) by (simp add: Let_def)
    have rest: "\<forall>p' \<in> set pids. unat (p' - base) < length (t[?i := ?v]) \<and> t[?i := ?v] ! unat (p' - base) = - 1"
      using Cons.prems(2) other by (auto simp: nth_list_update)
    note IH = Cons.IH [OF _ rest, of "Suc off"]
    have here: "fill_offsets base bins (Suc off) pids (t[?i := ?v]) ! ?i = ?v"
      using IH Cons.prems other by auto
    show ?case
      unfolding step using IH here Cons.prems other by (auto simp: nth_Cons ac_simps split: nat.splits)
  qed simp
  then show "length (fill_offsets base bins off pids t) = length t"
    "k < length pids \<Longrightarrow>
     fill_offsets base bins off pids t ! unat (pids ! k - base) = sint (of_nat (off + k) * (bins - 1))"
    "\<forall>p \<in> set pids. unat (p - base) \<noteq> i \<Longrightarrow> fill_offsets base bins off pids t ! i = t ! i" by blast+
qed

lemma sint_small_u32:
  assumes "n < 2147483648" "unat (w :: u32) = n"
  shows "sint w = int n"
proof -
  have "uint w = int n" using assms(2) by (simp add: uint_nat)
  then show ?thesis using assms(1) by (simp add: sint_uint signed_take_bit_int_eq_self)
qed

lemma place_word:
  assumes "k < n" "n * unat (w :: u32) < 2147483648"
  shows "unat (of_nat k * w) = k * unat w" "sint (of_nat k * w) = int (k * unat w)"
proof -
  have "k * unat w \<le> n * unat w" using assms(1) by (simp add: mult_le_mono1)
  then have less: "k * unat w < 2147483648" using assms(2) by (rule order_le_less_trans)
  show u: "unat (of_nat k * w) = k * unat w"
  proof (cases "w = 0")
    case False
    then have "k * 1 \<le> k * unat w" by (intro mult_le_mono2) (simp add: Suc_leI unat_gt_0)
    then have "k < 4294967296" using less by linarith
    then have "unat (of_nat k :: u32) = k" by (rule unat_of_nat_u32)
    then show ?thesis using less by (simp add: unat_word_ariths)
  qed simp
  show "sint (of_nat k * w) = int (k * unat w)" by (rule sint_small_u32 [OF less u])
qed

definition histo_ready :: "bank_set \<Rightarrow> u32 list \<Rightarrow> histogram \<Rightarrow> bool" where
  "histo_ready s pids h \<longleftrightarrow>
     num_tof_bins h = tof_bins (bs_tofOffset s) (bs_tofMax s) (bs_tofBin s) \<and> tof_bin_size h = bs_tofBin s \<and>
     (\<forall>k < length pids. unat (pids ! k - base_pid h) < length (pid_offset h) \<and>
        pid_offset h ! unat (pids ! k - base_pid h) = int (k * bins_of s)) \<and>
     (\<forall>p. p \<notin> set pids \<longrightarrow> unat (p - base_pid h) < length (pid_offset h) \<longrightarrow>
        pid_offset h ! unat (p - base_pid h) = - 1) \<and>
     length (data_buffer h) = bins_of s * length pids"

lemma offset_in_range:
  fixes p lo hi :: u32
  assumes "lo \<le> p" "p \<le> hi" "hi \<noteq> 0xffffffff"
  shows "unat (p - lo) < unat (hi - lo + 1)"
proof -
  have lh: "lo \<le> hi" using assms(1,2) by (rule order_trans)
  have "unat hi \<noteq> unat (0xffffffff :: u32)" using assms(3) by (metis uint_nat word_uint_eqI)
  then have "unat hi < 4294967295" using unat_u32_less [of hi] by (simp add: nat_less_le)
  then have "unat (hi - lo) < 4294967295" by (simp add: unat_sub [OF lh] less_imp_diff_less)
  then show ?thesis
    using assms(1,2) by (simp add: unat_Suc_u32 unat_sub lh word_le_nat_alt diff_le_mono le_imp_less_Suc)
qed

lemma new_histogram_ready:
  assumes "bs_tofBin s \<noteq> 0" "pids \<noteq> []" "distinct pids" "0xffffffff \<notin> set pids"
    and room: "length pids * bins_of s < 2147483648"
  obtains h where "new_histogram False s pids = Inr h" "histo_ready s pids h"
    "data_buffer h = replicate (bins_of s * length pids) 0" "histo_counted h = 0" "histo_uncounted h = 0"
    "base_pid h = Min (set pids)" "length (pid_offset h) = unat (Max (set pids) - Min (set pids) + 1)"
proof -
  let ?lo = "Min (set pids)" and ?hi = "Max (set pids)"
  let ?bins = "tof_bins (bs_tofOffset s) (bs_tofMax s) (bs_tofBin s)"
  let ?t = "fill_offsets ?lo ?bins 0 pids (replicate (unat (?hi - ?lo + 1)) (- 1))"
  have "?hi \<in> set pids" using assms(2) by simp
  then have "?hi \<noteq> 0xffffffff" using assms(4) by metis
  then have in_t: "unat (p - ?lo) < unat (?hi - ?lo + 1)" if "p \<in> set pids" for p
    using that by (intro offset_in_range) auto
  then have fresh: "\<forall>p \<in> set pids. unat (p - ?lo) < length (replicate (unat (?hi - ?lo + 1)) (- 1 :: int)) \<and>
      replicate (unat (?hi - ?lo + 1)) (- 1 :: int) ! unat (p - ?lo) = - 1" by simp
  note t = fill_offsets_spec [OF assms(3) fresh, where bins = ?bins and off = 0]
  have at: "?t ! unat (pids ! k - ?lo) = int (k * bins_of s)" if "k < length pids" for k
    using t(2) [OF that] place_word(2) [OF that, of "?bins - 1"] room by (simp add: bins_of_def)
  have away: "?t ! unat (p - ?lo) = - 1" if "p \<notin> set pids" "unat (p - ?lo) < unat (?hi - ?lo + 1)" for p
  proof -
    have "\<forall>q \<in> set pids. unat (q - ?lo) \<noteq> unat (p - ?lo)" using that(1) by (auto simp: unat_diff_inj)
    then show ?thesis using t(3) that(2) by simp
  qed
  let ?h = "\<lparr>num_tof_bins = ?bins, tof_bin_size = bs_tofBin s, base_pid = ?lo, pid_offset = ?t,
    data_buffer = replicate (unat (?bins - 1) * length pids) 0, histo_counted = 0, histo_uncounted = 0\<rparr>"
  have "new_histogram False s pids = Inr ?h"
    using assms(1) by (simp add: new_histogram_def Let_def)
  moreover have "histo_ready s pids ?h"
    using at away in_t t(1) by (simp add: histo_ready_def bins_of_def)
  ultimately show ?thesis
    using t(1) by (intro that [of ?h]) (simp_all add: bins_of_def)
qed

section \<open>Events\<close>

lemma histo_event_hit:
  assumes ready: "histo_ready s pids h" and k: "k < length pids" "pixel e = pids ! k" and win: "in_window s e"
    and b0: "bs_tofBin s \<noteq> 0" and small: "bs_tofMax s - bs_tofOffset s < 0xffffffff"
    and room: "length pids * bins_of s < 2147483648"
  shows "k * bins_of s + bin_of s e < length (data_buffer h)"
    "histo_event s e h = Inr (h\<lparr>data_buffer := (data_buffer h)[k * bins_of s + bin_of s e :=
       data_buffer h ! (k * bins_of s + bin_of s e) + 1], histo_counted := histo_counted h + 1\<rparr>)"
proof -
  let ?N = "bins_of s" and ?tb = "(tof e div 10 - bs_tofOffset s) div bs_tofBin s"
  have r: "num_tof_bins h = tof_bins (bs_tofOffset s) (bs_tofMax s) (bs_tofBin s)" "tof_bin_size h = bs_tofBin s"
    "unat (pids ! k - base_pid h) < length (pid_offset h)"
    "pid_offset h ! unat (pids ! k - base_pid h) = int (k * ?N)" "length (data_buffer h) = ?N * length pids"
    using ready k(1) by (auto simp: histo_ready_def)
  have bin: "bin_of s e < ?N" by (rule bin_in_range [OF b0 small win])
  have tb: "unat ?tb = bin_of s e"
    using win by (simp add: bin_of_def unat_div in_window_def unat_sub)
  have "(k + 1) * ?N \<le> length pids * ?N" using k(1) by (intro mult_le_mono1) simp
  then have ix: "k * ?N + bin_of s e < length pids * ?N" using bin by simp
  then show inside: "k * ?N + bin_of s e < length (data_buffer h)" by (simp add: r(5) mult.commute)
  have u: "unat (of_int (int (k * ?N)) + ?tb) = k * ?N + bin_of s e"
  proof -
    have "k * ?N + bin_of s e < 4294967296" using ix room by simp
    moreover from this have place: "unat (of_nat (k * ?N) :: u32) = k * ?N" by (intro unat_of_nat_u32) simp
    ultimately have "unat (of_nat (k * ?N) + ?tb) = unat (of_nat (k * ?N) :: u32) + unat ?tb"
      by (intro unat_plus_u32) (simp only: tb)
    then show ?thesis
      unfolding tb using place by (simp only: of_int_of_nat_eq)
  qed
  have "\<not> num_tof_bins h - 1 \<le> ?tb"
    using bin by (simp add: word_le_nat_alt tb r(1) bins_of_def)
  then show "histo_event s e h = Inr (h\<lparr>data_buffer := (data_buffer h)[k * ?N + bin_of s e :=
       data_buffer h ! (k * ?N + bin_of s e) + 1], histo_counted := histo_counted h + 1\<rparr>)"
    using win r(2-4) inside b0
    by (simp add: histo_event_def Let_def k(2) in_window_def u del: of_int_of_nat_eq of_nat_mult)
qed

lemma histo_event_miss:
  assumes "histo_ready s pids h" "unat (pixel e - base_pid h) < length (pid_offset h)"
    and "pixel e \<notin> set pids \<or> \<not> in_window s e"
  shows "histo_event s e h = Inr (h\<lparr>histo_uncounted := histo_uncounted h + 1\<rparr>)"
  using assms by (auto simp: histo_event_def Let_def histo_ready_def in_window_def)

definition counted_events :: "bank_set \<Rightarrow> u32 list \<Rightarrow> event list \<Rightarrow> nat" where
  "counted_events s pids es = length (List.filter (\<lambda>e. pixel e \<in> set pids \<and> in_window s e) es)"

lemma histo_events_count:
  assumes dist: "distinct pids"
    and b0: "bs_tofBin s \<noteq> 0" and small: "bs_tofMax s - bs_tofOffset s < 0xffffffff"
    and room: "length pids * bins_of s < 2147483648"
    and "histo_ready s pids h" "\<forall>e \<in> set es. unat (pixel e - base_pid h) < length (pid_offset h)"
  shows "\<exists>h'. histo_events s es h = Inr h' \<and>
    (\<forall>k < length pids. \<forall>j < bins_of s. data_buffer h' ! (k * bins_of s + j) =
       data_buffer h ! (k * bins_of s + j) + of_nat (events_in s (pids ! k) j es)) \<and>
    histo_counted h' = histo_counted h + of_nat (counted_events s pids es) \<and>
    histo_uncounted h' = histo_uncounted h + of_nat (length es - counted_events s pids es)"
  using assms(5,6)
proof (induction es arbitrary: h)
  case (Cons e es)
  have le: "counted_events s pids es \<le> length es" by (simp add: counted_events_def)
  show ?case
  proof (cases "pixel e \<in> set pids \<and> in_window s e")
    case True
    then obtain k where k: "k < length pids" "pixel e = pids ! k" by (metis in_set_conv_nth)
    let ?i = "k * bins_of s + bin_of s e"
    note hit = histo_event_hit [OF Cons.prems(1) k conjunct2 [OF True] b0 small room]
    let ?h = "h\<lparr>data_buffer := (data_buffer h)[?i := data_buffer h ! ?i + 1], histo_counted := histo_counted h + 1\<rparr>"
    have "histo_ready s pids ?h" using Cons.prems(1) by (simp add: histo_ready_def)
    then obtain h' where h': "histo_events s es ?h = Inr h'"
      "\<forall>k < length pids. \<forall>j < bins_of s. data_buffer h' ! (k * bins_of s + j) =
         data_buffer ?h ! (k * bins_of s + j) + of_nat (events_in s (pids ! k) j es)"
      "histo_counted h' = histo_counted ?h + of_nat (counted_events s pids es)"
      "histo_uncounted h' = histo_uncounted ?h + of_nat (length es - counted_events s pids es)"
      using Cons.IH [of ?h] Cons.prems(2) by auto
    have "data_buffer h' ! (m * bins_of s + j) =
         data_buffer h ! (m * bins_of s + j) + of_nat (events_in s (pids ! m) j (e # es))"
      if mj: "m < length pids" "j < bins_of s" for m j
    proof (cases "m = k \<and> j = bin_of s e")
      case True
      then show ?thesis
        using h'(2) mj hit(1) k \<open>pixel e \<in> set pids \<and> in_window s e\<close> by (simp add: events_in_def)
    next
      case False
      have "?i \<noteq> m * bins_of s + j"
        using False digits_unique [OF bin_in_range [OF b0 small conjunct2 [OF True]] mj(2), of k m]
        by (auto simp: ac_simps)
      moreover have "\<not> (pixel e = pids ! m \<and> bin_of s e = j)"
        using False k mj(1) dist by (auto simp: nth_eq_iff_index_eq)
      ultimately show ?thesis using h'(2) mj by (auto simp: events_in_def)
    qed
    then show ?thesis
      using hit(2) h'(1,3,4) True by (intro exI [of _ h']) (simp add: counted_events_def)
  next
    case False
    let ?h = "h\<lparr>histo_uncounted := histo_uncounted h + 1\<rparr>"
    have "histo_ready s pids ?h" using Cons.prems(1) by (simp add: histo_ready_def)
    then obtain h' where h': "histo_events s es ?h = Inr h'"
      "\<forall>k < length pids. \<forall>j < bins_of s. data_buffer h' ! (k * bins_of s + j) =
         data_buffer ?h ! (k * bins_of s + j) + of_nat (events_in s (pids ! k) j es)"
      "histo_counted h' = histo_counted ?h + of_nat (counted_events s pids es)"
      "histo_uncounted h' = histo_uncounted ?h + of_nat (length es - counted_events s pids es)"
      using Cons.IH [of ?h] Cons.prems(2) by auto
    have "histo_event s e h = Inr ?h"
      by (rule histo_event_miss [OF Cons.prems(1)]) (use False Cons.prems(2) in auto)
    moreover have "events_in s (pids ! k) j (e # es) = events_in s (pids ! k) j es" if "k < length pids" for k j
      using False that by (auto simp: events_in_def)
    moreover have "counted_events s pids (e # es) = counted_events s pids es"
      using False by (simp add: counted_events_def)
    ultimately show ?thesis using h' le by (intro exI [of _ h']) (simp add: Suc_diff_le)
  qed
qed (simp add: events_in_def counted_events_def)


definition sample_set :: bank_set where
  "sample_set =
     \<lparr>bs_name = None, bs_banklist = [1], bs_flags = HISTO_FORMAT, bs_tofOffset = 0, bs_tofMax = 25, bs_tofBin = 10,
      bs_throttle = 0, bs_suffix = None\<rparr>"

definition sample_hits :: "event list" where
  "sample_hits = [\<lparr>tof = 120, pixel = 7\<rparr>, \<lparr>tof = 300, pixel = 7\<rparr>, \<lparr>tof = 40, pixel = 6\<rparr>]"


end
