(* ===== verification/Bank_Sets.thy ===== *)
theory Bank_Sets
  imports Bank_Histogram
begin

text \<open>
  The detector bank sets: what the translation service does with the packet that says which banks
  are kept as events, as histograms, as both or not at all (\<open>stc/StreamParser.cpp\<close>).
\<close>

unbundle bit_operations_syntax

section \<open>Model\<close>

fun read_banklist :: "bytes \<Rightarrow> (u32 \<times> u32) list \<Rightarrow> nat \<Rightarrow> nat list \<Rightarrow> pkt_error + u32 list" where
  "read_banklist mem offs i [] = Inr []"
| "read_banklist mem offs i (k # ks) =
     sbind (set_bank mem offs i k) (\<lambda>b. sbind (read_banklist mem offs i ks) (\<lambda>bs. Inr (b # bs)))"

definition read_set :: "bytes \<Rightarrow> (u32 \<times> u32) list \<Rightarrow> nat \<Rightarrow> pkt_error + bank_set" where
  "read_set mem offs i =
     sbind (set_bankCount mem offs i) (\<lambda>n.
     sbind (read_banklist mem offs i [0 ..< unat n]) (\<lambda>bs.
     sbind (set_name mem offs i) (\<lambda>nm.
     sbind (set_flags mem offs i) (\<lambda>fl.
     sbind (set_tofOffset mem offs i) (\<lambda>off.
     sbind (set_tofMax mem offs i) (\<lambda>mx.
     sbind (set_tofBin mem offs i) (\<lambda>bin.
     sbind (set_throttle mem offs i) (\<lambda>thr.
     sbind (set_suffix mem offs i) (\<lambda>suf.
       Inr \<lparr>bs_name = nm, bs_banklist = bs, bs_flags = fl, bs_tofOffset = off, bs_tofMax = mx, bs_tofBin = bin,
            bs_throttle = thr, bs_suffix = suf\<rparr>)))))))))"

text \<open>
  The sanity checks. The code clears a flag with \<open>!(HISTO_FORMAT)\<close>, a logical negation: the value is
  0 or 1, and not the mask of the other bits.
\<close>

definition logical_not :: "u32 \<Rightarrow> u32" where
  "logical_not w = (if w = 0 then 1 else 0)"

definition check_set :: "bank_set \<Rightarrow> bank_set" where
  "check_set s =
     (let s1 = (if bs_tofOffset s \<ge> bs_tofMax s
                then s\<lparr>bs_flags := bs_flags s AND logical_not HISTO_FORMAT\<rparr> else s) in
      if bs_tofBin s1 < 1 then s1\<lparr>bs_tofBin := 1\<rparr> else s1)"

definition add_set :: "bank_set \<Rightarrow> 'f bank_info \<Rightarrow> 'f bank_info" where
  "add_set s bi = bi\<lparr>bi_sets := bi_sets bi @ replicate (count_list (bs_banklist s) (bi_id bi)) s\<rparr>"

definition associateDetectorBankSet :: "bank_set \<Rightarrow> 'f stc \<Rightarrow> 'f stc" where
  "associateDetectorBankSet s S =
     S\<lparr>stc_banks_arr := map_option (List.map (map_option (add_set s))) (stc_banks_arr S)\<rparr>"

definition getDetectorBankSets :: "bank_set list \<Rightarrow> u32 \<Rightarrow> bank_set list" where
  "getDetectorBankSets sets bank = concat (List.map (\<lambda>s. replicate (count_list (bs_banklist s) bank) s) sets)"

fun rx_sets ::
    "bytes \<Rightarrow> (u32 \<times> u32) list \<Rightarrow> nat list \<Rightarrow> bank_set list \<times> 'f stc \<Rightarrow> pkt_error + (bank_set list \<times> 'f stc)" where
  "rx_sets mem offs [] st = Inr st"
| "rx_sets mem offs (i # is) (sets, S) =
     sbind (read_set mem offs i) (\<lambda>s.
       rx_sets mem offs is (sets @ [check_set s], associateDetectorBankSet (check_set s) S))"

definition rx_DetectorBankSets ::
    "bytes \<Rightarrow> bank_set list \<times> 'f stc \<Rightarrow> pkt_error + (bank_set list \<times> 'f stc)" where
  "rx_DetectorBankSets mem st =
     sbind (DetectorBankSetsPkt mem) (\<lambda>(h, offs). rx_sets mem offs [0 ..< length offs] st)"

section \<open>Checked sets\<close>

definition set_ok :: "bank_set \<Rightarrow> bool" where
  "set_ok s \<longleftrightarrow> bs_tofBin s \<noteq> 0 \<and> (bs_flags s AND HISTO_FORMAT \<noteq> 0 \<longrightarrow> bs_tofOffset s < bs_tofMax s)"

lemma check_set_ok: "set_ok (check_set s)"
  by (auto simp: set_ok_def check_set_def Let_def logical_not_def HISTO_FORMAT_def word_less_1)

definition sets_ok :: "bank_set list \<times> 'f stc \<Rightarrow> bool" where
  "sets_ok st \<longleftrightarrow> (\<forall>s \<in> set (fst st). set_ok s) \<and>
     (\<forall>arr bi. stc_banks_arr (snd st) = Some arr \<longrightarrow> Some bi \<in> set arr \<longrightarrow> (\<forall>s \<in> set (bi_sets bi). set_ok s))"

lemma add_set_ok:
  assumes "sets_ok (sets, S)" "set_ok s"
  shows "sets_ok (sets @ [s], associateDetectorBankSet s S)"
proof -
  have "\<forall>s' \<in> set (bi_sets bi). set_ok s'"
    if "stc_banks_arr (associateDetectorBankSet s S) = Some arr" "Some bi \<in> set arr" for arr bi
  proof -
    note a = that
    obtain arr0 where arr0: "stc_banks_arr S = Some arr0" "arr = List.map (map_option (add_set s)) arr0"
      using a(1) by (auto simp: associateDetectorBankSet_def)
    obtain bi0 where "Some bi0 \<in> set arr0" "bi = add_set s bi0"
      using a(2) arr0(2) by (auto simp: map_option_case split: option.splits)
    then show ?thesis using assms arr0(1) by (auto simp: sets_ok_def add_set_def)
  qed
  then show ?thesis using assms by (simp add: sets_ok_def)
qed

lemma rx_sets_ok: "rx_sets mem offs is st = Inr st' \<Longrightarrow> sets_ok st \<Longrightarrow> sets_ok st'"
proof (induction mem offs "is" st rule: rx_sets.induct)
  case (2 mem offs i "is" sets S)
  then obtain s where s: "read_set mem offs i = Inr s"
    and st': "rx_sets mem offs is (sets @ [check_set s], associateDetectorBankSet (check_set s) S) = Inr st'"
    by (auto simp: sbind_eq_Inr)
  show ?case by (rule "2.IH" [OF st' add_set_ok [OF "2.prems"(2) check_set_ok]])
qed simp

lemma new_histogram_total: "bs_tofBin s \<noteq> 0 \<Longrightarrow> \<exists>h. new_histogram end_of_run s pids = Inr h"
  by (simp add: new_histogram_def Let_def)

lemma init_sets_total: "\<forall>s \<in> set ss. set_ok s \<Longrightarrow> \<exists>bi'. init_sets end_of_run ss bi = Inr bi'"
proof (induction end_of_run ss bi rule: init_sets.induct)
  case (2 end_of_run s ss bi)
  then show ?case
    using new_histogram_total [of s end_of_run "bi_logical bi"] by (auto simp: set_ok_def Let_def)
qed simp

text \<open>
  Whatever sets a packet asks for, every bank they are associated with can be initialised: the
  sets that are kept have a bin size, so no division by zero, and a window for the histogram.
\<close>

theorem bank_sets_initialise:
  assumes "sets_ok st" "rx_DetectorBankSets mem st = Inr st'"
    and "stc_banks_arr (snd st') = Some arr" "Some bi \<in> set arr"
  shows "sets_ok st' \<and> (\<exists>bi'. initializeBank end_of_run bi = Inr bi' \<and> bi_initialized bi')"
proof -
  have ok: "sets_ok st'"
    using assms(1,2) by (auto simp: rx_DetectorBankSets_def sbind_eq_Inr dest: rx_sets_ok)
  then have "\<forall>s \<in> set (bi_sets bi). set_ok s" using assms(3,4) by (auto simp: sets_ok_def)
  from init_sets_total [OF this, of end_of_run bi] show ?thesis
    using ok by (auto simp: initializeBank_def)
qed

section \<open>A window that is empty\<close>

lemma empty_window_flags: "bs_tofMax s \<le> bs_tofOffset s \<Longrightarrow> bs_flags (check_set s) = 0"
  by (simp add: check_set_def Let_def logical_not_def HISTO_FORMAT_def)

text \<open>
  A set for events and histograms whose window is empty is announced as restricted to events.
  The logical negation clears the event format too: a bank with this set alone stores no event at
  all, and its events are counted neither as counted nor as uncounted.
\<close>

theorem empty_window_loses_events:
  assumes "bs_tofMax s \<le> bs_tofOffset s" "bi_sets bi = [check_set s]" "\<not> bi_initialized bi"
    and "\<not> bi_has_event bi" "bi_histo bi = None"
  shows "\<exists>bi'. store_bank T usec blank ready pulse es bi = Inr bi' \<and> bi_events bi' = bi_events bi \<and>
    bi_histo bi' = None \<and> count_events bank n True (bi_has_event bi') m = 
      (if bank = UNMAPPED_BANK_ID then m\<lparr>events_unmapped := events_unmapped m + n\<rparr>
       else if bank = ERROR_BANK_ID then m\<lparr>events_error := events_error m + n\<rparr> else m)"
  using assms empty_window_flags [OF assms(1)]
  by (auto simp: store_bank_def initializeBank_def Let_def count_events_def UNMAPPED_BANK_ID_def ERROR_BANK_ID_def)

section \<open>Samples\<close>

text \<open>A packet with one set: bank 1, events and histogram, an empty window and no bin size.\<close>

definition sample_sets_packet :: bytes where
  "sample_sets_packet = words_bytes
     [68, adara_pkt_type (type_code DETECTOR_BANK_SETS_TYPE) 0, 1000, 0,
      1, 0x61, 0, 0, 0, 3, 1, 1, 100, 50, 0, 0, 0, 0, 0, 0, 0]"

definition sample_read_set :: bank_set where
  "sample_read_set =
     \<lparr>bs_name = Some [0x61], bs_banklist = [1], bs_flags = 3, bs_tofOffset = 100, bs_tofMax = 50, bs_tofBin = 0,
      bs_throttle = 0, bs_suffix = Some []\<rparr>"

lemma sample_sets_packet_read:
  "DetectorBankSetsPkt sample_sets_packet = Inr (header_at sample_sets_packet, [(1, 8)])"
  "read_set sample_sets_packet [(1, 8)] 0 = Inr sample_read_set"
  by code_simp+

theorem bank_sets_initialise_witness:
  "\<exists>st' arr bi bi'. rx_DetectorBankSets sample_sets_packet ([], ten_banks) = Inr st' \<and>
     stc_banks_arr (snd st') = Some arr \<and> bi_sets bi = [check_set sample_read_set] \<and> Some bi \<in> set arr \<and>
     initializeBank False bi = Inr bi' \<and> bi_initialized bi'"
proof -
  let ?s = "check_set sample_read_set"
  let ?bi = "add_set ?s (makeBankInfo 1 0) :: u32 bank_info"
  let ?arr = "(replicate 13 None)[3 := Some ?bi]"
  have rx: "rx_DetectorBankSets sample_sets_packet ([], ten_banks) =
      Inr ([?s], associateDetectorBankSet ?s ten_banks)"
    by (simp add: rx_DetectorBankSets_def sample_sets_packet_read)
  have arr: "stc_banks_arr (snd ([?s], associateDetectorBankSet ?s ten_banks)) = Some ?arr"
    by (simp add: associateDetectorBankSet_def ten_banks_def map_update)
  have mem: "Some ?bi \<in> set ?arr" by (simp add: set_update_memI)
  have sets: "bi_sets ?bi = [?s]"
    by (simp add: add_set_def makeBankInfo_def check_set_def sample_read_set_def)
  have "sets_ok ([], ten_banks)"
    by (auto simp: sets_ok_def ten_banks_def makeBankInfo_def dest!: set_update_subset_insert [THEN subsetD])
  from bank_sets_initialise [OF this rx arr mem, of False] show ?thesis
    using rx arr mem sets by blast
qed

theorem empty_window_loses_events_witness:
  "\<exists>bi'. store_bank \<lparr>event_thresh = 2, anc_thresh = 3\<rparr> id (0, 0) True 1 sample_hits
      ((makeBankInfo 1 0 :: u32 bank_info)\<lparr>bi_sets := [check_set sample_read_set]\<rparr>) = Inr bi' \<and>
    all_stored (bi_events bi') = []"
  using empty_window_loses_events
    [of sample_read_set "(makeBankInfo 1 0 :: u32 bank_info)\<lparr>bi_sets := [check_set sample_read_set]\<rparr>"
       "\<lparr>event_thresh = 2, anc_thresh = 3\<rparr>" id "(0, 0)" True 1 sample_hits
       1 3 "stc_metrics ten_banks"]
  by (auto simp: sample_read_set_def makeBankInfo_def new_indexed_def all_stored_def)

end
