(* ===== verification/Event_Family.thy ===== *)
theory Event_Family
  imports Event_Index
begin

text \<open>
  The contract that the banks and the monitors of the translation service share: a table of event
  buffers under keys, and a call that adds the events of the current pulse to the buffer of one key,
  makes it when it is not there, and leaves the others alone. What a run of pulses leaves in the
  buffers follows from the contract alone.
\<close>

section \<open>The calls of one pulse\<close>

fun run_calls :: "('k \<Rightarrow> 'c \<Rightarrow> 's \<Rightarrow> 'e + 's) \<Rightarrow> ('k \<times> 'c) list \<Rightarrow> 's \<Rightarrow> 'e + 's" where
  "run_calls call [] S = Inr S"
| "run_calls call ((k, c) # cs) S = sbind (call k c S) (run_calls call cs)"

text \<open>The histories of the keys after a pulse.\<close>

definition add_pulse ::
    "('c \<Rightarrow> 'a list) \<Rightarrow> nat \<Rightarrow> ('k \<times> 'c) list \<Rightarrow> ('k \<Rightarrow> 'a history) \<Rightarrow> 'k \<Rightarrow> 'a history" where
  "add_pulse vals n cs H k = (case map_of cs k of None \<Rightarrow> H k | Some c \<Rightarrow> H k @ [(n, vals c)])"

lemma sorted_add_pulse:
  assumes "sorted_wrt (<) (List.map fst h)" "last_pulse h < n"
  shows "sorted_wrt (<) (List.map fst (h @ [(n, v)]))"
  using assms last_pulse_max [OF assms(1)] by (auto simp: sorted_wrt_append intro: order_le_less_trans)

section \<open>The history of a key in a run of pulses\<close>

text \<open>\<open>v p\<close> are the values of the key in pulse \<open>p\<close>, if it is called there; pulses count from 1.\<close>

definition pulse_history :: "('p \<Rightarrow> 'a list option) \<Rightarrow> 'p list \<Rightarrow> 'a history" where
  "pulse_history v ps =
     concat (List.map (\<lambda>(i, p). case v p of None \<Rightarrow> [] | Some x \<Rightarrow> [(i, x)]) (List.enumerate 1 ps))"

definition values_in :: "('p \<Rightarrow> 'a list option) \<Rightarrow> 'p list \<Rightarrow> 'a list" where
  "values_in v ps = concat (List.map (\<lambda>p. case v p of None \<Rightarrow> [] | Some x \<Rightarrow> x) ps)"

lemma pulse_history_Nil [simp]: "pulse_history v [] = []"
  by (simp add: pulse_history_def)

lemma pulse_history_snoc:
  "pulse_history v (ps @ [p]) =
     pulse_history v ps @ (case v p of None \<Rightarrow> [] | Some x \<Rightarrow> [(Suc (length ps), x)])"
  by (simp add: pulse_history_def enumerate_append_eq)

lemma pulse_history_last: "x \<in> set (pulse_history v ps) \<Longrightarrow> fst x \<le> length ps"
  by (induction ps rule: rev_induct) (auto simp: pulse_history_snoc le_Suc_eq split: option.splits)

lemma last_pulse_history: "last_pulse (pulse_history v ps) \<le> length ps"
  using pulse_history_last [OF last_in_set] by (auto simp: last_pulse_def)

lemma all_values_history: "all_values (pulse_history v ps) = values_in v ps"
  by (induction ps rule: rev_induct)
    (auto simp: pulse_history_snoc all_values_def values_in_def split: option.splits)

lemma events_upto_history: "events_upto (pulse_history v ps) k = length (values_in v (take k ps))"
proof (induction ps rule: rev_induct)
  case (snoc p ps)
  have "events_upto (h @ h') k = events_upto h k + events_upto h' k" for h h' :: "'b history"
    by (simp add: events_upto_def)
  moreover have "values_in v (take k (ps @ [p])) =
      values_in v (take k ps) @ (if length ps < k then values_in v [p] else [])"
    by (simp add: values_in_def take_Cons')
  ultimately show ?case
    using snoc by (auto simp: pulse_history_snoc events_upto_def values_in_def split: option.splits)
qed (simp add: events_upto_def values_in_def)

lemma index_upto_history:
  "index_upto (pulse_history v ps) n = List.map (\<lambda>k. of_nat (length (values_in v (take k ps)))) [0 ..< n]"
  by (simp add: index_upto_def events_upto_history)

locale event_family =
  fixes content :: "'s \<Rightarrow> 'k \<Rightarrow> 'a indexed"
    and pulse_of :: "'s \<Rightarrow> u64"
    and frame :: "'s \<Rightarrow> 'x"
    and call :: "bool \<Rightarrow> 'k \<Rightarrow> 'c \<Rightarrow> 's \<Rightarrow> 'e + 's"
    and vals :: "'c \<Rightarrow> 'a list"
    and good :: "'s \<Rightarrow> 'k \<Rightarrow> 'c \<Rightarrow> bool"
    and T :: thresholds
    and blank :: 'a
  assumes call_adds: "good S k c \<Longrightarrow> add_events T blank ready (pulse_of S) (vals c) (content S k) = Some d \<Longrightarrow>
      \<exists>S'. call ready k c S = Inr S' \<and> content S' k = d \<and> (\<forall>k'. k' \<noteq> k \<longrightarrow> content S' k' = content S k') \<and>
        pulse_of S' = pulse_of S \<and> frame S' = frame S \<and> (\<forall>k' c'. good S k' c' \<longrightarrow> good S' k' c')"
begin

lemma calls_ok:
  assumes "\<And>k. indexed_ok (H k) (content S k)" "\<And>k. sorted_wrt (<) (List.map fst (H k))"
    and "\<And>k. k \<in> fst ` set cs \<Longrightarrow> last_pulse (H k) < unat (pulse_of S)"
    and "distinct (List.map fst cs)" "\<forall>(k, c) \<in> set cs. good S k c"
  shows "\<exists>S'. run_calls (call ready) cs S = Inr S' \<and> pulse_of S' = pulse_of S \<and> frame S' = frame S \<and> (\<forall>k c. good S k c \<longrightarrow> good S' k c) \<and>
    (\<forall>k. indexed_ok (add_pulse vals (unat (pulse_of S)) cs H k) (content S' k) \<and>
       sorted_wrt (<) (List.map fst (add_pulse vals (unat (pulse_of S)) cs H k)))"
  using assms
proof (induction cs arbitrary: S H)
  case Nil
  then show ?case by (simp add: add_pulse_def)
next
  case (Cons kc cs)
  obtain k c where kc: "kc = (k, c)" by fastforce
  let ?n = "unat (pulse_of S)" and ?H = "H(k := H k @ [(unat (pulse_of S), vals c)])"
  have "last_pulse (H k) < ?n" using Cons.prems(3) by (simp add: kc)
  note srt = sorted_add_pulse [OF Cons.prems(2) this, of "vals c"]
  have "pulse_of S \<noteq> 0" using \<open>last_pulse (H k) < ?n\<close> by auto
  from add_events_spec [OF Cons.prems(1) srt this] obtain d where
    d: "add_events T blank ready (pulse_of S) (vals c) (content S k) = Some d"
      "indexed_ok (H k @ [(?n, vals c)]) d" by metis
  have "good S k c" using Cons.prems(5) by (simp add: kc)
  from call_adds [OF this d(1)] obtain S1 where S1: "call ready k c S = Inr S1" "content S1 k = d"
    "\<And>k'. k' \<noteq> k \<Longrightarrow> content S1 k' = content S k'" "pulse_of S1 = pulse_of S" "frame S1 = frame S" "\<And>k' c'. good S k' c' \<Longrightarrow> good S1 k' c'" by auto
  have k: "k \<notin> fst ` set cs" using Cons.prems(4) by (simp add: kc)
  have "\<exists>S'. run_calls (call ready) cs S1 = Inr S' \<and> pulse_of S' = pulse_of S1 \<and> frame S' = frame S1 \<and> (\<forall>k c. good S1 k c \<longrightarrow> good S' k c) \<and>
    (\<forall>k. indexed_ok (add_pulse vals (unat (pulse_of S1)) cs ?H k) (content S' k) \<and>
       sorted_wrt (<) (List.map fst (add_pulse vals (unat (pulse_of S1)) cs ?H k)))"
  proof (rule Cons.IH)
    show "indexed_ok (?H k') (content S1 k')" for k' using d(2) S1(2,3) Cons.prems(1) by simp
    show "sorted_wrt (<) (List.map fst (?H k'))" for k' using srt Cons.prems(2) by simp
    show "last_pulse (?H k') < unat (pulse_of S1)" if "k' \<in> fst ` set cs" for k'
      using that k Cons.prems(3) by (auto simp: S1(4))
    show "distinct (List.map fst cs)" "\<forall>(k', c') \<in> set cs. good S1 k' c'"
      using Cons.prems(4,5) S1(6) by auto
  qed
  moreover have "add_pulse vals ?n cs ?H = add_pulse vals ?n (kc # cs) H"
  proof
    fix k'
    have "map_of cs k = None" using k by (simp add: map_of_eq_None_iff)
    then show "add_pulse vals ?n cs ?H k' = add_pulse vals ?n (kc # cs) H k'"
      by (cases "k' = k") (simp_all add: add_pulse_def kc split: option.splits)
  qed
  ultimately show ?case using S1(6) by (auto simp: kc S1(1,4,5))
qed

end

end
