(* ===== verification/Monitor_Events.thy ===== *)
theory Monitor_Events
  imports Bank_Histogram Event_Family Ordered_Map
begin

text \<open>
  The beam monitors of the translation service: \<open>MonitorInfo\<close> (\<open>stc/stcdefs.h\<close>), the configuration
  packet and \<open>processMonitorEvents\<close> (\<open>stc/StreamParser.cpp\<close>).
\<close>

unbundle bit_operations_syntax

section \<open>Model\<close>

record monitor_config =
  mc_id :: u32
  mc_format :: u32
  mc_tofOffset :: u32
  mc_tofMax :: u32
  mc_tofBin :: u32
  mc_distance :: u64

record 'f monitor_info =
  mi_id :: u16
  mi_config :: monitor_config
  mi_events :: "'f indexed"
  mi_uncounted :: u64
  mi_num_tof_bins :: u32
  mi_data :: "u32 list"

record 'f monitors =
  mon_configs :: "monitor_config list"
  mon_map :: "(u32, 'f monitor_info) omap"
  non_events_counted :: u64

definition new_monitors :: "'f monitors" where
  "new_monitors = \<lparr>mon_configs = [], mon_map = [], non_events_counted = 0\<rparr>"

definition is_histo :: "monitor_config \<Rightarrow> bool" where
  "is_histo cfg \<longleftrightarrow> mc_format cfg = HISTO_FORMAT"

text \<open>The number of bins of a monitor without a histogram is not set and not used, here 0.\<close>

definition makeMonitorInfo :: "u32 \<Rightarrow> monitor_config \<Rightarrow> stc_error + 'f monitor_info" where
  "makeMonitorInfo mid cfg =
     (if is_histo cfg \<and> mc_tofBin cfg = 0 then Inl Division_By_Zero
      else let bins = (if is_histo cfg then tof_bins (mc_tofOffset cfg) (mc_tofMax cfg) (mc_tofBin cfg) else 0) in
        Inr \<lparr>mi_id = ucast mid, mi_config = cfg, mi_events = new_indexed, mi_uncounted = 0, mi_num_tof_bins = bins,
             mi_data = (if is_histo cfg then replicate (unat (bins - 1)) 0 else [])\<rparr>)"

definition default_config :: "u32 \<Rightarrow> monitor_config" where
  "default_config mid =
     \<lparr>mc_id = mid, mc_format = EVENT_FORMAT, mc_tofOffset = 0, mc_tofMax = - 1, mc_tofBin = - 1, mc_distance = 0\<rparr>"

definition getBeamMonitorConfig :: "monitor_config list \<Rightarrow> u32 \<Rightarrow> monitor_config" where
  "getBeamMonitorConfig cfgs mid =
     (case List.find (\<lambda>c. mc_id c = mid) cfgs of Some c \<Rightarrow> c | None \<Rightarrow> default_config mid)"

subsection \<open>The configuration packet\<close>

definition read_config :: "bytes \<Rightarrow> bool \<Rightarrow> nat \<Rightarrow> pkt_error + monitor_config" where
  "read_config mem force_event i =
     sbind (bmon_bmonId mem i) (\<lambda>mid.
     sbind (if force_event then Inr EVENT_FORMAT else bmon_format mem i) (\<lambda>fmt.
     sbind (bmon_tofOffset mem i) (\<lambda>off.
     sbind (bmon_tofMax mem i) (\<lambda>mx.
     sbind (bmon_tofBin mem i) (\<lambda>bin.
     sbind (bmon_distance mem i) (\<lambda>dist.
       Inr \<lparr>mc_id = mid, mc_format = fmt, mc_tofOffset = off, mc_tofMax = mx, mc_tofBin = bin,
            mc_distance = dist\<rparr>))))))"

definition check_config :: "monitor_config \<Rightarrow> monitor_config" where
  "check_config cfg =
     (let c1 = (if mc_tofOffset cfg \<ge> mc_tofMax cfg \<and> is_histo cfg
                then cfg\<lparr>mc_format := EVENT_FORMAT\<rparr> else cfg) in
      if mc_tofBin c1 < 1 then c1\<lparr>mc_tofBin := 1\<rparr> else c1)"

text \<open>A monitor that is known already keeps its definition; the list of configurations grows all the same.\<close>

definition add_config :: "monitor_config \<Rightarrow> 'f monitors \<Rightarrow> stc_error + 'f monitors" where
  "add_config cfg M =
     (let M1 = M\<lparr>mon_configs := mon_configs M @ [cfg]\<rparr> in
      case map_of (mon_map M1) (mc_id cfg) of
        Some mi \<Rightarrow> Inr M1
      | None \<Rightarrow> sbind (makeMonitorInfo (mc_id cfg) cfg) (\<lambda>mi.
          Inr (M1\<lparr>mon_map := om_insert (mc_id cfg) mi (mon_map M1)\<rparr>)))"

definition or_outside :: "pkt_error + 'a \<Rightarrow> stc_error + 'a" where
  "or_outside r = (case r of Inl _ \<Rightarrow> Inl Read_Outside | Inr x \<Rightarrow> Inr x)"

fun add_configs :: "bytes \<Rightarrow> bool \<Rightarrow> nat list \<Rightarrow> 'f monitors \<Rightarrow> stc_error + 'f monitors" where
  "add_configs mem force_event [] M = Inr M"
| "add_configs mem force_event (i # is) M =
     sbind (or_outside (read_config mem force_event i)) (\<lambda>cfg.
     sbind (add_config (check_config cfg) M) (add_configs mem force_event is))"

definition rx_BeamMonitorConfig :: "bytes \<Rightarrow> 'f monitors \<Rightarrow> stc_error + 'f monitors" where
  "rx_BeamMonitorConfig mem M =
     sbind (or_outside (bmon_countFormats mem)) (\<lambda>(events, histos).
       add_configs mem (events > 0 \<and> histos > 0) [0 ..< unat (bmon_count mem)] M)"

subsection \<open>Events\<close>

definition find_monitor :: "u32 \<Rightarrow> 'f monitors \<Rightarrow> stc_error + 'f monitor_info" where
  "find_monitor mid M =
     (case map_of (mon_map M) mid of
        Some mi \<Rightarrow> Inr mi
      | None \<Rightarrow> makeMonitorInfo mid (getBeamMonitorConfig (mon_configs M) mid))"

definition monitor_histo_event :: "u32 \<Rightarrow> 'f monitor_info \<Rightarrow> stc_error + 'f monitor_info" where
  "monitor_histo_event w mi =
     (let t = (w AND 0x1fffff) div 10; c = mi_config mi in
      if mc_tofOffset c \<le> t \<and> t < mc_tofMax c
      then if mc_tofBin c = 0 then Inl Division_By_Zero
        else let tofbin = (t - mc_tofOffset c) div mc_tofBin c in
          if tofbin \<ge> mi_num_tof_bins mi - 1 then Inr (mi\<lparr>mi_uncounted := mi_uncounted mi + 1\<rparr>)
          else if length (mi_data mi) \<le> unat tofbin then Inl Write_Outside
          else Inr (mi\<lparr>mi_data := (mi_data mi)[unat tofbin := mi_data mi ! unat tofbin + 1],
                       mi_events := (mi_events mi)\<lparr>m_event_count := m_event_count (mi_events mi) + 1\<rparr>\<rparr>)
      else Inr (mi\<lparr>mi_uncounted := mi_uncounted mi + 1\<rparr>))"

fun monitor_histo_events :: "u32 list \<Rightarrow> 'f monitor_info \<Rightarrow> stc_error + 'f monitor_info" where
  "monitor_histo_events [] mi = Inr mi"
| "monitor_histo_events (w # ws) mi = sbind (monitor_histo_event w mi) (monitor_histo_events ws)"

definition monitor_values :: "(u32 \<Rightarrow> 'f) \<Rightarrow> u32 list \<Rightarrow> 'f list" where
  "monitor_values usec ws = List.map (\<lambda>w. usec (w AND 0x1fffff)) ws"

definition store_monitor ::
    "thresholds \<Rightarrow> (u32 \<Rightarrow> 'f) \<Rightarrow> 'f \<Rightarrow> bool \<Rightarrow> u64 \<Rightarrow> u32 list \<Rightarrow> 'f monitor_info \<Rightarrow> stc_error + 'f monitor_info" where
  "store_monitor T usec blank ready pulse ws mi =
     (if is_histo (mi_config mi) then monitor_histo_events ws mi
      else case add_events T blank ready pulse (monitor_values usec ws) (mi_events mi) of
             None \<Rightarrow> Inl Write_Outside
           | Some d \<Rightarrow> Inr (mi\<lparr>mi_events := d\<rparr>))"

definition processMonitorEvents ::
    "thresholds \<Rightarrow> (u32 \<Rightarrow> 'f) \<Rightarrow> 'f \<Rightarrow> bool \<Rightarrow> u64 \<Rightarrow> u32 \<Rightarrow> u32 list \<Rightarrow> 'f monitors \<Rightarrow> stc_error + 'f monitors" where
  "processMonitorEvents T usec blank ready pulse mid ws M =
     sbind (find_monitor mid M) (\<lambda>mi.
     sbind (store_monitor T usec blank ready pulse ws mi) (\<lambda>mi1.
       Inr (M\<lparr>mon_map := om_upsert mid mi (\<lambda>_. mi1) (mon_map M)\<rparr>)))"

text \<open>One section of the packet, with the count of the run metrics.\<close>

definition monitor_call ::
    "thresholds \<Rightarrow> (u32 \<Rightarrow> 'f) \<Rightarrow> 'f \<Rightarrow> u64 \<Rightarrow> bool \<Rightarrow> u16 \<Rightarrow> u32 list \<Rightarrow> 'f monitors \<Rightarrow> stc_error + 'f monitors" where
  "monitor_call T usec blank pulse ready mid ws M =
     sbind (processMonitorEvents T usec blank ready pulse (ucast mid) ws M) (\<lambda>M1.
       Inr (M1\<lparr>non_events_counted := non_events_counted M1 + of_nat (length ws)\<rparr>))"

text \<open>The end of the run: only monitors whose format is exactly that of events are written out.\<close>

definition finish_monitor :: "thresholds \<Rightarrow> u64 \<Rightarrow> 'f monitor_info \<Rightarrow> 'f monitor_info" where
  "finish_monitor T pulse mi =
     (if mc_format (mi_config mi) = EVENT_FORMAT then mi\<lparr>mi_events := finish_events T pulse (mi_events mi)\<rparr> else mi)"

section \<open>Histograms of monitors\<close>

definition config_ok :: "monitor_config \<Rightarrow> bool" where
  "config_ok c \<longleftrightarrow> mc_tofBin c \<noteq> 0 \<and> (is_histo c \<longrightarrow> mc_tofOffset c < mc_tofMax c)"

definition monitor_ok :: "'f monitor_info \<Rightarrow> bool" where
  "monitor_ok mi \<longleftrightarrow> config_ok (mi_config mi) \<and>
     (is_histo (mi_config mi) \<longrightarrow>
        mi_num_tof_bins mi = tof_bins (mc_tofOffset (mi_config mi)) (mc_tofMax (mi_config mi)) (mc_tofBin (mi_config mi)) \<and>
        length (mi_data mi) = unat (mi_num_tof_bins mi - 1)) \<and>
     m_buffer_size (mi_events mi) \<le> length (m_buffer (mi_events mi))"

definition monitors_ok :: "'f monitors \<Rightarrow> bool" where
  "monitors_ok M \<longleftrightarrow> om_ok (mon_map M) \<and> (\<forall>c \<in> set (mon_configs M). config_ok c) \<and>
     (\<forall>mid mi. map_of (mon_map M) mid = Some mi \<longrightarrow> monitor_ok mi)"

lemma monitors_ok_new: "monitors_ok new_monitors"
  by (simp add: monitors_ok_def new_monitors_def)

lemma check_config_ok: "config_ok (check_config cfg)"
  by (auto simp: config_ok_def check_config_def Let_def is_histo_def EVENT_FORMAT_def HISTO_FORMAT_def word_less_1)

lemma makeMonitorInfo_ok:
  assumes "config_ok cfg"
  obtains mi where "makeMonitorInfo mid cfg = Inr mi" "monitor_ok mi" "mi_config mi = cfg"
    "mi_events mi = new_indexed"
  using assms by (auto simp: makeMonitorInfo_def Let_def monitor_ok_def config_ok_def new_indexed_def)

lemma default_config_ok: "config_ok (default_config mid)"
  by (simp add: config_ok_def default_config_def is_histo_def EVENT_FORMAT_def HISTO_FORMAT_def)

lemma getBeamMonitorConfig_ok: "\<forall>c \<in> set cfgs. config_ok c \<Longrightarrow> config_ok (getBeamMonitorConfig cfgs mid)"
  using default_config_ok by (auto simp: getBeamMonitorConfig_def find_Some_iff split: option.splits)

lemma find_monitor_ok:
  assumes "monitors_ok M"
  obtains mi where "find_monitor mid M = Inr mi" "monitor_ok mi"
proof (cases "map_of (mon_map M) mid")
  case None
  have cfg: "config_ok (getBeamMonitorConfig (mon_configs M) mid)"
    using assms by (intro getBeamMonitorConfig_ok) (simp add: monitors_ok_def)
  obtain mi :: "'a monitor_info" where
    "makeMonitorInfo mid (getBeamMonitorConfig (mon_configs M) mid) = Inr mi" "monitor_ok mi"
    by (rule makeMonitorInfo_ok [OF cfg])
  then show ?thesis using None by (intro that [of mi]) (simp_all add: find_monitor_def)
next
  case (Some mi)
  then show ?thesis using assms that by (auto simp: find_monitor_def monitors_ok_def)
qed

lemma add_config_ok:
  assumes "monitors_ok M" "config_ok cfg"
  shows "\<exists>M'. add_config cfg M = Inr M' \<and> monitors_ok M'"
proof (cases "map_of (mon_map M) (mc_id cfg)")
  case None
  obtain mi :: "'a monitor_info" where mi: "makeMonitorInfo (mc_id cfg) cfg = Inr mi" "monitor_ok mi"
    by (rule makeMonitorInfo_ok [OF assms(2)])
  then show ?thesis
    using assms None by (auto simp: add_config_def Let_def monitors_ok_def map_of_om_insert split: if_splits)
next
  case (Some mi)
  then show ?thesis using assms by (auto simp: add_config_def Let_def monitors_ok_def)
qed

lemma add_configs_ok:
  "monitors_ok M \<Longrightarrow> add_configs mem force_event is M = Inr M' \<Longrightarrow> monitors_ok M'"
proof (induction mem force_event "is" M rule: add_configs.induct)
  case (2 mem force_event i "is" M)
  then obtain cfg M1 where cfg: "or_outside (read_config mem force_event i) = Inr cfg"
    and M1: "add_config (check_config cfg) M = Inr M1" "add_configs mem force_event is M1 = Inr M'"
    by (auto simp: sbind_eq_Inr)
  have "monitors_ok M1" using add_config_ok [OF "2.prems"(1) check_config_ok] M1(1) by (metis sum.inject(2))
  then show ?case using "2.IH" M1(2) by blast
qed simp

text \<open>The window and the bin of an event, as for a bank.\<close>

definition as_set :: "monitor_config \<Rightarrow> bank_set" where
  "as_set c =
     \<lparr>bs_name = None, bs_banklist = [], bs_flags = mc_format c, bs_tofOffset = mc_tofOffset c, bs_tofMax = mc_tofMax c,
      bs_tofBin = mc_tofBin c, bs_throttle = 0, bs_suffix = None\<rparr>"

definition as_event :: "u32 \<Rightarrow> event" where
  "as_event w = \<lparr>tof = w AND 0x1fffff, pixel = 0\<rparr>"

lemma monitor_event_hit:
  assumes "monitor_ok mi" "is_histo (mi_config mi)" "mc_tofMax (mi_config mi) - mc_tofOffset (mi_config mi) < 0xffffffff"
    and win: "in_window (as_set (mi_config mi)) (as_event w)"
  defines "j \<equiv> bin_of (as_set (mi_config mi)) (as_event w)"
  shows "j < length (mi_data mi)"
    "monitor_histo_event w mi = Inr (mi\<lparr>mi_data := (mi_data mi)[j := mi_data mi ! j + 1],
       mi_events := (mi_events mi)\<lparr>m_event_count := m_event_count (mi_events mi) + 1\<rparr>\<rparr>)"
proof -
  let ?c = "mi_config mi" and ?tb = "((w AND 0x1fffff) div 10 - mc_tofOffset (mi_config mi)) div mc_tofBin (mi_config mi)"
  have bin0: "mc_tofBin ?c \<noteq> 0" and len: "length (mi_data mi) = unat (mi_num_tof_bins mi - 1)"
    and bins: "unat (mi_num_tof_bins mi - 1) = bins_of (as_set ?c)"
    using assms(1,2) by (simp_all add: monitor_ok_def config_ok_def bins_of_def as_set_def)
  have win': "mc_tofOffset ?c \<le> (w AND 0x1fffff) div 10" "(w AND 0x1fffff) div 10 < mc_tofMax ?c"
    using win by (simp_all add: in_window_def as_set_def as_event_def)
  have tb: "unat ?tb = j"
    unfolding j_def bin_of_def as_set_def as_event_def using win'(1)
    by (simp add: unat_div unat_sub)
  have "j < bins_of (as_set ?c)"
    unfolding j_def using bin0 assms(3) win by (intro bin_in_range) (simp_all add: as_set_def)
  then show j: "j < length (mi_data mi)" by (simp add: len bins)
  then have "\<not> mi_num_tof_bins mi - 1 \<le> ?tb" by (simp add: word_le_nat_alt tb len)
  then show "monitor_histo_event w mi = Inr (mi\<lparr>mi_data := (mi_data mi)[j := mi_data mi ! j + 1],
       mi_events := (mi_events mi)\<lparr>m_event_count := m_event_count (mi_events mi) + 1\<rparr>\<rparr>)"
    using win' bin0 j by (simp add: monitor_histo_event_def Let_def tb)
qed

lemma monitor_event_miss:
  "\<not> in_window (as_set (mi_config mi)) (as_event w) \<Longrightarrow>
   monitor_histo_event w mi = Inr (mi\<lparr>mi_uncounted := mi_uncounted mi + 1\<rparr>)"
  by (auto simp: monitor_histo_event_def Let_def in_window_def as_set_def as_event_def)

lemma monitor_events_count:
  assumes "monitor_ok mi" "is_histo (mi_config mi)" "mc_tofMax (mi_config mi) - mc_tofOffset (mi_config mi) < 0xffffffff"
  defines "s \<equiv> as_set (mi_config mi)"
  defines "counted \<equiv> \<lambda>ws. length (List.filter (\<lambda>w. in_window s (as_event w)) ws)"
  shows "\<exists>mi'. monitor_histo_events ws mi = Inr mi' \<and> monitor_ok mi' \<and> mi_config mi' = mi_config mi \<and>
    (\<forall>j < length (mi_data mi). mi_data mi' ! j = mi_data mi ! j + of_nat (events_in s 0 j (List.map as_event ws))) \<and>
    m_event_count (mi_events mi') = m_event_count (mi_events mi) + of_nat (counted ws) \<and>
    mi_uncounted mi' = mi_uncounted mi + of_nat (length ws - counted ws)"
  using assms(1-3) unfolding s_def counted_def
proof (induction ws arbitrary: mi)
  case (Cons w ws)
  let ?s = "as_set (mi_config mi)"
  have le: "length (List.filter (\<lambda>w. in_window ?s (as_event w)) ws) \<le> length ws" by simp
  show ?case
  proof (cases "in_window ?s (as_event w)")
    case True
    let ?j = "bin_of ?s (as_event w)"
    let ?mi = "mi\<lparr>mi_data := (mi_data mi)[?j := mi_data mi ! ?j + 1],
       mi_events := (mi_events mi)\<lparr>m_event_count := m_event_count (mi_events mi) + 1\<rparr>\<rparr>"
    note hit = monitor_event_hit [OF Cons.prems True]
    have "monitor_ok ?mi" "is_histo (mi_config ?mi)" using Cons.prems by (simp_all add: monitor_ok_def)
    from Cons.IH [OF this] Cons.prems(3) obtain mi' where
      mi': "monitor_histo_events ws ?mi = Inr mi'" "monitor_ok mi'" "mi_config mi' = mi_config mi"
        "\<forall>j < length (mi_data mi). mi_data mi' ! j =
           mi_data ?mi ! j + of_nat (events_in ?s 0 j (List.map as_event ws))"
        "m_event_count (mi_events mi') = m_event_count (mi_events mi) + 1 +
           of_nat (length (List.filter (\<lambda>w. in_window ?s (as_event w)) ws))"
        "mi_uncounted mi' = mi_uncounted mi + of_nat (length ws - length (List.filter (\<lambda>w. in_window ?s (as_event w)) ws))"
      by auto
    have "mi_data mi' ! j = mi_data mi ! j + of_nat (events_in ?s 0 j (List.map as_event (w # ws)))"
      if "j < length (mi_data mi)" for j
      using that mi'(4) hit(1) True by (auto simp: events_in_def nth_list_update as_event_def)
    then show ?thesis
      using hit(2) mi'(1,2,3,5,6) True by (intro exI [of _ mi']) simp
  next
    case False
    let ?mi = "mi\<lparr>mi_uncounted := mi_uncounted mi + 1\<rparr>"
    have "monitor_ok ?mi" "is_histo (mi_config ?mi)" using Cons.prems by (simp_all add: monitor_ok_def)
    from Cons.IH [OF this] Cons.prems(3) obtain mi' where
      mi': "monitor_histo_events ws ?mi = Inr mi'" "monitor_ok mi'" "mi_config mi' = mi_config mi"
        "\<forall>j < length (mi_data mi). mi_data mi' ! j =
           mi_data mi ! j + of_nat (events_in ?s 0 j (List.map as_event ws))"
        "m_event_count (mi_events mi') = m_event_count (mi_events mi) +
           of_nat (length (List.filter (\<lambda>w. in_window ?s (as_event w)) ws))"
        "mi_uncounted mi' = mi_uncounted mi + 1 +
           of_nat (length ws - length (List.filter (\<lambda>w. in_window ?s (as_event w)) ws))"
      by auto
    then show ?thesis
      using monitor_event_miss [OF False] False le
      by (intro exI [of _ mi']) (simp add: events_in_def Suc_diff_le)
  qed
qed (simp add: events_in_def)

section \<open>The table of monitors\<close>

lemma map_of_put_monitor:
  assumes "om_ok m"
  shows "map_of (om_upsert k v0 (\<lambda>_. v) m) k' = (if k' = k then Some v else map_of m k')"
  using assms by (simp add: map_of_om_upsert)

lemma put_monitor_ok:
  assumes "monitors_ok M" "monitor_ok mi"
  shows "monitors_ok (M\<lparr>mon_map := om_upsert mid mi0 (\<lambda>_. mi) (mon_map M)\<rparr>)"
  using assms by (auto simp: monitors_ok_def map_of_put_monitor om_upsert_ok split: if_splits)

lemma store_monitor_total:
  assumes "monitor_ok mi"
  shows "\<exists>mi'. store_monitor T usec blank ready pulse ws mi = Inr mi' \<and> monitor_ok mi' \<and> mi_config mi' = mi_config mi"
proof (cases "is_histo (mi_config mi)")
  case True
  have step: "\<exists>mi'. monitor_histo_event w mi = Inr mi' \<and> monitor_ok mi' \<and> mi_config mi' = mi_config mi"
    if "monitor_ok mi" "is_histo (mi_config mi)" for w and mi :: "'a monitor_info"
    using that by (auto simp: monitor_histo_event_def Let_def monitor_ok_def config_ok_def not_le word_less_nat_alt)
  have "\<exists>mi'. monitor_histo_events ws mi = Inr mi' \<and> monitor_ok mi' \<and> mi_config mi' = mi_config mi"
    using assms True
  proof (induction ws arbitrary: mi)
    case (Cons w ws)
    then show ?case using step [of mi w] by fastforce
  qed simp
  then show ?thesis using True by (simp add: store_monitor_def)
next
  case False
  have "m_buffer_size (mi_events mi) \<le> length (m_buffer (mi_events mi))" using assms by (simp add: monitor_ok_def)
  from add_events_effect [OF this] obtain d where
    "add_events T blank ready pulse (monitor_values usec ws) (mi_events mi) = Some d" "m_buffer_size d \<le> length (m_buffer d)"
    by metis
  then show ?thesis using False assms by (simp add: store_monitor_def monitor_ok_def)
qed

lemma processMonitorEvents_ok:
  assumes "monitors_ok M"
  shows "\<exists>M'. processMonitorEvents T usec blank ready pulse mid ws M = Inr M' \<and> monitors_ok M'"
proof -
  obtain mi where mi: "find_monitor mid M = Inr mi" "monitor_ok mi" by (rule find_monitor_ok [OF assms])
  obtain mi' where "store_monitor T usec blank ready pulse ws mi = Inr mi'" "monitor_ok mi'"
    using store_monitor_total [OF mi(2)] by metis
  then show ?thesis using mi(1) put_monitor_ok [OF assms] by (simp add: processMonitorEvents_def)
qed

definition monitor_content :: "'f monitors \<Rightarrow> u16 \<Rightarrow> 'f indexed" where
  "monitor_content M mid =
     (case map_of (mon_map M) (ucast mid) of None \<Rightarrow> new_indexed | Some mi \<Rightarrow> mi_events mi)"

definition event_monitor :: "'f monitors \<Rightarrow> u16 \<Rightarrow> bool" where
  "event_monitor M mid \<longleftrightarrow> monitors_ok M \<and>
     \<not> is_histo (case map_of (mon_map M) (ucast mid) of
        None \<Rightarrow> getBeamMonitorConfig (mon_configs M) (ucast mid) | Some mi \<Rightarrow> mi_config mi)"

lemma ucast_u16_u32: "(ucast (ucast (a :: u16) :: u32) :: u16) = a"
  by (rule bit_word_eqI) (auto simp: bit_simps dest: bit_imp_le_length)

lemma ucast_u16_inj [simp]: "(ucast (a :: u16) :: u32) = ucast b \<longleftrightarrow> a = b"
  by (metis ucast_u16_u32)

lemma find_event_monitor:
  assumes "event_monitor M mid"
  obtains mi where "find_monitor (ucast mid) M = Inr mi" "monitor_ok mi" "\<not> is_histo (mi_config mi)"
    "mi_events mi = monitor_content M mid"
proof (cases "map_of (mon_map M) (ucast mid :: u32)")
  case None
  have ok: "monitors_ok M" using assms by (simp add: event_monitor_def)
  have "config_ok (getBeamMonitorConfig (mon_configs M) (ucast mid))"
    using ok by (intro getBeamMonitorConfig_ok) (simp add: monitors_ok_def)
  from makeMonitorInfo_ok [OF this] obtain mi :: "'a monitor_info" where
    "makeMonitorInfo (ucast mid) (getBeamMonitorConfig (mon_configs M) (ucast mid)) = Inr mi" "monitor_ok mi"
    "mi_config mi = getBeamMonitorConfig (mon_configs M) (ucast mid)" "mi_events mi = new_indexed" by metis
  then show ?thesis
    using None assms by (intro that [of mi]) (simp_all add: find_monitor_def monitor_content_def event_monitor_def)
next
  case (Some mi)
  then show ?thesis
    using assms that [of mi] by (auto simp: event_monitor_def find_monitor_def monitor_content_def monitors_ok_def)
qed

lemma monitor_call_adds:
  assumes good: "event_monitor M mid"
    and d: "add_events T blank ready pulse (monitor_values usec ws) (monitor_content M mid) = Some d"
  shows "\<exists>M'. monitor_call T usec blank pulse ready mid ws M = Inr M' \<and> monitor_content M' mid = d \<and>
    (\<forall>mid'. mid' \<noteq> mid \<longrightarrow> monitor_content M' mid' = monitor_content M mid') \<and>
    event_monitor M' = event_monitor M"
proof -
  obtain mi where mi: "find_monitor (ucast mid) M = Inr mi" "monitor_ok mi" "\<not> is_histo (mi_config mi)"
    "mi_events mi = monitor_content M mid" by (rule find_event_monitor [OF good])
  have ok: "monitors_ok M" using good by (simp add: event_monitor_def)
  then have om: "om_ok (mon_map M)" by (simp add: monitors_ok_def)
  let ?mi = "mi\<lparr>mi_events := d\<rparr>"
  let ?m = "om_upsert (ucast mid) mi (\<lambda>_. ?mi) (mon_map M)"
  let ?M = "M\<lparr>mon_map := ?m, non_events_counted := non_events_counted M + of_nat (length ws)\<rparr>"
  have "monitor_ok ?mi"
  proof -
    have "m_buffer_size (mi_events mi) \<le> length (m_buffer (mi_events mi))" using mi(2) by (simp add: monitor_ok_def)
    from add_events_effect [OF this, of T blank ready pulse "monitor_values usec ws"]
    have "m_buffer_size d \<le> length (m_buffer d)" using d mi(4) by (metis option.inject)
    then show ?thesis using mi(2) by (simp add: monitor_ok_def)
  qed
  from put_monitor_ok [OF ok this] have ok': "monitors_ok ?M" by (simp add: monitors_ok_def)
  have look: "map_of ?m k = (if k = ucast mid then Some ?mi else map_of (mon_map M) k)" for k
    by (rule map_of_put_monitor [OF om])
  have "monitor_call T usec blank pulse ready mid ws M = Inr ?M"
    using mi d by (simp add: monitor_call_def processMonitorEvents_def store_monitor_def)
  moreover have "event_monitor ?M = event_monitor M"
    using good mi(3) ok ok' by (auto simp: event_monitor_def look fun_eq_iff split: option.splits)
  ultimately show ?thesis by (auto simp: monitor_content_def look)
qed

interpretation monitor_family: event_family monitor_content "\<lambda>_. pulse" "\<lambda>_. ()"
  "\<lambda>ready mid ws. monitor_call T usec blank pulse ready mid ws" "monitor_values usec" "\<lambda>M mid ws. event_monitor M mid" T blank
  for pulse T usec blank
  by unfold_locales (use monitor_call_adds in metis)

section \<open>Properties\<close>

text \<open>Configuration packets and sections of events in any order.\<close>

datatype monitor_input =
    Configure bytes
  | Section bool u64 u32 "u32 list"

fun monitor_op :: "thresholds \<Rightarrow> (u32 \<Rightarrow> 'f) \<Rightarrow> 'f \<Rightarrow> monitor_input \<Rightarrow> 'f monitors \<Rightarrow> stc_error + 'f monitors" where
  "monitor_op T usec blank (Configure mem) M = rx_BeamMonitorConfig mem M"
| "monitor_op T usec blank (Section ready pulse mid ws) M = processMonitorEvents T usec blank ready pulse mid ws M"

fun monitor_ops :: "thresholds \<Rightarrow> (u32 \<Rightarrow> 'f) \<Rightarrow> 'f \<Rightarrow> monitor_input list \<Rightarrow> 'f monitors \<Rightarrow> stc_error + 'f monitors" where
  "monitor_ops T usec blank [] M = Inr M"
| "monitor_ops T usec blank (p # ops) M = sbind (monitor_op T usec blank p M) (monitor_ops T usec blank ops)"

lemma or_outside_error: "or_outside r = Inl e \<Longrightarrow> e = Read_Outside"
  by (auto simp: or_outside_def split: sum.splits)

lemma add_configs_error: "monitors_ok M \<Longrightarrow> add_configs mem force_event is M = Inl e \<Longrightarrow> e = Read_Outside"
proof (induction mem force_event "is" M rule: add_configs.induct)
  case (2 mem force_event i "is" M)
  show ?case
  proof (cases "or_outside (read_config mem force_event i)")
    case (Inl e')
    then show ?thesis using "2.prems"(2) or_outside_error by auto
  next
    case (Inr cfg)
    obtain M1 where "add_config (check_config cfg) M = Inr M1" "monitors_ok M1"
      using add_config_ok [OF "2.prems"(1) check_config_ok] by metis
    then show ?thesis using "2.IH" "2.prems"(2) Inr by simp
  qed
qed simp

lemma rx_config_ok: "monitors_ok M \<Longrightarrow> rx_BeamMonitorConfig mem M = Inr M' \<Longrightarrow> monitors_ok M'"
  by (auto simp: rx_BeamMonitorConfig_def sbind_eq_Inr dest: add_configs_ok)

lemma rx_config_error: "monitors_ok M \<Longrightarrow> rx_BeamMonitorConfig mem M = Inl e \<Longrightarrow> e = Read_Outside"
  by (auto simp: rx_BeamMonitorConfig_def sbind_eq_Inl dest: add_configs_error or_outside_error)

text \<open>
  C30. Whatever configuration packets and event sections come, in any order, the table of monitors
  stays well formed, and nothing goes wrong but the reading of a configuration packet whose table
  is not in the packet: no division by zero, no write outside a histogram or an event buffer.
\<close>

theorem monitors_stay_well_formed:
  assumes "monitors_ok M"
  shows "case monitor_ops T usec blank ops M of
      Inl e \<Rightarrow> e = Read_Outside \<and> (\<exists>mem. Configure mem \<in> set ops)
    | Inr M' \<Rightarrow> monitors_ok M'"
  using assms
proof (induction ops arbitrary: M)
  case (Cons p ops)
  show ?case
  proof (cases p)
    case (Configure mem)
    show ?thesis
    proof (cases "rx_BeamMonitorConfig mem M")
      case (Inl e)
      then show ?thesis using rx_config_error [OF Cons.prems Inl] Configure by auto
    next
      case (Inr M1)
      then show ?thesis
        using Cons.IH [OF rx_config_ok [OF Cons.prems Inr]] Configure by (auto split: sum.splits)
    qed
  next
    case (Section ready pulse mid ws)
    obtain M1 where M1: "processMonitorEvents T usec blank ready pulse mid ws M = Inr M1" "monitors_ok M1"
      using processMonitorEvents_ok [OF Cons.prems] by metis
    then show ?thesis using Cons.IH [OF M1(2)] Section by (auto split: sum.splits)
  qed
qed simp

text \<open>
  C29. A monitor with a histogram has in bin \<open>j\<close> the number of its events in the window with their time
  in that bin, added to what was there (32 bits wide); every event is counted once, as counted or
  as uncounted, so the check the code calls impossible never holds.
\<close>

theorem monitor_histogram_exact:
  assumes "monitors_ok M" "map_of (mon_map M) mid = Some mi" "is_histo (mi_config mi)"
    and "mc_tofMax (mi_config mi) - mc_tofOffset (mi_config mi) < 0xffffffff"
  shows "\<exists>M' mi'. processMonitorEvents T usec blank ready pulse mid ws M = Inr M' \<and> map_of (mon_map M') mid = Some mi' \<and>
    (\<forall>j < length (mi_data mi). mi_data mi' ! j =
       mi_data mi ! j + of_nat (events_in (as_set (mi_config mi)) 0 j (List.map as_event ws))) \<and>
    (m_event_count (mi_events mi') + mi_uncounted mi' =
       m_event_count (mi_events mi) + mi_uncounted mi + of_nat (length ws))"
proof -
  have ok: "monitor_ok mi" using assms(1,2) by (auto simp: monitors_ok_def)
  from monitor_events_count [OF ok assms(3,4), of ws] obtain mi' where
    mi': "monitor_histo_events ws mi = Inr mi'"
      "\<forall>j < length (mi_data mi). mi_data mi' ! j =
         mi_data mi ! j + of_nat (events_in (as_set (mi_config mi)) 0 j (List.map as_event ws))"
      "m_event_count (mi_events mi') = m_event_count (mi_events mi) +
         of_nat (length (List.filter (\<lambda>w. in_window (as_set (mi_config mi)) (as_event w)) ws))"
      "mi_uncounted mi' = mi_uncounted mi +
         of_nat (length ws - length (List.filter (\<lambda>w. in_window (as_set (mi_config mi)) (as_event w)) ws))" by blast
  have "processMonitorEvents T usec blank ready pulse mid ws M =
      Inr (M\<lparr>mon_map := om_upsert mid mi (\<lambda>_. mi') (mon_map M)\<rparr>)"
    using assms(2,3) mi'(1) by (simp add: processMonitorEvents_def find_monitor_def store_monitor_def)
  moreover have "map_of (om_upsert mid mi (\<lambda>_. mi') (mon_map M)) mid = Some mi'"
    using assms(1) by (simp add: map_of_put_monitor monitors_ok_def)
  ultimately show ?thesis using mi'(2-4) by (intro exI [of _ mi'] exI conjI) (auto simp: of_nat_diff)
qed

section \<open>Samples\<close>

definition sample_config :: monitor_config where
  "sample_config =
     \<lparr>mc_id = 1, mc_format = HISTO_FORMAT, mc_tofOffset = 0, mc_tofMax = 25, mc_tofBin = 10, mc_distance = 0\<rparr>"

definition sample_monitor :: "u32 monitor_info" where
  "sample_monitor =
     \<lparr>mi_id = 1, mi_config = sample_config, mi_events = new_indexed, mi_uncounted = 0, mi_num_tof_bins = 4,
      mi_data = [0, 0, 0]\<rparr>"

definition sample_monitors :: "u32 monitors" where
  "sample_monitors = \<lparr>mon_configs = [sample_config], mon_map = [(1, sample_monitor)], non_events_counted = 0\<rparr>"

lemma sample_monitors_made: "add_config (check_config sample_config) new_monitors = Inr sample_monitors"
  by code_simp

lemma sample_monitors_ok: "monitors_ok sample_monitors"
  using add_config_ok [OF monitors_ok_new check_config_ok, of sample_config] sample_monitors_made by (metis sum.inject(2))

theorem monitors_stay_well_formed_witness:
  "case monitor_ops \<lparr>event_thresh = 2, anc_thresh = 3\<rparr> id 0 [Section True 1 1 [120], Section True 1 7 [50, 60]] sample_monitors of
      Inl e \<Rightarrow> False
    | Inr M' \<Rightarrow> monitors_ok M'"
  using monitors_stay_well_formed [OF sample_monitors_ok,
      where T = "\<lparr>event_thresh = 2, anc_thresh = 3\<rparr>" and usec = id and blank = 0 and
        ops = "[Section True 1 1 [120], Section True 1 7 [50, 60]]"]
  by (auto split: sum.splits)

theorem monitor_histogram_exact_witness:
  "\<exists>M' mi'. processMonitorEvents \<lparr>event_thresh = 2, anc_thresh = 3\<rparr> id 0 True 1 1 [120, 300, 40] sample_monitors = Inr M' \<and>
     map_of (mon_map M') 1 = Some mi' \<and> mi_data mi' ! 1 = 1 \<and> mi_data mi' ! 0 = 1 \<and> mi_data mi' ! 2 = 0 \<and>
     m_event_count (mi_events mi') + mi_uncounted mi' = 3"
proof -
  have mi: "map_of (mon_map sample_monitors) 1 = Some sample_monitor" by (simp add: sample_monitors_def)
  have c: "is_histo (mi_config sample_monitor)"
    "mc_tofMax (mi_config sample_monitor) - mc_tofOffset (mi_config sample_monitor) < 0xffffffff"
    by code_simp+
  have n: "events_in (as_set (mi_config sample_monitor)) 0 0 (List.map as_event [120, 300, 40]) = 1"
    "events_in (as_set (mi_config sample_monitor)) 0 1 (List.map as_event [120, 300, 40]) = 1"
    "events_in (as_set (mi_config sample_monitor)) 0 2 (List.map as_event [120, 300, 40]) = 0" by code_simp+
  have d: "mi_data sample_monitor = [0, 0, 0]" "mi_events sample_monitor = new_indexed" "mi_uncounted sample_monitor = 0"
    by (simp_all add: sample_monitor_def)
  obtain M' mi' where r: "processMonitorEvents \<lparr>event_thresh = 2, anc_thresh = 3\<rparr> id 0 True 1 1 [120, 300, 40] sample_monitors = Inr M'"
    "map_of (mon_map M') 1 = Some mi'"
    "\<forall>j < length (mi_data sample_monitor). mi_data mi' ! j = mi_data sample_monitor ! j +
       of_nat (events_in (as_set (mi_config sample_monitor)) 0 j (List.map as_event [120, 300, 40]))"
    "m_event_count (mi_events mi') + mi_uncounted mi' =
       m_event_count (mi_events sample_monitor) + mi_uncounted sample_monitor + of_nat (length [120, 300, 40 :: u32])"
    using monitor_histogram_exact [OF sample_monitors_ok mi c] by metis
  have "mi_data mi' ! 0 = 1" "mi_data mi' ! 1 = 1" "mi_data mi' ! 2 = 0"
    using r(3) [rule_format, of 0] r(3) [rule_format, of 1] r(3) [rule_format, of 2] unfolding n d by simp_all
  then show ?thesis using r(1,2,4) by (auto simp: d new_indexed_def)
qed

end
