(* ===== verification/Pulse_Info.thy ===== *)
theory Pulse_Info
  imports Event_Packets
begin

text \<open>
  The pulse times, frequencies, charges and flags that the translation service
  (\<open>processPulseInfo\<close>, \<open>stc/StreamParser.cpp\<close>) collects from the event packets and writes to the
  file. The floating point results are those of the conversions in \<open>doubles\<close>, applied to the
  integers the code computes.
\<close>

section \<open>Model\<close>

record 'd doubles =
  charge_pC :: "u32 \<Rightarrow> 'd"
  seconds :: "u64 \<Rightarrow> 'd"
  hertz :: "u64 \<Rightarrow> 'd"
  zero_d :: 'd

record 'd pulse_info =
  start_time :: u64
  last_time :: u64
  max_time :: u64
  times :: "'d list"
  freqs :: "'d list"
  charges :: "'d list"
  pulse_flag_list :: "u32 list"
  written_times :: "'d list"
  written_freqs :: "'d list"
  written_charges :: "'d list"
  written_flags :: "u32 list"

definition new_pulse_info :: "'d pulse_info" where
  "new_pulse_info =
     \<lparr>start_time = 0, last_time = 0, max_time = 0, times = [], freqs = [], charges = [], pulse_flag_list = [],
      written_times = [], written_freqs = [], written_charges = [], written_flags = []\<rparr>"

definition timespec_to_nsec :: "bytes \<Rightarrow> u64" where
  "timespec_to_nsec mem = ts_sec (header_at mem) * 1000000000 + ts_nsec (header_at mem)"

definition pulseBuffersReady :: "'d pulse_info \<Rightarrow> 'd pulse_info" where
  "pulseBuffersReady I =
     I\<lparr>written_times := written_times I @ times I, written_freqs := written_freqs I @ freqs I,
       written_charges := written_charges I @ charges I, written_flags := written_flags I @ pulse_flag_list I\<rparr>"

definition clear_pulse_info :: "'d pulse_info \<Rightarrow> 'd pulse_info" where
  "clear_pulse_info I = I\<lparr>times := [], freqs := [], charges := [], pulse_flag_list := []\<rparr>"

text \<open>The time of a pulse since the first; a pulse before the first is moved to it.\<close>

definition since :: "u64 \<Rightarrow> u64 \<Rightarrow> u64" where
  "since start t = (if t < start then 0 else t - start)"

definition processPulseInfo :: "'d doubles \<Rightarrow> nat \<Rightarrow> bool \<Rightarrow> bytes \<Rightarrow> 'd pulse_info \<Rightarrow> 'd pulse_info" where
  "processPulseInfo F thresh ready mem I =
     (let I1 = I\<lparr>charges := charges I @ [charge_pC F (pulse_charge mem)],
                 pulse_flag_list := pulse_flag_list I @ [pulse_flags mem]\<rparr>;
          t = since (start_time I) (timespec_to_nsec mem);
          I2 = (if start_time I \<noteq> 0
                then I1\<lparr>times := times I @ [seconds F t], freqs := freqs I @ [hertz F (t - last_time I)],
                        last_time := t, max_time := (if t > max_time I then t else max_time I)\<rparr>
                else I1\<lparr>start_time := timespec_to_nsec mem, last_time := 0, max_time := 0,
                        times := times I @ [zero_d F], freqs := freqs I @ [zero_d F]\<rparr>) in
      if length (times I2) = thresh \<and> ready then clear_pulse_info (pulseBuffersReady I2) else I2)"

fun pulse_infos :: "'d doubles \<Rightarrow> nat \<Rightarrow> (bool \<times> bytes) list \<Rightarrow> 'd pulse_info \<Rightarrow> 'd pulse_info" where
  "pulse_infos F thresh [] I = I"
| "pulse_infos F thresh ((ready, mem) # ps) I = pulse_infos F thresh ps (processPulseInfo F thresh ready mem I)"

section \<open>What is written\<close>

definition all_times :: "'d pulse_info \<Rightarrow> 'd list" where "all_times I = written_times I @ times I"
definition all_freqs :: "'d pulse_info \<Rightarrow> 'd list" where "all_freqs I = written_freqs I @ freqs I"
definition all_charges :: "'d pulse_info \<Rightarrow> 'd list" where "all_charges I = written_charges I @ charges I"
definition all_flags :: "'d pulse_info \<Rightarrow> u32 list" where "all_flags I = written_flags I @ pulse_flag_list I"

text \<open>The differences of neighbours, from a first value on.\<close>

fun steps_from :: "u64 \<Rightarrow> u64 list \<Rightarrow> u64 list" where
  "steps_from prev [] = []"
| "steps_from prev (t # ts) = (t - prev) # steps_from t ts"

lemma processPulseInfo_all:
  "all_charges (processPulseInfo F thresh ready mem I) = all_charges I @ [charge_pC F (pulse_charge mem)]"
  "all_flags (processPulseInfo F thresh ready mem I) = all_flags I @ [pulse_flags mem]"
  "start_time I \<noteq> 0 \<Longrightarrow> all_times (processPulseInfo F thresh ready mem I) =
     all_times I @ [seconds F (since (start_time I) (timespec_to_nsec mem))]"
  "start_time I \<noteq> 0 \<Longrightarrow> all_freqs (processPulseInfo F thresh ready mem I) =
     all_freqs I @ [hertz F (since (start_time I) (timespec_to_nsec mem) - last_time I)]"
  "start_time I \<noteq> 0 \<Longrightarrow> start_time (processPulseInfo F thresh ready mem I) = start_time I"
  "start_time I \<noteq> 0 \<Longrightarrow>
     last_time (processPulseInfo F thresh ready mem I) = since (start_time I) (timespec_to_nsec mem)"
  "start_time I = 0 \<Longrightarrow> all_times (processPulseInfo F thresh ready mem I) = all_times I @ [zero_d F]"
  "start_time I = 0 \<Longrightarrow> all_freqs (processPulseInfo F thresh ready mem I) = all_freqs I @ [zero_d F]"
  "start_time I = 0 \<Longrightarrow> start_time (processPulseInfo F thresh ready mem I) = timespec_to_nsec mem"
  "start_time I = 0 \<Longrightarrow> last_time (processPulseInfo F thresh ready mem I) = 0"
  by (simp_all add: processPulseInfo_def Let_def clear_pulse_info_def pulseBuffersReady_def
      all_charges_def all_flags_def all_times_def all_freqs_def)

lemma pulse_infos_all:
  assumes "start_time I \<noteq> 0"
  shows "all_charges (pulse_infos F thresh ps I) = all_charges I @ List.map (\<lambda>(r, m). charge_pC F (pulse_charge m)) ps"
    "all_flags (pulse_infos F thresh ps I) = all_flags I @ List.map (\<lambda>(r, m). pulse_flags m) ps"
    "all_times (pulse_infos F thresh ps I) =
       all_times I @ List.map (\<lambda>(r, m). seconds F (since (start_time I) (timespec_to_nsec m))) ps"
    "all_freqs (pulse_infos F thresh ps I) = all_freqs I @
       List.map (hertz F) (steps_from (last_time I) (List.map (\<lambda>(r, m). since (start_time I) (timespec_to_nsec m)) ps))"
  using assms by (induction F thresh ps I rule: pulse_infos.induct) (auto simp: processPulseInfo_all)

section \<open>Properties\<close>

text \<open>
  Every pulse has one charge, one flag word, one time and one frequency in the file, in the
  order of the pulses, whenever the working directory became ready: the time is counted from the
  first pulse, and the frequency is the one of the step from the pulse before.
\<close>

theorem pulse_info_complete:
  fixes F :: "'d doubles" and ps :: "(bool \<times> bytes) list" and thresh :: nat and r :: bool
  assumes "timespec_to_nsec m \<noteq> 0"
  defines "start \<equiv> timespec_to_nsec m"
  defines "ts \<equiv> List.map (\<lambda>(r, m'). since start (timespec_to_nsec m')) ps"
  defines "I \<equiv> pulseBuffersReady (pulse_infos F thresh ((r, m) # ps) new_pulse_info)"
  shows "written_charges I = List.map (\<lambda>(r, m'). charge_pC F (pulse_charge m')) ((r, m) # ps) \<and>
    written_flags I = List.map (\<lambda>(r, m'). pulse_flags m') ((r, m) # ps) \<and>
    written_times I = zero_d F # List.map (seconds F) ts \<and>
    written_freqs I = zero_d F # List.map (hertz F) (steps_from 0 ts)"
proof -
  let ?I0 = "processPulseInfo F thresh r m new_pulse_info"
  have start: "start_time (new_pulse_info :: 'd pulse_info) = 0" by (simp add: new_pulse_info_def)
  have empty: "all_charges (new_pulse_info :: 'd pulse_info) = []" "all_flags (new_pulse_info :: 'd pulse_info) = []"
    "all_times (new_pulse_info :: 'd pulse_info) = []" "all_freqs (new_pulse_info :: 'd pulse_info) = []"
    by (simp_all add: new_pulse_info_def all_charges_def all_flags_def all_times_def all_freqs_def)
  note first = processPulseInfo_all [where F = F and thresh = thresh and ready = r and mem = m and I = new_pulse_info, unfolded empty]
  have "start_time ?I0 \<noteq> 0" using first(9) [OF start] assms(1) by simp
  note rest = pulse_infos_all [OF this, where F = F and thresh = thresh and ps = ps]
  have all: "written_charges I = all_charges (pulse_infos F thresh ps ?I0)"
    "written_flags I = all_flags (pulse_infos F thresh ps ?I0)"
    "written_times I = all_times (pulse_infos F thresh ps ?I0)"
    "written_freqs I = all_freqs (pulse_infos F thresh ps ?I0)"
    by (simp_all add: I_def pulseBuffersReady_def all_charges_def all_flags_def all_times_def all_freqs_def)
  show ?thesis
    unfolding all rest first(1,2) first(7,8) [OF start] first(9,10) [OF start] ts_def start_def
    by (simp add: comp_def case_prod_unfold)
qed

text \<open>
  The buffers are written when they have exactly the size of the threshold. If the working
  directory is not ready at that pulse they are not written any more before the end of the run,
  however many pulses come.
\<close>

theorem late_directory_never_written:
  assumes "length (times I) = thresh"
  shows "written_times (pulse_infos F thresh ps I) = written_times I \<and>
    length (times (pulse_infos F thresh ps I)) = thresh + length ps"
proof -
  have "thresh \<le> length (times I) \<Longrightarrow> written_times (pulse_infos F thresh ps I) = written_times I \<and>
    length (times (pulse_infos F thresh ps I)) = length (times I) + length ps" for I :: "'a pulse_info"
  proof (induction F thresh ps I rule: pulse_infos.induct)
    case (2 F thresh ready mem ps I)
    have "length (times (processPulseInfo F thresh ready mem I)) = length (times I) + 1 \<and>
      written_times (processPulseInfo F thresh ready mem I) = written_times I"
      using 2 by (simp add: processPulseInfo_def Let_def)
    then show ?case using 2 by simp
  qed simp
  then show ?thesis using assms by simp
qed

text \<open>Two pulses, the second 16 ms after the first, with integers for the doubles.\<close>

definition sample_doubles :: "u64 doubles" where
  "sample_doubles = \<lparr>charge_pC = ucast, seconds = (\<lambda>t. t), hertz = (\<lambda>t. t), zero_d = 0\<rparr>"

definition sample_pulse_packet :: "u32 \<Rightarrow> bytes" where
  "sample_pulse_packet ns = words_bytes [16, 0, 1000, ns, 5, 0, 0, 0]"

lemma sample_pulse_packet_fields:
  "timespec_to_nsec (sample_pulse_packet 0) = 631153000000000000"
  "timespec_to_nsec (sample_pulse_packet 16000000) = 631153000016000000"
  "pulse_charge (sample_pulse_packet 0) = 5" "pulse_charge (sample_pulse_packet 16000000) = 5"
  "pulse_flags (sample_pulse_packet 0) = 0" "pulse_flags (sample_pulse_packet 16000000) = 0"
  by code_simp+

theorem pulse_info_complete_witness:
  "written_freqs (pulseBuffersReady (pulse_infos sample_doubles 1
     [(False, sample_pulse_packet 0), (True, sample_pulse_packet 16000000)] new_pulse_info)) = [0, 16000000]"
  using pulse_info_complete [of "sample_pulse_packet 0" sample_doubles 1 False "[(True, sample_pulse_packet 16000000)]"]
  by (simp add: sample_pulse_packet_fields sample_doubles_def since_def)

theorem late_directory_never_written_witness:
  "written_times (pulse_infos sample_doubles 1 [(True, sample_pulse_packet 16000000)]
     (processPulseInfo sample_doubles 1 False (sample_pulse_packet 0) new_pulse_info)) = []"
  using late_directory_never_written
    [of "processPulseInfo sample_doubles 1 False (sample_pulse_packet 0) new_pulse_info" 1 sample_doubles
        "[(True, sample_pulse_packet 16000000)]"]
  by (simp add: new_pulse_info_def processPulseInfo_def Let_def)

end
