(* ===== verification/Stc_Run.thy ===== *)
theory Stc_Run
  imports Bank_Sets Monitor_Events Pulse_Info Pulse_Packets
begin

text \<open>
  A run in the translation service (\<open>stc/StreamParser.cpp\<close>): the event packets and the monitor packets
  of the pulses, taken in by the banks, the monitors and the pulse data together.
\<close>

unbundle bit_operations_syntax

section \<open>Model\<close>

record ('f, 'd) receiver =
  rc_stc :: "'f stc"
  rc_monitors :: "'f monitors"
  rc_info :: "'d pulse_info"

record ('f, 'd) conversions =
  usec :: "u32 \<Rightarrow> 'f"
  blank_usec :: 'f
  doubles_of :: "'d doubles"

definition is_duplicate :: "bytes \<Rightarrow> bool" where
  "is_duplicate mem \<longleftrightarrow> pulse_flags mem AND DUPLICATE_PULSE \<noteq> 0"

text \<open>
  \<open>rxPacket\<close> for banked events, with states or without. A packet that cannot be walked in memory is
  an error of the model whatever its first banks do.
\<close>

definition rx_BankedEvents ::
    "thresholds \<Rightarrow> ('f, 'd) conversions \<Rightarrow> bool \<Rightarrow> bool \<Rightarrow> bytes \<Rightarrow> ('f, 'd) receiver \<Rightarrow> stc_error + ('f, 'd) receiver" where
  "rx_BankedEvents T F ready states mem R =
     (if is_duplicate mem then Inr R
      else let S1 = count_pulse 1 2 (rc_stc R);
               I1 = processPulseInfo (doubles_of F) (anc_thresh T) ready mem (rc_info R) in
        sbind (or_outside (stc_banked mem states)) (\<lambda>calls.
        sbind (process_calls T (usec F) (blank_usec F, 0xffffffff) ready calls S1) (\<lambda>S2.
          Inr (R\<lparr>rc_stc := S2, rc_info := I1\<rparr>))))"

definition rx_BeamMonitor ::
    "thresholds \<Rightarrow> ('f, 'd) conversions \<Rightarrow> bool \<Rightarrow> bytes \<Rightarrow> ('f, 'd) receiver \<Rightarrow> stc_error + ('f, 'd) receiver" where
  "rx_BeamMonitor T F ready mem R =
     (if is_duplicate mem then Inr R
      else let S1 = count_pulse 2 1 (rc_stc R) in
        sbind (or_outside (stc_beam_monitors mem)) (\<lambda>calls.
        sbind (run_calls (monitor_call T (usec F) (blank_usec F) (stc_pulse_count S1) ready) calls (rc_monitors R))
          (\<lambda>M. Inr (R\<lparr>rc_stc := S1, rc_monitors := M\<rparr>))))"

text \<open>An oversize packet is thrown away, but it counts.\<close>

definition rx_oversize :: "u32 \<Rightarrow> 'f stc \<Rightarrow> 'f stc" where
  "rx_oversize base S =
     (if base = type_code BANKED_EVENT_TYPE \<or> base = type_code BANKED_EVENT_STATE_TYPE then count_pulse 1 2 S
      else if base = type_code BEAM_MONITOR_EVENT_TYPE then count_pulse 2 1 S
      else S)"

text \<open>A pulse: whether there is a file, the state flag and bytes of its banked packet, its monitor packet.\<close>

type_synonym pulse_packets = "bool \<times> bool \<times> bytes \<times> bytes"

definition rx_pulse ::
    "thresholds \<Rightarrow> ('f, 'd) conversions \<Rightarrow> pulse_packets \<Rightarrow> ('f, 'd) receiver \<Rightarrow> stc_error + ('f, 'd) receiver" where
  "rx_pulse T F = (\<lambda>(ready, states, bmem, mmem) R.
     sbind (rx_BankedEvents T F ready states bmem R) (rx_BeamMonitor T F ready mmem))"

fun rx_pulses ::
    "thresholds \<Rightarrow> ('f, 'd) conversions \<Rightarrow> pulse_packets list \<Rightarrow> ('f, 'd) receiver \<Rightarrow> stc_error + ('f, 'd) receiver" where
  "rx_pulses T F [] R = Inr R"
| "rx_pulses T F (p # ps) R = sbind (rx_pulse T F p R) (rx_pulses T F ps)"

section \<open>The table of banks\<close>

definition slot :: "u32 \<Rightarrow> bank_call \<Rightarrow> nat" where
  "slot mx = (\<lambda>(bank, state, es).
     if bank = UNMAPPED_BANK_ID then UNMAPPED_BANK_INDEX
     else if bank = ERROR_BANK_ID then ERROR_BANK_INDEX
     else bank_state_index mx bank state)"

definition bank_entry :: "'f stc \<Rightarrow> nat \<Rightarrow> 'f bank_info option" where
  "bank_entry S k = (case stc_banks_arr S of None \<Rightarrow> None | Some arr \<Rightarrow> if k < length arr then arr ! k else None)"

definition bank_content :: "'f stc \<Rightarrow> nat \<Rightarrow> ('f \<times> u32) indexed" where
  "bank_content S k = (case bank_entry S k of None \<Rightarrow> new_indexed | Some bi \<Rightarrow> bi_events bi)"

text \<open>A bank that keeps events and no histogram.\<close>

definition event_sets :: "bank_set list \<Rightarrow> bool" where
  "event_sets ss \<longleftrightarrow> (\<forall>s \<in> set ss. bs_flags s AND HISTO_FORMAT = 0) \<and>
     (ss = [] \<or> (\<exists>s \<in> set ss. bs_flags s AND EVENT_FORMAT \<noteq> 0))"

definition event_bank :: "'f bank_info \<Rightarrow> bool" where
  "event_bank bi \<longleftrightarrow> bi_histo bi = None \<and> event_sets (bi_sets bi) \<and> (bi_initialized bi \<longrightarrow> bi_has_event bi)"

definition special_bank :: "u32 \<Rightarrow> bool" where
  "special_bank bank \<longleftrightarrow> bank = UNMAPPED_BANK_ID \<or> bank = ERROR_BANK_ID"

text \<open>A call that needs no larger array, of a bank that is known, at least in state 0, and keeps events.\<close>

definition good_call :: "'f stc \<Rightarrow> nat \<Rightarrow> bank_call \<Rightarrow> bool" where
  "good_call S k = (\<lambda>(bank, state, es).
     banks_ok S \<and> k = slot (stc_maxBank S) (bank, state, es) \<and> state < stc_numStates S \<and>
     (if special_bank bank then 1 \<le> stc_maxBank S else bank \<le> stc_maxBank S) \<and>
     (case bank_entry S k of
        Some bi \<Rightarrow> event_bank bi
      | None \<Rightarrow> special_bank bank \<or>
          (\<exists>bi0. bank_entry S (bank_state_index (stc_maxBank S) bank 0) = Some bi0 \<and> event_bank bi0)))"

lemma init_sets_event:
  assumes "\<forall>s \<in> set ss. bs_flags s AND HISTO_FORMAT = 0"
  shows "init_sets end_of_run ss bi =
    Inr (bi\<lparr>bi_has_event := bi_has_event bi \<or> (\<exists>s \<in> set ss. bs_flags s AND EVENT_FORMAT \<noteq> 0)\<rparr>)"
  using assms
proof (induction end_of_run ss bi rule: init_sets.induct)
  case (2 end_of_run s ss bi)
  then show ?case by (auto simp: Let_def)
qed simp

lemma initialize_event_bank:
  assumes "event_bank bi"
  obtains bi' where "initializeBank end_of_run bi = Inr bi'" "bi_has_event bi'" "bi_initialized bi'"
    "bi_histo bi' = None" "bi_sets bi' = bi_sets bi" "bi_events bi' = bi_events bi"
proof (cases "bi_initialized bi")
  case True
  then show ?thesis using assms by (intro that [of bi]) (auto simp: initializeBank_def event_bank_def)
next
  case False
  have sets: "\<forall>s \<in> set (bi_sets bi). bs_flags s AND HISTO_FORMAT = 0"
    using assms by (simp add: event_bank_def event_sets_def)
  show ?thesis
    using assms False init_sets_event [OF sets, of end_of_run bi]
    by (intro that [of "bi\<lparr>bi_has_event := (bi_has_event bi \<or>
        (\<exists>s \<in> set (bi_sets bi). bs_flags s AND EVENT_FORMAT \<noteq> 0)) \<or> bi_sets bi = [], bi_initialized := True\<rparr>"])
      (auto simp: initializeBank_def event_bank_def event_sets_def)
qed

lemma store_event_bank:
  assumes bank: "event_bank bi"
    and d: "add_events T blank ready pulse (bank_values us es) (bi_events bi) = Some d"
  obtains bi' where "store_bank T us blank ready pulse es bi = Inr bi'" "event_bank bi'" "bi_events bi' = d"
proof -
  obtain bi1 where bi1: "initializeBank False bi = Inr bi1" "bi_has_event bi1" "bi_initialized bi1"
    "bi_histo bi1 = None" "bi_sets bi1 = bi_sets bi" "bi_events bi1 = bi_events bi"
    by (rule initialize_event_bank [OF bank])
  show ?thesis
    using bi1 bank d by (intro that [of "bi1\<lparr>bi_events := d\<rparr>"]) (simp_all add: store_bank_def event_bank_def)
qed

lemma slot_in_array:
  assumes "banks_ok S" "stc_banks_arr S = Some arr" "state < stc_numStates S"
    and "if special_bank bank then 1 \<le> stc_maxBank S else bank \<le> stc_maxBank S"
  shows "slot (stc_maxBank S) (bank, state, es) < length arr"
    "\<not> special_bank bank \<Longrightarrow> bank_state_index (stc_maxBank S) bank 0 < length arr"
proof -
  let ?n = "stc_numStates S" and ?M = "stc_maxBank S"
  have room: "2 + unat ?n * (unat ?M + 1) < 4294967296" and len: "length arr = 2 + unat ?n * (unat ?M + 1)"
    using assms(1,2) by (auto simp: banks_ok_def)
  have idx: "bank_state_index ?M bank s < length arr" if "\<not> special_bank bank" "s < ?n" for s
  proof -
    have b: "unat bank \<le> unat ?M" "unat s < unat ?n"
      using that assms(4) by (simp_all add: word_le_nat_alt word_less_nat_alt)
    have "(unat s + 1) * (unat ?M + 1) \<le> unat ?n * (unat ?M + 1)" by (rule index_room(2) [OF b(2)])
    then have "2 + (unat s + 1) * (unat ?M + 1) < 4294967296"
      by (intro order_le_less_trans [OF _ room]) simp
    from state_index_nat [OF b(1) this] index_room(3) [OF b(2) b(1)] show ?thesis by (simp add: len)
  qed
  show "slot ?M (bank, state, es) < length arr"
    using idx [OF _ assms(3)] len
    by (auto simp: slot_def special_bank_def UNMAPPED_BANK_INDEX_def ERROR_BANK_INDEX_def)
  have "0 < ?n" using assms(3) word_gt_0 by (metis not_less word_zero_le order_le_less_trans)
  then show "\<not> special_bank bank \<Longrightarrow> bank_state_index ?M bank 0 < length arr" by (rule idx [rotated])
qed

lemma good_call_found:
  assumes good: "good_call S k (bank, state, es)" and arr: "stc_banks_arr S = Some arr"
  obtains bi where "find_bank (stc_maxBank S) bank state arr = Inr (k, Some bi)" "event_bank bi"
    "bi_events bi = bank_content S k" "k < length arr"
proof -
  let ?M = "stc_maxBank S"
  have g: "banks_ok S" "k = slot ?M (bank, state, es)" "state < stc_numStates S"
    "if special_bank bank then 1 \<le> ?M else bank \<le> ?M"
    using good by (auto simp: good_call_def)
  note k = slot_in_array [OF g(1) arr g(3,4)]
  have idx: "k = (if bank = UNMAPPED_BANK_ID then UNMAPPED_BANK_INDEX
      else if bank = ERROR_BANK_ID then ERROR_BANK_INDEX else bank_state_index ?M bank state)"
    by (simp add: g(2) slot_def)
  have kk: "k < length arr" unfolding g(2) by (rule k(1))
  have fb: "find_bank ?M bank state arr =
      (case arr ! k of Some bi \<Rightarrow> Inr (k, Some bi)
       | None \<Rightarrow> if special_bank bank then Inr (k, Some (makeBankInfo (ucast bank) 0))
           else if length arr \<le> bank_state_index ?M bank 0 then Inl Read_Outside
           else Inr (k, map_option (\<lambda>bi0. (makeBankInfo (ucast bank) state)\<lparr>bi_logical := bi_logical bi0,
             bi_physical := bi_physical bi0, bi_sets := bi_sets bi0\<rparr>) (arr ! bank_state_index ?M bank 0)))"
    using kk by (simp add: find_bank_def Let_def idx [symmetric] special_bank_def not_le [symmetric])
  have at: "bank_entry S k = arr ! k" using kk by (simp add: bank_entry_def arr)
  have known: "case arr ! k of Some bi \<Rightarrow> event_bank bi
      | None \<Rightarrow> special_bank bank \<or> (\<exists>bi0. bank_entry S (bank_state_index ?M bank 0) = Some bi0 \<and> event_bank bi0)"
    using good unfolding good_call_def at prod.case by (elim conjE)
  show ?thesis
  proof (cases "arr ! k")
    case (Some bi)
    then show ?thesis
      using known fb kk by (intro that [of bi]) (simp_all add: bank_content_def at)
  next
    case None
    then have content: "bank_content S k = new_indexed" by (simp add: bank_content_def at)
    show ?thesis
    proof (cases "special_bank bank")
      case True
      let ?bi = "makeBankInfo (ucast bank) 0 :: 'a bank_info"
      have "event_bank ?bi" by (simp add: event_bank_def event_sets_def makeBankInfo_def)
      then show ?thesis
        using True None fb kk content by (intro that [of ?bi]) (simp_all add: makeBankInfo_def)
    next
      case False
      then obtain bi0 where bi0: "bank_entry S (bank_state_index ?M bank 0) = Some bi0" "event_bank bi0"
        using known None by auto
      then have arr0: "arr ! bank_state_index ?M bank 0 = Some bi0"
        by (simp add: bank_entry_def arr split: if_splits)
      let ?bi = "(makeBankInfo (ucast bank) state)\<lparr>bi_logical := bi_logical bi0, bi_physical := bi_physical bi0,
              bi_sets := bi_sets bi0\<rparr>"
      have "event_bank ?bi" using bi0(2) by (simp add: event_bank_def makeBankInfo_def)
      then show ?thesis
        using False None k(2) [OF False] fb kk content arr0
        by (intro that [of ?bi]) (simp_all add: makeBankInfo_def)
    qed
  qed
qed

lemma good_call_mono:
  assumes "good_call S k c" and "banks_ok S'" "stc_maxBank S' = stc_maxBank S" "stc_numStates S' = stc_numStates S"
    and "\<And>i. bank_entry S' i = bank_entry S i \<or> (\<exists>bi. bank_entry S' i = Some bi \<and> event_bank bi)"
  shows "good_call S' k c"
proof -
  obtain bank state es where c: "c = (bank, state, es)" by (cases c)
  let ?i = "bank_state_index (stc_maxBank S) bank 0"
  show ?thesis
    using assms(1-4) assms(5) [of k] assms(5) [of ?i]
    by (auto simp: good_call_def c split: option.splits)
qed

lemma good_call_stays:
  assumes "good_call S k (bank, state, es)"
  shows "reallocateBanksArray (if bank = UNMAPPED_BANK_ID \<or> bank = ERROR_BANK_ID then 1 else bank) state S = Inr S"
proof -
  have "state < stc_numStates S" "if special_bank bank then 1 \<le> stc_maxBank S else bank \<le> stc_maxBank S"
    using assms by (auto simp: good_call_def)
  moreover from this(1) have "\<not> state + 1 > stc_numStates S"
    using inc_le not_less by blast
  ultimately show ?thesis by (auto simp: reallocateBanksArray_def special_bank_def not_less)
qed

lemma bank_call_adds:
  assumes good: "good_call S k c"
    and d: "add_events T blank ready (stc_pulse_count S) (bank_values us (snd (snd c))) (bank_content S k) = Some d"
  shows "\<exists>S'. processBankEvents T us blank ready c S = Inr S' \<and> bank_content S' k = d \<and>
    (\<forall>k'. k' \<noteq> k \<longrightarrow> bank_content S' k' = bank_content S k') \<and> stc_pulse_count S' = stc_pulse_count S \<and>
    (stc_pulse_flag S', stc_maxBank S') = (stc_pulse_flag S, stc_maxBank S) \<and>
    (\<forall>k' c'. good_call S k' c' \<longrightarrow> good_call S' k' c')"
proof -
  obtain bank state es where c: "c = (bank, state, es)" by (cases c)
  obtain arr where arr: "stc_banks_arr S = Some arr" using good by (auto simp: good_call_def banks_ok_def c)
  obtain bi where bi: "find_bank (stc_maxBank S) bank state arr = Inr (k, Some bi)" "event_bank bi"
    "bi_events bi = bank_content S k" and k: "k < length arr"
    by (rule good_call_found [OF good [unfolded c] arr])
  obtain bi' where bi': "store_bank T us blank ready (stc_pulse_count S) es bi = Inr bi'" "event_bank bi'"
    "bi_events bi' = d"
    by (rule store_event_bank [OF bi(2)]) (use d in \<open>simp add: bi(3) c\<close>)
  let ?S = "S\<lparr>stc_banks_arr := Some (arr[k := Some bi']), stc_metrics :=
      count_events bank (of_nat (length es)) True (bi_has_event bi') (stc_metrics S)\<rparr>"
  have proc: "processBankEvents T us blank ready c S = Inr ?S"
    using good_call_stays [OF good [unfolded c]] bi(1) bi'(1)
    by (simp add: processBankEvents_def c arr)
  have at: "bank_entry ?S i = (if i = k then Some bi' else bank_entry S i)" for i
    using k by (auto simp: bank_entry_def arr)
  have "banks_ok S" using good by (simp add: good_call_def c)
  then have ok: "banks_ok ?S" by (simp add: banks_ok_def arr)
  have "good_call ?S k' c'" if "good_call S k' c'" for k' c'
    using bi'(2) by (intro good_call_mono [OF that ok]) (auto simp: at)
  then show ?thesis
    using proc bi'(3) by (intro exI [of _ ?S]) (simp add: bank_content_def at)
qed

interpretation bank_family: event_family bank_content stc_pulse_count
  "\<lambda>S. (stc_pulse_flag S, stc_maxBank S)"
  "\<lambda>ready k c. processBankEvents T us blank ready c" "\<lambda>c. bank_values us (snd (snd c))" good_call T blank
  for T us blank
  by unfold_locales (use bank_call_adds in metis)

section \<open>A run\<close>

definition keyed :: "u32 \<Rightarrow> bank_call list \<Rightarrow> (nat \<times> bank_call) list" where
  "keyed mx cs = List.map (\<lambda>c. (slot mx c, c)) cs"

lemma process_calls_run:
  "process_calls T us blank ready cs = run_calls (\<lambda>k c. processBankEvents T us blank ready c) (keyed mx cs)"
proof (induction cs)
  case (Cons c cs)
  show ?case by (rule ext) (simp add: Cons.IH keyed_def)
qed (simp add: keyed_def fun_eq_iff)

lemma fst_keyed: "List.map fst (keyed mx cs) = List.map (slot mx) cs"
  by (simp add: keyed_def comp_def)

definition bank_calls :: "pulse_packets \<Rightarrow> bank_call list" where
  "bank_calls = (\<lambda>(ready, states, bmem, mmem). case stc_banked bmem states of Inl _ \<Rightarrow> [] | Inr cs \<Rightarrow> cs)"

definition monitor_calls :: "pulse_packets \<Rightarrow> (u16 \<times> u32 list) list" where
  "monitor_calls = (\<lambda>(ready, states, bmem, mmem). case stc_beam_monitors mmem of Inl _ \<Rightarrow> [] | Inr cs \<Rightarrow> cs)"

text \<open>The values of the bank in a slot, of a monitor, in a pulse; \<open>None\<close> when it has no section there.\<close>

definition bank_values_in :: "(u32 \<Rightarrow> 'f) \<Rightarrow> u32 \<Rightarrow> nat \<Rightarrow> pulse_packets \<Rightarrow> ('f \<times> u32) list option" where
  "bank_values_in us mx k p = map_option (\<lambda>c. bank_values us (snd (snd c))) (map_of (keyed mx (bank_calls p)) k)"

definition monitor_values_in :: "(u32 \<Rightarrow> 'f) \<Rightarrow> u16 \<Rightarrow> pulse_packets \<Rightarrow> 'f list option" where
  "monitor_values_in us mid p = map_option (monitor_values us) (map_of (monitor_calls p) mid)"

text \<open>
  A pulse as the service sends it: both packets can be walked, neither is marked as a duplicate, no
  bank and no monitor comes twice, and the banks are known and keep events.
\<close>

definition good_pulse :: "'f stc \<Rightarrow> 'f monitors \<Rightarrow> pulse_packets \<Rightarrow> bool" where
  "good_pulse S M p \<longleftrightarrow> (case p of (ready, states, bmem, mmem) \<Rightarrow>
     \<not> is_duplicate bmem \<and> \<not> is_duplicate mmem \<and>
     stc_banked bmem states = Inr (bank_calls p) \<and> stc_beam_monitors mmem = Inr (monitor_calls p) \<and>
     distinct (List.map (slot (stc_maxBank S)) (bank_calls p)) \<and> distinct (List.map fst (monitor_calls p)) \<and>
     (\<forall>c \<in> set (bank_calls p). good_call S (slot (stc_maxBank S) c) c) \<and>
     (\<forall>c \<in> set (monitor_calls p). event_monitor M (fst c)))"

definition run_inv ::
    "thresholds \<Rightarrow> ('f, 'd) conversions \<Rightarrow> ('f, 'd) receiver \<Rightarrow> pulse_packets list \<Rightarrow> ('f, 'd) receiver \<Rightarrow> bool" where
  "run_inv T F R0 ps R \<longleftrightarrow>
     stc_pulse_count (rc_stc R) = of_nat (length ps) \<and> stc_pulse_flag (rc_stc R) = 0 \<and>
     stc_maxBank (rc_stc R) = stc_maxBank (rc_stc R0) \<and>
     (\<forall>k. indexed_ok (pulse_history (bank_values_in (usec F) (stc_maxBank (rc_stc R0)) k) ps) (bank_content (rc_stc R) k)) \<and>
     (\<forall>mid. indexed_ok (pulse_history (monitor_values_in (usec F) mid) ps) (monitor_content (rc_monitors R) mid)) \<and>
     (\<forall>k c. good_call (rc_stc R0) k c \<longrightarrow> good_call (rc_stc R) k c) \<and>
     (\<forall>mid. event_monitor (rc_monitors R0) mid \<longrightarrow> event_monitor (rc_monitors R) mid) \<and>
     rc_info R = pulse_infos (doubles_of F) (anc_thresh T) (List.map (\<lambda>(r, _, b, _). (r, b)) ps) (rc_info R0)"

lemma sorted_history: "sorted_wrt (<) (List.map fst (pulse_history v ps))"
proof (induction ps rule: rev_induct)
  case (snoc p ps)
  have "fst x < Suc (length ps)" if "x \<in> set (pulse_history v ps)" for x
    using pulse_history_last [OF that] by simp
  then show ?case
    using snoc by (auto simp: pulse_history_snoc sorted_wrt_append split: option.splits)
qed simp

lemma extend_pulse_history:
  assumes "H k = pulse_history v ps" "v p = map_option vals (map_of cs k)"
  shows "add_pulse vals (Suc (length ps)) cs H k = pulse_history v (ps @ [p])"
  using assms by (simp add: add_pulse_def pulse_history_snoc split: option.splits)

lemma bank_content_count [simp]:
  "bank_content (count_pulse a b S) k = bank_content S k" "good_call (count_pulse a b S) = good_call S"
  "stc_maxBank (count_pulse a b S) = stc_maxBank S"
proof -
  have "bank_entry (count_pulse a b S) = bank_entry S" "banks_ok (count_pulse a b S) = banks_ok S"
    by (auto simp: count_pulse_def bank_entry_def banks_ok_def fun_eq_iff)
  moreover have "stc_numStates (count_pulse a b S) = stc_numStates S" by (simp add: count_pulse_def)
  moreover show "stc_maxBank (count_pulse a b S) = stc_maxBank S" by (simp add: count_pulse_def)
  ultimately show "bank_content (count_pulse a b S) k = bank_content S k"
    "good_call (count_pulse a b S) = good_call S"
    by (simp_all add: bank_content_def good_call_def fun_eq_iff split: option.split)
qed

lemma rx_banked_step:
  assumes inv: "run_inv T F R0 ps R" and good: "good_pulse (rc_stc R0) (rc_monitors R0) (ready, states, bmem, mmem)"
    and n: "Suc (length ps) < 2 ^ 64"
  defines "p \<equiv> (ready, states, bmem, mmem)" and "mx \<equiv> stc_maxBank (rc_stc R0)"
  obtains S' where
    "rx_BankedEvents T F ready states bmem R = Inr (R\<lparr>rc_stc := S',
       rc_info := processPulseInfo (doubles_of F) (anc_thresh T) ready bmem (rc_info R)\<rparr>)"
    "stc_pulse_count S' = of_nat (Suc (length ps))" "stc_pulse_flag S' = 1" "stc_maxBank S' = mx"
    "\<And>k. indexed_ok (pulse_history (bank_values_in (usec F) mx k) (ps @ [p])) (bank_content S' k)"
    "\<And>k c. good_call (rc_stc R0) k c \<Longrightarrow> good_call S' k c"
proof -
  let ?S1 = "count_pulse 1 2 (rc_stc R)" and ?cs = "keyed mx (bank_calls p)" and ?n = "Suc (length ps)"
  let ?H = "\<lambda>k. pulse_history (bank_values_in (usec F) mx k) ps"
  have S1: "stc_pulse_count ?S1 = of_nat ?n" "stc_pulse_flag ?S1 = 1"
    using inv by (simp_all add: run_inv_def count_pulse_def)
  have n': "unat (stc_pulse_count ?S1) = ?n"
    using n by (simp add: S1(1) unat_of_nat take_bit_nat_eq_self del: of_nat_Suc)
  have mx: "stc_maxBank ?S1 = mx" using inv by (simp add: run_inv_def mx_def)
  have g: "\<not> is_duplicate bmem" "stc_banked bmem states = Inr (bank_calls p)"
    "distinct (List.map (slot mx) (bank_calls p))" "\<forall>c \<in> set (bank_calls p). good_call (rc_stc R0) (slot mx c) c"
    using good by (simp_all add: good_pulse_def p_def mx_def)
  have gm: "good_call ?S1 k c" if "good_call (rc_stc R0) k c" for k c
    using inv that unfolding run_inv_def bank_content_count by blast
  have "\<exists>S'. run_calls (\<lambda>k c. processBankEvents T (usec F) (blank_usec F, 0xffffffff) ready c) ?cs ?S1 = Inr S' \<and>
    stc_pulse_count S' = stc_pulse_count ?S1 \<and>
    (stc_pulse_flag S', stc_maxBank S') = (stc_pulse_flag ?S1, stc_maxBank ?S1) \<and>
    (\<forall>k c. good_call ?S1 k c \<longrightarrow> good_call S' k c) \<and>
    (\<forall>k. indexed_ok (add_pulse (\<lambda>c. bank_values (usec F) (snd (snd c))) (unat (stc_pulse_count ?S1)) ?cs ?H k) (bank_content S' k) \<and>
       sorted_wrt (<) (List.map fst (add_pulse (\<lambda>c. bank_values (usec F) (snd (snd c))) (unat (stc_pulse_count ?S1)) ?cs ?H k)))"
  proof (rule bank_family.calls_ok)
    show "indexed_ok (?H k) (bank_content ?S1 k)" for k using inv by (simp add: run_inv_def mx_def)
    show "sorted_wrt (<) (List.map fst (?H k))" for k by (rule sorted_history)
    show "last_pulse (?H k) < unat (stc_pulse_count ?S1)" for k
      using last_pulse_history [of "bank_values_in (usec F) mx k" ps] by (simp add: n')
    show "distinct (List.map fst ?cs)" using g(3) by (simp add: fst_keyed)
    show "\<forall>(k, c) \<in> set ?cs. good_call ?S1 k c" using g(4) gm by (auto simp: keyed_def)
  qed
  then obtain S' where S': "process_calls T (usec F) (blank_usec F, 0xffffffff) ready (bank_calls p) ?S1 = Inr S'"
    "stc_pulse_count S' = stc_pulse_count ?S1" "stc_pulse_flag S' = stc_pulse_flag ?S1" "stc_maxBank S' = mx"
    "\<And>k c. good_call ?S1 k c \<Longrightarrow> good_call S' k c"
    "\<And>k. indexed_ok (add_pulse (\<lambda>c. bank_values (usec F) (snd (snd c))) ?n ?cs ?H k) (bank_content S' k)"
    unfolding process_calls_run [where mx = mx] n' mx by blast
  have hist: "add_pulse (\<lambda>c. bank_values (usec F) (snd (snd c))) ?n ?cs ?H k =
      pulse_history (bank_values_in (usec F) mx k) (ps @ [p])" for k
    by (rule extend_pulse_history) (simp_all add: bank_values_in_def)
  show thesis
    using S' S1 gm g(1,2)
    by (intro that [of S']) (simp_all add: rx_BankedEvents_def Let_def or_outside_def hist)
qed

lemma rx_monitor_step:
  assumes mons: "\<And>mid. indexed_ok (pulse_history (monitor_values_in (usec F) mid) ps) (monitor_content (rc_monitors R) mid)"
    and count: "stc_pulse_count (rc_stc R) = of_nat (Suc (length ps))" "stc_pulse_flag (rc_stc R) = 1"
    and n: "Suc (length ps) < 2 ^ 64"
    and g: "\<not> is_duplicate mmem" "stc_beam_monitors mmem = Inr (monitor_calls p)" "distinct (List.map fst (monitor_calls p))"
      "\<forall>c \<in> set (monitor_calls p). event_monitor (rc_monitors R) (fst c)"
  obtains M' where
    "rx_BeamMonitor T F ready mmem R = Inr (R\<lparr>rc_stc := count_pulse 2 1 (rc_stc R), rc_monitors := M'\<rparr>)"
    "\<And>mid. indexed_ok (pulse_history (monitor_values_in (usec F) mid) (ps @ [p])) (monitor_content M' mid)"
    "\<And>mid. event_monitor (rc_monitors R) mid \<Longrightarrow> event_monitor M' mid"
proof -
  let ?cs = "monitor_calls p" and ?n = "Suc (length ps)" and ?c = "stc_pulse_count (rc_stc R)"
  let ?H = "\<lambda>mid. pulse_history (monitor_values_in (usec F) mid) ps"
  have same: "stc_pulse_count (count_pulse 2 1 (rc_stc R)) = ?c"
    using count(2) by (simp add: count_pulse_def)
  have n': "unat ?c = ?n"
    using n by (simp add: count(1) unat_of_nat take_bit_nat_eq_self del: of_nat_Suc)
  have "\<exists>M'. run_calls (\<lambda>mid ws. monitor_call T (usec F) (blank_usec F) ?c ready mid ws) ?cs (rc_monitors R) = Inr M' \<and>
    ?c = ?c \<and> () = () \<and>
    (\<forall>mid (c :: u32 list). event_monitor (rc_monitors R) mid \<longrightarrow> event_monitor M' mid) \<and>
    (\<forall>mid. indexed_ok (add_pulse (monitor_values (usec F)) (unat ?c) ?cs ?H mid) (monitor_content M' mid) \<and>
       sorted_wrt (<) (List.map fst (add_pulse (monitor_values (usec F)) (unat ?c) ?cs ?H mid)))"
  proof (rule monitor_family.calls_ok)
    show "indexed_ok (?H mid) (monitor_content (rc_monitors R) mid)" for mid by (rule mons)
    show "sorted_wrt (<) (List.map fst (?H mid))" for mid by (rule sorted_history)
    show "last_pulse (?H mid) < unat ?c" for mid
      using last_pulse_history [of "monitor_values_in (usec F) mid" ps] by (simp add: n')
    show "distinct (List.map fst ?cs)" by (rule g(3))
    show "\<forall>(k, c) \<in> set ?cs. event_monitor (rc_monitors R) k" using g(4) by auto
  qed
  then obtain M' where M': "run_calls (monitor_call T (usec F) (blank_usec F) ?c ready) ?cs (rc_monitors R) = Inr M'"
    "\<And>mid. event_monitor (rc_monitors R) mid \<Longrightarrow> event_monitor M' mid"
    "\<And>mid. indexed_ok (add_pulse (monitor_values (usec F)) ?n ?cs ?H mid) (monitor_content M' mid)"
    unfolding n' by blast
  have hist: "add_pulse (monitor_values (usec F)) ?n ?cs ?H mid =
      pulse_history (monitor_values_in (usec F) mid) (ps @ [p])" for mid
    by (rule extend_pulse_history) (simp_all add: monitor_values_in_def)
  show thesis
    using M' g(1,2) same
    by (intro that [of M']) (simp_all add: rx_BeamMonitor_def Let_def or_outside_def hist)
qed

lemma pulse_infos_snoc:
  "pulse_infos F thresh (ps @ [(r, m)]) I = processPulseInfo F thresh r m (pulse_infos F thresh ps I)"
  by (induction F thresh ps I rule: pulse_infos.induct) simp_all

lemma rx_pulse_step:
  assumes inv: "run_inv T F R0 ps R" and good: "good_pulse (rc_stc R0) (rc_monitors R0) p"
    and n: "Suc (length ps) < 2 ^ 64"
  shows "\<exists>R'. rx_pulse T F p R = Inr R' \<and> run_inv T F R0 (ps @ [p]) R'"
proof -
  obtain ready states bmem mmem where p: "p = (ready, states, bmem, mmem)" by (cases p)
  let ?mx = "stc_maxBank (rc_stc R0)"
  obtain S' where S': "rx_BankedEvents T F ready states bmem R = Inr (R\<lparr>rc_stc := S',
       rc_info := processPulseInfo (doubles_of F) (anc_thresh T) ready bmem (rc_info R)\<rparr>)"
    "stc_pulse_count S' = of_nat (Suc (length ps))" "stc_pulse_flag S' = 1" "stc_maxBank S' = ?mx"
    "\<And>k. indexed_ok (pulse_history (bank_values_in (usec F) ?mx k) (ps @ [p])) (bank_content S' k)"
    "\<And>k c. good_call (rc_stc R0) k c \<Longrightarrow> good_call S' k c"
    by (rule rx_banked_step [OF inv good [unfolded p] n]) (simp only: p)
  let ?R = "R\<lparr>rc_stc := S', rc_info := processPulseInfo (doubles_of F) (anc_thresh T) ready bmem (rc_info R)\<rparr>"
  have mons: "indexed_ok (pulse_history (monitor_values_in (usec F) mid) ps) (monitor_content (rc_monitors ?R) mid)"
    "event_monitor (rc_monitors R0) mid \<Longrightarrow> event_monitor (rc_monitors ?R) mid" for mid
    using inv by (simp_all add: run_inv_def)
  have g: "\<not> is_duplicate mmem" "stc_beam_monitors mmem = Inr (monitor_calls p)"
    "distinct (List.map fst (monitor_calls p))"
    "\<forall>c \<in> set (monitor_calls p). event_monitor (rc_monitors ?R) (fst c)"
    using good mons(2) by (auto simp: good_pulse_def p)
  have cnt: "stc_pulse_count (rc_stc ?R) = of_nat (Suc (length ps))" "stc_pulse_flag (rc_stc ?R) = 1"
    using S'(2,3) by simp_all
  obtain M' where M':
    "rx_BeamMonitor T F ready mmem ?R = Inr (?R\<lparr>rc_stc := count_pulse 2 1 (rc_stc ?R), rc_monitors := M'\<rparr>)"
    "\<And>mid. indexed_ok (pulse_history (monitor_values_in (usec F) mid) (ps @ [p])) (monitor_content M' mid)"
    "\<And>mid. event_monitor (rc_monitors ?R) mid \<Longrightarrow> event_monitor M' mid"
    using rx_monitor_step [OF mons(1) cnt n g, of T ready] by blast
  let ?R' = "?R\<lparr>rc_stc := count_pulse 2 1 S', rc_monitors := M'\<rparr>"
  have "rx_pulse T F p R = Inr ?R'" using S'(1) M'(1) by (simp add: rx_pulse_def p)
  moreover have "run_inv T F R0 (ps @ [p]) ?R'"
  proof -
    have flag: "stc_pulse_flag (count_pulse 2 1 S') = 0" "stc_pulse_count (count_pulse 2 1 S') = of_nat (Suc (length ps))"
      using S'(2,3) by (simp_all add: count_pulse_def)
    have info: "processPulseInfo (doubles_of F) (anc_thresh T) ready bmem (rc_info R) =
        pulse_infos (doubles_of F) (anc_thresh T) (List.map (\<lambda>(r, _, b, _). (r, b)) (ps @ [p])) (rc_info R0)"
      using inv by (simp add: run_inv_def p pulse_infos_snoc)
    have "event_monitor M' mid" if "event_monitor (rc_monitors R0) mid" for mid
      using M'(3) mons(2) that by blast
    then show ?thesis
      unfolding run_inv_def using flag S'(4,5,6) M'(2) info by simp
  qed
  ultimately show ?thesis by blast
qed

lemma rx_pulses_inv:
  assumes "run_inv T F R0 qs R" "\<forall>p \<in> set ps. good_pulse (rc_stc R0) (rc_monitors R0) p"
    and "length qs + length ps < 2 ^ 64"
  shows "\<exists>R'. rx_pulses T F ps R = Inr R' \<and> run_inv T F R0 (qs @ ps) R'"
  using assms
proof (induction ps arbitrary: qs R)
  case (Cons p ps)
  have "Suc (length qs) < 2 ^ 64" using Cons.prems(3) by simp
  moreover have "good_pulse (rc_stc R0) (rc_monitors R0) p" using Cons.prems(2) by simp
  ultimately obtain R1 where R1: "rx_pulse T F p R = Inr R1" "run_inv T F R0 (qs @ [p]) R1"
    using rx_pulse_step [OF Cons.prems(1)] by blast
  from Cons.IH [OF R1(2)] Cons.prems(2,3) show ?case by (simp add: R1(1))
qed simp

section \<open>Properties\<close>

definition fresh_receiver :: "('f, 'd) receiver \<Rightarrow> bool" where
  "fresh_receiver R \<longleftrightarrow> stc_pulse_count (rc_stc R) = 0 \<and> stc_pulse_flag (rc_stc R) = 0 \<and>
     (\<forall>k. bank_content (rc_stc R) k = new_indexed) \<and> (\<forall>mid. monitor_content (rc_monitors R) mid = new_indexed) \<and>
     rc_info R = new_pulse_info"

text \<open>The event list and the index of a key, as the reference says.\<close>

definition complete_data :: "('p \<Rightarrow> 'a list option) \<Rightarrow> 'p list \<Rightarrow> 'a indexed \<Rightarrow> bool" where
  "complete_data v ps d \<longleftrightarrow> written_values d = values_in v ps \<and>
     written_index d = List.map (\<lambda>i. of_nat (length (values_in v (take i ps)))) [0 ..< length ps]"

lemma finish_complete:
  assumes "indexed_ok (pulse_history v ps) d" "length ps < 2 ^ 64"
  shows "complete_data v ps (finish_events T (of_nat (length ps)) d)"
proof -
  have n: "unat (of_nat (length ps) :: u64) = length ps" using assms(2) by (simp add: unat_of_nat take_bit_nat_eq_self)
  have "last_pulse (pulse_history v ps) \<le> unat (of_nat (length ps) :: u64)"
    using last_pulse_history [of v ps] by (simp only: n)
  from finish_events_spec [OF assms(1) sorted_history this, of T] show ?thesis
    by (simp add: complete_data_def all_values_history index_upto_history n)
qed


text \<open>A run of one pulse: an event of pixel 7 in bank 1, and one of monitor 1.\<close>

definition sample_banked_bytes :: bytes where
  "sample_banked_bytes = words_bytes
     [48, adara_pkt_type (type_code BANKED_EVENT_TYPE) 1, 1000, 0, 5, 0, 0, 0, 3, 0, 0, 1, 1, 1, 120, 7]"

definition sample_monitor_bytes :: bytes where
  "sample_monitor_bytes = words_bytes
     [32, adara_pkt_type (type_code BEAM_MONITOR_EVENT_TYPE) 1, 1000, 0, 5, 0, 0, 0, 0x400001, 3, 0, 50]"

definition sample_run_pulse :: pulse_packets where
  "sample_run_pulse = (True, False, sample_banked_bytes, sample_monitor_bytes)"

definition sample_receiver :: "(u32, u64) receiver" where
  "sample_receiver = \<lparr>rc_stc = ten_banks, rc_monitors = new_monitors, rc_info = new_pulse_info\<rparr>"

definition sample_conversions :: "(u32, u64) conversions" where
  "sample_conversions = \<lparr>usec = id, blank_usec = 0, doubles_of = sample_doubles\<rparr>"

lemma sample_walks:
  "\<not> is_duplicate sample_banked_bytes" "\<not> is_duplicate sample_monitor_bytes"
  "stc_banked sample_banked_bytes False = Inr [(1, 0, [\<lparr>tof = 120, pixel = 7\<rparr>])]"
  "stc_beam_monitors sample_monitor_bytes = Inr [(1, [50])]"
  by (code_simp | (subst stc_banked_def stc_beam_monitors_def, simp add: stc_sources.simps))+

lemma sample_run_pulse_calls:
  "bank_calls sample_run_pulse = [(1, 0, [\<lparr>tof = 120, pixel = 7\<rparr>])]" "monitor_calls sample_run_pulse = [(1, [50])]"
  by (simp_all add: bank_calls_def monitor_calls_def sample_run_pulse_def sample_walks)

lemma sample_receiver_fresh: "fresh_receiver sample_receiver"
proof -
  have "bank_content ten_banks k = new_indexed" for k
    by (cases "k = 3") (auto simp: bank_content_def bank_entry_def ten_banks_def makeBankInfo_def)
  moreover have "monitor_content (new_monitors :: u32 monitors) mid = new_indexed" for mid
    by (simp add: monitor_content_def new_monitors_def)
  moreover have "stc_pulse_count ten_banks = 0" "stc_pulse_flag ten_banks = 0"
    by (simp_all add: ten_banks_def new_stc_def)
  ultimately show ?thesis by (simp add: fresh_receiver_def sample_receiver_def)
qed

lemma sample_run_pulse_good: "good_pulse ten_banks new_monitors sample_run_pulse"
proof -
  have "good_call ten_banks 3 (1, 0, [\<lparr>tof = 120, pixel = 7\<rparr>])"
    using ten_banks_ok
    by (simp add: good_call_def slot_def bank_entry_def bank_state_index_def special_bank_def
        UNMAPPED_BANK_ID_def ERROR_BANK_ID_def)
      (simp add: ten_banks_def new_stc_def makeBankInfo_def event_bank_def event_sets_def)
  moreover have "slot 10 (1, 0, [\<lparr>tof = 120, pixel = 7\<rparr>]) = 3" by code_simp
  moreover have "stc_maxBank ten_banks = 10" by (simp add: ten_banks_def)
  moreover have "event_monitor new_monitors 1"
    using monitors_ok_new by (simp add: event_monitor_def) (simp add: new_monitors_def getBeamMonitorConfig_def
        default_config_def is_histo_def EVENT_FORMAT_def HISTO_FORMAT_def)
  ultimately show ?thesis
    using sample_walks by (simp add: good_pulse_def sample_run_pulse_calls [unfolded sample_run_pulse_def] sample_run_pulse_def)
qed


end
