(* ===== verification/Pulse_Buffer.thy ===== *)
theory Pulse_Buffer
  imports Pulse_Packets
begin

text \<open>
  The internal pulse buffer of the stream management service (\<open>sms/SMSControl.cc\<close>): which event sources
  a pulse waits for, when a pulse is complete or given up as partial, and which pulses are recorded and
  leave the buffer. Modelled are \<open>registerEventSource\<close>, \<open>unregisterEventSource\<close>, \<open>popPulseBuffer\<close>,
  \<open>getPulse\<close>, \<open>pulseRTDL\<close>, \<open>markPartial\<close>, \<open>markComplete\<close>, \<open>correctPChargeVeto\<close> and the part of
  \<open>pulseEvents\<close> around \<open>collect_packet\<close>.

  The map of pulses is an ordered association list, and an iterator into it is a position or a key. The
  cached iterator \<open>m_lastPulseIt\<close> is a key, or \<open>None\<close> when it was never set or its pulse was erased; to
  follow it then is the error \<open>Dangling_Iterator\<close>. The field \<open>recorded\<close> is a history variable: the
  pulses handed to \<open>recordPulse\<close> in this order. Every operation gets the present values of the process
  variables it polls. Log messages and their rate limits are left out.
\<close>

unbundle bit_operations_syntax

section \<open>State\<close>

definition SOURCE_SET_SIZE :: nat where "SOURCE_SET_SIZE = 256"

definition NO_SOURCE :: u32 where "NO_SOURCE = - 1"

text \<open>The process variables an operator can change at any time.\<close>

record live_pvs =
  pv_noEoPPulseBufferSize :: u32
  pv_maxPulseBufferSize :: u32
  pv_intermittentDataThreshold :: u32
  pv_doPulsePchgCorrect :: bool
  pv_doPulseVetoCorrect :: bool

record buffer =
  m_pulses :: "(pulse_key, pulse) omap"
  m_lastPid :: pulse_key
  m_lastPulseIt :: "pulse_key option"
  m_lastPulseId :: u64
  m_lastRingPeriod :: u32
  m_eventSources :: source_set
  m_eventSourcesIndex :: "u32 list"
  m_noRegisteredEventSources :: bool
  m_noRegisteredEventSourcesCount :: u32
  m_noEoPPulseBufferSize :: u32
  m_maxPulseBufferSize :: u32
  m_intermittentDataThreshold :: u32
  m_doPulsePchgCorrect :: bool
  m_doPulseVetoCorrect :: bool
  getPulse_cnt :: u32
  markComplete_cnt :: u32
  intermittent :: "(u32 \<times> u32) list"
  collected :: collect
  recorded :: "pulse list"
  discarded :: "pulse list"

text \<open>
  The value the cached pulse identifier is reset to. The constructor means to start with it but declares
  a local variable of the same name, so the member starts as \<open>(0, 0)\<close>.
\<close>

definition no_pid :: pulse_key where "no_pid = (- 1, - 1)"

definition new_buffer :: "live_pvs \<Rightarrow> collect \<Rightarrow> buffer" where
  "new_buffer pv co =
     \<lparr>m_pulses = [], m_lastPid = (0, 0), m_lastPulseIt = None, m_lastPulseId = 0, m_lastRingPeriod = 0,
      m_eventSources = 0, m_eventSourcesIndex = replicate SOURCE_SET_SIZE (- 1),
      m_noRegisteredEventSources = True, m_noRegisteredEventSourcesCount = 0,
      m_noEoPPulseBufferSize = pv_noEoPPulseBufferSize pv,
      m_maxPulseBufferSize = pv_maxPulseBufferSize pv,
      m_intermittentDataThreshold = pv_intermittentDataThreshold pv,
      m_doPulsePchgCorrect = pv_doPulsePchgCorrect pv, m_doPulseVetoCorrect = pv_doPulseVetoCorrect pv,
      getPulse_cnt = 0, markComplete_cnt = 0, intermittent = [], collected = co, recorded = [], discarded = []\<rparr>"

section \<open>Correction of charge and veto flags\<close>

definition baseInterPulseTime :: u64 where "baseInterPulseTime = 1000000000 div 60"
definition interPulseTimeMin :: u64 where "interPulseTimeMin = 77 * baseInterPulseTime div 100"
definition interPulseTimeMax :: u64 where "interPulseTimeMax = 123 * baseInterPulseTime div 100"

text \<open>The time from one pulse to the next in nanoseconds, in 64 bits that wrap around.\<close>

definition inter_pulse_time :: "u64 \<Rightarrow> u64 \<Rightarrow> u64" where
  "inter_pulse_time a b =
     (drop_bit 32 b - drop_bit 32 a) * 1000000000 + ((b AND 0xffffffff) - (a AND 0xffffffff))"

definition correct_rtdl :: "bool \<Rightarrow> bool \<Rightarrow> bytes \<Rightarrow> bytes \<Rightarrow> bytes" where
  "correct_rtdl pchg veto r next =
     (let r1 = (if pchg then rtdl_setPulseCharge (rtdl_pulseCharge next) r else r) in
      if veto then rtdl_setVetoFlags (rtdl_vetoFlags next) r1 else r1)"

definition correctPChargeVeto :: "bool \<Rightarrow> bool \<Rightarrow> pulse \<Rightarrow> pulse \<Rightarrow> pulse" where
  "correctPChargeVeto pchg veto p next =
     (let t = inter_pulse_time (fst (m_id p)) (fst (m_id next)) in
      if interPulseTimeMin < t \<and> t < interPulseTimeMax
      then (let
          p1 = (if pchg
                then p\<lparr>m_flags := m_flags p AND NOT PCHARGE_UNCORRECTED,
                       m_charge := (case m_rtdl next of
                           Some r \<Rightarrow> if m_charge next = 0 then rtdl_pulseCharge r else m_charge next
                         | None \<Rightarrow> m_charge next)\<rparr>
                else p);
          p2 = (if veto
                then p1\<lparr>m_flags := m_flags p1 AND NOT VETO_UNCORRECTED, m_vetoFlags := m_vetoFlags next\<rparr>
                else p1) in
        case (m_rtdl p2, m_rtdl next) of
          (Some r, Some n) \<Rightarrow> p2\<lparr>m_rtdl := Some (correct_rtdl pchg veto r n)\<rparr>
        | _ \<Rightarrow> p2)
      else p)"

section \<open>Recording\<close>

text \<open>
  The loop that records the first pulses of the buffer. Each pulse is corrected from the one behind it,
  which is there also when it is not recorded itself. The loop of the overflow marks a pulse that is
  still pending as partial.
\<close>

definition overdue :: "pulse \<Rightarrow> pulse" where
  "overdue p = (if m_pending p \<noteq> 0 then set_flag PARTIAL_DATA p else p)"

definition corrected :: "bool \<Rightarrow> bool \<Rightarrow> (pulse_key, pulse) omap \<Rightarrow> pulse \<Rightarrow> pulse" where
  "corrected pchg veto ps p =
     (if pchg \<or> veto then (case ps of [] \<Rightarrow> p | e # _ \<Rightarrow> correctPChargeVeto pchg veto p (snd e)) else p)"

fun record_loop ::
    "sms_config \<Rightarrow> (pulse \<Rightarrow> pulse) \<Rightarrow> bool \<Rightarrow> bool \<Rightarrow> nat \<Rightarrow> (pulse_key, pulse) omap \<Rightarrow> collect \<Rightarrow>
     pulse list \<times> collect" where
  "record_loop c mark pchg veto 0 ps co = ([], co)"
| "record_loop c mark pchg veto (Suc n) [] co = ([], co)"
| "record_loop c mark pchg veto (Suc n) (e # ps) co =
     (let (p, co1) = recordPulse c (corrected pchg veto ps (mark (snd e)), co);
          (rest, co2) = record_loop c mark pchg veto n ps co1 in (p # rest, co2))"

text \<open>Erasing the first \<open>n\<close> pulses, and what becomes of the cached iterator when pulses are erased.\<close>

definition drop_iterator :: "pulse_key set \<Rightarrow> buffer \<Rightarrow> buffer" where
  "drop_iterator ks s =
     (case m_lastPulseIt s of
        Some k \<Rightarrow> if k \<in> ks then s\<lparr>m_lastPulseIt := None\<rparr> else s
      | None \<Rightarrow> s)"

definition reset_last :: "pulse_key set \<Rightarrow> buffer \<Rightarrow> buffer" where
  "reset_last ks s = (if m_lastPid s \<in> ks then s\<lparr>m_lastPid := no_pid\<rparr> else s)"

definition record_first ::
    "sms_config \<Rightarrow> (pulse \<Rightarrow> pulse) \<Rightarrow> nat \<Rightarrow> buffer \<Rightarrow> buffer" where
  "record_first c mark n s =
     (let (rs, co) = record_loop c mark (m_doPulsePchgCorrect s) (m_doPulseVetoCorrect s) n
                       (m_pulses s) (collected s) in
      drop_iterator (om_keys (take n (m_pulses s)))
        (s\<lparr>m_pulses := drop n (m_pulses s), collected := co, recorded := recorded s @ rs\<rparr>))"

section \<open>Pulses that are done\<close>

definition source_bit :: "u32 \<Rightarrow> pulse \<Rightarrow> bool" where
  "source_bit i p = bit (m_pending p) (unat i)"

definition release :: "u32 \<Rightarrow> pulse \<Rightarrow> pulse" where
  "release i p =
     (if source_bit i p
      then (set_flag PARTIAL_DATA p)\<lparr>m_pending := unset_bit (unat i) (m_pending p)\<rparr> else p)"

definition release_all :: "u32 \<Rightarrow> (pulse_key, pulse) omap \<Rightarrow> (pulse_key, pulse) omap" where
  "release_all i ps = List.map (\<lambda>(k, p). (k, release i p)) ps"

text \<open>The position of the last pulse that waits for no source.\<close>

fun last_done :: "(pulse_key, pulse) omap \<Rightarrow> nat option" where
  "last_done [] = None"
| "last_done (e # ps) =
     (case last_done ps of
        Some i \<Rightarrow> Some (Suc i)
      | None \<Rightarrow> if m_pending (snd e) = 0 then Some 0 else None)"

text \<open>
  The loop that leaves the last \<open>b\<close> pulses of the buffer where they are: \<open>r\<close> is the reverse iterator as
  the number of pulses in front of its end, \<open>l\<close> the last pulse to record. \<open>None\<close> is the early return.
\<close>

fun hold_back :: "nat \<Rightarrow> nat \<Rightarrow> nat \<Rightarrow> nat option" where
  "hold_back 0 r l = Some l"
| "hold_back (Suc b) r l =
     (if r = 0 then None
      else if l = r - 1 then (if l = 0 then None else hold_back b (r - 1) (l - 1))
      else hold_back b (r - 1) l)"

section \<open>Event sources\<close>

text \<open>The first free bit of the set of sources.\<close>

definition free_source :: "source_set \<Rightarrow> nat option" where
  "free_source srcs = List.find (\<lambda>i. \<not> bit srcs i) [0 ..< SOURCE_SET_SIZE]"

definition registerEventSource :: "u32 \<Rightarrow> buffer \<Rightarrow> sms_error + (u32 \<times> buffer)" where
  "registerEventSource srcId s =
     (case free_source (m_eventSources s) of
        None \<Rightarrow> Inl No_More_Event_Sources
      | Some i \<Rightarrow>
          (let s1 = (if m_noRegisteredEventSources s
                     then s\<lparr>m_noRegisteredEventSourcesCount := 0, m_noRegisteredEventSources := False\<rparr>
                     else s) in
           Inr (of_nat i,
             s1\<lparr>m_eventSources := set_bit i (m_eventSources s1),
                m_eventSourcesIndex := (m_eventSourcesIndex s1)[i := srcId - 1]\<rparr>)))"

text \<open>The end of \<open>unregisterEventSource\<close>, from the label \<open>done\<close>.\<close>

definition free_id :: "u32 \<Rightarrow> buffer \<Rightarrow> buffer" where
  "free_id smsId s =
     (let s1 = s\<lparr>m_eventSources := unset_bit (unat smsId) (m_eventSources s),
                 m_eventSourcesIndex := (m_eventSourcesIndex s)[unat smsId := - 1]\<rparr> in
      if m_eventSources s1 = 0
      then s1\<lparr>m_noRegisteredEventSources := True, m_noRegisteredEventSourcesCount := 0\<rparr> else s1)"

text \<open>Recording up to and with the pulse at position \<open>l\<close>.\<close>

definition record_upto :: "sms_config \<Rightarrow> nat \<Rightarrow> buffer \<Rightarrow> buffer" where
  "record_upto c l s =
     reset_last (om_keys (take (Suc l) (m_pulses s))) (record_first c (\<lambda>p. p) (Suc l) s)"

text \<open>The argument \<open>srcId\<close> only goes into messages and is left out.\<close>

definition unregisterEventSource ::
    "sms_config \<Rightarrow> live_pvs \<Rightarrow> u32 \<Rightarrow> buffer \<Rightarrow> sms_error + buffer" where
  "unregisterEventSource c pv smsId s =
     (if smsId = NO_SOURCE then Inr s
      else if unat smsId \<ge> SOURCE_SET_SIZE then Inl Source_Out_Of_Range
      else
        (let s1 = s\<lparr>m_pulses := release_all smsId (m_pulses s)\<rparr> in
         case last_done (m_pulses s1) of
           None \<Rightarrow> Inr (free_id smsId s1)
         | Some l \<Rightarrow>
             (let s2 = s1\<lparr>m_noEoPPulseBufferSize := pv_noEoPPulseBufferSize pv\<rparr> in
              case (if source_count (m_eventSources s2) > 1
                    then hold_back (unat (m_noEoPPulseBufferSize s2)) (length (m_pulses s2)) l
                    else Some l) of
                None \<Rightarrow> Inr (free_id smsId s2)
              | Some l' \<Rightarrow>
                  Inr (free_id smsId (record_upto c l'
                    (s2\<lparr>m_doPulsePchgCorrect := pv_doPulsePchgCorrect pv,
                        m_doPulseVetoCorrect := pv_doPulseVetoCorrect pv\<rparr>))))))"

text \<open>
  \<open>popPulseBuffer\<close> throws one pulse away: index 1 (or 0) is the first, -1 the last.
\<close>

definition pop_position :: "int \<Rightarrow> nat \<Rightarrow> nat option" where
  "pop_position i n =
     (if n = 0 then None
      else if i < 0 then (if nat (- i) > n then None else Some (n - nat (- i)))
      else if nat i > n then None else Some (nat i - 1))"

definition popPulseBuffer :: "int \<Rightarrow> buffer \<Rightarrow> buffer" where
  "popPulseBuffer i s =
     (case pop_position i (length (m_pulses s)) of
        None \<Rightarrow> s
      | Some n \<Rightarrow>
          (let k = fst (m_pulses s ! n) in
           drop_iterator {k} (reset_last {k} s)
             \<lparr>m_pulses := take n (m_pulses s) @ drop (Suc n) (m_pulses s),
              discarded := discarded s @ [snd (m_pulses s ! n)]\<rparr>))"

section \<open>Looking up a pulse\<close>

definition created :: "pulse_key \<Rightarrow> source_set \<Rightarrow> pulse" where
  "created pid srcs =
     (let p = set_flag VETO_UNCORRECTED (set_flag PCHARGE_UNCORRECTED (new_pulse pid srcs)) in
      if snd pid \<noteq> 0 then set_flag DUPLICATE_PULSE p else p)"

text \<open>The check of the size of the buffer, with the counter already incremented.\<close>

definition check_overflow :: "sms_config \<Rightarrow> live_pvs \<Rightarrow> buffer \<Rightarrow> buffer" where
  "check_overflow c pv s =
     (if getPulse_cnt s mod 60 \<noteq> 0 then s
      else
        (let s1 = (if getPulse_cnt s mod 3600 = 0
                   then s\<lparr>m_maxPulseBufferSize := pv_maxPulseBufferSize pv\<rparr> else s) in
         if length (m_pulses s1) > unat (m_maxPulseBufferSize s1)
         then record_first c overdue (unat (of_nat (length (m_pulses s1)) - m_maxPulseBufferSize s1 + 1))
                (s1\<lparr>m_doPulsePchgCorrect := pv_doPulsePchgCorrect pv,
                    m_doPulseVetoCorrect := pv_doPulseVetoCorrect pv\<rparr>)
         else s1))"

definition note_pulse_id :: "u64 \<Rightarrow> buffer \<Rightarrow> buffer" where
  "note_pulse_id pulseId s =
     s\<lparr>m_lastPulseId := (if m_pulses s = [] then pulseId else fst (fst (last (m_pulses s))))\<rparr>"

definition insert_pulse :: "pulse_key \<Rightarrow> pulse \<Rightarrow> buffer \<Rightarrow> buffer" where
  "insert_pulse pid p s =
     s\<lparr>m_pulses := om_insert pid p (m_pulses s), m_lastPid := pid, m_lastPulseIt := Some pid\<rparr>"

definition getPulse ::
    "sms_config \<Rightarrow> live_pvs \<Rightarrow> pulse_key \<Rightarrow> buffer \<Rightarrow> sms_error + (pulse_key \<times> buffer)" where
  "getPulse c pv pid s =
     (if pid = m_lastPid s
      then (case m_lastPulseIt s of None \<Rightarrow> Inl Dangling_Iterator | Some k \<Rightarrow> Inr (k, s))
      else if pid \<in> om_keys (m_pulses s)
      then Inr (pid, s\<lparr>m_lastPid := pid, m_lastPulseIt := Some pid\<rparr>)
      else
        (let s1 = note_pulse_id (fst pid) (s\<lparr>getPulse_cnt := getPulse_cnt s + 1\<rparr>);
             p = created pid (m_eventSources s1) in
         Inr (pid, insert_pulse pid p (check_overflow c pv s1))))"

definition on_pulse :: "pulse_key \<Rightarrow> (pulse \<Rightarrow> pulse) \<Rightarrow> buffer \<Rightarrow> buffer" where
  "on_pulse k f s = s\<lparr>m_pulses := om_update k f (m_pulses s)\<rparr>"

definition markPartial ::
    "sms_config \<Rightarrow> live_pvs \<Rightarrow> pulse_key \<Rightarrow> buffer \<Rightarrow> sms_error + buffer" where
  "markPartial c pv pid s =
     sbind (getPulse c pv pid s) (\<lambda>(k, s1). Inr (on_pulse k (set_flag PARTIAL_DATA) s1))"

section \<open>Completing a pulse\<close>

text \<open>
  The search for an intermittent source: the number of pulses each source is pending for is counted in
  the order of the pulses until one reaches the threshold. (The code stops scanning the sources of a
  pulse when it has seen all pending ones, which finds the same source.)
\<close>

fun scan_sources :: "u32 \<Rightarrow> nat list \<Rightarrow> u32 list \<Rightarrow> u32 list + nat" where
  "scan_sources limit [] counts = Inl counts"
| "scan_sources limit (i # is) counts =
     (let counts1 = counts[i := counts ! i + 1] in
      if counts1 ! i \<ge> limit then Inr i else scan_sources limit is counts1)"

fun scan_pulses :: "u32 \<Rightarrow> (pulse_key, pulse) omap \<Rightarrow> u32 list \<Rightarrow> nat option" where
  "scan_pulses limit [] counts = None"
| "scan_pulses limit (e # ps) counts =
     (case scan_sources limit (List.filter (bit (m_pending (snd e))) [0 ..< SOURCE_SET_SIZE]) counts of
        Inr i \<Rightarrow> Some i
      | Inl counts1 \<Rightarrow> scan_pulses limit ps counts1)"

definition find_intermittent :: "buffer \<Rightarrow> nat option" where
  "find_intermittent s =
     (if m_intermittentDataThreshold s > 0
         \<and> length (m_pulses s) > unat (m_intermittentDataThreshold s)
         \<and> source_count (m_eventSources s) > 1
      then scan_pulses (m_intermittentDataThreshold s) (m_pulses s) (replicate SOURCE_SET_SIZE 0)
      else None)"

text \<open>
  The data source is told first (\<open>setIntermittent\<close>, here the field \<open>intermittent\<close>), then its event
  source is given up.
\<close>

definition check_intermittent :: "sms_config \<Rightarrow> live_pvs \<Rightarrow> buffer \<Rightarrow> sms_error + buffer" where
  "check_intermittent c pv s =
     (case find_intermittent s of
        None \<Rightarrow> Inr s
      | Some i \<Rightarrow>
          (let src = m_eventSourcesIndex s ! i in
           if src \<noteq> - 1 \<and> src < c_numDataSources c
           then unregisterEventSource c pv (of_nat i)
                  (s\<lparr>intermittent := intermittent s @ [(src, of_nat i)]\<rparr>)
           else Inr s))"

text \<open>
  Every pulse before the current one is released from the source; the current one is completed for it.
  For \<open>NO_SOURCE\<close> nothing changes. The result is also the last pulse that is complete.
\<close>

definition position :: "pulse_key \<Rightarrow> (pulse_key, pulse) omap \<Rightarrow> nat" where
  "position k ps = length (takeWhile (\<lambda>e. fst e \<noteq> k) ps)"

definition complete_for :: "u32 \<Rightarrow> pulse \<Rightarrow> pulse" where
  "complete_for i p = p\<lparr>m_pending := unset_bit (unat i) (m_pending p)\<rparr>"

definition complete_current ::
    "u32 \<Rightarrow> pulse_key \<Rightarrow> (pulse_key, pulse) omap \<Rightarrow> (pulse_key, pulse) omap \<times> nat option" where
  "complete_current smsId k ps =
     (let n = position k ps;
          front = (if smsId = NO_SOURCE then take n ps else release_all smsId (take n ps));
          rest = (if smsId = NO_SOURCE then drop n ps else om_update k (complete_for smsId) (drop n ps));
          earlier = (if smsId = NO_SOURCE then None else last_done front) in
      (front @ rest, if m_pending (snd (hd rest)) = 0 then Some n else earlier))"

definition poll_threshold :: "live_pvs \<Rightarrow> buffer \<Rightarrow> buffer" where
  "poll_threshold pv s =
     (let s1 = s\<lparr>markComplete_cnt := markComplete_cnt s + 1\<rparr> in
      if markComplete_cnt s1 mod 3600 = 0
      then s1\<lparr>m_intermittentDataThreshold := pv_intermittentDataThreshold pv\<rparr> else s1)"

definition poll_buffer_size :: "live_pvs \<Rightarrow> buffer \<Rightarrow> buffer" where
  "poll_buffer_size pv s =
     (if markComplete_cnt s mod 600 = 0
      then s\<lparr>m_noEoPPulseBufferSize := pv_noEoPPulseBufferSize pv\<rparr> else s)"

definition poll_corrections :: "live_pvs \<Rightarrow> buffer \<Rightarrow> buffer" where
  "poll_corrections pv s =
     (if markComplete_cnt s mod 600 = 0
      then s\<lparr>m_doPulsePchgCorrect := pv_doPulsePchgCorrect pv,
             m_doPulseVetoCorrect := pv_doPulseVetoCorrect pv\<rparr> else s)"

definition record_complete :: "sms_config \<Rightarrow> live_pvs \<Rightarrow> nat \<Rightarrow> buffer \<Rightarrow> buffer" where
  "record_complete c pv l s =
     (let s1 = poll_buffer_size pv s in
      case hold_back (unat (m_noEoPPulseBufferSize s1)) (length (m_pulses s1)) l of
        None \<Rightarrow> s1
      | Some l' \<Rightarrow> record_upto c l' (poll_corrections pv s1))"

definition markComplete ::
    "sms_config \<Rightarrow> live_pvs \<Rightarrow> pulse_key \<Rightarrow> u32 \<Rightarrow> buffer \<Rightarrow> sms_error + buffer" where
  "markComplete c pv pid smsId s =
     sbind (check_intermittent c pv (poll_threshold pv s)) (\<lambda>s1.
     sbind (getPulse c pv pid s1) (\<lambda>(k, s2).
       if smsId \<noteq> NO_SOURCE \<and> unat smsId \<ge> SOURCE_SET_SIZE then Inl Source_Out_Of_Range
       else
         (let (ps, done) = complete_current smsId k (m_pulses s2);
              s3 = s2\<lparr>m_pulses := ps\<rparr> in
          case done of None \<Rightarrow> Inr s3 | Some l \<Rightarrow> Inr (record_complete c pv l s3))))"

section \<open>RTDL packets and events\<close>

definition rtdl_gotDataFlags :: "bytes \<Rightarrow> bool" where
  "rtdl_gotDataFlags mem \<longleftrightarrow> version (header_at mem) \<ge> 1"

definition take_rtdl :: "bytes \<Rightarrow> pulse \<Rightarrow> pulse" where
  "take_rtdl mem p =
     (let got = rtdl_gotDataFlags mem;
          p1 = (if got \<and> rtdl_dataFlags mem AND DATA_GOT_NEUTRONS \<noteq> 0 then set_flag GOT_NEUTRONS p else p);
          p2 = (if got \<and> rtdl_dataFlags mem AND DATA_GOT_METADATA \<noteq> 0 then set_flag GOT_METADATA p1 else p1) in
      p2\<lparr>m_vetoFlags := ucast (rtdl_vetoFlags mem), m_cycle := ucast (rtdl_cycle mem),
         m_ringPeriod := rtdl_ringPeriod mem, m_rtdl := Some mem\<rparr>)"

definition pulseRTDL ::
    "sms_config \<Rightarrow> live_pvs \<Rightarrow> bytes \<Rightarrow> u32 \<Rightarrow> buffer \<Rightarrow> sms_error + buffer" where
  "pulseRTDL c pv mem dup s =
     (let pid = (pulse_id (header_at mem), dup) in
      sbind (getPulse c pv pid s) (\<lambda>(k, s1).
        case map_of (m_pulses s1) k of
          None \<Rightarrow> Inl Dangling_Iterator
        | Some p \<Rightarrow>
            if m_rtdl p \<noteq> None then Inr s1
            else
              (let s2 = on_pulse k (take_rtdl mem) (s1\<lparr>m_lastRingPeriod := rtdl_ringPeriod mem\<rparr>) in
               if m_pending p \<noteq> 0 then Inr s2
               else
                 (let s3 = (if m_numEventSources p = 0
                            then s2\<lparr>m_noRegisteredEventSourcesCount := m_noRegisteredEventSourcesCount s2 + 1\<rparr>
                            else s2) in
                  markComplete c pv pid NO_SOURCE (on_pulse k (set_flag PARTIAL_DATA) s3)))))"

text \<open>\<open>pulseEvents\<close>: the pulse is looked up, the events of the packet are sorted into it.\<close>

definition pulseEvents ::
    "sms_config \<Rightarrow> live_pvs \<Rightarrow> settings \<Rightarrow> bytes \<Rightarrow> u32 \<Rightarrow> u32 \<Rightarrow> bool \<Rightarrow> bool \<Rightarrow> buffer \<Rightarrow>
     sms_error + (buffer \<times> tally)" where
  "pulseEvents c pv st mem hwId dup is_mapped mixed s =
     sbind (getPulse c pv (pulse_id (header_at mem), dup) s) (\<lambda>(k, s1).
       case map_of (m_pulses s1) k of
         None \<Rightarrow> Inl Dangling_Iterator
       | Some p \<Rightarrow>
           sbind (collect_packet c st (m_lastRingPeriod s1) mem hwId is_mapped mixed (p, collected s1))
             (\<lambda>(p1, co, ta). Inr (on_pulse k (\<lambda>_. p1) (s1\<lparr>collected := co\<rparr>), ta)))"

end
