(* ===== verification/Pulse_Queue.thy ===== *)
theory Pulse_Queue
  imports Pulse_Buffer
begin

text \<open>
  The pulse buffer as a queue. The operations of \<open>Pulse_Buffer\<close> are broken up into small steps
  (\<open>step\<close>): a pulse arrives, changes, is released or completed, the oldest pulses are recorded, one is
  thrown away, a source comes or goes. Facts about runs are invariants of these steps (locale
  \<open>buffer_invariant\<close>): the buffer refines an ordered queue, no pulse is lost, and while no pulse arrives
  out of order every recorded pulse is complete or marked as partial. A pulse that all its sources
  complete is recorded as soon as enough newer pulses are behind it.
\<close>

unbundle bit_operations_syntax

section \<open>Sets of sources and flags\<close>

definition within :: "source_set \<Rightarrow> source_set \<Rightarrow> bool" where
  "within a b \<longleftrightarrow> a AND b = a"

lemma bit_source_less: "bit (w :: source_set) i \<Longrightarrow> i < 256"
  using bit_imp_le_length [of w i] by simp

lemma within_iff: "within a b \<longleftrightarrow> (\<forall>i. bit a i \<longrightarrow> bit b i)"
  unfolding within_def bit_eq_iff by (auto simp: bit_simps) (metis bit_source_less)

lemma within_refl [simp]: "within a a"
  by (simp add: within_iff)

lemma within_trans [trans]: "within a b \<Longrightarrow> within b c \<Longrightarrow> within a c"
  by (simp add: within_iff)

lemma within_zero [simp]: "within 0 b" "within a 0 \<longleftrightarrow> a = 0"
  by (auto simp: within_def)

lemma bit_unset_source: "bit (unset_bit n w :: source_set) i \<longleftrightarrow> bit w i \<and> i \<noteq> n"
  by (auto simp: bit_unset_bit_iff)

lemma bit_set_source: "n < 256 \<Longrightarrow> bit (set_bit n w :: source_set) i \<longleftrightarrow> bit w i \<or> i = n"
  by (auto simp: bit_set_bit_iff possible_bit_def dest: bit_source_less)

abbreviation partial :: "pulse \<Rightarrow> bool" where "partial \<equiv> has_flag PARTIAL_DATA"

lemma partial_bit: "partial p \<longleftrightarrow> bit (m_flags p) 1"
proof -
  have "m_flags p AND 2 = (if bit (m_flags p) 1 then 2 else 0)"
    by (rule bit_word_eqI) (auto simp: bit_simps split: if_splits)
  then show ?thesis
    by (simp add: has_flag_def PARTIAL_DATA_def)
qed

lemma set_flag_fields [simp]:
  "m_id (set_flag f p) = m_id p" "m_pending (set_flag f p) = m_pending p"
  "m_rtdl (set_flag f p) = m_rtdl p" "m_numEventSources (set_flag f p) = m_numEventSources p"
  by (simp_all add: set_flag_def)

lemma partial_set_flag [simp]: "partial p \<Longrightarrow> partial (set_flag f p)"
  by (simp add: partial_bit set_flag_def bit_simps)

lemma partial_marked [simp]: "partial (set_flag PARTIAL_DATA p)"
  unfolding partial_bit by (simp add: set_flag_def PARTIAL_DATA_def bit_simps)

text \<open>Changes of a pulse that keep its key and what it waits for.\<close>

definition keeps :: "pulse \<Rightarrow> pulse \<Rightarrow> bool" where
  "keeps p p' \<longleftrightarrow> m_id p' = m_id p \<and> m_pending p' = m_pending p \<and> (partial p \<longrightarrow> partial p')"

named_theorems keeps_intros

lemma keeps_refl [simp, keeps_intros]: "keeps p p"
  by (simp add: keeps_def)

lemma keeps_trans [trans]: "keeps a b \<Longrightarrow> keeps b d \<Longrightarrow> keeps a d"
  by (auto simp: keeps_def)

lemma keeps_set_flag [keeps_intros]: "keeps p (set_flag f p)"
  by (simp add: keeps_def)

lemma keeps_fields: "m_id p' = m_id p \<Longrightarrow> m_pending p' = m_pending p \<Longrightarrow> m_flags p' = m_flags p \<Longrightarrow> keeps p p'"
  by (simp add: keeps_def partial_bit)

lemma keeps_correct: "keeps p (correctPChargeVeto a b p q)"
  unfolding keeps_def partial_bit correctPChargeVeto_def Let_def
  by (auto simp: bit_simps PCHARGE_UNCORRECTED_def VETO_UNCORRECTED_def split: option.split)

lemma keeps_corrected [keeps_intros]: "keeps p (corrected a b ps p)"
  by (auto simp: corrected_def keeps_correct split: list.split)

lemma keeps_recordPulse [keeps_intros]:
  "keeps p (fst (recordPulse c (p, co)))"
proof -
  have "fst (recordPulse c (p, co)) = mark_recorded c p"
    by (auto simp: recordPulse_def Let_def split: prod.split)
  then show ?thesis
    by (auto simp: mark_recorded_def Let_def keeps_set_flag keeps_trans [OF keeps_set_flag keeps_set_flag])
qed

section \<open>Events keep what a pulse waits for\<close>

lemma keeps_push: "push_event c pl state t (p, src) = Inr (p', src') \<Longrightarrow> keeps p p'"
  by (auto simp: push_event_def Let_def split: if_splits intro!: keeps_fields)

lemma keeps_place: "place_event c st pl t (p, src, co) = Inr (p', src', co') \<Longrightarrow> keeps p p'"
  unfolding place_event_def
  by (auto simp: Let_def sbind_eq_Inr split: if_splits prod.splits dest!: keeps_push
    intro: keeps_trans [OF keeps_set_flag])

lemma keeps_fast: "addFastMetaEvent alloc e (p, co) = Inr (p', co') \<Longrightarrow> keeps p p'"
  unfolding addFastMetaEvent_def
  by (auto simp: Let_def split: option.splits sum.splits prod.splits intro!: keeps_fields)

lemma keeps_event_step:
  assumes "event_step c st mem im e (p, src, co, ta) = Inr (p', src', co', ta')"
  shows "keeps p p'"
proof -
  have flag: "keeps (set_flag f p) p' \<Longrightarrow> keeps p p'" for f
    by (rule keeps_trans [OF keeps_set_flag])
  show ?thesis
    using assms unfolding event_step_def
    by (auto simp: Let_def sbind_eq_Inr addMonitorEvent_def addChopperEvent_def
        split: if_splits prod.splits dest!: keeps_fast keeps_place flag)
       (rule keeps_fields; simp)+
qed

lemma keeps_event_loop: "event_loop c st mem im es (p, src, co, ta) = Inr (p', src', co', ta') \<Longrightarrow> keeps p p'"
proof (induction es arbitrary: p src co ta)
  case Nil
  then show ?case by simp
next
  case (Cons e es)
  then obtain p1 src1 co1 ta1 where "event_step c st mem im e (p, src, co, ta) = Inr (p1, src1, co1, ta1)"
    and "event_loop c st mem im es (p1, src1, co1, ta1) = Inr (p', src', co', ta')"
    by (auto simp: sbind_eq_Inr)
  then show ?case
    by (auto intro: keeps_trans [OF keeps_event_step] Cons.IH)
qed

lemma keeps_collect:
  assumes "collect_packet c st r mem hw im mixed (p, co) = Inr (p', co', ta)"
  shows "keeps p p'"
proof -
  let ?p1 = "take_pulse_fields r mem p"
  obtain src p3 src3 co3 where
    loop: "event_loop c st mem im (raw_events mem)
      (take_charge mem (?p1\<lparr>m_pulseSources := om_insert hw (new_source c mem co) (m_pulseSources ?p1)\<rparr>),
       src, co, no_tally) = Inr (p3, src3, co3, ta)"
    and p': "p' = mark_kinds mem mixed ta
      (p3\<lparr>m_pulseSources := om_update hw (\<lambda>_. src3) (m_pulseSources p3)\<rparr>)"
    using assms unfolding collect_packet_def Let_def by (auto simp: sbind_eq_Inr)
  have "keeps p (take_charge mem (?p1\<lparr>m_pulseSources := x\<rparr>))" for x
    by (rule keeps_fields) (auto simp: take_charge_def take_pulse_fields_def split: option.split)
  also note keeps_event_loop [OF loop]
  also have "keeps p3 (p3\<lparr>m_pulseSources := x\<rparr>)" for x
    by (rule keeps_fields) auto
  also have "keeps q (mark_kinds mem mixed ta q)" for q
    unfolding mark_kinds_def Let_def by (auto intro: keeps_trans [OF keeps_set_flag] keeps_set_flag)
  finally show ?thesis
    unfolding p' .
qed

lemma keeps_rtdl [keeps_intros]: "keeps p (take_rtdl mem p)"
  unfolding take_rtdl_def Let_def keeps_def by (auto simp: partial_bit set_flag_def bit_simps)

section \<open>Small steps\<close>

definition same_core :: "buffer \<Rightarrow> buffer \<Rightarrow> bool" where
  "same_core s s' \<longleftrightarrow> m_pulses s' = m_pulses s \<and> m_eventSources s' = m_eventSources s \<and>
     recorded s' = recorded s \<and> discarded s' = discarded s \<and> m_lastPid s' = m_lastPid s \<and> m_lastPulseIt s' = m_lastPulseIt s"

abbreviation buffered :: "buffer \<Rightarrow> pulse_key set" where
  "buffered s \<equiv> om_keys (m_pulses s)"

text \<open>\<open>arrives\<close> says which new pulses may come while certain pulses are in the buffer.\<close>

type_synonym arrivals = "pulse_key set \<Rightarrow> pulse_key \<Rightarrow> bool"

inductive step :: "sms_config \<Rightarrow> arrivals \<Rightarrow> buffer \<Rightarrow> buffer \<Rightarrow> bool"
  for c :: sms_config and arrives :: arrivals where
  other: "same_core s s' \<Longrightarrow> step c arrives s s'"
| look_up: "k \<in> buffered s \<Longrightarrow> step c arrives s (s\<lparr>m_lastPid := k, m_lastPulseIt := Some k\<rparr>)"
| arrive: "k \<notin> buffered s \<Longrightarrow> k \<noteq> no_pid \<Longrightarrow> arrives (buffered s) k \<Longrightarrow>
    step c arrives s
      (insert_pulse k (created k (m_eventSources s)) (record_first c overdue n s))"
| change: "(\<And>p. map_of (m_pulses s) k = Some p \<Longrightarrow> keeps p (f p)) \<Longrightarrow>
    step c arrives s (on_pulse k f s)"
| give_up: "step c arrives s (s\<lparr>m_pulses := release_all i (m_pulses s)\<rparr>)"
| finish: "k \<in> buffered s \<Longrightarrow>
    step c arrives s (s\<lparr>m_pulses := fst (complete_current i k (m_pulses s))\<rparr>)"
| record_done: "l \<le> j \<Longrightarrow> j < length (m_pulses s) \<Longrightarrow> m_pending (snd (m_pulses s ! j)) = 0 \<Longrightarrow>
    step c arrives s (record_upto c l s)"
| throw_away: "step c arrives s (popPulseBuffer i s)"
| source_comes: "i < 256 \<Longrightarrow>
    step c arrives s (s\<lparr>m_eventSources := set_bit i (m_eventSources s)\<rparr>)"
| source_goes: "(\<And>k p. (k, p) \<in> set (m_pulses s) \<Longrightarrow> \<not> bit (m_pending p) i) \<Longrightarrow>
    step c arrives s (s\<lparr>m_eventSources := unset_bit i (m_eventSources s)\<rparr>)"

abbreviation steps :: "sms_config \<Rightarrow> arrivals \<Rightarrow> buffer \<Rightarrow> buffer \<Rightarrow> bool" where
  "steps c arrives \<equiv> (step c arrives)\<^sup>*\<^sup>*"

section \<open>What the steps do\<close>

lemma record_loop_keeps:
  "list_all2 (\<lambda>e p. keeps (mark (snd e)) p) (take n ps) (fst (record_loop c mark a b n ps co))"
proof (induction c mark a b n ps co rule: record_loop.induct)
  case (3 c mark a b n e ps co)
  obtain p co1 where p: "recordPulse c (corrected a b ps (mark (snd e)), co) = (p, co1)"
    by fastforce
  have "keeps (corrected a b ps (mark (snd e))) p"
    using keeps_recordPulse [of "corrected a b ps (mark (snd e))" c co] by (simp add: p)
  then have "keeps (mark (snd e)) p"
    by (rule keeps_trans [OF keeps_corrected])
  then show ?case
    using 3 [OF p [symmetric] refl] by (auto simp: p split: prod.split)
qed simp_all

lemma drop_iterator_fields [simp]:
  "m_pulses (drop_iterator ks s) = m_pulses s" "recorded (drop_iterator ks s) = recorded s"
  "discarded (drop_iterator ks s) = discarded s"
  "m_eventSources (drop_iterator ks s) = m_eventSources s" "m_lastPid (drop_iterator ks s) = m_lastPid s"
  "m_lastPulseIt (drop_iterator ks s) =
     (case m_lastPulseIt s of None \<Rightarrow> None | Some k \<Rightarrow> if k \<in> ks then None else Some k)"
  by (auto simp: drop_iterator_def split: option.split)

lemma reset_last_fields [simp]:
  "m_pulses (reset_last ks s) = m_pulses s" "recorded (reset_last ks s) = recorded s"
  "discarded (reset_last ks s) = discarded s"
  "m_eventSources (reset_last ks s) = m_eventSources s"
  "m_lastPid (reset_last ks s) = (if m_lastPid s \<in> ks then no_pid else m_lastPid s)"
  "m_lastPulseIt (reset_last ks s) = m_lastPulseIt s"
  by (auto simp: reset_last_def)

lemma record_first_fields:
  obtains rs where "m_pulses (record_first c mark n s) = drop n (m_pulses s)"
    "recorded (record_first c mark n s) = recorded s @ rs"
    "m_eventSources (record_first c mark n s) = m_eventSources s"
    "discarded (record_first c mark n s) = discarded s"
    "m_lastPid (record_first c mark n s) = m_lastPid s"
    "m_lastPulseIt (record_first c mark n s) = (case m_lastPulseIt s of None \<Rightarrow> None
       | Some k \<Rightarrow> if k \<in> om_keys (take n (m_pulses s)) then None else Some k)"
    "list_all2 (\<lambda>e p. keeps (mark (snd e)) p) (take n (m_pulses s)) rs"
proof
  define r where "r = record_loop c mark (m_doPulsePchgCorrect s) (m_doPulseVetoCorrect s) n
    (m_pulses s) (collected s)"
  show "m_pulses (record_first c mark n s) = drop n (m_pulses s)"
    "recorded (record_first c mark n s) = recorded s @ fst r"
    "m_eventSources (record_first c mark n s) = m_eventSources s"
    "discarded (record_first c mark n s) = discarded s"
    "m_lastPid (record_first c mark n s) = m_lastPid s"
    "m_lastPulseIt (record_first c mark n s) = (case m_lastPulseIt s of None \<Rightarrow> None
       | Some k \<Rightarrow> if k \<in> om_keys (take n (m_pulses s)) then None else Some k)"
    unfolding record_first_def r_def [symmetric] by (simp_all split: prod.split option.split)
  show "list_all2 (\<lambda>e p. keeps (mark (snd e)) p) (take n (m_pulses s)) (fst r)"
    unfolding r_def by (rule record_loop_keeps)
qed

text \<open>Changes that keep the keys and only ever shrink what the pulses wait for.\<close>

definition shrinks :: "(pulse_key, pulse) omap \<Rightarrow> (pulse_key, pulse) omap \<Rightarrow> bool" where
  "shrinks = list_all2 (\<lambda>e e'. fst e' = fst e \<and> m_id (snd e') = m_id (snd e) \<and>
     within (m_pending (snd e')) (m_pending (snd e)))"

lemma shrinks_keys: "shrinks ps ps' \<Longrightarrow> List.map fst ps' = List.map fst ps"
  unfolding shrinks_def by (induction rule: list_all2_induct) auto

lemma shrinks_refl: "shrinks ps ps"
  unfolding shrinks_def by (simp add: list.rel_refl)

lemma shrinks_append: "shrinks a a' \<Longrightarrow> shrinks b b' \<Longrightarrow> shrinks (a @ b) (a' @ b')"
  unfolding shrinks_def by (rule list_all2_appendI)

lemma release_fields: "m_id (release i p) = m_id p" "m_pending (release i p) = unset_bit (unat i) (m_pending p)"
proof -
  show "m_id (release i p) = m_id p"
    by (simp add: release_def)
  show "m_pending (release i p) = unset_bit (unat i) (m_pending p)"
    by (auto simp: release_def source_bit_def intro!: bit_word_eqI)
       (auto simp: bit_unset_bit_iff)
qed

lemma shrinks_release: "shrinks ps (release_all i ps)"
  unfolding shrinks_def release_all_def
  by (auto simp: list_all2_conv_all_nth release_fields within_iff bit_unset_source split: prod.split)

lemma on_pulse_split:
  assumes "om_ok ps" and "k \<in> om_keys ps"
  obtains a p b where "ps = a @ (k, p) # b" "k \<notin> om_keys a" "k \<notin> om_keys b" "map_of ps k = Some p"
  using assms by (metis om_keys_iff om_split not_Some_eq)

lemma position_split [simp]: "k \<notin> om_keys a \<Longrightarrow> position k (a @ (k, p) # b) = length a"
  unfolding position_def by (subst takeWhile_append2) auto

lemma complete_current_split:
  assumes "k \<notin> om_keys a" "k \<notin> om_keys b"
  shows "complete_current i k (a @ (k, p) # b) =
    (if i = NO_SOURCE then (a @ (k, p) # b, if m_pending p = 0 then Some (length a) else None)
     else (release_all i a @ (k, complete_for i p) # b,
           if m_pending (complete_for i p) = 0 then Some (length a) else last_done (release_all i a)))"
  using assms by (simp add: complete_current_def Let_def om_update_Cons om_update_notin)

lemma shrinks_finish:
  assumes "om_ok ps" and "k \<in> om_keys ps"
  shows "shrinks ps (fst (complete_current i k ps))"
proof -
  obtain a p b where ps: "ps = a @ (k, p) # b" and k: "k \<notin> om_keys a" "k \<notin> om_keys b"
    using assms by (rule on_pulse_split)
  have one: "shrinks ((k, p) # b) ((k, complete_for i p) # b)"
    using shrinks_refl [of b]
    by (simp add: shrinks_def complete_for_def within_iff bit_unset_source)
  show ?thesis
    unfolding ps complete_current_split [OF k]
    using shrinks_append [OF shrinks_release one] by (simp add: shrinks_refl)
qed

lemma shrinks_change:
  assumes ok: "om_ok ps" and f: "\<And>p. map_of ps k = Some p \<Longrightarrow> keeps p (f p)"
  shows "shrinks ps (om_update k f ps)"
proof (cases "k \<in> om_keys ps")
  case True
  with ok obtain a p b where ps: "ps = a @ (k, p) # b" and k: "k \<notin> om_keys a" "k \<notin> om_keys b"
    and p: "map_of ps k = Some p" by (rule on_pulse_split)
  have one: "shrinks ((k, p) # b) ((k, f p) # b)"
    using shrinks_refl [of b] f [OF p] by (simp add: shrinks_def keeps_def)
  show ?thesis
    unfolding ps om_update_split [OF k] by (rule shrinks_append [OF shrinks_refl one])
next
  case False
  then show ?thesis
    by (simp add: om_update_notin shrinks_refl)
qed

section \<open>Well-formed buffers\<close>

definition pulses_ok :: "source_set \<Rightarrow> (pulse_key, pulse) omap \<Rightarrow> bool" where
  "pulses_ok srcs ps \<longleftrightarrow> om_ok ps \<and> no_pid \<notin> om_keys ps \<and>
     list_all (\<lambda>e. m_id (snd e) = fst e \<and> within (m_pending (snd e)) srcs) ps"

definition cache_ok :: "buffer \<Rightarrow> bool" where
  "cache_ok s \<longleftrightarrow>
     (if m_lastPid s \<in> buffered s then m_lastPulseIt s = Some (m_lastPid s)
      else m_lastPid s \<in> {(0, 0), no_pid} \<and> m_lastPulseIt s = None)"

definition buffer_ok :: "buffer \<Rightarrow> bool" where
  "buffer_ok s \<longleftrightarrow> pulses_ok (m_eventSources s) (m_pulses s) \<and> cache_ok s"

lemma new_buffer_ok: "buffer_ok (new_buffer pv co)"
  by (simp add: buffer_ok_def pulses_ok_def cache_ok_def new_buffer_def no_pid_def)

lemma pulses_ok_om: "pulses_ok srcs ps \<Longrightarrow> om_ok ps"
  by (simp add: pulses_ok_def)

lemma buffer_ok_om: "buffer_ok s \<Longrightarrow> om_ok (m_pulses s)"
  by (simp add: buffer_ok_def pulses_ok_def)

lemma pulses_ok_append: "pulses_ok srcs (a @ b) \<Longrightarrow> pulses_ok srcs a \<and> pulses_ok srcs b"
  by (auto simp: pulses_ok_def om_ok_append)

lemma pulses_ok_drop: "pulses_ok srcs ps \<Longrightarrow> pulses_ok srcs (drop n ps)"
  using pulses_ok_append [of srcs "take n ps" "drop n ps"] by simp

lemma pulses_ok_shrinks:
  assumes "pulses_ok srcs ps" and "shrinks ps ps'"
  shows "pulses_ok srcs ps'"
proof -
  note keys = shrinks_keys [OF assms(2)]
  have "om_keys ps' = om_keys ps"
    using arg_cong [OF keys, of set] by simp
  moreover have "om_ok ps'"
    using assms(1) by (simp add: pulses_ok_def om_ok_def keys)
  moreover have "list_all (\<lambda>e. m_id (snd e) = fst e \<and> within (m_pending (snd e)) srcs) ps'"
    using assms unfolding pulses_ok_def shrinks_def
    by (fastforce simp: list_all_length list_all2_conv_all_nth intro: within_trans)
  ultimately show ?thesis
    using assms(1) by (simp add: pulses_ok_def)
qed

lemma shrinks_buffered: "shrinks ps ps' \<Longrightarrow> om_keys ps' = om_keys ps"
  using arg_cong [OF shrinks_keys, of ps ps' set] by simp

lemma buffer_ok_shrinks:
  assumes "buffer_ok s" and "shrinks (m_pulses s) ps"
  shows "buffer_ok (s\<lparr>m_pulses := ps\<rparr>)"
  using assms pulses_ok_shrinks [OF _ assms(2)]
  by (auto simp: buffer_ok_def cache_ok_def shrinks_buffered [OF assms(2)] split: if_splits)

lemma list_all_om_insert: "list_all P m \<Longrightarrow> P (k, v) \<Longrightarrow> list_all P (om_insert k v m)"
  by (induction k v m rule: om_insert.induct) auto

lemma created_fields [simp]: "m_id (created k srcs) = k" "m_pending (created k srcs) = srcs"
  by (auto simp: created_def Let_def new_pulse_def set_flag_def)

lemma pulses_ok_arrive:
  "pulses_ok srcs ps \<Longrightarrow> k \<noteq> no_pid \<Longrightarrow> pulses_ok srcs (om_insert k (created k srcs) ps)"
  by (auto simp: pulses_ok_def intro: list_all_om_insert)

lemma buffer_ok_record_upto:
  assumes "buffer_ok s"
  shows "buffer_ok (record_upto c l s)"
proof -
  let ?n = "Suc l"
  obtain rs where f: "m_pulses (record_first c (\<lambda>p. p) ?n s) = drop ?n (m_pulses s)"
    "m_eventSources (record_first c (\<lambda>p. p) ?n s) = m_eventSources s"
    "m_lastPid (record_first c (\<lambda>p. p) ?n s) = m_lastPid s"
    "m_lastPulseIt (record_first c (\<lambda>p. p) ?n s) = (case m_lastPulseIt s of None \<Rightarrow> None
       | Some k \<Rightarrow> if k \<in> om_keys (take ?n (m_pulses s)) then None else Some k)"
    by (rule record_first_fields)
  have split: "om_keys (m_pulses s) = om_keys (take ?n (m_pulses s)) \<union> om_keys (drop ?n (m_pulses s))"
    by (metis append_take_drop_id image_Un set_append)
  have "om_keys (take ?n (m_pulses s)) \<inter> om_keys (drop ?n (m_pulses s)) = {}"
    using buffer_ok_om [OF assms] om_ok_append [of "take ?n (m_pulses s)" "drop ?n (m_pulses s)"]
    by fastforce
  moreover have "no_pid \<notin> buffered s"
    using assms by (simp add: buffer_ok_def pulses_ok_def)
  ultimately show ?thesis
    using assms pulses_ok_drop [of "m_eventSources s" "m_pulses s" ?n] split
    unfolding buffer_ok_def cache_ok_def record_upto_def
    by (auto simp: f split: if_splits)
qed

lemma buffer_ok_arrive:
  assumes "buffer_ok s" and "k \<noteq> no_pid"
  shows "buffer_ok (insert_pulse k (created k (m_eventSources s)) (record_first c mark n s))"
proof -
  obtain rs where f: "m_pulses (record_first c mark n s) = drop n (m_pulses s)"
    "m_eventSources (record_first c mark n s) = m_eventSources s"
    by (rule record_first_fields)
  show ?thesis
    using assms pulses_ok_arrive [OF pulses_ok_drop]
    by (simp add: buffer_ok_def insert_pulse_def f cache_ok_def)
qed

lemma take_drop_Suc: "n < length ps \<Longrightarrow> ps = take n ps @ ps ! n # drop (Suc n) ps"
  by (simp add: id_take_nth_drop)

lemma pop_position_less: "pop_position i m = Some n \<Longrightarrow> n < m"
  by (auto simp: pop_position_def split: if_splits)

lemma pop_cases:
  obtains "popPulseBuffer i s = s"
  | a e b where "m_pulses s = a @ e # b"
      "popPulseBuffer i s = drop_iterator {fst e} (reset_last {fst e} s)
         \<lparr>m_pulses := a @ b, discarded := discarded s @ [snd e]\<rparr>"
proof (cases "pop_position i (length (m_pulses s))")
  case None
  then show ?thesis using that(1) by (simp add: popPulseBuffer_def)
next
  case (Some n)
  show ?thesis
  proof (rule that(2))
    show "m_pulses s = take n (m_pulses s) @ m_pulses s ! n # drop (Suc n) (m_pulses s)"
      by (rule take_drop_Suc [OF pop_position_less [OF Some]])
  qed (simp add: popPulseBuffer_def Some Let_def)
qed

lemma buffer_ok_pop:
  assumes ok: "buffer_ok s"
  shows "buffer_ok (popPulseBuffer i s)"
proof (cases rule: pop_cases [of i s])
  case 1
  then show ?thesis using ok by simp
next
  case (2 a e b)
  have "pulses_ok (m_eventSources s) (a @ e # b)" "om_ok (a @ e # b)"
    using ok by (simp_all add: buffer_ok_def pulses_ok_def 2(1))
  then have "pulses_ok (m_eventSources s) (a @ b)" "fst e \<notin> om_keys (a @ b)" "no_pid \<notin> om_keys (a @ e # b)"
    by (auto simp: pulses_ok_def om_ok_append image_iff)
  then show ?thesis
    using ok unfolding buffer_ok_def 2(2) by (auto simp: cache_ok_def 2(1) split: if_splits)
qed

lemma step_buffer_ok:
  assumes "step c arrives s s'" and ok: "buffer_ok s"
  shows "buffer_ok s'"
  using assms(1)
proof cases
  case other
  then show ?thesis using ok by (auto simp: same_core_def buffer_ok_def cache_ok_def split: if_splits)
next
  case (look_up k)
  then show ?thesis using ok by (simp add: buffer_ok_def cache_ok_def)
next
  case (arrive k n)
  then show ?thesis using buffer_ok_arrive [OF ok] by simp
next
  case (change k f)
  then show ?thesis
    using buffer_ok_shrinks [OF ok shrinks_change [OF buffer_ok_om [OF ok]]] by (simp add: on_pulse_def)
next
  case (give_up i)
  then show ?thesis using buffer_ok_shrinks [OF ok shrinks_release] by simp
next
  case (finish k i)
  then show ?thesis using buffer_ok_shrinks [OF ok shrinks_finish [OF buffer_ok_om [OF ok]]] by simp
next
  case (record_done l j)
  then show ?thesis using buffer_ok_record_upto [OF ok] by simp
next
  case (throw_away i)
  then show ?thesis using buffer_ok_pop [OF ok] by simp
next
  case (source_comes i)
  then show ?thesis
    using ok by (auto simp: buffer_ok_def pulses_ok_def cache_ok_def list_all_iff within_iff bit_set_source)
next
  case (source_goes i)
  then show ?thesis
    using ok by (auto simp: buffer_ok_def pulses_ok_def cache_ok_def list_all_iff within_iff bit_unset_source)
qed

lemma steps_buffer_ok: "steps c arrives s s' \<Longrightarrow> buffer_ok s \<Longrightarrow> buffer_ok s'"
  by (induction rule: rtranclp_induct) (auto intro: step_buffer_ok)

text \<open>What every step keeps of a well-formed buffer holds after any number of steps.\<close>

locale buffer_invariant =
  fixes c :: sms_config and arrives :: arrivals and I :: "buffer \<Rightarrow> bool"
  assumes step_keeps: "step c arrives s s' \<Longrightarrow> buffer_ok s \<Longrightarrow> I s \<Longrightarrow> I s'"
begin

lemma steps_keep: "steps c arrives s s' \<Longrightarrow> buffer_ok s \<Longrightarrow> I s \<Longrightarrow> I s'"
proof (induction rule: rtranclp_induct)
  case (step t u)
  then show ?case
    using step_keeps [OF step(2)] steps_buffer_ok [OF step(1)] by simp
qed simp

end

section \<open>The abstract queue\<close>

text \<open>
  The keys that wait, those that left in order, and those that were thrown away. A key may enter at any
  place; only the smallest one leaves.
\<close>

type_synonym queue = "pulse_key set \<times> pulse_key list \<times> pulse_key list"

inductive queue_step :: "queue \<Rightarrow> queue \<Rightarrow> bool" where
  enter: "k \<notin> W \<Longrightarrow> queue_step (W, R, D) (insert k W, R, D)"
| leave: "k \<in> W \<Longrightarrow> (\<And>k'. k' \<in> W \<Longrightarrow> k \<le> k') \<Longrightarrow> queue_step (W, R, D) (W - {k}, R @ [k], D)"
| discard: "k \<in> W \<Longrightarrow> queue_step (W, R, D) (W - {k}, R, D @ [k])"

inductive_cases queue_stepE: "queue_step q q'"

definition queue_of :: "buffer \<Rightarrow> queue" where
  "queue_of s = (buffered s, List.map m_id (recorded s), List.map m_id (discarded s))"

lemma leave_first:
  assumes "om_ok ((k, p) # ps)"
  shows "queue_step (om_keys ((k, p) # ps), R, D) (om_keys ps, R @ [k], D)"
proof -
  have less: "\<forall>k' \<in> om_keys ps. k < k'"
    using assms by simp
  then have eq: "om_keys ((k, p) # ps) - {k} = om_keys ps"
    by auto
  have "k \<le> k'" if "k' \<in> om_keys ((k, p) # ps)" for k'
    using that less by (cases "k' = k") auto
  then have "queue_step (om_keys ((k, p) # ps), R, D) (om_keys ((k, p) # ps) - {k}, R @ [k], D)"
    by (intro queue_step.leave) auto
  then show ?thesis
    unfolding eq .
qed

lemma leave_many:
  "om_ok ps \<Longrightarrow> queue_step\<^sup>*\<^sup>* (om_keys ps, R, D) (om_keys (drop n ps), R @ List.map fst (take n ps), D)"
proof (induction ps arbitrary: n R)
  case (Cons e ps)
  show ?case
  proof (cases n)
    case (Suc m)
    have "queue_step (om_keys (e # ps), R, D) (om_keys ps, R @ [fst e], D)"
      using leave_first [of "fst e" "snd e" ps R D] Cons.prems by simp
    also have "queue_step\<^sup>*\<^sup>* (om_keys ps, R @ [fst e], D)
        (om_keys (drop m ps), (R @ [fst e]) @ List.map fst (take m ps), D)"
      by (rule Cons.IH) (use Cons.prems in simp)
    finally show ?thesis
      by (simp add: Suc)
  qed simp
qed simp

lemma recorded_keys:
  assumes "pulses_ok srcs ps" and "list_all2 (\<lambda>e p. keeps (mark (snd e)) p) (take n ps) rs"
    and "\<And>p. m_id (mark p) = m_id p"
  shows "List.map m_id rs = List.map fst (take n ps)"
proof (rule nth_equalityI)
  show "length (List.map m_id rs) = length (List.map fst (take n ps))"
    using list_all2_lengthD [OF assms(2)] by simp
next
  fix i assume "i < length (List.map m_id rs)"
  then show "List.map m_id rs ! i = List.map fst (take n ps) ! i"
    using list_all2_lengthD [OF assms(2)] list_all2_nthD2 [OF assms(2), of i] assms(1,3)
    by (simp add: keeps_def pulses_ok_def list_all_length)
qed

lemma record_first_queue:
  assumes "buffer_ok s" and "\<And>p. m_id (mark p) = m_id p"
  shows "queue_step\<^sup>*\<^sup>* (queue_of s) (queue_of (record_first c mark n s))"
proof -
  obtain rs where f: "m_pulses (record_first c mark n s) = drop n (m_pulses s)"
    "recorded (record_first c mark n s) = recorded s @ rs" "discarded (record_first c mark n s) = discarded s"
    and all: "list_all2 (\<lambda>e p. keeps (mark (snd e)) p) (take n (m_pulses s)) rs"
    by (rule record_first_fields)
  have "List.map m_id rs = List.map fst (take n (m_pulses s))"
    by (rule recorded_keys [of "m_eventSources s", OF _ all assms(2)])
       (use assms(1) in \<open>simp add: buffer_ok_def\<close>)
  then show ?thesis
    using leave_many [OF buffer_ok_om [OF assms(1)]] by (simp add: queue_of_def f)
qed

lemma queue_of_same [simp]:
  "queue_of (s\<lparr>m_lastPid := a\<rparr>) = queue_of s" "queue_of (s\<lparr>m_lastPulseIt := b\<rparr>) = queue_of s"
  "queue_of (s\<lparr>m_eventSources := d\<rparr>) = queue_of s" "queue_of (reset_last ks s) = queue_of s"
  by (simp_all add: queue_of_def)

lemma queue_of_shrinks: "shrinks (m_pulses s) ps \<Longrightarrow> queue_of (s\<lparr>m_pulses := ps\<rparr>) = queue_of s"
  by (simp add: queue_of_def shrinks_buffered)

lemma enter_queue:
  assumes "buffer_ok s" and "k \<notin> buffered s"
  shows "queue_step\<^sup>*\<^sup>* (queue_of s) (queue_of (insert_pulse k p (record_first c overdue n s)))"
proof -
  let ?s = "record_first c overdue n s"
  have "queue_step\<^sup>*\<^sup>* (queue_of s) (queue_of ?s)"
    by (rule record_first_queue [OF assms(1)]) (simp add: overdue_def)
  moreover have "k \<notin> buffered ?s"
    using assms(2) set_drop_subset [of n "m_pulses s"]
    by (metis (no_types) image_mono record_first_fields subset_iff)
  then have "queue_step (queue_of ?s) (queue_of (insert_pulse k p ?s))"
    by (simp add: queue_of_def insert_pulse_def queue_step.enter)
  ultimately show ?thesis
    by simp
qed

lemma discard_queue:
  assumes ok: "buffer_ok s"
  shows "queue_step\<^sup>*\<^sup>* (queue_of s) (queue_of (popPulseBuffer i s))"
proof (cases rule: pop_cases [of i s])
  case (2 a e b)
  have e: "om_ok (a @ e # b)" "m_id (snd e) = fst e"
    using ok by (auto simp: buffer_ok_def pulses_ok_def 2(1))
  then have "fst e \<notin> om_keys a" "fst e \<notin> om_keys b"
    by (auto simp: om_ok_append)
  then have keys: "om_keys (a @ b) = om_keys (a @ e # b) - {fst e}"
    by (simp add: image_Un insert_Diff_if Un_Diff)
  have "queue_of (popPulseBuffer i s) =
      (om_keys (a @ b), List.map m_id (recorded s), List.map m_id (discarded s) @ [fst e])"
    unfolding queue_of_def 2(2) by (simp add: e)
  moreover have "fst e \<in> buffered s"
    by (simp add: 2(1))
  ultimately show ?thesis
    unfolding keys by (simp add: queue_of_def 2(1) [symmetric] queue_step.discard r_into_rtranclp)
qed simp

lemma step_refines_queue:
  assumes "step c arrives s s'" and ok: "buffer_ok s"
  shows "queue_step\<^sup>*\<^sup>* (queue_of s) (queue_of s')"
  using assms(1)
proof cases
  case other
  then show ?thesis by (simp add: same_core_def queue_of_def)
next
  case (arrive k n)
  then show ?thesis using enter_queue [OF ok] by simp
next
  case (change k f)
  then show ?thesis
    using queue_of_shrinks [OF shrinks_change [OF buffer_ok_om [OF ok]]] by (simp add: on_pulse_def)
next
  case (give_up i)
  then show ?thesis using queue_of_shrinks [OF shrinks_release] by simp
next
  case (finish k i)
  then show ?thesis using queue_of_shrinks [OF shrinks_finish [OF buffer_ok_om [OF ok]]] by simp
next
  case (record_done l j)
  then show ?thesis using record_first_queue [OF ok, of "\<lambda>p. p"] by (simp add: record_upto_def)
next
  case (throw_away i)
  then show ?thesis using discard_queue [OF ok] by simp
qed simp_all

interpretation refines: buffer_invariant c arrives "\<lambda>s. queue_step\<^sup>*\<^sup>* q (queue_of s)" for c arrives q
proof
  fix s s'
  assume "step c arrives s s'" "buffer_ok s" "queue_step\<^sup>*\<^sup>* q (queue_of s)"
  then show "queue_step\<^sup>*\<^sup>* q (queue_of s')"
    using step_refines_queue [of c arrives s s'] by simp
qed

section \<open>Pulses in order\<close>

text \<open>
  While every new pulse is newer than all pulses of the buffer, an older pulse waits for no source a
  newer one does not wait for. So when a pulse is complete, all older ones are.
\<close>

definition newest :: arrivals where
  "newest K k \<longleftrightarrow> (\<forall>k' \<in> K. k' < k)"

definition nested :: "(pulse_key, pulse) omap \<Rightarrow> bool" where
  "nested ps \<longleftrightarrow> sorted_wrt within (List.map (\<lambda>e. m_pending (snd e)) ps)"

definition complete_or_partial :: "pulse \<Rightarrow> bool" where
  "complete_or_partial p \<longleftrightarrow> m_pending p = 0 \<or> partial p"

definition in_order :: "buffer \<Rightarrow> bool" where
  "in_order s \<longleftrightarrow> nested (m_pulses s) \<and> list_all complete_or_partial (recorded s)"

lemma nested_append:
  "nested (a @ b) \<longleftrightarrow> nested a \<and> nested b \<and>
     (\<forall>e \<in> set a. \<forall>e' \<in> set b. within (m_pending (snd e)) (m_pending (snd e')))"
  by (auto simp: nested_def sorted_wrt_append)

lemma nested_Cons:
  "nested (e # b) \<longleftrightarrow> nested b \<and> (\<forall>e' \<in> set b. within (m_pending (snd e)) (m_pending (snd e')))"
  using nested_append [of "[e]" b] by (simp add: nested_def)

lemma nested_drop: "nested ps \<Longrightarrow> nested (drop n ps)"
  using nested_append [of "take n ps" "drop n ps"] by simp

lemma nested_nth: "nested ps \<Longrightarrow> i \<le> j \<Longrightarrow> j < length ps \<Longrightarrow>
    within (m_pending (snd (ps ! i))) (m_pending (snd (ps ! j)))"
  unfolding nested_def by (cases "i = j") (auto simp: sorted_wrt_iff_nth_less)

lemma within_unset: "within a b \<Longrightarrow> within (unset_bit n a) (unset_bit n b)"
  "within a b \<Longrightarrow> within (unset_bit n a) b"
  by (simp_all add: within_iff bit_unset_source)

lemma nested_release: "nested ps \<Longrightarrow> nested (release_all i ps)"
  unfolding nested_def release_all_def
  by (auto simp: sorted_wrt_map release_fields split_def intro: sorted_wrt_mono_rel [rotated] within_unset(1))

lemma set_release_all: "e \<in> set (release_all i ps) \<Longrightarrow>
    \<exists>e0 \<in> set ps. m_pending (snd e) = unset_bit (unat i) (m_pending (snd e0))"
  by (force simp: release_all_def release_fields)

lemma nested_finish:
  assumes "om_ok ps" and "k \<in> om_keys ps" and n: "nested ps"
  shows "nested (fst (complete_current i k ps))"
proof -
  obtain a p b where ps: "ps = a @ (k, p) # b" and k: "k \<notin> om_keys a" "k \<notin> om_keys b"
    using assms(1,2) by (rule on_pulse_split)
  have "nested (release_all i a @ (k, complete_for i p) # b)"
    using n nested_release [of a i] set_release_all [of _ i a] unfolding ps
    by (fastforce simp: nested_append nested_Cons complete_for_def intro: within_unset)
  then show ?thesis
    using n unfolding ps complete_current_split [OF k] by simp
qed

lemma nested_change:
  assumes ok: "om_ok ps" and f: "\<And>p. map_of ps k = Some p \<Longrightarrow> keeps p (f p)"
  shows "nested (om_update k f ps) = nested ps"
proof (cases "k \<in> om_keys ps")
  case True
  with ok obtain a p b where ps: "ps = a @ (k, p) # b" and k: "k \<notin> om_keys a" "k \<notin> om_keys b"
    and p: "map_of ps k = Some p" by (rule on_pulse_split)
  have "m_pending (f p) = m_pending p"
    using f [OF p] by (simp add: keeps_def)
  then show ?thesis
    unfolding ps om_update_split [OF k] by (simp add: nested_append nested_Cons)
qed (simp add: om_update_notin)

lemma om_insert_newest: "\<forall>k' \<in> om_keys m. k' < k \<Longrightarrow> om_insert k v m = m @ [(k, v)]"
  by (induction k v m rule: om_insert.induct) (auto dest: less_asym)

lemma nested_arrive:
  assumes "pulses_ok srcs ps" "nested ps" "newest (om_keys ps) k" "m_pending p = srcs"
  shows "nested (om_insert k p ps)"
proof -
  have "\<forall>e \<in> set ps. within (m_pending (snd e)) srcs"
    using assms(1) by (simp add: pulses_ok_def list_all_iff)
  then show ?thesis
    using assms(2,3,4) by (simp add: newest_def om_insert_newest nested_append nested_Cons) (simp add: nested_def)
qed

lemma recorded_good:
  assumes "list_all2 (\<lambda>e p. keeps (mark (snd e)) p) (take n ps) rs"
    and "\<And>e. e \<in> set (take n ps) \<Longrightarrow> complete_or_partial (mark (snd e))"
  shows "list_all complete_or_partial rs"
  unfolding list_all_length
proof (intro allI impI)
  fix i assume i: "i < length rs"
  then have i': "i < length (take n ps)"
    using list_all2_lengthD [OF assms(1)] by simp
  then have "keeps (mark (snd (take n ps ! i))) (rs ! i)" "complete_or_partial (mark (snd (take n ps ! i)))"
    using list_all2_nthD [OF assms(1)] assms(2) nth_mem by blast+
  then show "complete_or_partial (rs ! i)"
    by (auto simp: complete_or_partial_def keeps_def)
qed

lemma in_order_record_first:
  assumes "in_order s" and "\<And>e. e \<in> set (take n (m_pulses s)) \<Longrightarrow> complete_or_partial (mark (snd e))"
  shows "in_order (record_first c mark n s)"
proof -
  obtain rs where f: "m_pulses (record_first c mark n s) = drop n (m_pulses s)"
    "recorded (record_first c mark n s) = recorded s @ rs"
    and all: "list_all2 (\<lambda>e p. keeps (mark (snd e)) p) (take n (m_pulses s)) rs"
    by (rule record_first_fields)
  show ?thesis
    using assms(1) recorded_good [OF all assms(2)] by (simp add: in_order_def f nested_drop)
qed

lemma in_order_arrive:
  assumes ok: "buffer_ok s" and ord: "in_order s" and new: "newest (buffered s) k"
  shows "in_order (insert_pulse k (created k (m_eventSources s)) (record_first c overdue n s))"
proof -
  let ?s = "record_first c overdue n s"
  have "in_order ?s"
    by (rule in_order_record_first [OF ord]) (auto simp: complete_or_partial_def overdue_def)
  moreover have "m_pulses ?s = drop n (m_pulses s)"
    by (rule record_first_fields)
  moreover have "nested (om_insert k (created k (m_eventSources s)) (drop n (m_pulses s)))"
  proof (rule nested_arrive)
    show "pulses_ok (m_eventSources s) (drop n (m_pulses s))"
      using ok by (simp add: buffer_ok_def pulses_ok_drop)
    show "nested (drop n (m_pulses s))"
      using ord by (simp add: in_order_def nested_drop)
    show "newest (om_keys (drop n (m_pulses s))) k"
      using new by (auto simp: newest_def dest: in_set_dropD)
  qed simp
  ultimately show ?thesis
    by (simp add: in_order_def insert_pulse_def)
qed

lemma in_order_record_done:
  assumes ord: "in_order s" and l: "l \<le> j" "j < length (m_pulses s)" "m_pending (snd (m_pulses s ! j)) = 0"
  shows "in_order (record_upto c l s)"
proof -
  have "complete_or_partial (snd e)" if e: "e \<in> set (take (Suc l) (m_pulses s))" for e
  proof -
    obtain i where "i < length (take (Suc l) (m_pulses s))" "e = take (Suc l) (m_pulses s) ! i"
      using e unfolding in_set_conv_nth by blast
    then have "i \<le> l" "e = m_pulses s ! i"
      by auto
    then have "within (m_pending (snd e)) 0"
      using nested_nth [of "m_pulses s" i j] ord l by (simp add: in_order_def)
    then show ?thesis
      by (simp add: complete_or_partial_def)
  qed
  then have "in_order (record_first c (\<lambda>p. p) (Suc l) s)"
    by (rule in_order_record_first [OF ord])
  then show ?thesis
    by (simp add: record_upto_def in_order_def)
qed

lemma in_order_pop: "in_order s \<Longrightarrow> in_order (popPulseBuffer i s)"
  by (cases rule: pop_cases [of i s]) (auto simp: in_order_def nested_append nested_Cons)

lemma step_in_order:
  assumes "step c newest s s'" and ok: "buffer_ok s" and ord: "in_order s"
  shows "in_order s'"
  using assms(1)
proof cases
  case other
  then show ?thesis using ord by (simp add: same_core_def in_order_def)
next
  case (arrive k n)
  then show ?thesis using in_order_arrive [OF ok ord] by simp
next
  case (change k f)
  then show ?thesis using ord nested_change [OF buffer_ok_om [OF ok]] by (simp add: on_pulse_def in_order_def)
next
  case (give_up i)
  then show ?thesis using ord nested_release by (simp add: in_order_def)
next
  case (finish k i)
  then show ?thesis using ord nested_finish [OF buffer_ok_om [OF ok]] by (simp add: in_order_def)
next
  case (record_done l j)
  then show ?thesis using in_order_record_done [OF ord] by simp
next
  case (throw_away i)
  then show ?thesis using in_order_pop [OF ord] by simp
qed (use ord in \<open>simp_all add: in_order_def\<close>)

interpretation ordered: buffer_invariant c newest in_order for c
  by unfold_locales (rule step_in_order)

section \<open>The operations are sequences of steps\<close>

lemma steps_one: "step c arrives s s' \<Longrightarrow> steps c arrives s s'"
  by (rule r_into_rtranclp)

lemma steps_same: "same_core s s' \<Longrightarrow> steps c arrives s s'"
  by (rule steps_one, rule step.other)

lemma same_core_trans: "same_core a b \<Longrightarrow> same_core b d \<Longrightarrow> same_core a d"
  by (simp add: same_core_def)

lemma set_release_pending: "(k, p) \<in> set (release_all i ps) \<Longrightarrow> \<not> bit (m_pending p) (unat i)"
  by (auto simp: release_all_def release_fields bit_unset_source)

lemma last_done_less: "last_done ps = Some i \<Longrightarrow> i < length ps \<and> m_pending (snd (ps ! i)) = 0"
  by (induction ps arbitrary: i) (auto split: option.splits if_splits)

lemma hold_back_eq: "l < n \<Longrightarrow> hold_back b n l = (if b < n then Some (min l (n - 1 - b)) else None)"
proof (induction b n l rule: hold_back.induct)
  case (2 b r l)
  then show ?case by (cases "l = r - 1"; cases "l = 0") (auto simp: min_def)
qed simp

lemma hold_back_le: "l < n \<Longrightarrow> hold_back b n l = Some l' \<Longrightarrow> l' \<le> l"
  by (auto simp: hold_back_eq split: if_splits)

text \<open>Giving an event source up.\<close>

lemma pending_record_upto: "set (m_pulses (record_upto c l s)) \<subseteq> set (m_pulses s)"
  unfolding record_upto_def reset_last_fields
  by (rule record_first_fields [of c "\<lambda>p. p" "Suc l" s]) (simp add: set_drop_subset)

lemma steps_free_id:
  assumes "\<And>k p. (k, p) \<in> set (m_pulses s) \<Longrightarrow> \<not> bit (m_pending p) (unat i)"
  shows "steps c arrives s (free_id i s)"
proof -
  let ?s = "s\<lparr>m_eventSources := unset_bit (unat i) (m_eventSources s)\<rparr>"
  have "step c arrives s ?s"
    by (rule step.source_goes) (rule assms)
  moreover have "step c arrives ?s (free_id i s)"
    by (rule step.other) (simp add: same_core_def free_id_def Let_def)
  ultimately show ?thesis
    by simp
qed

lemma steps_unregister:
  assumes "unregisterEventSource c pv i s = Inr s'"
  shows "steps c arrives s s'"
proof (cases "i = NO_SOURCE")
  case False
  let ?s1 = "s\<lparr>m_pulses := release_all i (m_pulses s)\<rparr>"
  have one: "steps c arrives s ?s1"
    by (rule steps_one) (rule step.give_up)
  have free: "steps c arrives t (free_id i t)" if "set (m_pulses t) \<subseteq> set (m_pulses ?s1)" for t
    by (rule steps_free_id) (use that set_release_pending [of _ _ i "m_pulses s"] in auto)
  show ?thesis
  proof (cases "last_done (m_pulses ?s1)")
    case None
    then have "s' = free_id i ?s1"
      using assms False by (simp add: unregisterEventSource_def split: if_splits)
    then show ?thesis
      using one free [of ?s1] by simp
  next
    case (Some l)
    let ?s2 = "?s1\<lparr>m_noEoPPulseBufferSize := pv_noEoPPulseBufferSize pv\<rparr>"
    let ?h = "if source_count (m_eventSources s) > 1
      then hold_back (unat (pv_noEoPPulseBufferSize pv)) (length (m_pulses ?s2)) l else Some l"
    have two: "steps c arrives s ?s2"
      by (rule rtranclp_trans [OF one], rule steps_same) (simp add: same_core_def)
    note l = last_done_less [OF Some]
    show ?thesis
    proof (cases ?h)
      case None
      then have "s' = free_id i ?s2"
        using assms False Some by (simp add: unregisterEventSource_def Let_def split: if_splits)
      then show ?thesis
        using two free [of ?s2] by simp
    next
      case h: (Some l')
      let ?s3 = "?s2\<lparr>m_doPulsePchgCorrect := pv_doPulsePchgCorrect pv,
                     m_doPulseVetoCorrect := pv_doPulseVetoCorrect pv\<rparr>"
      have "l' \<le> l"
        using h l hold_back_le by (auto split: if_splits)
      then have "step c arrives ?s3 (record_upto c l' ?s3)"
        by (rule step.record_done [of l' l]) (use l in simp_all)
      moreover have "steps c arrives s ?s3"
        by (rule rtranclp_trans [OF two], rule steps_same) (simp add: same_core_def)
      ultimately have three: "steps c arrives s (record_upto c l' ?s3)"
        by simp
      have s': "s' = free_id i (record_upto c l' ?s3)"
        using assms False Some h by (simp add: unregisterEventSource_def Let_def split: if_splits)
      show ?thesis
        unfolding s' by (rule rtranclp_trans [OF three free]) (use pending_record_upto [of c l' ?s3] in simp)
    qed
  qed
qed (use assms in \<open>simp add: unregisterEventSource_def\<close>)

text \<open>Looking up a pulse: it is known, or it arrives.\<close>

definition may_come :: "arrivals \<Rightarrow> buffer \<Rightarrow> pulse_key \<Rightarrow> bool" where
  "may_come arrives s k \<longleftrightarrow> k \<noteq> no_pid \<and> (k \<in> buffered s \<or> arrives (buffered s) k)"

lemma record_first_none: "record_first c mark 0 s = s"
  by (simp add: record_first_def drop_iterator_def split: option.split)

lemma check_overflow_cases:
  obtains s1 n where "check_overflow c pv s = record_first c overdue n s1" "same_core s s1"
proof (cases "getPulse_cnt s mod 60 = 0")
  case True
  let ?s1 = "if getPulse_cnt s mod 3600 = 0 then s\<lparr>m_maxPulseBufferSize := pv_maxPulseBufferSize pv\<rparr> else s"
  let ?s2 = "?s1\<lparr>m_doPulsePchgCorrect := pv_doPulsePchgCorrect pv, m_doPulseVetoCorrect := pv_doPulseVetoCorrect pv\<rparr>"
  have core: "same_core s ?s1" "same_core s ?s2"
    by (simp_all add: same_core_def)
  show ?thesis
  proof (cases "length (m_pulses ?s1) > unat (m_maxPulseBufferSize ?s1)")
    case True
    then show ?thesis
      using that [of "unat (of_nat (length (m_pulses ?s1)) - m_maxPulseBufferSize ?s1 + 1)" ?s2]
        \<open>getPulse_cnt s mod 60 = 0\<close> core by (simp add: check_overflow_def Let_def)
  next
    case False
    then show ?thesis
      using that [of 0 ?s1] \<open>getPulse_cnt s mod 60 = 0\<close> core
      by (simp add: check_overflow_def Let_def record_first_none)
  qed
next
  case False
  then show ?thesis
    using that [of 0 s] by (simp add: check_overflow_def record_first_none same_core_def)
qed

lemma steps_getPulse:
  assumes ok: "buffer_ok s" and k: "may_come arrives s k" and get: "getPulse c pv k s = Inr (k', s')"
  shows "steps c arrives s s' \<and> k' = k \<and> k \<in> buffered s'"
proof (cases "k = m_lastPid s")
  case True
  then have "m_lastPulseIt s = Some k'" "s' = s"
    using get by (auto simp: getPulse_def split: option.splits)
  then show ?thesis
    using ok True by (auto simp: buffer_ok_def cache_ok_def split: if_splits)
next
  case False
  show ?thesis
  proof (cases "k \<in> buffered s")
    case True
    then have "k' = k" "s' = s\<lparr>m_lastPid := k, m_lastPulseIt := Some k\<rparr>"
      using get False by (auto simp: getPulse_def)
    then show ?thesis
      using True step.look_up [of k s] by (simp add: r_into_rtranclp)
  next
    case new: False
    let ?s1 = "note_pulse_id (fst k) (s\<lparr>getPulse_cnt := getPulse_cnt s + 1\<rparr>)"
    obtain s2 n where s2: "check_overflow c pv ?s1 = record_first c overdue n s2" "same_core ?s1 s2"
      by (rule check_overflow_cases)
    have core: "same_core s s2"
      using s2(2) by (simp add: same_core_def note_pulse_id_def)
    then have s': "k' = k" "s' = insert_pulse k (created k (m_eventSources s2)) (record_first c overdue n s2)"
      using get False new s2 by (auto simp: getPulse_def Let_def same_core_def)
    have "step c arrives s2 s'"
      unfolding s' using k new core
      by (intro step.arrive) (simp_all add: same_core_def may_come_def)
    then have "steps c arrives s s'"
      using steps_same [OF core, of c arrives] by simp
    then show ?thesis
      by (simp add: s' insert_pulse_def)
  qed
qed

text \<open>A call that is about a pulse passes a state in which this pulse is in the buffer.\<close>

definition passes :: "sms_config \<Rightarrow> arrivals \<Rightarrow> pulse_key \<Rightarrow> buffer \<Rightarrow> buffer \<Rightarrow> bool" where
  "passes c arrives k s s' \<longleftrightarrow>
     (\<exists>t. steps c arrives s t \<and> k \<in> buffered t \<and> steps c arrives t s')"

lemma passesI: "steps c arrives s t \<Longrightarrow> k \<in> buffered t \<Longrightarrow> steps c arrives t s' \<Longrightarrow> passes c arrives k s s'"
  by (auto simp: passes_def)

lemma passes_steps: "passes c arrives k s s' \<Longrightarrow> steps c arrives s s'"
  by (auto simp: passes_def intro: rtranclp_trans)

lemma steps_on_pulse:
  "(\<And>p. map_of (m_pulses s) k = Some p \<Longrightarrow> keeps p (f p)) \<Longrightarrow> steps c arrives s (on_pulse k f s)"
  by (rule steps_one, rule step.change)

lemma steps_markPartial:
  assumes "buffer_ok s" "may_come arrives s k" "markPartial c pv k s = Inr s'"
  shows "passes c arrives k s s'"
proof -
  obtain k' s1 where get: "getPulse c pv k s = Inr (k', s1)" and s': "s' = on_pulse k' (set_flag PARTIAL_DATA) s1"
    using assms(3) by (auto simp: markPartial_def sbind_eq_Inr)
  have "steps c arrives s1 s'"
    unfolding s' by (rule steps_on_pulse) (rule keeps_set_flag)
  then show ?thesis
    using steps_getPulse [OF assms(1,2) get] by (auto intro: passesI)
qed

text \<open>Completing a pulse.\<close>

lemma poll_same:
  "same_core s (poll_threshold pv s)" "same_core s (poll_buffer_size pv s)" "same_core s (poll_corrections pv s)"
  by (simp_all add: same_core_def poll_threshold_def poll_buffer_size_def poll_corrections_def Let_def)

lemma steps_check_intermittent:
  assumes "check_intermittent c pv s = Inr s'"
  shows "steps c arrives s s'"
proof (cases "find_intermittent s")
  case (Some i)
  let ?src = "m_eventSourcesIndex s ! i"
  show ?thesis
  proof (cases "?src \<noteq> - 1 \<and> ?src < c_numDataSources c")
    case True
    let ?s = "s\<lparr>intermittent := intermittent s @ [(?src, of_nat i)]\<rparr>"
    have "unregisterEventSource c pv (of_nat i) ?s = Inr s'"
      using assms Some True by (simp add: check_intermittent_def Let_def)
    then have "steps c arrives ?s s'"
      by (rule steps_unregister)
    moreover have "steps c arrives s ?s"
      by (rule steps_same) (simp add: same_core_def)
    ultimately show ?thesis
      by simp
  qed (use assms Some in \<open>auto simp: check_intermittent_def Let_def\<close>)
qed (use assms in \<open>simp add: check_intermittent_def\<close>)

lemma complete_current_done:
  assumes "om_ok ps" "k \<in> om_keys ps" and "complete_current i k ps = (ps', Some l)"
  shows "l < length ps' \<and> m_pending (snd (ps' ! l)) = 0"
proof -
  obtain a p b where ps: "ps = a @ (k, p) # b" and k: "k \<notin> om_keys a" "k \<notin> om_keys b"
    using assms(1,2) by (rule on_pulse_split)
  show ?thesis
    using assms(3) last_done_less [of "release_all i a" l]
    unfolding ps complete_current_split [OF k]
    by (auto simp: nth_append release_all_def split: if_splits)
qed

lemma steps_record_complete:
  assumes "l < length (m_pulses s)" "m_pending (snd (m_pulses s ! l)) = 0"
  shows "steps c arrives s (record_complete c pv l s)"
proof -
  let ?s1 = "poll_buffer_size pv s"
  let ?s2 = "poll_corrections pv ?s1"
  have core: "same_core s ?s1" "same_core s ?s2"
    using poll_same(2) poll_same(3) by (blast intro: same_core_trans)+
  show ?thesis
  proof (cases "hold_back (unat (m_noEoPPulseBufferSize ?s1)) (length (m_pulses ?s1)) l")
    case None
    then show ?thesis
      using steps_same [OF core(1)] by (simp add: record_complete_def Let_def)
  next
    case (Some l')
    have "l' \<le> l"
      using Some hold_back_le assms(1) core(1) by (auto simp: same_core_def)
    then have "step c arrives ?s2 (record_upto c l' ?s2)"
      by (rule step.record_done [of l' l]) (use assms core(2) in \<open>simp_all add: same_core_def\<close>)
    then show ?thesis
      using steps_same [OF core(2), of c arrives] Some by (simp add: record_complete_def Let_def)
  qed
qed

lemma steps_markComplete:
  assumes ok: "buffer_ok s"
    and come: "\<And>t. check_intermittent c pv (poll_threshold pv s) = Inr t \<Longrightarrow> may_come arrives t k"
    and "markComplete c pv k i s = Inr s'"
  shows "passes c arrives k s s'"
proof -
  obtain s1 k' s2 where one: "check_intermittent c pv (poll_threshold pv s) = Inr s1"
    and two: "getPulse c pv k s1 = Inr (k', s2)"
    using assms(3) by (auto simp: markComplete_def sbind_eq_Inr)
  have s1: "steps c arrives s s1"
    using steps_same [OF poll_same(1)] steps_check_intermittent [OF one] by (rule rtranclp_trans)
  then have ok1: "buffer_ok s1"
    using ok by (rule steps_buffer_ok)
  have s2: "steps c arrives s1 s2" "k' = k" "k \<in> buffered s2"
    using steps_getPulse [OF ok1 come [OF one] two] by simp_all
  then have ok2: "om_ok (m_pulses s2)"
    using ok1 by (blast intro: buffer_ok_om steps_buffer_ok)
  obtain ps d where cc: "complete_current i k (m_pulses s2) = (ps, d)"
    by fastforce
  let ?s3 = "s2\<lparr>m_pulses := ps\<rparr>"
  have "step c arrives s2 ?s3"
    using step.finish [OF s2(3), of c arrives i] by (simp add: cc)
  then have s3: "steps c arrives s2 ?s3"
    by simp
  have "s' = (case d of None \<Rightarrow> ?s3 | Some l \<Rightarrow> record_complete c pv l ?s3)"
    using assms(3) one two cc
    by (auto simp: markComplete_def s2(2) split: if_splits option.splits)
  moreover have "steps c arrives ?s3 (record_complete c pv l ?s3)" if "d = Some l" for l
    by (rule steps_record_complete) (use complete_current_done [OF ok2 s2(3)] cc that in auto)
  ultimately have "steps c arrives s2 s'"
    using s3 by (auto split: option.split)
  then show ?thesis
    using rtranclp_trans [OF s1 s2(1)] s2(3) by (auto intro: passesI)
qed

end
