(* ===== verification/Pulse_Runs.thy ===== *)
theory Pulse_Runs
  imports Pulse_Queue
begin

text \<open>
  Runs of calls on the pulse buffer of the stream management service, each with the values of the process
  variables it would poll: the buffer refines the queue, loses no pulse, records only pulses that are
  complete or marked as partial while the pulses come in order, and records a pulse when its last source
  completes it. The cached iterator is never followed when it dangles, except by a call for pulse zero.
\<close>

unbundle bit_operations_syntax

section \<open>Runs\<close>

text \<open>The calls the data sources and the operator make, each with the settings it would poll.\<close>

datatype call =
    Register u32
  | Unregister u32
  | Pop int
  | Partial pulse_key
  | Complete pulse_key u32
  | Rtdl bytes u32
  | Events settings bytes u32 u32 bool bool

fun apply_call :: "sms_config \<Rightarrow> live_pvs \<Rightarrow> call \<Rightarrow> buffer \<Rightarrow> sms_error + buffer" where
  "apply_call c pv (Register srcId) s = sbind (registerEventSource srcId s) (\<lambda>(i, s1). Inr s1)"
| "apply_call c pv (Unregister i) s = unregisterEventSource c pv i s"
| "apply_call c pv (Pop i) s = Inr (popPulseBuffer i s)"
| "apply_call c pv (Partial k) s = markPartial c pv k s"
| "apply_call c pv (Complete k i) s = markComplete c pv k i s"
| "apply_call c pv (Rtdl mem dup) s = pulseRTDL c pv mem dup s"
| "apply_call c pv (Events st mem hwId dup is_mapped mixed) s =
     sbind (pulseEvents c pv st mem hwId dup is_mapped mixed s) (\<lambda>(s1, ta). Inr s1)"

fun run_calls :: "sms_config \<Rightarrow> (live_pvs \<times> call) list \<Rightarrow> buffer \<Rightarrow> sms_error + buffer" where
  "run_calls c [] s = Inr s"
| "run_calls c ((pv, op) # ops) s = sbind (apply_call c pv op s) (run_calls c ops)"

fun call_key :: "call \<Rightarrow> pulse_key option" where
  "call_key (Partial k) = Some k"
| "call_key (Complete k i) = Some k"
| "call_key (Rtdl mem dup) = Some (pulse_id (header_at mem), dup)"
| "call_key (Events st mem hwId dup is_mapped mixed) = Some (pulse_id (header_at mem), dup)"
| "call_key _ = None"

text \<open>
  What a call asks of the arrivals. The check for intermittent sources comes before the pulse is looked
  up and may record pulses, so for the calls that complete a pulse it is off or every pulse may come.
\<close>

definition call_ok :: "arrivals \<Rightarrow> live_pvs \<Rightarrow> call \<Rightarrow> buffer \<Rightarrow> bool" where
  "call_ok arrives pv op s \<longleftrightarrow>
     (case call_key op of None \<Rightarrow> True
      | Some k \<Rightarrow> may_come arrives s k \<and>
          ((\<forall>K. arrives K k) \<or>
           m_intermittentDataThreshold s = 0 \<and> pv_intermittentDataThreshold pv = 0))"

lemma threshold_off:
  "m_intermittentDataThreshold s = 0 \<Longrightarrow> pv_intermittentDataThreshold pv = 0 \<Longrightarrow>
    check_intermittent c pv (poll_threshold pv s) = Inr (poll_threshold pv s)"
  by (simp add: check_intermittent_def find_intermittent_def poll_threshold_def Let_def)

lemma may_come_same: "same_core s t \<Longrightarrow> may_come arrives t k = may_come arrives s k"
  by (simp add: may_come_def same_core_def)

lemma come_after_check:
  assumes "may_come arrives s k"
    and "(\<forall>K. arrives K k) \<or> m_intermittentDataThreshold s = 0 \<and> pv_intermittentDataThreshold pv = 0"
    and "check_intermittent c pv (poll_threshold pv s) = Inr t"
  shows "may_come arrives t k"
  using assms(2)
proof
  assume "\<forall>K. arrives K k"
  then show ?thesis using assms(1) by (simp add: may_come_def)
next
  assume "m_intermittentDataThreshold s = 0 \<and> pv_intermittentDataThreshold pv = 0"
  then have "t = poll_threshold pv s"
    using assms(3) threshold_off by simp
  then show ?thesis
    using assms(1) may_come_same [OF poll_same(1)] by simp
qed

lemma record_first_settings [simp]:
  "m_intermittentDataThreshold (record_first c mark n s) = m_intermittentDataThreshold s"
  "m_noEoPPulseBufferSize (record_first c mark n s) = m_noEoPPulseBufferSize s"
  by (simp_all add: record_first_def drop_iterator_def split: prod.split option.split)

lemma check_overflow_threshold:
  "m_intermittentDataThreshold (check_overflow c pv s) = m_intermittentDataThreshold s"
  by (simp add: check_overflow_def Let_def)

lemma threshold_getPulse:
  assumes "getPulse c pv k s = Inr (k', s')"
  shows "m_intermittentDataThreshold s' = m_intermittentDataThreshold s"
proof (cases "k = m_lastPid s \<or> k \<in> buffered s")
  case True
  then show ?thesis
    using assms by (auto simp: getPulse_def split: if_splits option.splits)
next
  case False
  then show ?thesis
    using assms by (auto simp: getPulse_def Let_def insert_pulse_def check_overflow_threshold note_pulse_id_def)
qed

lemma steps_pulseRTDL:
  assumes ok: "buffer_ok s" and k: "k = (pulse_id (header_at mem), dup)" and come: "may_come arrives s k"
    and off: "(\<forall>K. arrives K k) \<or> m_intermittentDataThreshold s = 0 \<and> pv_intermittentDataThreshold pv = 0"
    and run: "pulseRTDL c pv mem dup s = Inr s'"
  shows "passes c arrives k s s'"
proof -
  obtain k1 s1 where get: "getPulse c pv k s = Inr (k1, s1)"
    using run by (auto simp: pulseRTDL_def Let_def sbind_eq_Inr k)
  have s1: "steps c arrives s s1" "k1 = k" "k \<in> buffered s1"
    using steps_getPulse [OF ok come get] by simp_all
  then obtain p where p: "map_of (m_pulses s1) k = Some p"
    by (metis not_Some_eq om_keys_iff)
  note run1 = run [unfolded pulseRTDL_def Let_def k [symmetric] get s1(2) sbind_simps prod.case p option.case]
  show ?thesis
  proof (cases "m_rtdl p = None")
    case False
    then show ?thesis using run1 s1(1,3) by (auto intro: passesI)
  next
    case True
    let ?r = "s1\<lparr>m_lastRingPeriod := rtdl_ringPeriod mem\<rparr>"
    let ?s2 = "on_pulse k (take_rtdl mem) ?r"
    have "steps c arrives s1 ?r"
      by (rule steps_same) (simp add: same_core_def)
    also have "steps c arrives ?r ?s2"
      by (rule steps_on_pulse) (rule keeps_rtdl)
    finally have s2: "steps c arrives s1 ?s2" .
    show ?thesis
    proof (cases "m_pending p = 0")
      case False
      then show ?thesis using run1 True s2 s1(1,3) by (auto intro: passesI)
    next
      case fin: True
      define s3 where "s3 = (if m_numEventSources p = 0
        then ?s2\<lparr>m_noRegisteredEventSourcesCount := m_noRegisteredEventSourcesCount ?s2 + 1\<rparr> else ?s2)"
      define s4 where "s4 = on_pulse k (set_flag PARTIAL_DATA) s3"
      have core: "same_core ?s2 s3" "m_intermittentDataThreshold s3 = m_intermittentDataThreshold s1"
        by (simp_all add: same_core_def s3_def on_pulse_def)
      have mark: "markComplete c pv k NO_SOURCE s4 = Inr s'"
        using run1 True fin by (simp add: s4_def s3_def)
      have "steps c arrives s3 s4"
        unfolding s4_def by (rule steps_on_pulse) (rule keeps_set_flag)
      then have s4: "steps c arrives s1 s4"
        by (rule rtranclp_trans [OF rtranclp_trans [OF s2 steps_same [OF core(1)]]])
      have "buffered s4 = buffered s1" "m_intermittentDataThreshold s4 = m_intermittentDataThreshold s"
        using core threshold_getPulse [OF get] by (simp_all add: s4_def on_pulse_def same_core_def)
      then have come4: "may_come arrives s4 k" "(\<forall>K. arrives K k) \<or> m_intermittentDataThreshold s4 = 0 \<and>
          pv_intermittentDataThreshold pv = 0"
        using s1(3) come off by (simp_all add: may_come_def)
      have "buffer_ok s4"
        by (rule steps_buffer_ok [OF rtranclp_trans [OF s1(1) s4] ok])
      then have "passes c arrives k s4 s'"
        by (rule steps_markComplete [OF _ come_after_check [OF come4] mark])
      then have "steps c arrives s1 s'"
        by (rule rtranclp_trans [OF s4 passes_steps])
      then show ?thesis
        using s1(1,3) by (rule passesI [rotated 2])
    qed
  qed
qed

lemma steps_pulseEvents:
  assumes ok: "buffer_ok s" and come: "may_come arrives s (pulse_id (header_at mem), dup)"
    and run: "pulseEvents c pv st mem hwId dup im mixed s = Inr (s', ta)"
  shows "passes c arrives (pulse_id (header_at mem), dup) s s'"
proof -
  let ?k = "(pulse_id (header_at mem), dup)"
  obtain k1 s1 where get: "getPulse c pv ?k s = Inr (k1, s1)"
    using run by (auto simp: pulseEvents_def sbind_eq_Inr)
  have s1: "steps c arrives s s1" "k1 = ?k" "?k \<in> buffered s1"
    using steps_getPulse [OF ok come get] by simp_all
  then obtain p where p: "map_of (m_pulses s1) ?k = Some p"
    by (metis not_Some_eq om_keys_iff)
  then obtain p1 co where collect:
      "collect_packet c st (m_lastRingPeriod s1) mem hwId im mixed (p, collected s1) = Inr (p1, co, ta)"
    and s': "s' = on_pulse ?k (\<lambda>_. p1) (s1\<lparr>collected := co\<rparr>)"
    using run get s1(2) by (auto simp: pulseEvents_def sbind_eq_Inr)
  have "steps c arrives s1 (s1\<lparr>collected := co\<rparr>)"
    by (rule steps_same) (simp add: same_core_def)
  also have "steps c arrives (s1\<lparr>collected := co\<rparr>) s'"
    unfolding s' by (rule steps_on_pulse) (use p keeps_collect [OF collect] in simp)
  finally have "steps c arrives s1 s'" .
  with s1(1,3) show ?thesis
    by (rule passesI)
qed

lemma free_source_less: "free_source srcs = Some i \<Longrightarrow> i < 256 \<and> \<not> bit srcs i"
  by (auto simp: free_source_def SOURCE_SET_SIZE_def find_Some_iff)

lemma steps_register:
  assumes "registerEventSource srcId s = Inr (i, s')"
  shows "steps c arrives s s'"
proof -
  obtain n where n: "free_source (m_eventSources s) = Some n"
    using assms by (auto simp: registerEventSource_def split: option.splits)
  let ?s = "s\<lparr>m_eventSources := set_bit n (m_eventSources s)\<rparr>"
  have "step c arrives s ?s"
    using free_source_less [OF n] by (intro step.source_comes) simp
  moreover have "step c arrives ?s s'"
    using assms n by (intro step.other) (auto simp: registerEventSource_def same_core_def Let_def)
  ultimately show ?thesis
    by simp
qed

lemma passes_call:
  assumes ok: "buffer_ok s" and call: "call_ok arrives pv op s" and run: "apply_call c pv op s = Inr s'"
    and k: "call_key op = Some k"
  shows "passes c arrives k s s'"
proof (cases op)
  case (Partial k)
  then show ?thesis
    using run call k by (auto simp: call_ok_def intro: steps_markPartial [OF ok])
next
  case (Complete k i)
  then show ?thesis
    using run call k by (auto simp: call_ok_def intro!: steps_markComplete [OF ok] intro: come_after_check)
next
  case (Rtdl mem dup)
  then show ?thesis
    using run call k by (auto simp: call_ok_def intro!: steps_pulseRTDL [OF ok refl])
next
  case (Events st mem hwId dup im mixed)
  then show ?thesis
    using run call k by (auto simp: call_ok_def sbind_eq_Inr intro: steps_pulseEvents [OF ok])
qed (use k in simp_all)

lemma steps_call:
  assumes ok: "buffer_ok s" and call: "call_ok arrives pv op s" and run: "apply_call c pv op s = Inr s'"
  shows "steps c arrives s s'"
proof (cases "call_key op")
  case None
  then show ?thesis
    using run by (cases op) (auto simp: sbind_eq_Inr intro: steps_register steps_unregister steps_one step.throw_away)
next
  case (Some k)
  then show ?thesis
    using passes_steps [OF passes_call [OF ok call run]] by simp
qed

text \<open>Runs whose pulses may come in any order, and runs whose pulses come in order.\<close>

definition any_order :: arrivals where
  "any_order K k \<longleftrightarrow> True"

definition real_key :: "live_pvs \<times> call \<Rightarrow> bool" where
  "real_key = (\<lambda>(pv, op). call_key op \<noteq> Some no_pid)"

lemma call_any: "real_key (pv, op) \<Longrightarrow> call_ok any_order pv op s"
  by (auto simp: call_ok_def may_come_def any_order_def real_key_def split: option.split)

definition call_in_order :: "live_pvs \<Rightarrow> call \<Rightarrow> buffer \<Rightarrow> bool" where
  "call_in_order pv op s \<longleftrightarrow>
     m_intermittentDataThreshold s = 0 \<and> pv_intermittentDataThreshold pv = 0 \<and>
     (case call_key op of None \<Rightarrow> True
      | Some k \<Rightarrow> k \<noteq> no_pid \<and> (k \<in> buffered s \<or> (\<forall>k' \<in> buffered s. k' < k)))"

fun calls_in_order :: "sms_config \<Rightarrow> (live_pvs \<times> call) list \<Rightarrow> buffer \<Rightarrow> bool" where
  "calls_in_order c [] s = True"
| "calls_in_order c ((pv, op) # ops) s =
     (call_in_order pv op s \<and>
      (case apply_call c pv op s of Inl e \<Rightarrow> True | Inr s1 \<Rightarrow> calls_in_order c ops s1))"

lemma call_newest: "call_in_order pv op s \<Longrightarrow> call_ok newest pv op s"
  by (auto simp: call_ok_def call_in_order_def may_come_def newest_def split: option.splits)

lemma steps_run:
  "buffer_ok s \<Longrightarrow> list_all real_key ops \<Longrightarrow> run_calls c ops s = Inr s' \<Longrightarrow> steps c any_order s s'"
proof (induction ops arbitrary: s)
  case (Cons e ops)
  obtain pv op where e: "e = (pv, op)" by fastforce
  obtain s1 where s1: "apply_call c pv op s = Inr s1" "run_calls c ops s1 = Inr s'"
    using Cons.prems by (auto simp: e sbind_eq_Inr)
  have one: "steps c any_order s s1"
    using Cons.prems by (auto intro!: steps_call [OF _ call_any s1(1)] simp: e)
  then show ?case
    using Cons.IH [OF steps_buffer_ok [OF one] _ s1(2)] Cons.prems by simp
qed simp

lemma steps_run_in_order:
  "buffer_ok s \<Longrightarrow> calls_in_order c ops s \<Longrightarrow> run_calls c ops s = Inr s' \<Longrightarrow> steps c newest s s'"
proof (induction ops arbitrary: s)
  case (Cons e ops)
  obtain pv op where e: "e = (pv, op)" by fastforce
  obtain s1 where s1: "apply_call c pv op s = Inr s1" "run_calls c ops s1 = Inr s'"
    using Cons.prems by (auto simp: e sbind_eq_Inr)
  have one: "steps c newest s s1"
    using Cons.prems by (auto intro!: steps_call [OF _ call_newest s1(1)] simp: e)
  then show ?case
    using Cons.IH [OF steps_buffer_ok [OF one] _ s1(2)] Cons.prems by (simp add: e s1(1))
qed simp

definition known :: "queue \<Rightarrow> pulse_key set" where
  "known = (\<lambda>(W, R, D). W \<union> set R \<union> set D)"

lemma known_step: "queue_step q q' \<Longrightarrow> known q \<subseteq> known q'"
  by (erule queue_stepE) (auto simp: known_def)

lemma known_steps: "queue_step\<^sup>*\<^sup>* q q' \<Longrightarrow> known q \<subseteq> known q'"
  by (induction rule: rtranclp_induct) (auto dest: known_step)

lemma known_after: "buffer_ok s \<Longrightarrow> steps c any_order s s' \<Longrightarrow> known (queue_of s) \<subseteq> known (queue_of s')"
  using refines.steps_keep [of c any_order s s' "queue_of s"] known_steps by blast

lemma calls_known:
  "buffer_ok s \<Longrightarrow> list_all real_key ops \<Longrightarrow> run_calls c ops s = Inr s' \<Longrightarrow> (pv, op) \<in> set ops \<Longrightarrow>
    call_key op = Some k \<Longrightarrow> k \<in> known (queue_of s')"
proof (induction ops arbitrary: s)
  case (Cons e ops)
  obtain pv1 op1 where e: "e = (pv1, op1)" by fastforce
  obtain s1 where s1: "apply_call c pv1 op1 s = Inr s1" "run_calls c ops s1 = Inr s'"
    using Cons.prems(3) by (auto simp: e sbind_eq_Inr)
  have call: "call_ok any_order pv1 op1 s"
    using Cons.prems(2) by (auto simp: e intro: call_any)
  have ok1: "buffer_ok s1"
    using steps_buffer_ok [OF steps_call [OF Cons.prems(1) call s1(1)] Cons.prems(1)] .
  show ?case
  proof (cases "(pv, op) \<in> set ops")
    case True
    then show ?thesis
      using Cons.IH [OF ok1 _ s1(2)] Cons.prems by simp
  next
    case False
    then have "op1 = op"
      using Cons.prems(4) by (simp add: e)
    then obtain t where t: "steps c any_order s t" "k \<in> buffered t" "steps c any_order t s1"
      using passes_call [OF Cons.prems(1) call s1(1)] Cons.prems(5) by (auto simp: passes_def)
    have "steps c any_order t s'"
      using t(3) steps_run [OF ok1 _ s1(2)] Cons.prems(2) by simp
    then have "known (queue_of t) \<subseteq> known (queue_of s')"
      using known_after steps_buffer_ok [OF t(1) Cons.prems(1)] by blast
    then show ?thesis
      using t(2) by (auto simp: known_def queue_of_def)
  qed
qed simp

section \<open>The cached iterator\<close>

definition no_dangling :: "sms_error + 'a \<Rightarrow> bool" where
  "no_dangling r \<longleftrightarrow> r \<noteq> Inl Dangling_Iterator"

lemma no_dangling_simps [simp]: "no_dangling (Inr x)" "no_dangling (Inl e) \<longleftrightarrow> e \<noteq> Dangling_Iterator"
  by (auto simp: no_dangling_def)

lemma no_dangling_bind:
  "no_dangling m \<Longrightarrow> (\<And>x. m = Inr x \<Longrightarrow> no_dangling (f x)) \<Longrightarrow> no_dangling (sbind m f)"
  by (cases m) (auto simp: no_dangling_def)

definition proper_key :: "pulse_key \<Rightarrow> bool" where
  "proper_key k \<longleftrightarrow> k \<noteq> no_pid \<and> k \<noteq> (0, 0)"

lemma proper_may_come: "proper_key k \<Longrightarrow> may_come any_order s k"
  by (simp add: proper_key_def may_come_def any_order_def)

lemma getPulse_proper:
  assumes ok: "buffer_ok s" and k: "proper_key k"
  obtains s' where "getPulse c pv k s = Inr (k, s')" "steps c any_order s s'" "k \<in> buffered s'"
proof -
  have "m_lastPulseIt s \<noteq> None" if "k = m_lastPid s"
    using assms that by (auto simp: buffer_ok_def cache_ok_def proper_key_def split: if_splits)
  then obtain r where get: "getPulse c pv k s = Inr r"
    by (cases "k = m_lastPid s"; cases "k \<in> buffered s") (auto simp: getPulse_def Let_def)
  then show ?thesis
    using that steps_getPulse [OF ok proper_may_come [OF k]] by (metis surj_pair)
qed

lemma no_dangling_unregister: "no_dangling (unregisterEventSource c pv i s)"
  by (auto simp: unregisterEventSource_def Let_def split: option.split)

lemma no_dangling_check: "no_dangling (check_intermittent c pv s)"
  by (auto simp: check_intermittent_def Let_def no_dangling_unregister split: option.split)

lemma no_dangling_complete:
  assumes ok: "buffer_ok s" and k: "proper_key k"
  shows "no_dangling (markComplete c pv k i s)"
  unfolding markComplete_def
proof (rule no_dangling_bind [OF no_dangling_check])
  fix s1
  assume "check_intermittent c pv (poll_threshold pv s) = Inr s1"
  then have "steps c any_order s s1"
    by (rule rtranclp_trans [OF steps_same [OF poll_same(1)] steps_check_intermittent])
  then have "buffer_ok s1"
    using ok by (rule steps_buffer_ok)
  then obtain s2 where "getPulse c pv k s1 = Inr (k, s2)"
    using k by (rule getPulse_proper)
  then show "no_dangling (sbind (getPulse c pv k s1) (\<lambda>(k, s2).
      if i \<noteq> NO_SOURCE \<and> unat i \<ge> SOURCE_SET_SIZE then Inl Source_Out_Of_Range
      else (let (ps, done) = complete_current i k (m_pulses s2); s3 = s2\<lparr>m_pulses := ps\<rparr> in
            case done of None \<Rightarrow> Inr s3 | Some l \<Rightarrow> Inr (record_complete c pv l s3))))"
    by (auto simp: Let_def split: prod.split option.split)
qed

lemma no_dangling_rtdl:
  assumes ok: "buffer_ok s" and k: "proper_key (pulse_id (header_at mem), dup)"
  shows "no_dangling (pulseRTDL c pv mem dup s)"
proof -
  let ?k = "(pulse_id (header_at mem), dup)"
  obtain s1 where s1: "getPulse c pv ?k s = Inr (?k, s1)" "steps c any_order s s1" "?k \<in> buffered s1"
    by (rule getPulse_proper [OF ok k])
  have ok1: "buffer_ok s1"
    using s1(2) ok by (rule steps_buffer_ok)
  obtain p where p: "map_of (m_pulses s1) ?k = Some p"
    using s1(3) by (metis not_Some_eq om_keys_iff)
  have "no_dangling (markComplete c pv ?k NO_SOURCE t)" if "steps c any_order s1 t" for t
    by (rule no_dangling_complete [OF steps_buffer_ok [OF that ok1] k])
  moreover have "steps c any_order s1 (on_pulse ?k (set_flag PARTIAL_DATA) t)"
    if "same_core (on_pulse ?k (take_rtdl mem) (s1\<lparr>m_lastRingPeriod := r\<rparr>)) t" for r t
  proof -
    have "steps c any_order s1 (s1\<lparr>m_lastRingPeriod := r\<rparr>)"
      by (rule steps_same) (simp add: same_core_def)
    also have "steps c any_order (s1\<lparr>m_lastRingPeriod := r\<rparr>)
        (on_pulse ?k (take_rtdl mem) (s1\<lparr>m_lastRingPeriod := r\<rparr>))"
      by (rule steps_on_pulse) (rule keeps_rtdl)
    also have "steps c any_order (on_pulse ?k (take_rtdl mem) (s1\<lparr>m_lastRingPeriod := r\<rparr>)) t"
      by (rule steps_same) (rule that)
    also have "steps c any_order t (on_pulse ?k (set_flag PARTIAL_DATA) t)"
      by (rule steps_on_pulse) (rule keeps_set_flag)
    finally show ?thesis .
  qed
  ultimately have "no_dangling (markComplete c pv ?k NO_SOURCE (on_pulse ?k (set_flag PARTIAL_DATA) t))"
    if "same_core (on_pulse ?k (take_rtdl mem) (s1\<lparr>m_lastRingPeriod := r\<rparr>)) t" for r t
    using that by blast
  note mark = this [where r = "rtdl_ringPeriod mem"]
  show ?thesis
    by (auto simp: pulseRTDL_def Let_def s1(1) p intro!: mark) (simp_all add: same_core_def)
qed

lemma no_dangling_place: "no_dangling (place_event c st pl t x)"
proof -
  have "no_dangling (grow_banks c state y)" "no_dangling (push_event c pl state t z)" for state y z
    by (auto simp: grow_banks_def push_event_def Let_def split: prod.split)
  then show ?thesis
    by (auto simp: place_event_def Let_def intro!: no_dangling_bind split: prod.split)
qed

lemma no_dangling_event_step: "no_dangling (event_step c st mem im e x)"
proof -
  have "no_dangling (addFastMetaEvent a e y)" for a y
    by (auto simp: addFastMetaEvent_def Let_def split: prod.split option.split sum.split)
  then show ?thesis
    by (auto simp: event_step_def Let_def intro!: no_dangling_bind no_dangling_place split: prod.split)
qed

lemma no_dangling_collect: "no_dangling (collect_packet c st r mem hw im mixed x)"
proof -
  have "no_dangling (event_loop c st mem im es y)" for es y
    by (induction es arbitrary: y) (auto intro!: no_dangling_bind no_dangling_event_step)
  then show ?thesis
    by (auto simp: collect_packet_def Let_def intro!: no_dangling_bind split: prod.split)
qed

lemma no_dangling_call:
  assumes ok: "buffer_ok s" and k: "\<And>k. call_key op = Some k \<Longrightarrow> proper_key k"
  shows "no_dangling (apply_call c pv op s)"
proof (cases op)
  case (Register srcId)
  then show ?thesis
    by (auto simp: registerEventSource_def Let_def split: option.split)
next
  case (Partial key)
  then obtain s1 where "getPulse c pv key s = Inr (key, s1)"
    using k by (auto elim: getPulse_proper [OF ok])
  then show ?thesis
    by (simp add: Partial markPartial_def)
next
  case (Events st mem hwId dup im mixed)
  let ?k = "(pulse_id (header_at mem), dup)"
  have pk: "proper_key ?k"
    using k by (simp add: Events)
  obtain s1 where s1: "getPulse c pv ?k s = Inr (?k, s1)" "steps c any_order s s1" "?k \<in> buffered s1"
    by (rule getPulse_proper [OF ok pk])
  then obtain p where "map_of (m_pulses s1) ?k = Some p"
    by (metis not_Some_eq om_keys_iff)
  then show ?thesis
    by (auto simp: Events pulseEvents_def s1(1) intro!: no_dangling_bind no_dangling_collect)
next
  case (Complete key i)
  then show ?thesis
    using no_dangling_complete [OF ok] k by simp
next
  case (Rtdl mem dup)
  then show ?thesis
    using no_dangling_rtdl [OF ok] k by simp
qed (simp_all add: no_dangling_unregister)

text \<open>
  Reading a pulse through the cached iterator is safe: whatever calls come, as long as none is for
  pulse zero (or for the two all-ones words that mean no pulse), no call follows an iterator that was
  never set or whose pulse was erased.
\<close>

theorem cached_iterator_safe:
  assumes "\<forall>(pv, op) \<in> set ops. \<forall>k. call_key op = Some k \<longrightarrow> proper_key k"
  shows "run_calls c ops (new_buffer pv0 co) \<noteq> Inl Dangling_Iterator"
proof -
  have "no_dangling (run_calls c ops s)" if "buffer_ok s" for s
    using that assms
  proof (induction ops arbitrary: s)
    case (Cons e ops)
    obtain pv op where e: "e = (pv, op)" by fastforce
    have k: "proper_key k" if "call_key op = Some k" for k
      using Cons.prems(2) that by (cases k) (auto simp: e)
    have real: "real_key (pv, op)"
      using k [of no_pid] by (auto simp: real_key_def proper_key_def)
    show ?case
      unfolding e run_calls.simps
    proof (rule no_dangling_bind [OF no_dangling_call [OF Cons.prems(1) k]])
      fix s1 assume "apply_call c pv op s = Inr s1"
      then have "steps c any_order s s1"
        by (rule steps_call [OF Cons.prems(1) call_any [OF real]])
      then have "buffer_ok s1"
        using Cons.prems(1) by (rule steps_buffer_ok)
      then show "no_dangling (run_calls c ops s1)"
        by (rule Cons.IH) (use Cons.prems(2) in auto)
    qed simp
  qed simp
  then show ?thesis
    using new_buffer_ok by (auto simp: no_dangling_def)
qed

text \<open>
  The constructor of the service resets a local variable in place of the member that remembers the
  last pulse, so the first call for pulse zero takes the iterator that was never set.
\<close>

theorem pulse_zero_dangles:
  "getPulse c pv (0, 0) (new_buffer pv0 co) = Inl Dangling_Iterator"
  by (simp add: getPulse_def new_buffer_def)

section \<open>The buffer is a queue\<close>


text \<open>
  No pulse is lost: after any run every pulse a call was about is still in the buffer, was recorded,
  or was thrown away by the operator.
\<close>

theorem no_pulse_lost:
  assumes "list_all real_key ops" and "run_calls c ops (new_buffer pv0 co) = Inr s"
    and "(pv, op) \<in> set ops" and "call_key op = Some k"
  shows "k \<in> buffered s \<or> k \<in> m_id ` set (recorded s) \<or> k \<in> m_id ` set (discarded s)"
  using calls_known [OF new_buffer_ok assms] by (auto simp: known_def queue_of_def)

text \<open>
  C18. While every new pulse is newer than the pulses in the buffer (and the check for intermittent
  sources is off), each pulse that is recorded is complete or marked as partial, also when the buffer
  overflows, sources come and go and pulses are held back.
\<close>

theorem recorded_complete_or_partial:
  assumes "calls_in_order c ops (new_buffer pv0 co)" and "run_calls c ops (new_buffer pv0 co) = Inr s"
  shows "list_all complete_or_partial (recorded s)"
proof -
  have "in_order (new_buffer pv0 co)"
    by (simp add: in_order_def new_buffer_def nested_def)
  then have "in_order s"
    by (rule ordered.steps_keep [OF steps_run_in_order [OF new_buffer_ok assms] new_buffer_ok])
  then show ?thesis
    by (simp add: in_order_def)
qed

section \<open>Every pulse leaves\<close>

lemma record_upto_settings [simp]:
  "m_intermittentDataThreshold (record_upto c l s) = m_intermittentDataThreshold s"
  "m_noEoPPulseBufferSize (record_upto c l s) = m_noEoPPulseBufferSize s"
  by (simp_all add: record_upto_def reset_last_def)

lemma record_upto_fields:
  assumes "buffer_ok s"
  shows "m_pulses (record_upto c l s) = drop (Suc l) (m_pulses s)"
    and "List.map m_id (recorded (record_upto c l s)) =
      List.map m_id (recorded s) @ List.map fst (take (Suc l) (m_pulses s))"
    and "m_eventSources (record_upto c l s) = m_eventSources s"
proof -
  obtain rs where f: "m_pulses (record_first c (\<lambda>p. p) (Suc l) s) = drop (Suc l) (m_pulses s)"
    "recorded (record_first c (\<lambda>p. p) (Suc l) s) = recorded s @ rs"
    "m_eventSources (record_first c (\<lambda>p. p) (Suc l) s) = m_eventSources s"
    and all: "list_all2 (\<lambda>e p. keeps (snd e) p) (take (Suc l) (m_pulses s)) rs"
    by (rule record_first_fields)
  have "List.map m_id rs = List.map fst (take (Suc l) (m_pulses s))"
    by (rule recorded_keys [of "m_eventSources s", OF _ all]) (use assms in \<open>simp_all add: buffer_ok_def\<close>)
  then show "m_pulses (record_upto c l s) = drop (Suc l) (m_pulses s)"
    "List.map m_id (recorded (record_upto c l s)) =
      List.map m_id (recorded s) @ List.map fst (take (Suc l) (m_pulses s))"
    "m_eventSources (record_upto c l s) = m_eventSources s"
    using f by (simp_all add: record_upto_def)
qed

text \<open>Settings that stay as they are, with the check for intermittent sources off.\<close>

definition calm :: "live_pvs \<Rightarrow> buffer \<Rightarrow> bool" where
  "calm pv s \<longleftrightarrow> m_intermittentDataThreshold s = 0 \<and> pv_intermittentDataThreshold pv = 0 \<and>
     pv_noEoPPulseBufferSize pv = m_noEoPPulseBufferSize s"

text \<open>The pulse \<open>k\<close> of the buffer, with the pulses behind it.\<close>

definition holds_pulse :: "pulse_key \<Rightarrow> pulse \<Rightarrow> (pulse_key, pulse) omap \<Rightarrow> buffer \<Rightarrow> bool" where
  "holds_pulse k p b s \<longleftrightarrow> (\<exists>a. m_pulses s = a @ (k, p) # b)"

lemma getPulse_known:
  assumes ok: "buffer_ok s" and k: "k \<in> buffered s"
  obtains s' where "getPulse c pv k s = Inr (k, s')" "m_pulses s' = m_pulses s" "recorded s' = recorded s"
    "m_intermittentDataThreshold s' = m_intermittentDataThreshold s"
    "m_noEoPPulseBufferSize s' = m_noEoPPulseBufferSize s" "buffer_ok s'"
proof (cases "k = m_lastPid s")
  case True
  then show ?thesis
    using ok k that [of s] by (simp add: getPulse_def buffer_ok_def cache_ok_def)
next
  case False
  then show ?thesis
    using ok k that [of "s\<lparr>m_lastPid := k, m_lastPulseIt := Some k\<rparr>"]
    by (simp add: getPulse_def buffer_ok_def cache_ok_def)
qed

lemma poll_fields [simp]:
  "m_pulses (poll_threshold pv s) = m_pulses s" "recorded (poll_threshold pv s) = recorded s"
  "m_noEoPPulseBufferSize (poll_threshold pv s) = m_noEoPPulseBufferSize s"
  "m_pulses (poll_buffer_size pv s) = m_pulses s" "recorded (poll_buffer_size pv s) = recorded s"
  "m_intermittentDataThreshold (poll_buffer_size pv s) = m_intermittentDataThreshold s"
  "m_pulses (poll_corrections pv s) = m_pulses s" "recorded (poll_corrections pv s) = recorded s"
  "m_intermittentDataThreshold (poll_corrections pv s) = m_intermittentDataThreshold s"
  "m_noEoPPulseBufferSize (poll_corrections pv s) = m_noEoPPulseBufferSize s"
  by (simp_all add: poll_threshold_def poll_buffer_size_def poll_corrections_def Let_def)

lemma calm_polls:
  "calm pv s \<Longrightarrow> m_intermittentDataThreshold (poll_threshold pv s) = 0"
  "pv_noEoPPulseBufferSize pv = m_noEoPPulseBufferSize s \<Longrightarrow>
     m_noEoPPulseBufferSize (poll_buffer_size pv s) = m_noEoPPulseBufferSize s"
  by (simp_all add: calm_def poll_threshold_def poll_buffer_size_def Let_def)

text \<open>What recording does around the pulse \<open>k\<close>: the pulses behind it stay.\<close>

lemma record_complete_fields:
  assumes ok: "buffer_ok s" and ps: "m_pulses s = a @ (k, p) # b" and l: "l \<le> length a"
    and size: "pv_noEoPPulseBufferSize pv = m_noEoPPulseBufferSize s"
    and room: "unat (m_noEoPPulseBufferSize s) \<le> length b"
  shows "m_pulses (record_complete c pv l s) = drop (Suc l) (m_pulses s)"
    "List.map m_id (recorded (record_complete c pv l s)) =
      List.map m_id (recorded s) @ List.map fst (take (Suc l) (m_pulses s))"
    "m_intermittentDataThreshold (record_complete c pv l s) = m_intermittentDataThreshold s"
    "m_noEoPPulseBufferSize (record_complete c pv l s) = m_noEoPPulseBufferSize s"
proof -
  let ?s1 = "poll_buffer_size pv s"
  let ?s2 = "poll_corrections pv ?s1"
  have "hold_back (unat (m_noEoPPulseBufferSize ?s1)) (length (m_pulses ?s1)) l = Some l"
    using l room by (simp add: calm_polls(2) [OF size] ps hold_back_eq min_absorb1)
  then have rec: "record_complete c pv l s = record_upto c l ?s2"
    by (simp add: record_complete_def Let_def)
  have "buffer_ok ?s2"
    using steps_buffer_ok [OF steps_same [OF same_core_trans [OF poll_same(2) poll_same(3)]] ok] .
  then show "m_pulses (record_complete c pv l s) = drop (Suc l) (m_pulses s)"
    "List.map m_id (recorded (record_complete c pv l s)) =
      List.map m_id (recorded s) @ List.map fst (take (Suc l) (m_pulses s))"
    by (simp_all add: rec record_upto_fields)
  show "m_intermittentDataThreshold (record_complete c pv l s) = m_intermittentDataThreshold s"
    "m_noEoPPulseBufferSize (record_complete c pv l s) = m_noEoPPulseBufferSize s"
    by (simp_all add: rec calm_polls(2) [OF size])
qed

lemma real_source: "unat (i :: u32) < 256 \<Longrightarrow> i \<noteq> NO_SOURCE"
proof -
  have "unat (- 1 :: u32) = 4294967295"
    by (simp add: unsigned_minus_1_eq_mask mask_eq_exp_minus_1)
  then show "unat (i :: u32) < 256 \<Longrightarrow> i \<noteq> NO_SOURCE"
    by (auto simp: NO_SOURCE_def)
qed

lemma complete_call:
  assumes ok: "buffer_ok s" and calm: "calm pv s" and holds: "holds_pulse k p b s"
    and room: "unat (m_noEoPPulseBufferSize s) \<le> length b" and k: "k \<noteq> no_pid" and i: "unat i < 256"
  obtains s' where "markComplete c pv k i s = Inr s'" "buffer_ok s'"
    "m_intermittentDataThreshold s' = 0" "m_noEoPPulseBufferSize s' = m_noEoPPulseBufferSize s"
    "if m_pending (complete_for i p) = 0
     then m_pulses s' = b \<and> k \<in> m_id ` set (recorded s')
     else holds_pulse k (complete_for i p) b s'"
proof -
  let ?s1 = "poll_threshold pv s"
  have thr: "m_intermittentDataThreshold s = 0" "pv_intermittentDataThreshold pv = 0"
    and size: "pv_noEoPPulseBufferSize pv = m_noEoPPulseBufferSize s"
    using calm by (simp_all add: calm_def)
  have ok1: "buffer_ok ?s1"
    by (rule steps_buffer_ok [OF steps_same [OF poll_same(1)] ok])
  obtain a where ps: "m_pulses s = a @ (k, p) # b"
    using holds by (auto simp: holds_pulse_def)
  then have "k \<in> buffered ?s1"
    by simp
  then obtain s2 where get: "getPulse c pv k ?s1 = Inr (k, s2)" and s2: "m_pulses s2 = a @ (k, p) # b"
      "m_intermittentDataThreshold s2 = 0" "m_noEoPPulseBufferSize s2 = m_noEoPPulseBufferSize s" "buffer_ok s2"
    using getPulse_known [OF ok1] ps calm_polls(1) [OF calm] by (metis poll_fields(1,3))
  have keys: "k \<notin> om_keys a" "k \<notin> om_keys b"
    using buffer_ok_om [OF ok] by (auto simp: ps om_ok_append)
  define a1 where "a1 = release_all i a"
  define d where "d = (if m_pending (complete_for i p) = 0 then Some (length a) else last_done a1)"
  have i': "i \<noteq> NO_SOURCE" "\<not> unat i \<ge> SOURCE_SET_SIZE"
    using real_source [OF i] i by (simp_all add: SOURCE_SET_SIZE_def)
  let ?s3 = "s2\<lparr>m_pulses := a1 @ (k, complete_for i p) # b\<rparr>"
  have cc: "complete_current i k (m_pulses s2) = (a1 @ (k, complete_for i p) # b, d)"
    using i' by (simp add: s2(1) complete_current_split [OF keys] a1_def d_def)
  have "step c any_order s2 (s2\<lparr>m_pulses := fst (complete_current i k (m_pulses s2))\<rparr>)"
    by (rule step.finish) (simp add: s2(1))
  then have ok3: "buffer_ok ?s3"
    using s2(4) by (auto simp: cc dest: step_buffer_ok)
  have len: "length a1 = length a"
    by (simp add: a1_def release_all_def)
  have run: "markComplete c pv k i s = Inr (case d of None \<Rightarrow> ?s3 | Some l \<Rightarrow> record_complete c pv l ?s3)"
    using i' by (simp add: markComplete_def threshold_off [OF thr] get cc split: option.split)
  note steps = passes_steps [OF steps_markComplete [OF ok _ run, of any_order]]
  have oks: "buffer_ok (case d of None \<Rightarrow> ?s3 | Some l \<Rightarrow> record_complete c pv l ?s3)"
    by (rule steps_buffer_ok [OF steps ok]) (simp add: may_come_def any_order_def k)
  show ?thesis
  proof (cases d)
    case None
    then show ?thesis
      using that [OF run oks] s2 by (auto simp: d_def holds_pulse_def split: if_splits)
  next
    case (Some l)
    have l: "l \<le> length a1"
      using Some last_done_less [of a1 l] by (auto simp: d_def len split: if_splits)
    have "unat (m_noEoPPulseBufferSize ?s3) \<le> length b" "pv_noEoPPulseBufferSize pv = m_noEoPPulseBufferSize ?s3"
      using room size s2(3) by simp_all
    note f = record_complete_fields [where a = a1 and k = k and p = "complete_for i p" and b = b,
        OF ok3 _ l this(2,1), simplified]
    show ?thesis
    proof (rule that [OF run oks])
      show "if m_pending (complete_for i p) = 0
        then m_pulses (case d of None \<Rightarrow> ?s3 | Some l \<Rightarrow> record_complete c pv l ?s3) = b \<and>
          k \<in> m_id ` set (recorded (case d of None \<Rightarrow> ?s3 | Some l \<Rightarrow> record_complete c pv l ?s3))
        else holds_pulse k (complete_for i p) b (case d of None \<Rightarrow> ?s3 | Some l \<Rightarrow> record_complete c pv l ?s3)"
      proof (cases "m_pending (complete_for i p) = 0")
        case True
        then have "l = length a1"
          using Some by (simp add: d_def len)
        then have "k \<in> set (List.map m_id (recorded (record_complete c pv l ?s3)))"
          unfolding f(2) by simp
        then show ?thesis
          using True f(1) \<open>l = length a1\<close> by (simp add: Some)
      next
        case False
        then have "l < length a1"
          using Some last_done_less [of a1 l] by (simp add: d_def)
        then show ?thesis
          using False by (auto simp: Some f(1) holds_pulse_def)
      qed
    qed (simp_all add: Some f s2)
  qed
qed

lemma bit_complete_for: "bit (m_pending (complete_for i p)) n \<longleftrightarrow> bit (m_pending p) n \<and> n \<noteq> unat i"
  by (simp add: complete_for_def bit_unset_source)

definition completions :: "pulse_key \<Rightarrow> (live_pvs \<times> u32) list \<Rightarrow> (live_pvs \<times> call) list" where
  "completions k cs = List.map (\<lambda>(pv, i). (pv, Complete k i)) cs"

lemma complete_run:
  assumes "buffer_ok s" "holds_pulse k p b s" "m_pending p \<noteq> 0" "k \<noteq> no_pid" "distinct (List.map snd cs)"
    and "unat (m_noEoPPulseBufferSize s) \<le> length b"
    and "\<And>n. bit (m_pending p) n \<longleftrightarrow> n \<in> (\<lambda>e. unat (snd e)) ` set cs"
    and "\<And>pv i. (pv, i) \<in> set cs \<Longrightarrow> calm pv s"
  shows "\<exists>s'. run_calls c (completions k cs) s = Inr s' \<and> m_pulses s' = b \<and> k \<in> m_id ` set (recorded s')"
  using assms
proof (induction cs arbitrary: s p)
  case Nil
  then show ?case
    by (metis bit_word_eqI bit_0_eq bot_apply bot_bool_def empty_iff image_empty list.set(1))
next
  case (Cons e cs)
  obtain pv i where e: "e = (pv, i)" by fastforce
  have bits: "bit (m_pending p) n \<longleftrightarrow> n = unat i \<or> n \<in> (\<lambda>e. unat (snd e)) ` set cs" for n
    using Cons.prems(7) [of n] by (simp add: e)
  have "unat i < 256"
    using bits [of "unat i"] bit_source_less by blast
  moreover have "calm pv s"
    using Cons.prems(8) [of pv i] by (simp add: e)
  ultimately obtain s1 where s1: "markComplete c pv k i s = Inr s1" "buffer_ok s1"
      "m_intermittentDataThreshold s1 = 0" "m_noEoPPulseBufferSize s1 = m_noEoPPulseBufferSize s"
      "if m_pending (complete_for i p) = 0 then m_pulses s1 = b \<and> k \<in> m_id ` set (recorded s1)
       else holds_pulse k (complete_for i p) b s1"
    using complete_call [OF Cons.prems(1) _ Cons.prems(2,6,4)] by metis
  have i: "unat i \<notin> (\<lambda>e. unat (snd e)) ` set cs"
    using Cons.prems(5) by (auto simp: e image_iff word_unat_eq_iff)
  have run: "run_calls c (completions k (e # cs)) s = run_calls c (completions k cs) s1"
    by (simp add: completions_def e s1(1))
  have rest: "bit (m_pending (complete_for i p)) n \<longleftrightarrow> n \<in> (\<lambda>e. unat (snd e)) ` set cs" for n
    using bits [of n] i unfolding bit_complete_for by blast
  show ?case
  proof (cases "m_pending (complete_for i p) = 0")
    case True
    then have "cs = []"
      using rest by (cases cs) auto
    then show ?thesis
      using run s1(5) True by (simp add: completions_def)
  next
    case False
    have "calm pv1 s1" if "(pv1, i1) \<in> set cs" for pv1 i1
      using Cons.prems(8) [of pv1 i1] that s1(3,4) by (simp add: calm_def)
    moreover have "distinct (List.map snd cs)" "unat (m_noEoPPulseBufferSize s1) \<le> length b"
      using Cons.prems(5,6) s1(4) by simp_all
    moreover have "holds_pulse k (complete_for i p) b s1"
      using s1(5) False by simp
    ultimately show ?thesis
      unfolding run using Cons.IH [OF s1(2) _ False Cons.prems(4) _ _ rest] by blast
  qed
qed


text \<open>The last source that goes empties the buffer.\<close>

lemma last_done_all: "ps \<noteq> [] \<Longrightarrow> list_all (\<lambda>e. m_pending (snd e) = 0) ps \<Longrightarrow> last_done ps = Some (length ps - 1)"
proof (induction ps)
  case (Cons e ps)
  then show ?case by (cases "ps = []") simp_all
qed simp

lemma source_count_single:
  assumes "\<And>j. bit srcs j \<Longrightarrow> j = n"
  shows "source_count srcs \<le> 1"
proof -
  have "set (List.filter (bit srcs) [0 ..< 256]) \<subseteq> {n}"
    using assms by auto
  then have "card (set (List.filter (bit srcs) [0 ..< 256])) \<le> 1"
    using card_mono [of "{n}"] by fastforce
  then show ?thesis
    unfolding source_count_def by (subst distinct_card [symmetric]) simp_all
qed

text \<open>
  When the last event source goes, nothing stays behind: every pulse of the buffer is recorded,
  oldest first and without regard to the pulses that are held back otherwise, and the service knows that
  it has no source.
\<close>

theorem last_source_flushes:
  assumes "buffer_ok s" and "m_eventSources s = set_bit (unat i) 0" and "unat i < 256"
  shows "\<exists>s'. unregisterEventSource c pv i s = Inr s' \<and> m_pulses s' = [] \<and> m_eventSources s' = 0 \<and>
    m_noRegisteredEventSources s' \<and>
    List.map m_id (recorded s') = List.map m_id (recorded s) @ List.map fst (m_pulses s)"
proof -
  let ?ps = "release_all i (m_pulses s)"
  let ?s1 = "s\<lparr>m_pulses := ?ps\<rparr>"
  have i: "i \<noteq> NO_SOURCE" "\<not> SOURCE_SET_SIZE \<le> unat i"
    using real_source [OF assms(3)] assms(3) by (simp_all add: SOURCE_SET_SIZE_def)
  have bits: "bit (m_eventSources s) j \<longleftrightarrow> j = unat i" for j
    using assms(2,3) bit_set_source [of "unat i" 0 j] by simp
  then have cnt: "\<not> source_count (m_eventSources s) > 1"
    using source_count_single [of "m_eventSources s" "unat i"] by simp
  have zero: "unset_bit (unat i) (m_eventSources s) = 0"
    by (rule bit_word_eqI) (simp add: bit_unset_source bits)
  have keys: "List.map fst ?ps = List.map fst (m_pulses s)"
    by (rule shrinks_keys [OF shrinks_release])
  have free: "m_pulses (free_id i t) = m_pulses t \<and> m_eventSources (free_id i t) = 0 \<and>
      m_noRegisteredEventSources (free_id i t) \<and> recorded (free_id i t) = recorded t"
    if "m_eventSources t = m_eventSources s" for t
    using that zero by (simp add: free_id_def Let_def)
  show ?thesis
  proof (cases "m_pulses s = []")
    case True
    then show ?thesis
      using i free [of ?s1] by (simp add: unregisterEventSource_def release_all_def)
  next
    case False
    have none: "m_pending (snd e) = 0" if e: "e \<in> set ?ps" for e
    proof -
      obtain e0 where e0: "e0 \<in> set (m_pulses s)" "m_pending (snd e) = unset_bit (unat i) (m_pending (snd e0))"
        using set_release_all [OF e] by blast
      have "within (m_pending (snd e0)) (m_eventSources s)"
        using assms(1) e0(1) by (auto simp: buffer_ok_def pulses_ok_def list_all_iff)
      then have "within (m_pending (snd e)) (unset_bit (unat i) (m_eventSources s))"
        unfolding e0(2) by (rule within_unset)
      then show ?thesis
        by (simp add: zero)
    qed
    have l: "last_done ?ps = Some (length ?ps - 1)"
      by (rule last_done_all) (use False none in \<open>auto simp: list_all_iff release_all_def\<close>)
    define t where "t = ?s1\<lparr>m_noEoPPulseBufferSize := pv_noEoPPulseBufferSize pv,
      m_doPulsePchgCorrect := pv_doPulsePchgCorrect pv, m_doPulseVetoCorrect := pv_doPulseVetoCorrect pv\<rparr>"
    have run: "unregisterEventSource c pv i s = Inr (free_id i (record_upto c (length ?ps - 1) t))"
      using i l cnt by (simp add: unregisterEventSource_def t_def)
    have "step c any_order s ?s1"
      by (rule step.give_up)
    then have "steps c any_order s t"
      using steps_same [of ?s1 t c any_order] by (simp add: t_def same_core_def)
    then have okt: "buffer_ok t"
      using assms(1) by (rule steps_buffer_ok)
    have "Suc (length ?ps - 1) = length ?ps"
      using False by (simp add: release_all_def)
    then show ?thesis
      using run record_upto_fields [OF okt, of c "length ?ps - 1"] free [of "record_upto c (length ?ps - 1) t"]
      by (simp add: t_def keys)
  qed
qed

section \<open>A small run\<close>

text \<open>Two sources, no pulses held back, no corrections.\<close>

definition quiet_pvs :: live_pvs where
  "quiet_pvs = \<lparr>pv_noEoPPulseBufferSize = 0, pv_maxPulseBufferSize = 1000, pv_intermittentDataThreshold = 0,
     pv_doPulsePchgCorrect = False, pv_doPulseVetoCorrect = False\<rparr>"

abbreviation fresh_buffer :: buffer where
  "fresh_buffer \<equiv> new_buffer quiet_pvs sample_collect"

definition sample_calls :: "(live_pvs \<times> call) list" where
  "sample_calls = List.map (Pair quiet_pvs)
     [Register 1, Register 2, Complete (5, 0) 0, Complete (7, 0) 0, Complete (5, 0) 1]"

definition outcome ::
    "sms_error + buffer \<Rightarrow>
     (pulse_key list \<times> (pulse_key \<times> source_set \<times> bool) list \<times> pulse_key list) option" where
  "outcome r =
     (case r of Inl e \<Rightarrow> None
      | Inr s \<Rightarrow> Some (List.map fst (m_pulses s),
          List.map (\<lambda>p. (m_id p, m_pending p, partial p)) (recorded s), List.map m_id (discarded s)))"

lemma sample_outcome:
  "outcome (run_calls sample_config sample_calls fresh_buffer) = Some ([(7, 0)], [((5, 0), 0, False)], [])"
  by code_simp

lemma buffer_run:
  obtains s where "run_calls sample_config sample_calls fresh_buffer = Inr s"
    "List.map fst (m_pulses s) = [(7, 0)]" "List.map m_id (recorded s) = [(5, 0)]"
    "List.map m_id (discarded s) = []" "length (recorded s) = 1"
proof -
  obtain s where s: "run_calls sample_config sample_calls fresh_buffer = Inr s"
    using sample_outcome by (auto simp: outcome_def split: sum.splits)
  then have "List.map (\<lambda>p. (m_id p, m_pending p, partial p)) (recorded s) = [((5, 0), 0, False)]"
    and "List.map fst (m_pulses s) = [(7, 0)]" "List.map m_id (discarded s) = []"
    using sample_outcome by (simp_all add: outcome_def)
  then show ?thesis
    using that [OF s] by auto
qed

lemma sample_real: "list_all real_key sample_calls"
  by (simp add: sample_calls_def real_key_def no_pid_def)

theorem cached_iterator_safe_witness:
  "run_calls sample_config sample_calls fresh_buffer \<noteq> Inl Dangling_Iterator"
  by (rule cached_iterator_safe) (simp add: sample_calls_def proper_key_def no_pid_def)


theorem no_pulse_lost_witness:
  "\<exists>s. run_calls sample_config sample_calls fresh_buffer = Inr s \<and>
    ((7, 0) \<in> buffered s \<or> (7, 0) \<in> m_id ` set (recorded s) \<or> (7, 0) \<in> m_id ` set (discarded s)) \<and>
    (7, 0) \<notin> m_id ` set (recorded s)"
proof -
  obtain s where s: "run_calls sample_config sample_calls fresh_buffer = Inr s"
    "List.map m_id (recorded s) = [(5, 0)]"
    by (rule buffer_run)
  have "(7, 0) \<in> buffered s \<or> (7, 0) \<in> m_id ` set (recorded s) \<or> (7, 0) \<in> m_id ` set (discarded s)"
    by (rule no_pulse_lost [OF sample_real s(1), of quiet_pvs "Complete (7, 0) 0"])
       (simp_all add: sample_calls_def)
  then show ?thesis
    using s(1) arg_cong [OF s(2), of set] by auto
qed

theorem recorded_complete_or_partial_witness:
  "\<exists>s. run_calls sample_config sample_calls fresh_buffer = Inr s \<and>
    list_all complete_or_partial (recorded s) \<and> length (recorded s) = 1"
proof -
  obtain s where s: "run_calls sample_config sample_calls fresh_buffer = Inr s" "length (recorded s) = 1"
    by (rule buffer_run)
  have "calls_in_order sample_config sample_calls fresh_buffer"
    by code_simp
  from recorded_complete_or_partial [OF this s(1)] show ?thesis
    using s by blast
qed

definition two_pulses :: "source_set \<Rightarrow> buffer" where
  "two_pulses srcs =
     fresh_buffer\<lparr>m_pulses := [((5, 0), created (5, 0) srcs), ((7, 0), created (7, 0) srcs)],
        m_eventSources := srcs, m_lastPid := no_pid\<rparr>"

lemma two_pulses_ok: "buffer_ok (two_pulses srcs)"
  by (simp add: two_pulses_def buffer_ok_def pulses_ok_def cache_ok_def new_buffer_def no_pid_def)


theorem last_source_flushes_witness:
  "\<exists>s'. unregisterEventSource sample_config quiet_pvs 0 (two_pulses 1) = Inr s' \<and> m_pulses s' = [] \<and>
    List.map m_id (recorded s') = [(5, 0), (7, 0)]"
  using last_source_flushes [OF two_pulses_ok, of 1 0 sample_config quiet_pvs]
  by (force simp: two_pulses_def new_buffer_def set_bit_eq_or)

text \<open>
  Pulses out of order break the promise: source 0 completes pulse 7 before pulse 5 arrives from
  source 1, and when source 1 has completed both, pulse 5 is recorded although it still waits for
  source 0, and it is not marked as partial.
\<close>

theorem late_pulse_recorded_incomplete:
  "outcome (run_calls sample_config (List.map (Pair quiet_pvs)
      [Register 1, Register 2, Complete (7, 0) 0, Complete (5, 0) 1, Complete (7, 0) 1]) fresh_buffer) =
    Some ([], [((5, 0), 1, False), ((7, 0), 0, False)], [])"
  by code_simp

end
