(* ===== verification/Data_Source.thy ===== *)
theory Data_Source
  imports Pulse_Runs
begin

text \<open>
  The data sources of the stream management service (\<open>sms/DataSource.cc\<close>) and how they drive the pulse
  buffer. A data source is one connection; it holds a hardware source for every source identifier in its
  packets, and a hardware source holds the list of the last pulses it sent (\<open>HWSource::m_pulseSeqList\<close>,
  newest first). Modelled are the hardware source (\<open>getPulse\<close>, \<open>endPulse\<close>, \<open>newPulse\<close>, the sequence
  checks), \<open>getHWSource\<close>, \<open>setIntermittent\<close>, \<open>handleDataPkt\<close>, the handlers of RTDL, source list and
  heartbeat packets, \<open>unregisterHWSources\<close> and the state of the connection.

  The system is the pulse buffer with all data sources. A call of the service goes through \<open>control\<close>,
  which also does what the service calls back: \<open>setIntermittent\<close> on the data source of an event source it
  gave up. (The service calls back before it goes on; it reads nothing of a data source after that, so the
  order does not matter.) The field \<open>calls\<close> is a history variable, the calls made so far. An iterator into
  the list of pulses is a position. Process variables, bandwidth statistics and the times for the
  container clean-up are left out.
\<close>

unbundle bit_operations_syntax

section \<open>State\<close>

record pulse_inv =
  pi_pulseId :: u64
  pi_flavor :: u32
  pi_intraPulseTime :: u32
  pi_pulseCharge :: u32
  pi_cycle :: u16
  pi_vetoFlags :: u16
  pi_timingStatus :: u8
  pi_pulseGood :: bool
  pi_dupCount :: u32

type_synonym pulse_seq = "(pulse_inv \<times> u32) list"

record hw_source =
  hs_hwId :: u32
  hs_smsId :: u32
  hs_pulseSeqList :: pulse_seq
  hs_maxPulseSeqList :: u32
  hs_intermittent :: bool
  hs_recoverPktCount :: u32
  hs_lastPulse :: u64
  hs_sourceSeq :: u32
  hs_rtdlNoDataCount :: u32

datatype link_state = DISABLED | IDLE | CONNECTING | ACTIVE

record data_source =
  ds_hwSources :: "(u32, hw_source) omap"
  ds_smsSourceId :: u32
  ds_state :: link_state
  ds_fdreg :: bool
  ds_ignore_eop :: bool
  ds_mixed_data_packets :: bool
  ds_check_source_sequence :: bool
  ds_check_pulse_sequence :: bool
  ds_max_pulse_seq_list :: u32
  ds_rtdlNoDataThresh :: u32
  ds_lastRTDLPulseId :: u64
  ds_lastRTDLCycle :: u16
  ds_dupRTDL :: u32
  ds_data_timeout_retry :: u32
  ds_data_timeout_retry_count :: u32
  ds_readDelay :: bool

text \<open>The process variables of a data source, and what a handler reads from outside.\<close>

record source_pvs =
  pv_checkSourceSequence :: bool
  pv_checkPulseSequence :: bool
  pv_mixedDataPackets :: bool
  pv_ignoreEoP :: bool
  pv_maxPulseSeqList :: u32
  pv_rtdlNoDataThresh :: u32
  pv_dataTimeoutRetry :: u32

record env =
  e_ctrl :: live_pvs
  e_source :: source_pvs
  e_settings :: settings
  e_now :: int

text \<open>The counters are static in the functions, so all data sources share them.\<close>

record system =
  ctrl :: buffer
  sources :: "data_source list"
  getPulse_calls :: u32
  handleDataPkt_calls :: u32
  rxRTDL_calls :: u32
  dataReady_calls :: u32
  calls :: "(live_pvs \<times> call) list"

text \<open>
  How a handler ends early. \<open>registerEventSource\<close> throws a runtime error when no source is free; the state
  it leaves is kept, since \<open>dataReady\<close> catches it. Every other error ends the service here.
\<close>

datatype fault = Crash sms_error | Threw system

definition source_at :: "nat \<Rightarrow> system \<Rightarrow> data_source" where
  "source_at d s = sources s ! d"

definition hw_at :: "nat \<Rightarrow> u32 \<Rightarrow> system \<Rightarrow> hw_source option" where
  "hw_at d h s = map_of (ds_hwSources (source_at d s)) h"

definition on_source :: "nat \<Rightarrow> (data_source \<Rightarrow> data_source) \<Rightarrow> system \<Rightarrow> system" where
  "on_source d f s = s\<lparr>sources := (sources s)[d := f (source_at d s)]\<rparr>"

definition on_hw :: "nat \<Rightarrow> u32 \<Rightarrow> (hw_source \<Rightarrow> hw_source) \<Rightarrow> system \<Rightarrow> system" where
  "on_hw d h f = on_source d (\<lambda>D. D\<lparr>ds_hwSources := om_update h f (ds_hwSources D)\<rparr>)"

section \<open>Calls of the service\<close>

text \<open>\<open>DataSource::setIntermittent\<close>: the first hardware source with this event source is suspended.\<close>

definition not_good :: "pulse_inv \<times> u32 \<Rightarrow> pulse_inv \<times> u32" where
  "not_good = (\<lambda>(p, n). (p\<lparr>pi_pulseGood := False\<rparr>, n))"

definition suspend :: "hw_source \<Rightarrow> hw_source" where
  "suspend hw = hw\<lparr>hs_pulseSeqList := List.map not_good (hs_pulseSeqList hw), hs_smsId := NO_SOURCE,
     hs_intermittent := True\<rparr>"

fun suspend_first :: "u32 \<Rightarrow> (u32, hw_source) omap \<Rightarrow> (u32, hw_source) omap" where
  "suspend_first i [] = []"
| "suspend_first i ((h, hw) # m) =
     (if hs_smsId hw = i then (h, suspend hw) # m else (h, hw) # suspend_first i m)"

definition setIntermittent :: "u32 \<times> u32 \<Rightarrow> system \<Rightarrow> system" where
  "setIntermittent = (\<lambda>(src, i). on_source (unat src)
     (\<lambda>D. D\<lparr>ds_hwSources := suspend_first i (ds_hwSources D)\<rparr>))"

definition called :: "live_pvs \<Rightarrow> call \<Rightarrow> buffer \<Rightarrow> system \<Rightarrow> system" where
  "called pv op b s =
     fold setIntermittent (drop (length (intermittent (ctrl s))) (intermittent b))
       (s\<lparr>ctrl := b, calls := calls s @ [(pv, op)]\<rparr>)"

definition control ::
    "sms_config \<Rightarrow> live_pvs \<Rightarrow> call \<Rightarrow> system \<Rightarrow> fault + system" where
  "control c pv op s =
     (case apply_call c pv op (ctrl s) of
        Inl e \<Rightarrow> Inl (Crash e)
      | Inr b \<Rightarrow> Inr (called pv op b s))"

definition register ::
    "live_pvs \<Rightarrow> u32 \<Rightarrow> system \<Rightarrow> fault + (u32 \<times> system)" where
  "register pv srcId s =
     (case registerEventSource srcId (ctrl s) of
        Inl e \<Rightarrow> Inl (Threw s)
      | Inr (i, b) \<Rightarrow> Inr (i, called pv (Register srcId) b s))"

section \<open>A hardware source\<close>

definition new_hw_source :: "u32 \<Rightarrow> u32 \<Rightarrow> u32 \<Rightarrow> hw_source" where
  "new_hw_source hwId smsId maxList =
     \<lparr>hs_hwId = hwId, hs_smsId = smsId, hs_pulseSeqList = [],
      hs_maxPulseSeqList = (if maxList < 1 then 1 else maxList), hs_intermittent = False,
      hs_recoverPktCount = 0, hs_lastPulse = 0, hs_sourceSeq = - 1, hs_rtdlNoDataCount = 0\<rparr>"

definition same_pulse :: "pulse_inv \<Rightarrow> pulse_inv \<Rightarrow> bool" where
  "same_pulse p q \<longleftrightarrow>
     pi_pulseId p = pi_pulseId q \<and> pi_flavor p = pi_flavor q \<and> pi_pulseCharge p = pi_pulseCharge q \<and>
     pi_vetoFlags p = pi_vetoFlags q \<and> pi_cycle p = pi_cycle q \<and>
     pi_timingStatus p = pi_timingStatus q \<and> pi_intraPulseTime p = pi_intraPulseTime q"

definition packet_pulse :: "bytes \<Rightarrow> pulse_inv" where
  "packet_pulse mem =
     \<lparr>pi_pulseId = pulse_id (header_at mem), pi_flavor = raw_flavor mem,
      pi_intraPulseTime = raw_intraPulseTime mem, pi_pulseCharge = raw_pulseCharge mem,
      pi_cycle = raw_cycle mem, pi_vetoFlags = raw_vetoFlags mem, pi_timingStatus = raw_timingStatus mem,
      pi_pulseGood = False, pi_dupCount = - 1\<rparr>"

text \<open>The last entry of the same pulse, and the number of entries of the same time.\<close>

fun find_pulse :: "pulse_inv \<Rightarrow> pulse_seq \<Rightarrow> nat option" where
  "find_pulse p [] = None"
| "find_pulse p (e # l) =
     (case find_pulse p l of
        Some n \<Rightarrow> Some (Suc n)
      | None \<Rightarrow> if same_pulse (fst e) p then Some 0 else None)"

definition dup_count :: "pulse_inv \<Rightarrow> pulse_seq \<Rightarrow> u32" where
  "dup_count p l = of_nat (length (List.filter (\<lambda>e. pi_pulseId (fst e) = pi_pulseId p) l))"

definition entry_key :: "pulse_inv \<times> u32 \<Rightarrow> pulse_key" where
  "entry_key e = (pi_pulseId (fst e), pi_dupCount (fst e))"

definition entry_at :: "nat \<Rightarrow> u32 \<Rightarrow> nat \<Rightarrow> system \<Rightarrow> pulse_inv \<times> u32" where
  "entry_at d h n s = hs_pulseSeqList (the (hw_at d h s)) ! n"

definition set_good :: "bool \<Rightarrow> nat \<Rightarrow> hw_source \<Rightarrow> hw_source" where
  "set_good g n hw =
     hw\<lparr>hs_pulseSeqList := (hs_pulseSeqList hw)
          [n := (\<lambda>(p, k). (p\<lparr>pi_pulseGood := g\<rparr>, k)) (hs_pulseSeqList hw ! n)]\<rparr>"

text \<open>A good pulse is completed, as a partial one if asked for, and is not good afterwards.\<close>

definition finish_entry ::
    "sms_config \<Rightarrow> live_pvs \<Rightarrow> nat \<Rightarrow> u32 \<Rightarrow> bool \<Rightarrow> nat \<Rightarrow> system \<Rightarrow> fault + system" where
  "finish_entry c pv d h part n s =
     (let e = entry_at d h n s in
      if \<not> pi_pulseGood (fst e) then Inr s
      else sbind (if part then control c pv (Partial (entry_key e)) s else Inr s) (\<lambda>s1.
           sbind (control c pv (Complete (entry_key e) (hs_smsId (the (hw_at d h s1)))) s1) (\<lambda>s2.
             Inr (on_hw d h (set_good False n) s2))))"

text \<open>The older pulses, from the end of the list to the pulse at position \<open>n\<close>, which stays.\<close>

fun finish_older ::
    "sms_config \<Rightarrow> live_pvs \<Rightarrow> nat \<Rightarrow> u32 \<Rightarrow> nat \<Rightarrow> nat \<Rightarrow> system \<Rightarrow> fault + system" where
  "finish_older c pv d h n 0 s = Inr s"
| "finish_older c pv d h n (Suc k) s =
     sbind (finish_entry c pv d h True (n + Suc k) s) (finish_older c pv d h n k)"

definition endPulse ::
    "sms_config \<Rightarrow> live_pvs \<Rightarrow> nat \<Rightarrow> u32 \<Rightarrow> bool \<Rightarrow> nat \<Rightarrow> system \<Rightarrow> fault + system" where
  "endPulse c pv d h eop n s =
     (if eop
      then sbind (finish_older c pv d h n (length (hs_pulseSeqList (the (hw_at d h s))) - 1 - n) s)
             (finish_entry c pv d h False n)
      else finish_entry c pv d h True n s)"

text \<open>
  \<open>HWSource::getPulse\<close>. A new pulse goes to the front; then the oldest ones are finished and dropped until
  the list has its size again. The running maximum of the pulse times is taken anew when the pulse that
  leaves has it.
\<close>

definition drop_oldest :: "hw_source \<Rightarrow> hw_source" where
  "drop_oldest hw = hw\<lparr>hs_pulseSeqList := butlast (hs_pulseSeqList hw)\<rparr>"

definition fix_last_pulse :: "hw_source \<Rightarrow> hw_source" where
  "fix_last_pulse hw =
     (if pi_pulseId (fst (last (hs_pulseSeqList hw))) = hs_lastPulse hw
      then hw\<lparr>hs_lastPulse := fold (\<lambda>e m. if pi_pulseId (fst e) > m then pi_pulseId (fst e) else m)
                               (butlast (hs_pulseSeqList hw)) 0\<rparr>
      else hw)"

fun pop_oldest ::
    "sms_config \<Rightarrow> live_pvs \<Rightarrow> nat \<Rightarrow> u32 \<Rightarrow> nat \<Rightarrow> system \<Rightarrow> fault + system" where
  "pop_oldest c pv d h 0 s = Inr s"
| "pop_oldest c pv d h (Suc k) s =
     (let s1 = on_hw d h fix_last_pulse s;
          n = length (hs_pulseSeqList (the (hw_at d h s1))) - 1 in
      sbind (endPulse c pv d h False n s1) (\<lambda>s2.
        pop_oldest c pv d h k (on_hw d h drop_oldest s2)))"

definition push_pulse :: "pulse_inv \<Rightarrow> hw_source \<Rightarrow> hw_source" where
  "push_pulse p hw =
     hw\<lparr>hs_pulseSeqList := (p\<lparr>pi_dupCount := dup_count p (hs_pulseSeqList hw)\<rparr>, 0) # hs_pulseSeqList hw,
        hs_lastPulse := (if pi_pulseId p > hs_lastPulse hw then pi_pulseId p else hs_lastPulse hw)\<rparr>"

definition poll_max_list :: "env \<Rightarrow> nat \<Rightarrow> u32 \<Rightarrow> system \<Rightarrow> system" where
  "poll_max_list ev d h s =
     (let s1 = s\<lparr>getPulse_calls := getPulse_calls s + 1\<rparr>; v = pv_maxPulseSeqList (e_source ev) in
      if getPulse_calls s1 mod 3333 = 0
      then on_hw d h (\<lambda>hw. hw\<lparr>hs_maxPulseSeqList := (if v < 1 then 1 else v)\<rparr>)
             (on_source d (\<lambda>D. D\<lparr>ds_max_pulse_seq_list := v\<rparr>) s1)
      else s1)"

definition hw_getPulse ::
    "sms_config \<Rightarrow> env \<Rightarrow> nat \<Rightarrow> u32 \<Rightarrow> bytes \<Rightarrow> system \<Rightarrow> fault + (nat \<times> bool \<times> system)" where
  "hw_getPulse c ev d h mem s =
     (let p = packet_pulse mem in
      case find_pulse p (hs_pulseSeqList (the (hw_at d h s))) of
        Some n \<Rightarrow> Inr (n, False, s)
      | None \<Rightarrow>
          (let s1 = poll_max_list ev d h (on_hw d h (push_pulse p) s);
               hw = the (hw_at d h s1);
               k = length (hs_pulseSeqList hw) - unat (hs_maxPulseSeqList hw) in
           sbind (pop_oldest c (e_ctrl ev) d h k s1) (\<lambda>s2. Inr (0, True, s2))))"

text \<open>\<open>newPulse\<close>: only a pulse of the time of the facility is good.\<close>

definition FACILITY_START_TIME :: int where "FACILITY_START_TIME = 512715600"
definition SECS_PER_WEEK :: int where "SECS_PER_WEEK = 604800"
definition EPICS_EPOCH_OFFSET :: int where "EPICS_EPOCH_OFFSET = 631152000"

definition time_ok :: "int \<Rightarrow> u64 \<Rightarrow> bool" where
  "time_ok now pulseId \<longleftrightarrow>
     (let sec = uint (drop_bit 32 pulseId) in
      \<not> sec < FACILITY_START_TIME \<and> \<not> sec > now - EPICS_EPOCH_OFFSET + SECS_PER_WEEK)"

definition newPulse :: "env \<Rightarrow> nat \<Rightarrow> u32 \<Rightarrow> bytes \<Rightarrow> nat \<Rightarrow> system \<Rightarrow> bool \<times> system" where
  "newPulse ev d h mem n s =
     (let good = time_ok (e_now ev) (pulse_id (header_at mem)) in
      (good, on_hw d h (set_good good n) s))"

text \<open>The sequence numbers: one per pulse, one per source.\<close>

definition checkPulseSeq :: "bytes \<Rightarrow> nat \<Rightarrow> hw_source \<Rightarrow> bool \<times> hw_source" where
  "checkPulseSeq mem n hw =
     (let (p, k) = hs_pulseSeqList hw ! n in
      (raw_pulseSeq mem = k,
       hw\<lparr>hs_pulseSeqList := (hs_pulseSeqList hw)[n := (p, (k + 1) mod raw_maxPulseSeq)]\<rparr>))"

definition checkSourceSeq :: "bytes \<Rightarrow> hw_source \<Rightarrow> bool \<times> hw_source" where
  "checkSourceSeq mem hw =
     (if raw_sourceSeq mem = hs_sourceSeq hw
      then (True, hw\<lparr>hs_sourceSeq := (hs_sourceSeq hw + 1) mod raw_maxSourceSeq\<rparr>)
      else (hs_sourceSeq hw = - 1, hw\<lparr>hs_sourceSeq := (raw_sourceSeq mem + 1) mod raw_maxSourceSeq\<rparr>))"

section \<open>Data packets\<close>

definition getHWSource ::
    "env \<Rightarrow> nat \<Rightarrow> u32 \<Rightarrow> system \<Rightarrow> fault + system" where
  "getHWSource ev d h s =
     (case hw_at d h s of
        Some hw \<Rightarrow> Inr s
      | None \<Rightarrow>
          sbind (register (e_ctrl ev) (ds_smsSourceId (source_at d s)) s) (\<lambda>(i, s1).
            Inr (on_source d (\<lambda>D. D\<lparr>ds_hwSources :=
              om_insert h (new_hw_source h i (ds_max_pulse_seq_list D)) (ds_hwSources D)\<rparr>) s1)))"

definition poll_checks :: "env \<Rightarrow> nat \<Rightarrow> system \<Rightarrow> system" where
  "poll_checks ev d s =
     (if handleDataPkt_calls s mod 9999 = 0
      then on_source d (\<lambda>D. D\<lparr>ds_check_source_sequence := pv_checkSourceSequence (e_source ev),
                              ds_check_pulse_sequence := pv_checkPulseSequence (e_source ev)\<rparr>) s
      else s)"

definition poll_mixed :: "env \<Rightarrow> nat \<Rightarrow> system \<Rightarrow> system" where
  "poll_mixed ev d s =
     (if handleDataPkt_calls s mod 99999 = 0
      then on_source d (\<lambda>D. D\<lparr>ds_mixed_data_packets := pv_mixedDataPackets (e_source ev)\<rparr>) s else s)"

definition poll_eop :: "env \<Rightarrow> nat \<Rightarrow> system \<Rightarrow> system" where
  "poll_eop ev d s =
     (if handleDataPkt_calls s mod 9999 = 0
      then on_source d (\<lambda>D. D\<lparr>ds_ignore_eop := pv_ignoreEoP (e_source ev)\<rparr>) s else s)"

text \<open>The sequence of the source, when it is checked.\<close>

definition source_sequence :: "nat \<Rightarrow> u32 \<Rightarrow> bytes \<Rightarrow> system \<Rightarrow> bool \<times> system" where
  "source_sequence d h mem s =
     (if ds_check_source_sequence (source_at d s)
      then (let (ok, hw) = checkSourceSeq mem (the (hw_at d h s)) in (ok, on_hw d h (\<lambda>_. hw) s))
      else (True, s))"

definition pulse_sequence :: "nat \<Rightarrow> u32 \<Rightarrow> bytes \<Rightarrow> nat \<Rightarrow> system \<Rightarrow> bool \<times> system" where
  "pulse_sequence d h mem n s =
     (if ds_check_pulse_sequence (source_at d s)
      then (let (ok, hw) = checkPulseSeq mem n (the (hw_at d h s)) in (ok, on_hw d h (\<lambda>_. hw) s))
      else (True, s))"

text \<open>
  A suspended source that sends again. \<open>None\<close> is the early return: the end of a pulse from before, without
  events. From the threshold on the source is an event source again.
\<close>

definition resumed :: "u32 \<Rightarrow> hw_source \<Rightarrow> hw_source" where
  "resumed i hw = hw\<lparr>hs_smsId := i, hs_intermittent := False, hs_recoverPktCount := 0\<rparr>"

definition recover ::
    "env \<Rightarrow> nat \<Rightarrow> u32 \<Rightarrow> bytes \<Rightarrow> nat \<Rightarrow> bool \<Rightarrow> system \<Rightarrow> fault + (bool \<times> system)" where
  "recover ev d h mem n isNew s =
     (let hw = the (hw_at d h s) in
      if \<not> hs_intermittent hw then Inr (True, s)
      else if \<not> isNew \<and> raw_num_events mem = 0 then Inr (False, on_hw d h (set_good False n) s)
      else
        (let cnt = hs_recoverPktCount hw + 1;
             s1 = on_hw d h (\<lambda>hw. hw\<lparr>hs_recoverPktCount := cnt\<rparr>) s in
         if cnt < m_intermittentDataThreshold (ctrl s1) then Inr (True, s1)
         else sbind (register (e_ctrl ev) (ds_smsSourceId (source_at d s1)) s1) (\<lambda>(i, s2).
           Inr (True, on_hw d h (resumed i) s2))))"

text \<open>The events of a good pulse go to the service; a gap in a sequence makes the pulse partial.\<close>

definition pass_events ::
    "sms_config \<Rightarrow> env \<Rightarrow> nat \<Rightarrow> u32 \<Rightarrow> bytes \<Rightarrow> bool \<Rightarrow> bool \<Rightarrow> nat \<Rightarrow> system \<Rightarrow> fault + system" where
  "pass_events c ev d h mem is_mapped seq_ok n s =
     (let s1 = poll_mixed ev d s; key = entry_key (entry_at d h n s1) in
      sbind (control c (e_ctrl ev) (Events (e_settings ev) mem h (snd key) is_mapped
               (ds_mixed_data_packets (source_at d s1))) s1) (\<lambda>s2.
        (let (pulse_ok, s3) = pulse_sequence d h mem n s2 in
         if \<not> pulse_ok \<or> \<not> seq_ok
         then control c (e_ctrl ev) (Partial (pulse_id (header_at mem), snd key)) s3 else Inr s3)))"

text \<open>A new pulse is judged by its time; for an old one it is known.\<close>

definition judge_pulse :: "env \<Rightarrow> nat \<Rightarrow> u32 \<Rightarrow> bytes \<Rightarrow> bool \<Rightarrow> nat \<Rightarrow> system \<Rightarrow> bool \<times> system" where
  "judge_pulse ev d h mem isNew n s =
     (let s1 = on_hw d h (\<lambda>hw. hw\<lparr>hs_rtdlNoDataCount := 0\<rparr>) s in
      if isNew then newPulse ev d h mem n s1 else (pi_pulseGood (fst (entry_at d h n s1)), s1))"

definition end_of_pulse ::
    "sms_config \<Rightarrow> env \<Rightarrow> nat \<Rightarrow> u32 \<Rightarrow> bytes \<Rightarrow> nat \<Rightarrow> system \<Rightarrow> fault + system" where
  "end_of_pulse c ev d h mem n s =
     (let s1 = poll_eop ev d s in
      if \<not> ds_ignore_eop (source_at d s1) \<and> raw_endOfPulse mem
      then endPulse c (e_ctrl ev) d h True n s1 else Inr s1)"

definition handleDataPkt ::
    "sms_config \<Rightarrow> env \<Rightarrow> nat \<Rightarrow> bool \<Rightarrow> bytes \<Rightarrow> system \<Rightarrow> fault + system" where
  "handleDataPkt c ev d is_mapped mem s =
     (let h = raw_sourceID mem in
      sbind (getHWSource ev d h (s\<lparr>handleDataPkt_calls := handleDataPkt_calls s + 1\<rparr>)) (\<lambda>s1.
      sbind (hw_getPulse c ev d h mem s1) (\<lambda>(n, isNew, s2).
      (let (seq_ok, s3) = source_sequence d h mem (poll_checks ev d s2) in
      sbind (recover ev d h mem n isNew s3) (\<lambda>(go_on, s4).
      if \<not> go_on then Inr s4
      else
        (let (good, s5) = judge_pulse ev d h mem isNew n s4 in
         sbind (if good then pass_events c ev d h mem is_mapped seq_ok n s5 else Inr s5)
           (end_of_pulse c ev d h mem n)))))))"

section \<open>Sources that go\<close>

definition drop_hw :: "nat \<Rightarrow> u32 \<Rightarrow> system \<Rightarrow> system" where
  "drop_hw d h = on_source d (\<lambda>D. D\<lparr>ds_hwSources := List.filter (\<lambda>e. fst e \<noteq> h) (ds_hwSources D)\<rparr>)"

definition give_up_source ::
    "sms_config \<Rightarrow> live_pvs \<Rightarrow> nat \<Rightarrow> u32 \<Rightarrow> system \<Rightarrow> fault + system" where
  "give_up_source c pv d h s =
     (let i = hs_smsId (the (hw_at d h s)) in
      if i \<noteq> NO_SOURCE then control c pv (Unregister i) s else Inr s)"

text \<open>The check for sources that send RTDL packets and no data, in the order of the map.\<close>

fun run_aways ::
    "sms_config \<Rightarrow> env \<Rightarrow> nat \<Rightarrow> u32 list \<Rightarrow> system \<Rightarrow> fault + system" where
  "run_aways c ev d [] s = Inr s"
| "run_aways c ev d (h # hs) s =
     (let s1 = on_hw d h (\<lambda>hw. hw\<lparr>hs_rtdlNoDataCount := hs_rtdlNoDataCount hw + 60\<rparr>) s in
      if hs_rtdlNoDataCount (the (hw_at d h s1)) > ds_rtdlNoDataThresh (source_at d s1)
      then sbind (give_up_source c (e_ctrl ev) d h s1) (\<lambda>s2. run_aways c ev d hs (drop_hw d h s2))
      else run_aways c ev d hs s1)"

definition check_run_aways ::
    "sms_config \<Rightarrow> env \<Rightarrow> nat \<Rightarrow> system \<Rightarrow> fault + system" where
  "check_run_aways c ev d s =
     (let s1 = s\<lparr>rxRTDL_calls := rxRTDL_calls s + 1\<rparr> in
      if rxRTDL_calls s1 mod 60 = 0
      then (let s2 = on_source d (\<lambda>D. D\<lparr>ds_rtdlNoDataThresh := pv_rtdlNoDataThresh (e_source ev)\<rparr>) s1 in
            run_aways c ev d (List.map fst (ds_hwSources (source_at d s2))) s2)
      else Inr s1)"

definition rx_RTDL ::
    "sms_config \<Rightarrow> env \<Rightarrow> nat \<Rightarrow> bytes \<Rightarrow> system \<Rightarrow> fault + system" where
  "rx_RTDL c ev d mem s =
     (let pid = pulse_id (header_at mem);
          s1 = on_source d (\<lambda>D. D\<lparr>
                 ds_dupRTDL := (if pid = ds_lastRTDLPulseId D then ds_dupRTDL D + 1 else 0),
                 ds_lastRTDLPulseId := pid, ds_lastRTDLCycle := rtdl_cycle mem\<rparr>) s in
      sbind (if time_ok (e_now ev) pid
             then control c (e_ctrl ev) (Rtdl mem (ds_dupRTDL (source_at d s1))) s1 else Inr s1)
        (check_run_aways c ev d))"

fun end_all ::
    "sms_config \<Rightarrow> live_pvs \<Rightarrow> nat \<Rightarrow> u32 \<Rightarrow> nat \<Rightarrow> system \<Rightarrow> fault + system" where
  "end_all c pv d h 0 s = Inr s"
| "end_all c pv d h (Suc n) s = sbind (endPulse c pv d h False n s) (end_all c pv d h n)"

definition end_source ::
    "sms_config \<Rightarrow> live_pvs \<Rightarrow> nat \<Rightarrow> u32 \<Rightarrow> system \<Rightarrow> fault + system" where
  "end_source c pv d h s =
     (if hs_smsId (the (hw_at d h s)) \<noteq> NO_SOURCE
      then sbind (end_all c pv d h (length (hs_pulseSeqList (the (hw_at d h s)))) s) (\<lambda>s1.
             give_up_source c pv d h (on_hw d h (\<lambda>hw. hw\<lparr>hs_pulseSeqList := []\<rparr>) s1))
      else Inr s)"

fun end_sources ::
    "sms_config \<Rightarrow> live_pvs \<Rightarrow> nat \<Rightarrow> u32 list \<Rightarrow> system \<Rightarrow> fault + system" where
  "end_sources c pv d [] s = Inr s"
| "end_sources c pv d (h # hs) s = sbind (end_source c pv d h s) (end_sources c pv d hs)"

definition unregisterHWSources ::
    "sms_config \<Rightarrow> live_pvs \<Rightarrow> nat \<Rightarrow> system \<Rightarrow> fault + system" where
  "unregisterHWSources c pv d s =
     sbind (end_sources c pv d (List.map fst (ds_hwSources (source_at d s))) s) (\<lambda>s1.
       Inr (on_source d (\<lambda>D. D\<lparr>ds_hwSources := []\<rparr>) s1))"

definition forget_rtdl :: "data_source \<Rightarrow> data_source" where
  "forget_rtdl D = D\<lparr>ds_lastRTDLPulseId := 0, ds_lastRTDLCycle := 0\<rparr>"

definition rx_Heartbeat ::
    "sms_config \<Rightarrow> env \<Rightarrow> nat \<Rightarrow> system \<Rightarrow> fault + system" where
  "rx_Heartbeat c ev d s =
     sbind (unregisterHWSources c (e_ctrl ev) d s) (\<lambda>s1. Inr (on_source d forget_rtdl s1))"

definition source_ids :: "bytes \<Rightarrow> u32 list" where
  "source_ids mem = List.map (fld mem) [0 ..< unat (payload_len (header_at mem)) div 4]"

fun rx_SourceList :: "env \<Rightarrow> nat \<Rightarrow> u32 list \<Rightarrow> system \<Rightarrow> fault + system" where
  "rx_SourceList ev d [] s = Inr s"
| "rx_SourceList ev d (h # hs) s = sbind (getHWSource ev d h s) (rx_SourceList ev d hs)"

text \<open>
  \<open>DataSource::rxPacket\<close>: only a heartbeat may have pulse identifier zero. The kinds that are left go to
  the meta-data manager, the markers or nowhere and do not touch the pulse buffer.
\<close>

definition rx_packet ::
    "sms_config \<Rightarrow> env \<Rightarrow> nat \<Rightarrow> bytes \<Rightarrow> system \<Rightarrow> fault + system" where
  "rx_packet c ev d mem s =
     (case kind_of_base (base_type (header_at mem)) of
        Some HEARTBEAT_TYPE \<Rightarrow> rx_Heartbeat c ev d s
      | Some RAW_EVENT_TYPE \<Rightarrow>
          if pulse_id (header_at mem) = 0 then Inr s else handleDataPkt c ev d False mem s
      | Some MAPPED_EVENT_TYPE \<Rightarrow>
          if pulse_id (header_at mem) = 0 then Inr s else handleDataPkt c ev d True mem s
      | Some RTDL_TYPE \<Rightarrow> if pulse_id (header_at mem) = 0 then Inr s else rx_RTDL c ev d mem s
      | Some SOURCE_LIST_TYPE \<Rightarrow>
          if pulse_id (header_at mem) = 0 then Inr s else rx_SourceList ev d (source_ids mem) s
      | _ \<Rightarrow> Inr s)"

section \<open>The connection\<close>

definition connectionFailed ::
    "sms_config \<Rightarrow> env \<Rightarrow> nat \<Rightarrow> link_state \<Rightarrow> system \<Rightarrow> fault + system" where
  "connectionFailed c ev d new_state s =
     sbind (unregisterHWSources c (e_ctrl ev) d
              (on_source d (\<lambda>D. D\<lparr>ds_fdreg := False, ds_state := new_state\<rparr>) s)) (\<lambda>s1.
       Inr (on_source d forget_rtdl s1))"

text \<open>What \<open>connect\<close> and the socket calls around it say.\<close>

datatype connect_result = Connect_Failed | Connect_Pending | Connect_Done | Connect_Other

definition watch :: "link_state \<Rightarrow> data_source \<Rightarrow> data_source" where
  "watch st D = D\<lparr>ds_state := st, ds_fdreg := True\<rparr>"

definition startConnect ::
    "sms_config \<Rightarrow> env \<Rightarrow> nat \<Rightarrow> connect_result \<Rightarrow> system \<Rightarrow> fault + system" where
  "startConnect c ev d r s =
     (case r of
        Connect_Failed \<Rightarrow> connectionFailed c ev d IDLE s
      | Connect_Pending \<Rightarrow> Inr (on_source d (watch CONNECTING) s)
      | Connect_Done \<Rightarrow> Inr (on_source d (watch ACTIVE) s)
      | Connect_Other \<Rightarrow> Inr (on_source d (\<lambda>D. watch (ds_state D) D) s))"

definition fresh_retries :: "env \<Rightarrow> data_source \<Rightarrow> data_source" where
  "fresh_retries ev D =
     D\<lparr>ds_data_timeout_retry := pv_dataTimeoutRetry (e_source ev), ds_data_timeout_retry_count := 0\<rparr>"

definition connectComplete ::
    "sms_config \<Rightarrow> env \<Rightarrow> nat \<Rightarrow> connect_result \<Rightarrow> system \<Rightarrow> fault + system" where
  "connectComplete c ev d r s =
     (case r of
        Connect_Done \<Rightarrow> Inr (on_source d (\<lambda>D. fresh_retries ev (watch ACTIVE D)) s)
      | Connect_Pending \<Rightarrow> Inr s
      | _ \<Rightarrow> connectionFailed c ev d IDLE s)"

text \<open>
  Reading: the packets the parser delivers, then whether the connection is still open. An exception on
  the way, also one of the parser, ends the connection.
\<close>

datatype read_result = Read_Open | Read_Slow | Read_Closed

fun rx_packets ::
    "sms_config \<Rightarrow> env \<Rightarrow> nat \<Rightarrow> bytes list \<Rightarrow> system \<Rightarrow> fault + system" where
  "rx_packets c ev d [] s = Inr s"
| "rx_packets c ev d (mem # ms) s = sbind (rx_packet c ev d mem s) (rx_packets c ev d ms)"

definition all_read_delay :: "bool \<Rightarrow> system \<Rightarrow> system" where
  "all_read_delay b s = s\<lparr>sources := List.map (\<lambda>D. D\<lparr>ds_readDelay := b\<rparr>) (sources s)\<rparr>"

definition start_read :: "env \<Rightarrow> nat \<Rightarrow> system \<Rightarrow> system" where
  "start_read ev d s =
     (let s1 = s\<lparr>dataReady_calls := dataReady_calls s + 1\<rparr> in
      all_read_delay False
        (on_source d
          (if dataReady_calls s1 mod 999 = 0 then fresh_retries ev
           else (\<lambda>D. D\<lparr>ds_data_timeout_retry_count := 0\<rparr>)) s1))"

definition dataReady ::
    "sms_config \<Rightarrow> env \<Rightarrow> nat \<Rightarrow> bytes list \<Rightarrow> read_result \<Rightarrow> system \<Rightarrow> fault + system" where
  "dataReady c ev d ms r s =
     (case rx_packets c ev d ms (start_read ev d s) of
        Inl (Crash e) \<Rightarrow> Inl (Crash e)
      | Inl (Threw s1) \<Rightarrow> connectionFailed c ev d IDLE s1
      | Inr s1 \<Rightarrow>
          (case r of
             Read_Open \<Rightarrow> Inr s1
           | Read_Slow \<Rightarrow> Inr (all_read_delay True (s1\<lparr>dataReady_calls := 998\<rparr>))
           | Read_Closed \<Rightarrow> connectionFailed c ev d IDLE s1))"

definition end_delay :: "nat \<Rightarrow> system \<Rightarrow> system" where
  "end_delay d = on_source d (\<lambda>D. D\<lparr>ds_readDelay := False\<rparr>)"

definition count_timeout :: "data_source \<Rightarrow> data_source" where
  "count_timeout D = D\<lparr>ds_data_timeout_retry_count := ds_data_timeout_retry_count D + 1\<rparr>"

definition timerExpired ::
    "sms_config \<Rightarrow> env \<Rightarrow> nat \<Rightarrow> connect_result \<Rightarrow> system \<Rightarrow> fault + system" where
  "timerExpired c ev d r s =
     (case ds_state (source_at d s) of
        DISABLED \<Rightarrow> Inr (end_delay d s)
      | IDLE \<Rightarrow> if ds_readDelay (source_at d s) then Inr (end_delay d s) else startConnect c ev d r s
      | CONNECTING \<Rightarrow>
          if ds_readDelay (source_at d s) then Inr (end_delay d s) else connectionFailed c ev d IDLE s
      | ACTIVE \<Rightarrow>
          if ds_readDelay (source_at d s) then Inr (end_delay d (on_source d (fresh_retries ev) s))
          else
            (let s1 = on_source d count_timeout s in
             if ds_data_timeout_retry_count (source_at d s1) > ds_data_timeout_retry (source_at d s1)
             then connectionFailed c ev d IDLE s1 else Inr s1))"

definition fdReady ::
    "sms_config \<Rightarrow> env \<Rightarrow> nat \<Rightarrow> connect_result \<Rightarrow> bytes list \<Rightarrow> read_result \<Rightarrow> system \<Rightarrow> fault + system" where
  "fdReady c ev d cr ms rr s =
     (case ds_state (source_at d s) of
        DISABLED \<Rightarrow> Inr s
      | IDLE \<Rightarrow> Inl (Crash Invalid_State)
      | CONNECTING \<Rightarrow> connectComplete c ev d cr s
      | ACTIVE \<Rightarrow> dataReady c ev d ms rr s)"

definition enabled :: "sms_config \<Rightarrow> env \<Rightarrow> nat \<Rightarrow> connect_result \<Rightarrow> system \<Rightarrow> fault + system" where
  "enabled c ev d r s = startConnect c ev d r (on_source d (\<lambda>D. D\<lparr>ds_state := IDLE\<rparr>) s)"

definition disabled :: "sms_config \<Rightarrow> env \<Rightarrow> nat \<Rightarrow> system \<Rightarrow> fault + system" where
  "disabled c ev d s = connectionFailed c ev d DISABLED s"

section \<open>The system\<close>

text \<open>
  What happens to the system: the operator enables or disables a data source (the process variable calls
  only when its value changes), the descriptor of a connection is ready (only one that is watched is
  reported), a timer runs out, or the operator throws a pulse of the buffer away.
\<close>

datatype happening =
    Enable nat connect_result
  | Disable nat
  | Ready nat connect_result "bytes list" read_result
  | Timeout nat connect_result
  | Pop_Pulse int

fun happen :: "sms_config \<Rightarrow> env \<Rightarrow> happening \<Rightarrow> system \<Rightarrow> fault + system" where
  "happen c ev (Enable d r) s =
     (if d < length (sources s) \<and> ds_state (source_at d s) = DISABLED then enabled c ev d r s else Inr s)"
| "happen c ev (Disable d) s =
     (if d < length (sources s) \<and> ds_state (source_at d s) \<noteq> DISABLED then disabled c ev d s else Inr s)"
| "happen c ev (Ready d cr ms rr) s =
     (if d < length (sources s) \<and> ds_fdreg (source_at d s) then fdReady c ev d cr ms rr s else Inr s)"
| "happen c ev (Timeout d r) s =
     (if d < length (sources s) then timerExpired c ev d r s else Inr s)"
| "happen c ev (Pop_Pulse i) s = control c (e_ctrl ev) (Pop i) s"

fun run_system :: "sms_config \<Rightarrow> (env \<times> happening) list \<Rightarrow> system \<Rightarrow> fault + system" where
  "run_system c [] s = Inr s"
| "run_system c ((ev, h) # hs) s = sbind (happen c ev h s) (run_system c hs)"

text \<open>The data sources are numbered from one, in the order of the configuration.\<close>

definition new_data_source :: "u32 \<Rightarrow> source_pvs \<Rightarrow> data_source" where
  "new_data_source smsId pvs =
     \<lparr>ds_hwSources = [], ds_smsSourceId = smsId, ds_state = DISABLED, ds_fdreg = False,
      ds_ignore_eop = pv_ignoreEoP pvs, ds_mixed_data_packets = pv_mixedDataPackets pvs,
      ds_check_source_sequence = pv_checkSourceSequence pvs,
      ds_check_pulse_sequence = pv_checkPulseSequence pvs,
      ds_max_pulse_seq_list = pv_maxPulseSeqList pvs, ds_rtdlNoDataThresh = pv_rtdlNoDataThresh pvs,
      ds_lastRTDLPulseId = 0, ds_lastRTDLCycle = 0, ds_dupRTDL = 0,
      ds_data_timeout_retry = pv_dataTimeoutRetry pvs, ds_data_timeout_retry_count = 0,
      ds_readDelay = False\<rparr>"

definition new_system :: "live_pvs \<Rightarrow> collect \<Rightarrow> source_pvs list \<Rightarrow> system" where
  "new_system pv co pvs =
     \<lparr>ctrl = new_buffer pv co,
      sources = List.map (\<lambda>i. new_data_source (of_nat (Suc i)) (pvs ! i)) [0 ..< length pvs],
      getPulse_calls = 0, handleDataPkt_calls = 0, rxRTDL_calls = 0, dataReady_calls = 0, calls = []\<rparr>"

end
