(* ===== verification/Buffer_Events.thy ===== *)
theory Buffer_Events
  imports Pulse_Runs Pulse_Stream
begin

text \<open>
  What the pulse buffer holds is in order in any run: the arrays of banks and the counts of every pulse,
  the bookkeeping of the event collection, and every packet that was put into the output stream. So the
  events of a packet always find their place and \<open>pulseEvents\<close> returns.
\<close>

unbundle bit_operations_syntax

section \<open>Pulses and output in order\<close>

definition good_pulse :: "sms_config \<Rightarrow> pulse \<Rightarrow> bool" where
  "good_pulse c p \<longleftrightarrow> pulse_ok c p \<and> (\<forall>r. m_rtdl p = Some r \<longrightarrow> framed r)"

definition good_output :: "sms_call list \<Rightarrow> bool" where
  "good_output cs \<longleftrightarrow> (\<forall>x \<in> set cs. \<forall>b \<in> set (call_bytes x). length b < 4294967296 \<longrightarrow> framed b)"

definition good_pulses :: "sms_config \<Rightarrow> (pulse_key, pulse) omap \<Rightarrow> bool" where
  "good_pulses c ps \<longleftrightarrow> (\<forall>e \<in> set ps. good_pulse c (snd e))"

definition good_collect :: "sms_config \<Rightarrow> collect \<Rightarrow> bool" where
  "good_collect c co \<longleftrightarrow> collect_ok c co \<and> good_output (co_calls co)"

definition good_buffer :: "sms_config \<Rightarrow> buffer \<Rightarrow> bool" where
  "good_buffer c b \<longleftrightarrow> good_pulses c (m_pulses b) \<and> good_collect c (collected b)"

lemma good_output_append: "good_output (cs @ cs') \<longleftrightarrow> good_output cs \<and> good_output cs'"
  by (auto simp: good_output_def)

lemma good_output_silent: "\<forall>x \<in> set cs. call_bytes x = [] \<Longrightarrow> good_output cs"
  by (simp add: good_output_def)

lemma good_pulses_simps [simp]:
  "good_pulses c []" "good_pulses c (e # ps) \<longleftrightarrow> good_pulse c (snd e) \<and> good_pulses c ps"
  "good_pulses c (ps @ ps') \<longleftrightarrow> good_pulses c ps \<and> good_pulses c ps'"
  by (auto simp: good_pulses_def)

lemma good_pulses_sub: "good_pulses c ps \<Longrightarrow> set ps' \<subseteq> set ps \<Longrightarrow> good_pulses c ps'"
  by (auto simp: good_pulses_def)

lemma good_pulses_take_drop: "good_pulses c ps \<Longrightarrow> good_pulses c (take n ps)" "good_pulses c ps \<Longrightarrow> good_pulses c (drop n ps)"
  by (meson good_pulses_sub set_take_subset, meson good_pulses_sub set_drop_subset)

section \<open>Changes that leave the events alone\<close>

definition same_events :: "pulse \<Rightarrow> pulse \<Rightarrow> bool" where
  "same_events p p' \<longleftrightarrow>
     m_pulseSources p' = m_pulseSources p \<and> m_monitors p' = m_monitors p \<and>
     m_chopperEvents p' = m_chopperEvents p \<and> m_fastMetaEvents p' = m_fastMetaEvents p \<and>
     m_numEvents p' = m_numEvents p \<and> m_numBanks p' = m_numBanks p \<and> m_numMonEvents p' = m_numMonEvents p"

lemma same_events_refl [simp]: "same_events p p"
  by (simp add: same_events_def)

lemma good_pulse_same:
  "good_pulse c p \<Longrightarrow> same_events p p' \<Longrightarrow> (\<And>r. m_rtdl p' = Some r \<Longrightarrow> m_rtdl p = Some r \<or> framed r) \<Longrightarrow>
    good_pulse c p'"
  unfolding good_pulse_def same_events_def pulse_ok_def by auto

lemma good_set_flag [simp]: "good_pulse c (set_flag f p) = good_pulse c p"
  by (simp add: good_pulse_def pulse_ok_def set_flag_def)

lemma good_pending [simp]: "good_pulse c (p\<lparr>m_pending := m\<rparr>) = good_pulse c p"
  by (simp add: good_pulse_def pulse_ok_def)

lemma good_release [simp]: "good_pulse c (release i p) = good_pulse c p"
  by (simp add: release_def)

lemma good_complete_for [simp]: "good_pulse c (complete_for i p) = good_pulse c p"
  by (simp add: complete_for_def)

lemma good_overdue [simp]: "good_pulse c (overdue p) = good_pulse c p"
  by (simp add: overdue_def)

lemma framed_put_fld: "framed r \<Longrightarrow> framed (put_fld r i w)"
  by (simp add: framed_def header_at_put_fld)

lemma framed_correct_rtdl: "framed r \<Longrightarrow> framed (correct_rtdl pchg veto r n)"
  by (simp add: correct_rtdl_def Let_def rtdl_setPulseCharge_def rtdl_setVetoFlags_def framed_put_fld)

lemma good_take_rtdl:
  assumes "good_pulse c p" and "framed mem"
  shows "good_pulse c (take_rtdl mem p)"
  by (rule good_pulse_same [OF assms(1)]) (simp_all add: take_rtdl_def Let_def set_flag_def same_events_def assms(2))

lemma good_correct:
  assumes "good_pulse c p"
  shows "good_pulse c (correctPChargeVeto pchg veto p q)"
proof (rule good_pulse_same [OF assms])
  show "same_events p (correctPChargeVeto pchg veto p q)"
    by (auto simp: correctPChargeVeto_def Let_def same_events_def split: option.split)
  fix r
  assume "m_rtdl (correctPChargeVeto pchg veto p q) = Some r"
  then show "m_rtdl p = Some r \<or> framed r"
    using assms framed_correct_rtdl
    by (auto simp: correctPChargeVeto_def Let_def good_pulse_def split: option.splits if_splits)
qed

lemma good_corrected: "good_pulse c p \<Longrightarrow> good_pulse c (corrected a b ps p)"
  by (auto simp: corrected_def good_correct split: list.split)

lemma good_created: "good_pulse c (created k srcs)"
  by (simp add: created_def Let_def good_pulse_def new_pulse_ok)
     (simp add: set_flag_def new_pulse_def pulse_ok_def)

section \<open>Recording\<close>

lemma var_at_ok: "var_at fm px = (fm', v) \<Longrightarrow> om_ok (m_vars fm) \<Longrightarrow> om_ok (m_vars fm')"
  by (auto simp: var_at_def split: option.splits)

lemma send_each_ok: "om_ok (m_vars fm) \<Longrightarrow> om_ok (m_vars (fst (send_each pid es fm)))"
  by (induction pid es fm rule: send_each.induct)
     (fastforce simp: sendUpdate_def split: prod.splits dest: var_at_ok)+

lemma send_mult_ok: "om_ok (m_vars fm) \<Longrightarrow> om_ok (m_vars (fst (sendMultUpdate pid es fm)))"
  by (auto simp: sendMultUpdate_def split: list.split prod.split dest: var_at_ok)

lemma buildFastMeta_ok: "om_ok (m_vars fm) \<Longrightarrow> om_ok (m_vars (fst (buildFastMetaPackets pid m fm)))"
proof (induction pid m fm rule: buildFastMetaPackets.induct)
  case (2 pid k es m fm)
  then show ?case
    using send_each_ok [of fm pid es] send_mult_ok [of fm pid es] by (auto split: prod.split)
qed simp

lemma pulse_states_positive: "1 \<le> unat (pulse_states c p)"
proof -
  have "1 \<le> unat (fold (\<lambda>b n. let s = state_label c (fst b) in if s + 1 > n then s + 1 else n) bs n)"
    if "1 \<le> unat n" for bs :: "(nat \<times> event list) list" and n
    using that by (induction bs arbitrary: n) (auto simp: Let_def word_less_nat_alt)
  then show ?thesis
    by (simp add: pulse_states_def)
qed

lemma collect_ok_less:
  assumes "collect_ok c co" and "1 \<le> unat (co_numStatesLast co')" and "co_numStatesLast co' \<le> co_numStatesLast co"
    and "om_ok (m_vars (co_fast co'))"
  shows "collect_ok c co'"
proof -
  have "unat (co_numStatesLast co') * banks_per_state c \<le> unat (co_numStatesLast co) * banks_per_state c"
    using assms(3) by (intro mult_le_mono1) (simp add: word_le_nat_alt)
  then show ?thesis
    using assms by (simp add: collect_ok_def)
qed

lemma recordPulse_ok:
  assumes p: "good_pulse c p" and co: "good_collect c co" and run: "recordPulse c (p, co) = (p', co')"
  shows "good_collect c co'"
proof -
  let ?p1 = "mark_recorded c p"
  obtain banked co1 where banked: "(if has_flag HAS_STATES ?p1 then buildBankedStatePacket c (?p1, co)
      else buildBankedPacket c (?p1, co)) = (banked, co1)" by fastforce
  obtain fm fast where fast: "buildFastMetaPackets (fst (m_id ?p1)) (m_fastMetaEvents ?p1) (co_fast co1) = (fm, fast)"
    by fastforce
  have co1: "co_fast co1 = co_fast co" "1 \<le> unat (co_numStatesLast co1)" "co_numStatesLast co1 \<le> co_numStatesLast co"
    "co_calls co1 = co_calls co"
    using banked co pulse_states_positive [of c ?p1]
    by (auto simp: buildBankedPacket_def buildBankedStatePacket_def Let_def good_collect_def collect_ok_def
        word_le_nat_alt word_less_nat_alt split: if_splits)
  have co': "co_numStatesLast co' = co_numStatesLast co1" "co_fast co' = fm"
    using run by (simp_all add: recordPulse_def Let_def banked fast split: prod.splits) auto
  have "om_ok (m_vars fm)"
    using buildFastMeta_ok [of "co_fast co1"] fast co co1(1) by (metis collect_ok_def fst_conv good_collect_def)
  then have ok: "collect_ok c co'"
    using collect_ok_less [of c co co'] co co' co1 by (simp add: good_collect_def)
  obtain cs where cs: "co_calls co' = co_calls co @ cs"
    using run co1(4) by (auto simp: recordPulse_def Let_def banked fast split: prod.splits)
  have "good_output cs"
    unfolding good_output_def
  proof (intro ballI impI)
    fix x b
    assume "x \<in> set cs" "b \<in> set (call_bytes x)"
    then have "b \<in> set (pulse_output c (p, co))"
      by (auto simp: pulse_output_def run cs)
    moreover assume "length b < 4294967296"
    ultimately show "framed b"
      using framed_output [of c p b co] p by (auto simp: good_pulse_def)
  qed
  then show ?thesis
    using ok co by (simp add: good_collect_def cs good_output_append)
qed

lemma record_loop_ok:
  "good_pulses c ps \<Longrightarrow> good_collect c co \<Longrightarrow> (\<And>p. good_pulse c (mark p) = good_pulse c p) \<Longrightarrow>
    good_collect c (snd (record_loop c mark a b n ps co))"
proof (induction c mark a b n ps co rule: record_loop.induct)
  case (3 c mark a b n e ps co)
  obtain p co1 where p: "recordPulse c (corrected a b ps (mark (snd e)), co) = (p, co1)"
    by fastforce
  have "good_collect c co1"
    by (rule recordPulse_ok [OF _ 3(3) p]) (use 3(2,4) in \<open>simp add: good_corrected\<close>)
  then show ?case
    using 3(1) [OF p [symmetric] refl] 3(2,4) by (auto simp: p split: prod.split)
qed simp_all

text \<open>Only the pulses and the collection matter.\<close>

lemma good_buffer_updates [simp]:
  "good_buffer c (b\<lparr>m_lastPid := x0\<rparr>) = good_buffer c b"
  "good_buffer c (b\<lparr>m_lastPulseIt := x1\<rparr>) = good_buffer c b"
  "good_buffer c (b\<lparr>m_lastPulseId := x2\<rparr>) = good_buffer c b"
  "good_buffer c (b\<lparr>m_lastRingPeriod := x3\<rparr>) = good_buffer c b"
  "good_buffer c (b\<lparr>m_eventSources := x4\<rparr>) = good_buffer c b"
  "good_buffer c (b\<lparr>m_eventSourcesIndex := x5\<rparr>) = good_buffer c b"
  "good_buffer c (b\<lparr>m_noRegisteredEventSources := x6\<rparr>) = good_buffer c b"
  "good_buffer c (b\<lparr>m_noRegisteredEventSourcesCount := x7\<rparr>) = good_buffer c b"
  "good_buffer c (b\<lparr>m_noEoPPulseBufferSize := x8\<rparr>) = good_buffer c b"
  "good_buffer c (b\<lparr>m_maxPulseBufferSize := x9\<rparr>) = good_buffer c b"
  "good_buffer c (b\<lparr>m_intermittentDataThreshold := x10\<rparr>) = good_buffer c b"
  "good_buffer c (b\<lparr>m_doPulsePchgCorrect := x11\<rparr>) = good_buffer c b"
  "good_buffer c (b\<lparr>m_doPulseVetoCorrect := x12\<rparr>) = good_buffer c b"
  "good_buffer c (b\<lparr>getPulse_cnt := x13\<rparr>) = good_buffer c b"
  "good_buffer c (b\<lparr>markComplete_cnt := x14\<rparr>) = good_buffer c b"
  "good_buffer c (b\<lparr>intermittent := x15\<rparr>) = good_buffer c b"
  "good_buffer c (b\<lparr>discarded := x16\<rparr>) = good_buffer c b"
  by (simp_all add: good_buffer_def)

lemma good_buffer_pulses: "good_buffer c b \<Longrightarrow> good_pulses c ps \<Longrightarrow> good_buffer c (b\<lparr>m_pulses := ps\<rparr>)"
  by (simp add: good_buffer_def)

lemma good_bufferD: "good_buffer c b \<Longrightarrow> good_pulses c (m_pulses b)" "good_buffer c b \<Longrightarrow> good_collect c (collected b)"
  by (simp_all add: good_buffer_def)

lemma drop_iterator_collected [simp]: "collected (drop_iterator ks b) = collected b"
  by (simp add: drop_iterator_def split: option.split)

lemma reset_last_collected [simp]: "collected (reset_last ks b) = collected b"
  by (simp add: reset_last_def)

lemma good_record_first:
  assumes "good_buffer c b" and "\<And>p. good_pulse c (mark p) = good_pulse c p"
  shows "good_buffer c (record_first c mark n b)"
proof -
  obtain rs co where run: "record_loop c mark (m_doPulsePchgCorrect b) (m_doPulseVetoCorrect b) n
      (m_pulses b) (collected b) = (rs, co)" by fastforce
  then have "good_collect c co"
    using record_loop_ok [of c "m_pulses b" "collected b" mark "m_doPulsePchgCorrect b" "m_doPulseVetoCorrect b" n] assms
    by (simp add: good_buffer_def)
  then show ?thesis
    using assms(1) by (simp add: good_buffer_def record_first_def run good_pulses_take_drop)
qed

lemma good_record_upto: "good_buffer c b \<Longrightarrow> good_buffer c (record_upto c l b)"
  using good_record_first [of c b "\<lambda>p. p"] by (simp add: record_upto_def good_buffer_def)

section \<open>The calls\<close>

lemma om_insert_elem: "e \<in> set (om_insert k v m) \<Longrightarrow> e = (k, v) \<or> e \<in> set m"
  by (induction k v m rule: om_insert.induct) (auto split: if_splits)

lemma good_getPulse:
  assumes "good_buffer c b" and "getPulse c pv k b = Inr (k', b')"
  shows "good_buffer c b'"
proof -
  have over: "good_buffer c (check_overflow c pv t)" if "good_buffer c t" for t
    unfolding check_overflow_def Let_def using that by (auto intro!: good_record_first)
  have "good_buffer c (note_pulse_id (fst k) (b\<lparr>getPulse_cnt := getPulse_cnt b + 1\<rparr>))"
    using assms(1) by (simp add: note_pulse_id_def)
  note new = over [OF this]
  have "good_buffer c (insert_pulse k (created k srcs) t)" if "good_buffer c t" for srcs t
    using that good_bufferD(1) [OF that]
    by (auto simp: insert_pulse_def good_pulses_def good_created intro!: good_buffer_pulses dest!: om_insert_elem)
  then show ?thesis
    using assms new by (auto simp: getPulse_def Let_def split: if_splits option.splits)
qed

lemma good_on_pulse:
  assumes b: "good_buffer c b" and ok: "buffer_ok b"
    and f: "\<And>p. map_of (m_pulses b) k = Some p \<Longrightarrow> good_pulse c p \<Longrightarrow> good_pulse c (f p)"
  shows "good_buffer c (on_pulse k f b)"
proof -
  have "\<forall>(k', p) \<in> set (om_update k f (m_pulses b)). good_pulse c p"
    by (rule om_update_all)
       (use good_bufferD(1) [OF b] f ok in \<open>auto simp: good_pulses_def buffer_ok_def pulses_ok_def\<close>)
  then have "good_pulses c (om_update k f (m_pulses b))"
    by (auto simp: good_pulses_def)
  then show ?thesis
    unfolding on_pulse_def by (rule good_buffer_pulses [OF b])
qed

lemma good_release_all: "good_pulses c (release_all i ps) = good_pulses c ps"
  by (auto simp: good_pulses_def release_all_def)

lemma good_free_id [simp]: "good_buffer c (free_id i b) = good_buffer c b"
  by (simp add: free_id_def Let_def)

lemma good_unregister:
  assumes "good_buffer c b" and "unregisterEventSource c pv i b = Inr b'"
  shows "good_buffer c b'"
proof -
  have rel: "good_buffer c (b\<lparr>m_pulses := release_all i (m_pulses b)\<rparr>)"
    by (rule good_buffer_pulses [OF assms(1)]) (simp add: good_release_all good_bufferD [OF assms(1)])
  then show ?thesis
    using assms by (auto simp: unregisterEventSource_def Let_def intro!: good_record_upto
        split: if_splits option.splits)
qed

lemma good_pop: "good_buffer c b \<Longrightarrow> good_buffer c (popPulseBuffer i b)"
  by (auto simp: popPulseBuffer_def Let_def good_buffer_def good_pulses_take_drop split: option.split)

lemma good_check: "good_buffer c b \<Longrightarrow> check_intermittent c pv b = Inr b' \<Longrightarrow> good_buffer c b'"
  by (auto simp: check_intermittent_def Let_def intro: good_unregister [rotated] split: option.splits if_splits)

lemma good_complete_current:
  assumes "good_pulses c ps"
  shows "good_pulses c (fst (complete_current i k ps))"
proof -
  have "good_pulses c (om_update k (complete_for i) qs)" if "good_pulses c qs" for qs
    using that by (auto simp: good_pulses_def om_update_def)
  then show ?thesis
    using assms by (simp add: complete_current_def Let_def good_release_all good_pulses_take_drop)
qed

lemma good_markComplete:
  assumes "good_buffer c b" and "markComplete c pv k i b = Inr b'"
  shows "good_buffer c b'"
proof -
  obtain b1 k1 b2 where one: "check_intermittent c pv (poll_threshold pv b) = Inr b1"
    and two: "getPulse c pv k b1 = Inr (k1, b2)"
    and rest: "(let (ps, done) = complete_current i k1 (m_pulses b2); b3 = b2\<lparr>m_pulses := ps\<rparr> in
      case done of None \<Rightarrow> Inr b3 | Some l \<Rightarrow> Inr (record_complete c pv l b3)) = (Inr b' :: sms_error + buffer)"
    using assms(2) unfolding markComplete_def by (auto simp: sbind_eq_Inr split: if_splits)
  obtain ps l where cur: "complete_current i k1 (m_pulses b2) = (ps, l)" by fastforce
  have "good_buffer c (poll_threshold pv b)"
    using assms(1) by (simp add: poll_threshold_def Let_def)
  then have b2: "good_buffer c b2"
    using good_check [OF _ one] good_getPulse [OF _ two] by blast
  have "good_pulses c ps"
    using good_complete_current [OF good_bufferD(1) [OF b2], of i k1] by (simp add: cur)
  then have b3: "good_buffer c (b2\<lparr>m_pulses := ps\<rparr>)"
    by (rule good_buffer_pulses [OF b2])
  have "good_buffer c (record_complete c pv l t)" if "good_buffer c t" for l t
    using that by (auto simp: record_complete_def Let_def poll_buffer_size_def poll_corrections_def
        split: option.split intro!: good_record_upto)
  then show ?thesis
    using rest b3 by (auto simp: cur Let_def split: option.splits)
qed

section \<open>Events\<close>

text \<open>Sorting events makes calls that put no packet into the stream themselves.\<close>

definition only_silent :: "collect \<Rightarrow> collect \<Rightarrow> bool" where
  "only_silent co co' \<longleftrightarrow> (\<exists>cs. co_calls co' = co_calls co @ cs \<and> (\<forall>x \<in> set cs. call_bytes x = []))"

lemma only_silent_same: "co_calls co' = co_calls co \<Longrightarrow> only_silent co co'"
  by (auto simp: only_silent_def)

lemma only_silent_append:
  "co_calls co' = co_calls co @ cs \<Longrightarrow> \<forall>x \<in> set cs. call_bytes x = [] \<Longrightarrow> only_silent co co'"
  by (auto simp: only_silent_def)

lemma only_silent_trans: "only_silent a b \<Longrightarrow> only_silent b d \<Longrightarrow> only_silent a d"
  by (fastforce simp: only_silent_def)

lemma silent_fast: "addFastMetaEvent alloc e (p, co) = Inr (p', co') \<Longrightarrow> only_silent co co'"
  by (auto simp: addFastMetaEvent_def addGenericDevice_def only_silent_def Let_def
      split: option.splits sum.splits if_splits)

lemma silent_place: "place_event c st pl t (p, src, co) = Inr (p', src', co') \<Longrightarrow> only_silent co co'"
  by (auto simp: place_event_def grow_banks_def only_silent_def sbind_eq_Inr Let_def split: if_splits)

lemma silent_chopper: "only_silent co (snd (addChopperEvent st e (p, co)))"
  by (auto simp: addChopperEvent_def only_silent_def Let_def)

lemma silent_monitor: "only_silent co (snd (addMonitorEvent st mem e (p, co)))"
  by (auto simp: addMonitorEvent_def only_silent_def Let_def)

lemma silent_step:
  "event_step c st mem im e (p, src, co, ta) = Inr (p', src', co', ta') \<Longrightarrow> only_silent co co'"
  using silent_chopper [of co st e p] silent_monitor [of co st mem e p]
  by (auto simp: event_step_def sbind_eq_Inr Let_def split: if_splits prod.splits
      dest!: silent_fast silent_place)

lemma silent_loop:
  "event_loop c st mem im es (p, src, co, ta) = Inr (p', src', co', ta') \<Longrightarrow> only_silent co co'"
proof (induction es arbitrary: p src co ta)
  case (Cons e es)
  then obtain p1 src1 co1 ta1 where "event_step c st mem im e (p, src, co, ta) = Inr (p1, src1, co1, ta1)"
    "event_loop c st mem im es (p1, src1, co1, ta1) = Inr (p', src', co', ta')"
    by (auto simp: sbind_eq_Inr)
  then show ?case
    using Cons.IH only_silent_trans [OF silent_step] by blast
qed (simp add: only_silent_same)

lemma silent_collect: "collect_packet c st r mem hw im mixed (p, co) = Inr (p', co', ta) \<Longrightarrow> only_silent co co'"
  by (auto simp: collect_packet_def Let_def sbind_eq_Inr dest!: silent_loop)

lemma collect_packet_good:
  assumes c: "config_ok c" and st: "settings_ok c st" and p: "good_pulse c p" and co: "good_collect c co"
  obtains p' co' ta where "collect_packet c st r mem hw im mixed (p, co) = Inr (p', co', ta)"
    "good_pulse c p'" "good_collect c co'"
proof -
  obtain p' co' ta where run: "collect_packet c st r mem hw im mixed (p, co) = Inr (p', co', ta)"
    and ok: "pulse_ok c p'" "collect_ok c co'" "m_rtdl p' = m_rtdl p"
    using collect_packet_spec [OF c st, of p co r mem hw im mixed] p co
    by (auto simp: good_pulse_def good_collect_def)
  obtain cs where "co_calls co' = co_calls co @ cs" "\<forall>x \<in> set cs. call_bytes x = []"
    using silent_collect [OF run] by (auto simp: only_silent_def)
  then have "good_collect c co'"
    using ok co by (simp add: good_collect_def good_output_append good_output_silent)
  then show ?thesis
    using that [OF run] ok p by (simp add: good_pulse_def)
qed

lemma same_ok: "buffer_ok b \<Longrightarrow> same_core b b' \<Longrightarrow> buffer_ok b'"
  by (rule steps_buffer_ok [OF steps_same])

text \<open>\<open>pulseEvents\<close> returns.\<close>

lemma pulseEvents_good:
  assumes c: "config_ok c" and st: "settings_ok c st" and b: "good_buffer c b" and ok: "buffer_ok b"
    and k: "proper_key (pulse_id (header_at mem), dup)"
  obtains b' ta where "pulseEvents c pv st mem hw dup im mixed b = Inr (b', ta)" "good_buffer c b'"
proof -
  let ?k = "(pulse_id (header_at mem), dup)"
  obtain b1 where b1: "getPulse c pv ?k b = Inr (?k, b1)" "steps c any_order b b1" "?k \<in> buffered b1"
    by (rule getPulse_proper [OF ok k])
  then obtain p where p: "map_of (m_pulses b1) ?k = Some p"
    by (metis not_Some_eq om_keys_iff)
  have good1: "good_buffer c b1"
    by (rule good_getPulse [OF b b1(1)])
  have ok1: "buffer_ok b1"
    by (rule steps_buffer_ok [OF b1(2) ok])
  have "good_pulse c p"
    using good_bufferD(1) [OF good1] map_of_SomeD [OF p] by (auto simp: good_pulses_def)
  then obtain p' co' ta where run: "collect_packet c st (m_lastRingPeriod b1) mem hw im mixed (p, collected b1) = Inr (p', co', ta)"
    and good: "good_pulse c p'" "good_collect c co'"
    using collect_packet_good [OF c st _ good_bufferD(2) [OF good1]] by metis
  have "good_buffer c (b1\<lparr>collected := co'\<rparr>)"
    using good1 good(2) by (simp add: good_buffer_def)
  moreover have "buffer_ok (b1\<lparr>collected := co'\<rparr>)"
    by (rule same_ok [OF ok1]) (simp add: same_core_def)
  ultimately have "good_buffer c (on_pulse ?k (\<lambda>_. p') (b1\<lparr>collected := co'\<rparr>))"
    by (rule good_on_pulse) (rule good(1))
  then show ?thesis
    using that [of "on_pulse ?k (\<lambda>_. p') (b1\<lparr>collected := co'\<rparr>)" ta] by (simp add: pulseEvents_def b1(1) p run)
qed

lemma pulseRTDL_good:
  assumes b: "good_buffer c b" and ok: "buffer_ok b" and k: "proper_key (pulse_id (header_at mem), dup)"
    and mem: "framed mem" and run: "pulseRTDL c pv mem dup b = Inr b'"
  shows "good_buffer c b'"
proof -
  let ?k = "(pulse_id (header_at mem), dup)"
  obtain b1 where b1: "getPulse c pv ?k b = Inr (?k, b1)" "steps c any_order b b1" "?k \<in> buffered b1"
    by (rule getPulse_proper [OF ok k])
  then obtain p where p: "map_of (m_pulses b1) ?k = Some p"
    by (metis not_Some_eq om_keys_iff)
  have good1: "good_buffer c b1" and ok1: "buffer_ok b1"
    using good_getPulse [OF b b1(1)] steps_buffer_ok [OF b1(2) ok] by simp_all
  define b2 where "b2 = on_pulse ?k (take_rtdl mem) (b1\<lparr>m_lastRingPeriod := rtdl_ringPeriod mem\<rparr>)"
  define b3 where "b3 = (if m_numEventSources p = 0
    then b2\<lparr>m_noRegisteredEventSourcesCount := m_noRegisteredEventSourcesCount b2 + 1\<rparr> else b2)"
  have ok1': "buffer_ok (b1\<lparr>m_lastRingPeriod := rtdl_ringPeriod mem\<rparr>)"
    by (rule same_ok [OF ok1]) (simp add: same_core_def)
  have good2: "good_buffer c b2"
    unfolding b2_def by (rule good_on_pulse [OF _ ok1']) (simp_all add: good1 good_take_rtdl mem)
  have ok2: "buffer_ok b2"
    unfolding b2_def by (rule steps_buffer_ok [OF steps_on_pulse ok1']) (rule keeps_rtdl)
  have ok3: "buffer_ok b3"
    by (rule same_ok [OF ok2]) (simp add: b3_def same_core_def)
  have "good_buffer c b3"
    using good2 by (simp add: b3_def)
  then have "good_buffer c (on_pulse ?k (set_flag PARTIAL_DATA) b3)"
    by (rule good_on_pulse [OF _ ok3]) simp
  from good_markComplete [OF this] good1 good2 show ?thesis
    using run by (auto simp: pulseRTDL_def b1(1) p Let_def split: if_splits simp flip: b2_def b3_def)
qed

section \<open>Runs\<close>

text \<open>What a call brings along: settings in order and whole RTDL packets.\<close>

fun sound_call :: "sms_config \<Rightarrow> call \<Rightarrow> bool" where
  "sound_call c (Events st mem hwId dup im mixed) = settings_ok c st"
| "sound_call c (Rtdl mem dup) = framed mem"
| "sound_call c op = True"

lemma call_good:
  assumes c: "config_ok c" and b: "good_buffer c b" and ok: "buffer_ok b"
    and key: "\<And>k. call_key op = Some k \<Longrightarrow> proper_key k" and sound: "sound_call c op"
    and run: "apply_call c pv op b = Inr b'"
  shows "good_buffer c b'"
proof (cases op)
  case (Register srcId)
  then show ?thesis
    using run b by (auto simp: registerEventSource_def Let_def sbind_eq_Inr split: option.splits if_splits)
next
  case (Partial k)
  obtain b1 where b1: "getPulse c pv k b = Inr (k, b1)" "steps c any_order b b1"
    by (rule getPulse_proper [OF ok key]) (simp add: Partial)
  have "good_buffer c (on_pulse k (set_flag PARTIAL_DATA) b1)"
    by (rule good_on_pulse [OF good_getPulse [OF b b1(1)] steps_buffer_ok [OF b1(2) ok]]) simp
  then show ?thesis
    using run by (simp add: Partial markPartial_def b1(1))
next
  case (Rtdl mem dup)
  then show ?thesis
    using run key sound pulseRTDL_good [OF b ok] by simp
next
  case (Events st mem hw dup im mixed)
  obtain b1 ta where "pulseEvents c pv st mem hw dup im mixed b = Inr (b1, ta)" "good_buffer c b1"
    by (rule pulseEvents_good [OF c _ b ok]) (use key sound in \<open>simp_all add: Events\<close>)
  then show ?thesis
    using run by (simp add: Events)
qed (use run b in \<open>auto intro: good_unregister good_pop good_markComplete\<close>)

lemma events_total:
  assumes "config_ok c" "settings_ok c st" "good_buffer c b" "buffer_ok b"
    "proper_key (pulse_id (header_at mem), dup)"
  shows "\<exists>b'. apply_call c pv (Events st mem hw dup im mixed) b = Inr b'"
proof -
  obtain b' ta where "pulseEvents c pv st mem hw dup im mixed b = Inr (b', ta)"
    by (rule pulseEvents_good [OF assms])
  then show ?thesis by simp
qed

end
