(* ===== verification/Source_Registry.thy ===== *)
theory Source_Registry
  imports Data_Source Buffer_Events
begin

text \<open>
  The registry of event sources in the pulse buffer: which bits are taken and which data source each one
  belongs to. The first part shows what the calls of the service do to it (only a registration adds, only
  an unregistration and the check for intermittent sources remove, the latter with a message to the data
  source), the second what that means for the identifiers the data sources hold.
\<close>

unbundle bit_operations_syntax

section \<open>The registry of the pulse buffer\<close>

type_synonym registry = "source_set \<times> u32 list \<times> (u32 \<times> u32) list"

definition registry :: "buffer \<Rightarrow> registry" where
  "registry b = (m_eventSources b, m_eventSourcesIndex b, intermittent b)"

named_theorems registry_simps

lemma registry_update [registry_simps]:
  "registry (b\<lparr>m_pulses := ps\<rparr>) = registry b"
  "registry (b\<lparr>m_lastRingPeriod := r\<rparr>) = registry b"
  "registry (b\<lparr>m_noRegisteredEventSourcesCount := n\<rparr>) = registry b"
  "registry (b\<lparr>collected := co\<rparr>) = registry b"
  "registry (b\<lparr>m_lastPid := k, m_lastPulseIt := i\<rparr>) = registry b"
  "registry (b\<lparr>getPulse_cnt := n\<rparr>) = registry b"
  by (simp_all add: registry_def)

lemma registry_drop_iterator [registry_simps]: "registry (drop_iterator ks b) = registry b"
  by (simp add: drop_iterator_def registry_def split: option.split)

lemma registry_reset_last [registry_simps]: "registry (reset_last ks b) = registry b"
  by (simp add: reset_last_def registry_def)

lemma registry_record_first [registry_simps]: "registry (record_first c mark n b) = registry b"
  by (simp add: record_first_def registry_drop_iterator split: prod.split) (simp add: registry_def)

lemma registry_record_upto [registry_simps]: "registry (record_upto c l b) = registry b"
  by (simp add: record_upto_def registry_simps)

lemma registry_polls [registry_simps]:
  "registry (poll_threshold pv b) = registry b" "registry (poll_buffer_size pv b) = registry b"
  "registry (poll_corrections pv b) = registry b"
  by (simp_all add: poll_threshold_def poll_buffer_size_def poll_corrections_def Let_def registry_def)

lemma registry_record_complete [registry_simps]: "registry (record_complete c pv l b) = registry b"
  by (simp add: record_complete_def Let_def registry_simps split: option.split)

lemma registry_check_overflow [registry_simps]: "registry (check_overflow c pv b) = registry b"
  by (simp add: check_overflow_def Let_def registry_record_first) (simp add: registry_def)

lemma registry_getPulse:
  assumes "getPulse c pv k b = Inr (k', b')"
  shows "registry b' = registry b"
proof -
  have "registry (insert_pulse k p t) = registry t" "registry (note_pulse_id n t) = registry t" for p t n
    by (simp_all add: insert_pulse_def note_pulse_id_def registry_def)
  then show ?thesis
    using assms by (auto simp: getPulse_def Let_def registry_simps split: if_splits option.splits)
qed

lemma registry_on_pulse [registry_simps]: "registry (on_pulse k f b) = registry b"
  by (simp add: on_pulse_def registry_simps)

lemma registry_pop: "registry (popPulseBuffer i b) = registry b"
  by (simp add: popPulseBuffer_def Let_def drop_iterator_def reset_last_def registry_def split: option.split)

text \<open>Giving up a source removes its bit and its data source.\<close>

definition without :: "nat \<Rightarrow> registry \<Rightarrow> registry" where
  "without n = (\<lambda>(srcs, idx, im). (unset_bit n srcs, idx[n := - 1], im))"

lemma registry_free_id: "registry (free_id i b) = without (unat i) (registry b)"
  by (simp add: free_id_def Let_def registry_def without_def)

lemma unregister_total:
  assumes "unat i < 256"
  obtains b' where "unregisterEventSource c pv i b = Inr b'" "registry b' = without (unat i) (registry b)"
proof -
  have i: "i \<noteq> NO_SOURCE" "\<not> SOURCE_SET_SIZE \<le> unat i"
    using assms real_source by (auto simp: SOURCE_SET_SIZE_def)
  have poll: "registry (t\<lparr>m_noEoPPulseBufferSize := n\<rparr>) = registry t"
    "registry (t\<lparr>m_doPulsePchgCorrect := x, m_doPulseVetoCorrect := y\<rparr>) = registry t" for t n x y
    by (simp_all add: registry_def)
  have "\<exists>b'. unregisterEventSource c pv i b = Inr b' \<and> registry b' = without (unat i) (registry b)"
    using i by (auto simp: unregisterEventSource_def Let_def registry_free_id registry_simps poll
        split: option.split)
  then show ?thesis
    using that by blast
qed

section \<open>What a call does to it\<close>

lemma scan_sources_found: "scan_sources limit is counts = Inr i \<Longrightarrow> i \<in> set is"
  by (induction limit "is" counts rule: scan_sources.induct) (auto simp: Let_def split: if_splits)

lemma scan_pulses_found:
  "scan_pulses limit ps counts = Some i \<Longrightarrow> \<exists>e \<in> set ps. bit (m_pending (snd e)) i \<and> i < 256"
proof (induction limit ps counts rule: scan_pulses.induct)
  case (2 limit e ps counts)
  show ?case
  proof (cases "scan_sources limit (List.filter (bit (m_pending (snd e))) [0 ..< SOURCE_SET_SIZE]) counts")
    case (Inl counts1)
    then show ?thesis using 2 by simp
  next
    case (Inr j)
    then show ?thesis
      using 2 scan_sources_found [OF Inr] by (auto simp: SOURCE_SET_SIZE_def)
  qed
qed simp

lemma intermittent_registered:
  assumes "buffer_ok b" and "find_intermittent b = Some i"
  shows "bit (m_eventSources b) i" and "i < 256"
proof -
  obtain e where e: "e \<in> set (m_pulses b)" "bit (m_pending (snd e)) i" "i < 256"
    using assms(2) scan_pulses_found by (fastforce simp: find_intermittent_def split: if_splits)
  then have "within (m_pending (snd e)) (m_eventSources b)"
    using assms(1) by (auto simp: buffer_ok_def pulses_ok_def list_all_iff)
  then show "bit (m_eventSources b) i" "i < 256"
    using e by (auto simp: within_iff)
qed

text \<open>A call leaves the registry alone, or it gives one source up and tells its data source.\<close>

definition gives_up :: "sms_config \<Rightarrow> registry \<Rightarrow> nat \<Rightarrow> registry \<Rightarrow> bool" where
  "gives_up c = (\<lambda>(srcs, idx, im) n r'. bit srcs n \<and> n < 256 \<and> idx ! n \<noteq> - 1 \<and> idx ! n < c_numDataSources c \<and>
     r' = (unset_bit n srcs, idx[n := - 1], im @ [(idx ! n, of_nat n)]))"

definition may_give_up :: "sms_config \<Rightarrow> registry \<Rightarrow> registry \<Rightarrow> bool" where
  "may_give_up c r r' \<longleftrightarrow> r' = r \<or> (\<exists>n. gives_up c r n r')"

lemma check_intermittent_registry:
  assumes ok: "buffer_ok b" and run: "check_intermittent c pv b = Inr b'"
  shows "may_give_up c (registry b) (registry b')"
proof (cases "find_intermittent b")
  case None
  then show ?thesis using run by (simp add: check_intermittent_def may_give_up_def)
next
  case (Some i)
  let ?src = "m_eventSourcesIndex b ! i"
  let ?b = "b\<lparr>intermittent := intermittent b @ [(?src, of_nat i)]\<rparr>"
  note found = intermittent_registered [OF ok Some]
  have u: "unat (of_nat i :: u32) = i"
    using found(2) by (simp add: unat_of_nat_u32)
  show ?thesis
  proof (cases "?src \<noteq> - 1 \<and> ?src < c_numDataSources c")
    case False
    then show ?thesis
      using run Some by (auto simp: check_intermittent_def Let_def may_give_up_def)
  next
    case True
    obtain t where t: "unregisterEventSource c pv (of_nat i) ?b = Inr t" "registry t = without i (registry ?b)"
      using unregister_total [of "of_nat i" c pv ?b] u found(2) by metis
    then have "registry b' = (unset_bit i (m_eventSources b), (m_eventSourcesIndex b)[i := - 1],
        intermittent b @ [(?src, of_nat i)])"
      using run Some True by (simp add: check_intermittent_def Let_def registry_def without_def)
    then have "gives_up c (registry b) i (registry b')"
      using found True by (simp add: gives_up_def registry_def)
    then show ?thesis
      unfolding may_give_up_def by blast
  qed
qed

lemma markComplete_registry:
  assumes ok: "buffer_ok b" and run: "markComplete c pv k i b = Inr b'"
  shows "may_give_up c (registry b) (registry b')"
proof -
  obtain b1 k1 b2 where one: "check_intermittent c pv (poll_threshold pv b) = Inr b1"
    and two: "getPulse c pv k b1 = Inr (k1, b2)" and same: "registry b' = registry b2"
    using run by (fastforce simp: markComplete_def sbind_eq_Inr Let_def registry_simps
        split: if_splits option.splits prod.splits)
  have "buffer_ok (poll_threshold pv b)"
    using steps_buffer_ok [OF steps_same [OF poll_same(1)] ok] .
  from check_intermittent_registry [OF this one] show ?thesis
    using registry_getPulse [OF two] same by (simp add: registry_simps)
qed

text \<open>An RTDL packet changes the pulse, and may go on to complete it.\<close>

lemma pulseRTDL_path:
  assumes ok: "buffer_ok b" and key: "proper_key k" and k: "k = (pulse_id (header_at mem), dup)"
  obtains b' where "pulseRTDL c pv mem dup b = Inr b'" "registry b' = registry b"
  | b' where "pulseRTDL c pv mem dup b = markComplete c pv k NO_SOURCE b'" "registry b' = registry b"
      "buffer_ok b'"
proof -
  obtain b1 where one: "getPulse c pv k b = Inr (k, b1)" "steps c any_order b b1" "k \<in> buffered b1"
    by (rule getPulse_proper [OF ok key])
  obtain p where p: "map_of (m_pulses b1) k = Some p"
    using one(3) by (metis not_Some_eq om_keys_iff)
  define b2 where "b2 = on_pulse k (take_rtdl mem) (b1\<lparr>m_lastRingPeriod := rtdl_ringPeriod mem\<rparr>)"
  define b3 where "b3 = (if m_numEventSources p = 0
    then b2\<lparr>m_noRegisteredEventSourcesCount := m_noRegisteredEventSourcesCount b2 + 1\<rparr> else b2)"
  define b4 where "b4 = on_pulse k (set_flag PARTIAL_DATA) b3"
  have "steps c any_order b1 (b1\<lparr>m_lastRingPeriod := rtdl_ringPeriod mem\<rparr>)"
    by (rule steps_same) (simp add: same_core_def)
  also have "steps c any_order (b1\<lparr>m_lastRingPeriod := rtdl_ringPeriod mem\<rparr>) b2"
    unfolding b2_def by (rule steps_on_pulse) (rule keeps_rtdl)
  also have "steps c any_order b2 b3"
    by (rule steps_same) (simp add: same_core_def b3_def)
  also have "steps c any_order b3 b4"
    unfolding b4_def by (rule steps_on_pulse) (rule keeps_set_flag)
  finally have ok4: "buffer_ok b4"
    using steps_buffer_ok one(2) ok by blast
  have same: "registry b1 = registry b" "registry b2 = registry b" "registry b4 = registry b"
    using registry_getPulse [OF one(1)] by (simp_all add: b4_def b3_def b2_def registry_simps)
  have "pulseRTDL c pv mem dup b = Inr b1 \<or> pulseRTDL c pv mem dup b = Inr b2 \<or>
      pulseRTDL c pv mem dup b = markComplete c pv k NO_SOURCE b4"
    by (simp add: pulseRTDL_def k [symmetric] one(1) p Let_def b4_def b3_def b2_def)
  then show ?thesis
    using that(1) [OF _ same(1)] that(1) [OF _ same(2)] that(2) [OF _ same(3) ok4] by blast
qed

lemma call_registry:
  assumes ok: "buffer_ok b" and key: "\<And>k. call_key op = Some k \<Longrightarrow> proper_key k"
    and op: "\<And>i. op \<noteq> Register i" "\<And>i. op \<noteq> Unregister i"
    and run: "apply_call c pv op b = Inr b'"
  shows "may_give_up c (registry b) (registry b')"
proof (cases op)
  case (Pop i)
  then show ?thesis using run by (auto simp: may_give_up_def registry_pop)
next
  case (Partial k)
  then show ?thesis
    using run by (auto simp: may_give_up_def markPartial_def sbind_eq_Inr registry_simps dest: registry_getPulse)
next
  case (Complete k i)
  then show ?thesis using run markComplete_registry [OF ok] by simp
next
  case (Rtdl mem dup)
  then have "proper_key (pulse_id (header_at mem), dup)"
    using key by simp
  from pulseRTDL_path [OF ok this refl, of c pv] show ?thesis
  proof cases
    case (1 b1)
    then show ?thesis using run by (simp add: Rtdl may_give_up_def)
  next
    case (2 b1)
    then show ?thesis using run markComplete_registry [OF 2(3)] by (simp add: Rtdl)
  qed
next
  case (Events st mem hwId dup im mixed)
  then show ?thesis
    using run by (auto simp: may_give_up_def pulseEvents_def sbind_eq_Inr registry_simps
        split: option.splits dest!: registry_getPulse)
qed (use op in simp_all)

section \<open>Calls return\<close>

definition names_source :: "u32 \<Rightarrow> bool" where
  "names_source i \<longleftrightarrow> i = NO_SOURCE \<or> unat i < 256"

lemma check_intermittent_total:
  assumes "buffer_ok b"
  shows "\<exists>b'. check_intermittent c pv b = Inr b'"
proof (cases "find_intermittent b")
  case (Some i)
  then have "unat (of_nat i :: u32) < 256"
    using intermittent_registered [OF assms Some] by (simp add: unat_of_nat_u32)
  then have "\<exists>b'. unregisterEventSource c pv (of_nat i) t = Inr b'" for t
    using unregister_total by metis
  then show ?thesis by (simp add: check_intermittent_def Some Let_def)
qed (simp add: check_intermittent_def)

lemma markComplete_total:
  assumes ok: "buffer_ok b" and k: "proper_key k" and i: "names_source i"
  shows "\<exists>b'. markComplete c pv k i b = Inr b'"
proof -
  have ok0: "buffer_ok (poll_threshold pv b)"
    using steps_buffer_ok [OF steps_same [OF poll_same(1)] ok] .
  then obtain b1 where one: "check_intermittent c pv (poll_threshold pv b) = Inr b1"
    using check_intermittent_total by blast
  have "buffer_ok b1"
    using steps_buffer_ok [OF steps_check_intermittent [OF one] ok0] .
  then obtain b2 where two: "getPulse c pv k b1 = Inr (k, b2)"
    using k by (rule getPulse_proper)
  have "\<not> (i \<noteq> NO_SOURCE \<and> unat i \<ge> SOURCE_SET_SIZE)"
    using i by (auto simp: names_source_def SOURCE_SET_SIZE_def)
  then show ?thesis
    unfolding markComplete_def one sbind_simps two by (simp add: Let_def split: prod.split option.split)
qed

fun plain_call :: "call \<Rightarrow> bool" where
  "plain_call (Register i) = False"
| "plain_call (Unregister i) = False"
| "plain_call (Complete k i) = names_source i"
| "plain_call op = True"

text \<open>Every plain call returns: the events of a packet always find their place.\<close>

lemma call_total:
  assumes ok: "buffer_ok b" and key: "\<And>k. call_key op = Some k \<Longrightarrow> proper_key k" and op: "plain_call op"
    and c: "config_ok c" and good: "good_buffer c b" and sound: "sound_call c op"
  shows "\<exists>b'. apply_call c pv op b = Inr b'"
proof (cases op)
  case (Partial k)
  then obtain b1 where "getPulse c pv k b = Inr (k, b1)"
    using key by (auto elim: getPulse_proper [OF ok])
  then show ?thesis by (simp add: Partial markPartial_def)
next
  case (Complete k i)
  then show ?thesis using markComplete_total [OF ok] key op by simp
next
  case (Rtdl mem dup)
  then have k: "proper_key (pulse_id (header_at mem), dup)"
    using key by simp
  from pulseRTDL_path [OF ok this refl, of c pv] show ?thesis
    by cases (use markComplete_total [OF _ k] in \<open>auto simp: Rtdl names_source_def\<close>)
next
  case (Events st mem hwId dup im mixed)
  then show ?thesis
    using events_total [OF c _ good ok] key sound by simp
qed (use op in simp_all)


end
