(* ===== verification/Source_Links.thy ===== *)
theory Source_Links
  imports Source_Registry
begin

text \<open>
  Who holds which event source. The identifiers of all hardware sources are a map from data source and
  hardware identifier to event source. It is linked to the registry of the pulse buffer when every event
  source has exactly one holder, in the data source the registry names. While a data source gives its
  hardware sources up one by one, those in a set of retired ones still show an identifier that is no
  longer theirs.
\<close>

unbundle bit_operations_syntax

section \<open>Identifiers and the registry\<close>

text \<open>The holders are of any type here; \<open>f\<close> gives the data source of one.\<close>

definition links ::
    "('h \<Rightarrow> u32) \<Rightarrow> 'h set \<Rightarrow> ('h \<Rightarrow> u32 option) \<Rightarrow> source_set \<Rightarrow> u32 list \<Rightarrow> bool" where
  "links f R m srcs idx \<longleftrightarrow> length idx = 256 \<and>
     (\<forall>x i. m x = Some i \<longrightarrow> i \<noteq> NO_SOURCE \<longrightarrow> unat i < 256 \<and>
        (if x \<in> R then \<not> bit srcs (unat i) else bit srcs (unat i) \<and> idx ! unat i = f x)) \<and>
     (\<forall>n. bit srcs n \<longrightarrow> (\<exists>!x. m x = Some (of_nat n)))"

lemma linksI:
  assumes "length idx = 256"
    and "\<And>x i. m x = Some i \<Longrightarrow> i \<noteq> NO_SOURCE \<Longrightarrow> unat i < 256 \<and>
        (if x \<in> R then \<not> bit srcs (unat i) else bit srcs (unat i) \<and> idx ! unat i = f x)"
    and "\<And>n. bit srcs n \<Longrightarrow> \<exists>!x. m x = Some (of_nat n)"
  shows "links f R m srcs idx"
  using assms by (simp add: links_def)

lemma links_held:
  assumes "links f R m srcs idx" and "m x = Some i" and "i \<noteq> NO_SOURCE"
  shows "unat i < 256" and "x \<in> R \<Longrightarrow> \<not> bit srcs (unat i)" and "x \<notin> R \<Longrightarrow> bit srcs (unat i)"
    and "x \<notin> R \<Longrightarrow> idx ! unat i = f x"
  using assms by (auto simp: links_def)

lemma small_source: "n < 256 \<Longrightarrow> unat (of_nat n :: u32) = n \<and> (of_nat n :: u32) \<noteq> NO_SOURCE"
proof
  assume "n < 256"
  then show "unat (of_nat n :: u32) = n" by (simp add: unat_of_nat_u32)
  then show "(of_nat n :: u32) \<noteq> NO_SOURCE" using real_source [of "of_nat n"] \<open>n < 256\<close> by simp
qed

lemma source_eq:
  assumes "n < 256" and "k < 256"
  shows "(of_nat n :: u32) = of_nat k \<longleftrightarrow> n = k"
proof
  assume "(of_nat n :: u32) = of_nat k"
  from arg_cong [OF this, of unat] show "n = k"
    using small_source [OF assms(1)] small_source [OF assms(2)] by simp
qed simp

lemma links_holder:
  assumes l: "links f R m srcs idx" and n: "bit srcs n"
  obtains x where "m x = Some (of_nat n)" "x \<notin> R" "idx ! n = f x"
    "\<And>y. m y = Some (of_nat n) \<Longrightarrow> y = x"
proof -
  obtain x where x: "m x = Some (of_nat n)" "\<And>y. m y = Some (of_nat n) \<Longrightarrow> y = x"
    using l n unfolding links_def by blast
  have s: "unat (of_nat n :: u32) = n" "(of_nat n :: u32) \<noteq> NO_SOURCE"
    using small_source bit_source_less [OF n] by auto
  have R: "x \<notin> R"
    using links_held(2) [OF l x(1) s(2)] n unfolding s(1) by blast
  show ?thesis
    by (rule that [OF x(1) R _ x(2)]) (use links_held(4) [OF l x(1) s(2) R] in \<open>simp only: s(1)\<close>)
qed

lemma links_length: "links f R m srcs idx \<Longrightarrow> length idx = 256"
  by (simp add: links_def)

lemma links_retired:
  assumes "links f R m srcs idx" and "\<And>x i. m x = Some i \<Longrightarrow> i \<noteq> NO_SOURCE \<Longrightarrow> x \<in> R \<longleftrightarrow> x \<in> R'"
  shows "links f R' m srcs idx"
  using assms unfolding links_def by simp

text \<open>A new event source, for a hardware source that has none.\<close>

lemma links_register:
  assumes l: "links f {} m srcs idx" and n: "n < 256" "\<not> bit srcs n" and x: "\<And>i. m x = Some i \<Longrightarrow> i = NO_SOURCE"
  shows "links f {} (m(x \<mapsto> of_nat n)) (set_bit n srcs) (idx[n := f x])"
proof (rule linksI)
  note s = small_source [OF n(1)]
  show "length (idx[n := f x]) = 256"
    using links_length [OF l] by simp
  fix y i
  assume y: "(m(x \<mapsto> of_nat n)) y = Some i" "i \<noteq> NO_SOURCE"
  show "unat i < 256 \<and> (if y \<in> {} then \<not> bit (set_bit n srcs) (unat i)
      else bit (set_bit n srcs) (unat i) \<and> idx[n := f x] ! unat i = f y)"
  proof (cases "y = x")
    case True
    then show ?thesis
      using y s n links_length [OF l] by (auto simp: bit_set_source)
  next
    case False
    then have "m y = Some i" using y by simp
    then have "unat i < 256" "bit srcs (unat i)" "idx ! unat i = f y"
      using links_held [OF l _ y(2)] by blast+
    then show ?thesis
      using n by (cases "unat i = n") (simp_all add: bit_set_source)
  qed
next
  note s = small_source [OF n(1)]
  fix k
  assume k: "bit (set_bit n srcs) k"
  show "\<exists>!y. (m(x \<mapsto> of_nat n)) y = Some (of_nat k)"
  proof (cases "k = n")
    case True
    have only: "y = x" if "(m(x \<mapsto> of_nat n)) y = Some (of_nat n)" for y
      using that links_held(3) [OF l, of y "of_nat n"] s n(2) by (auto split: if_splits)
    show ?thesis
      unfolding True by (rule ex1I [OF _ only]) simp_all
  next
    case False
    then have b: "bit srcs k"
      using k n(1) by (simp add: bit_set_source)
    obtain y where y: "m y = Some (of_nat k)" "\<And>z. m z = Some (of_nat k) \<Longrightarrow> z = y"
      using links_holder [OF l b] by metis
    have sk: "unat (of_nat k :: u32) = k" "(of_nat k :: u32) \<noteq> NO_SOURCE"
      using small_source bit_source_less [OF b] by auto
    have "(of_nat k :: u32) \<noteq> of_nat n"
      using source_eq bit_source_less [OF b] n(1) False by simp
    moreover have "y \<noteq> x"
      using x y(1) sk(2) by auto
    ultimately show ?thesis
      by (intro ex1I [of _ y]) (use y(1) in simp, use y(2) in \<open>metis fun_upd_apply option.inject\<close>)
  qed
qed

text \<open>An event source that is given up: its holder loses it or is retired.\<close>

lemma links_others:
  assumes l: "links f R m srcs idx" and n: "bit srcs n" and x: "m x = Some (of_nat n)"
    and y: "m y = Some i" "i \<noteq> NO_SOURCE" "y \<noteq> x"
  shows "unat i \<noteq> n"
proof
  assume "unat i = n"
  then have "i = of_nat n" by auto
  then show False
    using links_holder [OF l n] x y by metis
qed

lemma links_give_up:
  assumes l: "links f R m srcs idx" and n: "bit srcs n" and x: "m x = Some (of_nat n)"
    and others: "\<And>y. y \<noteq> x \<Longrightarrow> m' y = m y" and own: "\<And>i. m' x = Some i \<Longrightarrow> i = NO_SOURCE \<or> i = of_nat n \<and> x \<in> R'"
    and R: "\<And>y. y \<noteq> x \<Longrightarrow> y \<in> R' \<longleftrightarrow> y \<in> R"
  shows "links f R' m' (unset_bit n srcs) (idx[n := - 1])"
proof (rule linksI)
  note s = small_source [OF bit_source_less [OF n]]
  show "length (idx[n := - 1]) = 256"
    using links_length [OF l] by simp
  fix y i
  assume y: "m' y = Some i" "i \<noteq> NO_SOURCE"
  show "unat i < 256 \<and> (if y \<in> R' then \<not> bit (unset_bit n srcs) (unat i)
      else bit (unset_bit n srcs) (unat i) \<and> idx[n := - 1] ! unat i = f y)"
  proof (cases "y = x")
    case True
    then show ?thesis
      using y own s bit_source_less [OF n] by (auto simp: bit_unset_source)
  next
    case False
    then have my: "m y = Some i" using y others by simp
    then have "unat i \<noteq> n"
      using links_others [OF l n x _ y(2) False] by simp
    then show ?thesis
      using links_held [OF l my y(2)] R [OF False] by (auto simp: bit_unset_source)
  qed
next
  fix k
  assume "bit (unset_bit n srcs) k"
  then have k: "bit srcs k" "k \<noteq> n"
    by (simp_all add: bit_unset_source)
  obtain y where y: "m y = Some (of_nat k)" "\<And>z. m z = Some (of_nat k) \<Longrightarrow> z = y"
    using links_holder [OF l k(1)] by metis
  have sk: "unat (of_nat k :: u32) = k" "(of_nat k :: u32) \<noteq> NO_SOURCE"
      "unat (of_nat n :: u32) = n"
    using small_source bit_source_less [OF k(1)] bit_source_less [OF n] by auto
  have ne: "(of_nat k :: u32) \<noteq> of_nat n"
    using source_eq bit_source_less [OF k(1)] bit_source_less [OF n] k(2) by simp
  then have "y \<noteq> x" using x y(1) by auto
  moreover have "z = y" if z: "m' z = Some (of_nat k)" for z
  proof -
    have "z \<noteq> x" using z own ne sk(2) by blast
    then show ?thesis using z others y(2) by simp
  qed
  ultimately show "\<exists>!z. m' z = Some (of_nat k)"
    using others y(1) by (metis (no_types))
qed

text \<open>Hardware sources without a claim can go.\<close>

lemma links_drop:
  assumes l: "links f R m srcs idx"
    and gone: "\<And>x. m' x \<noteq> m x \<Longrightarrow> m' x = None \<and> (\<forall>i. m x = Some i \<longrightarrow> i = NO_SOURCE \<or> x \<in> R)"
    and R: "\<And>x i. m' x = Some i \<Longrightarrow> i \<noteq> NO_SOURCE \<Longrightarrow> x \<in> R' \<longleftrightarrow> x \<in> R"
  shows "links f R' m' srcs idx"
proof (rule linksI)
  show "length idx = 256" by (rule links_length [OF l])
  fix x i
  assume x: "m' x = Some i" "i \<noteq> NO_SOURCE"
  then have "m x = Some i" using gone [of x] by (cases "m' x = m x") auto
  then show "unat i < 256 \<and> (if x \<in> R' then \<not> bit srcs (unat i)
      else bit srcs (unat i) \<and> idx ! unat i = f x)"
    using links_held [OF l _ x(2)] R [OF x] by simp
next
  fix n
  assume n: "bit srcs n"
  obtain x where x: "m x = Some (of_nat n)" "x \<notin> R" "\<And>y. m y = Some (of_nat n) \<Longrightarrow> y = x"
    using links_holder [OF l n] by metis
  have "(of_nat n :: u32) \<noteq> NO_SOURCE"
    using small_source bit_source_less [OF n] by auto
  then have "m' x = Some (of_nat n)"
    using gone [of x] x(1,2) by (cases "m' x = m x") auto
  moreover have "y = x" if "m' y = Some (of_nat n)" for y
    using that gone [of y] x(3) [of y] by (cases "m' y = m y") auto
  ultimately show "\<exists>!x. m' x = Some (of_nat n)" by blast
qed

end
