(* ===== verification/Source_System.thy ===== *)
theory Source_System
  imports Source_Links
begin

text \<open>
  The invariant of the pulse buffer with its data sources, and that the service calls keep it: the calls
  so far lead to the present buffer, every event source has one holder, and only pulses with a real time
  are marked as good. What a call of the service can change of the data sources is left out by
  \<open>husks\<close>: everything else is a function of the husks and stays.
\<close>

unbundle bit_operations_syntax

section \<open>Results of handlers\<close>

definition yields ::
    "(sms_error \<Rightarrow> bool) \<Rightarrow> (system \<Rightarrow> bool) \<Rightarrow> ('a \<Rightarrow> bool) \<Rightarrow> fault + 'a \<Rightarrow> bool" where
  "yields E T Q r \<longleftrightarrow> (case r of Inl (Crash e) \<Rightarrow> E e | Inl (Threw s) \<Rightarrow> T s | Inr x \<Rightarrow> Q x)"

lemma yields_simps [simp]:
  "yields E T Q (Inr x) \<longleftrightarrow> Q x" "yields E T Q (Inl (Threw s)) \<longleftrightarrow> T s"
  "yields E T Q (Inl (Crash e)) \<longleftrightarrow> E e"
  by (simp_all add: yields_def)

lemma yields_bind:
  "yields E T Q m \<Longrightarrow> (\<And>x. Q x \<Longrightarrow> yields E T Q' (f x)) \<Longrightarrow> yields E T Q' (sbind m f)"
  by (cases m) (auto simp: yields_def split: fault.splits)

lemma yields_mono:
  "yields E T Q r \<Longrightarrow> (\<And>e. E e \<Longrightarrow> E' e) \<Longrightarrow> (\<And>s. T s \<Longrightarrow> T' s) \<Longrightarrow> (\<And>x. Q x \<Longrightarrow> Q' x) \<Longrightarrow>
    yields E' T' Q' r"
  by (auto simp: yields_def split: sum.splits fault.splits)

abbreviation never :: "'a \<Rightarrow> bool" where "never \<equiv> (\<lambda>x. False)"

lemma yields_total: "yields never never Q r \<Longrightarrow> \<exists>x. r = Inr x \<and> Q x"
  by (auto simp: yields_def split: sum.splits fault.splits)

lemma yields_never: "yields never never Q r \<Longrightarrow> (\<And>x. Q x \<Longrightarrow> Q' x) \<Longrightarrow> yields E T Q' r"
  by (erule yields_mono) auto

section \<open>Husks\<close>

definition husk :: "hw_source \<Rightarrow> hw_source" where
  "husk hw = hw\<lparr>hs_pulseSeqList := List.map not_good (hs_pulseSeqList hw), hs_smsId := 0,
     hs_intermittent := False\<rparr>"

definition husk_source :: "data_source \<Rightarrow> data_source" where
  "husk_source D = D\<lparr>ds_hwSources := List.map (\<lambda>(h, hw). (h, husk hw)) (ds_hwSources D)\<rparr>"

definition husks :: "system \<Rightarrow> data_source list" where
  "husks s = List.map husk_source (sources s)"

lemma not_good_twice [simp]: "not_good (not_good e) = not_good e"
  by (cases e) (simp add: not_good_def)

lemma husk_suspend [simp]: "husk (suspend hw) = husk hw"
  by (simp add: husk_def suspend_def o_def)

lemma husk_set_good [simp]: "husk (set_good g n hw) = husk hw"
proof -
  have "List.map not_good (l[n := (\<lambda>(p, k). (p\<lparr>pi_pulseGood := g\<rparr>, k)) (l ! n)]) = List.map not_good l" for l
  proof (cases "n < length l")
    case True
    then have "not_good ((\<lambda>(p, k). (p\<lparr>pi_pulseGood := g\<rparr>, k)) (l ! n)) = List.map not_good l ! n"
      by (simp add: not_good_def split: prod.split)
    then show ?thesis using True by (simp add: map_update list_update_same_conv)
  qed (simp add: not_less list_update_beyond)
  then show ?thesis
    by (simp add: husk_def set_good_def)
qed

lemma husk_entries [simp]: "hs_pulseSeqList (husk hw) = List.map not_good (hs_pulseSeqList hw)"
  by (simp add: husk_def)

lemma length_husks [simp]: "length (husks s) = length (sources s)"
  by (simp add: husks_def)

lemma husks_nth: "d < length (sources s) \<Longrightarrow> husks s ! d = husk_source (source_at d s)"
  by (simp add: husks_def source_at_def)

lemma map_of_husk: "map_of (ds_hwSources (husk_source D)) h = map_option husk (map_of (ds_hwSources D) h)"
  by (simp add: husk_source_def map_of_map)

lemma fst_husk [simp]: "List.map fst (ds_hwSources (husk_source D)) = List.map fst (ds_hwSources D)"
  by (simp add: husk_source_def o_def case_prod_beta)

text \<open>The pulses of a hardware source, without the flag; none when there is no such source.\<close>

definition pulses_at :: "data_source list \<Rightarrow> nat \<Rightarrow> u32 \<Rightarrow> pulse_seq" where
  "pulses_at H d h =
     (if d < length H then (case map_of (ds_hwSources (H ! d)) h of None \<Rightarrow> [] | Some hw \<Rightarrow> hs_pulseSeqList hw)
      else [])"

lemma pulses_at_hw:
  "d < length (sources s) \<Longrightarrow> hw_at d h s = Some hw \<Longrightarrow>
    pulses_at (husks s) d h = List.map not_good (hs_pulseSeqList hw)"
  by (simp add: pulses_at_def husks_nth map_of_husk hw_at_def)

lemma pulses_atE:
  assumes "n < length (pulses_at (husks s) d h)"
  obtains hw where "d < length (sources s)" "hw_at d h s = Some hw" "n < length (hs_pulseSeqList hw)"
  using assms that by (auto simp: pulses_at_def husks_nth map_of_husk hw_at_def split: if_splits option.splits)

lemma entry_key_at:
  assumes "n < length (pulses_at (husks s) d h)"
  shows "entry_key (entry_at d h n s) = entry_key (pulses_at (husks s) d h ! n)"
proof -
  obtain hw where "d < length (sources s)" "hw_at d h s = Some hw" "n < length (hs_pulseSeqList hw)"
    using assms by (rule pulses_atE)
  then show ?thesis
    by (simp add: pulses_at_hw entry_at_def entry_key_def not_good_def split: prod.split)
qed

lemma hw_at_husks:
  assumes "husks s' = husks s" and "d < length (sources s)"
  shows "hw_at d h s' = None \<longleftrightarrow> hw_at d h s = None"
proof -
  have "length (sources s') = length (sources s)"
    using arg_cong [OF assms(1), of length] by simp
  then have "husk_source (source_at d s') = husk_source (source_at d s)"
    using husks_nth [of d s'] husks_nth [of d s] assms by simp
  from arg_cong [OF this, of "\<lambda>D. map_of (ds_hwSources D) h"] show ?thesis
    by (auto simp: map_of_husk hw_at_def)
qed

section \<open>Updates\<close>

lemma length_on_source [simp]: "length (sources (on_source d f s)) = length (sources s)"
  by (simp add: on_source_def)

lemma source_at_on_source:
  "d < length (sources s) \<Longrightarrow> source_at d' (on_source d f s) = (if d' = d then f (source_at d s) else source_at d' s)"
  by (auto simp: source_at_def on_source_def)

lemma on_source_fields [simp]:
  "ctrl (on_source d f s) = ctrl s" "calls (on_source d f s) = calls s"
  "ctrl (on_hw d h g s) = ctrl s" "calls (on_hw d h g s) = calls s"
  "length (sources (on_hw d h g s)) = length (sources s)"
  by (simp_all add: on_source_def on_hw_def)

lemma on_source_outside: "\<not> d < length (sources s) \<Longrightarrow> on_source d f s = s"
  by (simp add: on_source_def not_less list_update_beyond)

lemma hw_at_on_hw:
  "d < length (sources s) \<Longrightarrow> hw_at d' h' (on_hw d h f s) =
     (if d' = d \<and> h' = h then map_option f (hw_at d h s) else hw_at d' h' s)"
  by (simp add: hw_at_def on_hw_def source_at_on_source map_of_om_update)

lemma husks_on_source:
  "husk_source (f (source_at d s)) = husk_source (source_at d s) \<Longrightarrow> husks (on_source d f s) = husks s"
  by (cases "d < length (sources s)")
     (simp_all add: husks_def on_source_def source_at_def map_update list_update_same_conv
        list_update_beyond not_less)

lemma husks_on_hw:
  assumes "\<And>hw. husk (f hw) = husk hw"
  shows "husks (on_hw d h f s) = husks s"
  unfolding on_hw_def
  by (rule husks_on_source) (simp add: husk_source_def om_update_def assms split_def o_def if_distrib cong: if_cong)

section \<open>The invariant\<close>

definition ids :: "system \<Rightarrow> nat \<times> u32 \<Rightarrow> u32 option" where
  "ids s = (\<lambda>(d, h). if d < length (sources s) then map_option hs_smsId (hw_at d h s) else None)"

definition data_source_of :: "nat \<times> u32 \<Rightarrow> u32" where
  "data_source_of x = of_nat (fst x)"

abbreviation linked :: "(nat \<times> u32) set \<Rightarrow> system \<Rightarrow> bool" where
  "linked R s \<equiv> links data_source_of R (ids s) (m_eventSources (ctrl s)) (m_eventSourcesIndex (ctrl s))"

text \<open>A pulse time that the service takes: neither zero nor all ones.\<close>

definition sane :: "u64 \<Rightarrow> bool" where
  "sane pid \<longleftrightarrow> pid \<noteq> 0 \<and> pid \<noteq> - 1"

lemma sane_proper: "sane pid \<Longrightarrow> proper_key (pid, dup)"
  by (simp add: sane_def proper_key_def no_pid_def)

definition hw_ok :: "hw_source \<Rightarrow> bool" where
  "hw_ok hw \<longleftrightarrow> (hs_intermittent hw \<longrightarrow> hs_smsId hw = NO_SOURCE) \<and> (\<forall>e \<in> set (hs_pulseSeqList hw). pi_pulseGood (fst e) \<longrightarrow> sane (pi_pulseId (fst e)))"

definition source_ok :: "nat \<Rightarrow> data_source \<Rightarrow> bool" where
  "source_ok d D \<longleftrightarrow> om_ok (ds_hwSources D) \<and> ds_smsSourceId D = of_nat (Suc d) \<and>
     (\<forall>h hw. map_of (ds_hwSources D) h = Some hw \<longrightarrow> hw_ok hw)"

definition call_proper :: "sms_config \<Rightarrow> live_pvs \<times> call \<Rightarrow> bool" where
  "call_proper c = (\<lambda>(pv, op). (\<forall>k. call_key op = Some k \<longrightarrow> proper_key k) \<and> sound_call c op)"

definition traced :: "sms_config \<Rightarrow> buffer \<Rightarrow> system \<Rightarrow> bool" where
  "traced c b0 s \<longleftrightarrow> config_ok c \<and> buffer_ok b0 \<and> good_buffer c (ctrl s) \<and>
     run_calls c (calls s) b0 = Inr (ctrl s) \<and> list_all (call_proper c) (calls s)"

definition sys_ok :: "sms_config \<Rightarrow> buffer \<Rightarrow> (nat \<times> u32) set \<Rightarrow> system \<Rightarrow> bool" where
  "sys_ok c b0 R s \<longleftrightarrow> traced c b0 s \<and> linked R s \<and>
     length (sources s) < 4294967296 \<and> c_numDataSources c = of_nat (length (sources s)) \<and>
     (\<forall>d < length (sources s). source_ok d (source_at d s))"

lemma proper_real: "call_proper c e \<Longrightarrow> real_key e"
  unfolding call_proper_def real_key_def proper_key_def by (cases e) (simp only: prod.case, blast)

lemma run_calls_append:
  "run_calls c (ops @ ops') b = sbind (run_calls c ops b) (run_calls c ops')"
proof (induction ops arbitrary: b)
  case (Cons e ops)
  obtain pv op where "e = (pv, op)" by fastforce
  then show ?case
    using Cons.IH by (cases "apply_call c pv op b") simp_all
qed simp

lemma traced_ok:
  assumes "traced c b0 s"
  shows "buffer_ok (ctrl s)"
proof -
  have "list_all real_key (calls s)"
    using assms by (auto simp: traced_def list_all_iff intro: proper_real)
  then show ?thesis
    using assms steps_buffer_ok [OF steps_run] by (auto simp: traced_def)
qed

lemma sys_okD:
  assumes "sys_ok c b0 R s"
  shows "traced c b0 s" and "linked R s" and "buffer_ok (ctrl s)"
    and "d < length (sources s) \<Longrightarrow> source_ok d (source_at d s)"
    and "length (sources s) < 4294967296" and "c_numDataSources c = of_nat (length (sources s))"
  using assms traced_ok by (auto simp: sys_ok_def)

text \<open>Changes of one data source that leave its hardware sources alone, or of one hardware source.\<close>

lemma sys_ok_fields:
  assumes "sys_ok c b0 R s" and "ctrl s' = ctrl s" "calls s' = calls s" "sources s' = sources s"
  shows "sys_ok c b0 R s'"
proof -
  have "ids s' = ids s"
    using assms by (simp add: ids_def hw_at_def source_at_def fun_eq_iff)
  then show ?thesis
    using assms by (simp add: sys_ok_def traced_def source_at_def)
qed

lemma sys_ok_on_source:
  assumes ok: "sys_ok c b0 R s" and f: "\<And>D. D = source_at d s \<Longrightarrow> ds_hwSources (f D) = ds_hwSources D"
    "\<And>D. D = source_at d s \<Longrightarrow> ds_smsSourceId (f D) = ds_smsSourceId D"
  shows "sys_ok c b0 R (on_source d f s)"
proof (cases "d < length (sources s)")
  case True
  have "ids (on_source d f s) = ids s"
    using True f by (auto simp: ids_def hw_at_def source_at_on_source fun_eq_iff)
  then show ?thesis
    using ok True f by (simp add: sys_ok_def traced_def source_at_on_source source_ok_def)
qed (use ok on_source_outside in simp)

lemma sys_ok_on_hw:
  assumes ok: "sys_ok c b0 R s"
    and f: "\<And>hw. hw_at d h s = Some hw \<Longrightarrow> hs_smsId (f hw) = hs_smsId hw"
      "\<And>hw. hw_at d h s = Some hw \<Longrightarrow> hw_ok hw \<Longrightarrow> hw_ok (f hw)"
  shows "sys_ok c b0 R (on_hw d h f s)"
proof (cases "d < length (sources s)")
  case True
  have "ids (on_hw d h f s) = ids s"
    using True f(1) by (auto simp: ids_def hw_at_on_hw fun_eq_iff intro: option.map_cong0 split: option.split)
       (cases "hw_at d h s"; simp)
  moreover have "source_ok d' (source_at d' (on_hw d h f s))" if d': "d' < length (sources s)" for d'
  proof -
    have o: "source_ok d' (source_at d' s)"
      using sys_okD(4) [OF ok d'] .
    have "hw_ok hw" if "map_of (ds_hwSources (source_at d' (on_hw d h f s))) k = Some hw" for k hw
    proof -
      have "hw_at d' k (on_hw d h f s) = Some hw"
        using that by (simp add: hw_at_def)
      then show ?thesis
        using o f(2) True by (auto simp: hw_at_on_hw source_ok_def split: if_splits) (auto simp: hw_at_def)
    qed
    then show ?thesis
      using o True by (auto simp: source_ok_def on_hw_def source_at_on_source)
  qed
  ultimately show ?thesis
    using ok by (simp add: sys_ok_def traced_def)
qed (use ok on_source_outside in \<open>simp add: on_hw_def\<close>)

section \<open>Calls of the service\<close>

lemma suspend_first_update:
  assumes ok: "om_ok m" and h: "map_of m h = Some hw" "hs_smsId hw = i"
    and only: "\<And>h' hw'. map_of m h' = Some hw' \<Longrightarrow> hs_smsId hw' = i \<Longrightarrow> h' = h"
  shows "suspend_first i m = om_update h suspend m"
proof -
  obtain a b where m: "m = a @ (h, hw) # b" and fresh: "h \<notin> om_keys a" "h \<notin> om_keys b"
    by (rule om_split [OF ok h(1)])
  have skip: "suspend_first i (a @ (h, hw) # b) = a @ (h, suspend hw) # b"
    if "\<forall>e \<in> set a. hs_smsId (snd e) \<noteq> i" for a
    using that h(2) by (induction a) auto
  have "hs_smsId (snd e) \<noteq> i" if e: "e \<in> set a" for e
  proof -
    have "map_of m (fst e) = Some (snd e)"
      using e om_ok_distinct [OF ok] by (simp add: m)
    then show ?thesis
      using only e fresh(1) by force
  qed
  then show ?thesis
    by (simp add: m skip om_update_split fresh)
qed

lemma hw_ok_suspend: "hw_ok (suspend hw)"
  by (auto simp: hw_ok_def suspend_def not_good_def)

lemma ids_cong: "sources s' = sources s \<Longrightarrow> ids s' = ids s"
  by (simp add: ids_def hw_at_def source_at_def fun_eq_iff)

lemma ids_on_hw:
  "d < length (sources s) \<Longrightarrow> hw_at d h s = Some hw \<Longrightarrow>
    ids (on_hw d h f s) = (ids s)((d, h) \<mapsto> hs_smsId (f hw))"
  by (auto simp: ids_def hw_at_on_hw fun_eq_iff)

lemma source_ok_on_hw:
  assumes "\<forall>d < length (sources s). source_ok d (source_at d s)" and "\<And>hw. hw_ok hw \<Longrightarrow> hw_ok (f hw)"
  shows "\<forall>k < length (sources (on_hw d h f s)). source_ok k (source_at k (on_hw d h f s))"
proof (cases "d < length (sources s)")
  case True
  then show ?thesis
    using assms by (auto simp: source_ok_def on_hw_def source_at_on_source map_of_om_update split: if_splits)
next
  case False
  then have "on_hw d h f s = s"
    by (simp add: on_hw_def on_source_outside)
  then show ?thesis using assms(1) by simp
qed

lemma traced_step:
  assumes t: "traced c b0 s" and run: "apply_call c pv op (ctrl s) = Inr b" and p: "call_proper c (pv, op)"
    and s': "ctrl s' = b" "calls s' = calls s @ [(pv, op)]"
  shows "traced c b0 s'"
proof -
  have "proper_key k" if "call_key op = Some k" for k
    using p that unfolding call_proper_def by blast
  then have "good_buffer c b"
    using call_good [OF _ _ traced_ok [OF t] _ _ run] t p by (auto simp: traced_def call_proper_def)
  then show ?thesis
    using t run p s' by (simp add: traced_def run_calls_append)
qed

lemma setIntermittent_fields [simp]:
  "ctrl (setIntermittent e s) = ctrl s" "calls (setIntermittent e s) = calls s"
  by (simp_all add: setIntermittent_def split: prod.split)

lemma control_plain:
  assumes ok: "sys_ok c b0 R s" and plain: "plain_call op" and key: "call_proper c (pv, op)"
  shows "yields never never (\<lambda>s'. sys_ok c b0 R s' \<and> husks s' = husks s) (control c pv op s)"
proof -
  note b = sys_okD(3) [OF ok]
  have k: "proper_key k" if "call_key op = Some k" for k
    using key that unfolding call_proper_def by blast
  show ?thesis
  proof (cases "apply_call c pv op (ctrl s)")
    case (Inl e)
    have "sound_call c op" "config_ok c" "good_buffer c (ctrl s)"
      using key sys_okD(1) [OF ok] by (auto simp: call_proper_def traced_def)
    then show ?thesis
      using call_total [OF b k plain, of c pv] Inl by simp
  next
    case (Inr b')
    let ?t = "s\<lparr>ctrl := b', calls := calls s @ [(pv, op)]\<rparr>"
    have plain': "op \<noteq> Register i" "op \<noteq> Unregister i" for i
      using plain by auto
    from call_registry [OF b k plain' Inr] have "registry b' = registry (ctrl s) \<or>
        (\<exists>n. gives_up c (registry (ctrl s)) n (registry b'))"
      by (simp add: may_give_up_def)
    then show ?thesis
    proof
      assume same: "registry b' = registry (ctrl s)"
      then have "called pv op b' s = ?t"
        by (simp add: called_def registry_def)
      moreover have "sys_ok c b0 R ?t"
        using ok same traced_step [OF sys_okD(1) [OF ok] Inr key, of ?t] ids_cong [of ?t s]
        by (simp add: sys_ok_def registry_def source_at_def)
      ultimately show ?thesis
        by (simp add: control_def Inr husks_def)
    next
      assume "\<exists>n. gives_up c (registry (ctrl s)) n (registry b')"
      then obtain n where n: "bit (m_eventSources (ctrl s)) n" "n < 256"
        and reg: "m_eventSources b' = unset_bit n (m_eventSources (ctrl s))"
          "m_eventSourcesIndex b' = (m_eventSourcesIndex (ctrl s))[n := - 1]"
          "intermittent b' = intermittent (ctrl s) @ [(m_eventSourcesIndex (ctrl s) ! n, of_nat n)]"
        by (auto simp: gives_up_def registry_def)
      note l = sys_okD(2) [OF ok]
      obtain x where x: "ids s x = Some (of_nat n)" "m_eventSourcesIndex (ctrl s) ! n = data_source_of x"
        "\<And>y. ids s y = Some (of_nat n) \<Longrightarrow> y = x"
        using links_holder [OF l n(1)] by metis
      obtain d h where dh: "x = (d, h)" by fastforce
      obtain hw where d: "d < length (sources s)" and hw: "hw_at d h s = Some hw" "hs_smsId hw = of_nat n"
        using x(1) by (auto simp: dh ids_def split: if_splits)
      have src: "unat (m_eventSourcesIndex (ctrl s) ! n) = d"
        using d sys_okD(5) [OF ok] by (simp add: x(2) dh data_source_of_def unat_of_nat_u32)
      have only: "h' = h" if "map_of (ds_hwSources (source_at d s)) h' = Some hw'" "hs_smsId hw' = of_nat n" for h' hw'
        using x(3) [of "(d, h')"] that d by (simp add: dh ids_def hw_at_def)
      have om: "om_ok (ds_hwSources (source_at d s))"
        using sys_okD(4) [OF ok d] by (simp add: source_ok_def)
      have first: "suspend_first (of_nat n) (ds_hwSources (source_at d s)) =
          om_update h suspend (ds_hwSources (source_at d s))"
        by (rule suspend_first_update [OF om _ hw(2) only]) (use hw(1) in \<open>simp_all add: hw_at_def\<close>)
      have call: "called pv op b' s = on_hw d h suspend ?t"
        using src first by (simp add: called_def reg(3) setIntermittent_def on_hw_def on_source_def source_at_def)
      have ids': "ids (on_hw d h suspend ?t) = (ids s)(x \<mapsto> NO_SOURCE)"
        using d hw(1) ids_cong [of ?t s] by (subst ids_on_hw) (simp_all add: dh hw_at_def source_at_def suspend_def)
      have "links data_source_of R ((ids s)(x \<mapsto> NO_SOURCE)) (unset_bit n (m_eventSources (ctrl s)))
          ((m_eventSourcesIndex (ctrl s))[n := - 1])"
        by (rule links_give_up [OF l n(1) x(1)]) auto
      then have "sys_ok c b0 R (on_hw d h suspend ?t)"
        using sys_okD(5,6) [OF ok] source_ok_on_hw [of ?t suspend d h] sys_okD(4) [OF ok] hw_ok_suspend
          traced_step [OF sys_okD(1) [OF ok] Inr key, of "on_hw d h suspend ?t"]
        by (simp add: sys_ok_def ids' reg source_at_def)
      moreover have "husks (on_hw d h suspend ?t) = husks s"
        by (subst husks_on_hw) (simp_all add: husks_def)
      ultimately show ?thesis
        by (simp add: control_def Inr call)
    qed
  qed
qed

lemma control_unregister:
  assumes ok: "sys_ok c b0 R s" and x: "ids s x = Some i" "i \<noteq> NO_SOURCE" "x \<notin> R"
  shows "yields never never (\<lambda>s'. sys_ok c b0 (insert x R) s' \<and> husks s' = husks s) (control c pv (Unregister i) s)"
proof -
  note l = sys_okD(2) [OF ok]
  have i: "unat i < 256" "bit (m_eventSources (ctrl s)) (unat i)"
    using links_held [OF l x(1,2)] x(3) by simp_all
  obtain b' where b': "unregisterEventSource c pv i (ctrl s) = Inr b'"
    "registry b' = without (unat i) (registry (ctrl s))"
    by (rule unregister_total [OF i(1)])
  let ?t = "s\<lparr>ctrl := b', calls := calls s @ [(pv, Unregister i)]\<rparr>"
  have call: "called pv (Unregister i) b' s = ?t"
    using b'(2) by (simp add: called_def registry_def without_def)
  have "links data_source_of (insert x R) (ids s) (unset_bit (unat i) (m_eventSources (ctrl s)))
      ((m_eventSourcesIndex (ctrl s))[unat i := - 1])"
    by (rule links_give_up [OF l i(2), of x]) (use x in simp_all)
  then have "sys_ok c b0 (insert x R) ?t"
    using ok b' traced_step [OF sys_okD(1) [OF ok], of pv "Unregister i" b' ?t] ids_cong [of ?t s]
    by (simp add: sys_ok_def registry_def without_def source_at_def call_proper_def)
  then show ?thesis
    by (simp add: control_def b'(1) call husks_def)
qed

lemma control_key:
  assumes "sys_ok c b0 R s" and "plain_call op" and "call_key op = Some k" and "proper_key k" and "sound_call c op"
  shows "yields never never (\<lambda>s'. sys_ok c b0 R s' \<and> husks s' = husks s) (control c pv op s)"
proof -
  have "call_proper c (pv, op)"
    using assms(3-5) unfolding call_proper_def by (cases k) simp
  then show ?thesis
    by (rule control_plain [OF assms(1,2)])
qed

lemma names_held: "sys_ok c b0 R s \<Longrightarrow> d < length (sources s) \<Longrightarrow> hw_at d h s = Some hw \<Longrightarrow> names_source (hs_smsId hw)"
  using links_held(1) [OF sys_okD(2), of c b0 R s "(d, h)" "hs_smsId hw"]
  by (auto simp: names_source_def ids_def)

text \<open>A new event source: the buffer knows it before its hardware source does.\<close>

lemma register_ok:
  assumes ok: "sys_ok c b0 {} s" and d: "d < length (sources s)"
    and run: "register pv (ds_smsSourceId (source_at d s)) s = Inr (i, s')"
  shows "traced c b0 s'" and "sources s' = sources s"
    and "(\<And>i'. ids s (d, h) = Some i' \<Longrightarrow> i' = NO_SOURCE) \<Longrightarrow>
      links data_source_of {} ((ids s)((d, h) \<mapsto> i)) (m_eventSources (ctrl s')) (m_eventSourcesIndex (ctrl s'))"
proof -
  have id: "ds_smsSourceId (source_at d s) - 1 = of_nat d"
    using sys_okD(4) [OF ok d] by (simp add: source_ok_def)
  obtain n where n: "free_source (m_eventSources (ctrl s)) = Some n"
    using run by (auto simp: register_def registerEventSource_def split: option.splits)
  define b where "b = (if m_noRegisteredEventSources (ctrl s)
    then (ctrl s)\<lparr>m_noRegisteredEventSourcesCount := 0, m_noRegisteredEventSources := False\<rparr> else ctrl s)"
  define b' where "b' = b\<lparr>m_eventSources := set_bit n (m_eventSources b),
    m_eventSourcesIndex := (m_eventSourcesIndex b)[n := of_nat d]\<rparr>"
  have b: "m_eventSources b = m_eventSources (ctrl s)" "m_eventSourcesIndex b = m_eventSourcesIndex (ctrl s)"
    "intermittent b = intermittent (ctrl s)"
    by (simp_all add: b_def)
  have reg: "registerEventSource (ds_smsSourceId (source_at d s)) (ctrl s) = Inr (of_nat n, b')"
    by (simp add: registerEventSource_def n b'_def b_def Let_def id)
  have s': "i = of_nat n" "s' = s\<lparr>ctrl := b', calls := calls s @ [(pv, Register (ds_smsSourceId (source_at d s)))]\<rparr>"
    using run by (simp_all add: register_def reg called_def b'_def b)
  show "sources s' = sources s" by (simp add: s')
  show "traced c b0 s'"
    by (rule traced_step [OF sys_okD(1) [OF ok], of pv "Register (ds_smsSourceId (source_at d s))" b'])
       (simp_all add: reg s' call_proper_def)
  assume free: "\<And>i'. ids s (d, h) = Some i' \<Longrightarrow> i' = NO_SOURCE"
  show "links data_source_of {} ((ids s)((d, h) \<mapsto> i)) (m_eventSources (ctrl s')) (m_eventSourcesIndex (ctrl s'))"
    using links_register [OF sys_okD(2) [OF ok], of n "(d, h)"] free_source_less [OF n] free
    by (simp add: s' b'_def b data_source_of_def)
qed

end
