(* ===== verification/Source_Handlers.thy ===== *)
theory Source_Handlers
  imports Source_System
begin

text \<open>
  Every handler of a data source keeps the invariant of the system and the lists of pulses tidy: no list
  is longer than allowed, and the cached latest time is the latest in the list.
\<close>

unbundle bit_operations_syntax

section \<open>Tidy lists\<close>

definition newest_time :: "pulse_seq \<Rightarrow> u64" where
  "newest_time l = fold (\<lambda>e m. if pi_pulseId (fst e) > m then pi_pulseId (fst e) else m) l 0"

lemma later_max: "(if x > m then x else m) = max m (x :: u64)"
  by (auto simp: max_def)

lemma zero_max: "max 0 x = (x :: u64)"
  by (simp add: max_def)

lemma newest_fold: "fold (\<lambda>e m. max m (pi_pulseId (fst e))) l a = max a (newest_time l)"
proof (induction l arbitrary: a)
  case (Cons e l)
  have "newest_time (e # l) = max (max 0 (pi_pulseId (fst e))) (newest_time l)"
    unfolding newest_time_def [of "e # l"] later_max by (simp add: Cons.IH)
  then show ?case
    by (simp add: Cons.IH zero_max max.assoc)
qed (simp add: newest_time_def max_def)

lemma newest_simps [simp]:
  "newest_time [] = 0" "newest_time (e # l) = max (pi_pulseId (fst e)) (newest_time l)"
  "newest_time (l @ l') = max (newest_time l) (newest_time l')"
proof -
  show nil: "newest_time [] = 0" by (simp add: newest_time_def)
  show cons: "newest_time (e # l) = max (pi_pulseId (fst e)) (newest_time l)" for e l
    unfolding newest_time_def [of "e # l"] later_max by (simp add: newest_fold zero_max)
  show "newest_time (l @ l') = max (newest_time l) (newest_time l')"
    by (induction l) (simp_all add: cons nil zero_max max.assoc)
qed

lemma time_not_good [simp]: "pi_pulseId (fst (not_good e)) = pi_pulseId (fst e)"
  by (simp add: not_good_def split: prod.split)

lemma newest_not_good [simp]: "newest_time (List.map not_good l) = newest_time l"
  by (induction l) simp_all

text \<open>A list with \<open>k\<close> pulses too many.\<close>

definition loose :: "nat \<Rightarrow> hw_source \<Rightarrow> bool" where
  "loose k hw \<longleftrightarrow> 1 \<le> unat (hs_maxPulseSeqList hw) \<and>
     length (hs_pulseSeqList hw) - unat (hs_maxPulseSeqList hw) = k \<and>
     hs_lastPulse hw = newest_time (hs_pulseSeqList hw)"

lemma loose_husk [simp]: "loose k (husk hw) = loose k hw"
  by (simp add: loose_def husk_def)

definition unwatched :: "data_source \<Rightarrow> bool" where
  "unwatched D \<longleftrightarrow> (ds_state D = IDLE \<longrightarrow> \<not> ds_fdreg D)"

definition tidy :: "(nat \<times> u32) set \<Rightarrow> system \<Rightarrow> bool" where
  "tidy R s \<longleftrightarrow> (\<forall>d < length (sources s). unwatched (source_at d s) \<and>
     (\<forall>h hw. (d, h) \<notin> R \<longrightarrow> hw_at d h s = Some hw \<longrightarrow> loose 0 hw))"

lemma tidyD:
  "tidy R s \<Longrightarrow> d < length (sources s) \<Longrightarrow> unwatched (source_at d s)"
  "tidy R s \<Longrightarrow> d < length (sources s) \<Longrightarrow> (d, h) \<notin> R \<Longrightarrow> hw_at d h s = Some hw \<Longrightarrow> loose 0 hw"
  by (auto simp: tidy_def)

lemma husks_length: "husks s' = husks s \<Longrightarrow> length (sources s') = length (sources s)"
  by (drule arg_cong [of _ _ length]) simp

lemma tidy_mono: "tidy R s \<Longrightarrow> R \<subseteq> R' \<Longrightarrow> tidy R' s"
  by (auto simp: tidy_def)

lemma tidy_fields: "tidy R s \<Longrightarrow> sources s' = sources s \<Longrightarrow> tidy R s'"
  by (simp add: tidy_def hw_at_def source_at_def)

lemma husks_source:
  assumes "husks s' = husks s" and "d < length (sources s)"
  shows "husk_source (source_at d s') = husk_source (source_at d s)"
proof -
  have "length (sources s') = length (sources s)"
    using husks_length [OF assms(1)] .
  then show ?thesis
    using husks_nth [of d s'] husks_nth [of d s] assms by simp
qed

lemma husks_hw:
  assumes "husks s' = husks s" and "d < length (sources s)" and "hw_at d h s' = Some hw'"
  obtains hw where "hw_at d h s = Some hw" "husk hw' = husk hw"
proof -
  have "map_option husk (hw_at d h s') = map_option husk (hw_at d h s)"
    using arg_cong [OF husks_source [OF assms(1,2)], of "\<lambda>D. map_of (ds_hwSources D) h"]
    by (simp add: map_of_husk hw_at_def)
  then show ?thesis
    using assms(3) that by (cases "hw_at d h s") auto
qed

lemma tidy_husks:
  assumes "husks s' = husks s" and "tidy R s"
  shows "tidy R s'"
  unfolding tidy_def
proof (intro allI impI conjI)
  have len: "length (sources s') = length (sources s)"
    using husks_length [OF assms(1)] .
  fix d assume "d < length (sources s')"
  then have d: "d < length (sources s)" by (simp add: len)
  show "unwatched (source_at d s')"
    using tidyD(1) [OF assms(2) d] arg_cong [OF husks_source [OF assms(1) d], of ds_state]
      arg_cong [OF husks_source [OF assms(1) d], of ds_fdreg]
    by (simp add: unwatched_def husk_source_def)
  fix h hw' assume h: "(d, h) \<notin> R" "hw_at d h s' = Some hw'"
  obtain hw where "hw_at d h s = Some hw" "husk hw' = husk hw"
    by (rule husks_hw [OF assms(1) d h(2)])
  then show "loose 0 hw'"
    using tidyD(2) [OF assms(2) d h(1)] loose_husk by metis
qed

lemma tidy_on_source:
  assumes "tidy R s" and "ds_hwSources (f (source_at d s)) = ds_hwSources (source_at d s)"
    and "unwatched (source_at d s) \<Longrightarrow> unwatched (f (source_at d s))"
  shows "tidy R (on_source d f s)"
proof (cases "d < length (sources s)")
  case True
  then show ?thesis
    using assms by (auto simp: tidy_def source_at_on_source hw_at_def)
qed (use assms on_source_outside in simp)

lemma tidy_on_hw:
  assumes "tidy R s" and "\<And>hw. hw_at d h s = Some hw \<Longrightarrow> (d, h) \<notin> R \<Longrightarrow> loose 0 hw \<Longrightarrow> loose 0 (f hw)"
  shows "tidy R (on_hw d h f s)"
proof (cases "d < length (sources s)")
  case True
  then show ?thesis
    using assms by (auto simp: tidy_def hw_at_on_hw on_hw_def source_at_on_source unwatched_def)
       (auto simp: hw_at_on_hw [unfolded on_hw_def] split: if_splits)
next
  case False
  then show ?thesis using assms(1) by (simp add: on_hw_def on_source_outside)
qed

section \<open>Finishing pulses\<close>

lemma hw_ok_set_good:
  assumes "hw_ok hw" and "g \<Longrightarrow> n < length (hs_pulseSeqList hw) \<Longrightarrow> sane (pi_pulseId (fst (hs_pulseSeqList hw ! n)))"
  shows "hw_ok (set_good g n hw)"
proof (cases "n < length (hs_pulseSeqList hw)")
  case True
  have "sane (pi_pulseId (fst e))"
    if e: "e \<in> set (hs_pulseSeqList (set_good g n hw))" "pi_pulseGood (fst e)" for e
  proof -
    obtain p k where pk: "hs_pulseSeqList hw ! n = (p, k)" by fastforce
    from e(1) have "e = (p\<lparr>pi_pulseGood := g\<rparr>, k) \<or> e \<in> set (hs_pulseSeqList hw)"
      using set_update_subset_insert by (fastforce simp: set_good_def pk)
    then show ?thesis
      using assms True e(2) by (auto simp: hw_ok_def pk)
  qed
  then show ?thesis
    using assms(1) by (simp add: hw_ok_def set_good_def)
qed (use assms in \<open>simp add: set_good_def list_update_beyond not_less\<close>)

definition keeps_husks :: "sms_config \<Rightarrow> buffer \<Rightarrow> (nat \<times> u32) set \<Rightarrow> data_source list \<Rightarrow> system \<Rightarrow> bool" where
  "keeps_husks c b0 R H s \<longleftrightarrow> sys_ok c b0 R s \<and> husks s = H"

lemma control_keeps:
  assumes "keeps_husks c b0 R H s" and "plain_call op" and "call_key op = Some k" and "proper_key k"
    and "sound_call c op"
  shows "yields never never (keeps_husks c b0 R H) (control c pv op s)"
  using control_key [OF _ assms(2-5), of b0 R s pv] assms(1) by (auto simp: keeps_husks_def [abs_def])

lemma finish_entry_ok:
  assumes ok: "keeps_husks c b0 R H s" and n: "n < length (pulses_at H d h)"
  shows "yields never never (keeps_husks c b0 R H) (finish_entry c pv d h part n s)"
proof (cases "pi_pulseGood (fst (entry_at d h n s))")
  case False
  then show ?thesis using ok by (simp add: finish_entry_def Let_def)
next
  case True
  let ?k = "entry_key (entry_at d h n s)"
  note ok' = ok [unfolded keeps_husks_def]
  obtain hw where d: "d < length (sources s)" and hw: "hw_at d h s = Some hw" "n < length (hs_pulseSeqList hw)"
    using n ok' by (auto elim: pulses_atE [of n s d h])
  have "hw_ok hw"
    using sys_okD(4) [of c b0 R s d] d hw(1) ok' by (auto simp: source_ok_def hw_at_def)
  then have "sane (pi_pulseId (fst (entry_at d h n s)))"
    using hw True nth_mem [OF hw(2)] unfolding hw_ok_def entry_at_def by simp
  then have k: "proper_key ?k"
    by (simp add: entry_key_def sane_proper)
  have one: "yields never never (keeps_husks c b0 R H)
      (if part then control c pv (Partial ?k) s else Inr s)"
    using control_keeps [OF ok, of "Partial ?k" ?k pv] k ok by simp
  have two: "yields never never (keeps_husks c b0 R H)
      (control c pv (Complete ?k (hs_smsId (the (hw_at d h s1)))) s1)" if s1: "keeps_husks c b0 R H s1" for s1
  proof -
    have "n < length (pulses_at (husks s1) d h)"
      using n s1 by (simp add: keeps_husks_def)
    then obtain hw1 where "d < length (sources s1)" "hw_at d h s1 = Some hw1"
      by (rule pulses_atE)
    then have "names_source (hs_smsId (the (hw_at d h s1)))"
      using names_held s1 by (auto simp: keeps_husks_def)
    then show ?thesis
      using control_keeps [OF s1, of "Complete ?k (hs_smsId (the (hw_at d h s1)))" ?k pv] k by simp
  qed
  have three: "keeps_husks c b0 R H (on_hw d h (set_good False n) s2)" if "keeps_husks c b0 R H s2" for s2
    using that by (auto simp: keeps_husks_def husks_on_hw intro!: sys_ok_on_hw hw_ok_set_good) (simp add: set_good_def)
  have run: "finish_entry c pv d h part n s =
      sbind (if part then control c pv (Partial ?k) s else Inr s) (\<lambda>s1.
        sbind (control c pv (Complete ?k (hs_smsId (the (hw_at d h s1)))) s1) (\<lambda>s2.
          Inr (on_hw d h (set_good False n) s2)))"
    using True by (simp add: finish_entry_def Let_def)
  show ?thesis
    unfolding run by (rule yields_bind [OF one], rule yields_bind [OF two]) (simp_all add: three)
qed

lemma finish_older_ok:
  "keeps_husks c b0 R H s \<Longrightarrow> k = 0 \<or> n + k < length (pulses_at H d h) \<Longrightarrow>
    yields never never (keeps_husks c b0 R H) (finish_older c pv d h n k s)"
proof (induction k arbitrary: s)
  case (Suc k)
  show ?case
    unfolding finish_older.simps
    by (rule yields_bind [OF finish_entry_ok [OF Suc.prems(1)]]) (use Suc in auto)
qed simp

lemma endPulse_ok:
  assumes ok: "keeps_husks c b0 R H s" and n: "n < length (pulses_at H d h)"
  shows "yields never never (keeps_husks c b0 R H) (endPulse c pv d h eop n s)"
proof (cases eop)
  case True
  obtain hw where "d < length (sources s)" "hw_at d h s = Some hw"
    using n ok by (auto simp: keeps_husks_def elim: pulses_atE [of n s d h])
  then have "length (pulses_at H d h) = length (hs_pulseSeqList (the (hw_at d h s)))"
    using ok pulses_at_hw [of d s h hw] by (simp add: keeps_husks_def)
  then show ?thesis
    using True n by (auto simp: endPulse_def intro!: yields_bind [OF finish_older_ok [OF ok]] finish_entry_ok)
next
  case False
  then show ?thesis
    using finish_entry_ok [OF assms] by (simp add: endPulse_def)
qed

section \<open>Looking up a pulse\<close>

definition good_state :: "sms_config \<Rightarrow> buffer \<Rightarrow> system \<Rightarrow> bool" where
  "good_state c b0 s \<longleftrightarrow> sys_ok c b0 {} s \<and> tidy {} s"

text \<open>The state, with an entry \<open>n\<close> of the time \<open>pid\<close> in a hardware source.\<close>

definition at_pulse :: "sms_config \<Rightarrow> buffer \<Rightarrow> nat \<Rightarrow> u32 \<Rightarrow> nat \<Rightarrow> u64 \<Rightarrow> system \<Rightarrow> bool" where
  "at_pulse c b0 d h n pid s \<longleftrightarrow> good_state c b0 s \<and> n < length (pulses_at (husks s) d h) \<and>
     pi_pulseId (fst (pulses_at (husks s) d h ! n)) = pid"

lemma fix_last_pulse_fields [simp]:
  "hs_pulseSeqList (fix_last_pulse hw) = hs_pulseSeqList hw" "hs_smsId (fix_last_pulse hw) = hs_smsId hw"
  "hs_intermittent (fix_last_pulse hw) = hs_intermittent hw"
  "hs_maxPulseSeqList (fix_last_pulse hw) = hs_maxPulseSeqList hw"
  by (simp_all add: fix_last_pulse_def)

lemma fix_last_pulse_newest:
  assumes "hs_pulseSeqList hw \<noteq> []" and "hs_lastPulse hw = newest_time (hs_pulseSeqList hw)"
  shows "hs_lastPulse (fix_last_pulse hw) = newest_time (butlast (hs_pulseSeqList hw))"
proof -
  have "hs_pulseSeqList hw = butlast (hs_pulseSeqList hw) @ [last (hs_pulseSeqList hw)]"
    using assms(1) by simp
  then have "newest_time (hs_pulseSeqList hw) =
      max (newest_time (butlast (hs_pulseSeqList hw))) (pi_pulseId (fst (last (hs_pulseSeqList hw))))"
    by (metis newest_simps max.commute zero_max)
  then show ?thesis
    using assms(2) by (auto simp: fix_last_pulse_def newest_time_def [symmetric] max_def)
qed

lemma hw_at_length: "hw_at d h s = Some hw \<Longrightarrow> d < length (sources s) \<Longrightarrow>
    length (pulses_at (husks s) d h) = length (hs_pulseSeqList hw)"
  by (simp add: pulses_at_hw)

lemma tidy_grow: "tidy {(d, h)} s \<Longrightarrow> hw_at d h s = Some hw \<Longrightarrow> loose 0 hw \<Longrightarrow> tidy {} s"
  unfolding tidy_def by (metis (no_types, lifting) empty_iff insert_iff option.inject prod.inject)

lemma hw_ok_drop: "hw_ok hw \<Longrightarrow> hw_ok (drop_oldest hw)"
  by (auto simp: hw_ok_def drop_oldest_def) (metis fst_conv in_set_butlastD)+

lemma pop_oldest_ok:
  "sys_ok c b0 {} s \<Longrightarrow> tidy {(d, h)} s \<Longrightarrow> d < length (sources s) \<Longrightarrow> hw_at d h s = Some hw \<Longrightarrow> loose k hw \<Longrightarrow>
    yields never never (\<lambda>s'. good_state c b0 s' \<and>
      pulses_at (husks s') d h = take (length (hs_pulseSeqList hw) - k) (pulses_at (husks s) d h))
      (pop_oldest c pv d h k s)"
proof (induction k arbitrary: s hw)
  case 0
  then show ?case
    using tidy_grow [OF 0(2,4,5)] by (simp add: good_state_def pulses_at_hw)
next
  case (Suc k)
  let ?l = "hs_pulseSeqList hw"
  let ?s1 = "on_hw d h fix_last_pulse s"
  have l: "?l \<noteq> []" "hs_lastPulse hw = newest_time ?l" "length ?l - unat (hs_maxPulseSeqList hw) = Suc k"
    "1 \<le> unat (hs_maxPulseSeqList hw)"
    using Suc.prems(5) by (auto simp: loose_def)
  have hw1: "hw_at d h ?s1 = Some (fix_last_pulse hw)"
    using Suc.prems(3,4) by (simp add: hw_at_on_hw)
  have ok1: "sys_ok c b0 {} ?s1" "tidy {(d, h)} ?s1"
    using Suc.prems(1,2) by (auto intro!: sys_ok_on_hw tidy_on_hw simp: hw_ok_def)
  have n: "length ?l - 1 < length (pulses_at (husks ?s1) d h)"
    using hw_at_length [OF hw1] Suc.prems(3) l(1) by simp
  have pop: "pop_oldest c pv d h (Suc k) s =
      sbind (endPulse c pv d h False (length ?l - 1) ?s1) (\<lambda>s2. pop_oldest c pv d h k (on_hw d h drop_oldest s2))"
    by (simp add: hw1)
  have rest: "yields never never (\<lambda>s'. good_state c b0 s' \<and>
      pulses_at (husks s') d h = take (length ?l - Suc k) (pulses_at (husks s) d h))
      (pop_oldest c pv d h k (on_hw d h drop_oldest s2))" if s2: "keeps_husks c b0 {} (husks ?s1) s2" for s2
  proof -
    let ?s3 = "on_hw d h drop_oldest s2"
    have len: "length (sources s2) = length (sources s)"
      using s2 husks_length [of s2 ?s1] by (simp add: keeps_husks_def)
    have "hw_at d h s2 \<noteq> None"
      using s2 hw_at_husks [of s2 ?s1 d h] hw1 Suc.prems(3) by (simp add: keeps_husks_def)
    then obtain hw2 where hw2: "hw_at d h s2 = Some hw2" by blast
    have same: "husk hw2 = husk (fix_last_pulse hw)"
      using s2 hw1 Suc.prems(3) by (auto simp: keeps_husks_def elim: husks_hw [OF _ _ hw2])
    have f: "length (hs_pulseSeqList hw2) = length ?l" "hs_maxPulseSeqList hw2 = hs_maxPulseSeqList hw"
      "hs_lastPulse hw2 = newest_time (butlast ?l)"
      "List.map not_good (hs_pulseSeqList hw2) = List.map not_good ?l"
      using arg_cong [OF same, of "\<lambda>w. length (hs_pulseSeqList w)"] arg_cong [OF same, of hs_maxPulseSeqList]
        arg_cong [OF same, of hs_lastPulse] arg_cong [OF same, of hs_pulseSeqList]
        fix_last_pulse_newest [OF l(1,2)] by (simp_all add: husk_def)
    have "newest_time (butlast (hs_pulseSeqList hw2)) = newest_time (butlast ?l)"
      using arg_cong [OF f(4), of "\<lambda>l. newest_time (butlast l)"] by (simp add: map_butlast [symmetric])
    then have lo: "loose k (drop_oldest hw2)"
      using f l by (simp add: loose_def drop_oldest_def)
    have hw3: "hw_at d h ?s3 = Some (drop_oldest hw2)"
      using hw2 len Suc.prems(3) by (simp add: hw_at_on_hw)
    have "sys_ok c b0 {} ?s3"
      using s2 by (auto intro!: sys_ok_on_hw simp: keeps_husks_def hw_ok_drop) (simp add: drop_oldest_def)
    moreover have "tidy {(d, h)} ?s3"
      using s2 tidy_husks [OF _ ok1(2), of s2] by (auto intro!: tidy_on_hw simp: keeps_husks_def)
    moreover have "pulses_at (husks ?s3) d h = butlast (pulses_at (husks s) d h)"
      using hw3 Suc.prems(3,4) len f(4) by (simp add: pulses_at_hw drop_oldest_def map_butlast)
    then have "take (length (hs_pulseSeqList (drop_oldest hw2)) - k) (pulses_at (husks ?s3) d h) =
        take (length ?l - Suc k) (pulses_at (husks s) d h)"
      using Suc.prems(3,4) f(1) by (simp add: pulses_at_hw drop_oldest_def butlast_conv_take)
    ultimately show ?thesis
      using Suc.IH [OF _ _ _ hw3 lo] len Suc.prems(3) by simp
  qed
  show ?case
    unfolding pop by (rule yields_bind [OF endPulse_ok [OF _ n] rest]) (simp_all add: keeps_husks_def ok1)
qed

lemma find_pulse_some: "find_pulse p l = Some n \<Longrightarrow> n < length l \<and> same_pulse (fst (l ! n)) p"
  by (induction p l arbitrary: n rule: find_pulse.induct) (auto split: option.splits if_splits)

lemma poll_max_list_ok:
  fixes ev d h s
  defines "s' \<equiv> poll_max_list ev d h s"
  assumes ok: "sys_ok c b0 R s" "tidy {(d, h)} s" and d: "d < length (sources s)" and hw: "hw_at d h s = Some hw"
    and lo: "loose k hw"
  shows "\<exists>hw' k'. sys_ok c b0 R s' \<and> tidy {(d, h)} s' \<and> d < length (sources s') \<and> hw_at d h s' = Some hw' \<and>
    loose k' hw' \<and> hs_pulseSeqList hw' = hs_pulseSeqList hw"
proof -
  let ?s1 = "s\<lparr>getPulse_calls := getPulse_calls s + 1\<rparr>"
  let ?v = "pv_maxPulseSeqList (e_source ev)"
  let ?f = "\<lambda>hw. hw\<lparr>hs_maxPulseSeqList := (if ?v < 1 then 1 else ?v)\<rparr>"
  let ?s2 = "on_source d (\<lambda>D. D\<lparr>ds_max_pulse_seq_list := ?v\<rparr>) ?s1"
  have s1: "sys_ok c b0 R ?s1" "tidy {(d, h)} ?s1" "d < length (sources ?s1)" "hw_at d h ?s1 = Some hw"
    using sys_ok_fields [OF ok(1), of ?s1] tidy_fields [OF ok(2), of ?s1] d hw
    by (simp_all add: hw_at_def source_at_def)
  have "sys_ok c b0 R ?s2" "tidy {(d, h)} ?s2"
    by (rule sys_ok_on_source [OF s1(1)]; simp) (rule tidy_on_source [OF s1(2)]; simp add: unwatched_def)
  then have s3: "sys_ok c b0 R (on_hw d h ?f ?s2)" "tidy {(d, h)} (on_hw d h ?f ?s2)"
    by (auto intro!: sys_ok_on_hw tidy_on_hw simp: hw_ok_def)
  have hw3: "hw_at d h (on_hw d h ?f ?s2) = Some (?f hw)"
    using d s1(4) by (simp add: hw_at_on_hw) (simp add: hw_at_def source_at_on_source)
  have "1 \<le> unat (if ?v < 1 then 1 else ?v)"
    by (auto simp: word_less_nat_alt not_less)
  then have "loose (length (hs_pulseSeqList hw) - unat (if ?v < 1 then 1 else ?v)) (?f hw)"
    using lo by (simp add: loose_def)
  note l3 = this
  show ?thesis
  proof (cases "(getPulse_calls s + 1) mod 3333 = 0")
    case True
    then have "s' = on_hw d h ?f ?s2"
      by (simp add: s'_def poll_max_list_def Let_def)
    then show ?thesis
      using s3 hw3 l3 d by auto
  next
    case False
    then have "s' = ?s1"
      by (simp add: s'_def poll_max_list_def Let_def)
    then show ?thesis
      using s1 lo by auto
  qed
qed

lemma getPulse_ok:
  assumes ok: "good_state c b0 s" and d: "d < length (sources s)" and hw: "hw_at d h s \<noteq> None"
  shows "yields never never (\<lambda>(n, isNew, s'). at_pulse c b0 d h n (pulse_id (header_at mem)) s')
    (hw_getPulse c ev d h mem s)"
proof -
  let ?p = "packet_pulse mem"
  obtain hw where hw: "hw_at d h s = Some hw" using hw by blast
  have pid: "pi_pulseId ?p = pulse_id (header_at mem)"
    by (simp add: packet_pulse_def)
  show ?thesis
  proof (cases "find_pulse ?p (hs_pulseSeqList hw)")
    case (Some n)
    then have "n < length (hs_pulseSeqList hw)" "pi_pulseId (fst (hs_pulseSeqList hw ! n)) = pi_pulseId ?p"
      using find_pulse_some by (auto simp: same_pulse_def)
    then show ?thesis
      using ok d hw Some by (simp add: hw_getPulse_def at_pulse_def pulses_at_hw pid)
  next
    case None
    let ?s0 = "on_hw d h (push_pulse ?p) s"
    let ?e = "(?p\<lparr>pi_dupCount := dup_count ?p (hs_pulseSeqList hw)\<rparr>, 0)"
    have lo: "loose 0 hw"
      using ok d hw by (auto simp: good_state_def dest: tidyD(2))
    then have "hs_lastPulse (push_pulse ?p hw) = newest_time (hs_pulseSeqList (push_pulse ?p hw))"
      by (simp add: push_pulse_def loose_def later_max max.commute)
    then have lo0: "loose (length (hs_pulseSeqList (push_pulse ?p hw)) - unat (hs_maxPulseSeqList hw)) (push_pulse ?p hw)"
      using lo by (simp add: loose_def push_pulse_def)
    have "sys_ok c b0 {} ?s0"
      using ok by (auto simp: good_state_def push_pulse_def hw_ok_def packet_pulse_def intro!: sys_ok_on_hw)
    moreover have "tidy {(d, h)} ?s0"
      using ok by (auto simp: good_state_def intro!: tidy_on_hw intro: tidy_mono)
    moreover have "hw_at d h ?s0 = Some (push_pulse ?p hw)" "d < length (sources ?s0)"
      using d hw by (simp_all add: hw_at_on_hw)
    ultimately obtain hw1 k where s1: "sys_ok c b0 {} (poll_max_list ev d h ?s0)"
        "tidy {(d, h)} (poll_max_list ev d h ?s0)" "d < length (sources (poll_max_list ev d h ?s0))"
        "hw_at d h (poll_max_list ev d h ?s0) = Some hw1" "loose k hw1"
        "hs_pulseSeqList hw1 = hs_pulseSeqList (push_pulse ?p hw)"
      using poll_max_list_ok [OF _ _ _ _ lo0, of c b0 "{}" ?s0 d h ev] by blast
    have list: "hs_pulseSeqList hw1 = ?e # hs_pulseSeqList hw"
      by (simp add: s1(6) push_pulse_def)
    have k: "length (hs_pulseSeqList hw1) - unat (hs_maxPulseSeqList hw1) = k"
      and pos: "0 < length (hs_pulseSeqList hw1) - k"
      using s1(5) list by (auto simp: loose_def)
    have run: "hw_getPulse c ev d h mem s =
        sbind (pop_oldest c (e_ctrl ev) d h k (poll_max_list ev d h ?s0)) (\<lambda>s2. Inr (0, True, s2))"
      unfolding hw_getPulse_def Let_def by (simp only: hw None s1(4) option.sel option.case k)
    have head: "at_pulse c b0 d h 0 (pulse_id (header_at mem)) s'"
      if "good_state c b0 s' \<and> pulses_at (husks s') d h =
        take (length (hs_pulseSeqList hw1) - k) (pulses_at (husks (poll_max_list ev d h ?s0)) d h)" for s'
      using that s1(3,4) pos by (simp add: at_pulse_def pulses_at_hw pid list)
    show ?thesis
      unfolding run by (rule yields_bind [OF pop_oldest_ok [OF s1(1-5)]]) (simp add: head)
  qed
qed

section \<open>Data packets\<close>

text \<open>Changes of a hardware source that do not matter here.\<close>

definition mild :: "hw_source \<Rightarrow> hw_source \<Rightarrow> bool" where
  "mild hw hw' \<longleftrightarrow> hs_smsId hw' = hs_smsId hw \<and> hs_intermittent hw' = hs_intermittent hw \<and>
     hs_maxPulseSeqList hw' = hs_maxPulseSeqList hw \<and> hs_lastPulse hw' = hs_lastPulse hw \<and>
     List.map fst (hs_pulseSeqList hw') = List.map fst (hs_pulseSeqList hw)"

lemma mild_hw_ok: "mild hw hw' \<Longrightarrow> hw_ok hw \<Longrightarrow> hw_ok hw'"
proof -
  assume m: "mild hw hw'" and ok: "hw_ok hw"
  have w: "hw_ok w \<longleftrightarrow> (hs_intermittent w \<longrightarrow> hs_smsId w = NO_SOURCE) \<and>
      list_all (\<lambda>p. pi_pulseGood p \<longrightarrow> sane (pi_pulseId p)) (List.map fst (hs_pulseSeqList w))" for w
    by (simp add: hw_ok_def list_all_iff)
  show "hw_ok hw'"
    using m ok unfolding mild_def w by metis
qed

lemma newest_fst: "List.map fst l' = List.map fst l \<Longrightarrow> newest_time l' = newest_time l"
proof -
  have "newest_time l = fold (\<lambda>p m. if pi_pulseId p > m then pi_pulseId p else m) (List.map fst l) 0" for l
    by (simp add: newest_time_def fold_map o_def)
  then show "List.map fst l' = List.map fst l \<Longrightarrow> newest_time l' = newest_time l"
    by simp
qed

lemma mild_loose:
  assumes "mild hw hw'" and "loose k hw"
  shows "loose k hw'"
proof -
  have "length (hs_pulseSeqList hw') = length (hs_pulseSeqList hw)"
    using assms(1) map_eq_imp_length_eq unfolding mild_def by blast
  then show ?thesis
    using assms newest_fst [of "hs_pulseSeqList hw'" "hs_pulseSeqList hw"] by (simp add: mild_def loose_def)
qed

lemma good_state_on_hw:
  "good_state c b0 s \<Longrightarrow> (\<And>hw. hw_at d h s = Some hw \<Longrightarrow> mild hw (f hw)) \<Longrightarrow> good_state c b0 (on_hw d h f s)"
  unfolding good_state_def
  by (intro conjI sys_ok_on_hw tidy_on_hw) (auto simp: mild_def intro: mild_hw_ok mild_loose)

lemma good_state_on_source:
  "good_state c b0 s \<Longrightarrow> (\<And>D. ds_hwSources (f D) = ds_hwSources D) \<Longrightarrow>
    (\<And>D. ds_smsSourceId (f D) = ds_smsSourceId D) \<Longrightarrow> (\<And>D. unwatched D \<Longrightarrow> unwatched (f D)) \<Longrightarrow>
    good_state c b0 (on_source d f s)"
  unfolding good_state_def by (intro conjI sys_ok_on_source tidy_on_source) auto

lemma good_state_fields:
  "good_state c b0 s \<Longrightarrow> ctrl s' = ctrl s \<Longrightarrow> calls s' = calls s \<Longrightarrow> sources s' = sources s \<Longrightarrow> good_state c b0 s'"
  unfolding good_state_def using sys_ok_fields tidy_fields by blast

lemma good_state_husks: "good_state c b0 s \<Longrightarrow> keeps_husks c b0 {} (husks s) s' \<Longrightarrow> good_state c b0 s'"
  using tidy_husks [of s' s "{}"] by (simp add: good_state_def keeps_husks_def)

lemma at_pulse_husks: "at_pulse c b0 d h n pid s \<Longrightarrow> keeps_husks c b0 {} (husks s) s' \<Longrightarrow> at_pulse c b0 d h n pid s'"
  using good_state_husks [of c b0 s s'] by (simp add: at_pulse_def keeps_husks_def)

lemma at_pulseE:
  assumes "at_pulse c b0 d h n pid s"
  obtains hw where "good_state c b0 s" "d < length (sources s)" "hw_at d h s = Some hw"
    "n < length (hs_pulseSeqList hw)" "pi_pulseId (fst (hs_pulseSeqList hw ! n)) = pid"
proof -
  have n: "n < length (pulses_at (husks s) d h)"
    using assms by (simp add: at_pulse_def)
  then obtain hw where hw: "d < length (sources s)" "hw_at d h s = Some hw" "n < length (hs_pulseSeqList hw)"
    by (rule pulses_atE)
  moreover have "pi_pulseId (fst (hs_pulseSeqList hw ! n)) = pid"
    using assms hw by (simp add: at_pulse_def pulses_at_hw)
  ultimately show ?thesis
    using that assms by (simp add: at_pulse_def)
qed

lemma at_pulseI:
  assumes "good_state c b0 s" "d < length (sources s)" "hw_at d h s = Some hw"
    "n < length (hs_pulseSeqList hw)" "pi_pulseId (fst (hs_pulseSeqList hw ! n)) = pid"
  shows "at_pulse c b0 d h n pid s"
  using assms by (simp add: at_pulse_def pulses_at_hw)

lemma at_pulse_on_hw:
  assumes s: "at_pulse c b0 d h n pid s" and f: "\<And>hw. hw_at d h s = Some hw \<Longrightarrow> mild hw (f hw)"
  shows "at_pulse c b0 d h n pid (on_hw d h f s)"
proof -
  obtain hw where hw: "good_state c b0 s" "d < length (sources s)" "hw_at d h s = Some hw"
    "n < length (hs_pulseSeqList hw)" "pi_pulseId (fst (hs_pulseSeqList hw ! n)) = pid"
    using s by (rule at_pulseE)
  have m: "List.map fst (hs_pulseSeqList (f hw)) = List.map fst (hs_pulseSeqList hw)"
    using f [OF hw(3)] by (simp add: mild_def)
  have len: "length (hs_pulseSeqList (f hw)) = length (hs_pulseSeqList hw)"
    using arg_cong [OF m, of length] by simp
  then have "fst (hs_pulseSeqList (f hw) ! n) = fst (hs_pulseSeqList hw ! n)"
    using arg_cong [OF m, of "\<lambda>l. l ! n"] hw(4) by simp
  moreover have "good_state c b0 (on_hw d h f s)"
    by (rule good_state_on_hw [OF hw(1) f])
  ultimately show ?thesis
    using hw len by (intro at_pulseI [where hw = "f hw"]) (simp_all add: hw_at_on_hw)
qed

lemma at_pulse_on_source:
  assumes s: "at_pulse c b0 d h n pid s" and f: "\<And>D. ds_hwSources (f D) = ds_hwSources D"
    "\<And>D. ds_smsSourceId (f D) = ds_smsSourceId D" "\<And>D. unwatched D \<Longrightarrow> unwatched (f D)"
  shows "at_pulse c b0 d h n pid (on_source d f s)"
proof -
  obtain hw where hw: "good_state c b0 s" "d < length (sources s)" "hw_at d h s = Some hw"
    "n < length (hs_pulseSeqList hw)" "pi_pulseId (fst (hs_pulseSeqList hw ! n)) = pid"
    using s by (rule at_pulseE)
  moreover have "good_state c b0 (on_source d f s)"
    by (rule good_state_on_source [OF hw(1) f])
  ultimately show ?thesis
    using f(1) by (intro at_pulseI [where hw = hw]) (simp_all add: hw_at_def source_at_on_source)
qed

lemma polls_at_pulse:
  assumes "at_pulse c b0 d h n pid s"
  shows "at_pulse c b0 d h n pid (poll_checks ev d s)" "at_pulse c b0 d h n pid (poll_mixed ev d s)"
    "at_pulse c b0 d h n pid (poll_eop ev d s)"
  using assms by (auto simp: poll_checks_def poll_mixed_def poll_eop_def unwatched_def intro!: at_pulse_on_source)

lemma mild_sequences:
  "mild hw (snd (checkSourceSeq mem hw))" "mild hw (snd (checkPulseSeq mem n hw))"
proof -
  have "List.map fst (l[n := (p, k)]) = List.map fst l" if "l ! n = (p, k')" for l :: pulse_seq and p k k'
    using that by (cases "n < length l") (auto simp: map_update list_update_same_conv list_update_beyond)
  then show "mild hw (snd (checkPulseSeq mem n hw))"
    by (simp add: mild_def checkPulseSeq_def split: prod.split)
qed (simp add: mild_def checkSourceSeq_def)

lemma sequences_at_pulse:
  assumes "at_pulse c b0 d h n pid s"
  shows "at_pulse c b0 d h n pid (snd (source_sequence d h mem s))"
    "at_pulse c b0 d h n pid (snd (pulse_sequence d h mem m s))"
  using assms mild_sequences
  by (auto simp: source_sequence_def pulse_sequence_def split_def Let_def intro!: at_pulse_on_hw)

text \<open>A hardware source is looked up, or made with an event source of its own.\<close>

lemma new_hw_loose: "loose 0 (new_hw_source h i v)"
  by (auto simp: loose_def new_hw_source_def word_less_nat_alt not_less)

lemma registered_ok:
  assumes ok: "good_state c b0 s" and d: "d < length (sources s)"
    and reg: "register pv (ds_smsSourceId (source_at d s)) s = Inr (i, s1)"
    and free: "\<And>i'. ids s (d, h) = Some i' \<Longrightarrow> i' = NO_SOURCE"
    and s2: "ctrl s2 = ctrl s1" "calls s2 = calls s1" "length (sources s2) = length (sources s)"
      "ids s2 = (ids s)((d, h) \<mapsto> i)" "\<And>k. k < length (sources s) \<Longrightarrow> source_ok k (source_at k s2)"
  shows "sys_ok c b0 {} s2"
proof -
  have sys: "sys_ok c b0 {} s"
    using ok by (simp add: good_state_def)
  show ?thesis
    using register_ok [OF sys d reg] free s2 sys_okD(5,6) [OF sys] by (simp add: sys_ok_def traced_def)
qed

lemma register_threw: "register pv i s = Inl f \<Longrightarrow> f = Threw s"
  by (auto simp: register_def split: sum.splits)

lemma getHWSource_ok:
  assumes ok: "good_state c b0 s" and d: "d < length (sources s)"
  shows "yields never (good_state c b0) (\<lambda>s'. good_state c b0 s' \<and> length (sources s') = length (sources s) \<and>
    hw_at d h s' \<noteq> None) (getHWSource ev d h s)"
proof (cases "hw_at d h s")
  case (Some hw)
  then show ?thesis using ok by (simp add: getHWSource_def)
next
  case None
  let ?r = "register (e_ctrl ev) (ds_smsSourceId (source_at d s)) s"
  show ?thesis
  proof (cases ?r)
    case (Inl f)
    then show ?thesis using None ok register_threw [OF Inl] by (simp add: getHWSource_def)
  next
    case (Inr r)
    obtain i s1 where r: "r = (i, s1)" by fastforce
    have sys: "sys_ok c b0 {} s" "tidy {} s"
      using ok by (simp_all add: good_state_def)
    have src: "sources s1 = sources s"
      using register_ok(2) [OF sys(1) d Inr [unfolded r]] .
    define new where "new = new_hw_source h i (ds_max_pulse_seq_list (source_at d s))"
    define s2 where "s2 = on_source d (\<lambda>D. D\<lparr>ds_hwSources :=
      om_insert h (new_hw_source h i (ds_max_pulse_seq_list D)) (ds_hwSources D)\<rparr>) s1"
    have om: "om_ok (ds_hwSources (source_at d s))"
      using sys_okD(4) [OF sys(1) d] by (simp add: source_ok_def)
    have at: "source_at k s2 = (if k = d then (source_at d s)\<lparr>ds_hwSources :=
        om_insert h new (ds_hwSources (source_at d s))\<rparr> else source_at k s)" for k
      using d by (simp add: s2_def source_at_on_source src new_def) (simp add: source_at_def src)
    have len: "length (sources s2) = length (sources s)"
      by (simp add: s2_def src)
    have hw: "hw_at k h' s2 = (if k = d \<and> h' = h then Some new else hw_at k h' s)" for k h'
      using None om by (simp add: hw_at_def at map_of_om_insert)
    have new: "hs_smsId new = i" "hw_ok new" "loose 0 new"
      by (simp_all add: new_def new_hw_loose) (simp_all add: new_hw_source_def hw_ok_def)
    have "ids s2 = (ids s)((d, h) \<mapsto> i)"
      using d new(1) len by (auto simp: ids_def hw fun_eq_iff)
    moreover have "source_ok k (source_at k s2)" if "k < length (sources s)" for k
      using sys_okD(4) [OF sys(1) that] new(2) om hw [of k]
      by (auto simp: at source_ok_def hw_at_def map_of_om_insert split: if_splits)
    ultimately have "sys_ok c b0 {} s2"
    proof (intro registered_ok [OF ok d Inr [unfolded r], of h s2])
      show "i' = NO_SOURCE" if "ids s (d, h) = Some i'" for i'
        using that None d by (simp add: ids_def)
    qed (simp_all add: len, simp_all add: s2_def)
    moreover have "tidy {} s2"
      using sys(2) new(3) by (auto simp: tidy_def at hw len unwatched_def)
    moreover have "getHWSource ev d h s = Inr s2"
      by (simp add: getHWSource_def None Inr r s2_def)
    ultimately show ?thesis
      using hw [of d h] by (simp add: good_state_def s2_def src)
  qed
qed

text \<open>A suspended source becomes an event source again.\<close>

lemma set_good_keeps:
  assumes s: "at_pulse c b0 d h n pid s" and g: "g \<Longrightarrow> sane pid"
  shows "at_pulse c b0 d h n pid (on_hw d h (set_good g n) s)"
proof -
  obtain hw where hw: "good_state c b0 s" "d < length (sources s)" "hw_at d h s = Some hw"
    "n < length (hs_pulseSeqList hw)" "pi_pulseId (fst (hs_pulseSeqList hw ! n)) = pid"
    using s by (rule at_pulseE)
  have "sys_ok c b0 {} (on_hw d h (set_good g n) s)"
    using hw g by (auto simp: good_state_def intro!: sys_ok_on_hw hw_ok_set_good) (simp add: set_good_def)
  then show ?thesis
    using at_pulse_husks [OF s] husks_on_hw [of "set_good g n" d h s] by (simp add: keeps_husks_def)
qed

lemma resumed_fields [simp]:
  "hs_pulseSeqList (resumed i hw) = hs_pulseSeqList hw" "hs_lastPulse (resumed i hw) = hs_lastPulse hw"
  "hs_maxPulseSeqList (resumed i hw) = hs_maxPulseSeqList hw" "hs_smsId (resumed i hw) = i"
  by (simp_all add: resumed_def)

lemma resumed_ok:
  assumes s: "at_pulse c b0 d h n pid s" and hw: "hw_at d h s = Some hw" "hs_intermittent hw"
    and reg: "register pv (ds_smsSourceId (source_at d s)) s = Inr (i, s1)"
  shows "at_pulse c b0 d h n pid (on_hw d h (resumed i) s1)"
proof -
  obtain hw' where g: "good_state c b0 s" "d < length (sources s)" "hw_at d h s = Some hw'"
    "n < length (hs_pulseSeqList hw')" "pi_pulseId (fst (hs_pulseSeqList hw' ! n)) = pid"
    using s by (rule at_pulseE)
  have sys: "sys_ok c b0 {} s" "tidy {} s"
    using g(1) by (simp_all add: good_state_def)
  have src: "sources s1 = sources s"
    by (rule register_ok(2) [OF sys(1) g(2) reg])
  then have at: "hw_at k h' s1 = hw_at k h' s" "source_at k s1 = source_at k s" for k h'
    by (simp_all add: hw_at_def source_at_def)
  have "hw_ok hw"
    using sys_okD(4) [OF sys(1) g(2)] hw(1) by (auto simp: source_ok_def hw_at_def)
  then have "hs_smsId hw = NO_SOURCE"
    using hw(2) by (simp add: hw_ok_def)
  then have free: "i' = NO_SOURCE" if "ids s (d, h) = Some i'" for i'
    using that hw(1) g(2) by (simp add: ids_def)
  have "sys_ok c b0 {} (on_hw d h (resumed i) s1)"
  proof (rule registered_ok [OF g(1,2) reg free])
    show "ids (on_hw d h (resumed i) s1) = (ids s)((d, h) \<mapsto> i)"
      using hw(1) g(2) ids_cong [OF src] by (subst ids_on_hw) (simp_all add: at src)
    have "hw_ok (resumed i w)" if "hw_ok w" for w
      using that by (simp add: hw_ok_def resumed_def)
    then show "source_ok k (source_at k (on_hw d h (resumed i) s1))" if "k < length (sources s)" for k
      using source_ok_on_hw [of s1 "resumed i" d h] sys_okD(4) [OF sys(1)] that by (simp add: src at)
  qed (simp_all add: src)
  moreover have "tidy {} (on_hw d h (resumed i) s1)"
    using tidy_fields [OF sys(2) src] by (rule tidy_on_hw) (simp add: loose_def)
  ultimately show ?thesis
    using g hw(1) by (intro at_pulseI [where hw = "resumed i hw"]) (simp_all add: good_state_def hw_at_on_hw src at)
qed

lemma recover_ok:
  assumes s: "at_pulse c b0 d h n pid s"
  shows "yields never (good_state c b0) (\<lambda>(go_on, s'). at_pulse c b0 d h n pid s')
    (recover ev d h mem n isNew s)"
proof -
  obtain hw where hw: "good_state c b0 s" "d < length (sources s)" "hw_at d h s = Some hw"
    using s by (rule at_pulseE)
  show ?thesis
  proof (cases "hs_intermittent hw \<and> \<not> (\<not> isNew \<and> raw_num_events mem = 0)")
    case False
    then show ?thesis
      using s set_good_keeps [OF s, of False] hw(3) by (auto simp: recover_def)
  next
    case True
    let ?f = "\<lambda>w. w\<lparr>hs_recoverPktCount := hs_recoverPktCount hw + 1\<rparr>"
    let ?s1 = "on_hw d h ?f s"
    have s1: "at_pulse c b0 d h n pid ?s1"
      by (rule at_pulse_on_hw [OF s]) (simp add: mild_def)
    have hw1: "hw_at d h ?s1 = Some (?f hw)" "hs_intermittent (?f hw)"
      using hw True by (simp_all add: hw_at_on_hw)
    have run: "recover ev d h mem n isNew s =
        (if hs_recoverPktCount hw + 1 < m_intermittentDataThreshold (ctrl ?s1) then Inr (True, ?s1)
         else sbind (register (e_ctrl ev) (ds_smsSourceId (source_at d ?s1)) ?s1) (\<lambda>(i, s2).
           Inr (True, on_hw d h (resumed i) s2)))"
      using True hw(3) by (auto simp: recover_def Let_def)
    show ?thesis
    proof (cases "register (e_ctrl ev) (ds_smsSourceId (source_at d ?s1)) ?s1")
      case (Inl f)
      then show ?thesis
        using s1 register_threw [OF Inl] by (simp add: run at_pulse_def)
    next
      case (Inr r)
      obtain i s2 where r: "r = (i, s2)" by fastforce
      show ?thesis
        using s1 resumed_ok [OF s1 hw1 Inr [unfolded r]] by (simp add: run Inr r)
    qed
  qed
qed

text \<open>
  Only pulses with a real time are good, while the clock is before the year 2126. The settings are those for which no
  shift is undefined.
\<close>

definition env_ok :: "sms_config \<Rightarrow> env \<Rightarrow> bool" where
  "env_ok c ev \<longleftrightarrow> e_now ev < 4925514495 \<and> settings_ok c (e_settings ev)"

lemma time_ok_sane:
  assumes "time_ok (e_now ev) pid" and "env_ok c ev"
  shows "sane pid"
proof -
  have sec: "512715600 \<le> uint (drop_bit 32 pid)" "uint (drop_bit 32 pid) < 4294967295"
    using assms by (auto simp: time_ok_def env_ok_def FACILITY_START_TIME_def EPICS_EPOCH_OFFSET_def
        SECS_PER_WEEK_def Let_def)
  have "uint (drop_bit 32 (- 1 :: u64)) = 4294967295"
    by code_simp
  then have "pid \<noteq> - 1"
    using sec(2) by force
  moreover have "pid \<noteq> 0"
    using sec(1) by auto
  ultimately show ?thesis
    by (simp add: sane_def)
qed

lemma judge_pulse_ok:
  assumes s: "at_pulse c b0 d h n (pulse_id (header_at mem)) s" and clock: "env_ok c ev"
    and run: "judge_pulse ev d h mem isNew n s = (good, s')"
  shows "at_pulse c b0 d h n (pulse_id (header_at mem)) s'" and "good \<Longrightarrow> sane (pulse_id (header_at mem))"
proof -
  let ?s1 = "on_hw d h (\<lambda>hw. hw\<lparr>hs_rtdlNoDataCount := 0\<rparr>) s"
  have s1: "at_pulse c b0 d h n (pulse_id (header_at mem)) ?s1"
    by (rule at_pulse_on_hw [OF s]) (simp add: mild_def)
  obtain hw where hw: "good_state c b0 ?s1" "d < length (sources ?s1)" "hw_at d h ?s1 = Some hw"
    "n < length (hs_pulseSeqList hw)" "pi_pulseId (fst (hs_pulseSeqList hw ! n)) = pulse_id (header_at mem)"
    using s1 by (rule at_pulseE)
  have "hw_ok hw"
    using sys_okD(4) [of c b0 "{}" ?s1 d] hw(1-3) by (auto simp: good_state_def source_ok_def hw_at_def)
  then have old: "sane (pulse_id (header_at mem))" if "pi_pulseGood (fst (entry_at d h n ?s1))"
    using that hw(3-5) nth_mem [OF hw(4)] by (auto simp: hw_ok_def entry_at_def)
  have new: "sane (pulse_id (header_at mem))" if "time_ok (e_now ev) (pulse_id (header_at mem))"
    using time_ok_sane [OF that clock] .
  show "good \<Longrightarrow> sane (pulse_id (header_at mem))"
    using run old new by (auto simp: judge_pulse_def newPulse_def Let_def split: if_splits)
  show "at_pulse c b0 d h n (pulse_id (header_at mem)) s'"
    using run s1 set_good_keeps [OF s1 new] by (auto simp: judge_pulse_def newPulse_def Let_def split: if_splits)
qed

lemma pass_events_ok:
  assumes s: "at_pulse c b0 d h n (pulse_id (header_at mem)) s" and sane: "sane (pulse_id (header_at mem))"
    and env: "env_ok c ev"
  shows "yields never never (at_pulse c b0 d h n (pulse_id (header_at mem)))
    (pass_events c ev d h mem is_mapped seq_ok n s)"
proof -
  let ?pid = "pulse_id (header_at mem)"
  let ?s1 = "poll_mixed ev d s"
  let ?dup = "snd (entry_key (entry_at d h n ?s1))"
  let ?op = "Events (e_settings ev) mem h ?dup is_mapped (ds_mixed_data_packets (source_at d ?s1))"
  note s1 = polls_at_pulse(2) [OF s, of ev]
  have k: "proper_key (?pid, ?dup)"
    using sane by (rule sane_proper)
  have sys: "sys_ok c b0 {} t" if "at_pulse c b0 d h n ?pid t" for t
    using that by (simp add: at_pulse_def good_state_def)
  have "call_proper c (e_ctrl ev, ?op)"
    using k env by (simp add: call_proper_def env_ok_def)
  from control_plain [OF sys [OF s1] _ this]
  have one: "yields never never (at_pulse c b0 d h n ?pid) (control c (e_ctrl ev) ?op ?s1)"
    by (rule yields_mono) (use at_pulse_husks [OF s1] in \<open>auto simp: keeps_husks_def\<close>)
  have two: "yields never never (at_pulse c b0 d h n ?pid) (control c (e_ctrl ev) (Partial (?pid, ?dup)) t)"
    if t: "at_pulse c b0 d h n ?pid t" for t
  proof (rule yields_never [OF control_key [OF sys [OF t]]])
    show "at_pulse c b0 d h n ?pid t'" if "sys_ok c b0 {} t' \<and> husks t' = husks t" for t'
      using at_pulse_husks [OF t] that by (simp add: keeps_husks_def)
  qed (use k in simp_all)
  have rest: "yields never never (at_pulse c b0 d h n ?pid)
      (let (pulse_ok, s3) = pulse_sequence d h mem n s2 in
         if \<not> pulse_ok \<or> \<not> seq_ok then control c (e_ctrl ev) (Partial (?pid, ?dup)) s3 else Inr s3)"
    if s2: "at_pulse c b0 d h n ?pid s2" for s2
    using two [OF sequences_at_pulse(2) [OF s2]] sequences_at_pulse(2) [OF s2]
    by (simp add: split_def Let_def)
  show ?thesis
    unfolding pass_events_def Let_def by (rule yields_bind [OF one]) (use rest in \<open>simp add: Let_def\<close>)
qed

lemma end_of_pulse_ok:
  assumes s: "at_pulse c b0 d h n pid s"
  shows "yields never never (good_state c b0) (end_of_pulse c ev d h mem n s)"
proof -
  note s1 = polls_at_pulse(3) [OF s, of ev]
  have "yields never never (good_state c b0) (endPulse c (e_ctrl ev) d h True n (poll_eop ev d s))"
    using endPulse_ok [of c b0 "{}" "husks (poll_eop ev d s)" "poll_eop ev d s" n d h "e_ctrl ev" True] s1
      good_state_husks [of c b0 "poll_eop ev d s"]
    by (auto simp: at_pulse_def keeps_husks_def good_state_def intro: yields_never)
  then show ?thesis
    using s1 by (simp add: end_of_pulse_def Let_def at_pulse_def)
qed

lemma handleDataPkt_ok:
  assumes ok: "good_state c b0 s" and d: "d < length (sources s)" and clock: "env_ok c ev"
  shows "yields never (good_state c b0) (good_state c b0) (handleDataPkt c ev d is_mapped mem s)"
proof -
  let ?s0 = "s\<lparr>handleDataPkt_calls := handleDataPkt_calls s + 1\<rparr>"
  let ?h = "raw_sourceID mem" and ?pid = "pulse_id (header_at mem)"
  have ok0: "good_state c b0 ?s0" "d < length (sources ?s0)"
    using good_state_fields [OF ok, of ?s0] d by simp_all
  have judged: "yields never (good_state c b0) (good_state c b0)
      (let (good, s5) = judge_pulse ev d ?h mem isNew n s4 in
         sbind (if good then pass_events c ev d ?h mem is_mapped seq_ok n s5 else Inr s5)
           (end_of_pulse c ev d ?h mem n))" if s4: "at_pulse c b0 d ?h n ?pid s4" for isNew n s4 seq_ok
  proof -
    obtain good s5 where j: "judge_pulse ev d ?h mem isNew n s4 = (good, s5)" by fastforce
    note s5 = judge_pulse_ok [OF s4 clock j]
    have "yields never (good_state c b0) (at_pulse c b0 d ?h n ?pid)
        (if good then pass_events c ev d ?h mem is_mapped seq_ok n s5 else Inr s5)"
      using yields_mono [OF pass_events_ok [OF s5(1) _ clock]] s5 by simp
    then show ?thesis
      unfolding j Let_def prod.case by (rule yields_bind) (rule yields_never [OF end_of_pulse_ok])
  qed
  have recovered: "yields never (good_state c b0) (good_state c b0)
      (let (seq_ok, s3) = source_sequence d ?h mem (poll_checks ev d s2) in
       sbind (recover ev d ?h mem n isNew s3) (\<lambda>(go_on, s4).
         if \<not> go_on then Inr s4
         else (let (good, s5) = judge_pulse ev d ?h mem isNew n s4 in
           sbind (if good then pass_events c ev d ?h mem is_mapped seq_ok n s5 else Inr s5)
             (end_of_pulse c ev d ?h mem n))))" if s2: "at_pulse c b0 d ?h n ?pid s2" for n isNew s2
  proof -
    obtain seq_ok s3 where q: "source_sequence d ?h mem (poll_checks ev d s2) = (seq_ok, s3)" by fastforce
    have s3: "at_pulse c b0 d ?h n ?pid s3"
      using sequences_at_pulse(1) [OF polls_at_pulse(1) [OF s2, of ev], of mem] q by simp
    have "yields never (good_state c b0) (\<lambda>(go_on, s'). at_pulse c b0 d ?h n ?pid s')
        (recover ev d ?h mem n isNew s3)"
      by (rule yields_mono [OF recover_ok [OF s3]]) simp_all
    then show ?thesis
      unfolding q Let_def prod.case
      by (rule yields_bind) (use judged in \<open>auto simp: Let_def at_pulse_def\<close>)
  qed
  have "yields never (good_state c b0) (good_state c b0)
      (sbind (hw_getPulse c ev d ?h mem s1) (\<lambda>(n, isNew, s2).
        (let (seq_ok, s3) = source_sequence d ?h mem (poll_checks ev d s2) in
         sbind (recover ev d ?h mem n isNew s3) (\<lambda>(go_on, s4).
           if \<not> go_on then Inr s4
           else (let (good, s5) = judge_pulse ev d ?h mem isNew n s4 in
             sbind (if good then pass_events c ev d ?h mem is_mapped seq_ok n s5 else Inr s5)
               (end_of_pulse c ev d ?h mem n))))))"
    if s1: "good_state c b0 s1" "length (sources s1) = length (sources ?s0)" "hw_at d ?h s1 \<noteq> None" for s1
  proof (rule yields_bind [OF yields_never [OF getPulse_ok [OF s1(1) _ s1(3)]]])
    show "d < length (sources s1)" using s1(2) ok0(2) by simp
  qed (use recovered in auto)
  then show ?thesis
    unfolding handleDataPkt_def Let_def [of "raw_sourceID mem"]
    by (intro yields_bind [OF yields_mono [OF getHWSource_ok [OF ok0]]]) auto
qed

end
