(* ===== verification/Source_Runs.thy ===== *)
theory Source_Runs
  imports Source_Handlers
begin

text \<open>
  Runs of the whole system, the pulse buffer with its data sources: what holds in every state that can be
  reached, that the bookkeeping never fails, and what becomes of a connection that is lost or silent.
\<close>

unbundle bit_operations_syntax

section \<open>Sources that go\<close>

lemma drop_hw_at:
  "d < length (sources s) \<Longrightarrow> hw_at d' h' (drop_hw d h s) = (if d' = d \<and> h' = h then None else hw_at d' h' s)"
proof -
  have "map_of (List.filter (\<lambda>e. fst e \<noteq> h) m) h' = (if h' = h then None else map_of m h')" for m :: "(u32, hw_source) omap"
    by (induction m) auto
  then show "d < length (sources s) \<Longrightarrow> ?thesis"
    by (auto simp: drop_hw_def hw_at_def source_at_on_source)
qed

lemma om_ok_filter: "om_ok m \<Longrightarrow> om_ok (List.filter P m)"
  by (induction m) auto

text \<open>Hardware sources that hold nothing any more are removed.\<close>

lemma remove_ok:
  assumes ok: "sys_ok c b0 R s"
    and s': "ctrl s' = ctrl s" "calls s' = calls s" "length (sources s') = length (sources s)"
    and src: "\<And>k. k < length (sources s) \<Longrightarrow> om_ok (ds_hwSources (source_at k s')) \<and>
      ds_smsSourceId (source_at k s') = ds_smsSourceId (source_at k s)"
    and hw: "\<And>k h. k < length (sources s) \<Longrightarrow> hw_at k h s' = hw_at k h s \<or>
      hw_at k h s' = None \<and> (\<forall>w. hw_at k h s = Some w \<longrightarrow> hs_smsId w = NO_SOURCE \<or> (k, h) \<in> R)"
    and R: "\<And>k h. (k, h) \<in> R \<Longrightarrow> k < length (sources s) \<Longrightarrow> hw_at k h s' = None"
  shows "sys_ok c b0 {} s'"
proof -
  have "links data_source_of {} (ids s') (m_eventSources (ctrl s)) (m_eventSourcesIndex (ctrl s))"
  proof (rule links_drop [OF sys_okD(2) [OF ok]])
    fix x assume x: "ids s' x \<noteq> ids s x"
    obtain k h where kh: "x = (k, h)" by fastforce
    have k: "k < length (sources s)"
      using x s'(3) by (auto simp: ids_def kh split: if_splits)
    then have "hw_at k h s' \<noteq> hw_at k h s"
      using x s'(3) by (auto simp: ids_def kh)
    then show "ids s' x = None \<and> (\<forall>i. ids s x = Some i \<longrightarrow> i = NO_SOURCE \<or> x \<in> R)"
      using hw [OF k, of h] k s'(3) by (auto simp: ids_def kh)
  next
    fix x i assume x: "ids s' x = Some i"
    obtain k h where kh: "x = (k, h)" by fastforce
    show "x \<in> {} \<longleftrightarrow> x \<in> R"
      using x R [of k h] s'(3) by (auto simp: ids_def kh split: if_splits)
  qed
  moreover have "source_ok k (source_at k s')" if k: "k < length (sources s)" for k
  proof -
    have "hw_ok w" if "map_of (ds_hwSources (source_at k s')) h = Some w" for h w
      using sys_okD(4) [OF ok k] that hw [OF k, of h] by (auto simp: source_ok_def hw_at_def)
    then show ?thesis
      using sys_okD(4) [OF ok k] src [OF k] by (simp add: source_ok_def)
  qed
  ultimately show ?thesis
    using ok s' by (simp add: sys_ok_def traced_def)
qed

lemma tidy_remove:
  assumes "tidy R s" and "length (sources s') = length (sources s)"
    and "\<And>k. k < length (sources s) \<Longrightarrow> unwatched (source_at k s) \<Longrightarrow> unwatched (source_at k s')"
    and "\<And>k h. k < length (sources s) \<Longrightarrow> hw_at k h s' = None \<or> hw_at k h s' = hw_at k h s \<and> (k, h) \<notin> R"
  shows "tidy {} s'"
  using assms unfolding tidy_def by (metis option.distinct(1))

lemma give_up_source_ok:
  assumes ok: "sys_ok c b0 R s" and d: "d < length (sources s)" and hw: "hw_at d h s \<noteq> None" and R: "(d, h) \<notin> R"
  shows "yields never never (keeps_husks c b0 (insert (d, h) R) (husks s)) (give_up_source c pv d h s)"
proof -
  obtain w where w: "hw_at d h s = Some w" using hw by blast
  show ?thesis
  proof (cases "hs_smsId w = NO_SOURCE")
    case True
    have "links data_source_of (insert (d, h) R) (ids s) (m_eventSources (ctrl s)) (m_eventSourcesIndex (ctrl s))"
      by (rule links_retired [OF sys_okD(2) [OF ok]]) (use True w d in \<open>auto simp: ids_def\<close>)
    then have "sys_ok c b0 (insert (d, h) R) s"
      using ok by (simp add: sys_ok_def)
    then show ?thesis
      using True w by (simp add: give_up_source_def keeps_husks_def)
  next
    case False
    have "ids s (d, h) = Some (hs_smsId w)"
      using w d by (simp add: ids_def)
    from control_unregister [OF ok this False R, of pv] show ?thesis
      using False w by (simp add: give_up_source_def Let_def keeps_husks_def [abs_def])
  qed
qed

lemma run_aways_ok:
  "good_state c b0 s \<Longrightarrow> d < length (sources s) \<Longrightarrow> distinct hs \<Longrightarrow> \<forall>h \<in> set hs. hw_at d h s \<noteq> None \<Longrightarrow>
    yields never never (good_state c b0) (run_aways c ev d hs s)"
proof (induction hs arbitrary: s)
  case (Cons h hs)
  let ?f = "\<lambda>hw. hw\<lparr>hs_rtdlNoDataCount := hs_rtdlNoDataCount hw + 60\<rparr>"
  let ?s1 = "on_hw d h ?f s"
  have s1: "good_state c b0 ?s1" "d < length (sources ?s1)"
    using good_state_on_hw [OF Cons.prems(1), of d h ?f] Cons.prems(2) by (simp_all add: mild_def)
  have hw1: "hw_at d h' ?s1 = None \<longleftrightarrow> hw_at d h' s = None" for h'
    using Cons.prems(2) by (simp add: hw_at_on_hw)
  have rest: "yields never never (good_state c b0) (run_aways c ev d hs (drop_hw d h s2))"
    if s2: "keeps_husks c b0 {(d, h)} (husks ?s1) s2" for s2
  proof -
    have same: "husks s2 = husks ?s1" and sys: "sys_ok c b0 {(d, h)} s2"
      using s2 by (simp_all add: keeps_husks_def)
    have d2: "d < length (sources s2)" "length (sources (drop_hw d h s2)) = length (sources s2)"
      using husks_length [OF same] s1(2) by (simp_all add: drop_hw_def)
    have "sys_ok c b0 {} (drop_hw d h s2)"
    proof (rule remove_ok [OF sys])
      show "om_ok (ds_hwSources (source_at k (drop_hw d h s2))) \<and>
          ds_smsSourceId (source_at k (drop_hw d h s2)) = ds_smsSourceId (source_at k s2)"
        if "k < length (sources s2)" for k
        using sys_okD(4) [OF sys that] om_ok_filter d2(1)
        by (auto simp: drop_hw_def source_at_on_source source_ok_def)
    qed (use d2 in \<open>auto simp: drop_hw_at\<close>, simp_all add: drop_hw_def)
    moreover have "tidy {} s2"
      using tidy_husks [OF same] s1(1) by (simp add: good_state_def)
    then have "tidy {} (drop_hw d h s2)"
    proof (rule tidy_remove)
      show "unwatched (source_at k (drop_hw d h s2))" if "unwatched (source_at k s2)" for k
        using that d2(1) by (auto simp: drop_hw_def source_at_on_source unwatched_def)
    qed (use d2 in \<open>auto simp: drop_hw_at\<close>)
    moreover have "hw_at d h' (drop_hw d h s2) \<noteq> None" if "h' \<in> set hs" for h'
    proof -
      have "h' \<noteq> h" "hw_at d h' s2 \<noteq> None"
        using that Cons.prems(3,4) hw1 [of h'] hw_at_husks [OF same s1(2), of h'] by auto
      then show ?thesis
        using d2(1) by (simp add: drop_hw_at)
    qed
    moreover have "good_state c b0 (drop_hw d h s2)"
      unfolding good_state_def using calculation(1,2) by blast
    ultimately show ?thesis
      using Cons.IH [of "drop_hw d h s2"] Cons.prems(3) d2 by simp
  qed
  have stay: "yields never never (good_state c b0) (run_aways c ev d hs ?s1)"
    using Cons.IH [OF s1] Cons.prems(3,4) hw1 by simp
  have gone: "yields never never (keeps_husks c b0 {(d, h)} (husks ?s1)) (give_up_source c (e_ctrl ev) d h ?s1)"
    using give_up_source_ok [of c b0 "{}" ?s1 d h] s1 hw1 Cons.prems(4) by (simp add: good_state_def)
  show ?case
    unfolding run_aways.simps Let_def using stay yields_bind [OF gone rest] by simp
qed simp

lemma hw_at_keys: "h \<in> set (List.map fst (ds_hwSources (source_at d s))) \<longleftrightarrow> hw_at d h s \<noteq> None"
  by (simp add: hw_at_def map_of_eq_None_iff)

lemma distinct_keys: "good_state c b0 s \<Longrightarrow> d < length (sources s) \<Longrightarrow>
    distinct (List.map fst (ds_hwSources (source_at d s)))"
  using sys_okD(4) [of c b0 "{}" s d] om_ok_distinct by (auto simp: good_state_def source_ok_def)

lemma check_run_aways_ok:
  assumes ok: "good_state c b0 s" and d: "d < length (sources s)"
  shows "yields never never (good_state c b0) (check_run_aways c ev d s)"
proof -
  let ?s1 = "s\<lparr>rxRTDL_calls := rxRTDL_calls s + 1\<rparr>"
  let ?s2 = "on_source d (\<lambda>D. D\<lparr>ds_rtdlNoDataThresh := pv_rtdlNoDataThresh (e_source ev)\<rparr>) ?s1"
  have s1: "good_state c b0 ?s1"
    by (rule good_state_fields [OF ok]) simp_all
  then have s2: "good_state c b0 ?s2" "d < length (sources ?s2)"
    using d by (auto intro!: good_state_on_source simp: unwatched_def)
  have "yields never never (good_state c b0)
      (run_aways c ev d (List.map fst (ds_hwSources (source_at d ?s2))) ?s2)"
    by (rule run_aways_ok [OF s2 distinct_keys [OF s2]]) (use hw_at_keys in blast)
  then show ?thesis
    using s1 by (simp add: check_run_aways_def Let_def)
qed

lemma rx_RTDL_ok:
  assumes ok: "good_state c b0 s" and d: "d < length (sources s)" and clock: "env_ok c ev" and mem: "framed mem"
  shows "yields never never (good_state c b0) (rx_RTDL c ev d mem s)"
proof -
  let ?pid = "pulse_id (header_at mem)"
  let ?f = "\<lambda>D. D\<lparr>ds_dupRTDL := (if ?pid = ds_lastRTDLPulseId D then ds_dupRTDL D + 1 else 0),
    ds_lastRTDLPulseId := ?pid, ds_lastRTDLCycle := rtdl_cycle mem\<rparr>"
  let ?s1 = "on_source d ?f s"
  have s1: "good_state c b0 ?s1" "d < length (sources ?s1)"
    using d by (auto intro!: good_state_on_source [OF ok] simp: unwatched_def)
  let ?op = "Rtdl mem (ds_dupRTDL (source_at d ?s1))"
  have "yields never never (keeps_husks c b0 {} (husks ?s1)) (control c (e_ctrl ev) ?op ?s1)"
    if "time_ok (e_now ev) ?pid"
  proof (rule control_keeps)
    show "keeps_husks c b0 {} (husks ?s1) ?s1"
      using s1(1) by (simp add: keeps_husks_def good_state_def)
    show "proper_key (?pid, ds_dupRTDL (source_at d ?s1))"
      using sane_proper time_ok_sane [OF that clock] by blast
  qed (simp_all add: mem)
  then have "yields never never (\<lambda>s'. good_state c b0 s' \<and> d < length (sources s'))
      (if time_ok (e_now ev) ?pid then control c (e_ctrl ev) ?op ?s1 else Inr ?s1)"
    using s1 good_state_husks [OF s1(1)] husks_length [of _ ?s1] unfolding if_split
    by (auto simp: keeps_husks_def elim!: yields_mono)
  then show ?thesis
    unfolding rx_RTDL_def Let_def by (rule yields_bind) (rule check_run_aways_ok, simp_all)
qed

lemma rx_SourceList_ok:
  "good_state c b0 s \<Longrightarrow> d < length (sources s) \<Longrightarrow>
    yields never (good_state c b0) (good_state c b0) (rx_SourceList ev d hs s)"
proof (induction hs arbitrary: s)
  case (Cons h hs)
  show ?case
    unfolding rx_SourceList.simps
    by (rule yields_bind [OF getHWSource_ok [OF Cons.prems]]) (use Cons in auto)
qed simp

section \<open>A data source that lets go of its hardware sources\<close>

text \<open>What is left of a data source without its hardware sources.\<close>

definition cores :: "system \<Rightarrow> data_source list" where
  "cores s = List.map (\<lambda>D. D\<lparr>ds_hwSources := []\<rparr>) (sources s)"

lemma cores_husks: "husks s' = husks s \<Longrightarrow> cores s' = cores s"
proof -
  have "cores s = List.map (\<lambda>D. D\<lparr>ds_hwSources := []\<rparr>) (husks s)" for s
    by (simp add: cores_def husks_def husk_source_def o_def)
  then show "husks s' = husks s \<Longrightarrow> cores s' = cores s"
    by simp
qed

lemma cores_on_hw [simp]: "cores (on_hw d h f s) = cores s"
  by (cases "d < length (sources s)")
     (simp_all add: cores_def on_hw_def on_source_def source_at_def map_update list_update_same_conv
        list_update_beyond not_less)

lemma cores_at:
  assumes "cores s' = cores s" and "d < length (sources s)"
  shows "ds_state (source_at d s') = ds_state (source_at d s)"
    and "ds_smsSourceId (source_at d s') = ds_smsSourceId (source_at d s)"
proof -
  have "length (sources s') = length (sources s)"
    using arg_cong [OF assms(1), of length] by (simp add: cores_def)
  then have "(source_at d s')\<lparr>ds_hwSources := []\<rparr> = (source_at d s)\<lparr>ds_hwSources := []\<rparr>"
    using arg_cong [OF assms(1), of "\<lambda>l. l ! d"] assms(2) by (simp add: cores_def source_at_def)
  from arg_cong [OF this, of ds_state] arg_cong [OF this, of ds_smsSourceId]
  show "ds_state (source_at d s') = ds_state (source_at d s)"
    "ds_smsSourceId (source_at d s') = ds_smsSourceId (source_at d s)" by simp_all
qed

definition going ::
    "sms_config \<Rightarrow> buffer \<Rightarrow> nat \<Rightarrow> data_source list \<Rightarrow> u32 set \<Rightarrow> u32 set \<Rightarrow> system \<Rightarrow> bool" where
  "going c b0 d C K G s \<longleftrightarrow> sys_ok c b0 (Pair d ` G) s \<and> tidy (Pair d ` G) s \<and> cores s = C \<and>
     (\<forall>h. hw_at d h s = None \<longleftrightarrow> h \<notin> K)"

lemma end_all_ok:
  "keeps_husks c b0 R H s \<Longrightarrow> k \<le> length (pulses_at H d h) \<Longrightarrow>
    yields never never (keeps_husks c b0 R H) (end_all c pv d h k s)"
proof (induction k arbitrary: s)
  case (Suc k)
  show ?case
    unfolding end_all.simps
    by (rule yields_bind [OF endPulse_ok [OF Suc.prems(1)]]) (use Suc in auto)
qed simp

lemma end_source_ok:
  assumes s: "going c b0 d C K G s" and d: "d < length (sources s)" and h: "h \<in> K" "h \<notin> G"
  shows "yields never never (\<lambda>s'. going c b0 d C K (insert h G) s' \<and> length (sources s') = length (sources s))
    (end_source c pv d h s)"
proof -
  let ?R = "Pair d ` G"
  have R: "(d, h) \<notin> ?R" "Pair d ` insert h G = insert (d, h) ?R"
    using h(2) by auto
  note s' = s [unfolded going_def]
  obtain w where w: "hw_at d h s = Some w"
    using s' h(1) by (cases "hw_at d h s") auto
  show ?thesis
  proof (cases "hs_smsId w = NO_SOURCE")
    case True
    have "links data_source_of (insert (d, h) ?R) (ids s) (m_eventSources (ctrl s)) (m_eventSourcesIndex (ctrl s))"
      by (rule links_retired [of _ ?R]) (use s' True w d in \<open>auto simp: sys_ok_def ids_def\<close>)
    then have "going c b0 d C K (insert h G) s"
      using s' tidy_mono [of ?R s "insert (d, h) ?R"] unfolding going_def R(2) by (auto simp: sys_ok_def)
    then show ?thesis
      using True w by (simp add: end_source_def)
  next
    case False
    let ?f = "\<lambda>hw. hw\<lparr>hs_pulseSeqList := []\<rparr>"
    have start: "keeps_husks c b0 ?R (husks s) s"
      unfolding keeps_husks_def using s' by blast
    have len: "length (hs_pulseSeqList w) \<le> length (pulses_at (husks s) d h)"
      using w d by (simp add: pulses_at_hw)
    have rest: "yields never never (\<lambda>s'. going c b0 d C K (insert h G) s' \<and> length (sources s') = length (sources s))
        (give_up_source c pv d h (on_hw d h ?f s1))" if s1: "keeps_husks c b0 ?R (husks s) s1" for s1
    proof -
      let ?s2 = "on_hw d h ?f s1"
      have same: "husks s1 = husks s" and sys1: "sys_ok c b0 ?R s1"
        using s1 by (simp_all add: keeps_husks_def)
      have d1: "d < length (sources s1)" "length (sources s1) = length (sources s)"
        using husks_length [OF same] d by simp_all
      have sys2: "sys_ok c b0 ?R ?s2"
        using sys1 by (auto intro!: sys_ok_on_hw simp: hw_ok_def)
      have "tidy (insert (d, h) ?R) s1"
        using tidy_mono [OF tidy_husks [OF same]] s' by blast
      then have tidy2: "tidy (insert (d, h) ?R) ?s2"
        by (rule tidy_on_hw) simp
      have keys: "hw_at d h' ?s2 = None \<longleftrightarrow> h' \<notin> K" for h'
        using s' hw_at_husks [OF same d] d1(1) by (simp add: hw_at_on_hw)
      have core: "cores ?s2 = C"
        using cores_husks [OF same] s' by simp
      have "going c b0 d C K (insert h G) s3 \<and> length (sources s3) = length (sources s)"
        if s3: "keeps_husks c b0 (insert (d, h) ?R) (husks ?s2) s3" for s3
      proof -
        have same3: "husks s3 = husks ?s2"
          using s3 by (simp add: keeps_husks_def)
        show ?thesis
          using s3 tidy_husks [OF same3 tidy2] cores_husks [OF same3] core keys hw_at_husks [OF same3] d1
            husks_length [OF same3] unfolding going_def R(2) by (simp add: keeps_husks_def)
      qed
      then show ?thesis
        using yields_mono [OF give_up_source_ok [OF sys2 _ _ R(1)]] d1 keys h(1) by simp
    qed
    have run: "end_source c pv d h s = sbind (end_all c pv d h (length (hs_pulseSeqList w)) s)
        (\<lambda>s1. give_up_source c pv d h (on_hw d h ?f s1))"
      using False w by (simp add: end_source_def)
    show ?thesis
      unfolding run by (rule yields_bind [OF end_all_ok [OF start len] rest])
  qed
qed

lemma end_sources_ok:
  "going c b0 d C K G s \<Longrightarrow> d < length (sources s) \<Longrightarrow> distinct hs \<Longrightarrow> set hs \<subseteq> K \<Longrightarrow> set hs \<inter> G = {} \<Longrightarrow>
    yields never never (\<lambda>s'. going c b0 d C K (set hs \<union> G) s' \<and> length (sources s') = length (sources s))
      (end_sources c pv d hs s)"
proof (induction hs arbitrary: s G)
  case (Cons h hs)
  have rest: "yields never never (\<lambda>s'. going c b0 d C K (set (h # hs) \<union> G) s' \<and>
      length (sources s') = length (sources s)) (end_sources c pv d hs s1)"
    if "going c b0 d C K (insert h G) s1 \<and> length (sources s1) = length (sources s)" for s1
    using Cons.IH [of "insert h G" s1] that Cons.prems by (simp add: Un_commute insert_commute)
  show ?case
    unfolding end_sources.simps
    by (rule yields_bind [OF end_source_ok [OF Cons.prems(1,2)] rest]) (use Cons.prems in auto)
qed simp

lemma unregisterHWSources_ok:
  assumes ok: "good_state c b0 s" and d: "d < length (sources s)"
  shows "yields never never (\<lambda>s'. good_state c b0 s' \<and> cores s' = cores s \<and> ds_hwSources (source_at d s') = [])
    (unregisterHWSources c pv d s)"
proof -
  let ?hs = "List.map fst (ds_hwSources (source_at d s))"
  let ?f = "\<lambda>D. D\<lparr>ds_hwSources := []\<rparr>"
  have "going c b0 d (cores s) (set ?hs) {} s"
    using ok hw_at_keys [of _ d s] unfolding going_def good_state_def by auto
  from end_sources_ok [OF this d distinct_keys [OF ok d]]
  have ended: "yields never never (\<lambda>s'. going c b0 d (cores s) (set ?hs) (set ?hs) s' \<and>
      length (sources s') = length (sources s)) (end_sources c pv d ?hs s)"
    by simp
  have "good_state c b0 (on_source d ?f s1) \<and> cores (on_source d ?f s1) = cores s \<and>
      ds_hwSources (source_at d (on_source d ?f s1)) = []"
    if s1: "going c b0 d (cores s) (set ?hs) (set ?hs) s1 \<and> length (sources s1) = length (sources s)" for s1
  proof -
    let ?s2 = "on_source d ?f s1"
    have sys: "sys_ok c b0 (Pair d ` set ?hs) s1" and tidy1: "tidy (Pair d ` set ?hs) s1"
      and core: "cores s1 = cores s" and keys: "hw_at d h s1 = None \<longleftrightarrow> h \<notin> set ?hs"
      and d1: "d < length (sources s1)" for h
      using s1 d unfolding going_def by auto
    have hw: "hw_at k h ?s2 = (if k = d then None else hw_at k h s1)" for k h
      using d1 by (simp add: hw_at_def source_at_on_source)
    have "sys_ok c b0 {} ?s2"
    proof (rule remove_ok [OF sys])
      show "om_ok (ds_hwSources (source_at k ?s2)) \<and> ds_smsSourceId (source_at k ?s2) = ds_smsSourceId (source_at k s1)"
        if "k < length (sources s1)" for k
        using sys_okD(4) [OF sys that] d1 by (auto simp: source_at_on_source source_ok_def)
      show "hw_at k h ?s2 = hw_at k h s1 \<or> hw_at k h ?s2 = None \<and>
          (\<forall>w. hw_at k h s1 = Some w \<longrightarrow> hs_smsId w = NO_SOURCE \<or> (k, h) \<in> Pair d ` set ?hs)" for k h
        using keys [of h] by (auto simp: hw)
    qed (auto simp: hw)
    moreover have "tidy {} ?s2"
    proof (rule tidy_remove [OF tidy1])
      show "unwatched (source_at k ?s2)" if "unwatched (source_at k s1)" for k
        using that d1 by (auto simp: source_at_on_source unwatched_def)
    qed (auto simp: hw)
    moreover have "cores ?s2 = cores s1"
      using d1 by (simp add: cores_def on_source_def source_at_def map_update list_update_same_conv)
    ultimately show ?thesis
      using core d1 by (simp add: good_state_def source_at_on_source)
  qed
  then show ?thesis
    unfolding unregisterHWSources_def by (intro yields_bind [OF ended]) simp
qed

lemma good_state_length: "good_state c b0 s \<Longrightarrow> length (sources s) = unat (c_numDataSources c)"
  using sys_okD(5,6) [of c b0 "{}" s] by (simp add: good_state_def unat_of_nat_u32)

lemma forget_ok:
  assumes "good_state c b0 s"
  shows "good_state c b0 (on_source d forget_rtdl s)"
  by (rule good_state_on_source [OF assms]) (simp_all add: forget_rtdl_def unwatched_def)

text \<open>A lost connection.\<close>

lemma connectionFailed_ok:
  assumes ok: "good_state c b0 s" and d: "d < length (sources s)"
  shows "yields never never (\<lambda>s'. good_state c b0 s' \<and> ds_hwSources (source_at d s') = [] \<and>
    ds_state (source_at d s') = st) (connectionFailed c ev d st s)"
proof -
  let ?s1 = "on_source d (\<lambda>D. D\<lparr>ds_fdreg := False, ds_state := st\<rparr>) s"
  have s1: "good_state c b0 ?s1" "d < length (sources ?s1)"
    using d by (auto intro!: good_state_on_source [OF ok] simp: unwatched_def)
  have "good_state c b0 (on_source d forget_rtdl s2) \<and> ds_hwSources (source_at d (on_source d forget_rtdl s2)) = [] \<and>
      ds_state (source_at d (on_source d forget_rtdl s2)) = st"
    if s2: "good_state c b0 s2 \<and> cores s2 = cores ?s1 \<and> ds_hwSources (source_at d s2) = []" for s2
  proof -
    have "ds_state (source_at d s2) = st" "d < length (sources s2)"
      using s2 cores_at(1) [of s2 ?s1 d] s1 d good_state_length [of c b0]
      by (simp_all add: source_at_on_source) (metis length_on_source)
    then show ?thesis
      using s2 forget_ok by (simp add: source_at_on_source forget_rtdl_def)
  qed
  then show ?thesis
    unfolding connectionFailed_def by (intro yields_bind [OF unregisterHWSources_ok [OF s1]]) simp
qed

section \<open>The connection\<close>

text \<open>
  The environment does not report an error of \<open>connect\<close> that the code does not know, and the parser delivers
  whole packets.
\<close>

fun usual :: "happening \<Rightarrow> bool" where
  "usual (Enable d r) = (r \<noteq> Connect_Other)"
| "usual (Timeout d r) = (r \<noteq> Connect_Other)"
| "usual (Ready d cr ms rr) = list_all framed ms"
| "usual h = True"

lemma watch_ok:
  assumes "good_state c b0 s" and "st \<noteq> IDLE"
  shows "good_state c b0 (on_source d (watch st) s)"
  by (rule good_state_on_source [OF assms(1)]) (use assms(2) in \<open>simp_all add: watch_def unwatched_def\<close>)

lemma startConnect_ok:
  assumes ok: "good_state c b0 s" and d: "d < length (sources s)" and r: "r \<noteq> Connect_Other"
  shows "yields never never (good_state c b0) (startConnect c ev d r s)"
  using r watch_ok [OF ok] yields_mono [OF connectionFailed_ok [OF ok d]]
  by (cases r) (simp_all add: startConnect_def)

lemma fresh_retries_ok:
  "good_state c b0 s \<Longrightarrow> good_state c b0 (on_source d (fresh_retries ev) s)"
  by (rule good_state_on_source) (simp_all add: fresh_retries_def unwatched_def)

lemma connectComplete_ok:
  assumes ok: "good_state c b0 s" and d: "d < length (sources s)"
  shows "yields never never (good_state c b0) (connectComplete c ev d r s)"
proof -
  have "good_state c b0 (on_source d (\<lambda>D. fresh_retries ev (watch ACTIVE D)) s)"
    by (rule good_state_on_source [OF ok]) (simp_all add: fresh_retries_def watch_def unwatched_def)
  then show ?thesis
    using ok yields_mono [OF connectionFailed_ok [OF ok d]] by (cases r) (simp_all add: connectComplete_def)
qed

lemma rx_packet_ok:
  assumes ok: "good_state c b0 s" and d: "d < length (sources s)" and clock: "env_ok c ev" and mem: "framed mem"
  shows "yields never (good_state c b0) (good_state c b0) (rx_packet c ev d mem s)"
proof -
  have "yields never never (good_state c b0) (rx_Heartbeat c ev d s)"
    unfolding rx_Heartbeat_def by (rule yields_bind [OF unregisterHWSources_ok [OF ok d]]) (simp add: forget_ok)
  then show ?thesis
    using ok handleDataPkt_ok [OF ok d clock] yields_never [OF rx_RTDL_ok [OF ok d clock mem]]
      yields_mono [OF rx_SourceList_ok [OF ok d]] yields_never
    by (auto simp: rx_packet_def split: option.split pkt_kind.split)
qed

lemma rx_packets_ok:
  "good_state c b0 s \<Longrightarrow> d < length (sources s) \<Longrightarrow> env_ok c ev \<Longrightarrow> list_all framed ms \<Longrightarrow>
    yields never (good_state c b0) (good_state c b0) (rx_packets c ev d ms s)"
proof (induction ms arbitrary: s)
  case (Cons mem ms)
  show ?case
    unfolding rx_packets.simps
    by (rule yields_bind [OF rx_packet_ok [OF Cons.prems(1-3)]])
       (use Cons good_state_length [of c b0] in simp_all)
qed simp

lemma all_read_delay_ok:
  assumes "good_state c b0 s"
  shows "good_state c b0 (all_read_delay b s)"
proof -
  let ?s = "all_read_delay b s"
  have at: "source_at k ?s = (source_at k s)\<lparr>ds_readDelay := b\<rparr>" if "k < length (sources s)" for k
    using that by (simp add: source_at_def all_read_delay_def)
  have f: "ctrl ?s = ctrl s" "calls ?s = calls s" "length (sources ?s) = length (sources s)"
    by (simp_all add: all_read_delay_def)
  have hw: "hw_at k h ?s = hw_at k h s" if "k < length (sources s)" for k h
    by (simp add: hw_at_def at [OF that])
  have "ids ?s = ids s"
    by (auto simp: ids_def hw f fun_eq_iff)
  then have "sys_ok c b0 {} ?s"
    using assms by (auto simp: good_state_def sys_ok_def traced_def f at source_ok_def)
  moreover have "tidy {} ?s"
    using assms by (auto simp: good_state_def tidy_def f at hw unwatched_def)
  ultimately show ?thesis
    by (simp add: good_state_def)
qed

lemma start_read_ok:
  assumes ok: "good_state c b0 s"
  shows "good_state c b0 (start_read ev d s)"
proof -
  have "good_state c b0 (s\<lparr>dataReady_calls := dataReady_calls s + 1\<rparr>)"
    by (rule good_state_fields [OF ok]) simp_all
  moreover have "good_state c b0 (on_source d (\<lambda>D. D\<lparr>ds_data_timeout_retry_count := 0\<rparr>) t)"
    if "good_state c b0 t" for t
    by (rule good_state_on_source [OF that]) (simp_all add: unwatched_def)
  ultimately show ?thesis
    by (auto simp: start_read_def Let_def intro!: all_read_delay_ok fresh_retries_ok)
qed

lemma dataReady_ok:
  assumes ok: "good_state c b0 s" and d: "d < length (sources s)" and clock: "env_ok c ev" and ms: "list_all framed ms"
  shows "yields never never (good_state c b0) (dataReady c ev d ms r s)"
proof -
  have len: "d < length (sources t)" if "good_state c b0 t" for t
    using that d good_state_length [OF ok] good_state_length [of c b0 t] by simp
  have fail: "yields never never (good_state c b0) (connectionFailed c ev d IDLE t)" if "good_state c b0 t" for t
    by (rule yields_never [OF connectionFailed_ok [OF that len [OF that]]]) simp
  have slow: "good_state c b0 (all_read_delay True (t\<lparr>dataReady_calls := 998\<rparr>))" if "good_state c b0 t" for t
    by (rule all_read_delay_ok, rule good_state_fields [OF that]) simp_all
  note start = start_read_ok [OF ok, of ev d]
  from rx_packets_ok [OF start len [OF start] clock ms] fail slow show ?thesis
    by (auto simp: dataReady_def yields_def [of never "good_state c b0"]
        split: sum.splits fault.splits read_result.split)
qed

lemma timerExpired_ok:
  assumes ok: "good_state c b0 s" and d: "d < length (sources s)" and r: "r \<noteq> Connect_Other"
  shows "yields never never (good_state c b0) (timerExpired c ev d r s)"
proof -
  have calm: "good_state c b0 (end_delay d t)" if "good_state c b0 t" for t
    unfolding end_delay_def by (rule good_state_on_source [OF that]) (simp_all add: unwatched_def)
  have cnt: "good_state c b0 (on_source d count_timeout s)"
    by (rule good_state_on_source [OF ok]) (simp_all add: count_timeout_def unwatched_def)
  have fail: "yields never never (good_state c b0) (connectionFailed c ev d IDLE t)"
    if "good_state c b0 t" "d < length (sources t)" for t
    by (rule yields_never [OF connectionFailed_ok [OF that]]) simp
  show ?thesis
    using calm [OF ok] calm [OF fresh_retries_ok [OF ok]] cnt fail [OF cnt] fail [OF ok d] startConnect_ok [OF ok d r] d
    by (auto simp: timerExpired_def Let_def split: link_state.split)
qed

lemma happen_ok:
  assumes ok: "good_state c b0 s" and clock: "env_ok c ev" and h: "usual h"
  shows "yields never never (good_state c b0) (happen c ev h s)"
proof (cases h)
  case (Enable d r)
  let ?s = "on_source d (\<lambda>D. D\<lparr>ds_state := IDLE\<rparr>) s"
  have "good_state c b0 (on_source d (watch st) ?s)" if "st \<noteq> IDLE" for st
  proof -
    have "on_source d (watch st) ?s = on_source d (watch st) s"
      by (cases "d < length (sources s)")
         (simp_all add: on_source_def source_at_def watch_def list_update_beyond not_less)
    then show ?thesis using watch_ok [OF ok that] by simp
  qed
  moreover have "yields never never (good_state c b0) (connectionFailed c ev d IDLE ?s)" if "d < length (sources s)"
  proof -
    have "connectionFailed c ev d IDLE ?s = connectionFailed c ev d IDLE s"
      using that by (simp add: connectionFailed_def on_source_def source_at_def)
    then show ?thesis
      using yields_never [OF connectionFailed_ok [OF ok that]] by simp
  qed
  ultimately show ?thesis
    using ok h yields_never
    by (cases r) (auto simp: Enable enabled_def startConnect_def)
next
  case (Disable d)
  then show ?thesis
    using ok yields_never [OF connectionFailed_ok [OF ok]] by (simp add: disabled_def)
next
  case (Ready d cr ms rr)
  have "ds_state (source_at d s) \<noteq> IDLE" if "d < length (sources s)" "ds_fdreg (source_at d s)"
    using ok that by (auto simp: good_state_def unwatched_def dest: tidyD(1))
  then show ?thesis
    using ok dataReady_ok [OF ok _ clock] h yields_never [OF connectComplete_ok [OF ok]]
    by (auto simp: Ready fdReady_def split: link_state.split)
next
  case (Timeout d r)
  then have "r \<noteq> Connect_Other"
    using h by simp
  then show ?thesis
    using ok yields_never [OF timerExpired_ok [OF ok]] by (simp add: Timeout)
next
  case (Pop_Pulse i)
  have "yields never never (\<lambda>s'. sys_ok c b0 {} s' \<and> husks s' = husks s) (control c (e_ctrl ev) (Pop i) s)"
    using control_plain [of c b0 "{}" s "Pop i" "e_ctrl ev"] ok
    by (auto simp: good_state_def call_proper_def elim!: yields_mono)
  then show ?thesis
    using good_state_husks [OF ok] by (auto simp: Pop_Pulse keeps_husks_def elim!: yields_mono)
qed

definition run_ok :: "sms_config \<Rightarrow> (env \<times> happening) list \<Rightarrow> bool" where
  "run_ok c = list_all (\<lambda>(ev, h). env_ok c ev \<and> usual h)"

lemma run_system_ok:
  "good_state c b0 s \<Longrightarrow> run_ok c es \<Longrightarrow> yields never never (good_state c b0) (run_system c es s)"
proof (induction es arbitrary: s)
  case (Cons e es)
  obtain ev h where e: "e = (ev, h)" by fastforce
  show ?case
    unfolding e run_system.simps
    by (rule yields_bind [OF happen_ok [OF Cons.prems(1)]]) (use Cons in \<open>auto simp: run_ok_def e\<close>)
qed simp

text \<open>The system as it starts.\<close>

lemma new_buffer_good: "collect_ok c co \<Longrightarrow> co_calls co = [] \<Longrightarrow> good_buffer c (new_buffer pv co)"
  by (simp add: good_buffer_def new_buffer_def good_collect_def good_output_def)

lemma new_system_ok:
  assumes "length pvs < 4294967296" and "c_numDataSources c = of_nat (length pvs)" and "config_ok c"
    and "collect_ok c co" and "co_calls co = []"
  shows "good_state c (new_buffer pv co) (new_system pv co pvs)"
proof -
  have at: "source_at d (new_system pv co pvs) = new_data_source (of_nat (Suc d)) (pvs ! d)" if "d < length pvs" for d
    using that by (simp add: source_at_def new_system_def)
  then have none: "hw_at d h (new_system pv co pvs) = None" if "d < length pvs" for d h
    using that by (simp add: hw_at_def new_data_source_def)
  have f: "length (sources (new_system pv co pvs)) = length pvs" "ctrl (new_system pv co pvs) = new_buffer pv co"
    "calls (new_system pv co pvs) = []"
    by (simp_all add: new_system_def)
  have "links data_source_of {} (ids (new_system pv co pvs)) 0 (replicate 256 (- 1))"
    by (rule linksI) (auto simp: ids_def f none split: if_splits)
  then have "sys_ok c (new_buffer pv co) {} (new_system pv co pvs)"
    using assms new_buffer_ok [of pv co] new_buffer_good [OF assms(4,5), of pv]
    by (auto simp: sys_ok_def traced_def f at source_ok_def new_data_source_def new_buffer_def SOURCE_SET_SIZE_def)
  moreover have "tidy {} (new_system pv co pvs)"
    by (auto simp: tidy_def f none at unwatched_def new_data_source_def)
  ultimately show ?thesis
    by (simp add: good_state_def)
qed

end
