(* ===== verification/Source_Sample.thy ===== *)
theory Source_Sample
  imports Data_Source Pulse_Stream
begin

text \<open>
  A run of the service with one data source, evaluated: the connection comes up, then two pulses arrive
  in one read, the first with its end. It does not depend on the pixel map, the settings of the packets
  or the table of event sources it starts with.
\<close>

section \<open>The inputs\<close>

definition run_pvs :: source_pvs where
  "run_pvs =
     \<lparr>pv_checkSourceSequence = False, pv_checkPulseSequence = True, pv_mixedDataPackets = False,
      pv_ignoreEoP = False, pv_maxPulseSeqList = 2, pv_rtdlNoDataThresh = 100, pv_dataTimeoutRetry = 1\<rparr>"

definition config_with :: "pixel_map \<Rightarrow> sms_config" where
  "config_with pm =
     \<lparr>c_pixelMap = pm, c_maxBank = 6,
      c_alloc = (\<lambda>d. d), c_pulseEnergy = (\<lambda>_. 0), c_interPulseTime = 16666666, c_targetStation = 1,
      c_target1Mask = 0xfff, c_target2Mask = 0, c_numDataSources = 1\<rparr>"

definition env_with :: "settings \<Rightarrow> env" where
  "env_with st = \<lparr>e_ctrl = quiet_pvs, e_source = run_pvs, e_settings = st, e_now = 1700000000\<rparr>"

text \<open>A raw event packet without events for hardware source 17.\<close>

definition data_packet :: "u32 \<Rightarrow> u32 \<Rightarrow> bool \<Rightarrow> bytes" where
  "data_packet t charge eop = words_bytes
     [24, 0, 1000000000, t, 17, if eop then 0x80000000 else 0, charge, 0, 0, 0]"

definition events_with :: "settings \<Rightarrow> (env \<times> happening) list" where
  "events_with st = List.map (Pair (env_with st))
     [Enable 0 Connect_Done, Ready 0 Connect_Done [data_packet 1 0 True, data_packet 2 0 False] Read_Open]"

definition system_outcome where
  "system_outcome r = (case r of Inl e \<Rightarrow> None | Inr s \<Rightarrow>
     Some (m_eventSources (ctrl s), List.map fst (m_pulses (ctrl s)), List.map m_id (recorded (ctrl s)),
       List.map (\<lambda>D. (ds_state D, List.map (\<lambda>(h, hw). (h, hs_smsId hw, hs_lastPulse hw,
         List.map (\<lambda>e. (entry_key e, pi_pulseGood (fst e))) (hs_pulseSeqList hw))) (ds_hwSources D))) (sources s),
       m_intermittentDataThreshold (ctrl s), List.map call_key (List.map snd (calls s)),
       List.map length (concat (List.map call_bytes (co_calls (collected (ctrl s)))))))"

definition start_with :: "u32 list \<Rightarrow> system" where
  "start_with idx =
     (let s = new_system quiet_pvs sample_collect [run_pvs] in
      s\<lparr>ctrl := (ctrl s)\<lparr>m_eventSourcesIndex := idx\<rparr>\<rparr>)"

lemma outcome_with:
  "system_outcome (run_system (config_with pm) (events_with st) (start_with idx)) =
     Some (1, [(4294967296000000002, 0)], [(4294967296000000001, 0)],
       [(ACTIVE, [(17, 0, 4294967296000000002,
          [((4294967296000000002, 0), True), ((4294967296000000001, 0), False)])])], 0,
       [None, Some (4294967296000000001, 0), Some (4294967296000000001, 0), Some (4294967296000000002, 0)], [32, 48])"
  by code_simp

section \<open>The run\<close>

definition run_config :: sms_config where "run_config = config_with (new_PixelMap sample_map)"
definition run_env :: env where "run_env = env_with sample_settings"
definition run_events :: "(env \<times> happening) list" where "run_events = events_with sample_settings"

lemma run_events_outcome:
  "system_outcome (run_system run_config run_events (new_system quiet_pvs sample_collect [run_pvs])) =
     Some (1, [(4294967296000000002, 0)], [(4294967296000000001, 0)],
       [(ACTIVE, [(17, 0, 4294967296000000002,
          [((4294967296000000002, 0), True), ((4294967296000000001, 0), False)])])], 0,
       [None, Some (4294967296000000001, 0), Some (4294967296000000001, 0), Some (4294967296000000002, 0)], [32, 48])"
proof -
  have "new_system quiet_pvs sample_collect [run_pvs] = start_with (replicate SOURCE_SET_SIZE (- 1))"
    by (simp add: start_with_def new_system_def new_buffer_def Let_def)
  then show ?thesis
    by (simp add: run_config_def run_events_def outcome_with)
qed

lemma run_events_state:
  obtains s hw where
    "run_system run_config run_events (new_system quiet_pvs sample_collect [run_pvs]) = Inr s"
    "m_eventSources (ctrl s) = 1" "List.map m_id (recorded (ctrl s)) = [(4294967296000000001, 0)]"
    "m_intermittentDataThreshold (ctrl s) = 0"
    "0 < length (sources s)" "hw_at 0 17 s = Some hw" "hs_smsId hw = 0"
    "List.map (\<lambda>e. (entry_key e, pi_pulseGood (fst e))) (hs_pulseSeqList hw) =
      [((4294967296000000002, 0), True), ((4294967296000000001, 0), False)]"
    "List.map length (concat (List.map call_bytes (co_calls (collected (ctrl s))))) = [32, 48]"
proof -
  obtain s where s: "run_system run_config run_events (new_system quiet_pvs sample_collect [run_pvs]) = Inr s"
    using run_events_outcome by (auto simp: system_outcome_def split: sum.splits)
  then obtain D hw where at: "sources s = [D]" "ds_hwSources D = [(17, hw)]"
    using run_events_outcome by (auto simp: system_outcome_def)
  then show ?thesis
    using s run_events_outcome by (intro that [of s hw]) (auto simp: system_outcome_def hw_at_def source_at_def)
qed

end
