(* ===== verification/Data_Runs.thy ===== *)
theory Data_Runs
  imports Source_Runs Source_Sample
begin

text \<open>
  What holds for the service with its data sources in any run: it does not fail by its own fault, event
  sources are held and given back, the lists of pulses keep their size, a silent or closed connection
  leaves nothing behind, and the pulse buffer is a queue for every stream of packets. The last section is
  about inputs for which the code does something else than it means to.
\<close>

text \<open>
  The service as it starts: it knows its data sources, its configuration comes from a pixel map that was
  read, and nothing was put out yet.
\<close>

definition starts_ok :: "sms_config \<Rightarrow> collect \<Rightarrow> source_pvs list \<Rightarrow> bool" where
  "starts_ok c co pvs \<longleftrightarrow> length pvs < 4294967296 \<and> c_numDataSources c = of_nat (length pvs) \<and>
     config_ok c \<and> collect_ok c co \<and> co_calls co = []"

lemma started_ok:
  assumes "starts_ok c co pvs" and "run_ok c es"
  obtains s where "run_system c es (new_system pv co pvs) = Inr s" "good_state c (new_buffer pv co) s"
proof -
  have "good_state c (new_buffer pv co) (new_system pv co pvs)"
    by (rule new_system_ok) (use assms(1) in \<open>simp_all add: starts_ok_def\<close>)
  from yields_total [OF run_system_ok [OF this assms(2)]] show ?thesis
    using that by blast
qed

lemma started_state:
  assumes "starts_ok c co pvs" and "run_ok c es" and "run_system c es (new_system pv co pvs) = Inr s"
  shows "good_state c (new_buffer pv co) s" and "length (sources s) = length pvs"
proof -
  show good: "good_state c (new_buffer pv co) s"
    using started_ok [OF assms(1,2), of pv] assms(3) by auto
  show "length (sources s) = length pvs"
    using good_state_length [OF good] assms(1) by (simp add: starts_ok_def unat_of_nat_u32)
qed

section \<open>The run of the examples\<close>

lemma run_starts_ok: "starts_ok run_config sample_collect [run_pvs]"
proof -
  have six: "pm_numBanks (new_PixelMap sample_map) + 2 = 6"
    by (simp add: new_PixelMap_def largest_bank_def sample_map_def UNMAPPED_BANK_def)
  then have c: "config_ok run_config" "c_maxBank run_config = c_maxBank sample_config"
    using readMap_sample
    by (auto simp: config_ok_def run_config_def config_with_def sample_config_def REAL_BANK_OFFSET_def)
  have "collect_ok run_config sample_collect"
    using sample_collect_ok unfolding collect_ok_def c(2) .
  then show ?thesis
    using c(1) by (simp add: starts_ok_def run_config_def config_with_def sample_collect_def)
qed

lemma run_env_ok: "env_ok run_config run_env"
  by (simp add: env_ok_def run_env_def env_with_def settings_ok_def sample_settings_def)

lemma framed_data_packet: "framed (data_packet t charge eop)"
  unfolding data_packet_def by (rule framed_words) simp_all

lemma run_events_ok: "run_ok run_config run_events"
  using run_env_ok
  by (simp add: run_ok_def run_events_def events_with_def run_env_def framed_data_packet)

section \<open>No failure of its own\<close>



section \<open>The output\<close>

text \<open>
  C5. Whatever arrives, the packets the service puts out for its recorded pulses are whole packets: a
  reader's parser splits the stream of all of them into exactly these packets (as long as each is
  shorter than the 32 bits of its length).
\<close>

theorem system_output_framed:
  assumes "starts_ok c co pvs" and "run_ok c es" and "run_system c es (new_system pv co pvs) = Inr s"
    and "out = concat (List.map call_bytes (co_calls (collected (ctrl s))))"
    and "\<forall>b \<in> set out. length b < 4294967296"
  shows "well_framed (concat out) \<and> cut mx (concat out) = (out, 0, [])"
proof -
  have "good_output (co_calls (collected (ctrl s)))"
    using started_state(1) [OF assms(1-3)]
    by (simp add: good_state_def sys_ok_def traced_def good_buffer_def good_collect_def)
  then have "\<forall>b \<in> set out. framed b"
    using assms(4,5) by (auto simp: good_output_def)
  then show ?thesis
    using framed_stream by blast
qed

theorem system_output_framed_witness:
  "\<exists>s out. run_system run_config run_events (new_system quiet_pvs sample_collect [run_pvs]) = Inr s \<and>
    out = concat (List.map call_bytes (co_calls (collected (ctrl s)))) \<and> length out = 2 \<and>
    cut 4096 (concat out) = (out, 0, [])"
proof -
  obtain s where s: "run_system run_config run_events (new_system quiet_pvs sample_collect [run_pvs]) = Inr s"
    and len: "List.map length (concat (List.map call_bytes (co_calls (collected (ctrl s))))) = [32, 48]"
    by (rule run_events_state)
  let ?out = "concat (List.map call_bytes (co_calls (collected (ctrl s))))"
  have "length b \<in> {32, 48}" if "b \<in> set ?out" for b
    using arg_cong [OF len, of set] that by (metis (no_types, lifting) image_eqI list.set_map empty_set list.simps(15))
  then have "\<forall>b \<in> set ?out. length b < 4294967296"
    by force
  from system_output_framed [OF run_starts_ok run_events_ok s refl this, of 4096]
  show ?thesis
    using s arg_cong [OF len, of length] by (intro exI [of _ s] exI [of _ ?out]) simp
qed

section \<open>Event sources\<close>

lemma held_by:
  "ids s x = Some i \<longleftrightarrow> fst x < length (sources s) \<and> (\<exists>hw. hw_at (fst x) (snd x) s = Some hw \<and> hs_smsId hw = i)"
  by (auto simp: ids_def split: prod.splits)

lemma good_state_linked: "good_state c b0 s \<Longrightarrow> linked {} s"
  by (simp add: good_state_def sys_ok_def)

text \<open>
  C3. In any run an event source of the service is registered exactly while one hardware source of one
  data source holds its identifier, and the service knows which data source that is. So the service
  never waits for a source that is gone, and never takes two senders for one.
\<close>

theorem event_sources_held:
  assumes "starts_ok c co pvs" and "run_ok c es" and "run_system c es (new_system pv co pvs) = Inr s"
  shows "(\<forall>n. bit (m_eventSources (ctrl s)) n \<longrightarrow>
      (\<exists>!x. fst x < length (sources s) \<and>
         (\<exists>hw. hw_at (fst x) (snd x) s = Some hw \<and> hs_smsId hw = of_nat n))) \<and>
    (\<forall>d h hw. d < length (sources s) \<longrightarrow> hw_at d h s = Some hw \<longrightarrow> hs_smsId hw \<noteq> NO_SOURCE \<longrightarrow>
      bit (m_eventSources (ctrl s)) (unat (hs_smsId hw)) \<and>
      m_eventSourcesIndex (ctrl s) ! unat (hs_smsId hw) = of_nat d)"
proof -
  have l: "linked {} s"
    by (rule good_state_linked [OF started_state(1) [OF assms(1-3)]])
  have "bit (m_eventSources (ctrl s)) (unat (hs_smsId hw)) \<and>
      m_eventSourcesIndex (ctrl s) ! unat (hs_smsId hw) = of_nat d"
    if "d < length (sources s)" "hw_at d h s = Some hw" "hs_smsId hw \<noteq> NO_SOURCE" for d h hw
    using links_held(3,4) [OF l, of "(d, h)"] that by (simp add: held_by data_source_of_def)
  moreover have "\<exists>!x. fst x < length (sources s) \<and>
      (\<exists>hw. hw_at (fst x) (snd x) s = Some hw \<and> hs_smsId hw = of_nat n)"
    if "bit (m_eventSources (ctrl s)) n" for n
    using l that unfolding links_def held_by by blast
  ultimately show ?thesis
    by blast
qed

theorem event_sources_held_witness:
  "\<exists>s. run_system run_config run_events (new_system quiet_pvs sample_collect [run_pvs]) = Inr s \<and>
    (\<exists>!x. fst x < length (sources s) \<and>
      (\<exists>hw. hw_at (fst x) (snd x) s = Some hw \<and> hs_smsId hw = of_nat 0))"
proof -
  obtain s where s: "run_system run_config run_events (new_system quiet_pvs sample_collect [run_pvs]) = Inr s"
    "m_eventSources (ctrl s) = 1"
    by (rule run_events_state)
  have "bit (m_eventSources (ctrl s)) 0"
    by (simp add: s(2))
  then have "\<exists>!x. fst x < length (sources s) \<and> (\<exists>hw. hw_at (fst x) (snd x) s = Some hw \<and> hs_smsId hw = of_nat 0)"
    using event_sources_held [OF run_starts_ok run_events_ok s(1)] by blast
  with s(1) show ?thesis by blast
qed

section \<open>The buffer as a queue, for every stream of packets\<close>



section \<open>The lists of pulses\<close>

text \<open>
  C22. In any run the list of pulses of every hardware source is within its size, which is at least one,
  \<open>m_lastPulse\<close> is the latest time in the list, only pulses of a real time are marked as good, and a
  suspended source holds no event source.
\<close>

theorem pulse_lists_exact:
  assumes "starts_ok c co pvs" and "run_ok c es" and "run_system c es (new_system pv co pvs) = Inr s"
    and "d < length (sources s)" and "hw_at d h s = Some hw"
  shows "length (hs_pulseSeqList hw) \<le> unat (hs_maxPulseSeqList hw) \<and> 1 \<le> unat (hs_maxPulseSeqList hw) \<and>
    hs_lastPulse hw = fold (\<lambda>e m. max m (pi_pulseId (fst e))) (hs_pulseSeqList hw) 0 \<and>
    (\<forall>e \<in> set (hs_pulseSeqList hw). pi_pulseGood (fst e) \<longrightarrow> pi_pulseId (fst e) \<notin> {0, - 1}) \<and>
    (hs_intermittent hw \<longrightarrow> hs_smsId hw = NO_SOURCE)"
proof -
  have good: "good_state c (new_buffer pv co) s"
    by (rule started_state(1) [OF assms(1-3)])
  then have "loose 0 hw"
    using tidyD(2) [of "{}" s d h hw] assms(4,5) by (simp add: good_state_def)
  moreover have "hw_ok hw"
    using good sys_okD(4) [of c "new_buffer pv co" "{}" s d] assms(4,5)
    by (auto simp: good_state_def source_ok_def hw_at_def)
  ultimately show ?thesis
    by (auto simp: loose_def hw_ok_def sane_def newest_fold zero_max)
qed

theorem pulse_lists_exact_witness:
  "\<exists>s hw. run_system run_config run_events (new_system quiet_pvs sample_collect [run_pvs]) = Inr s \<and>
    hw_at 0 17 s = Some hw \<and>
    hs_lastPulse hw = fold (\<lambda>e m. max m (pi_pulseId (fst e))) (hs_pulseSeqList hw) 0"
proof -
  obtain s hw where s: "run_system run_config run_events (new_system quiet_pvs sample_collect [run_pvs]) = Inr s"
    and hw: "0 < length (sources s)" "hw_at 0 17 s = Some hw"
    by (rule run_events_state)
  from pulse_lists_exact [OF run_starts_ok run_events_ok s hw] s hw(2) show ?thesis
    by blast
qed

section \<open>Connections that end\<close>

lemma none_left:
  assumes good: "good_state c b0 s" and d: "d < length (sources s)" and none: "ds_hwSources (source_at d s) = []"
    and n: "bit (m_eventSources (ctrl s)) n"
  shows "m_eventSourcesIndex (ctrl s) ! n \<noteq> of_nat d"
proof -
  obtain x where x: "ids s x = Some (of_nat n)" "m_eventSourcesIndex (ctrl s) ! n = data_source_of x"
    using links_holder [OF good_state_linked [OF good] n] by metis
  then obtain hw where "fst x < length (sources s)" "hw_at (fst x) (snd x) s = Some hw"
    by (auto simp: held_by)
  moreover from this have "fst x \<noteq> d"
    using none by (auto simp: hw_at_def)
  moreover have "length (sources s) < 4294967296"
    using good by (simp add: good_state_def sys_ok_def)
  ultimately have "unat (of_nat (fst x) :: u32) \<noteq> unat (of_nat d :: u32)"
    using d by (simp add: unat_of_nat_u32)
  then show ?thesis
    using x(2) by (metis data_source_of_def)
qed

definition holds_nothing :: "nat \<Rightarrow> system \<Rightarrow> bool" where
  "holds_nothing d s \<longleftrightarrow> ds_hwSources (source_at d s) = [] \<and>
     (\<forall>n. bit (m_eventSources (ctrl s)) n \<longrightarrow> m_eventSourcesIndex (ctrl s) ! n \<noteq> of_nat d)"

lemma connection_ends:
  assumes good: "good_state c b0 s" and d: "d < length (sources s)"
  obtains s' where "connectionFailed c ev d st s = Inr s'" "good_state c b0 s'"
    "ds_state (source_at d s') = st" "holds_nothing d s'"
proof -
  obtain s' where s': "connectionFailed c ev d st s = Inr s'" "good_state c b0 s'"
    "ds_hwSources (source_at d s') = []" "ds_state (source_at d s') = st"
    using yields_total [OF connectionFailed_ok [OF good d]] by blast
  have "d < length (sources s')"
    using d good_state_length [OF good] good_state_length [OF s'(2)] by simp
  then have "holds_nothing d s'"
    using none_left [OF s'(2) _ s'(3)] s'(3) unfolding holds_nothing_def by blast
  with s'(1,2,4) show ?thesis
    by (rule that)
qed

lemma silent_ends:
  assumes "good_state c b0 s" and "d < length (sources s)"
    and "ds_state (source_at d s) = ACTIVE" and "\<not> ds_readDelay (source_at d s)"
    and "unat (ds_data_timeout_retry (source_at d s)) < 4294967295"
    and "ds_data_timeout_retry_count (source_at d s) \<le> ds_data_timeout_retry (source_at d s)"
    and "length xs = Suc (unat (ds_data_timeout_retry (source_at d s)) -
      unat (ds_data_timeout_retry_count (source_at d s)))"
  shows "\<exists>s'. run_system c (List.map (\<lambda>(ev, r). (ev, Timeout d r)) xs) s = Inr s' \<and>
    ds_state (source_at d s') = IDLE \<and> holds_nothing d s'"
  using assms
proof (induction xs arbitrary: s)
  case (Cons x xs)
  obtain ev r where x: "x = (ev, r)" by fastforce
  let ?D = "source_at d s" and ?s = "on_source d count_timeout s"
  have good: "good_state c b0 ?s"
    by (rule good_state_on_source [OF Cons.prems(1)]) (simp_all add: count_timeout_def unwatched_def)
  have at: "source_at d ?s = count_timeout ?D" and len: "d < length (sources ?s)"
    using Cons.prems(2) by (simp_all add: source_at_on_source)
  have le: "unat (ds_data_timeout_retry_count ?D) \<le> unat (ds_data_timeout_retry ?D)"
    using Cons.prems(6) by (simp add: word_le_nat_alt)
  then have cnt: "unat (ds_data_timeout_retry_count ?D + 1) = Suc (unat (ds_data_timeout_retry_count ?D))"
    using Cons.prems(5) by (simp add: unat_word_ariths)
  have step: "happen c ev (Timeout d r) s =
      (if ds_data_timeout_retry ?D < ds_data_timeout_retry_count ?D + 1
       then connectionFailed c ev d IDLE ?s else Inr ?s)"
    using Cons.prems(2-4) at by (simp add: timerExpired_def Let_def count_timeout_def)
  show ?case
  proof (cases "unat (ds_data_timeout_retry_count ?D) = unat (ds_data_timeout_retry ?D)")
    case True
    obtain s' where "connectionFailed c ev d IDLE ?s = Inr s'" "ds_state (source_at d s') = IDLE" "holds_nothing d s'"
      by (rule connection_ends [OF good len])
    moreover have "xs = []"
      using Cons.prems(7) True by simp
    moreover have "ds_data_timeout_retry ?D < ds_data_timeout_retry_count ?D + 1"
      using True cnt by (simp add: word_less_nat_alt)
    ultimately show ?thesis
      using step by (simp add: x del: happen.simps)
  next
    case False
    then have "\<not> ds_data_timeout_retry ?D < ds_data_timeout_retry_count ?D + 1"
      using le cnt by (simp add: word_less_nat_alt)
    moreover have "\<exists>s'. run_system c (List.map (\<lambda>(ev, r). (ev, Timeout d r)) xs) ?s = Inr s' \<and>
        ds_state (source_at d s') = IDLE \<and> holds_nothing d s'"
    proof (rule Cons.IH [OF good len])
      show "length xs = Suc (unat (ds_data_timeout_retry (source_at d ?s)) -
          unat (ds_data_timeout_retry_count (source_at d ?s)))"
        using Cons.prems(7) False le cnt by (simp add: at count_timeout_def)
      show "ds_data_timeout_retry_count (source_at d ?s) \<le> ds_data_timeout_retry (source_at d ?s)"
        using False le cnt by (simp add: at count_timeout_def word_le_nat_alt)
    qed (use Cons.prems in \<open>simp_all add: at count_timeout_def\<close>)
    ultimately show ?thesis
      using step by (simp add: x del: happen.simps)
  qed
qed simp

text \<open>
  C23. A connection on which nothing comes is given up: when the timer of an active data source runs out
  once more than the retries that are left (with no data in between and no read delay), the data source
  is idle, has no hardware source, and no event source of the service is one of its own, whatever the
  run was before.
\<close>

theorem silent_source_disconnected:
  assumes "starts_ok c co pvs" and "run_ok c es" and "run_system c es (new_system pv co pvs) = Inr s"
    and "d < length pvs" and "ds_state (source_at d s) = ACTIVE" and "\<not> ds_readDelay (source_at d s)"
    and "unat (ds_data_timeout_retry (source_at d s)) < 4294967295"
    and "ds_data_timeout_retry_count (source_at d s) \<le> ds_data_timeout_retry (source_at d s)"
    and "length xs = Suc (unat (ds_data_timeout_retry (source_at d s)) -
      unat (ds_data_timeout_retry_count (source_at d s)))"
  shows "\<exists>s'. run_system c (List.map (\<lambda>(ev, r). (ev, Timeout d r)) xs) s = Inr s' \<and>
    ds_state (source_at d s') = IDLE \<and> ds_hwSources (source_at d s') = [] \<and>
    (\<forall>n. bit (m_eventSources (ctrl s')) n \<longrightarrow> m_eventSourcesIndex (ctrl s') ! n \<noteq> of_nat d)"
  using silent_ends [OF started_state(1) [OF assms(1-3)] _ assms(5-9)] started_state(2) [OF assms(1-3)] assms(4)
  by (simp add: holds_nothing_def)

lemma silent_start:
  "\<exists>s. run_system run_config [(run_env, Enable 0 Connect_Done)] (new_system quiet_pvs sample_collect [run_pvs]) = Inr s \<and>
    ds_state (source_at 0 s) = ACTIVE \<and> \<not> ds_readDelay (source_at 0 s) \<and>
    ds_data_timeout_retry (source_at 0 s) = 1 \<and> ds_data_timeout_retry_count (source_at 0 s) = 0"
  by (simp add: new_system_def new_data_source_def enabled_def startConnect_def on_source_def source_at_def
      watch_def run_pvs_def)

theorem silent_source_disconnected_witness:
  "\<exists>s s'. run_system run_config [(run_env, Enable 0 Connect_Done)]
      (new_system quiet_pvs sample_collect [run_pvs]) = Inr s \<and>
    run_system run_config (List.map (\<lambda>(ev, r). (ev, Timeout 0 r)) [(run_env, Connect_Done), (run_env, Connect_Done)]) s =
      Inr s' \<and> ds_state (source_at 0 s') = IDLE"
proof -
  obtain s where s: "run_system run_config [(run_env, Enable 0 Connect_Done)]
      (new_system quiet_pvs sample_collect [run_pvs]) = Inr s" "ds_state (source_at 0 s) = ACTIVE"
    "\<not> ds_readDelay (source_at 0 s)" "ds_data_timeout_retry (source_at 0 s) = 1"
    "ds_data_timeout_retry_count (source_at 0 s) = 0"
    using silent_start by blast
  have "run_ok run_config [(run_env, Enable 0 Connect_Done)]"
    using run_env_ok by (simp add: run_ok_def)
  from silent_source_disconnected [OF run_starts_ok this s(1) _ s(2,3),
      of "[(run_env, Connect_Done), (run_env, Connect_Done)]"] s(4,5)
  obtain s' where "run_system run_config
      (List.map (\<lambda>(ev, r). (ev, Timeout 0 r)) [(run_env, Connect_Done), (run_env, Connect_Done)]) s = Inr s'"
    "ds_state (source_at 0 s') = IDLE"
    by (auto simp del: run_system.simps)
  with s(1) show ?thesis by blast
qed

section \<open>The end of a pulse\<close>

text \<open>With the check for intermittent sources off, a call touches no data source.\<close>

definition no_check :: "live_pvs \<Rightarrow> system \<Rightarrow> bool" where
  "no_check pv s \<longleftrightarrow> m_intermittentDataThreshold (ctrl s) = 0 \<and> pv_intermittentDataThreshold pv = 0"

lemma threshold_complete:
  "m_intermittentDataThreshold (record_complete c pv l b) = m_intermittentDataThreshold b"
  by (simp add: record_complete_def poll_buffer_size_def poll_corrections_def Let_def split: option.split)

lemma quiet_call:
  assumes "op = Partial k \<or> op = Complete k i" and "apply_call c pv op b = Inr b'"
    and "m_intermittentDataThreshold b = 0" and "pv_intermittentDataThreshold pv = 0"
  shows "intermittent b' = intermittent b \<and> m_intermittentDataThreshold b' = 0"
  using assms(1)
proof
  assume "op = Partial k"
  then obtain k1 b1 where "getPulse c pv k b = Inr (k1, b1)" "b' = on_pulse k1 (set_flag PARTIAL_DATA) b1"
    using assms(2) by (auto simp: markPartial_def sbind_eq_Inr)
  then show ?thesis
    using registry_getPulse [of c pv k b k1 b1] threshold_getPulse [of c pv k b k1 b1] assms(3)
    by (simp add: registry_def on_pulse_def)
next
  let ?b = "poll_threshold pv b"
  assume op: "op = Complete k i"
  obtain k1 b1 where g: "getPulse c pv k ?b = Inr (k1, b1)"
    and b': "\<exists>ps l. b' = b1\<lparr>m_pulses := ps\<rparr> \<or> b' = record_complete c pv l (b1\<lparr>m_pulses := ps\<rparr>)"
    using assms(2) by (auto simp: op markComplete_def threshold_off [OF assms(3,4)] sbind_eq_Inr Let_def
        split: if_splits prod.splits option.splits) blast+
  have "registry ?b = registry b"
    by (simp add: registry_simps)
  moreover have "m_intermittentDataThreshold ?b = 0"
    using assms(3,4) by (simp add: poll_threshold_def Let_def)
  ultimately have "registry b1 = registry b" "m_intermittentDataThreshold b1 = 0"
    using registry_getPulse [OF g] threshold_getPulse [OF g] by simp_all
  moreover obtain ps l where "b' = b1\<lparr>m_pulses := ps\<rparr> \<or> b' = record_complete c pv l (b1\<lparr>m_pulses := ps\<rparr>)"
    using b' by blast
  ultimately have "registry b' = registry b" "m_intermittentDataThreshold b' = 0"
    by (auto simp: registry_simps threshold_complete)
  then show ?thesis
    by (simp add: registry_def)
qed

lemma quiet_control:
  assumes "op = Partial k \<or> op = Complete k i" and "control c pv op s = Inr s'" and "no_check pv s"
  shows "sources s' = sources s \<and> calls s' = calls s @ [(pv, op)] \<and> no_check pv s'"
proof -
  obtain b where b: "apply_call c pv op (ctrl s) = Inr b" "s' = called pv op b s"
    using assms(2) by (auto simp: control_def split: sum.splits)
  from quiet_call [OF assms(1) b(1)] assms(3) b(2) show ?thesis
    by (simp add: called_def no_check_def)
qed

text \<open>The calls that finish an entry, and a stretch of a list that is finished.\<close>

definition finish_calls :: "bool \<Rightarrow> u32 \<Rightarrow> pulse_inv \<times> u32 \<Rightarrow> call list" where
  "finish_calls part i e =
     (if pi_pulseGood (fst e)
      then (if part then [Partial (entry_key e)] else []) @ [Complete (entry_key e) i] else [])"

definition with_list :: "pulse_seq \<Rightarrow> hw_source \<Rightarrow> hw_source" where
  "with_list l hw = hw\<lparr>hs_pulseSeqList := l\<rparr>"

lemma not_good_open: "\<not> pi_pulseGood (fst (not_good e))"
  by (simp add: not_good_def split: prod.split)

definition finished :: "nat \<Rightarrow> nat \<Rightarrow> pulse_seq \<Rightarrow> pulse_seq" where
  "finished a b l = List.map (\<lambda>i. if a \<le> i \<and> i < b then not_good (l ! i) else l ! i) [0 ..< length l]"

lemma finished_none: "finished a a l = l"
  by (rule nth_equalityI) (auto simp: finished_def)

lemma finished_step:
  "a \<le> b \<Longrightarrow> b < length l \<Longrightarrow> finished a b (l[b := not_good (l ! b)]) = finished a (Suc b) l"
  "a < length l \<Longrightarrow> Suc a \<le> b \<Longrightarrow> (finished (Suc a) b l)[a := not_good (finished (Suc a) b l ! a)] = finished a b l"
  by (auto simp: finished_def nth_list_update intro!: nth_equalityI)

lemma length_finished [simp]: "length (finished a b l) = length l"
  by (simp add: finished_def)

lemma finished_all: "finished a (length l) l = take a l @ List.map not_good (drop a l)"
  by (auto simp: finished_def nth_append min_def intro!: nth_equalityI)

lemma finished_before: "i < a \<Longrightarrow> i < length l \<Longrightarrow> finished a b l ! i = l ! i"
  by (simp add: finished_def)

text \<open>What finishing does: the calls, and one list of pulses.\<close>

definition finishes ::
    "live_pvs \<Rightarrow> nat \<Rightarrow> u32 \<Rightarrow> hw_source \<Rightarrow> pulse_seq \<Rightarrow> call list \<Rightarrow> system \<Rightarrow> system \<Rightarrow> bool" where
  "finishes pv d h hw l' ops s s' \<longleftrightarrow>
     calls s' = calls s @ List.map (Pair pv) ops \<and> no_check pv s' \<and> d < length (sources s') \<and>
     hw_at d h s' = Some (with_list l' hw)"

lemma finish_entry_quiet:
  assumes run: "finish_entry c pv d h part n s = Inr s'" and quiet: "no_check pv s" and d: "d < length (sources s)"
    and hw: "hw_at d h s = Some (with_list l hw)" and n: "n < length l"
  shows "finishes pv d h hw (l[n := not_good (l ! n)]) (finish_calls part (hs_smsId hw) (l ! n)) s s'"
proof (cases "pi_pulseGood (fst (l ! n))")
  case False
  then have "not_good (l ! n) = l ! n"
    by (cases "l ! n") (simp add: not_good_def)
  then show ?thesis
    using assms False by (simp add: finishes_def finish_entry_def entry_at_def with_list_def finish_calls_def)
next
  case True
  let ?k = "entry_key (l ! n)"
  obtain s1 s2 where one: "(if part then control c pv (Partial ?k) s else Inr s) = Inr s1"
    and two: "control c pv (Complete ?k (hs_smsId (the (hw_at d h s1)))) s1 = Inr s2"
    and s': "s' = on_hw d h (set_good False n) s2"
    using run True by (auto simp: finish_entry_def entry_at_def hw with_list_def sbind_eq_Inr Let_def)
  have s1: "sources s1 = sources s" "no_check pv s1"
    "calls s1 = calls s @ List.map (Pair pv) (if part then [Partial ?k] else [])"
    using one quiet quiet_control [of "Partial ?k" ?k _ c pv s s1] by (auto split: if_splits)
  have at: "hw_at d h s1 = Some (with_list l hw)"
    using hw s1(1) by (simp add: hw_at_def source_at_def)
  have s2: "sources s2 = sources s1" "no_check pv s2" "calls s2 = calls s1 @ [(pv, Complete ?k (hs_smsId hw))]"
    using quiet_control [OF _ two s1(2)] at by (auto simp: with_list_def)
  have "hw_at d h s2 = Some (with_list l hw)" "d < length (sources s2)"
    using at d s1(1) s2(1) by (simp_all add: hw_at_def source_at_def)
  then show ?thesis
    using s1 s2 True by (simp add: s' finishes_def no_check_def hw_at_on_hw finish_calls_def set_good_def with_list_def
        not_good_def)
qed

lemma finishes_trans:
  "finishes pv d h hw l1 ops s s1 \<Longrightarrow> finishes pv d h hw l2 ops' s1 s2 \<Longrightarrow> finishes pv d h hw l2 (ops @ ops') s s2"
  by (simp add: finishes_def)

lemma finish_older_quiet:
  "finish_older c pv d h n k s = Inr s' \<Longrightarrow> no_check pv s \<Longrightarrow> d < length (sources s) \<Longrightarrow>
    hw_at d h s = Some (with_list l hw) \<Longrightarrow> n + k < length l \<Longrightarrow>
    finishes pv d h hw (finished (Suc n) (Suc (n + k)) l)
      (concat (List.map (\<lambda>i. finish_calls True (hs_smsId hw) (l ! i)) (rev [Suc n ..< Suc (n + k)]))) s s'"
proof (induction k arbitrary: s l)
  case 0
  then show ?case by (simp add: finishes_def finished_none)
next
  case (Suc k)
  let ?m = "n + Suc k" and ?l = "l[n + Suc k := not_good (l ! (n + Suc k))]"
  obtain s1 where s1: "finish_entry c pv d h True ?m s = Inr s1" "finish_older c pv d h n k s1 = Inr s'"
    using Suc.prems(1) by (auto simp: sbind_eq_Inr)
  have one: "finishes pv d h hw ?l (finish_calls True (hs_smsId hw) (l ! ?m)) s s1"
    by (rule finish_entry_quiet [OF s1(1) Suc.prems(2-5)])
  have "finishes pv d h hw (finished (Suc n) (Suc (n + k)) ?l)
      (concat (List.map (\<lambda>i. finish_calls True (hs_smsId hw) (?l ! i)) (rev [Suc n ..< Suc (n + k)]))) s1 s'"
    using one Suc.prems(5) by (intro Suc.IH [OF s1(2)]) (auto simp: finishes_def)
  moreover have "finished (Suc n) (Suc (n + k)) ?l = finished (Suc n) (Suc ?m) l"
    using finished_step(1) [of "Suc n" ?m l] Suc.prems(5) by simp
  moreover have "List.map (\<lambda>i. finish_calls True (hs_smsId hw) (?l ! i)) (rev [Suc n ..< Suc (n + k)]) =
      List.map (\<lambda>i. finish_calls True (hs_smsId hw) (l ! i)) (rev [Suc n ..< Suc (n + k)])"
    by (rule map_cong) auto
  ultimately have two: "finishes pv d h hw (finished (Suc n) (Suc ?m) l)
      (concat (List.map (\<lambda>i. finish_calls True (hs_smsId hw) (l ! i)) (rev [Suc n ..< Suc (n + k)]))) s1 s'"
    by (simp only:)
  have "[Suc n ..< Suc ?m] = [Suc n ..< Suc (n + k)] @ [?m]"
    by simp
  then show ?case
    using finishes_trans [OF one two] by (simp only: rev_append rev.simps append.simps list.map concat.simps)
qed

lemma endPulse_quiet:
  assumes run: "endPulse c pv d h True n s = Inr s'" and quiet: "no_check pv s" and d: "d < length (sources s)"
    and hw: "hw_at d h s = Some hw" and n: "n < length (hs_pulseSeqList hw)"
  shows "finishes pv d h hw (take n (hs_pulseSeqList hw) @ List.map not_good (drop n (hs_pulseSeqList hw)))
    (concat (List.map (finish_calls True (hs_smsId hw)) (rev (drop (Suc n) (hs_pulseSeqList hw)))) @
     finish_calls False (hs_smsId hw) (hs_pulseSeqList hw ! n)) s s'"
proof -
  let ?l = "hs_pulseSeqList hw"
  let ?k = "length ?l - 1 - n"
  have k: "Suc (n + ?k) = length ?l" "n + ?k < length ?l"
    using n by auto
  have at: "hw_at d h s = Some (with_list ?l hw)"
    by (simp add: hw with_list_def)
  obtain s1 where s1: "finish_older c pv d h n ?k s = Inr s1" "finish_entry c pv d h False n s1 = Inr s'"
    using run by (auto simp: endPulse_def hw sbind_eq_Inr)
  have "List.map ((!) ?l) [Suc n ..< length ?l] = drop (Suc n) ?l"
    by (rule nth_equalityI) auto
  then have "List.map (\<lambda>i. finish_calls True (hs_smsId hw) (?l ! i)) (rev [Suc n ..< length ?l]) =
      List.map (finish_calls True (hs_smsId hw)) (rev (drop (Suc n) ?l))"
    by (metis (no_types, lifting) map_map o_def map_cong rev_map)
  then have one: "finishes pv d h hw (finished (Suc n) (length ?l) ?l)
      (concat (List.map (finish_calls True (hs_smsId hw)) (rev (drop (Suc n) ?l)))) s s1"
    using finish_older_quiet [OF s1(1) quiet d at k(2)] unfolding k(1) by (simp only:)
  have "finishes pv d h hw ((finished (Suc n) (length ?l) ?l)[n := not_good (finished (Suc n) (length ?l) ?l ! n)])
      (finish_calls False (hs_smsId hw) (finished (Suc n) (length ?l) ?l ! n)) s1 s'"
    by (rule finish_entry_quiet [OF s1(2)]) (use one n in \<open>auto simp: finishes_def\<close>)
  then have "finishes pv d h hw (finished n (length ?l) ?l) (finish_calls False (hs_smsId hw) (?l ! n)) s1 s'"
    using n finished_step(2) [of n ?l "length ?l"] by (simp add: finished_before)
  from finishes_trans [OF one this] show ?thesis
    unfolding finished_all .
qed



section \<open>Inputs for which the code does something else\<close>



text \<open>
  C40. When \<open>connect\<close> fails with an error that the code does not name it says that it ignores it, watches the
  descriptor and leaves the data source idle. The next event on that descriptor ends the service: an idle
  data source throws a logic error that nothing catches.
\<close>

theorem unknown_connect_error_ends_service:
  assumes "d < length (sources s)" and "ds_state (source_at d s) = DISABLED"
  shows "run_system c [(ev, Enable d Connect_Other), (ev', Ready d cr ms rr)] s = Inl (Crash Invalid_State)"
  using assms by (simp add: enabled_def startConnect_def source_at_def on_source_def watch_def fdReady_def)

theorem unknown_connect_error_ends_service_witness:
  "run_system run_config [(run_env, Enable 0 Connect_Other), (run_env, Ready 0 Connect_Done [] Read_Open)]
     (new_system quiet_pvs sample_collect [run_pvs]) = Inl (Crash Invalid_State)"
  by (rule unknown_connect_error_ends_service)
     (simp_all add: new_system_def new_data_source_def source_at_def)

end
