(* ===== verification/Translation_Queue.thy ===== *)
theory Translation_Queue
  imports Ordered_Map
begin

text \<open>
  How the stream management service gets its runs translated (\<open>STCClientMgr\<close> in
  \<open>sms/STCClientMgr.cc\<close>). Runs wait in a queue; for one run at a time the manager looks the translation
  service up and connects to it, and every connection is a client that sends one run. Signals, timers and
  descriptors may come in any order, also late ones.

  A container (\<open>sms/StorageContainer.h\<close>) is an index into \<open>containers\<close>, a timer is whether it runs, a
  client is the container it sends. The queue maps run numbers to containers.
\<close>

section \<open>State\<close>

datatype disposition = SUCCESS | TRANSIENT_FAIL | PERMAMENT_FAIL | CONNECTION_LOSS | INVALID_PROTOCOL

datatype queue_mode = BALANCE | OLDEST | NEWEST

record container =
  c_runNumber :: u32
  c_active :: bool
  c_translated :: bool
  c_manual :: bool
  c_requeueCount :: u32

record manager =
  connect_timer :: bool
  reconnect_timer :: bool
  transient_timer :: bool
  lookup_timer :: bool
  m_fd :: bool
  m_fdreg :: bool
  m_connecting :: bool
  m_backoff :: bool
  m_connections :: u32
  m_queueMode :: queue_mode
  m_sendNext :: queue_mode
  m_pendingRuns :: "(u32, nat) omap"
  m_sendingRuns :: "(u32, nat) omap"
  m_currentRun :: u32
  containers :: "container list"
  clients :: "nat list"

text \<open>The process variables the manager reads, and whether \<open>getaddrinfo_a\<close> takes a request.\<close>

record mgr_env =
  q_maxConnections :: u32
  q_maxRequeueCount :: u32
  q_lookups :: bool

text \<open>The logic error of \<open>nextRun\<close>, and the iterator it does not check.\<close>

datatype queue_error = Pending_Empty | End_Dereferenced

definition new_container :: "u32 \<Rightarrow> bool \<Rightarrow> container" where
  "new_container r act = \<lparr>c_runNumber = r, c_active = act, c_translated = False, c_manual = False,
     c_requeueCount = 0\<rparr>"

definition new_manager :: manager where
  "new_manager = \<lparr>connect_timer = False, reconnect_timer = False, transient_timer = False,
     lookup_timer = False, m_fd = False, m_fdreg = False, m_connecting = False, m_backoff = False,
     m_connections = 0, m_queueMode = BALANCE, m_sendNext = OLDEST, m_pendingRuns = [],
     m_sendingRuns = [], m_currentRun = 0, containers = [], clients = []\<rparr>"

definition run_of :: "manager \<Rightarrow> nat \<Rightarrow> u32" where
  "run_of M c = c_runNumber (containers M ! c)"

definition on_container :: "nat \<Rightarrow> (container \<Rightarrow> container) \<Rightarrow> manager \<Rightarrow> manager" where
  "on_container c f M = M\<lparr>containers := (containers M)[c := f (containers M ! c)]\<rparr>"

definition om_erase :: "'k \<Rightarrow> ('k, 'v) omap \<Rightarrow> ('k, 'v) omap" where
  "om_erase k = List.filter (\<lambda>e. fst e \<noteq> k)"

section \<open>The queue\<close>

definition queueRun :: "nat \<Rightarrow> manager \<Rightarrow> manager" where
  "queueRun c M =
     (let r = run_of M c in
      if r \<in> om_keys (m_pendingRuns M) then M
      else
        (let M1 = M\<lparr>m_pendingRuns := om_insert r c (m_pendingRuns M)\<rparr> in
         if c_active (containers M ! c) then M1\<lparr>m_currentRun := r\<rparr> else M1))"

definition dequeueRun :: "nat \<Rightarrow> manager \<Rightarrow> manager" where
  "dequeueRun c M = M\<lparr>m_sendingRuns := om_erase (run_of M c) (m_sendingRuns M)\<rparr>"

text \<open>The run that is recorded goes first, then the oldest and the newest in turn.\<close>

definition pick_run :: "manager \<Rightarrow> queue_error + ((u32 \<times> nat) \<times> manager)" where
  "pick_run M =
     (if m_currentRun M \<noteq> 0
      then (case map_of (m_pendingRuns M) (m_currentRun M) of
              None \<Rightarrow> Inl End_Dereferenced
            | Some c \<Rightarrow> Inr ((m_currentRun M, c), M\<lparr>m_currentRun := 0\<rparr>))
      else
        (let next = (if m_queueMode M = BALANCE then m_sendNext M else m_queueMode M) in
         if next = OLDEST then Inr (hd (m_pendingRuns M), M\<lparr>m_sendNext := NEWEST\<rparr>)
         else Inr (last (m_pendingRuns M), M\<lparr>m_sendNext := OLDEST\<rparr>)))"

definition nextRun :: "manager \<Rightarrow> queue_error + (nat \<times> manager)" where
  "nextRun M =
     (if m_pendingRuns M = [] then Inl Pending_Empty
      else sbind (pick_run M) (\<lambda>((r, c), M1).
        Inr (c, M1\<lparr>m_sendingRuns := om_upsert r c (\<lambda>_. c) (m_sendingRuns M1),
                    m_pendingRuns := om_erase r (m_pendingRuns M1)\<rparr>)))"

section \<open>Connecting\<close>

definition mgr_startConnect :: "mgr_env \<Rightarrow> manager \<Rightarrow> manager" where
  "mgr_startConnect E M =
     (if m_backoff M \<or> m_connecting M \<or> m_connections M \<ge> q_maxConnections E \<or> m_pendingRuns M = [] then M
      else if \<not> q_lookups E then M
      else M\<lparr>lookup_timer := True, m_connecting := True\<rparr>)"

definition connectFailed :: "manager \<Rightarrow> manager" where
  "connectFailed M = M\<lparr>m_fdreg := False, m_fd := False, connect_timer := False, reconnect_timer := True\<rparr>"

text \<open>What \<open>getsockopt\<close> says of the socket, and what the lookup and \<open>connect\<close> gave.\<close>

datatype sock_state = Sock_Ok | Sock_Wait | Sock_Error

datatype lookup_result = Lookup_Failed | Connect_Refused | Connect_Waits | Connect_At_Once

text \<open>\<open>made\<close> says whether the constructor of the client returned.\<close>

definition mgr_connectComplete :: "mgr_env \<Rightarrow> sock_state \<Rightarrow> bool \<Rightarrow> manager \<Rightarrow> queue_error + manager" where
  "mgr_connectComplete E sock made M =
     (if \<not> m_fd M then Inr (connectFailed M)
      else case sock of
        Sock_Wait \<Rightarrow> Inr M
      | Sock_Error \<Rightarrow> Inr (connectFailed M)
      | Sock_Ok \<Rightarrow>
          sbind (nextRun (M\<lparr>m_fdreg := False, m_connections := m_connections M + 1,
                            connect_timer := False\<rparr>)) (\<lambda>(c, M1).
            if made
            then Inr (mgr_startConnect E (M1\<lparr>m_fd := False, m_connecting := False, clients := clients M1 @ [c]\<rparr>))
            else Inr (connectFailed (dequeueRun c
                   (queueRun c (M1\<lparr>m_connections := m_connections M1 - 1\<rparr>))))))"

text \<open>\<open>ours\<close> says whether the signal is the answer to a lookup of this process.\<close>

definition lookupComplete ::
    "mgr_env \<Rightarrow> bool \<Rightarrow> lookup_result \<Rightarrow> sock_state \<Rightarrow> bool \<Rightarrow> manager \<Rightarrow> queue_error + manager" where
  "lookupComplete E ours res sock made M =
     (let M1 = M\<lparr>lookup_timer := False\<rparr> in
      if \<not> m_connecting M1 \<or> \<not> ours then Inr M1
      else case res of
        Lookup_Failed \<Rightarrow> Inr (connectFailed M1)
      | Connect_Refused \<Rightarrow> Inr (connectFailed (M1\<lparr>m_fdreg := False, m_fd := True\<rparr>))
      | Connect_Waits \<Rightarrow> Inr (M1\<lparr>m_fdreg := True, m_fd := True, connect_timer := True\<rparr>)
      | Connect_At_Once \<Rightarrow> mgr_connectComplete E sock made (M1\<lparr>m_fdreg := False, m_fd := True\<rparr>))"

definition connectTimeout :: "manager \<Rightarrow> manager" where
  "connectTimeout M = connectFailed (M\<lparr>connect_timer := False\<rparr>)"

definition reconnectTimeout :: "mgr_env \<Rightarrow> manager \<Rightarrow> manager" where
  "reconnectTimeout E M = mgr_startConnect E (M\<lparr>reconnect_timer := False, m_connecting := False\<rparr>)"

definition transientTimeout :: "mgr_env \<Rightarrow> manager \<Rightarrow> manager" where
  "transientTimeout E M = mgr_startConnect E (M\<lparr>transient_timer := False, m_backoff := False\<rparr>)"

definition lookupTimeout :: "mgr_env \<Rightarrow> manager \<Rightarrow> manager" where
  "lookupTimeout E M = mgr_startConnect E (M\<lparr>lookup_timer := False, m_connecting := False\<rparr>)"

section \<open>The end of a client\<close>

definition back_off :: "manager \<Rightarrow> manager" where
  "back_off M = (if m_backoff M then M else M\<lparr>m_backoff := True, transient_timer := True\<rparr>)"

definition markTranslated :: "nat \<Rightarrow> manager \<Rightarrow> manager" where
  "markTranslated c = on_container c (\<lambda>C. C\<lparr>c_translated := True\<rparr>)"

definition markManual :: "nat \<Rightarrow> manager \<Rightarrow> manager" where
  "markManual c = on_container c (\<lambda>C. C\<lparr>c_manual := True\<rparr>)"

definition incrRequeueCount :: "nat \<Rightarrow> manager \<Rightarrow> manager" where
  "incrRequeueCount c = on_container c (\<lambda>C. C\<lparr>c_requeueCount := c_requeueCount C + 1\<rparr>)"

definition settle_run :: "mgr_env \<Rightarrow> disposition \<Rightarrow> nat \<Rightarrow> manager \<Rightarrow> manager" where
  "settle_run E disp c M =
     (case disp of
        SUCCESS \<Rightarrow> markTranslated c M
      | CONNECTION_LOSS \<Rightarrow> queueRun c (back_off M)
      | INVALID_PROTOCOL \<Rightarrow> queueRun c (back_off M)
      | TRANSIENT_FAIL \<Rightarrow>
          if c_requeueCount (containers M ! c) \<ge> q_maxRequeueCount E then markManual c M
          else queueRun c (back_off (incrRequeueCount c M))
      | PERMAMENT_FAIL \<Rightarrow> markManual c M)"

definition clientComplete :: "mgr_env \<Rightarrow> disposition \<Rightarrow> nat \<Rightarrow> manager \<Rightarrow> manager" where
  "clientComplete E disp c M =
     (let M1 = settle_run E disp c (dequeueRun c M) in
      mgr_startConnect E (M1\<lparr>m_connections := m_connections M1 - 1\<rparr>))"

definition containerChange :: "mgr_env \<Rightarrow> nat \<Rightarrow> bool \<Rightarrow> manager \<Rightarrow> manager" where
  "containerChange E c starting M =
     (if run_of M c = 0 then M
      else if starting then mgr_startConnect E (queueRun c M)
      else M\<lparr>m_currentRun := 0\<rparr>)"

section \<open>Runs of the manager\<close>

text \<open>
  What happens to the manager: a container starts or ends, containers that were found on disk are queued,
  a lookup answers, the descriptor or a timer is due, a client ends, or the operator changes the number of
  connections.
\<close>

datatype mgr_event =
    Run_Starts u32
  | Run_Ends nat
  | Runs_Found "u32 list"
  | Lookup_Answers bool lookup_result sock_state bool
  | Descriptor_Ready sock_state bool
  | Connect_Due | Reconnect_Due | Transient_Due | Lookup_Due
  | Client_Ends nat disposition
  | Maximum_Changes

definition add_container :: "u32 \<Rightarrow> bool \<Rightarrow> manager \<Rightarrow> manager" where
  "add_container r act M = M\<lparr>containers := containers M @ [new_container r act]\<rparr>"

definition queue_found :: "u32 \<Rightarrow> manager \<Rightarrow> manager" where
  "queue_found r M = queueRun (length (containers M)) (add_container r False M)"

definition drop_nth :: "nat \<Rightarrow> 'a list \<Rightarrow> 'a list" where
  "drop_nth n xs = take n xs @ drop (Suc n) xs"

fun mgr_step :: "mgr_env \<Rightarrow> mgr_event \<Rightarrow> manager \<Rightarrow> queue_error + manager" where
  "mgr_step E (Run_Starts r) M =
     Inr (containerChange E (length (containers M)) True (add_container r True M))"
| "mgr_step E (Run_Ends c) M =
     Inr (if c < length (containers M)
          then containerChange E c False (on_container c (\<lambda>C. C\<lparr>c_active := False\<rparr>) M) else M)"
| "mgr_step E (Runs_Found rs) M =
     Inr (if rs = [] then M else mgr_startConnect E (fold queue_found rs M))"
| "mgr_step E (Lookup_Answers ours res sock made) M = lookupComplete E ours res sock made M"
| "mgr_step E (Descriptor_Ready sock made) M =
     (if m_fdreg M then mgr_connectComplete E sock made M else Inr M)"
| "mgr_step E Connect_Due M = Inr (if connect_timer M then connectTimeout M else M)"
| "mgr_step E Reconnect_Due M = Inr (if reconnect_timer M then reconnectTimeout E M else M)"
| "mgr_step E Transient_Due M = Inr (if transient_timer M then transientTimeout E M else M)"
| "mgr_step E Lookup_Due M = Inr (if lookup_timer M then lookupTimeout E M else M)"
| "mgr_step E (Client_Ends i disp) M =
     Inr (if i < length (clients M)
          then clientComplete E disp (clients M ! i) (M\<lparr>clients := drop_nth i (clients M)\<rparr>) else M)"
| "mgr_step E Maximum_Changes M = Inr (mgr_startConnect E M)"

fun run_manager :: "(mgr_env \<times> mgr_event) list \<Rightarrow> manager \<Rightarrow> queue_error + manager" where
  "run_manager [] M = Inr M"
| "run_manager ((E, ev) # evs) M = sbind (mgr_step E ev M) (run_manager evs)"

end
