(* ===== verification/Translation_Runs.thy ===== *)
theory Translation_Runs
  imports Translation_Queue
begin

text \<open>
  What holds for the queue of runs to translate in any order of events: the queue is never asked for a run
  it does not have, a client stands for every connection, no run is lost, and while a run waits something
  is due that starts the next connection.
\<close>

section \<open>The queue and its runs\<close>

text \<open>A run number is accounted for: it waits, a client sends it, or it was translated or given up.\<close>

definition accounted :: "manager \<Rightarrow> u32 \<Rightarrow> bool" where
  "accounted M r \<longleftrightarrow> r \<in> om_keys (m_pendingRuns M) \<or> (\<exists>c \<in> set (clients M). run_of M c = r) \<or>
     (\<exists>c < length (containers M). run_of M c = r \<and>
        (c_translated (containers M ! c) \<or> c_manual (containers M ! c)))"

definition pending_ok :: "manager \<Rightarrow> bool" where
  "pending_ok M \<longleftrightarrow> om_ok (m_pendingRuns M) \<and>
     (\<forall>(r, c) \<in> set (m_pendingRuns M). c < length (containers M) \<and> run_of M c = r)"

text \<open>Inside a handler the runs in \<open>H\<close> are held by no one, and \<open>n\<close> connections have no client.\<close>

definition queue_inv :: "u32 set \<Rightarrow> nat \<Rightarrow> manager \<Rightarrow> bool" where
  "queue_inv H n M \<longleftrightarrow> pending_ok M \<and>
     (m_currentRun M \<noteq> 0 \<longrightarrow> m_currentRun M \<in> om_keys (m_pendingRuns M)) \<and>
     m_connections M = of_nat (length (clients M) + n) \<and>
     (\<forall>c \<in> set (clients M). c < length (containers M)) \<and>
     (\<forall>c < length (containers M). run_of M c \<noteq> 0 \<longrightarrow> run_of M c \<notin> H \<longrightarrow> accounted M (run_of M c))"

text \<open>While a connection is made there is a run for it.\<close>

definition going :: "manager \<Rightarrow> bool" where
  "going M \<longleftrightarrow> (m_connecting M \<or> m_fdreg M \<longrightarrow> m_pendingRuns M \<noteq> [])"

lemma om_erase_set: "set (om_erase k m) = {e \<in> set m. fst e \<noteq> k}"
  by (auto simp: om_erase_def)

lemma om_keys_erase [simp]: "om_keys (om_erase k m) = om_keys m - {k}"
  by (auto simp: om_erase_def)

lemma om_ok_erase [simp]: "om_ok m \<Longrightarrow> om_ok (om_erase k m)"
  by (induction m) (auto simp: om_erase_def)

lemma set_drop_nth: "set (drop_nth n xs) \<subseteq> set xs"
  by (auto simp: drop_nth_def dest: in_set_takeD in_set_dropD)

lemma set_drop_nth_rest: "n < length xs \<Longrightarrow> set xs = insert (xs ! n) (set (drop_nth n xs))"
  by (metis drop_nth_def id_take_nth_drop list.set(2) set_append Un_insert_right)

lemma length_drop_nth: "n < length xs \<Longrightarrow> Suc (length (drop_nth n xs)) = length xs"
  by (simp add: drop_nth_def)

lemma queue_invD:
  assumes "queue_inv H n M"
  shows "pending_ok M" "om_ok (m_pendingRuns M)"
    "m_currentRun M \<noteq> 0 \<Longrightarrow> m_currentRun M \<in> om_keys (m_pendingRuns M)"
    "m_connections M = of_nat (length (clients M) + n)"
    "c \<in> set (clients M) \<Longrightarrow> c < length (containers M)"
    "(r, c) \<in> set (m_pendingRuns M) \<Longrightarrow> c < length (containers M) \<and> run_of M c = r"
    "c < length (containers M) \<Longrightarrow> run_of M c \<noteq> 0 \<Longrightarrow> run_of M c \<notin> H \<Longrightarrow> accounted M (run_of M c)"
  using assms by (auto simp: queue_inv_def pending_ok_def)

text \<open>What the invariant looks at.\<close>

lemma queue_inv_cong:
  assumes "m_pendingRuns M' = m_pendingRuns M" "m_currentRun M' = m_currentRun M"
    "m_connections M' = m_connections M" "clients M' = clients M" "containers M' = containers M"
  shows "queue_inv H n M' = queue_inv H n M"
  using assms by (simp add: queue_inv_def pending_ok_def accounted_def run_of_def)

lemma queue_inv_updates [simp]:
  "queue_inv H n (M\<lparr>m_fd := b\<rparr>) = queue_inv H n M" "queue_inv H n (M\<lparr>m_fdreg := b\<rparr>) = queue_inv H n M"
  "queue_inv H n (M\<lparr>m_connecting := b\<rparr>) = queue_inv H n M" "queue_inv H n (M\<lparr>m_backoff := b\<rparr>) = queue_inv H n M"
  "queue_inv H n (M\<lparr>connect_timer := b\<rparr>) = queue_inv H n M" "queue_inv H n (M\<lparr>lookup_timer := b\<rparr>) = queue_inv H n M"
  "queue_inv H n (M\<lparr>transient_timer := b\<rparr>) = queue_inv H n M" "queue_inv H n (M\<lparr>reconnect_timer := b\<rparr>) = queue_inv H n M"
  "queue_inv H n (M\<lparr>m_sendingRuns := s\<rparr>) = queue_inv H n M"
  by (rule queue_inv_cong; simp)+

lemma startConnect_inv [simp]: "queue_inv H n (mgr_startConnect E M) = queue_inv H n M"
  by (rule queue_inv_cong) (simp_all add: mgr_startConnect_def)

lemma connectFailed_inv [simp]: "queue_inv H n (connectFailed M) = queue_inv H n M"
  by (rule queue_inv_cong) (simp_all add: connectFailed_def)

lemma back_off_inv [simp]: "queue_inv H n (back_off M) = queue_inv H n M"
  by (rule queue_inv_cong) (simp_all add: back_off_def)

lemma dequeueRun_inv [simp]: "queue_inv H n (dequeueRun c M) = queue_inv H n M"
  by (rule queue_inv_cong) (simp_all add: dequeueRun_def)

lemma startConnect_going: "going M \<Longrightarrow> going (mgr_startConnect E M)"
  by (simp add: going_def mgr_startConnect_def)

lemma going_less:
  assumes "going M"
  shows "going (M\<lparr>reconnect_timer := a, m_connecting := False\<rparr>)" "going (M\<lparr>lookup_timer := a, m_connecting := False\<rparr>)"
    "going (M\<lparr>transient_timer := a, m_backoff := b\<rparr>)"
  using assms by (auto simp: going_def)

lemma connectFailed_going: "going M \<Longrightarrow> going (connectFailed M)"
  by (simp add: going_def connectFailed_def)

lemma queueRun_simps [simp]:
  "containers (queueRun c M) = containers M" "clients (queueRun c M) = clients M"
  "m_connections (queueRun c M) = m_connections M" "m_connecting (queueRun c M) = m_connecting M"
  "m_fdreg (queueRun c M) = m_fdreg M" "m_fd (queueRun c M) = m_fd M" "m_backoff (queueRun c M) = m_backoff M"
  "connect_timer (queueRun c M) = connect_timer M" "lookup_timer (queueRun c M) = lookup_timer M"
  "reconnect_timer (queueRun c M) = reconnect_timer M" "transient_timer (queueRun c M) = transient_timer M"
  by (simp_all add: queueRun_def Let_def)

lemma queueRun_run_of [simp]: "run_of (queueRun c M) = run_of M"
  by (simp add: run_of_def fun_eq_iff)

lemma queueRun_keys [simp]: "om_keys (m_pendingRuns (queueRun c M)) = insert (run_of M c) (om_keys (m_pendingRuns M))"
  by (auto simp: queueRun_def Let_def)

lemma queueRun_nonempty [simp]: "m_pendingRuns (queueRun c M) \<noteq> []"
  by (metis queueRun_keys image_is_empty insert_not_empty list.set(1))

lemma queueRun_inv:
  assumes inv: "queue_inv H n M" and c: "c < length (containers M)"
  shows "queue_inv (H - {run_of M c}) n (queueRun c M)"
proof -
  let ?r = "run_of M c"
  have "pending_ok (queueRun c M)"
  proof (cases "?r \<in> om_keys (m_pendingRuns M)")
    case False
    then have "set (om_insert ?r c (m_pendingRuns M)) = insert (?r, c) (set (m_pendingRuns M))"
      by (rule om_insert_new)
    then show ?thesis
      using False c queue_invD(1) [OF inv] by (auto simp: queueRun_def Let_def pending_ok_def run_of_def)
  qed (use queue_invD(1) [OF inv] in \<open>simp add: queueRun_def\<close>)
  moreover have "m_currentRun (queueRun c M) \<noteq> 0 \<longrightarrow>
      m_currentRun (queueRun c M) \<in> om_keys (m_pendingRuns (queueRun c M))"
    using queue_invD(3) [OF inv] by (auto simp: queueRun_def Let_def)
  moreover have "accounted (queueRun c M) (run_of M c')"
    if "c' < length (containers M)" "run_of M c' \<noteq> 0" "run_of M c' \<notin> H - {?r}" for c'
  proof (cases "run_of M c' = ?r")
    case True
    then show ?thesis by (simp add: accounted_def)
  next
    case False
    with that queue_invD(7) [OF inv, of c'] have "accounted M (run_of M c')"
      by blast
    then show ?thesis by (auto simp: accounted_def)
  qed
  ultimately show ?thesis
    using queue_invD(4,5) [OF inv] by (auto simp: queue_inv_def)
qed

lemma accounted_grows:
  "om_keys (m_pendingRuns M) \<subseteq> om_keys (m_pendingRuns M') \<Longrightarrow> set (clients M) \<subseteq> set (clients M') \<Longrightarrow>
   containers M' = containers M \<Longrightarrow> accounted M r \<Longrightarrow> accounted M' r"
  by (auto simp: accounted_def run_of_def)

lemma no_current: "m_currentRun M = 0 \<Longrightarrow> M\<lparr>m_currentRun := 0\<rparr> = M"
  by (cases M) simp

lemma same_next: "M\<lparr>m_sendNext := m_sendNext M\<rparr> = M"
  by (cases M) simp

lemma pick_run_ok:
  assumes inv: "queue_inv H n M" and ne: "m_pendingRuns M \<noteq> []"
  obtains e b where "pick_run M = Inr (e, M\<lparr>m_currentRun := 0, m_sendNext := b\<rparr>)" "e \<in> set (m_pendingRuns M)"
proof (cases "m_currentRun M = 0")
  case True
  let ?old = "(if m_queueMode M = BALANCE then m_sendNext M else m_queueMode M) = OLDEST"
  have "pick_run M = Inr (if ?old then hd (m_pendingRuns M) else last (m_pendingRuns M),
      M\<lparr>m_currentRun := 0, m_sendNext := if ?old then NEWEST else OLDEST\<rparr>)"
    using True no_current [OF True] by (simp add: pick_run_def)
  then show thesis
    by (rule that) (simp add: ne)
next
  case False
  then obtain c where c: "map_of (m_pendingRuns M) (m_currentRun M) = Some c"
    using queue_invD(3) [OF inv] by (auto simp: om_keys_iff)
  have "M\<lparr>m_currentRun := 0, m_sendNext := m_sendNext M\<rparr> = M\<lparr>m_currentRun := 0\<rparr>"
    by (cases M) simp
  then have "pick_run M = Inr ((m_currentRun M, c), M\<lparr>m_currentRun := 0, m_sendNext := m_sendNext M\<rparr>)"
    using False c by (simp add: pick_run_def)
  then show thesis
    by (rule that) (rule map_of_SomeD [OF c])
qed

text \<open>A run leaves the queue; it is held by no one until a client has it.\<close>

definition taken :: "nat \<Rightarrow> manager \<Rightarrow> manager \<Rightarrow> bool" where
  "taken c M M1 \<longleftrightarrow> c < length (containers M) \<and> run_of M c \<in> om_keys (m_pendingRuns M) \<and>
     containers M1 = containers M \<and> clients M1 = clients M \<and> m_connections M1 = m_connections M \<and>
     m_connecting M1 = m_connecting M \<and> m_fdreg M1 = m_fdreg M \<and> m_fd M1 = m_fd M \<and>
     m_backoff M1 = m_backoff M \<and> connect_timer M1 = connect_timer M \<and> lookup_timer M1 = lookup_timer M \<and>
     reconnect_timer M1 = reconnect_timer M \<and> transient_timer M1 = transient_timer M \<and>
     m_currentRun M1 = 0 \<and> m_pendingRuns M1 = om_erase (run_of M c) (m_pendingRuns M)"

lemma taken_inv:
  assumes inv: "queue_inv H n M" and t: "taken c M M1"
  shows "queue_inv (insert (run_of M c) H) n M1"
proof -
  let ?r = "run_of M c"
  have same: "containers M1 = containers M" "clients M1 = clients M" "m_connections M1 = m_connections M"
    "m_currentRun M1 = 0" "m_pendingRuns M1 = om_erase ?r (m_pendingRuns M)"
    using t by (simp_all add: taken_def)
  have run: "run_of M1 = run_of M"
    by (simp add: run_of_def same fun_eq_iff)
  have "accounted M1 (run_of M c')"
    if "c' < length (containers M)" "run_of M c' \<noteq> 0" "run_of M c' \<notin> insert ?r H" for c'
  proof -
    have "accounted M (run_of M c')"
      using queue_invD(7) [OF inv that(1,2)] that(3) by simp
    then show ?thesis
      using that(3) by (auto simp: accounted_def same run)
  qed
  moreover have "pending_ok M1"
    using queue_invD(1) [OF inv] by (auto simp: pending_ok_def om_erase_set same run)
  ultimately show ?thesis
    using queue_invD(4,5) [OF inv] by (auto simp: queue_inv_def same run)
qed

lemma nextRun_ok:
  assumes inv: "queue_inv H n M" and ne: "m_pendingRuns M \<noteq> []"
  obtains c M1 where "nextRun M = Inr (c, M1)" "taken c M M1"
proof -
  obtain r c b where p: "pick_run M = Inr ((r, c), M\<lparr>m_currentRun := 0, m_sendNext := b\<rparr>)"
    and e: "(r, c) \<in> set (m_pendingRuns M)"
    using pick_run_ok [OF assms] by (metis surj_pair)
  have c: "c < length (containers M)" "run_of M c = r"
    using queue_invD(6) [OF inv e] by simp_all
  have "r \<in> om_keys (m_pendingRuns M)"
    using e by force
  then show thesis
    using that ne p c by (simp add: nextRun_def taken_def)
qed

section \<open>Every event keeps the invariant\<close>

lemma hand_over:
  assumes inv: "queue_inv (insert (run_of M c) {}) 1 M" and c: "c < length (containers M)"
  shows "queue_inv {} 0 (M\<lparr>m_fd := False, m_connecting := False, clients := clients M @ [c]\<rparr>)" (is "queue_inv _ _ ?M")
proof -
  have "accounted ?M (run_of M c')" if "c' < length (containers M)" "run_of M c' \<noteq> 0" for c'
  proof (cases "run_of M c' = run_of M c")
    case True
    then show ?thesis by (auto simp: accounted_def run_of_def)
  next
    case False
    then show ?thesis
      using queue_invD(7) [OF inv that] by (auto intro!: accounted_grows [of M])
  qed
  then show ?thesis
    using inv c by (auto simp: queue_inv_def pending_ok_def run_of_def add.commute)
qed

lemma connections_inv: "queue_inv H (Suc n) M \<Longrightarrow> queue_inv H n (M\<lparr>m_connections := m_connections M - 1\<rparr>)"
  by (auto simp: queue_inv_def pending_ok_def accounted_def run_of_def)

lemma manager_connect_ok:
  assumes inv: "queue_inv {} 0 M" and go: "going M" and ne: "m_pendingRuns M \<noteq> []"
  shows "\<exists>M'. mgr_connectComplete E sock made M = Inr M' \<and> queue_inv {} 0 M' \<and> going M'"
proof (cases "m_fd M \<and> sock = Sock_Ok")
  case True
  let ?M = "M\<lparr>m_fdreg := False, m_connections := m_connections M + 1, connect_timer := False\<rparr>"
  have inv1: "queue_inv {} 1 ?M"
    using inv by (auto simp: queue_inv_def pending_ok_def accounted_def run_of_def)
  have "m_pendingRuns ?M \<noteq> []"
    using ne by simp
  with inv1 obtain c M1 where n: "nextRun ?M = Inr (c, M1)" "taken c ?M M1"
    by (rule nextRun_ok)
  have inv2: "queue_inv {run_of M1 c} 1 M1"
    using taken_inv [OF inv1 n(2)] n(2) by (simp add: taken_def run_of_def)
  have c: "c < length (containers M1)"
    using n(2) by (simp add: taken_def)
  show ?thesis
  proof (cases made)
    case True
    have "going (M1\<lparr>m_fd := False, m_connecting := False, clients := clients M1 @ [c]\<rparr>)"
      using n(2) by (simp add: going_def taken_def)
    then show ?thesis
      using True \<open>m_fd M \<and> sock = Sock_Ok\<close> n(1) hand_over [OF inv2 c]
      by (simp add: mgr_connectComplete_def startConnect_going)
  next
    case False
    have "queue_inv {run_of M1 c} 0 (M1\<lparr>m_connections := m_connections M1 - 1\<rparr>)"
      using connections_inv [of _ 0] inv2 by simp
    from queueRun_inv [OF this, of c] c
    have "queue_inv {} 0 (queueRun c (M1\<lparr>m_connections := m_connections M1 - 1\<rparr>))"
      by (simp add: run_of_def)
    then show ?thesis
      using False \<open>m_fd M \<and> sock = Sock_Ok\<close> n(1)
      by (simp add: mgr_connectComplete_def going_def connectFailed_def dequeueRun_def)
  qed
next
  case False
  then show ?thesis
    using assms by (cases sock) (auto simp: mgr_connectComplete_def connectFailed_going)
qed

lemma lookupComplete_ok:
  assumes "queue_inv {} 0 M" and "going M"
  shows "\<exists>M'. lookupComplete E ours res sock made M = Inr M' \<and> queue_inv {} 0 M' \<and> going M'"
proof -
  let ?L = "M\<lparr>lookup_timer := False\<rparr>"
  have L: "queue_inv {} 0 ?L" "going ?L"
    "\<And>a b. queue_inv {} 0 (?L\<lparr>m_fdreg := a, m_fd := b\<rparr>)"
    "\<And>a b d. queue_inv {} 0 (?L\<lparr>m_fdreg := a, m_fd := b, connect_timer := d\<rparr>)"
    using assms by (auto simp: going_def)
  show ?thesis
  proof (cases "m_connecting M \<and> ours")
    case True
    then have ne: "m_pendingRuns M \<noteq> []"
      using assms(2) by (simp add: going_def)
    then have G: "\<And>a b. going (?L\<lparr>m_fdreg := a, m_fd := b\<rparr>)" "\<And>a b d. going (?L\<lparr>m_fdreg := a, m_fd := b, connect_timer := d\<rparr>)"
      by (simp_all add: going_def)
    have "m_pendingRuns (?L\<lparr>m_fdreg := False, m_fd := True\<rparr>) \<noteq> []"
      using ne by simp
    from manager_connect_ok [OF L(3) G(1) this] True L G show ?thesis
      by (cases res) (auto simp: lookupComplete_def connectFailed_going)
  next
    case False
    then show ?thesis
      using L by (auto simp: lookupComplete_def)
  qed
qed

lemma mark_inv:
  assumes inv: "queue_inv H n M" and c: "c < length (containers M)"
    and f: "\<And>C. c_runNumber (f C) = c_runNumber C" "\<And>C. c_translated C \<Longrightarrow> c_translated (f C)"
      "\<And>C. c_manual C \<Longrightarrow> c_manual (f C)"
  shows "queue_inv (if \<forall>C. c_translated (f C) \<or> c_manual (f C) then H - {run_of M c} else H) n (on_container c f M)"
proof -
  let ?M = "on_container c f M"
  have run: "run_of ?M c' = run_of M c'" for c'
    using c by (cases "c' = c") (auto simp: run_of_def on_container_def f)
  have settled: "c_translated (containers ?M ! c') \<or> c_manual (containers ?M ! c')"
    if "c_translated (containers M ! c') \<or> c_manual (containers M ! c')" for c'
    using that f c by (cases "c' = c") (auto simp: on_container_def)
  have len: "length (containers ?M) = length (containers M)" "clients ?M = clients M"
    "m_pendingRuns ?M = m_pendingRuns M" "m_connections ?M = m_connections M" "m_currentRun ?M = m_currentRun M"
    by (simp_all add: on_container_def)
  have old: "accounted ?M r" if "accounted M r" for r
    using that settled unfolding accounted_def run len by blast
  have new: "accounted ?M (run_of M c)" if "\<forall>C. c_translated (f C) \<or> c_manual (f C)"
    using that c unfolding accounted_def run len by (intro disjI2 exI [of _ c]) (simp add: on_container_def)
  show ?thesis
    using inv old new unfolding queue_inv_def pending_ok_def run len
    by (auto 0 4 split: if_splits)
qed

lemma some_open: "\<not> (\<forall>C :: container. c_translated C \<or> c_manual C)"
proof -
  have "\<not> c_translated (new_container 0 True) \<and> \<not> c_manual (new_container 0 True)"
    by (simp add: new_container_def)
  then show ?thesis by blast
qed

lemma settle_run_inv:
  assumes inv: "queue_inv {run_of M c} n M" and c: "c < length (containers M)"
  shows "queue_inv {} n (settle_run E d c M)"
proof -
  have again: "queue_inv {} n (queueRun c (back_off M'))"
    if "queue_inv {run_of M c} n M'" "containers M' = (containers M)[c := C]" "c_runNumber C = run_of M c" for M' C
  proof -
    have "run_of (back_off M') c = run_of M c" "c < length (containers (back_off M'))"
      using that(2,3) c by (simp_all add: back_off_def run_of_def)
    then show ?thesis
      using queueRun_inv [of "{run_of M c}" n "back_off M'" c] that(1) by simp
  qed
  have manual: "queue_inv {} n (markManual c M)"
    using mark_inv [OF assms, of "\<lambda>C. C\<lparr>c_manual := True\<rparr>"] by (simp add: markManual_def)
  have translated: "queue_inv {} n (markTranslated c M)"
    using mark_inv [OF assms, of "\<lambda>C. C\<lparr>c_translated := True\<rparr>"] by (simp add: markTranslated_def)
  have "queue_inv {run_of M c} n (incrRequeueCount c M)"
    using mark_inv [OF assms, of "\<lambda>C. C\<lparr>c_requeueCount := c_requeueCount C + 1\<rparr>"] some_open
    by (simp add: incrRequeueCount_def split: if_splits)
  then have "queue_inv {} n (queueRun c (back_off (incrRequeueCount c M)))"
    by (rule again [where C = "(\<lambda>C. C\<lparr>c_requeueCount := c_requeueCount C + 1\<rparr>) (containers M ! c)"])
       (simp_all add: incrRequeueCount_def on_container_def run_of_def)
  moreover have "queue_inv {} n (queueRun c (back_off M))"
    by (rule again [OF inv, where C = "containers M ! c"]) (simp_all add: run_of_def)
  ultimately show ?thesis
    using manual translated by (simp add: settle_run_def split: disposition.split)
qed

lemma settle_run_simps [simp]:
  "clients (settle_run E d c M) = clients M" "m_connecting (settle_run E d c M) = m_connecting M"
  "m_fdreg (settle_run E d c M) = m_fdreg M" "connect_timer (settle_run E d c M) = connect_timer M"
  "lookup_timer (settle_run E d c M) = lookup_timer M" "reconnect_timer (settle_run E d c M) = reconnect_timer M"
  by (simp_all add: settle_run_def markManual_def markTranslated_def incrRequeueCount_def on_container_def back_off_def
      split: disposition.split)

lemma settle_run_nonempty: "m_pendingRuns M \<noteq> [] \<Longrightarrow> m_pendingRuns (settle_run E d c M) \<noteq> []"
  by (simp add: settle_run_def markManual_def markTranslated_def on_container_def split: disposition.split)

lemma dequeueRun_simps [simp]:
  "clients (dequeueRun c M) = clients M" "containers (dequeueRun c M) = containers M" "run_of (dequeueRun c M) = run_of M"
  "m_pendingRuns (dequeueRun c M) = m_pendingRuns M" "m_connecting (dequeueRun c M) = m_connecting M"
  "m_fdreg (dequeueRun c M) = m_fdreg M" "connect_timer (dequeueRun c M) = connect_timer M"
  "lookup_timer (dequeueRun c M) = lookup_timer M" "reconnect_timer (dequeueRun c M) = reconnect_timer M"
  "m_backoff (dequeueRun c M) = m_backoff M" "transient_timer (dequeueRun c M) = transient_timer M"
  by (simp_all add: dequeueRun_def run_of_def fun_eq_iff)

lemma client_leaves:
  assumes inv: "queue_inv {} 0 M" and i: "i < length (clients M)"
  shows "queue_inv {run_of M (clients M ! i)} 1 (M\<lparr>clients := drop_nth i (clients M)\<rparr>)" (is "queue_inv {?r} 1 ?M")
proof -
  have set: "set (clients M) = insert (clients M ! i) (set (drop_nth i (clients M)))"
    by (rule set_drop_nth_rest [OF i])
  have "accounted ?M (run_of M c)" if "c < length (containers M)" "run_of M c \<noteq> 0" "run_of M c \<noteq> ?r" for c
    using queue_invD(7) [OF inv that(1,2)] that(3) by (auto simp: accounted_def set run_of_def)
  then show ?thesis
    using inv length_drop_nth [OF i] set by (auto simp: queue_inv_def pending_ok_def run_of_def)
qed

lemma clientComplete_ok:
  assumes inv: "queue_inv {} 0 M" and go: "going M" and i: "i < length (clients M)"
  shows "queue_inv {} 0 (clientComplete E d (clients M ! i) (M\<lparr>clients := drop_nth i (clients M)\<rparr>)) \<and>
    going (clientComplete E d (clients M ! i) (M\<lparr>clients := drop_nth i (clients M)\<rparr>))"
proof -
  let ?c = "clients M ! i" and ?M = "M\<lparr>clients := drop_nth i (clients M)\<rparr>"
  let ?S = "settle_run E d ?c (dequeueRun ?c ?M)"
  have c: "?c < length (containers M)"
    using queue_invD(5) [OF inv] i by simp
  have "queue_inv {run_of (dequeueRun ?c ?M) ?c} 1 (dequeueRun ?c ?M)"
    using client_leaves [OF inv i] by (simp add: run_of_def)
  then have "queue_inv {} 1 ?S"
    by (rule settle_run_inv) (simp add: c)
  then have "queue_inv {} 0 (?S\<lparr>m_connections := m_connections ?S - 1\<rparr>)"
    using connections_inv [of "{}" 0 ?S] by simp
  moreover have "going (?S\<lparr>m_connections := m_connections ?S - 1\<rparr>)"
    using go settle_run_nonempty [of "dequeueRun ?c ?M" E d ?c] by (simp add: going_def)
  ultimately show ?thesis
    by (simp add: clientComplete_def Let_def startConnect_going)
qed

lemma add_container_simps [simp]:
  "clients (add_container r act M) = clients M" "m_connections (add_container r act M) = m_connections M"
  "m_pendingRuns (add_container r act M) = m_pendingRuns M" "m_connecting (add_container r act M) = m_connecting M"
  "m_fdreg (add_container r act M) = m_fdreg M" "connect_timer (add_container r act M) = connect_timer M"
  "lookup_timer (add_container r act M) = lookup_timer M" "reconnect_timer (add_container r act M) = reconnect_timer M"
  "m_backoff (add_container r act M) = m_backoff M" "transient_timer (add_container r act M) = transient_timer M"
  by (simp_all add: add_container_def)

lemma add_container_inv:
  assumes "queue_inv {} n M"
  shows "queue_inv {r} n (add_container r act M)"
proof -
  have run: "run_of (add_container r act M) c = (if c < length (containers M) then run_of M c else r)"
    if "c < Suc (length (containers M))" for c
    using that by (auto simp: run_of_def add_container_def new_container_def nth_append)
  have old: "accounted (add_container r act M) k" if "accounted M k" for k
    using that queue_invD(5) [OF assms] unfolding accounted_def
    by (auto simp: add_container_def run_of_def nth_append)
  have "accounted (add_container r act M) (run_of (add_container r act M) c)"
    if "c < Suc (length (containers M))" "run_of (add_container r act M) c \<noteq> 0" "run_of (add_container r act M) c \<noteq> r" for c
    using that old queue_invD(7) [OF assms, of c] by (auto simp: run split: if_splits)
  then show ?thesis
    using assms run by (auto simp: queue_inv_def pending_ok_def add_container_def run_of_def nth_append)
qed

lemma found_ok:
  assumes "queue_inv {} 0 M"
  shows "queue_inv {} 0 (queueRun (length (containers M)) (add_container r act M))"
proof -
  have "run_of (add_container r act M) (length (containers M)) = r"
    by (simp add: run_of_def add_container_def new_container_def)
  then show ?thesis
    using queueRun_inv [OF add_container_inv [OF assms, of r act], of "length (containers M)"]
    by (simp add: add_container_def)
qed

lemma queue_found_all: "queue_inv {} 0 M \<Longrightarrow> queue_inv {} 0 (fold queue_found rs M)"
proof (induction rs arbitrary: M)
  case (Cons r rs)
  from found_ok [OF Cons.prems, of r False] have "queue_inv {} 0 (queue_found r M)"
    by (simp add: queue_found_def)
  then show ?case by (simp add: Cons.IH)
qed simp

lemma queue_found_simps [simp]:
  "m_connecting (queue_found r M) = m_connecting M" "m_fdreg (queue_found r M) = m_fdreg M"
  "clients (queue_found r M) = clients M" "m_backoff (queue_found r M) = m_backoff M"
  "connect_timer (queue_found r M) = connect_timer M" "lookup_timer (queue_found r M) = lookup_timer M"
  "reconnect_timer (queue_found r M) = reconnect_timer M" "transient_timer (queue_found r M) = transient_timer M"
  "m_pendingRuns (queue_found r M) \<noteq> []"
  by (simp_all add: queue_found_def)

lemma fold_found [simp]:
  "m_connecting (fold queue_found rs M) = m_connecting M" "m_fdreg (fold queue_found rs M) = m_fdreg M"
  "clients (fold queue_found rs M) = clients M" "m_backoff (fold queue_found rs M) = m_backoff M"
  "connect_timer (fold queue_found rs M) = connect_timer M" "lookup_timer (fold queue_found rs M) = lookup_timer M"
  "reconnect_timer (fold queue_found rs M) = reconnect_timer M" "transient_timer (fold queue_found rs M) = transient_timer M"
  by (induction rs arbitrary: M) simp_all

lemma fold_found_nonempty: "rs \<noteq> [] \<or> m_pendingRuns M \<noteq> [] \<Longrightarrow> m_pendingRuns (fold queue_found rs M) \<noteq> []"
proof (induction rs arbitrary: M)
  case (Cons r rs)
  show ?case by (simp add: Cons.IH)
qed simp

lemma step_ok:
  assumes inv: "queue_inv {} 0 M" and go: "going M"
  shows "\<exists>M'. mgr_step E ev M = Inr M' \<and> queue_inv {} 0 M' \<and> going M'"
proof (cases ev)
  case (Run_Starts r)
  show ?thesis
  proof (cases "r = 0")
    case True
    have "queue_inv {} 0 (add_container 0 True M)"
      using add_container_inv [OF inv, of 0 True] by (auto simp: queue_inv_def)
    with True go show ?thesis
      unfolding Run_Starts by (simp add: containerChange_def) (simp add: going_def run_of_def add_container_def new_container_def)
  next
    case False
    have "going (queueRun (length (containers M)) (add_container r True M))"
      by (simp add: going_def)
    then show ?thesis
      using False found_ok [OF inv, of r True] unfolding Run_Starts
      by (simp add: containerChange_def startConnect_going run_of_def add_container_def new_container_def)
  qed
next
  case (Run_Ends c)
  have "queue_inv {} 0 (on_container c (\<lambda>C. C\<lparr>c_active := False\<rparr>) M)" if "c < length (containers M)"
    using mark_inv [OF inv that, of "\<lambda>C. C\<lparr>c_active := False\<rparr>"] some_open by simp
  moreover have "queue_inv {} 0 (M'\<lparr>m_currentRun := 0\<rparr>)" if "queue_inv {} 0 M'" for M'
    using that by (auto simp: queue_inv_def pending_ok_def accounted_def run_of_def)
  ultimately show ?thesis
    using inv go unfolding Run_Ends by (auto simp: containerChange_def going_def on_container_def)
next
  case (Runs_Found rs)
  have "going (fold queue_found rs M)" if "rs \<noteq> []"
    using that by (simp add: going_def fold_found_nonempty)
  then show ?thesis
    using queue_found_all [OF inv, of rs] inv go unfolding Runs_Found by (simp add: startConnect_going)
next
  case (Lookup_Answers ours res sock made)
  then show ?thesis
    using lookupComplete_ok [OF inv go] by simp
next
  case (Descriptor_Ready sock made)
  then show ?thesis
    using manager_connect_ok [OF inv go] inv go by (auto simp: going_def)
next
  case (Client_Ends i d)
  then show ?thesis
    using clientComplete_ok [OF inv go, of i] inv go by simp
next
  case Connect_Due
  then show ?thesis
    using inv go by (auto simp: connectTimeout_def going_def connectFailed_def)
qed (use inv startConnect_going [OF go] startConnect_going [OF going_less(1) [OF go]] startConnect_going [OF going_less(2) [OF go]]
    startConnect_going [OF going_less(3) [OF go]] in
    \<open>simp_all add: go reconnectTimeout_def transientTimeout_def lookupTimeout_def\<close>)

lemma run_manager_ok:
  "queue_inv {} 0 M \<Longrightarrow> going M \<Longrightarrow> \<exists>M'. run_manager evs M = Inr M' \<and> queue_inv {} 0 M' \<and> going M'"
proof (induction evs arbitrary: M)
  case (Cons e evs)
  obtain E ev where e: "e = (E, ev)"
    by (cases e)
  obtain M1 where "mgr_step E ev M = Inr M1" "queue_inv {} 0 M1" "going M1"
    using step_ok [OF Cons.prems] by blast
  then show ?case
    using Cons.IH by (simp add: e)
qed simp

lemma new_manager_ok: "queue_inv {} 0 new_manager" "going new_manager"
  by (simp_all add: new_manager_def queue_inv_def pending_ok_def going_def)

section \<open>The number of connections and what is due\<close>

text \<open>
  \<open>within\<close>: no more clients than the maximum, also with the connection that is being made. \<open>awake\<close>: a
  backoff ends, an attempt to connect ends, and a run that waits is not forgotten.
\<close>

definition within :: "u32 \<Rightarrow> manager \<Rightarrow> bool" where
  "within mx M \<longleftrightarrow> length (clients M) \<le> unat mx \<and>
     (m_connecting M \<or> m_fdreg M \<longrightarrow> length (clients M) < unat mx)"

definition under_way :: "manager \<Rightarrow> bool" where
  "under_way M \<longleftrightarrow> (m_backoff M \<longrightarrow> transient_timer M) \<and>
     (m_connecting M \<longrightarrow> lookup_timer M \<or> connect_timer M \<or> reconnect_timer M)"

definition awake :: "u32 \<Rightarrow> manager \<Rightarrow> bool" where
  "awake mx M \<longleftrightarrow> under_way M \<and>
     (\<not> m_connecting M \<longrightarrow> m_pendingRuns M \<noteq> [] \<longrightarrow>
        m_backoff M \<or> reconnect_timer M \<or> unat mx \<le> length (clients M))"

text \<open>Lookups are taken and answered by no one else, and a connection that was made at once is one.\<close>

fun regular :: "mgr_env \<times> mgr_event \<Rightarrow> bool" where
  "regular (E, Lookup_Answers ours res sock made) \<longleftrightarrow>
     q_lookups E \<and> ours \<and> \<not> (res = Connect_At_Once \<and> sock = Sock_Wait)"
| "regular (E, ev) \<longleftrightarrow> q_lookups E"

lemma connections_less:
  assumes "m_connections M = of_nat (length (clients M))" and "length (clients M) \<le> unat mx"
  shows "m_connections M \<ge> mx \<longleftrightarrow> unat mx \<le> length (clients M)"
proof -
  have "length (clients M) < 2 ^ LENGTH(32)"
    by (rule le_less_trans [OF assms(2) unsigned_less])
  then have "unat (m_connections M) = length (clients M)"
    by (simp add: assms(1) unsigned_of_nat take_bit_nat_eq_self)
  then show ?thesis
    by (simp add: word_le_nat_alt)
qed

lemma startConnect_within:
  assumes "within mx M" "m_connections M = of_nat (length (clients M))" "q_maxConnections E = mx"
  shows "within mx (mgr_startConnect E M)"
  using assms connections_less [of M mx] by (auto simp: within_def mgr_startConnect_def not_le)

lemma startConnect_awake:
  assumes "under_way M" "length (clients M) \<le> unat mx" "m_connections M = of_nat (length (clients M))"
    "q_maxConnections E = mx" "q_lookups E"
  shows "awake mx (mgr_startConnect E M)"
  using assms connections_less [of M mx] by (auto simp: awake_def under_way_def mgr_startConnect_def)

lemma connectFailed_within: "within mx M \<Longrightarrow> within mx (connectFailed M)"
  by (simp add: within_def connectFailed_def)

lemma connectFailed_awake: "(m_backoff M \<longrightarrow> transient_timer M) \<Longrightarrow> awake mx (connectFailed M)"
  by (simp add: awake_def under_way_def connectFailed_def)

lemma connectComplete_Ok:
  assumes inv: "queue_inv {} 0 M" and ne: "m_pendingRuns M \<noteq> []" and run: "mgr_connectComplete E Sock_Ok made M = Inr M'"
    and fd: "m_fd M"
  obtains c M1 where "taken c (M\<lparr>m_fdreg := False, m_connections := m_connections M + 1, connect_timer := False\<rparr>) M1"
    "M' = (if made then mgr_startConnect E (M1\<lparr>m_fd := False, m_connecting := False, clients := clients M1 @ [c]\<rparr>)
      else connectFailed (dequeueRun c (queueRun c (M1\<lparr>m_connections := m_connections M1 - 1\<rparr>))))"
proof -
  let ?M = "M\<lparr>m_fdreg := False, m_connections := m_connections M + 1, connect_timer := False\<rparr>"
  have "queue_inv {} 1 ?M" "m_pendingRuns ?M \<noteq> []"
    using inv ne by (auto simp: queue_inv_def pending_ok_def accounted_def run_of_def)
  then obtain c M1 where "nextRun ?M = Inr (c, M1)" "taken c ?M M1"
    by (rule nextRun_ok)
  then show thesis
    using run fd that by (simp add: mgr_connectComplete_def split: if_splits)
qed

lemma connectComplete_within:
  assumes inv: "queue_inv {} 0 M" and ne: "m_pendingRuns M \<noteq> []" and w: "within mx M" "length (clients M) < unat mx"
    and E: "q_maxConnections E = mx" and run: "mgr_connectComplete E sock made M = Inr M'"
  shows "within mx M'"
proof (cases "m_fd M \<and> sock = Sock_Ok")
  case True
  then have "mgr_connectComplete E Sock_Ok made M = Inr M'" "m_fd M"
    using run by simp_all
  then obtain c M1 where t: "taken c (M\<lparr>m_fdreg := False, m_connections := m_connections M + 1, connect_timer := False\<rparr>) M1"
    and M': "M' = (if made then mgr_startConnect E (M1\<lparr>m_fd := False, m_connecting := False, clients := clients M1 @ [c]\<rparr>)
      else connectFailed (dequeueRun c (queueRun c (M1\<lparr>m_connections := m_connections M1 - 1\<rparr>))))"
    by (rule connectComplete_Ok [OF inv ne])
  show ?thesis
  proof (cases made)
    case True
    have "within mx (mgr_startConnect E (M1\<lparr>m_fd := False, m_connecting := False, clients := clients M1 @ [c]\<rparr>))"
      by (rule startConnect_within [OF _ _ E]) (use t w(2) queue_invD(4) [OF inv] in \<open>auto simp: taken_def within_def\<close>)
    with True M' show ?thesis by simp
  next
    case False
    then show ?thesis
      unfolding M' using t w by (simp add: within_def connectFailed_def taken_def)
  qed
next
  case False
  then show ?thesis
    using run w by (cases sock) (auto simp: mgr_connectComplete_def connectFailed_within split: if_splits)
qed

lemma connectComplete_awake:
  assumes inv: "queue_inv {} 0 M" and ne: "m_pendingRuns M \<noteq> []" and w: "length (clients M) < unat mx"
    and u: "m_backoff M \<longrightarrow> transient_timer M" and E: "q_maxConnections E = mx" "q_lookups E"
    and run: "mgr_connectComplete E sock made M = Inr M'" and wait: "sock = Sock_Wait \<Longrightarrow> awake mx M"
  shows "awake mx M'"
proof (cases "m_fd M \<and> sock = Sock_Ok")
  case True
  then have "mgr_connectComplete E Sock_Ok made M = Inr M'" "m_fd M"
    using run by simp_all
  then obtain c M1 where t: "taken c (M\<lparr>m_fdreg := False, m_connections := m_connections M + 1, connect_timer := False\<rparr>) M1"
    and M': "M' = (if made then mgr_startConnect E (M1\<lparr>m_fd := False, m_connecting := False, clients := clients M1 @ [c]\<rparr>)
      else connectFailed (dequeueRun c (queueRun c (M1\<lparr>m_connections := m_connections M1 - 1\<rparr>))))"
    by (rule connectComplete_Ok [OF inv ne])
  show ?thesis
  proof (cases made)
    case True
    have "awake mx (mgr_startConnect E (M1\<lparr>m_fd := False, m_connecting := False, clients := clients M1 @ [c]\<rparr>))"
      by (rule startConnect_awake [OF _ _ _ E])
         (use t w u queue_invD(4) [OF inv] in \<open>auto simp: taken_def under_way_def\<close>)
    with True M' show ?thesis by simp
  next
    case False
    then show ?thesis
      unfolding M' using t u by (simp add: connectFailed_awake taken_def)
  qed
next
  case False
  then show ?thesis
    using run wait u by (cases sock) (auto simp: mgr_connectComplete_def connectFailed_awake split: if_splits)
qed

lemma startConnect_within_simp:
  assumes "queue_inv {} 0 M'" "length (clients M') \<le> unat mx" "m_connecting M' \<or> m_fdreg M' \<longrightarrow> length (clients M') < unat mx"
    "q_maxConnections E = mx"
  shows "within mx (mgr_startConnect E M')"
  using startConnect_within [of mx M' E] assms queue_invD(4) [OF assms(1)] by (simp add: within_def)

lemma lookupComplete_within:
  assumes inv: "queue_inv {} 0 M" and go: "going M" and w: "within mx M" and E: "q_maxConnections E = mx"
    and run: "lookupComplete E ours res sock made M = Inr M'"
  shows "within mx M'"
proof (cases "m_connecting M \<and> ours")
  case True
  then have ne: "m_pendingRuns M \<noteq> []" and less: "length (clients M) < unat mx"
    using go w by (simp_all add: going_def within_def)
  let ?M = "M\<lparr>lookup_timer := False, m_fdreg := False, m_fd := True\<rparr>"
  have "queue_inv {} 0 ?M" "m_pendingRuns ?M \<noteq> []" "within mx ?M" "length (clients ?M) < unat mx"
    using inv ne w less by (auto simp: within_def)
  from connectComplete_within [OF this E] show ?thesis
    using True run w less by (cases res) (auto simp: lookupComplete_def within_def connectFailed_def)
next
  case False
  then have M': "M' = M\<lparr>lookup_timer := False\<rparr>"
    using run by (auto simp: lookupComplete_def)
  show ?thesis
    using w unfolding M' by (simp add: within_def)
qed

lemma step_within:
  assumes inv: "queue_inv {} 0 M" and go: "going M" and w: "within mx M" and E: "q_maxConnections E = mx"
    and run: "mgr_step E ev M = Inr M'"
  shows "within mx M'"
proof -
  have con: "m_connections M = of_nat (length (clients M))"
    using queue_invD(4) [OF inv] by simp
  have start: "within mx (mgr_startConnect E N)"
    if "clients N = clients M" "m_connections N = m_connections M" "m_connecting N \<longrightarrow> m_connecting M" "m_fdreg N = m_fdreg M" for N
    by (rule startConnect_within [OF _ _ E]) (use that w con in \<open>auto simp: within_def\<close>)
  show ?thesis
  proof (cases ev)
    case (Run_Starts r)
    then show ?thesis
      using run w start [of "queueRun (length (containers M)) (add_container r True M)"]
      by (auto simp: containerChange_def add_container_def within_def)
  next
    case (Runs_Found rs)
    have "m_connections (fold queue_found rs M) = m_connections M"
      using queue_invD(4) [OF queue_found_all [OF inv, of rs]] con by simp
    then show ?thesis
      using Runs_Found run w start [of "fold queue_found rs M"] by auto
  next
    case (Lookup_Answers ours res sock made)
    then show ?thesis
      using run lookupComplete_within [OF inv go w E] by simp
  next
    case (Descriptor_Ready sock made)
    show ?thesis
    proof (cases "m_fdreg M")
      case True
      then have "m_pendingRuns M \<noteq> []" "length (clients M) < unat mx"
        using go w by (simp_all add: going_def within_def)
      from connectComplete_within [OF inv this(1) w this(2) E] show ?thesis
        using True Descriptor_Ready run by simp
    next
      case False
      then show ?thesis
        using Descriptor_Ready run w by simp
    qed
  next
    case (Client_Ends i d)
    show ?thesis
    proof (cases "i < length (clients M)")
      case True
      let ?c = "clients M ! i" and ?M = "M\<lparr>clients := drop_nth i (clients M)\<rparr>"
      let ?S = "settle_run E d ?c (dequeueRun ?c ?M)"
      have "queue_inv {} 0 (clientComplete E d ?c ?M)"
        using clientComplete_ok [OF inv go True] by simp
      then have "queue_inv {} 0 (?S\<lparr>m_connections := m_connections ?S - 1\<rparr>)"
        by (simp add: clientComplete_def Let_def)
      then have "within mx (mgr_startConnect E (?S\<lparr>m_connections := m_connections ?S - 1\<rparr>))"
        by (rule startConnect_within_simp) (use w length_drop_nth [OF True] E in \<open>auto simp: within_def\<close>)
      then show ?thesis
        using True Client_Ends run by (simp add: clientComplete_def Let_def)
    qed (use Client_Ends run w in simp)
  next
    case Connect_Due
    then show ?thesis
      using run w by (cases "connect_timer M") (auto simp: connectTimeout_def within_def connectFailed_def)
  next
    case (Run_Ends c)
    then have "M' = M \<or> M' = on_container c (\<lambda>C. C\<lparr>c_active := False\<rparr>) M \<or>
        M' = (on_container c (\<lambda>C. C\<lparr>c_active := False\<rparr>) M)\<lparr>m_currentRun := 0\<rparr>"
      using run by (simp add: containerChange_def split: if_splits)
    then show ?thesis
      using w by (elim disjE) (simp_all add: within_def on_container_def)
  next
    case Reconnect_Due
    then have "M' = M \<or> M' = mgr_startConnect E (M\<lparr>reconnect_timer := False, m_connecting := False\<rparr>)"
      using run by (simp add: reconnectTimeout_def split: if_splits)
    then show ?thesis
      using w by (elim disjE) (simp_all add: start)
  next
    case Transient_Due
    then have "M' = M \<or> M' = mgr_startConnect E (M\<lparr>transient_timer := False, m_backoff := False\<rparr>)"
      using run by (simp add: transientTimeout_def split: if_splits)
    then show ?thesis
      using w by (elim disjE) (simp_all add: start)
  next
    case Lookup_Due
    then have "M' = M \<or> M' = mgr_startConnect E (M\<lparr>lookup_timer := False, m_connecting := False\<rparr>)"
      using run by (simp add: lookupTimeout_def split: if_splits)
    then show ?thesis
      using w by (elim disjE) (simp_all add: start)
  next
    case Maximum_Changes
    then show ?thesis
      using run start [of M] by auto
  qed
qed

lemma lookupComplete_awake:
  assumes inv: "queue_inv {} 0 M" and go: "going M" and w: "within mx M" and a: "awake mx M"
    and E: "q_maxConnections E = mx" "q_lookups E" and reg: "\<not> (res = Connect_At_Once \<and> sock = Sock_Wait)"
    and run: "lookupComplete E True res sock made M = Inr M'"
  shows "awake mx M'"
proof (cases "m_connecting M")
  case True
  then have ne: "m_pendingRuns M \<noteq> []" and less: "length (clients M) < unat mx"
    using go w by (simp_all add: going_def within_def)
  have u: "m_backoff M \<longrightarrow> transient_timer M"
    using a by (simp add: awake_def under_way_def)
  let ?M = "M\<lparr>lookup_timer := False, m_fdreg := False, m_fd := True\<rparr>"
  have "queue_inv {} 0 ?M" "m_pendingRuns ?M \<noteq> []" "length (clients ?M) < unat mx" "m_backoff ?M \<longrightarrow> transient_timer ?M"
    using inv ne less u by auto
  note once = connectComplete_awake [OF this E]
  show ?thesis
  proof (cases res)
    case Connect_At_Once
    then have "mgr_connectComplete E sock made ?M = Inr M'" "sock \<noteq> Sock_Wait"
      using True run reg by (simp_all add: lookupComplete_def)
    then show ?thesis
      using once by blast
  qed (use True run u in \<open>auto simp: lookupComplete_def awake_def under_way_def connectFailed_def\<close>)
next
  case False
  then have M': "M' = M\<lparr>lookup_timer := False\<rparr>"
    using run by (simp add: lookupComplete_def)
  show ?thesis
    using a False unfolding M' by (simp add: awake_def under_way_def)
qed

lemma settle_run_under_way: "under_way M \<Longrightarrow> under_way (settle_run E d c M)"
  by (simp add: under_way_def settle_run_def markManual_def markTranslated_def incrRequeueCount_def on_container_def back_off_def
      split: disposition.split)

lemma step_awake:
  assumes inv: "queue_inv {} 0 M" and go: "going M" and w: "within mx M" and a: "awake mx M" and E: "q_maxConnections E = mx"
    and reg: "regular (E, ev)" and run: "mgr_step E ev M = Inr M'"
  shows "awake mx M'"
proof -
  have con: "m_connections M = of_nat (length (clients M))"
    using queue_invD(4) [OF inv] by simp
  have q: "q_lookups E"
    using reg by (cases ev) simp_all
  have start: "awake mx (mgr_startConnect E N)"
    if "clients N = clients M" "m_connections N = m_connections M" "under_way N" for N
    by (rule startConnect_awake [OF _ _ _ E q]) (use that w con in \<open>auto simp: within_def\<close>)
  have u: "under_way M"
    using a by (simp add: awake_def)
  show ?thesis
  proof (cases ev)
    case (Run_Starts r)
    then have "M' = add_container r True M \<or>
        M' = mgr_startConnect E (queueRun (length (containers M)) (add_container r True M))"
      using run by (simp add: containerChange_def split: if_splits)
    then show ?thesis
    proof
      assume "M' = add_container r True M"
      then show ?thesis
        using a by (simp add: awake_def under_way_def)
    next
      assume "M' = mgr_startConnect E (queueRun (length (containers M)) (add_container r True M))"
      then show ?thesis
        using u by (simp add: start under_way_def)
    qed
  next
    case (Runs_Found rs)
    have "m_connections (fold queue_found rs M) = m_connections M"
      using queue_invD(4) [OF queue_found_all [OF inv, of rs]] con by simp
    then show ?thesis
      using Runs_Found run a u start [of "fold queue_found rs M"] by (auto simp: under_way_def)
  next
    case (Lookup_Answers ours res sock made)
    then show ?thesis
      using run reg lookupComplete_awake [OF inv go w a E q, of res sock made M'] by auto
  next
    case (Descriptor_Ready sock made)
    show ?thesis
    proof (cases "m_fdreg M")
      case True
      then have "m_pendingRuns M \<noteq> []" "length (clients M) < unat mx" "m_backoff M \<longrightarrow> transient_timer M"
        using go w a by (simp_all add: going_def within_def awake_def under_way_def)
      from connectComplete_awake [OF inv this E q] show ?thesis
        using True Descriptor_Ready run a by simp
    next
      case False
      then show ?thesis
        using Descriptor_Ready run a by simp
    qed
  next
    case (Client_Ends i d)
    show ?thesis
    proof (cases "i < length (clients M)")
      case True
      let ?c = "clients M ! i" and ?M = "M\<lparr>clients := drop_nth i (clients M)\<rparr>"
      let ?S = "settle_run E d ?c (dequeueRun ?c ?M)"
      have "queue_inv {} 0 (clientComplete E d ?c ?M)"
        using clientComplete_ok [OF inv go True] by simp
      then have s: "queue_inv {} 0 (?S\<lparr>m_connections := m_connections ?S - 1\<rparr>)"
        by (simp add: clientComplete_def Let_def)
      have "under_way (dequeueRun ?c ?M)"
        using u by (simp add: under_way_def)
      from settle_run_under_way [OF this]
      have "under_way (?S\<lparr>m_connections := m_connections ?S - 1\<rparr>)"
        by (simp add: under_way_def)
      then have "awake mx (mgr_startConnect E (?S\<lparr>m_connections := m_connections ?S - 1\<rparr>))"
        by (rule startConnect_awake [OF _ _ _ E q])
           (use w length_drop_nth [OF True] queue_invD(4) [OF s] in \<open>auto simp: within_def\<close>)
      then show ?thesis
        using True Client_Ends run by (simp add: clientComplete_def Let_def)
    qed (use Client_Ends run a in simp)
  next
    case Connect_Due
    then show ?thesis
      using run a u by (cases "connect_timer M") (auto simp: connectTimeout_def connectFailed_awake under_way_def)
  next
    case (Run_Ends c)
    then have "M' = M \<or> M' = on_container c (\<lambda>C. C\<lparr>c_active := False\<rparr>) M \<or>
        M' = (on_container c (\<lambda>C. C\<lparr>c_active := False\<rparr>) M)\<lparr>m_currentRun := 0\<rparr>"
      using run by (simp add: containerChange_def split: if_splits)
    then show ?thesis
      using a u by (elim disjE) (simp_all add: awake_def under_way_def on_container_def)
  next
    case Reconnect_Due
    then have "M' = M \<or> M' = mgr_startConnect E (M\<lparr>reconnect_timer := False, m_connecting := False\<rparr>)"
      using run by (simp add: reconnectTimeout_def split: if_splits)
    then show ?thesis
      using a u by (elim disjE) (simp_all add: start under_way_def)
  next
    case Transient_Due
    then have "M' = M \<or> M' = mgr_startConnect E (M\<lparr>transient_timer := False, m_backoff := False\<rparr>)"
      using run by (simp add: transientTimeout_def split: if_splits)
    then show ?thesis
      using a u by (elim disjE) (simp_all add: start under_way_def)
  next
    case Lookup_Due
    then have "M' = M \<or> M' = mgr_startConnect E (M\<lparr>lookup_timer := False, m_connecting := False\<rparr>)"
      using run by (simp add: lookupTimeout_def split: if_splits)
    then show ?thesis
      using a u by (elim disjE) (simp_all add: start under_way_def)
  next
    case Maximum_Changes
    then show ?thesis
      using run start [of M] u by auto
  qed
qed

lemma run_within_awake:
  assumes "queue_inv {} 0 M" "going M" "within mx M" "\<forall>e \<in> set evs. q_maxConnections (fst e) = mx"
    and "run_manager evs M = Inr M'"
  shows "within mx M'" and "awake mx M \<Longrightarrow> \<forall>e \<in> set evs. regular e \<Longrightarrow> awake mx M'"
proof -
  have "within mx M' \<and> (awake mx M \<longrightarrow> (\<forall>e \<in> set evs. regular e) \<longrightarrow> awake mx M')"
    using assms
  proof (induction evs arbitrary: M)
    case (Cons e evs)
    obtain E ev where e: "e = (E, ev)"
      by (cases e)
    obtain M1 where M1: "mgr_step E ev M = Inr M1" "queue_inv {} 0 M1" "going M1"
      using step_ok [OF Cons.prems(1,2)] by blast
    have E: "q_maxConnections E = mx" and rest: "\<forall>e \<in> set evs. q_maxConnections (fst e) = mx" "run_manager evs M1 = Inr M'"
      using Cons.prems(4,5) M1(1) by (simp_all add: e)
    have "within mx M1"
      by (rule step_within [OF Cons.prems(1-3) E M1(1)])
    from Cons.IH [OF M1(2,3) this rest] show ?case
      using step_awake [OF Cons.prems(1-3) _ E _ M1(1)] by (auto simp: e)
  qed simp
  then show "within mx M'" and "awake mx M \<Longrightarrow> \<forall>e \<in> set evs. regular e \<Longrightarrow> awake mx M'"
    by auto
qed

lemma new_manager_within: "within mx new_manager" "awake mx new_manager"
  by (simp_all add: new_manager_def within_def awake_def under_way_def)

section \<open>Properties\<close>

text \<open>
  C25. In whatever order lookups, descriptors, timers and clients report, also late or more than once, the
  queue is never asked for a run it does not have; every connection has one client; and with a constant
  maximum there are never more connections than it.
\<close>

theorem queue_never_fails:
  "\<exists>M. run_manager evs new_manager = Inr M \<and> m_connections M = of_nat (length (clients M)) \<and>
     ((\<forall>e \<in> set evs. q_maxConnections (fst e) = mx) \<longrightarrow> length (clients M) \<le> unat mx)"
proof -
  obtain M where M: "run_manager evs new_manager = Inr M" "queue_inv {} 0 M"
    using run_manager_ok [OF new_manager_ok] by blast
  have "within mx M" if "\<forall>e \<in> set evs. q_maxConnections (fst e) = mx"
    by (rule run_within_awake [OF new_manager_ok new_manager_within(1) that M(1)])
  then show ?thesis
    using M queue_invD(4) [OF M(2)] by (auto simp: within_def)
qed

definition sample_queue_env :: mgr_env where
  "sample_queue_env = \<lparr>q_maxConnections = 1, q_maxRequeueCount = 1, q_lookups = True\<rparr>"

definition sample_events :: "(mgr_env \<times> mgr_event) list" where
  "sample_events = List.map (Pair sample_queue_env)
     [Run_Starts 7, Lookup_Answers True Connect_At_Once Sock_Ok True, Runs_Found [3, 5], Run_Ends 0]"

theorem queue_never_fails_witness:
  "\<exists>M. run_manager sample_events new_manager = Inr M \<and> length (clients M) \<le> 1"
proof -
  have max: "\<forall>e \<in> set sample_events. q_maxConnections (fst e) = 1"
    by (simp add: sample_events_def sample_queue_env_def)
  obtain M where "run_manager sample_events new_manager = Inr M"
    "(\<forall>e \<in> set sample_events. q_maxConnections (fst e) = 1) \<longrightarrow> length (clients M) \<le> unat (1 :: u32)"
    using queue_never_fails [of sample_events 1] by blast
  with max show ?thesis by auto
qed

text \<open>
  C11. No run is lost. After any order of events the number of every run that started or was found waits in
  the queue, is sent by a client, or belongs to a container that is marked as translated or for manual
  processing.
\<close>

theorem no_run_lost:
  assumes "run_manager evs new_manager = Inr M" and "c < length (containers M)" and "run_of M c \<noteq> 0"
  shows "run_of M c \<in> om_keys (m_pendingRuns M) \<or> (\<exists>i < length (clients M). run_of M (clients M ! i) = run_of M c) \<or>
    (\<exists>c' < length (containers M). run_of M c' = run_of M c \<and>
       (c_translated (containers M ! c') \<or> c_manual (containers M ! c')))"
proof -
  have "queue_inv {} 0 M"
    using run_manager_ok [OF new_manager_ok, of evs] assms(1) by auto
  from queue_invD(7) [OF this assms(2,3)] show ?thesis
    by (auto simp: accounted_def in_set_conv_nth)
qed

lemma sample_queue_run:
  "\<exists>M. run_manager sample_events new_manager = Inr M \<and> clients M = [0] \<and> length (containers M) = 3 \<and>
     run_of M 1 = 3 \<and> m_pendingRuns M = [(3, 1), (5, 2)]"
  by (simp add: sample_events_def sample_queue_env_def new_manager_def containerChange_def mgr_startConnect_def
      queueRun_def run_of_def add_container_def new_container_def lookupComplete_def mgr_connectComplete_def
      nextRun_def pick_run_def om_upsert_def om_update_def om_erase_def queue_found_def on_container_def)

theorem no_run_lost_witness:
  "\<exists>M. run_manager sample_events new_manager = Inr M \<and>
    (3 \<in> om_keys (m_pendingRuns M) \<or> (\<exists>i < length (clients M). run_of M (clients M ! i) = 3) \<or>
     (\<exists>c' < length (containers M). run_of M c' = 3 \<and> (c_translated (containers M ! c') \<or> c_manual (containers M ! c'))))"
proof -
  obtain M where M: "run_manager sample_events new_manager = Inr M" "length (containers M) = 3" "run_of M 1 = 3"
    using sample_queue_run by blast
  then have "1 < length (containers M)" "run_of M 1 \<noteq> 0"
    by simp_all
  from no_run_lost [OF M(1) this] M show ?thesis
    by auto
qed

text \<open>Once the backoff and the delay of a waiting run are over a connection is being made.\<close>

lemma delays_over:
  assumes a: "awake mx M" and con: "\<not> m_connections M \<ge> mx" and len: "length (clients M) < unat mx"
    and E: "q_maxConnections E = mx" "q_lookups E" and ne: "m_pendingRuns M \<noteq> []"
  obtains M2 where "run_manager [(E, Transient_Due), (E, Reconnect_Due)] M = Inr M2" "m_connecting M2"
    "m_pendingRuns M2 = m_pendingRuns M" "m_connections M2 = m_connections M" "clients M2 = clients M"
    "containers M2 = containers M" "m_currentRun M2 = m_currentRun M"
proof -
  let ?M1 = "if transient_timer M then transientTimeout E M else M"
  let ?M2 = "if reconnect_timer ?M1 then reconnectTimeout E ?M1 else ?M1"
  have M1: "\<not> m_backoff ?M1" "m_connecting ?M1 \<or> reconnect_timer ?M1" "m_pendingRuns ?M1 = m_pendingRuns M"
    "m_connections ?M1 = m_connections M" "clients ?M1 = clients M" "containers ?M1 = containers M" "m_currentRun ?M1 = m_currentRun M"
    using assms by (auto simp: transientTimeout_def mgr_startConnect_def awake_def under_way_def)
  have "m_connecting ?M2" "m_pendingRuns ?M2 = m_pendingRuns M" "m_connections ?M2 = m_connections M"
    "clients ?M2 = clients M" "containers ?M2 = containers M" "m_currentRun ?M2 = m_currentRun M"
    using M1 assms by (auto simp: reconnectTimeout_def mgr_startConnect_def)
  then show thesis
    using that [of ?M2] by simp
qed

lemma lookup_sends:
  assumes inv: "queue_inv {} 0 M" and ne: "m_pendingRuns M \<noteq> []" and con: "m_connecting M"
  obtains c M' where "mgr_step E (Lookup_Answers True Connect_At_Once Sock_Ok True) M = Inr M'"
    "clients M' = clients M @ [c]" "run_of M c \<in> om_keys (m_pendingRuns M)"
proof -
  let ?M = "M\<lparr>lookup_timer := False, m_fdreg := False, m_fd := True\<rparr>"
  have inv1: "queue_inv {} 0 ?M" "m_pendingRuns ?M \<noteq> []"
    using inv ne by simp_all
  obtain M' where M': "mgr_connectComplete E Sock_Ok True ?M = Inr M'"
    using manager_connect_ok [OF inv1(1), of E Sock_Ok True] ne by (auto simp: going_def)
  obtain c M1 where "taken c (?M\<lparr>m_fdreg := False, m_connections := m_connections ?M + 1, connect_timer := False\<rparr>) M1"
    "M' = mgr_startConnect E (M1\<lparr>m_fd := False, m_connecting := False, clients := clients M1 @ [c]\<rparr>)"
    using connectComplete_Ok [OF inv1 M'] by auto
  then have "clients M' = clients M @ [c]" "run_of M c \<in> om_keys (m_pendingRuns M)"
    by (auto simp: taken_def mgr_startConnect_def run_of_def)
  then show thesis
    using that M' con by (simp add: lookupComplete_def)
qed


definition waiting_events :: "(mgr_env \<times> mgr_event) list" where
  "waiting_events = List.map (Pair sample_queue_env) [Run_Starts 7, Lookup_Answers True Lookup_Failed Sock_Ok True]"


text \<open>
  C38. When \<open>getaddrinfo_a\<close> does not take the lookup of the first run nothing is due any more: no timer
  runs, nothing is being connected and no client is there, and none of the events of the manager itself
  changes that. The run waits until another one comes or the operator acts.
\<close>

theorem refused_lookup_stalls:
  assumes "r \<noteq> 0" and "\<not> q_lookups E" and "run_manager [(E, Run_Starts r)] new_manager = Inr M"
    and "ev \<in> {Connect_Due, Reconnect_Due, Transient_Due, Lookup_Due} \<or>
      ev \<in> range (\<lambda>(ours, res, sock, made). Lookup_Answers ours res sock made) \<or>
      ev \<in> range (\<lambda>(sock, made). Descriptor_Ready sock made) \<or> ev \<in> range (\<lambda>(i, d). Client_Ends i d)"
  shows "m_pendingRuns M = [(r, 0)] \<and> clients M = [] \<and> mgr_step E' ev M = Inr M"
proof -
  let ?C = "new_container r True"
  have M: "M = new_manager\<lparr>containers := [?C], m_pendingRuns := [(r, 0)], m_currentRun := r\<rparr>"
    using assms(1-3) by (simp add: new_manager_def containerChange_def mgr_startConnect_def queueRun_def run_of_def
        add_container_def new_container_def split: if_splits)
  show ?thesis
    using assms(4) unfolding M by (auto simp: new_manager_def lookupComplete_def)
qed

theorem refused_lookup_stalls_witness:
  "\<exists>M. run_manager [(sample_queue_env\<lparr>q_lookups := False\<rparr>, Run_Starts 7)] new_manager = Inr M \<and>
    m_pendingRuns M = [(7, 0)] \<and> mgr_step sample_queue_env Reconnect_Due M = Inr M"
proof -
  obtain M where M: "run_manager [(sample_queue_env\<lparr>q_lookups := False\<rparr>, Run_Starts 7)] new_manager = Inr M"
    by simp
  from refused_lookup_stalls [OF _ _ M, of Reconnect_Due sample_queue_env] M show ?thesis
    by (auto simp: sample_queue_env_def)
qed

end
