(* ===== verification/Translation_Client.thy ===== *)
theory Translation_Client
  imports Translation_Queue Control_Packets
begin

text \<open>
  A client that sends one run to the translation service (\<open>STCClient\<close> in \<open>sms/STCClient.cc\<close>), with the
  container of the run and its files as far as the client sees them: their bytes, whether a file is
  still written or was written during a pause, and the size at its last notification
  (\<open>sms/StorageFile.cc\<close>). The client holds the numbers of the files it has not finished, oldest first.

  The field \<open>sent\<close> is a history variable, what went to the socket. The answers of the system calls are an
  argument of the handlers. Heartbeats (the code sends none), the timer and the mark of oversize files,
  which the client does not read, are left out.
\<close>

section \<open>State\<close>

record run_file =
  rf_data :: bytes
  rf_active :: bool
  rf_paused :: bool
  rf_sizeLastUpdate :: nat

datatype sent_item = Chunk bytes | Data_Done | Shut_Down

record stc_client =
  run_files :: "run_file list"
  run_active :: bool
  m_files :: "nat list"
  m_cur_offset :: nat
  m_file_fd :: bool
  m_write :: bool
  m_send_paused_data :: bool
  m_contConnection :: bool
  m_fileConnection :: "nat option"
  m_disp :: disposition
  alive :: bool
  sent :: "sent_item list"

text \<open>
  What the system says during one call of \<open>writable\<close>: for every file in turn whether it opens and what
  \<open>sendfile\<close> gives (the socket takes nothing beyond the list), whether the descriptor can be watched, and
  whether the data done packet goes out.
\<close>

datatype send_result = Sends nat | Send_Again | Send_Lost

record answers =
  a_sends :: "(bool \<times> send_result) list"
  a_watch :: bool
  a_done :: bool

definition file_at :: "stc_client \<Rightarrow> nat \<Rightarrow> run_file" where
  "file_at C f = run_files C ! f"

definition on_file :: "nat \<Rightarrow> (run_file \<Rightarrow> run_file) \<Rightarrow> stc_client \<Rightarrow> stc_client" where
  "on_file f g C = C\<lparr>run_files := (run_files C)[f := g (file_at C f)]\<rparr>"

definition new_client :: "run_file list \<Rightarrow> bool \<Rightarrow> bool \<Rightarrow> stc_client" where
  "new_client fs act send_paused =
     \<lparr>run_files = fs, run_active = act, m_files = [0 ..< length fs], m_cur_offset = 0, m_file_fd = False,
      m_write = True, m_send_paused_data = send_paused, m_contConnection = act,
      m_fileConnection = (if act \<and> fs \<noteq> [] \<and> rf_active (hd fs) then Some 0 else None),
      m_disp = CONNECTION_LOSS, alive = True, sent = []\<rparr>"

section \<open>Sending\<close>

definition die :: "disposition \<Rightarrow> stc_client \<Rightarrow> stc_client" where
  "die d C = C\<lparr>m_disp := d, alive := False\<rparr>"

text \<open>The first file is done or left out; the client listens to the next one.\<close>

definition next_file :: "nat list \<Rightarrow> stc_client \<Rightarrow> stc_client" where
  "next_file fs C = C\<lparr>m_files := fs, m_fileConnection :=
     (case fs of [] \<Rightarrow> None | g # _ \<Rightarrow> if rf_active (file_at C g) then Some g else None)\<rparr>"

definition skips :: "stc_client \<Rightarrow> nat \<Rightarrow> bool" where
  "skips C f \<longleftrightarrow> rf_paused (file_at C f) \<and> m_cur_offset C = 0 \<and> \<not> m_send_paused_data C"

definition sendfile :: "nat \<Rightarrow> nat \<Rightarrow> nat \<Rightarrow> stc_client \<Rightarrow> stc_client" where
  "sendfile mx n f C =
     (let data = take (min n mx) (drop (m_cur_offset C) (rf_data (file_at C f))) in
      C\<lparr>m_cur_offset := m_cur_offset C + length data, sent := sent C @ [Chunk data]\<rparr>)"

datatype loop_end = To_More | To_Idle | To_End | Gone

fun send_files ::
    "nat \<Rightarrow> (bool \<times> send_result) list \<Rightarrow> nat list \<Rightarrow> stc_client \<Rightarrow> loop_end \<times> stc_client" where
  "send_files mx os [] C = (To_End, C)"
| "send_files mx os (f # fs) C =
     (if skips C f then send_files mx os fs (next_file fs C)
      else
        (let (opens, res) = (case os of [] \<Rightarrow> (True, Send_Again) | a # _ \<Rightarrow> a) in
         if \<not> m_file_fd C \<and> \<not> opens then (Gone, die PERMAMENT_FAIL C)
         else case res of
           Send_Again \<Rightarrow> (To_More, C\<lparr>m_file_fd := True\<rparr>)
         | Send_Lost \<Rightarrow> (Gone, die TRANSIENT_FAIL (C\<lparr>m_file_fd := True\<rparr>))
         | Sends n \<Rightarrow>
             (let C1 = sendfile mx n f (C\<lparr>m_file_fd := True\<rparr>) in
              if m_cur_offset C1 \<noteq> length (rf_data (file_at C f)) then (To_More, C1)
              else if rf_active (file_at C f) then (To_Idle, C1)
              else send_files mx (tl os) fs
                     (next_file fs (C1\<lparr>m_file_fd := False, m_cur_offset := 0\<rparr>)))))"

definition sendDataDone :: "bool \<Rightarrow> stc_client \<Rightarrow> stc_client" where
  "sendDataDone ok C = C\<lparr>sent := sent C @ [if ok then Data_Done else Shut_Down]\<rparr>"

definition writable :: "nat \<Rightarrow> answers \<Rightarrow> stc_client \<Rightarrow> stc_client" where
  "writable mx a C =
     (case send_files mx (a_sends a) (m_files C) C of
        (Gone, C1) \<Rightarrow> C1
      | (To_More, C1) \<Rightarrow>
          if m_write C1 then C1
          else if a_watch a then C1\<lparr>m_write := True\<rparr> else die TRANSIENT_FAIL C1
      | (To_Idle, C1) \<Rightarrow> C1\<lparr>m_write := False\<rparr>
      | (To_End, C1) \<Rightarrow>
          (if \<not> run_active C1 then sendDataDone (a_done a) C1 else C1)\<lparr>m_write := False\<rparr>)"

section \<open>What the container reports\<close>

definition fileAdded :: "nat \<Rightarrow> answers \<Rightarrow> nat \<Rightarrow> stc_client \<Rightarrow> stc_client" where
  "fileAdded mx a f C =
     (let C1 = C\<lparr>m_files := m_files C @ [f]\<rparr> in
      if length (m_files C1) = 1
      then (let C2 = (if m_fileConnection C1 = None \<and> rf_active (file_at C1 f)
                      then C1\<lparr>m_fileConnection := Some f\<rparr> else C1) in
            if \<not> m_write C2 then writable mx a C2 else C2)
      else C1)"

definition fileUpdated :: "nat \<Rightarrow> answers \<Rightarrow> nat \<Rightarrow> stc_client \<Rightarrow> stc_client" where
  "fileUpdated mx a f C =
     (let C1 = (if \<not> rf_active (file_at C f) then C\<lparr>m_fileConnection := None\<rparr> else C) in
      if \<not> m_write C1 then writable mx a C1 else C1)"

text \<open>\<open>StorageFile::notify\<close> and \<open>StorageFile::terminate\<close> call the client that listens to the file.\<close>

definition update_signal :: "nat \<Rightarrow> answers \<Rightarrow> nat \<Rightarrow> stc_client \<Rightarrow> stc_client" where
  "update_signal mx a f C =
     (if alive C \<and> m_fileConnection C = Some f then fileUpdated mx a f C else C)"

definition notify_file :: "nat \<Rightarrow> answers \<Rightarrow> nat \<Rightarrow> stc_client \<Rightarrow> stc_client" where
  "notify_file mx a f C =
     (let n = length (rf_data (file_at C f)) in
      if n > rf_sizeLastUpdate (file_at C f)
      then update_signal mx a f (on_file f (\<lambda>F. F\<lparr>rf_sizeLastUpdate := n\<rparr>) C) else C)"

definition terminate_file :: "nat \<Rightarrow> answers \<Rightarrow> bytes \<Rightarrow> nat \<Rightarrow> stc_client \<Rightarrow> stc_client" where
  "terminate_file mx a status f C =
     update_signal mx a f (on_file f (\<lambda>F. F\<lparr>rf_active := False, rf_data := rf_data F @ status\<rparr>) C)"

section \<open>The answer of the translation service\<close>

text \<open>The first packet ends the client, whatever it is.\<close>

definition stc_reply :: "bytes \<Rightarrow> pkt_error + disposition" where
  "stc_reply mem =
     (if kind_of_base (base_type (header_at mem)) = Some TRANS_COMPLETE_TYPE
      then (case TransCompletePkt mem of
              Inl (Invalid_Packet msg) \<Rightarrow> Inr INVALID_PROTOCOL
            | Inl e \<Rightarrow> Inl e
            | Inr (h, status, reason) \<Rightarrow>
                Inr (if status = 0 then SUCCESS else if status < 0x8000 then TRANSIENT_FAIL
                     else PERMAMENT_FAIL))
      else Inr TRANSIENT_FAIL)"

section \<open>Runs of a client\<close>

text \<open>
  A file is added to the container, grows, is notified of, or ends; the run is over (\<open>m_active\<close> of the
  container); the socket is writable; the service answers with a disposition, or the connection is lost.
\<close>

datatype client_event =
    File_Comes bytes bool bool answers
  | File_Grows nat bytes
  | File_Notifies nat answers
  | File_Ends nat bytes answers
  | Run_Over
  | Socket_Ready answers
  | Service_Answers disposition
  | Socket_Closed

fun client_step :: "nat \<Rightarrow> client_event \<Rightarrow> stc_client \<Rightarrow> stc_client" where
  "client_step mx (File_Comes data act paused a) C =
     (if \<not> m_contConnection C then C
      else
        (let F = \<lparr>rf_data = data, rf_active = act, rf_paused = paused, rf_sizeLastUpdate = 0\<rparr>;
             C1 = C\<lparr>run_files := run_files C @ [F]\<rparr> in
         if alive C then fileAdded mx a (length (run_files C)) C1 else C1))"
| "client_step mx (File_Grows f bs) C =
     (if f < length (run_files C) \<and> rf_active (file_at C f)
      then on_file f (\<lambda>F. F\<lparr>rf_data := rf_data F @ bs\<rparr>) C else C)"
| "client_step mx (File_Notifies f a) C =
     (if f < length (run_files C) \<and> rf_active (file_at C f) then notify_file mx a f C else C)"
| "client_step mx (File_Ends f status a) C =
     (if f < length (run_files C) \<and> rf_active (file_at C f) then terminate_file mx a status f C else C)"
| "client_step mx Run_Over C = C\<lparr>run_active := False\<rparr>"
| "client_step mx (Socket_Ready a) C = (if alive C \<and> m_write C then writable mx a C else C)"
| "client_step mx (Service_Answers d) C = (if alive C then die d C else C)"
| "client_step mx Socket_Closed C = (if alive C then C\<lparr>alive := False\<rparr> else C)"

definition run_client :: "nat \<Rightarrow> client_event list \<Rightarrow> stc_client \<Rightarrow> stc_client" where
  "run_client mx evs C = fold (client_step mx) evs C"

end
