(* ===== verification/Client_Runs.thy ===== *)
theory Client_Runs
  imports Translation_Client "HOL-Library.Sublist"
begin

text \<open>
  What holds for a client of the translation service in any order of events: what it sends are the bytes
  of the files of its run in order, it only waits when there is nothing to send, and it finishes.
\<close>

section \<open>What was sent\<close>

fun item_bytes :: "sent_item \<Rightarrow> bytes" where
  "item_bytes (Chunk b) = b"
| "item_bytes i = []"

definition sent_bytes :: "stc_client \<Rightarrow> bytes" where
  "sent_bytes C = concat (List.map item_bytes (sent C))"

definition wanted :: "stc_client \<Rightarrow> nat \<Rightarrow> bool" where
  "wanted C f \<longleftrightarrow> \<not> rf_paused (file_at C f) \<or> m_send_paused_data C"

text \<open>The bytes of the files of a list the client is to send.\<close>

definition wanted_bytes :: "stc_client \<Rightarrow> nat list \<Rightarrow> bytes" where
  "wanted_bytes C fs = concat (List.map (\<lambda>f. rf_data (file_at C f)) (List.filter (wanted C) fs))"

lemma wanted_bytes_simps [simp]:
  "wanted_bytes C [] = []"
  "wanted_bytes C (f # fs) = (if wanted C f then rf_data (file_at C f) else []) @ wanted_bytes C fs"
  "wanted_bytes C (fs @ gs) = wanted_bytes C fs @ wanted_bytes C gs"
  by (simp_all add: wanted_bytes_def)

lemma wanted_bytes_cong:
  "m_send_paused_data C' = m_send_paused_data C \<Longrightarrow>
   (\<And>f. f \<in> set fs \<Longrightarrow> rf_paused (file_at C' f) = rf_paused (file_at C f)) \<Longrightarrow>
   (\<And>f. f \<in> set fs \<Longrightarrow> wanted C f \<Longrightarrow> rf_data (file_at C' f) = rf_data (file_at C f)) \<Longrightarrow>
   wanted_bytes C' fs = wanted_bytes C fs"
  by (induction fs) (auto simp: wanted_def)

lemma same_files:
  assumes "run_files C' = run_files C" and "m_send_paused_data C' = m_send_paused_data C"
  shows "file_at C' = file_at C" "wanted C' = wanted C" "wanted_bytes C' = wanted_bytes C"
proof -
  show f: "file_at C' = file_at C"
    using assms by (simp add: file_at_def fun_eq_iff)
  show w: "wanted C' = wanted C"
    using assms by (simp add: wanted_def f fun_eq_iff)
  show "wanted_bytes C' = wanted_bytes C"
    by (simp add: wanted_bytes_def f w fun_eq_iff)
qed

text \<open>
  The state of the sending: all files before the first one left were sent if wanted and have ended, and of
  the first one the bytes up to the offset.
\<close>

definition front :: "stc_client \<Rightarrow> bytes" where
  "front C = (case m_files C of [] \<Rightarrow> [] | f # _ \<Rightarrow> take (m_cur_offset C) (rf_data (file_at C f)))"

definition sending :: "stc_client \<Rightarrow> bool" where
  "sending C \<longleftrightarrow>
     (\<exists>k n. k \<le> n \<and> n \<le> length (run_files C) \<and> (alive C \<longrightarrow> n = length (run_files C)) \<and> m_files C = [k ..< n] \<and>
        sent_bytes C = wanted_bytes C [0 ..< k] @ front C \<and>
        (\<forall>f < k. wanted C f \<longrightarrow> \<not> rf_active (file_at C f)) \<and>
        m_cur_offset C \<le> (if k < n then length (rf_data (file_at C k)) else 0) \<and>
        (m_cur_offset C \<noteq> 0 \<longrightarrow> wanted C k))"

definition listening :: "stc_client \<Rightarrow> bool" where
  "listening C \<longleftrightarrow> (alive C \<longrightarrow> m_fileConnection C =
     (case m_files C of [] \<Rightarrow> None | f # _ \<Rightarrow> if rf_active (file_at C f) then Some f else None))"

definition told_ok :: "stc_client \<Rightarrow> bool" where
  "told_ok C \<longleftrightarrow> (\<forall>F \<in> set (run_files C). rf_sizeLastUpdate F \<le> length (rf_data F))"

definition waits :: "stc_client \<Rightarrow> bool" where
  "waits C \<longleftrightarrow> (alive C \<longrightarrow> \<not> m_write C \<longrightarrow>
     (case m_files C of [] \<Rightarrow> True
      | f # _ \<Rightarrow> wanted C f \<and> rf_active (file_at C f) \<and> rf_sizeLastUpdate (file_at C f) \<le> m_cur_offset C))"

lemma upt_Cons_iff: "f # fs = [k ..< n] \<longleftrightarrow> k < n \<and> f = k \<and> fs = [Suc k ..< n]"
  by (cases "k < n") (auto simp: upt_conv_Cons)

lemma sending_Cons:
  assumes "sending C" and "m_files C = f # fs"
  shows "f < length (run_files C)" "alive C \<Longrightarrow> f # fs = [f ..< length (run_files C)]"
    "sent_bytes C = wanted_bytes C [0 ..< f] @ take (m_cur_offset C) (rf_data (file_at C f))"
    "\<forall>g < f. wanted C g \<longrightarrow> \<not> rf_active (file_at C g)"
    "m_cur_offset C \<le> length (rf_data (file_at C f))" "m_cur_offset C \<noteq> 0 \<Longrightarrow> wanted C f"
  using assms by (auto simp: sending_def front_def upt_Cons_iff)

lemma sendingI:
  assumes "m_files C = [k ..< length (run_files C)]" "k \<le> length (run_files C)"
    "sent_bytes C = wanted_bytes C [0 ..< k] @
       (if k < length (run_files C) then take (m_cur_offset C) (rf_data (file_at C k)) else [])"
    "\<forall>g < k. wanted C g \<longrightarrow> \<not> rf_active (file_at C g)"
    "m_cur_offset C \<le> (if k < length (run_files C) then length (rf_data (file_at C k)) else 0)"
    "m_cur_offset C \<noteq> 0 \<Longrightarrow> wanted C k"
  shows "sending C"
proof -
  have "front C = (if k < length (run_files C) then take (m_cur_offset C) (rf_data (file_at C k)) else [])"
    by (simp add: front_def assms(1) upt_conv_Cons)
  then show ?thesis
    unfolding sending_def using assms by (intro exI [of _ k] exI [of _ "length (run_files C)"]) simp
qed

section \<open>The loop over the files\<close>

lemma next_file_simps [simp]:
  "m_files (next_file fs C) = fs" "run_files (next_file fs C) = run_files C" "alive (next_file fs C) = alive C"
  "m_write (next_file fs C) = m_write C" "run_active (next_file fs C) = run_active C" "sent (next_file fs C) = sent C"
  "m_send_paused_data (next_file fs C) = m_send_paused_data C" "m_cur_offset (next_file fs C) = m_cur_offset C"
  "m_contConnection (next_file fs C) = m_contConnection C" "m_file_fd (next_file fs C) = m_file_fd C"
  by (simp_all add: next_file_def)

lemma next_file_same [simp]: "file_at (next_file fs C) = file_at C" "wanted (next_file fs C) = wanted C"
  "wanted_bytes (next_file fs C) = wanted_bytes C"
  by (rule same_files; simp)+

lemma listening_next [simp]: "listening (next_file fs C)"
  unfolding listening_def next_file_simps next_file_same by (simp add: next_file_def split: list.split)

text \<open>Going on to the next file, when the first one was sent or is not wanted.\<close>

lemma sending_next:
  assumes s: "sending C" and m: "m_files C = f # fs" and al: "alive C"
    and d: "wanted C f \<Longrightarrow> \<not> rf_active (file_at C f) \<and> m_cur_offset C = length (rf_data (file_at C f))"
  shows "sending (next_file fs (C\<lparr>m_file_fd := b, m_cur_offset := 0\<rparr>))"
proof (rule sendingI [where k = "Suc f"])
  note c = sending_Cons [OF s m]
  let ?C = "next_file fs (C\<lparr>m_file_fd := b, m_cur_offset := 0\<rparr>)"
  have same: "wanted_bytes ?C = wanted_bytes C" "wanted ?C = wanted C" "file_at ?C = file_at C" "sent_bytes ?C = sent_bytes C"
    by (rule same_files; simp)+ (simp add: sent_bytes_def)
  show "m_files ?C = [Suc f ..< length (run_files ?C)]" "Suc f \<le> length (run_files ?C)"
    using c(1) c(2) [OF al] by (simp_all add: upt_Cons_iff)
  have "sent_bytes C = wanted_bytes C [0 ..< Suc f]"
    using c(3,6) d by (cases "wanted C f") auto
  then show "sent_bytes ?C = wanted_bytes ?C [0 ..< Suc f] @ (if Suc f < length (run_files ?C)
      then take (m_cur_offset ?C) (rf_data (file_at ?C (Suc f))) else [])"
    by (simp only: same) simp
  show "\<forall>g < Suc f. wanted ?C g \<longrightarrow> \<not> rf_active (file_at ?C g)"
    unfolding same using c(4) d less_Suc_eq by auto
qed simp_all

lemma skip_next:
  assumes "sending C" "m_files C = f # fs" "alive C" "skips C f"
  shows "sending (next_file fs C)"
proof -
  have "C\<lparr>m_file_fd := m_file_fd C, m_cur_offset := 0\<rparr> = C"
    using assms(4) by (cases C) (simp add: skips_def)
  moreover have "\<not> wanted C f"
    using assms(4) by (simp add: skips_def wanted_def)
  ultimately show ?thesis
    using sending_next [OF assms(1-3), of "m_file_fd C"] by simp
qed

lemma not_skipped: "sending C \<Longrightarrow> m_files C = f # fs \<Longrightarrow> \<not> skips C f \<Longrightarrow> wanted C f"
  using sending_Cons(6) [of C f fs] by (auto simp: skips_def wanted_def)

lemma sendfile_simps [simp]:
  "run_files (sendfile mx n f C) = run_files C" "m_files (sendfile mx n f C) = m_files C"
  "alive (sendfile mx n f C) = alive C" "m_write (sendfile mx n f C) = m_write C"
  "run_active (sendfile mx n f C) = run_active C" "m_send_paused_data (sendfile mx n f C) = m_send_paused_data C"
  "m_fileConnection (sendfile mx n f C) = m_fileConnection C" "m_contConnection (sendfile mx n f C) = m_contConnection C"
  by (simp_all add: sendfile_def Let_def)

lemma sendfile_same [simp]: "file_at (sendfile mx n f C) = file_at C" "wanted (sendfile mx n f C) = wanted C"
  "wanted_bytes (sendfile mx n f C) = wanted_bytes C"
  by (rule same_files; simp)+

lemma listening_sendfile [simp]: "listening (sendfile mx n f C) = listening C"
  unfolding listening_def sendfile_same by simp

lemma sending_sendfile:
  assumes s: "sending C" and m: "m_files C = f # fs" and al: "alive C" and w: "wanted C f"
  shows "sending (sendfile mx n f C)"
proof (rule sendingI [where k = f])
  note c = sending_Cons [OF s m]
  let ?C = "sendfile mx n f C" and ?d = "rf_data (file_at C f)"
  let ?chunk = "take (min n mx) (drop (m_cur_offset C) ?d)"
  have off: "m_cur_offset ?C = m_cur_offset C + length ?chunk" and "sent ?C = sent C @ [Chunk ?chunk]"
    by (simp_all add: sendfile_def Let_def)
  then have "sent_bytes ?C = sent_bytes C @ ?chunk"
    by (simp add: sent_bytes_def)
  moreover have "take (length ?chunk) (drop (m_cur_offset C) ?d) = ?chunk"
    by (metis append_eq_conv_conj append_take_drop_id)
  then have "take (m_cur_offset C + length ?chunk) ?d = take (m_cur_offset C) ?d @ ?chunk"
    by (simp only: take_add)
  ultimately show "sent_bytes ?C = wanted_bytes ?C [0 ..< f] @
      (if f < length (run_files ?C) then take (m_cur_offset ?C) (rf_data (file_at ?C f)) else [])"
    using c(1,3) unfolding off by simp
  show "m_cur_offset ?C \<le> (if f < length (run_files ?C) then length (rf_data (file_at ?C f)) else 0)"
    using c(1,5) unfolding off by simp
qed (use sending_Cons [OF s m] m al w in auto)

lemma updates_same [simp]: "file_at (C\<lparr>m_file_fd := b\<rparr>) = file_at C" "wanted (C\<lparr>m_file_fd := b\<rparr>) = wanted C"
  "wanted_bytes (C\<lparr>m_file_fd := b\<rparr>) = wanted_bytes C" "file_at (C\<lparr>m_write := b\<rparr>) = file_at C"
  "wanted (C\<lparr>m_write := b\<rparr>) = wanted C" "wanted_bytes (C\<lparr>m_write := b\<rparr>) = wanted_bytes C"
  "file_at (die d C) = file_at C" "wanted (die d C) = wanted C" "wanted_bytes (die d C) = wanted_bytes C"
  by (rule same_files; simp add: die_def)+

lemma sending_cong:
  assumes "run_files C' = run_files C" "m_send_paused_data C' = m_send_paused_data C" "m_files C' = m_files C"
    "m_cur_offset C' = m_cur_offset C" "sent_bytes C' = sent_bytes C" "alive C' = alive C"
  shows "sending C' = sending C"
proof -
  note same = same_files [OF assms(1,2)]
  have "front C' = front C"
    unfolding front_def assms(3,4) same ..
  then show ?thesis
    unfolding sending_def same assms by simp
qed

lemma sending_fd [simp]: "sending (C\<lparr>m_file_fd := b\<rparr>) = sending C" "sending (C\<lparr>m_write := b\<rparr>) = sending C"
  by (rule sending_cong; simp add: sent_bytes_def)+

lemma listening_fd [simp]: "listening (C\<lparr>m_file_fd := b\<rparr>) = listening C" "listening (C\<lparr>m_write := b\<rparr>) = listening C"
  unfolding listening_def updates_same by simp_all

lemma sending_die:
  assumes "sending C"
  shows "sending (die d C)"
proof -
  have same: "sent_bytes (die d C) = sent_bytes C" "run_files (die d C) = run_files C" "m_files (die d C) = m_files C"
    "m_cur_offset (die d C) = m_cur_offset C" "\<not> alive (die d C)"
    by (simp_all add: sent_bytes_def die_def)
  have F: "front (die d C) = front C"
    unfolding front_def updates_same same ..
  show ?thesis
    using assms unfolding sending_def F updates_same same(1-4) using same(5) by blast
qed

lemma listening_die [simp]: "listening (die d C)"
  by (simp add: listening_def die_def)

text \<open>What a pass over the files leaves behind.\<close>

definition passed :: "loop_end \<Rightarrow> stc_client \<Rightarrow> stc_client \<Rightarrow> bool" where
  "passed r C C' \<longleftrightarrow> sending C' \<and> listening C' \<and> run_files C' = run_files C \<and> m_write C' = m_write C \<and>
     run_active C' = run_active C \<and> m_send_paused_data C' = m_send_paused_data C \<and>
     m_contConnection C' = m_contConnection C \<and> (alive C' \<longleftrightarrow> r \<noteq> Gone) \<and>
     (r = To_End \<longrightarrow> m_files C' = []) \<and>
     (r = To_Idle \<longrightarrow> (\<exists>f fs. m_files C' = f # fs \<and> wanted C' f \<and> rf_active (file_at C' f) \<and>
        m_cur_offset C' = length (rf_data (file_at C' f))))"

lemma passed_from:
  "passed r C1 C' \<Longrightarrow> run_files C1 = run_files C \<Longrightarrow> m_write C1 = m_write C \<Longrightarrow> run_active C1 = run_active C \<Longrightarrow>
   m_send_paused_data C1 = m_send_paused_data C \<Longrightarrow> m_contConnection C1 = m_contConnection C \<Longrightarrow> passed r C C'"
  by (simp add: passed_def)

lemma send_files_ok:
  "sending C \<Longrightarrow> listening C \<Longrightarrow> alive C \<Longrightarrow> m_files C = fs \<Longrightarrow> send_files mx os fs C = (r, C') \<Longrightarrow> passed r C C'"
proof (induction mx os fs C rule: send_files.induct)
  case (1 mx os C)
  then show ?case by (auto simp: passed_def)
next
  case (2 mx os f fs C)
  show ?case
  proof (cases "skips C f")
    case True
    have "passed r (next_file fs C) C'"
      by (rule "2.IH"(1) [OF True]) (use 2(3-) True skip_next in auto)
    then show ?thesis
      by (rule passed_from) simp_all
  next
    case False
    then have w: "wanted C f"
      using not_skipped 2(3,6) by blast
    obtain opens res where o: "(case os of [] \<Rightarrow> (True, Send_Again) | a # _ \<Rightarrow> a) = (opens, res)"
      by (cases "case os of [] \<Rightarrow> (True, Send_Again) | a # _ \<Rightarrow> a")
    let ?F = "C\<lparr>m_file_fd := True\<rparr>"
    show ?thesis
    proof (cases "\<not> m_file_fd C \<and> \<not> opens")
      case True
      then have "r = Gone" "C' = die PERMAMENT_FAIL C"
        using 2(7) False o by (simp_all)
      then show ?thesis
        using 2(3) sending_die by (simp add: passed_def) (simp add: die_def)
    next
      case opened: False
      show ?thesis
      proof (cases res)
        case Send_Again
        then have "r = To_More" "C' = ?F"
          using 2(7) False o opened by (auto)
        then show ?thesis
          using 2(3-5) by (simp add: passed_def)
      next
        case Send_Lost
        then have "r = Gone" "C' = die TRANSIENT_FAIL ?F"
          using 2(7) False o opened by (auto)
        then show ?thesis
          using 2(3) sending_die [of ?F] by (simp add: passed_def) (simp add: die_def)
      next
        case (Sends n)
        let ?C1 = "sendfile mx n f ?F"
        have F: "wanted ?F f" "sending ?F" "m_files ?F = f # fs" "alive ?F" "listening ?F" "file_at ?F = file_at C"
          using w 2(3-6) by (simp_all add: wanted_def file_at_def fun_eq_iff)
        have s1: "sending ?C1" "listening ?C1" "alive ?C1" "m_files ?C1 = f # fs"
          using sending_sendfile [OF F(2-4,1)] F by simp_all
        show ?thesis
        proof (cases "m_cur_offset ?C1 \<noteq> length (rf_data (file_at C f)) \<or> rf_active (file_at C f)")
          case True
          then have "r \<noteq> Gone \<and> r \<noteq> To_End" "C' = ?C1" "r = To_Idle \<longrightarrow>
              m_cur_offset ?C1 = length (rf_data (file_at C f)) \<and> rf_active (file_at C f)"
            using 2(7) False o opened Sends by (auto simp: Let_def split: if_splits)
          then show ?thesis
            using s1 F w by (auto simp: passed_def)
        next
          case over: False
          let ?N = "next_file fs (?C1\<lparr>m_file_fd := False, m_cur_offset := 0\<rparr>)"
          have "send_files mx (tl os) fs ?N = (r, C')"
            using 2(7) False o opened Sends over by (simp add: Let_def)
          moreover have "sending ?N"
            by (rule sending_next [OF s1(1,4,3)]) (use over F(6) in simp)
          ultimately have "passed r ?N C'"
            using False o opened Sends over s1(3) by (intro "2.IH"(2) [OF False _ _ opened Sends refl]) auto
          then show ?thesis
            by (rule passed_from) simp_all
        qed
      qed
    qed
  qed
qed

section \<open>Every event keeps the state of the sending\<close>

definition client_base :: "stc_client \<Rightarrow> bool" where
  "client_base C \<longleftrightarrow> sending C \<and> listening C \<and> told_ok C"

definition client_ok :: "stc_client \<Rightarrow> bool" where
  "client_ok C \<longleftrightarrow> client_base C \<and> waits C"

lemma client_writing: "client_base C \<Longrightarrow> m_write C \<or> \<not> alive C \<Longrightarrow> client_ok C"
  by (auto simp: client_ok_def waits_def)

lemma told_file: "told_ok C \<Longrightarrow> f < length (run_files C) \<Longrightarrow> rf_sizeLastUpdate (file_at C f) \<le> length (rf_data (file_at C f))"
  by (simp add: told_ok_def file_at_def)

lemma sendDataDone_same:
  "run_files (sendDataDone ok C) = run_files C" "m_send_paused_data (sendDataDone ok C) = m_send_paused_data C"
  "m_files (sendDataDone ok C) = m_files C" "m_cur_offset (sendDataDone ok C) = m_cur_offset C"
  "sent_bytes (sendDataDone ok C) = sent_bytes C" "alive (sendDataDone ok C) = alive C"
  "m_fileConnection (sendDataDone ok C) = m_fileConnection C"
  by (simp_all add: sendDataDone_def sent_bytes_def)

lemma sendDataDone_ok [simp]: "sending (sendDataDone ok C) = sending C" "m_files C = [] \<Longrightarrow> listening (sendDataDone ok C) = listening C"
  by (rule sending_cong; simp add: sendDataDone_same) (simp add: listening_def sendDataDone_same)

lemma writable_ok:
  assumes base: "client_base C" and al: "alive C"
  shows "client_ok (writable mx a C) \<and> run_files (writable mx a C) = run_files C"
proof -
  obtain r C1 where r: "send_files mx (a_sends a) (m_files C) C = (r, C1)"
    by (cases "send_files mx (a_sends a) (m_files C) C")
  have p: "passed r C C1"
    using send_files_ok [OF _ _ al refl r] base by (simp add: client_base_def)
  have b: "client_base C1" "run_files C1 = run_files C"
    using p base by (auto simp: passed_def client_base_def told_ok_def)
  show ?thesis
  proof (cases r)
    case To_More
    have "client_base (C1\<lparr>m_write := True\<rparr>)" "client_base (die TRANSIENT_FAIL C1)"
      "run_files (die TRANSIENT_FAIL C1) = run_files C1" "\<not> alive (die TRANSIENT_FAIL C1)"
      using b(1) sending_die by (simp_all add: client_base_def told_ok_def) (simp_all add: die_def)
    then show ?thesis
      using To_More r b by (simp add: writable_def client_writing)
  next
    case To_Idle
    then obtain f fs where f: "m_files C1 = f # fs" "wanted C1 f" "rf_active (file_at C1 f)"
      "m_cur_offset C1 = length (rf_data (file_at C1 f))"
      using p by (auto simp: passed_def)
    have "f < length (run_files C1)"
      using sending_Cons(1) [OF _ f(1)] b(1) by (simp add: client_base_def)
    then have "rf_sizeLastUpdate (file_at C1 f) \<le> m_cur_offset C1"
      using told_file [of C1 f] b(1) f(4) by (simp add: client_base_def)
    then show ?thesis
      using To_Idle r b f by (simp add: writable_def client_ok_def client_base_def waits_def told_ok_def)
  next
    case To_End
    then have "m_files C1 = []"
      using p by (simp add: passed_def)
    then show ?thesis
      using To_End r b by (simp add: writable_def client_ok_def client_base_def waits_def told_ok_def sendDataDone_same)
  next
    case Gone
    then show ?thesis
      using r b p by (simp add: writable_def passed_def client_writing)
  qed
qed

text \<open>A file that is still written changes: it only grows and stays as it is otherwise.\<close>

lemma on_file_simps [simp]:
  "m_files (on_file f g C) = m_files C" "alive (on_file f g C) = alive C" "m_write (on_file f g C) = m_write C"
  "m_send_paused_data (on_file f g C) = m_send_paused_data C" "m_cur_offset (on_file f g C) = m_cur_offset C"
  "m_fileConnection (on_file f g C) = m_fileConnection C" "length (run_files (on_file f g C)) = length (run_files C)"
  "sent_bytes (on_file f g C) = sent_bytes C" "sent (on_file f g C) = sent C" "run_active (on_file f g C) = run_active C"
  by (simp_all add: on_file_def sent_bytes_def)

lemma file_at_on_file: "f < length (run_files C) \<Longrightarrow>
    file_at (on_file f g C) h = (if h = f then g (file_at C f) else file_at C h)"
  by (simp add: on_file_def file_at_def)

definition grows :: "(run_file \<Rightarrow> run_file) \<Rightarrow> bool" where
  "grows g \<longleftrightarrow> (\<forall>F. rf_paused (g F) = rf_paused F \<and> (\<exists>bs. rf_data (g F) = rf_data F @ bs))"

lemma growsD:
  assumes "grows g"
  shows "rf_paused (g F) = rf_paused F" "k \<le> length (rf_data F) \<Longrightarrow> take k (rf_data (g F)) = take k (rf_data F)"
    "length (rf_data F) \<le> length (rf_data (g F))"
proof -
  obtain bs where "rf_data (g F) = rf_data F @ bs"
    using assms by (auto simp: grows_def)
  then show "k \<le> length (rf_data F) \<Longrightarrow> take k (rf_data (g F)) = take k (rf_data F)"
    "length (rf_data F) \<le> length (rf_data (g F))"
    by simp_all
qed (use assms in \<open>simp add: grows_def\<close>)

lemma wanted_on_file: "f < length (run_files C) \<Longrightarrow> grows g \<Longrightarrow> wanted (on_file f g C) h = wanted C h"
  by (simp add: wanted_def file_at_on_file growsD(1))

lemma sending_on_file:
  assumes s: "sending C" and f: "f < length (run_files C)" "rf_active (file_at C f)" and g: "grows g"
  shows "sending (on_file f g C)"
proof -
  let ?C = "on_file f g C"
  obtain k n where k: "k \<le> n" "n \<le> length (run_files C)" "alive C \<longrightarrow> n = length (run_files C)" "m_files C = [k ..< n]"
    and b: "sent_bytes C = wanted_bytes C [0 ..< k] @ front C"
    and e: "\<forall>f < k. wanted C f \<longrightarrow> \<not> rf_active (file_at C f)"
    and off: "m_cur_offset C \<le> (if k < n then length (rf_data (file_at C k)) else 0)" "m_cur_offset C \<noteq> 0 \<longrightarrow> wanted C k"
    using s unfolding sending_def by blast
  note at = file_at_on_file [OF f(1), of g] and w = wanted_on_file [OF f(1) g]
  have fk: "wanted C f \<Longrightarrow> \<not> f < k"
    using e f(2) by blast
  have "wanted_bytes ?C [0 ..< k] = wanted_bytes C [0 ..< k]"
    by (rule wanted_bytes_cong) (use fk growsD(1) [OF g] in \<open>auto simp: at\<close>)
  moreover have "front ?C = front C"
    using off(1) k(4) growsD(2) [OF g] by (auto simp: front_def at upt_conv_Cons split: list.split if_splits)
  moreover have "m_cur_offset C \<le> (if k < n then length (rf_data (file_at ?C k)) else 0)"
    using off(1) growsD(3) [OF g, of "file_at C f"] by (auto simp: at split: if_splits)
  moreover have "\<forall>h < k. wanted C h \<longrightarrow> \<not> rf_active (file_at ?C h)"
    using e fk by (auto simp: at)
  ultimately show ?thesis
    unfolding sending_def w using k b off(2) by (intro exI [of _ k] exI [of _ n]) simp
qed

lemma set_connection:
  "sending (C\<lparr>m_fileConnection := x\<rparr>) = sending C" "told_ok (C\<lparr>m_fileConnection := x\<rparr>) = told_ok C"
  "file_at (C\<lparr>m_fileConnection := x\<rparr>) = file_at C"
  by (rule sending_cong; simp add: sent_bytes_def) (simp_all add: told_ok_def file_at_def fun_eq_iff)

lemma listening_front:
  assumes "listening C" "alive C" "m_fileConnection C = Some f"
  shows "\<exists>fs. m_files C = f # fs"
  using assms by (auto simp: listening_def split: list.splits if_splits)

text \<open>A file changes and the client that listens to it is called.\<close>

lemma signal_ok:
  assumes ok: "client_ok C" and f: "f < length (run_files C)" "rf_active (file_at C f)" and g: "grows g"
    and told: "told_ok (on_file f g C)"
  shows "client_ok (update_signal mx a f (on_file f g C))"
proof -
  let ?C = "on_file f g C"
  note at = file_at_on_file [OF f(1), of g] and w = wanted_on_file [OF f(1) g]
  have s: "sending ?C"
    using sending_on_file [OF _ f g] ok by (simp add: client_ok_def client_base_def)
  consider "\<not> alive C" | "alive C" "m_fileConnection C = Some f" | "alive C" "m_fileConnection C \<noteq> Some f"
    by blast
  then show ?thesis
  proof cases
    case 1
    then show ?thesis
      using s told by (simp add: update_signal_def client_ok_def client_base_def listening_def waits_def)
  next
    case 2
    let ?C2 = "if \<not> rf_active (file_at ?C f) then ?C\<lparr>m_fileConnection := None\<rparr> else ?C"
    obtain fs where "m_files C = f # fs"
      using listening_front 2 ok by (auto simp: client_ok_def client_base_def)
    then have "listening ?C2"
      using 2(2) by (simp add: listening_def set_connection)
    then have "client_base ?C2"
      using s told by (simp add: client_base_def set_connection)
    moreover have "alive ?C2"
      using 2(1) by simp
    ultimately have "client_ok (if \<not> m_write ?C2 then writable mx a ?C2 else ?C2)"
      using writable_ok [of ?C2 mx a] client_writing [of ?C2] by simp
    then show ?thesis
      using 2 by (simp add: update_signal_def fileUpdated_def Let_def)
  next
    case 3
    have "\<not> (\<exists>fs. m_files C = f # fs)"
      using 3 f(2) ok by (auto simp: client_ok_def client_base_def listening_def)
    then have "listening ?C" "waits ?C"
      using ok by (auto simp: client_ok_def client_base_def listening_def waits_def at w split: list.splits)
    then show ?thesis
      using 3 s told by (simp add: update_signal_def client_ok_def client_base_def)
  qed
qed

lemma grow_ok:
  assumes ok: "client_ok C" and f: "f < length (run_files C)" "rf_active (file_at C f)"
  shows "client_ok (on_file f (\<lambda>F. F\<lparr>rf_data := rf_data F @ bs\<rparr>) C)"
proof -
  let ?g = "\<lambda>F. F\<lparr>rf_data := rf_data F @ bs\<rparr>"
  have g: "grows ?g"
    by (simp add: grows_def)
  have "told_ok (on_file f ?g C)"
    using ok f(1) told_file [OF _ f(1)] by (auto simp: client_ok_def client_base_def told_ok_def on_file_def dest!: set_update_subset_insert [THEN subsetD] intro: trans_le_add1)
  moreover have "listening (on_file f ?g C)" "waits (on_file f ?g C)"
    using ok f by (auto simp: client_ok_def client_base_def listening_def waits_def file_at_on_file wanted_on_file [OF f(1) g] split: list.splits)
  ultimately show ?thesis
    using sending_on_file [OF _ f g] ok by (simp add: client_ok_def client_base_def)
qed

lemma told_on_file:
  assumes "told_ok C" "f < length (run_files C)" "rf_sizeLastUpdate (g (file_at C f)) \<le> length (rf_data (g (file_at C f)))"
  shows "told_ok (on_file f g C)"
  using assms by (auto simp: told_ok_def on_file_def dest!: set_update_subset_insert [THEN subsetD])

lemma comes_base:
  assumes base: "client_base C" "alive C" and told: "rf_sizeLastUpdate F \<le> length (rf_data F)"
  shows "client_base (C\<lparr>run_files := run_files C @ [F], m_files := m_files C @ [length (run_files C)],
    m_fileConnection := (if m_files C = [] then if rf_active F then Some (length (run_files C)) else None
      else m_fileConnection C)\<rparr>)"
proof -
  let ?n = "length (run_files C)"
  let ?C = "C\<lparr>run_files := run_files C @ [F], m_files := m_files C @ [?n],
    m_fileConnection := (if m_files C = [] then if rf_active F then Some ?n else None else m_fileConnection C)\<rparr>"
  obtain k where k: "k \<le> ?n" "m_files C = [k ..< ?n]" and b: "sent_bytes C = wanted_bytes C [0 ..< k] @ front C"
    and e: "\<forall>f < k. wanted C f \<longrightarrow> \<not> rf_active (file_at C f)"
    and off: "m_cur_offset C \<le> (if k < ?n then length (rf_data (file_at C k)) else 0)" "m_cur_offset C \<noteq> 0 \<longrightarrow> wanted C k"
    using assms unfolding client_base_def sending_def by blast
  have at: "file_at ?C g = (if g < ?n then file_at C g else F)" if "g \<le> ?n" for g
    using that by (simp add: file_at_def nth_append)
  have w: "wanted ?C g = wanted C g" if "g < ?n" for g
    using at [of g] that by (simp add: wanted_def)
  have "sending ?C"
  proof (rule sendingI [where k = k])
    show "m_files ?C = [k ..< length (run_files ?C)]" "k \<le> length (run_files ?C)"
      using k by simp_all
    have "wanted_bytes ?C [0 ..< k] = wanted_bytes C [0 ..< k]"
      by (rule wanted_bytes_cong) (use k(1) at in auto)
    moreover have "front C = (if k < ?n then take (m_cur_offset C) (rf_data (file_at C k)) else [])"
      using k by (simp add: front_def upt_conv_Cons)
    ultimately show "sent_bytes ?C = wanted_bytes ?C [0 ..< k] @
        (if k < length (run_files ?C) then take (m_cur_offset ?C) (rf_data (file_at ?C k)) else [])"
      using b k(1) off(1) at [of k] by (auto simp: sent_bytes_def)
    show "\<forall>g < k. wanted ?C g \<longrightarrow> \<not> rf_active (file_at ?C g)"
      using e k(1) at w by auto
    show "m_cur_offset ?C \<le> (if k < length (run_files ?C) then length (rf_data (file_at ?C k)) else 0)"
      using off(1) k(1) at [of k] by auto
    show "wanted ?C k" if "m_cur_offset ?C \<noteq> 0"
      using that off k(1) w [of k] by (cases "k < ?n") auto
  qed
  moreover have "listening ?C"
  proof (cases "m_files C = []")
    case True
    then show ?thesis
      using at [of ?n] by (simp add: listening_def)
  next
    case False
    then obtain f fs where f: "m_files C = f # fs"
      by (cases "m_files C") auto
    then have "f < ?n"
      using k(2) upt_Cons_iff [of f fs k ?n] by metis
    with f show ?thesis
      using assms at [of f] by (auto simp: listening_def client_base_def)
  qed
  moreover have "told_ok ?C"
    using assms by (simp add: client_base_def told_ok_def)
  ultimately show ?thesis
    by (simp add: client_base_def)
qed

lemma dead_comes:
  assumes "client_base C" "\<not> alive C" and "rf_sizeLastUpdate F \<le> length (rf_data F)"
  shows "client_ok (C\<lparr>run_files := run_files C @ [F]\<rparr>)"
proof -
  let ?C = "C\<lparr>run_files := run_files C @ [F]\<rparr>"
  obtain k n where k: "k \<le> n" "n \<le> length (run_files C)" "m_files C = [k ..< n]"
    and b: "sent_bytes C = wanted_bytes C [0 ..< k] @ front C"
    and e: "\<forall>f < k. wanted C f \<longrightarrow> \<not> rf_active (file_at C f)"
    and off: "m_cur_offset C \<le> (if k < n then length (rf_data (file_at C k)) else 0)" "m_cur_offset C \<noteq> 0 \<longrightarrow> wanted C k"
    using assms(1) unfolding client_base_def sending_def by blast
  have at: "file_at ?C g = file_at C g" if "g < n" for g
    using that k(2) by (simp add: file_at_def nth_append)
  then have w: "wanted ?C g = wanted C g" if "g < n" for g
    using that by (simp add: wanted_def)
  have "wanted_bytes ?C [0 ..< k] = wanted_bytes C [0 ..< k]"
    by (rule wanted_bytes_cong) (use k(1) at in auto)
  moreover have "front ?C = front C"
    using k at by (cases "k < n") (simp_all add: front_def upt_conv_Cons)
  moreover have "m_cur_offset C \<noteq> 0 \<longrightarrow> k < n"
    using off(1) by (simp split: if_splits)
  ultimately have "sending ?C"
    unfolding sending_def using assms(2) k b e off at w
    by (intro exI [of _ k] exI [of _ n]) (auto simp: sent_bytes_def)
  then show ?thesis
    using assms by (simp add: client_ok_def client_base_def listening_def waits_def told_ok_def)
qed

lemma client_step_ok:
  assumes ok: "client_ok C"
  shows "client_ok (client_step mx ev C)"
proof (cases ev)
  case (File_Comes data act paused a)
  let ?F = "\<lparr>rf_data = data, rf_active = act, rf_paused = paused, rf_sizeLastUpdate = 0\<rparr>"
  let ?n = "length (run_files C)"
  let ?C1 = "C\<lparr>run_files := run_files C @ [?F]\<rparr>"
  have base: "client_base C"
    using ok by (simp add: client_ok_def)
  show ?thesis
  proof (cases "m_contConnection C")
    case True
    show ?thesis
    proof (cases "alive C")
      case False
      then show ?thesis
        using True dead_comes [OF base, of ?F] unfolding File_Comes by simp
    next
      case al: True
      let ?D = "C\<lparr>run_files := run_files C @ [?F], m_files := m_files C @ [?n],
        m_fileConnection := (if m_files C = [] then if rf_active ?F then Some ?n else None else m_fileConnection C)\<rparr>"
      have D: "client_base ?D"
        by (rule comes_base [OF base al]) simp
      have none: "m_fileConnection C = None" if "m_files C = []"
        using base al that by (simp add: client_base_def listening_def)
      show ?thesis
      proof (cases "m_files C = []")
        case True
        have act: "file_at (C\<lparr>run_files := run_files C @ [F], m_files := xs\<rparr>) ?n = F" for F xs
          by (simp add: file_at_def)
        let ?E = "if act then ?C1\<lparr>m_files := [?n], m_fileConnection := Some ?n\<rparr> else ?C1\<lparr>m_files := [?n]\<rparr>"
        have E: "?D = ?E"
          using True none by (cases C) simp
        have "client_step mx ev C = (if \<not> m_write ?E then writable mx a ?E else ?E)"
          using True none al \<open>m_contConnection C\<close> act unfolding File_Comes by (simp add: fileAdded_def Let_def)
        then have "client_step mx ev C = (if \<not> m_write ?D then writable mx a ?D else ?D)"
          unfolding E .
        then show ?thesis
          using writable_ok [OF D, of mx a] client_writing [OF D] al by simp
      next
        case False
        then obtain f fs where f: "m_files C = f # fs"
          by (cases "m_files C") auto
        have "f < ?n"
          using sending_Cons(1) [OF _ f] base by (simp add: client_base_def)
        then have "file_at ?D f = file_at C f" "wanted ?D f = wanted C f"
          by (simp_all add: file_at_def wanted_def nth_append)
        then have "waits ?D"
          using ok f al by (simp add: client_ok_def waits_def)
        moreover have "client_step mx ev C = ?D"
          using f al \<open>m_contConnection C\<close> unfolding File_Comes by (simp add: fileAdded_def)
        ultimately show ?thesis
          using D by (simp add: client_ok_def)
      qed
    qed
  qed (use ok File_Comes in simp)
next
  case (File_Grows f bs)
  then show ?thesis
    using ok grow_ok [OF ok] by simp
next
  case (File_Notifies f a)
  have told: "told_ok C"
    using ok by (simp add: client_ok_def client_base_def)
  have "client_ok (update_signal mx a f (on_file f (\<lambda>F. F\<lparr>rf_sizeLastUpdate := n\<rparr>) C))"
    if "f < length (run_files C)" "rf_active (file_at C f)" "n = length (rf_data (file_at C f))" for n
    by (rule signal_ok [OF ok that(1,2)]) (use that told in \<open>auto simp: grows_def intro!: told_on_file\<close>)
  then show ?thesis
    using ok unfolding File_Notifies by (simp add: notify_file_def Let_def)
next
  case (File_Ends f bs a)
  have told: "told_ok C"
    using ok by (simp add: client_ok_def client_base_def)
  have "client_ok (update_signal mx a f (on_file f (\<lambda>F. F\<lparr>rf_active := False, rf_data := rf_data F @ bs\<rparr>) C))"
    if "f < length (run_files C)" "rf_active (file_at C f)"
    by (rule signal_ok [OF ok that])
       (use that told told_file [OF told that(1)] in \<open>auto simp: grows_def intro!: told_on_file trans_le_add1\<close>)
  then show ?thesis
    using ok unfolding File_Ends by (simp add: terminate_file_def)
next
  case Run_Over
  have "sending (C\<lparr>run_active := False\<rparr>) = sending C" "file_at (C\<lparr>run_active := False\<rparr>) = file_at C"
    "wanted (C\<lparr>run_active := False\<rparr>) = wanted C"
    by (rule sending_cong; simp add: sent_bytes_def) (rule same_files; simp)+
  then show ?thesis
    using ok Run_Over by (auto simp: client_ok_def client_base_def listening_def waits_def told_ok_def split: list.splits)
next
  case (Socket_Ready a)
  then show ?thesis
    using ok writable_ok [of C mx a] by (simp add: client_ok_def)
next
  case (Service_Answers d)
  have "client_ok (die d C)"
    using ok sending_die by (simp add: client_ok_def client_base_def waits_def told_ok_def) (simp add: die_def)
  then show ?thesis
    using ok Service_Answers by simp
next
  case Socket_Closed
  have "C\<lparr>alive := False\<rparr> = die (m_disp C) C"
    by (simp add: die_def)
  moreover have "client_ok (die (m_disp C) C)"
    using ok sending_die by (simp add: client_ok_def client_base_def waits_def told_ok_def) (simp add: die_def)
  ultimately show ?thesis
    using ok Socket_Closed by simp
qed

definition files_ok :: "run_file list \<Rightarrow> bool \<Rightarrow> bool" where
  "files_ok fs act \<longleftrightarrow> (\<forall>F \<in> set fs. rf_sizeLastUpdate F \<le> length (rf_data F) \<and> (rf_active F \<longrightarrow> act))"

lemma new_client_ok:
  assumes "files_ok fs act"
  shows "client_ok (new_client fs act pd)"
proof -
  let ?C = "new_client fs act pd"
  have "sending ?C"
    by (rule sendingI [where k = 0]) (simp_all add: new_client_def sent_bytes_def)
  moreover have "listening ?C"
    using assms by (cases fs) (auto simp: listening_def new_client_def files_ok_def file_at_def upt_conv_Cons simp del: upt_Suc)
  moreover have "told_ok ?C" "m_write ?C"
    using assms by (auto simp: told_ok_def new_client_def files_ok_def)
  ultimately show ?thesis
    by (simp add: client_ok_def client_base_def waits_def)
qed

lemma run_client_ok: "client_ok C \<Longrightarrow> client_ok (run_client mx evs C)"
  unfolding run_client_def by (induction evs arbitrary: C) (simp_all add: client_step_ok)

section \<open>What was sent, over the files of the run\<close>

lemma send_files_paused: "m_send_paused_data (snd (send_files mx os fs C)) = m_send_paused_data C"
  by (induction mx os fs C rule: send_files.induct) (auto simp: die_def Let_def split: send_result.split prod.split)

lemma writable_paused [simp]: "m_send_paused_data (writable mx a C) = m_send_paused_data C"
  using send_files_paused [of mx "a_sends a" "m_files C" C]
  by (auto simp: writable_def die_def sendDataDone_def split: prod.split loop_end.split)

lemma client_step_paused: "m_send_paused_data (client_step mx ev C) = m_send_paused_data C"
  by (cases ev) (auto simp: fileAdded_def fileUpdated_def update_signal_def notify_file_def terminate_file_def die_def Let_def)

lemma run_client_paused: "m_send_paused_data (run_client mx evs C) = m_send_paused_data C"
  unfolding run_client_def by (induction evs arbitrary: C) (simp_all add: client_step_paused)

lemma wanted_bytes_run:
  "wanted_bytes C [0 ..< length (run_files C)] =
   concat (List.map rf_data (List.filter (\<lambda>F. \<not> rf_paused F \<or> m_send_paused_data C) (run_files C)))"
proof -
  have W: "wanted C = (\<lambda>f. \<not> rf_paused (file_at C f) \<or> m_send_paused_data C)"
    by (simp add: wanted_def fun_eq_iff)
  have files: "List.map (file_at C) [0 ..< length (run_files C)] = run_files C"
    by (rule nth_equalityI) (simp_all add: file_at_def)
  have "concat (List.map rf_data (List.filter (\<lambda>F. \<not> rf_paused F \<or> m_send_paused_data C)
      (List.map (file_at C) [0 ..< length (run_files C)]))) = wanted_bytes C [0 ..< length (run_files C)]"
    by (simp add: wanted_bytes_def W filter_map o_def)
  then show ?thesis
    unfolding files by simp
qed

lemma sent_prefix:
  assumes "sending C"
  shows "prefix (sent_bytes C) (wanted_bytes C [0 ..< length (run_files C)])"
proof -
  obtain k n where k: "k \<le> n" "n \<le> length (run_files C)" "m_files C = [k ..< n]"
    and b: "sent_bytes C = wanted_bytes C [0 ..< k] @ front C"
    and off: "m_cur_offset C \<le> (if k < n then length (rf_data (file_at C k)) else 0)" "m_cur_offset C \<noteq> 0 \<longrightarrow> wanted C k"
    using assms unfolding sending_def by blast
  have "[0 ..< length (run_files C)] = [0 ..< k] @ [k ..< length (run_files C)]"
    using k(1,2) upt_add_eq_append [of 0 k "length (run_files C) - k"] by simp
  moreover have "prefix (front C) (wanted_bytes C [k ..< length (run_files C)])"
  proof (cases "k < n \<and> m_cur_offset C \<noteq> 0")
    case True
    then show ?thesis
      using k off(2) by (simp add: front_def upt_conv_Cons take_is_prefix prefix_prefix)
  next
    case False
    then have "front C = []"
      using k off(1) by (auto simp: front_def upt_conv_Cons split: list.split)
    then show ?thesis by simp
  qed
  ultimately show ?thesis
    by (simp add: b)
qed

section \<open>Progress\<close>

text \<open>The bytes and files that are left.\<close>

definition left :: "stc_client \<Rightarrow> nat" where
  "left C = sum_list (List.map (\<lambda>f. Suc (length (rf_data (file_at C f)))) (m_files C)) - m_cur_offset C"

text \<open>Everything the client asks for works and every write lets at least a byte through.\<close>

definition willing :: "answers \<Rightarrow> bool" where
  "willing a \<longleftrightarrow> a_watch a \<and> a_done a \<and> a_sends a \<noteq> [] \<and> (\<forall>(opens, res) \<in> set (a_sends a). opens \<and> (\<exists>n \<ge> 1. res = Sends n))"

lemma left_next:
  assumes "sending C" "m_files C = f # fs"
  shows "left (next_file fs (C\<lparr>m_file_fd := b, m_cur_offset := 0\<rparr>)) < left C"
proof -
  let ?N = "next_file fs (C\<lparr>m_file_fd := b, m_cur_offset := 0\<rparr>)"
  have "file_at ?N = file_at C"
    by (rule same_files) simp_all
  then have "left ?N = sum_list (List.map (\<lambda>f. Suc (length (rf_data (file_at C f)))) fs)"
    unfolding left_def by simp
  then show ?thesis
    using sending_Cons(5) [OF assms] assms(2) by (simp add: left_def)
qed

lemma left_sendfile:
  assumes s: "sending C" and m: "m_files C = f # fs" and n: "1 \<le> n" "0 < mx"
    and more: "m_cur_offset (sendfile mx n f C) \<noteq> length (rf_data (file_at C f))"
  shows "left (sendfile mx n f C) < left C"
proof -
  note c = sending_Cons(5) [OF s m]
  let ?chunk = "take (min n mx) (drop (m_cur_offset C) (rf_data (file_at C f)))"
  have off: "m_cur_offset (sendfile mx n f C) = m_cur_offset C + length ?chunk"
    by (simp add: sendfile_def Let_def)
  have less: "m_cur_offset C < length (rf_data (file_at C f))"
    using c more off by (cases "m_cur_offset C = length (rf_data (file_at C f))") auto
  then have "0 < length ?chunk"
    using n by simp
  with off obtain k where k: "m_cur_offset (sendfile mx n f C) = m_cur_offset C + k" "0 < k"
    by blast
  then show ?thesis
    using less m unfolding left_def sendfile_same by simp
qed

lemma send_files_progress:
  "sending C \<Longrightarrow> listening C \<Longrightarrow> alive C \<Longrightarrow> m_files C = fs \<Longrightarrow> \<forall>f < length (run_files C). \<not> rf_active (file_at C f) \<Longrightarrow>
   0 < mx \<Longrightarrow> \<forall>(opens, res) \<in> set os. opens \<and> (\<exists>n \<ge> 1. res = Sends n) \<Longrightarrow> send_files mx os fs C = (r, C') \<Longrightarrow>
   (r = To_End \<or> r = To_More) \<and> left C' \<le> left C \<and> (r = To_More \<longrightarrow> os \<noteq> [] \<longrightarrow> left C' < left C)"
proof (induction mx os fs C rule: send_files.induct)
  case (1 mx os C)
  then show ?case by auto
next
  case (2 mx os f fs C)
  have f: "\<not> rf_active (file_at C f)"
    using sending_Cons(1) [OF 2(3,6)] 2(7) by blast
  show ?case
  proof (cases "skips C f")
    case True
    have "C\<lparr>m_file_fd := m_file_fd C, m_cur_offset := 0\<rparr> = C"
      using True by (cases C) (simp add: skips_def)
    then have "left (next_file fs C) < left C"
      using left_next [OF 2(3,6), of "m_file_fd C"] by simp
    moreover have "(r = To_End \<or> r = To_More) \<and> left C' \<le> left (next_file fs C) \<and>
        (r = To_More \<longrightarrow> os \<noteq> [] \<longrightarrow> left C' < left (next_file fs C))"
      by (rule "2.IH"(1) [OF True]) (use 2(3-) True skip_next in auto)
    ultimately show ?thesis by linarith
  next
    case False
    then have w: "wanted C f"
      using not_skipped 2(3,6) by blast
    let ?F = "C\<lparr>m_file_fd := True\<rparr>"
    have F: "wanted ?F f" "sending ?F" "m_files ?F = f # fs" "alive ?F" "listening ?F" "file_at ?F = file_at C" "left ?F = left C"
      using w 2(3-6) by (simp_all add: left_def)
    show ?thesis
    proof (cases os)
      case Nil
      then have "r = To_More" "C' = ?F"
        using 2(10) False by auto
      then show ?thesis
        using Nil F by simp
    next
      case (Cons o1 os')
      then obtain n where o1: "o1 = (True, Sends n)" "1 \<le> n"
        using 2(9) by (cases o1) auto
      let ?C1 = "sendfile mx n f ?F"
      have s1: "sending ?C1" "listening ?C1" "alive ?C1" "m_files ?C1 = f # fs"
        using sending_sendfile [OF F(2-4,1)] F by simp_all
      have le: "left ?C1 \<le> left C"
        using F(7) unfolding left_def sendfile_same by (simp add: sendfile_def Let_def)
      show ?thesis
      proof (cases "m_cur_offset ?C1 = length (rf_data (file_at C f))")
        case False
        then have "r = To_More" "C' = ?C1"
          using 2(10) \<open>\<not> skips C f\<close> Cons o1 by (auto simp: Let_def)
        moreover have "left ?C1 < left ?F"
          by (rule left_sendfile [OF F(2,3) o1(2) 2(8)]) (use False F(6) in simp)
        ultimately show ?thesis
          using F(7) by simp
      next
        case over: True
        let ?N = "next_file fs (?C1\<lparr>m_file_fd := False, m_cur_offset := 0\<rparr>)"
        have run: "send_files mx (tl os) fs ?N = (r, C')"
          using 2(10) \<open>\<not> skips C f\<close> Cons o1 over f by (simp add: Let_def)
        have N: "sending ?N"
          by (rule sending_next [OF s1(1,4,3)]) (use over F(6) f in simp)
        have at: "file_at ?N = file_at C"
          by (rule same_files) simp_all
        have "(case os of [] \<Rightarrow> (True, Send_Again) | a # _ \<Rightarrow> a) = (True, Sends n)"
          using Cons o1 by simp
        then have "(r = To_End \<or> r = To_More) \<and> left C' \<le> left ?N \<and> (r = To_More \<longrightarrow> tl os \<noteq> [] \<longrightarrow> left C' < left ?N)"
          by (intro "2.IH"(2) [OF False _ _ _ refl refl])
             (use over f N at run s1(3) 2(7-9) F(6) Cons o1 in auto)
        moreover have "left ?N < left ?C1"
          by (rule left_next [OF s1(1,4)])
        ultimately show ?thesis
          using le by linarith
      qed
    qed
  qed
qed

lemma finished_sent:
  assumes "sending C" "alive C" "m_files C = []"
  shows "sent_bytes C = wanted_bytes C [0 ..< length (run_files C)]"
proof -
  obtain k where k: "k \<le> length (run_files C)" "m_files C = [k ..< length (run_files C)]"
    and b: "sent_bytes C = wanted_bytes C [0 ..< k] @ front C"
    using assms(1,2) unfolding sending_def by blast
  have "k = length (run_files C)"
    using k assms(3) by (cases "k < length (run_files C)") (simp_all add: upt_conv_Cons)
  moreover have "front C = []"
    by (simp add: front_def assms(3))
  ultimately show ?thesis
    using b by simp
qed

lemma left_bound:
  assumes "sending C"
  shows "left C \<le> sum_list (List.map (\<lambda>F. Suc (length (rf_data F))) (run_files C))"
proof -
  let ?g = "\<lambda>f. Suc (length (rf_data (file_at C f)))"
  obtain k n where k: "k \<le> n" "n \<le> length (run_files C)" "m_files C = [k ..< n]"
    using assms unfolding sending_def by blast
  have "[0 ..< length (run_files C)] = [0 ..< k] @ [k ..< n] @ [n ..< length (run_files C)]"
    using k(1,2) upt_add_eq_append [of 0 k "length (run_files C) - k"] upt_add_eq_append [of k n "length (run_files C) - n"]
    by simp
  then have "sum_list (List.map ?g (m_files C)) \<le> sum_list (List.map ?g [0 ..< length (run_files C)])"
    unfolding k(3) by simp
  moreover have "List.map ?g [0 ..< length (run_files C)] = List.map (\<lambda>F. Suc (length (rf_data F))) (run_files C)"
    by (rule nth_equalityI) (simp_all add: file_at_def)
  ultimately show ?thesis
    by (simp add: left_def)
qed

lemma writable_progress:
  assumes ok: "client_ok C" and al: "alive C" "m_write C" and over: "\<not> run_active C"
    and ended: "\<forall>f < length (run_files C). \<not> rf_active (file_at C f)" and mx: "0 < mx" and a: "willing a"
  shows "alive (writable mx a C)" "\<not> run_active (writable mx a C)" "run_files (writable mx a C) = run_files C"
    "m_write (writable mx a C) \<Longrightarrow> left (writable mx a C) < left C"
    "\<not> m_write (writable mx a C) \<Longrightarrow> m_files (writable mx a C) = [] \<and> last (sent (writable mx a C)) = Data_Done"
proof -
  obtain r C1 where r: "send_files mx (a_sends a) (m_files C) C = (r, C1)"
    by (cases "send_files mx (a_sends a) (m_files C) C")
  have base: "sending C" "listening C"
    using ok by (simp_all add: client_ok_def client_base_def)
  have p: "passed r C C1"
    by (rule send_files_ok [OF base al(1) refl r])
  have q: "(r = To_End \<or> r = To_More) \<and> left C1 \<le> left C \<and> (r = To_More \<longrightarrow> a_sends a \<noteq> [] \<longrightarrow> left C1 < left C)"
    by (rule send_files_progress [OF base al(1) refl ended mx _ r]) (use a in \<open>simp add: willing_def\<close>)
  have "writable mx a C = (if r = To_End then (sendDataDone True C1)\<lparr>m_write := False\<rparr> else C1)"
    using r q p over al a by (auto simp: writable_def passed_def willing_def)
  then show "alive (writable mx a C)" "\<not> run_active (writable mx a C)" "run_files (writable mx a C) = run_files C"
    "m_write (writable mx a C) \<Longrightarrow> left (writable mx a C) < left C"
    "\<not> m_write (writable mx a C) \<Longrightarrow> m_files (writable mx a C) = [] \<and> last (sent (writable mx a C)) = Data_Done"
    using p q over al a by (auto simp: passed_def sendDataDone_def willing_def split: if_splits)
qed

lemma not_writing: "\<not> m_write C \<Longrightarrow> run_client mx (List.map Socket_Ready as) C = C"
  unfolding run_client_def by (induction as) simp_all

lemma client_ends:
  assumes "client_ok C" "alive C" "m_write C" "\<not> run_active C" "\<forall>f < length (run_files C). \<not> rf_active (file_at C f)"
    and mx: "0 < mx" and "\<forall>a \<in> set as. willing a" and "left C < length as"
  shows "let C' = run_client mx (List.map Socket_Ready as) C in
    client_ok C' \<and> alive C' \<and> \<not> m_write C' \<and> m_files C' = [] \<and> last (sent C') = Data_Done \<and>
    run_files C' = run_files C"
  using assms(1-5,7,8)
proof (induction as arbitrary: C)
  case (Cons a as)
  let ?W = "writable mx a C"
  note w = writable_progress [OF Cons.prems(1-5) mx, of a]
  have a: "willing a"
    using Cons.prems(6) by simp
  have run: "run_client mx (List.map Socket_Ready (a # as)) C = run_client mx (List.map Socket_Ready as) ?W"
    using Cons.prems(2,3) by (simp add: run_client_def)
  have ok: "client_ok ?W"
    using writable_ok [of C mx a] Cons.prems(1,2) by (simp add: client_ok_def)
  show ?case
  proof (cases "m_write ?W")
    case True
    have "\<forall>f < length (run_files ?W). \<not> rf_active (file_at ?W f)"
      using Cons.prems(5) w(3) [OF a] by (simp add: file_at_def)
    moreover have "left ?W < length as"
      using w(4) [OF a True] Cons.prems(7) by simp
    ultimately show ?thesis
      unfolding run using Cons.IH [of ?W] ok w(1-3) [OF a] True Cons.prems(6) by (simp add: Let_def)
  next
    case False
    then show ?thesis
      unfolding run not_writing [OF False] using ok w(1,3,5) [OF a] by (simp add: Let_def)
  qed
qed simp

section \<open>Properties\<close>

text \<open>
  C12. In any order of events, also after the client has ended, what it sent is a prefix of the files of its
  run in their order, without the files of pauses unless they are asked for: no byte is left out, repeated
  or out of place.
\<close>

theorem client_sends_in_order:
  assumes "files_ok fs act" and "C = run_client mx evs (new_client fs act pd)"
  shows "prefix (sent_bytes C) (concat (List.map rf_data (List.filter (\<lambda>F. \<not> rf_paused F \<or> pd) (run_files C))))"
proof -
  have "client_ok C" "m_send_paused_data C = pd"
    using run_client_ok [OF new_client_ok [OF assms(1)]] run_client_paused assms(2) by (simp_all add: new_client_def)
  then show ?thesis
    using sent_prefix [of C] by (simp add: client_ok_def client_base_def wanted_bytes_run)
qed

definition sample_file :: "bytes \<Rightarrow> bool \<Rightarrow> bool \<Rightarrow> run_file" where
  "sample_file bs act paused = \<lparr>rf_data = bs, rf_active = act, rf_paused = paused, rf_sizeLastUpdate = 0\<rparr>"

definition taking :: "nat list \<Rightarrow> answers" where
  "taking ns = \<lparr>a_sends = List.map (\<lambda>n. (True, Sends n)) ns, a_watch = True, a_done = True\<rparr>"

definition sample_files :: "run_file list" where
  "sample_files = [sample_file [1, 2, 3] False False, sample_file [4] False True, sample_file [5, 6] True False]"

theorem client_sends_in_order_witness:
  "prefix [1, 2, 3, 5, 6] (concat (List.map rf_data (List.filter (\<lambda>F. \<not> rf_paused F)
     (run_files (run_client 2 [Socket_Ready (taking [2]), Socket_Ready (taking [2, 9])] (new_client sample_files True False))))))"
proof -
  have ok: "files_ok sample_files True"
    by (simp add: files_ok_def sample_files_def sample_file_def)
  have "sent_bytes (run_client 2 [Socket_Ready (taking [2]), Socket_Ready (taking [2, 9])] (new_client sample_files True False)) =
      [1, 2, 3, 5, 6]"
    by code_simp
  then show ?thesis
    using client_sends_in_order [OF ok refl, of 2 "[Socket_Ready (taking [2]), Socket_Ready (taking [2, 9])]" False] by simp
qed

text \<open>
  C26. A client that does not wait for the socket has nothing to send: it sent all files it is to send, or
  it waits for the first file it has not finished, which is still written, and it listens to that file and
  sent all bytes it was notified of. So no update wakes it too late.
\<close>

theorem client_waits_for_data:
  assumes "files_ok fs act" and "C = run_client mx evs (new_client fs act pd)" and "alive C" and "\<not> m_write C"
  shows "sent_bytes C = concat (List.map rf_data (List.filter (\<lambda>F. \<not> rf_paused F \<or> pd) (run_files C))) \<or>
    (\<exists>f < length (run_files C). rf_active (run_files C ! f) \<and> m_fileConnection C = Some f \<and>
       (\<exists>k \<ge> rf_sizeLastUpdate (run_files C ! f). k \<le> length (rf_data (run_files C ! f)) \<and>
          sent_bytes C = concat (List.map rf_data (List.filter (\<lambda>F. \<not> rf_paused F \<or> pd) (take f (run_files C)))) @
            take k (rf_data (run_files C ! f))))"
proof -
  have ok: "client_ok C" and pd: "m_send_paused_data C = pd"
    using run_client_ok [OF new_client_ok [OF assms(1)]] run_client_paused assms(2) by (simp_all add: new_client_def)
  have s: "sending C"
    using ok by (simp add: client_ok_def client_base_def)
  show ?thesis
  proof (cases "m_files C")
    case Nil
    then show ?thesis
      using finished_sent [OF s assms(3)] pd by (simp add: wanted_bytes_run)
  next
    case (Cons f fs)
    note c = sending_Cons [OF s Cons]
    have w: "rf_active (file_at C f)" "rf_sizeLastUpdate (file_at C f) \<le> m_cur_offset C" "m_fileConnection C = Some f"
      using ok assms(3,4) Cons by (auto simp: client_ok_def client_base_def waits_def listening_def)
    let ?T = "C\<lparr>run_files := take f (run_files C)\<rparr>"
    have "wanted_bytes C [0 ..< f] = wanted_bytes ?T [0 ..< length (run_files ?T)]"
      using c(1) by (simp, intro wanted_bytes_cong) (auto simp: file_at_def)
    then have "wanted_bytes C [0 ..< f] = concat (List.map rf_data (List.filter (\<lambda>F. \<not> rf_paused F \<or> pd) (take f (run_files C))))"
      using pd by (simp only: wanted_bytes_run) simp
    then show ?thesis
      using c w by (intro disjI2 exI [of _ f]) (auto simp: file_at_def)
  qed
qed

theorem client_waits_for_data_witness:
  "\<exists>C. C = run_client 2 [Socket_Ready (taking [2, 2, 9])] (new_client [sample_file [1, 2] True False] True False) \<and>
    (sent_bytes C = [1, 2] \<or> m_fileConnection C = Some 0)"
proof -
  obtain C where e: "C = run_client 2 [Socket_Ready (taking [2, 2, 9])] (new_client [sample_file [1, 2] True False] True False)"
    by blast
  have ok: "files_ok [sample_file [1, 2] True False] True"
    by (simp add: files_ok_def sample_file_def)
  have C: "alive C" "\<not> m_write C" "run_files C = [sample_file [1, 2] True False]"
    unfolding e by code_simp+
  show ?thesis
    using client_waits_for_data [OF ok e C(1,2)] by (intro exI [of _ C] conjI e) (auto simp: C(3) sample_file_def)
qed

text \<open>
  C14. Once the run is over and its files have ended, a client that has the socket sends everything: after
  more writes than bytes and files are left, of which each lets a byte through, the service has all files
  of the run and then the data done packet, and the client waits for the answer.
\<close>

theorem client_finishes:
  assumes "files_ok fs act" and "C = run_client mx evs (new_client fs act pd)" and "alive C" and "m_write C"
    and "\<not> run_active C" and "\<forall>F \<in> set (run_files C). \<not> rf_active F" and "0 < mx"
    and "\<forall>a \<in> set as. willing a" and "sum_list (List.map (\<lambda>F. Suc (length (rf_data F))) (run_files C)) < length as"
    and "C' = run_client mx (List.map Socket_Ready as) C"
  shows "alive C' \<and> \<not> m_write C' \<and> last (sent C') = Data_Done \<and>
    sent_bytes C' = concat (List.map rf_data (List.filter (\<lambda>F. \<not> rf_paused F \<or> pd) (run_files C)))"
proof -
  have ok: "client_ok C"
    using run_client_ok [OF new_client_ok [OF assms(1)]] assms(2) by simp
  have s: "sending C"
    using ok by (simp add: client_ok_def client_base_def)
  have pd: "m_send_paused_data C' = pd"
    using run_client_paused assms(2,10) by (simp add: new_client_def)
  have "\<forall>f < length (run_files C). \<not> rf_active (file_at C f)"
    using assms(6) by (simp add: file_at_def)
  moreover have "left C < length as"
    using left_bound [OF s] assms(9) by simp
  ultimately have e: "client_ok C'" "alive C'" "\<not> m_write C'" "m_files C' = []" "last (sent C') = Data_Done"
    "run_files C' = run_files C"
    using client_ends [OF ok assms(3-5) _ assms(7,8)] assms(10) by (simp_all add: Let_def)
  have "sent_bytes C' = wanted_bytes C' [0 ..< length (run_files C')]"
    using finished_sent [OF _ e(2,4)] e(1) by (simp add: client_ok_def client_base_def)
  then have "sent_bytes C' = concat (List.map rf_data (List.filter (\<lambda>F. \<not> rf_paused F \<or> pd) (run_files C)))"
    unfolding wanted_bytes_run pd unfolding e(6) .
  then show ?thesis
    using e by simp
qed

theorem client_finishes_witness:
  "\<exists>C'. C' = run_client 2 (List.map Socket_Ready (replicate 9 (taking [1]))) (new_client [sample_file [1, 2, 3] False False, sample_file [4, 5] False False] False False) \<and>
    sent_bytes C' = [1, 2, 3, 4, 5] \<and> last (sent C') = Data_Done"
proof -
  let ?fs = "[sample_file [1, 2, 3] False False, sample_file [4, 5] False False]"
  let ?C = "new_client ?fs False False"
  have ok: "files_ok ?fs False"
    by (simp add: files_ok_def sample_file_def)
  have C: "?C = run_client 2 [] ?C" "alive ?C" "m_write ?C" "\<not> run_active ?C" "run_files ?C = ?fs"
    by (simp_all add: run_client_def new_client_def)
  have "\<forall>F \<in> set (run_files ?C). \<not> rf_active F" "(0 :: nat) < 2" "\<forall>a \<in> set (replicate 9 (taking [1])). willing a"
    "sum_list (List.map (\<lambda>F. Suc (length (rf_data F))) (run_files ?C)) < length (replicate 9 (taking [1]))"
    unfolding C(5) by (simp_all add: sample_file_def willing_def taking_def)
  from client_finishes [OF ok C(1-4) this refl] show ?thesis
    unfolding C(5) by (simp add: sample_file_def)
qed

text \<open>
  C37. A file that the container adds after the run is over makes the client send the data done packet too
  early: when files were held back for a pause the first of them, which has ended, is sent and followed by
  the data done packet, and the bytes of the next file come after it. (The translation service gives up a
  run on a data done packet before its end.)
\<close>

theorem data_done_too_early:
  assumes "length d1 \<le> mx" and "length d2 \<le> mx"
  shows "sent (run_client mx
      [Socket_Ready (taking []), Run_Over, File_Comes d1 False False (taking [mx]), File_Comes d2 True False (taking [mx])]
      (new_client [] True pd)) = [Chunk d1, Data_Done, Chunk d2]"
  using assms by (simp add: run_client_def new_client_def taking_def writable_def fileAdded_def Let_def file_at_def skips_def
      sendfile_def next_file_def sendDataDone_def)

theorem data_done_too_early_witness:
  "sent (run_client 10
      [Socket_Ready (taking []), Run_Over, File_Comes [1, 2] False False (taking [10]), File_Comes [3] True False (taking [10])]
      (new_client [] True False)) = [Chunk [1, 2], Data_Done, Chunk [3]]"
  by (rule data_done_too_early) simp_all

text \<open>The end of a run after its last file has ended is not noticed: the data done packet never goes out.\<close>

lemma run_over_unnoticed:
  "length d \<le> mx \<Longrightarrow> C = run_client mx
     [Socket_Ready (taking []), File_Comes d False False (taking [mx]), Run_Over] (new_client [] True pd) \<Longrightarrow>
   sent C = [Chunk d] \<and> \<not> m_write C \<and> m_files C = [] \<and> m_fileConnection C = None"
  by (simp add: run_client_def new_client_def taking_def writable_def fileAdded_def Let_def file_at_def skips_def
      sendfile_def next_file_def)

end
