(* ===== verification/Spec2Isabelle.thy ===== *)
theory Spec2Isabelle
  imports Meta_Files Pixel_Packet_V0 Pulse_Stream Stc_Run Data_Runs Translation_Runs Client_Runs
begin

text \<open>
  ADARA is the data acquisition system of the Spallation Neutron Source. Its parts speak one packet
  protocol (\<open>common/\<close>): the PVStreamer (\<open>PVStreamer/\<close>) turns EPICS process variables into packets, the
  stream management service (\<open>sms/\<close>) merges the streams of the detector electronics and of the
  PVStreamer into one, writes it to files and serves it to live clients, the translation service
  (\<open>stc/\<close>) turns a run into a NeXus file and the monitor (\<open>dasmon/\<close>) analyses the live stream.

  The development models the code every part rests on, the protocol and the parser; of the service
  the meta-data manager, which decides whether a file can be read by itself, the pixel map, the fast
  meta-data, the assembly and the buffering of pulses, the data sources that drive it and the clients
  that send runs on; and of the translation service the readers of pixel maps, the banks, monitors and
  pulses of a run.

  \<^item> \<open>Prelude\<close>: bytes and little-endian words, the error monad, arrays of words.
  \<^item> \<open>Packet_Types\<close>: \<open>common/ADARA.h\<close>, the packet types, versions, alarm states.
  \<^item> \<open>Packet_Header\<close>: \<open>PacketHeader\<close> and \<open>Packet\<close> of \<open>common/ADARAPackets.h\<close>. Memory is a list of
    bytes from the start of the packet to the end of the receive buffer; a read past it is the error
    \<open>Over_Read\<close>. The packet length is a 32-bit sum. The locales \<open>packet_ctor\<close> and \<open>packet_reader\<close> are
    the contract of a constructor: which bytes it needs, and that what it builds from an accepted
    packet depends on the bytes of the packet only.
  \<^item> \<open>Data_Packets\<close>, \<open>Control_Packets\<close>, \<open>Variable_Packets\<close>, \<open>Config_Packets\<close>, \<open>Event_Packets\<close>: the 32
    packet classes of \<open>common/ADARAPackets.cc\<close> with their checks in the order of the code, their
    accessors and iterators; every class interprets one of the two locales.
  \<^item> \<open>Stream_Parser\<close>, \<open>Stream_Session\<close>: \<open>Parser::bufferParse\<close> (\<open>common/ADARAParser.cc\<close>) with its
    buffer, its restart offset and the state of an oversize packet; the callbacks are parameters.
    \<open>cut\<close> is the specification of the split of a stream into packets, \<open>session\<close> a whole session of
    appends and parses, \<open>posix_read\<close> is \<open>POSIXParser::read\<close> (\<open>common/POSIXParser.cc\<close>) over a
    descriptor whose documented behaviour is the hypothesis \<open>fd_reads\<close>.
  \<^item> \<open>Packet_Dispatch\<close>: \<open>Parser::rxPacket\<close>, the default handlers and their statistics.
  \<^item> \<open>Last_Value\<close>: \<open>MetaDataMgr::extractLastValue\<close>, which replaces a packet of many values by a packet
    of the last one.
  \<^item> \<open>Meta_Data\<close>: the state and the operations of \<open>MetaDataMgr\<close> (\<open>sms/MetaDataMgr.cc\<close>): device maps,
    identifier allocation, descriptors, values, disconnects and the prologue, together with what the
    storage manager (\<open>sms/StorageManager.cc\<close>) does to it: a file that is due starts with the next
    packet and calls back for the prologue.
  \<^item> \<open>Meta_Ids\<close>: runs of the manager as a step relation and the invariant of the identifier maps.
  \<^item> \<open>Meta_Files\<close>: what a reader of the output files gets.
  \<^item> \<open>Ordered_Map\<close>: \<open>std::map\<close> as a sorted list of pairs.
  \<^item> \<open>Pixel_Map\<close>: \<open>sms/PixelMap.cc\<close>, the reading of a pixel map and the lookups; \<open>Pixel_Packets\<close> and
    \<open>Pixel_Packet_V0\<close>: the two mapping packets with their writers there and their readers in
    \<open>stc/StreamParser.cpp\<close>.
  \<^item> \<open>Fast_Meta\<close>: \<open>sms/FastMeta.cc\<close>, variables that arrive as events.
  \<^item> \<open>Pulse_Data\<close>: the pulse of \<open>sms/SMSControl.h\<close> and the sorting of the events of a packet into it
    (\<open>SMSControl::pulseEvents\<close>); \<open>Pulse_Counts\<close>: that the sorting is total and stable and keeps the
    counts of the pulse.
  \<^item> \<open>Pulse_Packets\<close>: the packets of a finished pulse (\<open>SMSControl::recordPulse\<close>) and the walk of the
    translation service over them; \<open>Pulse_Stream\<close>: that they are split again where they were joined.
  \<^item> \<open>Pulse_Buffer\<close>: the map of pulses of \<open>sms/SMSControl.cc\<close> with its event sources: when a pulse is
    complete or given up, and which pulses are recorded. \<open>Pulse_Queue\<close>: its operations as sequences of
    small steps, the refinement of an ordered queue and the locale \<open>buffer_invariant\<close>; \<open>Pulse_Runs\<close>:
    runs of calls, what is recorded and that every complete pulse is. \<open>Buffer_Events\<close>: that the buffer
    takes every packet its sources may pass on, and what it puts out is made of whole packets.
  \<^item> \<open>Data_Source\<close>: \<open>sms/DataSource.cc\<close>, the connections to the detector electronics. A data source has the
    state of its connection and a map of hardware sources; a hardware source has the list of its last
    pulses, its event source in the service and whether it is suspended. The operations are the handlers
    of data, RTDL, source list and heartbeat packets, of the timer and of the descriptor; \<open>system\<close> is the
    service with all its data sources and \<open>run_system\<close> a run of it.
  \<^item> \<open>Source_Registry\<close>, \<open>Source_Links\<close>, \<open>Source_System\<close>, \<open>Source_Handlers\<close>, \<open>Source_Runs\<close>: the invariants of
    such runs. What a call of the service does to its event sources, that event sources and hardware
    sources belong to each other, that the calls of the data sources are proper calls of the buffer, and
    both kept by every handler and every run.
  \<^item> \<open>Source_Sample\<close>: a small system and a run of it; \<open>Data_Runs\<close>: what follows for the whole service, that
    it never fails, refines the ordered queue, puts out whole packets, holds its event sources, gives up
    silent connections and finishes pulses in order.
  \<^item> \<open>Translation_Queue\<close>: \<open>sms/STCClientMgr.cc\<close>, the queue of runs to translate with its lookups,
    connections and timers; \<open>Translation_Client\<close>: \<open>sms/STCClient.cc\<close>, a client that sends the files of a
    run to the translation service while they are written. \<open>Translation_Runs\<close>, \<open>Client_Runs\<close>: both in any
    order of events: no run is lost, no byte is sent twice or left out, nothing waits without a reason.
  \<^item> \<open>Event_Index\<close>: how \<open>stc/StreamParser.cpp\<close> buffers the events of a bank or monitor and builds the
    event index; \<open>Bank_Events\<close>: \<open>processBankEvents\<close> with the array of banks and the histograms.
  \<^item> \<open>Bank_Histogram\<close>: the histograms against a count of the events; \<open>Bank_Sets\<close>: the packet of bank sets;
    \<open>Monitor_Events\<close>: the beam monitors and their configuration; \<open>Pulse_Info\<close>: pulse times and charges.
  \<^item> \<open>Event_Family\<close>: the contract \<open>event_family\<close> of a table of event buffers, interpreted on banks and on
    monitors; \<open>Stc_Run\<close>: a run of pulses in the translation service, with both.

  Bounds. Sizes and identifiers have the width of the code. The theorems on the parser ask for a
  maximum packet size of at most \<open>2 ^ 31\<close> (the doubling of the buffer wraps beyond) and for a stream
  whose headers are aligned and whose packet lengths do not wrap; \<open>zero_length_packet_no_progress\<close>
  shows what happens otherwise. The theorems on identifiers hold for runs of fewer than \<open>2 ^ 31 - 1\<close>
  steps, since every step uses at most one of the identifiers below \<open>0x80000000\<close>. No loop has fuel:
  loops that may not end are \<open>partial_function (option)\<close> and the theorems show that they return.

  The theorems on runs of the service ask for a clock below 2126, for packets that are whole (as the
  parser delivers them) and for connects without an error the code does not name, for which
  \<open>unknown_connect_error_ends_service\<close> shows what happens.

  Not modelled: logging, timing statistics, the text of messages; sockets, \<open>epoll\<close>, threads, EPICS and
  ActiveMQ; NeXus output through HDF5; the graphical monitor. Of the data sources the handlers of device,
  variable and annotation packets, which pass them on to the meta-data manager and the markers, the
  process variables, bandwidth statistics, the times for the clean-up of containers and saved input
  streams; what \<open>connect\<close> and a read say is an argument of the handlers. Of the service run control, markers,
  quick counters, live clients and the containers of the storage manager.
\<close>

end
